(* ===== verification/Prelude.thy ===== *)
theory Prelude
  imports Main "HOL-Library.Word" "HOL-Library.While_Combinator"
begin

text \<open>
  Shared vocabulary of the development: the return codes and sizes of \<^verbatim>\<open>include/kernel.h\<close> and
  \<^verbatim>\<open>include/conf.h\<close>, the C integer widths the kernel stores into, and generic facts on
  lists, total maps and \<^term>\<open>while_option\<close> loops.

  C integers are \<^typ>\<open>int\<close> values; a store into a narrower or overflowing place goes through
  \<open>s32\<close>, \<open>s16\<close> or \<open>u32\<close>, so that the wrap-around of the machine is part of the model and
  its absence is a theorem. A loop that need not end is a \<^term>\<open>while_option\<close>: not returning is
  the value \<^term>\<open>None\<close>.
\<close>

section \<open>Return codes and table sizes\<close>

abbreviation (input) OK :: int where "OK \<equiv> 1"
abbreviation (input) SYSERR :: int where "SYSERR \<equiv> - 1"
abbreviation (input) TIMEOUT :: int where "TIMEOUT \<equiv> - 3"
abbreviation (input) EMPTY :: int where "EMPTY \<equiv> - 1"

abbreviation (input) NPROC :: int where "NPROC \<equiv> 100"
abbreviation (input) NSEM :: int where "NSEM \<equiv> 100"
abbreviation (input) NQENT :: int where "NQENT \<equiv> NPROC + 4 + NSEM + NSEM"
abbreviation (input) NULLPROC :: int where "NULLPROC \<equiv> 0"
abbreviation (input) MAXKEY :: int where "MAXKEY \<equiv> 2147483647"
abbreviation (input) MINKEY :: int where "MINKEY \<equiv> - 2147483648"

section \<open>Machine integers\<close>

text \<open>Reduction of an integer to the two's complement range of \<open>int32\<close> and \<open>int16\<close>, and of a
  natural number to \<open>uint32\<close>.\<close>

definition s32 :: "int \<Rightarrow> int" where
  "s32 x = (x + 2147483648) mod 4294967296 - 2147483648"

definition s16 :: "int \<Rightarrow> int" where
  "s16 x = (x + 32768) mod 65536 - 32768"

definition u32 :: "nat \<Rightarrow> nat" where
  "u32 x = x mod 4294967296"

lemma s32_id [simp]: "- 2147483648 \<le> x \<Longrightarrow> x \<le> 2147483647 \<Longrightarrow> s32 x = x"
  by (simp add: s32_def)

lemma s32_range: "- 2147483648 \<le> s32 x \<and> s32 x \<le> 2147483647"
  unfolding s32_def by (smt (verit) pos_mod_bound pos_mod_sign)

lemma s16_id [simp]: "- 32768 \<le> x \<Longrightarrow> x \<le> 32767 \<Longrightarrow> s16 x = x"
  by (simp add: s16_def)

lemma s16_range: "- 32768 \<le> s16 x \<and> s16 x \<le> 32767"
  unfolding s16_def by (smt (verit) pos_mod_bound pos_mod_sign)

lemma u32_id [simp]: "x < 4294967296 \<Longrightarrow> u32 x = x"
  by (simp add: u32_def)

lemma u32_less [simp]: "u32 x < 4294967296"
  by (simp add: u32_def)

text \<open>Clearing the low bits of a word, as the rounding macros do.\<close>

lemma unat_and_not_mask: "unat (and w (not (mask k)) :: 32 word) = unat w div 2 ^ k * 2 ^ k"
proof -
  have "and w (not (mask k)) = push_bit k (drop_bit k w)"
    by (rule bit_word_eqI) (auto simp: bit_simps)
  also have "unat \<dots> = take_bit 32 (push_bit k (drop_bit k (unat w)))"
    by (simp add: unsigned_push_bit_eq unat_drop_bit_eq)
  also have "\<dots> = take_bit 32 (unat w div 2 ^ k * 2 ^ k)"
    by (simp add: push_bit_eq_mult drop_bit_eq_div)
  also have "\<dots> = unat w div 2 ^ k * 2 ^ k"
  proof (rule take_bit_nat_eq_self)
    have "unat w div 2 ^ k * 2 ^ k \<le> unat w" by simp
    also have "unat w < 2 ^ 32" using unsigned_less [of w] by simp
    finally show "unat w div 2 ^ k * 2 ^ k < 2 ^ 32" .
  qed
  finally show ?thesis .
qed

section \<open>Loops\<close>

lemma while_option_stop_now [simp]: "\<not> b s \<Longrightarrow> while_option b c s = Some s"
  by (subst while_option_unfold) simp

lemma while_option_step: "b s \<Longrightarrow> while_option b c s = while_option b c (c s)"
  by (subst while_option_unfold) simp

text \<open>A loop that walks along a chain of states given by a list reaches the first state of the
  chain at which the guard fails.\<close>

fun chain :: "('a \<Rightarrow> 'a) \<Rightarrow> 'a list \<Rightarrow> bool" where
  "chain f (x # y # zs) = (f x = y \<and> chain f (y # zs))"
| "chain f _ = True"

lemma while_option_chain:
  "chain f (xs @ y # ys) \<Longrightarrow> \<forall>x \<in> set xs. b x \<Longrightarrow> \<not> b y \<Longrightarrow>
   while_option b f (hd (xs @ [y])) = Some y"
proof (induction xs)
  case Nil
  then show ?case by simp
next
  case (Cons x xs)
  then have "f x = hd (xs @ [y])"
    by (cases xs) auto
  moreover have "chain f (xs @ y # ys)"
    using Cons.prems(1) by (cases xs) auto
  ultimately show ?case
    using Cons by (simp add: while_option_step)
qed

section \<open>Lists\<close>

lemma takeWhile_dropWhile_split:
  "xs = takeWhile P xs @ dropWhile P xs" "\<forall>x \<in> set (takeWhile P xs). P x"
  by (auto dest: set_takeWhileD)

lemma dropWhile_hd: "dropWhile P xs = y # ys \<Longrightarrow> \<not> P y"
  by (metis hd_dropWhile list.distinct(1) list.sel(1))

lemma ends_split:
  obtains us1 vs1 where "x # us = us1 @ [last (x # us)]" "vs @ [t] = hd (vs @ [t]) # vs1"
proof
  show "x # us = butlast (x # us) @ [last (x # us)]" by simp
  show "vs @ [t] = hd (vs @ [t]) # tl (vs @ [t])" by (cases vs) auto
qed

lemma remove1_middle [simp]: "x \<notin> set us \<Longrightarrow> remove1 x (us @ x # vs) = us @ vs"
  by (simp add: remove1_append)

section \<open>The contract of a first-in first-out queue\<close>

text \<open>Process queues, the message queues of ports and the terminal's character buffers are all used as
  FIFO queues. The contract: \<open>put\<close> appends when there is \<open>room\<close>, \<open>get\<close> takes the oldest
  element. What its clients rely on is that elements come out in the order they went in.\<close>

fun drain :: "('s \<Rightarrow> 'a \<times> 's) \<Rightarrow> nat \<Rightarrow> 's \<Rightarrow> 'a list \<times> 's" where
  "drain get 0 s = ([], s)"
| "drain get (Suc n) s = (case get s of (x, s1) \<Rightarrow> case drain get n s1 of (xs, s2) \<Rightarrow> (x # xs, s2))"

fun fill :: "('a \<Rightarrow> 's \<Rightarrow> bool) \<Rightarrow> ('a \<Rightarrow> 's \<Rightarrow> 's) \<Rightarrow> 'a list \<Rightarrow> 's \<Rightarrow> 's option" where
  "fill room put [] s = Some s"
| "fill room put (x # xs) s = (if room x s then fill room put xs (put x s) else None)"

locale fifo =
  fixes inv :: "'s \<Rightarrow> bool" and contents :: "'s \<Rightarrow> 'a list"
    and room :: "'a \<Rightarrow> 's \<Rightarrow> bool" and put :: "'a \<Rightarrow> 's \<Rightarrow> 's" and get :: "'s \<Rightarrow> 'a \<times> 's"
  assumes put_law: "inv s \<Longrightarrow> room x s \<Longrightarrow> inv (put x s) \<and> contents (put x s) = contents s @ [x]"
    and get_law: "inv s \<Longrightarrow> contents s = x # xs \<Longrightarrow> fst (get s) = x \<and> inv (snd (get s)) \<and> contents (snd (get s)) = xs"
begin

lemma fill_contents: "inv s \<Longrightarrow> fill room put xs s = Some t \<Longrightarrow> inv t \<and> contents t = contents s @ xs"
  by (induction xs arbitrary: s) (force dest: put_law split: if_splits)+

lemma drain_contents:
  "inv s \<Longrightarrow> n \<le> length (contents s) \<Longrightarrow> drain get n s = (xs, t) \<Longrightarrow>
   xs = take n (contents s) \<and> inv t \<and> contents t = drop n (contents s)"
proof (induction n arbitrary: s xs)
  case (Suc n)
  then obtain y ys where c: "contents s = y # ys" by (cases "contents s") auto
  obtain s1 where g: "get s = (y, s1)" "inv s1" "contents s1 = ys" using get_law [OF Suc.prems(1) c] by (cases "get s") auto
  obtain zs where z: "drain get n s1 = (zs, t)" "xs = y # zs" using Suc.prems(3) g(1) by (auto split: prod.splits)
  show ?case using Suc.IH [OF g(2) _ z(1)] Suc.prems(2) c g(3) z(2) by simp
qed simp

lemma first_in_first_out:
  assumes "inv s" "contents s = []" "fill room put xs s = Some t"
  shows "fst (drain get (length xs) t) = xs" "contents (snd (drain get (length xs) t)) = []"
  using fill_contents [OF assms(1,3)] drain_contents [of t "length xs"] assms(2)
  by (cases "drain get (length xs) t"; simp)+

end

end
