(* ===== verification/Kernel_State.thy ===== *)
theory Kernel_State
  imports Prelude
begin

text \<open>
  The data of the kernel: the process, queue and semaphore tables, the deferral record, the
  clock variables and the memory, as the structs and globals of \<^verbatim>\<open>include/*.h\<close> and
  \<^verbatim>\<open>system/initialize.c\<close> declare them, gathered in one record \<open>kernel\<close>.

  Tables are total maps from indices; an index is the \<^typ>\<open>int\<close> the C code computes, so that
  \<^verbatim>\<open>EMPTY\<close> (\<open>-1\<close>) is an index like any other and staying inside the table is something to
  prove.

  A context switch saves the stack of the old process and loads that of the new one. The part of
  a stack that matters to the kernel is which system call the process is inside of and what that
  call still has to do; the datatype \<open>frame\<close> lists those points, and \<open>pframe\<close> holds the
  suspended one of each process. \<open>devlog\<close> records the calls into device drivers and into the
  disposal functions that the callers of the port system pass, \<open>kstat\<close> whether the processor
  still runs.
\<close>

section \<open>Queue table\<close>

record qentry =
  qkey :: int
  qnext :: int
  qprev :: int

type_synonym qtab = "int \<Rightarrow> qentry"

section \<open>Process table\<close>

datatype prstate =
  PR_FREE | PR_CURR | PR_READY | PR_RECV | PR_SLEEP | PR_SUSP | PR_WAIT | PR_RECTIM

type_synonym umsg32 = "32 word"

record procent =
  prstate :: prstate
  prprio :: int
  prstkptr :: nat
  prstkbase :: nat
  prstklen :: nat
  prname :: string
  prsem :: int
  prparent :: int
  prmsg :: umsg32
  prhasmsg :: bool
  prdesc :: "int list"

type_synonym ptab = "int \<Rightarrow> procent"

section \<open>Semaphore table\<close>

datatype sstate = S_FREE | S_USED

record sentry =
  sstate :: sstate
  scount :: int
  squeue :: int

type_synonym stab = "int \<Rightarrow> sentry"

section \<open>Memory\<close>

text \<open>Word-addressed memory (byte addresses of aligned 32-bit words) and the globals of
  \<^verbatim>\<open>system/meminit.c\<close>. \<open>memlist\<close> is the address of the list head, a \<^verbatim>\<open>struct memblk\<close>
  that the linker places below the heap.\<close>

type_synonym heap = "nat \<Rightarrow> nat"

record memory =
  mem :: heap
  memlist :: nat
  minheap :: nat
  maxheap :: nat

section \<open>Buffer pools and ports\<close>

text \<open>The tables of \<^verbatim>\<open>include/bufpool.h\<close> and \<^verbatim>\<open>include/ports.h\<close>. Buffers and message nodes are
  kept in the heap: a free buffer at \<open>a\<close> has its \<open>bpnext\<close> in the word at \<open>a\<close>, a node at \<open>a\<close>
  its \<open>ptmsg\<close> at \<open>a\<close> and its \<open>ptnext\<close> at \<open>a + 4\<close>.\<close>

record bpentry =
  bpnext :: nat
  bpsem :: int
  bpsize :: nat

datatype ptstate = PT_FREE | PT_LIMBO | PT_ALLOC

record ptentry =
  ptssem :: int
  ptrsem :: int
  ptstate :: ptstate
  ptmaxcnt :: nat
  ptseq :: int
  pthead :: nat
  pttail :: nat

section \<open>Suspended system calls, calls out of the kernel, processor status\<close>

datatype frame =
    F_suspend int
  | F_receive
  | F_recvtime
  | F_kill int
  | F_getbuf int
  | F_ptsend int umsg32 int
  | F_ptrecv int int
  | F_ptclear int ptstate nat
  | F_mark nat

datatype devcall = DevClose int | Dispose umsg32

datatype kstatus = Running | Halted | Hung

record kernel =
  queuetab :: qtab
  nextqid :: int
  proctab :: ptab
  prcount :: int
  currpid :: int
  nextpid :: int
  readylist :: int
  semtab :: stab
  nextsem :: int
  ndefers :: int
  attempt :: bool
  sleepq :: int
  clktime :: nat
  count1000 :: nat
  preempt :: nat
  kmem :: memory
  pframe :: "int \<Rightarrow> frame option"
  buftab :: "int \<Rightarrow> bpentry"
  nbpools :: int
  ptfree :: nat
  porttab :: "int \<Rightarrow> ptentry"
  ptnextid :: int
  marks :: "int \<Rightarrow> nat"
  nmarks :: int
  mkmutex :: int
  devlog :: "devcall list"
  kstat :: kstatus

abbreviation (input) QUANTUM :: nat where "QUANTUM \<equiv> 2"

section \<open>Table access\<close>

text \<open>The macros of \<^verbatim>\<open>queue.h\<close>, \<^verbatim>\<open>process.h\<close> and \<^verbatim>\<open>semaphore.h\<close>, and the writes
  \<^verbatim>\<open>queuetab[i].f = v\<close>, \<^verbatim>\<open>prptr->f = v\<close>, \<^verbatim>\<open>semptr->f = v\<close> as updates of one entry.\<close>

abbreviation (input) queuehead :: "int \<Rightarrow> int" where "queuehead q \<equiv> q"
abbreviation (input) queuetail :: "int \<Rightarrow> int" where "queuetail q \<equiv> q + 1"

definition firstid :: "qtab \<Rightarrow> int \<Rightarrow> int" where
  "firstid qt q = qnext (qt (queuehead q))"

definition lastid :: "qtab \<Rightarrow> int \<Rightarrow> int" where
  "lastid qt q = qprev (qt (queuetail q))"

definition isempty :: "qtab \<Rightarrow> int \<Rightarrow> bool" where
  "isempty qt q \<longleftrightarrow> firstid qt q \<ge> NPROC"

definition nonempty :: "qtab \<Rightarrow> int \<Rightarrow> bool" where
  "nonempty qt q \<longleftrightarrow> firstid qt q < NPROC"

definition firstkey :: "qtab \<Rightarrow> int \<Rightarrow> int" where
  "firstkey qt q = qkey (qt (firstid qt q))"

definition lastkey :: "qtab \<Rightarrow> int \<Rightarrow> int" where
  "lastkey qt q = qkey (qt (lastid qt q))"

definition isbadqid :: "int \<Rightarrow> bool" where
  "isbadqid x \<longleftrightarrow> x < NPROC \<or> x \<ge> NQENT - 1"

definition isbadpid :: "ptab \<Rightarrow> int \<Rightarrow> bool" where
  "isbadpid pt x \<longleftrightarrow> x < 0 \<or> x \<ge> NPROC \<or> prstate (pt x) = PR_FREE"

definition isbadsem :: "int \<Rightarrow> bool" where
  "isbadsem s \<longleftrightarrow> s < 0 \<or> s \<ge> NSEM"

definition set_qnext :: "qtab \<Rightarrow> int \<Rightarrow> int \<Rightarrow> qtab" where
  "set_qnext qt i v = qt(i := (qt i)\<lparr>qnext := v\<rparr>)"

definition set_qprev :: "qtab \<Rightarrow> int \<Rightarrow> int \<Rightarrow> qtab" where
  "set_qprev qt i v = qt(i := (qt i)\<lparr>qprev := v\<rparr>)"

definition set_qkey :: "qtab \<Rightarrow> int \<Rightarrow> int \<Rightarrow> qtab" where
  "set_qkey qt i v = qt(i := (qt i)\<lparr>qkey := v\<rparr>)"

definition upd_proc :: "int \<Rightarrow> (procent \<Rightarrow> procent) \<Rightarrow> kernel \<Rightarrow> kernel" where
  "upd_proc p f s = s\<lparr>proctab := (proctab s)(p := f (proctab s p))\<rparr>"

definition set_state :: "int \<Rightarrow> prstate \<Rightarrow> kernel \<Rightarrow> kernel" where
  "set_state p st s = upd_proc p (\<lambda>e. e\<lparr>prstate := st\<rparr>) s"

definition upd_sem :: "int \<Rightarrow> (sentry \<Rightarrow> sentry) \<Rightarrow> kernel \<Rightarrow> kernel" where
  "upd_sem i f s = s\<lparr>semtab := (semtab s)(i := f (semtab s i))\<rparr>"

lemmas qmacro_defs = firstid_def lastid_def isempty_def nonempty_def firstkey_def lastkey_def
lemmas set_q_defs = set_qnext_def set_qprev_def set_qkey_def
lemmas upd_defs = upd_proc_def set_state_def upd_sem_def

end
