(* ===== verification/Proc_Queue.thy ===== *)
theory Proc_Queue
  imports Kernel_State
begin

text \<open>
  The process queues of \<^verbatim>\<open>system/queue.c\<close>, \<^verbatim>\<open>getitem.c\<close>, \<^verbatim>\<open>insert.c\<close>, \<^verbatim>\<open>insertd.c\<close> and
  \<^verbatim>\<open>newqueue.c\<close>: doubly linked lists threaded through one table, with a head and a tail node
  per queue and one node per process. The operations follow the C statements store by store. The
  relation \<open>qrel\<close> says which list of process IDs each queue holds; every operation is shown to
  implement the list operation it stands for and to leave all other queues alone.
\<close>

section \<open>Operations\<close>

definition enqueue :: "int \<Rightarrow> int \<Rightarrow> kernel \<Rightarrow> int \<times> kernel" where
  "enqueue pid q s =
     (if isbadqid q \<or> isbadpid (proctab s) pid then (SYSERR, s)
      else
        let tail = queuetail q;
            prev = qprev (queuetab s tail);
            qt1 = set_qnext (queuetab s) pid tail;
            qt2 = set_qprev qt1 pid prev;
            qt3 = set_qnext qt2 prev pid;
            qt4 = set_qprev qt3 tail pid
        in (pid, s\<lparr>queuetab := qt4\<rparr>))"

definition getitem :: "int \<Rightarrow> kernel \<Rightarrow> int \<times> kernel" where
  "getitem pid s =
     (let nxt = qnext (queuetab s pid);
          prev = qprev (queuetab s pid);
          qt1 = set_qnext (queuetab s) prev nxt;
          qt2 = set_qprev qt1 nxt prev
      in (pid, s\<lparr>queuetab := qt2\<rparr>))"

definition getfirst :: "int \<Rightarrow> kernel \<Rightarrow> int \<times> kernel" where
  "getfirst q s =
     (if isempty (queuetab s) q then (EMPTY, s)
      else getitem (qnext (queuetab s (queuehead q))) s)"

definition getlast :: "int \<Rightarrow> kernel \<Rightarrow> int \<times> kernel" where
  "getlast q s =
     (if isempty (queuetab s) q then (EMPTY, s)
      else getitem (qprev (queuetab s (queuetail q))) s)"

definition dequeue :: "int \<Rightarrow> kernel \<Rightarrow> int \<times> kernel" where
  "dequeue q s =
     (if isbadqid q then (SYSERR, s)
      else if isempty (queuetab s) q then (EMPTY, s)
      else
        let (pid, s1) = getfirst q s;
            qt1 = set_qprev (queuetab s1) pid EMPTY;
            qt2 = set_qnext qt1 pid EMPTY
        in (pid, s1\<lparr>queuetab := qt2\<rparr>))"

text \<open>The scan of \<^verbatim>\<open>insert.c\<close> lines 22 to 25; it returns \<^term>\<open>None\<close> if no entry reached from
  the head has a key below \<open>key\<close>.\<close>

definition insert_scan :: "qtab \<Rightarrow> int \<Rightarrow> int \<Rightarrow> int option" where
  "insert_scan qt q key =
     while_option (\<lambda>cur. qkey (qt cur) \<ge> key) (\<lambda>cur. qnext (qt cur)) (firstid qt q)"

definition insert_at :: "int \<Rightarrow> int \<Rightarrow> int \<Rightarrow> qtab \<Rightarrow> qtab" where
  "insert_at pid cur key qt =
     (let prev = qprev (qt cur);
          qt1 = set_qnext qt pid cur;
          qt2 = set_qprev qt1 pid prev;
          qt3 = set_qkey qt2 pid key;
          qt4 = set_qnext qt3 prev pid
      in set_qprev qt4 cur pid)"

definition insert_q :: "int \<Rightarrow> int \<Rightarrow> int \<Rightarrow> kernel \<Rightarrow> int \<times> kernel" where
  "insert_q pid q key s =
     (if isbadqid q \<or> isbadpid (proctab s) pid then (SYSERR, s)
      else case insert_scan (queuetab s) q key of
             None \<Rightarrow> (SYSERR, s\<lparr>kstat := Hung\<rparr>)
           | Some cur \<Rightarrow> (OK, s\<lparr>queuetab := insert_at pid cur key (queuetab s)\<rparr>))"

text \<open>The scan of \<^verbatim>\<open>insertd.c\<close> lines 22 to 28 over the triple of \<open>prev\<close>, \<open>next\<close> and the
  remaining delay.\<close>

definition insertd_scan :: "qtab \<Rightarrow> int \<Rightarrow> int \<Rightarrow> (int \<times> int \<times> int) option" where
  "insertd_scan qt q key =
     while_option (\<lambda>(prev, nxt, key). nxt \<noteq> queuetail q \<and> qkey (qt nxt) \<le> key)
       (\<lambda>(prev, nxt, key). (nxt, qnext (qt nxt), s32 (key - qkey (qt nxt))))
       (queuehead q, qnext (qt (queuehead q)), key)"

definition insertd_at :: "int \<Rightarrow> int \<Rightarrow> int \<Rightarrow> int \<Rightarrow> int \<Rightarrow> qtab \<Rightarrow> qtab" where
  "insertd_at pid q prev nxt key qt =
     (let qt1 = set_qnext qt pid nxt;
          qt2 = set_qprev qt1 pid prev;
          qt3 = set_qkey qt2 pid key;
          qt4 = set_qnext qt3 prev pid;
          qt5 = set_qprev qt4 nxt pid
      in if nxt \<noteq> queuetail q then set_qkey qt5 nxt (s32 (qkey (qt5 nxt) - key)) else qt5)"

definition insertd :: "int \<Rightarrow> int \<Rightarrow> int \<Rightarrow> kernel \<Rightarrow> int \<times> kernel" where
  "insertd pid q key s =
     (if isbadqid q \<or> isbadpid (proctab s) pid then (SYSERR, s)
      else case insertd_scan (queuetab s) q key of
             None \<Rightarrow> (SYSERR, s\<lparr>kstat := Hung\<rparr>)
           | Some (prev, nxt, key') \<Rightarrow>
               (OK, s\<lparr>queuetab := insertd_at pid q prev nxt key' (queuetab s)\<rparr>))"

definition newqueue :: "kernel \<Rightarrow> int \<times> kernel" where
  "newqueue s =
     (let q = nextqid s in
      if q \<ge> NQENT then (SYSERR, s)
      else
        let qt1 = set_qnext (queuetab s) (queuehead q) (queuetail q);
            qt2 = set_qprev qt1 (queuehead q) EMPTY;
            qt3 = set_qkey qt2 (queuehead q) MAXKEY;
            qt4 = set_qnext qt3 (queuetail q) EMPTY;
            qt5 = set_qprev qt4 (queuetail q) (queuehead q);
            qt6 = set_qkey qt5 (queuetail q) MINKEY
        in (q, s\<lparr>nextqid := nextqid s + 2, queuetab := qt6\<rparr>))"

section \<open>Chains and the list a queue holds\<close>

lemma chain_snoc_Cons: "chain f (xs @ y # ys) \<longleftrightarrow> chain f (xs @ [y]) \<and> chain f (y # ys)"
proof (induction xs)
  case (Cons x xs)
  then show ?case by (cases xs) auto
qed simp

lemma chain_upd: "p \<notin> set (butlast xs) \<Longrightarrow> chain (f(p := v)) xs = chain f xs"
  by (induction f xs rule: chain.induct) auto

lemma chain_cong: "(\<And>x. x \<in> set xs \<Longrightarrow> f x = g x) \<Longrightarrow> chain f xs = chain g xs"
  by (induction f xs rule: chain.induct) auto

lemma chain_splice:
  assumes "chain f (us @ a # b # vs)" "distinct (us @ a # b # vs)" "p \<notin> set (us @ a # b # vs)"
  shows "chain (f(p := b, a := p)) (us @ a # p # b # vs)"
proof -
  have 1: "chain f (us @ [a])" and 2: "chain f (b # vs)"
    using assms(1) by (subst (asm) chain_snoc_Cons; simp)+
  from 1 assms(2,3) have "chain (f(p := b, a := p)) (us @ [a])"
    by (simp add: chain_upd)
  moreover have "chain (f(p := b, a := p)) (b # vs) = chain f (b # vs)"
    using assms(2,3) by (intro chain_cong) auto
  ultimately show ?thesis
    using 2 assms by (subst chain_snoc_Cons) auto
qed

lemma chain_unsplice:
  assumes "chain f (us @ a # p # b # vs)" "distinct (us @ a # p # b # vs)"
  shows "chain (f(a := b)) (us @ a # b # vs)"
proof -
  have 1: "chain f (us @ [a])" and 2: "chain f (b # vs)"
    using assms(1) by (subst (asm) chain_snoc_Cons; simp)+
  from 1 assms(2) have "chain (f(a := b)) (us @ [a])"
    by (simp add: chain_upd)
  moreover have "chain (f(a := b)) (b # vs) = chain f (b # vs)"
    using assms(2) by (intro chain_cong) auto
  ultimately show ?thesis
    using 2 by (subst chain_snoc_Cons) auto
qed

definition nx :: "qtab \<Rightarrow> int \<Rightarrow> int" where "nx qt = (\<lambda>i. qnext (qt i))"
definition pv :: "qtab \<Rightarrow> int \<Rightarrow> int" where "pv qt = (\<lambda>i. qprev (qt i))"
definition ky :: "qtab \<Rightarrow> int \<Rightarrow> int" where "ky qt = (\<lambda>i. qkey (qt i))"

lemma field_set [simp]:
  "nx (set_qnext qt i v) = (nx qt)(i := v)" "nx (set_qprev qt i v) = nx qt"
  "nx (set_qkey qt i v) = nx qt"
  "pv (set_qprev qt i v) = (pv qt)(i := v)" "pv (set_qnext qt i v) = pv qt"
  "pv (set_qkey qt i v) = pv qt"
  "ky (set_qkey qt i v) = (ky qt)(i := v)" "ky (set_qnext qt i v) = ky qt"
  "ky (set_qprev qt i v) = ky qt"
  by (auto simp: nx_def pv_def ky_def set_q_defs fun_eq_iff)

lemma field_fold:
  "qnext (qt i) = nx qt i" "qprev (qt i) = pv qt i" "qkey (qt i) = ky qt i"
  by (auto simp: nx_def pv_def ky_def)

text \<open>Queue \<open>q\<close> holds exactly the processes \<open>xs\<close>, in that order.\<close>

definition qrep :: "qtab \<Rightarrow> int \<Rightarrow> int list \<Rightarrow> bool" where
  "qrep qt q xs \<longleftrightarrow>
     chain (nx qt) (q # xs @ [q + 1]) \<and> chain (pv qt) ((q + 1) # rev xs @ [q]) \<and>
     distinct xs \<and> set xs \<subseteq> {0..<NPROC} \<and> ky qt q = MAXKEY \<and> ky qt (q + 1) = MINKEY"

definition is_head :: "kernel \<Rightarrow> int \<Rightarrow> bool" where
  "is_head s q \<longleftrightarrow> NPROC \<le> q \<and> q < nextqid s \<and> even (q - NPROC)"

definition qrel :: "kernel \<Rightarrow> (int \<Rightarrow> int list) \<Rightarrow> bool" where
  "qrel s L \<longleftrightarrow>
     NPROC \<le> nextqid s \<and> nextqid s \<le> NQENT \<and> even (nextqid s) \<and>
     (\<forall>q. is_head s q \<longrightarrow> qrep (queuetab s) q (L q)) \<and>
     (\<forall>q q'. is_head s q \<longrightarrow> is_head s q' \<longrightarrow> q \<noteq> q' \<longrightarrow> set (L q) \<inter> set (L q') = {})"

text \<open>The executable view: walk from the first node until a head or tail node is met. A hundred
  and one steps suffice, since a queue holds distinct process IDs.\<close>

fun qwalk :: "nat \<Rightarrow> qtab \<Rightarrow> int \<Rightarrow> int list" where
  "qwalk 0 qt i = []"
| "qwalk (Suc n) qt i = (if 0 \<le> i \<and> i < NPROC then i # qwalk n qt (qnext (qt i)) else [])"

definition qlist :: "kernel \<Rightarrow> int \<Rightarrow> int list" where
  "qlist s q = qwalk 101 (queuetab s) (firstid (queuetab s) q)"

lemma qwalk_chain:
  "chain (nx qt) (xs @ [t]) \<Longrightarrow> set xs \<subseteq> {0..<NPROC} \<Longrightarrow> t \<ge> NPROC \<Longrightarrow> length xs < n \<Longrightarrow>
   qwalk n qt (hd (xs @ [t])) = xs"
proof (induction xs arbitrary: n)
  case Nil
  then show ?case by (cases n) auto
next
  case (Cons x xs)
  then obtain m where n: "n = Suc m" by (cases n) auto
  have c: "chain (nx qt) (xs @ [t])" and h: "qnext (qt x) = hd (xs @ [t])"
    using Cons.prems(1) by (cases xs; auto simp: nx_def)+
  from Cons.IH [OF c] Cons.prems n h show ?case by simp
qed

lemma qrep_length: "qrep qt q xs \<Longrightarrow> length xs \<le> 100"
proof -
  assume "qrep qt q xs"
  then have "distinct xs" "set xs \<subseteq> {0..<NPROC}" by (auto simp: qrep_def)
  then have "card (set xs) \<le> card {0..<NPROC}" by (intro card_mono) auto
  with \<open>distinct xs\<close> show ?thesis by (simp add: distinct_card)
qed

lemma qrep_firstid: "qrep qt q xs \<Longrightarrow> firstid qt q = hd (xs @ [q + 1])"
  by (cases xs) (auto simp: qrep_def firstid_def nx_def)

lemma qrep_lastid: "qrep qt q xs \<Longrightarrow> lastid qt q = last (q # xs)"
  by (cases xs rule: rev_cases) (auto simp: qrep_def lastid_def pv_def)

lemma qrel_qlist: "qrel s L \<Longrightarrow> is_head s q \<Longrightarrow> qlist s q = L q"
proof -
  assume "qrel s L" "is_head s q"
  then have r: "qrep (queuetab s) q (L q)" and q: "q \<ge> NPROC"
    by (auto simp: qrel_def is_head_def)
  from r have "chain (nx (queuetab s)) (L q @ [q + 1])" "set (L q) \<subseteq> {0..<NPROC}"
    by (cases "L q"; auto simp: qrep_def)+
  with q qrep_length [OF r] have "qwalk 101 (queuetab s) (hd (L q @ [q + 1])) = L q"
    by (intro qwalk_chain) auto
  with qrep_firstid [OF r] show ?thesis by (simp add: qlist_def)
qed

lemma is_head_facts:
  assumes "qrel s L" "is_head s q"
  shows "NPROC \<le> q" "q < NQENT - 1" "\<not> isbadqid q"
  using assms by (auto simp: qrel_def is_head_def isbadqid_def) presburger+

lemma is_head_distinct:
  "is_head s q \<Longrightarrow> is_head s q' \<Longrightarrow> q \<noteq> q' \<Longrightarrow> {q, q + 1} \<inter> {q', q' + 1} = {}"
  unfolding is_head_def by (auto; presburger)

lemma qrel_isempty:
  "qrel s L \<Longrightarrow> is_head s q \<Longrightarrow> isempty (queuetab s) q \<longleftrightarrow> L q = []"
  "qrel s L \<Longrightarrow> is_head s q \<Longrightarrow> nonempty (queuetab s) q \<longleftrightarrow> L q \<noteq> []"
proof -
  assume "qrel s L" "is_head s q"
  then have r: "qrep (queuetab s) q (L q)" and q: "q \<ge> NPROC"
    by (auto simp: qrel_def is_head_def)
  from r q show "isempty (queuetab s) q \<longleftrightarrow> L q = []" "nonempty (queuetab s) q \<longleftrightarrow> L q \<noteq> []"
    using qrep_firstid [OF r]
    by (cases "L q"; auto simp: isempty_def nonempty_def qrep_def)+
qed

section \<open>Splicing a node in and out of a queue\<close>

text \<open>A process that is on no queue.\<close>

definition unqueued :: "kernel \<Rightarrow> (int \<Rightarrow> int list) \<Rightarrow> int \<Rightarrow> bool" where
  "unqueued s L pid \<longleftrightarrow> 0 \<le> pid \<and> pid < NPROC \<and> (\<forall>q. is_head s q \<longrightarrow> pid \<notin> set (L q))"

lemma qrel_update:
  assumes rel: "qrel s L" and q: "is_head s q" and rep: "qrep qt' q xs"
    and sub: "set xs \<subseteq> insert pid (set (L q))"
    and pid: "\<And>q'. is_head s q' \<Longrightarrow> q' \<noteq> q \<Longrightarrow> pid \<notin> set (L q')" "pid < NPROC"
    and frame: "\<And>j. j \<notin> insert pid (set (q # L q @ [q + 1])) \<Longrightarrow>
      nx qt' j = nx (queuetab s) j \<and> pv qt' j = pv (queuetab s) j \<and> ky qt' j = ky (queuetab s) j"
  shows "qrel (s\<lparr>queuetab := qt'\<rparr>) (L(q := xs))"
proof -
  have other: "qrep qt' q' (L q')" if q': "is_head s q'" "q' \<noteq> q" for q'
  proof -
    have rep': "qrep (queuetab s) q' (L q')" and disj: "set (L q') \<inter> set (L q) = {}"
      using rel q q' by (auto simp: qrel_def)
    have ge: "NPROC \<le> q" "NPROC \<le> q'" using q q' by (auto simp: is_head_def)
    have range: "set (L q) \<subseteq> {0..<NPROC}" "set (L q') \<subseteq> {0..<NPROC}"
      using rel q q' by (auto simp: qrel_def qrep_def)
    have apart: "j \<notin> insert pid (set (q # L q @ [q + 1]))" if "j \<in> set (q' # L q' @ [q' + 1])" for j
      using that disj ge range pid q' is_head_distinct [OF q q'(1)] by auto
    have "chain (nx qt') (q' # L q' @ [q' + 1]) = chain (nx (queuetab s)) (q' # L q' @ [q' + 1])"
      by (rule chain_cong) (metis apart frame)
    moreover have "chain (pv qt') ((q' + 1) # rev (L q') @ [q'])
        = chain (pv (queuetab s)) ((q' + 1) # rev (L q') @ [q'])"
      by (rule chain_cong, rule frame [THEN conjunct2, THEN conjunct1], rule apart) auto
    moreover have "ky qt' q' = ky (queuetab s) q'" "ky qt' (q' + 1) = ky (queuetab s) (q' + 1)"
      using frame apart by auto
    ultimately show ?thesis using rep' by (simp add: qrep_def)
  qed
  have disj: "set (L q') \<inter> set xs = {}" if "is_head s q'" "q' \<noteq> q" for q'
    using that rel q sub pid by (fastforce simp: qrel_def)
  from rel rep other disj show ?thesis
    by (auto simp: qrel_def is_head_def Int_commute)
qed

lemma qrep_split:
  assumes "qrep qt q (us @ vs)"
  shows "pv qt (hd (vs @ [q + 1])) = last (q # us)"
proof -
  have c: "chain (pv qt) ((q + 1) # rev vs @ rev us @ [q])"
    using assms by (simp add: qrep_def)
  show ?thesis
  proof (cases vs)
    case Nil
    with c show ?thesis by (cases us rule: rev_cases) auto
  next
    case (Cons v ws)
    with c have "chain (pv qt) (((q + 1) # rev ws) @ v # rev us @ [q])" by simp
    then have "chain (pv qt) (v # rev us @ [q])" by (subst (asm) chain_snoc_Cons) simp
    with Cons show ?thesis by (cases us rule: rev_cases) auto
  qed
qed

text \<open>The four stores that link \<open>pid\<close> between two neighbours.\<close>

lemma qrep_splice:
  assumes rep: "qrep qt q (us @ vs)" and q: "NPROC \<le> q"
    and pid: "0 \<le> pid" "pid < NPROC" "pid \<notin> set us" "pid \<notin> set vs"
    and a: "a = last (q # us)" and b: "b = hd (vs @ [q + 1])"
    and nx': "nx qt' = (nx qt)(pid := b, a := pid)" and pv': "pv qt' = (pv qt)(pid := a, b := pid)"
    and ky': "ky qt' q = ky qt q" "ky qt' (q + 1) = ky qt (q + 1)"
  shows "qrep qt' q (us @ pid # vs)"
proof -
  have dist: "distinct (q # us @ vs @ [q + 1])" and notin: "pid \<notin> set (q # us @ vs @ [q + 1])"
    using rep q pid by (auto simp: qrep_def)
  obtain us1 vs1 where us: "q # us = us1 @ [a]" and vs: "vs @ [q + 1] = b # vs1"
    using ends_split [of q us vs "q + 1"] a b by metis
  have all: "q # us @ vs @ [q + 1] = us1 @ a # b # vs1"
    using us vs by (metis append.assoc append_Cons append_Nil)
  have "chain (nx qt) (us1 @ a # b # vs1)"
    using rep all by (simp add: qrep_def)
  then have "chain (nx qt') (us1 @ a # pid # b # vs1)"
    unfolding nx' using dist notin all by (intro chain_splice) auto
  moreover have "chain (pv qt) (rev vs1 @ b # a # rev us1)"
  proof -
    have "(q + 1) # rev (us @ vs) @ [q] = rev (q # us @ vs @ [q + 1])" by simp
    also have "\<dots> = rev vs1 @ b # a # rev us1" unfolding all by simp
    finally show ?thesis using rep by (simp add: qrep_def del: rev_append)
  qed
  then have "chain (pv qt') (rev vs1 @ b # pid # a # rev us1)"
    unfolding pv' using arg_cong [OF all, of distinct] arg_cong [OF all, of set] dist notin
    by (intro chain_splice) (auto simp: insert_commute)
  moreover have "us1 @ a # pid # b # vs1 = q # (us @ pid # vs) @ [q + 1]"
    using us vs by (metis append.assoc append_Cons append_Nil)
  moreover have "rev vs1 @ b # pid # a # rev us1 = (q + 1) # rev (us @ pid # vs) @ [q]"
  proof -
    have "rev vs1 @ b # pid # a # rev us1 = rev (us1 @ a # pid # b # vs1)" by simp
    also have "\<dots> = rev (q # (us @ pid # vs) @ [q + 1])"
      using us vs by (metis append.assoc append_Cons append_Nil)
    finally show ?thesis by simp
  qed
  ultimately show ?thesis using rep pid ky' by (auto simp: qrep_def)
qed

lemma qrep_unsplice:
  assumes rep: "qrep qt q (us @ pid # vs)" and q: "NPROC \<le> q"
    and a: "a = last (q # us)" and b: "b = hd (vs @ [q + 1])"
    and nx': "nx qt' = (nx qt)(a := b)" and pv': "pv qt' = (pv qt)(b := a)" and ky': "ky qt' = ky qt"
  shows "qrep qt' q (us @ vs)"
proof -
  have dist: "distinct (q # us @ pid # vs @ [q + 1])"
    using rep q by (auto simp: qrep_def)
  obtain us1 vs1 where us: "q # us = us1 @ [a]" and vs: "vs @ [q + 1] = b # vs1"
    using ends_split [of q us vs "q + 1"] a b by metis
  have all: "q # us @ pid # vs @ [q + 1] = us1 @ a # pid # b # vs1"
    using us vs by (metis append.assoc append_Cons append_Nil)
  have "chain (nx qt) (us1 @ a # pid # b # vs1)"
    using rep all by (simp add: qrep_def)
  then have "chain (nx qt') (us1 @ a # b # vs1)"
    unfolding nx' using dist all by (intro chain_unsplice) auto
  moreover have "chain (pv qt) (rev vs1 @ b # pid # a # rev us1)"
  proof -
    have "(q + 1) # rev (us @ pid # vs) @ [q] = rev (q # us @ pid # vs @ [q + 1])" by simp
    also have "\<dots> = rev vs1 @ b # pid # a # rev us1" unfolding all by simp
    finally show ?thesis using rep by (simp add: qrep_def del: rev_append)
  qed
  then have "chain (pv qt') (rev vs1 @ b # a # rev us1)"
    unfolding pv' using arg_cong [OF all, of distinct] arg_cong [OF all, of set] dist
    by (intro chain_unsplice) (auto simp: insert_commute)
  moreover have "us1 @ a # b # vs1 = q # (us @ vs) @ [q + 1]"
    using us vs by (metis append.assoc append_Cons append_Nil)
  moreover have "rev vs1 @ b # a # rev us1 = (q + 1) # rev (us @ vs) @ [q]"
  proof -
    have "rev vs1 @ b # a # rev us1 = rev (us1 @ a # b # vs1)" by simp
    also have "\<dots> = rev (q # (us @ vs) @ [q + 1])"
      using us vs by (metis append.assoc append_Cons append_Nil)
    finally show ?thesis by simp
  qed
  ultimately show ?thesis using rep ky' by (auto simp: qrep_def)
qed

section \<open>Every operation implements its list operation\<close>

text \<open>\<open>q_ok out s res L k\<close>: an operation started in \<open>s\<close> returned \<open>res\<close> and changed nothing
  but the queue table, where the queues now hold \<open>L\<close> and the keys are \<open>k\<close>.\<close>

definition q_ok :: "int \<times> kernel \<Rightarrow> kernel \<Rightarrow> int \<Rightarrow> (int \<Rightarrow> int list) \<Rightarrow> (int \<Rightarrow> int) \<Rightarrow> bool" where
  "q_ok out s res L k \<longleftrightarrow>
     (\<exists>qt. out = (res, s\<lparr>queuetab := qt\<rparr>) \<and> qrel (s\<lparr>queuetab := qt\<rparr>) L \<and> ky qt = k)"

lemma q_okE:
  assumes "q_ok out s res L k"
  obtains qt where "out = (res, s\<lparr>queuetab := qt\<rparr>)" "qrel (s\<lparr>queuetab := qt\<rparr>) L" "ky qt = k"
  using assms by (auto simp: q_ok_def)

lemma qrel_rep: "qrel s L \<Longrightarrow> is_head s q \<Longrightarrow> qrep (queuetab s) q (L q)"
  by (simp add: qrel_def)

lemma qrel_range: "qrel s L \<Longrightarrow> is_head s q \<Longrightarrow> x \<in> set (L q) \<Longrightarrow> 0 \<le> x \<and> x < NPROC"
  by (fastforce simp: qrel_def qrep_def)

lemma qrel_member_unique:
  "qrel s L \<Longrightarrow> is_head s q \<Longrightarrow> is_head s q' \<Longrightarrow> x \<in> set (L q) \<Longrightarrow> x \<in> set (L q') \<Longrightarrow> q = q'"
  by (fastforce simp: qrel_def)

text \<open>Linking a process between the parts \<open>us\<close> and \<open>vs\<close> of a queue.\<close>

lemma splice_ok:
  assumes rel: "qrel s L" and q: "is_head s q" and un: "unqueued s L pid" and L: "L q = us @ vs"
    and qt: "nx qt = (nx (queuetab s))(pid := b, a := pid)"
      "pv qt = (pv (queuetab s))(pid := a, b := pid)"
    and a: "a = last (q # us)" and b: "b = hd (vs @ [q + 1])"
    and ky: "\<And>j. j \<notin> insert pid (set (L q)) \<Longrightarrow> ky qt j = ky (queuetab s) j"
  shows "q_ok (res, s\<lparr>queuetab := qt\<rparr>) s res (L(q := us @ pid # vs)) (ky qt)"
proof -
  have ge: "NPROC \<le> q" using q by (simp add: is_head_def)
  have pid: "0 \<le> pid" "pid < NPROC" "pid \<notin> set us" "pid \<notin> set vs"
    using un q L by (auto simp: unqueued_def)
  have range: "set (L q) \<subseteq> {0..<NPROC}" using qrel_range [OF rel q] by auto
  have "q \<notin> insert pid (set (L q))" "q + 1 \<notin> insert pid (set (L q))"
    using ge pid range by auto
  then have kq: "ky qt q = ky (queuetab s) q" "ky qt (q + 1) = ky (queuetab s) (q + 1)"
    using ky by blast+
  have "qrep qt q (us @ pid # vs)"
    using qrel_rep [OF rel q] L by (intro qrep_splice [OF _ ge pid a b qt kq]) simp
  moreover have "a \<in> set (q # L q)" "b \<in> set (L q @ [q + 1])"
    using a b L by (cases us rule: rev_cases; cases vs; auto)+
  ultimately have "qrel (s\<lparr>queuetab := qt\<rparr>) (L(q := us @ pid # vs))"
    using rel q un L pid qt ky by (intro qrel_update [where pid = pid]) (auto simp: unqueued_def)
  then show ?thesis by (auto simp: q_ok_def)
qed

theorem enqueue_ok:
  assumes "qrel s L" "is_head s q" "unqueued s L pid" "\<not> isbadpid (proctab s) pid"
  shows "q_ok (enqueue pid q s) s pid (L(q := L q @ [pid])) (ky (queuetab s))"
proof -
  have prev: "pv (queuetab s) (q + 1) = last (q # L q)"
    using qrep_split [of "queuetab s" q "L q" "[]"] qrel_rep [OF assms(1,2)] by simp
  have "pid \<noteq> q + 1"
    using assms(2,3) by (auto simp: is_head_def unqueued_def)
  define qt where "qt = queuetab (snd (enqueue pid q s))"
  have e: "enqueue pid q s = (pid, s\<lparr>queuetab := qt\<rparr>)"
    and qt: "nx qt = (nx (queuetab s))(pid := q + 1, last (q # L q) := pid)"
      "pv qt = (pv (queuetab s))(pid := last (q # L q), q + 1 := pid)" "ky qt = ky (queuetab s)"
    using assms(4) is_head_facts [OF assms(1,2)] prev
    by (simp_all add: qt_def enqueue_def Let_def field_fold del: last.simps)
  from splice_ok [OF assms(1,2,3), of "L q" "[]", OF _ qt(1,2)] qt(3) show ?thesis
    unfolding e by simp
qed

lemma getitem_ok:
  assumes rel: "qrel s L" and q: "is_head s q" and pid: "pid \<in> set (L q)"
  shows "q_ok (getitem pid s) s pid (L(q := remove1 pid (L q))) (ky (queuetab s))"
proof -
  obtain us vs where L: "L q = us @ pid # vs" using pid by (auto simp: in_set_conv_decomp)
  have rep: "qrep (queuetab s) q (us @ pid # vs)" using qrel_rep [OF rel q] L by simp
  have ge: "NPROC \<le> q" using q by (simp add: is_head_def)
  have prev: "pv (queuetab s) pid = last (q # us)"
    using qrep_split [OF rep] by simp
  have "chain (nx (queuetab s)) ((q # us) @ pid # vs @ [q + 1])" using rep by (simp add: qrep_def)
  then have nxt: "nx (queuetab s) pid = hd (vs @ [q + 1])"
    by (subst (asm) chain_snoc_Cons) (cases vs; simp)
  define qt where "qt = queuetab (snd (getitem pid s))"
  have e: "getitem pid s = (pid, s\<lparr>queuetab := qt\<rparr>)"
    and qt: "nx qt = (nx (queuetab s))(last (q # us) := hd (vs @ [q + 1]))"
      "pv qt = (pv (queuetab s))(hd (vs @ [q + 1]) := last (q # us))" "ky qt = ky (queuetab s)"
    by (simp_all add: qt_def getitem_def Let_def field_fold prev nxt del: last.simps)
  have rep': "qrep qt q (us @ vs)" by (rule qrep_unsplice [OF rep ge refl refl qt])
  have "last (q # us) \<in> set (q # L q)" "hd (vs @ [q + 1]) \<in> set (L q @ [q + 1])"
    using L by (cases us rule: rev_cases; cases vs; auto)+
  moreover have "pid \<notin> set (L q')" if "is_head s q'" "q' \<noteq> q" for q'
    using qrel_member_unique [OF rel q that(1) pid] that(2) by blast
  ultimately have "qrel (s\<lparr>queuetab := qt\<rparr>) (L(q := us @ vs))"
    using L qrel_range [OF rel q pid]
    by (intro qrel_update [OF rel q rep', where pid = pid]) (auto simp: qt)
  moreover have "remove1 pid (L q) = us @ vs"
    using rep L by (auto simp: qrep_def)
  ultimately show ?thesis using e qt(3) by (auto simp: q_ok_def)
qed

lemma getfirst_empty: "qrel s L \<Longrightarrow> is_head s q \<Longrightarrow> L q = [] \<Longrightarrow> getfirst q s = (EMPTY, s)"
  by (simp add: getfirst_def qrel_isempty)

lemma getfirst_ok:
  assumes "qrel s L" "is_head s q" "L q = x # xs"
  shows "q_ok (getfirst q s) s x (L(q := xs)) (ky (queuetab s))"
  using getitem_ok [OF assms(1,2), of x] assms qrep_firstid [OF qrel_rep [OF assms(1,2)]]
  by (simp add: getfirst_def qrel_isempty firstid_def)

lemma getlast_ok:
  assumes "qrel s L" "is_head s q" "L q = xs @ [x]"
  shows "q_ok (getlast q s) s x (L(q := xs)) (ky (queuetab s))"
proof -
  have "x \<notin> set xs" using qrel_rep [OF assms(1,2)] assms(3) by (simp add: qrep_def)
  then show ?thesis
    using getitem_ok [OF assms(1,2), of x] assms qrep_lastid [OF qrel_rep [OF assms(1,2)]]
    by (simp add: getlast_def qrel_isempty lastid_def remove1_append)
qed

lemma dequeue_empty: "qrel s L \<Longrightarrow> is_head s q \<Longrightarrow> L q = [] \<Longrightarrow> dequeue q s = (EMPTY, s)"
  by (simp add: dequeue_def is_head_facts qrel_isempty)

text \<open>Overwriting the links of a process that is on no queue disturbs nothing.\<close>

lemma qrel_unqueued_links:
  assumes "qrel s L" "unqueued s L pid"
  shows "qrel (s\<lparr>queuetab := set_qnext (set_qprev (queuetab s) pid a) pid b\<rparr>) L"
proof -
  have "qrep (set_qnext (set_qprev (queuetab s) pid a) pid b) q (L q)" if "is_head s q" for q
  proof -
    have "pid \<notin> set (q # L q @ [q + 1])" using that assms(2) by (auto simp: is_head_def unqueued_def)
    then have "pid \<notin> set (butlast (q # L q @ [q + 1]))" "pid \<notin> set (butlast ((q + 1) # rev (L q) @ [q]))"
      by (auto dest!: in_set_butlastD)
    then show ?thesis
      using qrel_rep [OF assms(1) that] by (simp add: qrep_def chain_upd del: butlast.simps)
  qed
  then show ?thesis using assms(1) by (auto simp: qrel_def is_head_def)
qed

theorem dequeue_ok:
  assumes "qrel s L" "is_head s q" "L q = x # xs"
  shows "q_ok (dequeue q s) s x (L(q := xs)) (ky (queuetab s))"
proof -
  obtain qt where g: "getfirst q s = (x, s\<lparr>queuetab := qt\<rparr>)"
    and r: "qrel (s\<lparr>queuetab := qt\<rparr>) (L(q := xs))" and k: "ky qt = ky (queuetab s)"
    using getfirst_ok [OF assms] by (rule q_okE)
  have "x \<notin> set xs" using qrel_rep [OF assms(1,2)] assms(3) by (simp add: qrep_def)
  then have "unqueued (s\<lparr>queuetab := qt\<rparr>) (L(q := xs)) x"
    using qrel_range [OF assms(1,2), of x] qrel_member_unique [OF assms(1,2), of _ x] assms(3)
    by (auto simp: unqueued_def is_head_def)
  from qrel_unqueued_links [OF r this, of EMPTY EMPTY] k assms g show ?thesis
    by (auto simp: dequeue_def is_head_facts qrel_isempty q_ok_def)
qed

text \<open>A process queue is a FIFO queue for any process that is in no queue.\<close>

definition qtab_ok :: "int \<Rightarrow> kernel \<Rightarrow> bool" where
  "qtab_ok q s \<longleftrightarrow> is_head s q \<and> (\<exists>L. qrel s L)"

definition may_enqueue :: "int \<Rightarrow> kernel \<Rightarrow> bool" where
  "may_enqueue pid s \<longleftrightarrow> \<not> isbadpid (proctab s) pid \<and> (\<forall>q. is_head s q \<longrightarrow> pid \<notin> set (qlist s q))"

lemma q_ok_qlist:
  assumes "q_ok out s r L k" "is_head s q"
  shows "fst out = r" "qtab_ok q (snd out)" "qlist (snd out) q = L q"
proof -
  obtain qt where q: "out = (r, s\<lparr>queuetab := qt\<rparr>)" "qrel (s\<lparr>queuetab := qt\<rparr>) L" by (rule q_okE [OF assms(1)])
  have h: "is_head (s\<lparr>queuetab := qt\<rparr>) q" using assms(2) by (simp add: is_head_def)
  show "fst out = r" "qtab_ok q (snd out)" "qlist (snd out) q = L q"
    using q h qrel_qlist [OF q(2) h] by (auto simp: qtab_ok_def)
qed

lemma may_enqueue_unqueued:
  assumes "qrel s L" "may_enqueue pid s"
  shows "unqueued s L pid" "\<not> isbadpid (proctab s) pid"
  using assms qrel_qlist [OF assms(1)] by (auto simp: may_enqueue_def unqueued_def isbadpid_def)

interpretation pq: fifo "qtab_ok q" "\<lambda>s. qlist s q" may_enqueue "\<lambda>pid s. snd (enqueue pid q s)" "dequeue q" for q
proof
  fix s pid assume i: "qtab_ok q s" and r: "may_enqueue pid s"
  then obtain L where L: "is_head s q" "qrel s L" by (auto simp: qtab_ok_def)
  note e = enqueue_ok [OF L(2,1) may_enqueue_unqueued [OF L(2) r]]
  show "qtab_ok q (snd (enqueue pid q s)) \<and> qlist (snd (enqueue pid q s)) q = qlist s q @ [pid]"
    using q_ok_qlist [OF e L(1)] qrel_qlist [OF L(2,1)] by simp
next
  fix s x xs assume i: "qtab_ok q s" and c: "qlist s q = x # xs"
  then obtain L where L: "is_head s q" "qrel s L" by (auto simp: qtab_ok_def)
  have "L q = x # xs" using c qrel_qlist [OF L(2,1)] by simp
  from q_ok_qlist [OF dequeue_ok [OF L(2,1) this] L(1)]
  show "fst (dequeue q s) = x \<and> qtab_ok q (snd (dequeue q s)) \<and> qlist (snd (dequeue q s)) q = xs" by simp
qed

section \<open>Ordered insertion\<close>

text \<open>What \<^verbatim>\<open>insert.c\<close> does to the list: the process goes behind every entry whose key is at
  least its own.\<close>

definition ins_desc :: "(int \<Rightarrow> int) \<Rightarrow> int \<Rightarrow> int \<Rightarrow> int list \<Rightarrow> int list" where
  "ins_desc k pid key xs =
     takeWhile (\<lambda>x. k x \<ge> key) xs @ pid # dropWhile (\<lambda>x. k x \<ge> key) xs"

lemma set_ins_desc [simp]: "set (ins_desc k pid key xs) = insert pid (set xs)"
proof -
  have "set xs = set (takeWhile (\<lambda>x. k x \<ge> key) xs) \<union> set (dropWhile (\<lambda>x. k x \<ge> key) xs)"
    by (metis set_append takeWhile_dropWhile_id)
  then show ?thesis by (auto simp: ins_desc_def)
qed

lemma insert_scan_ok:
  assumes rep: "qrep qt q xs" and key: "MINKEY < key"
  shows "insert_scan qt q key = Some (hd (dropWhile (\<lambda>x. ky qt x \<ge> key) xs @ [q + 1]))"
proof -
  let ?P = "\<lambda>x. ky qt x \<ge> key"
  let ?us = "takeWhile ?P xs" and ?vs = "dropWhile ?P xs"
  have "chain (nx qt) (xs @ [q + 1])" using rep by (cases xs) (auto simp: qrep_def)
  moreover obtain y ys where y: "?vs @ [q + 1] = y # ys" by (cases "?vs @ [q + 1]") auto
  ultimately have c: "chain (nx qt) (?us @ y # ys)"
    by (metis append.assoc takeWhile_dropWhile_id)
  have ny: "\<not> ?P y"
  proof (cases ?vs)
    case Nil
    with y rep key show ?thesis by (auto simp: qrep_def)
  next
    case (Cons v vs)
    with y dropWhile_hd [OF Cons] show ?thesis by auto
  qed
  have hd: "firstid qt q = hd (?us @ [y])"
    using qrep_firstid [OF rep] y
    by (metis append.assoc append_is_Nil_conv hd_append list.sel(1) takeWhile_dropWhile_id)
  have all: "\<forall>x \<in> set ?us. ?P x" by (rule takeWhile_dropWhile_split(2))
  have "while_option ?P (nx qt) (hd (?us @ [y])) = Some y"
    by (rule while_option_chain [OF c all ny])
  then show ?thesis using y hd by (simp add: insert_scan_def field_fold)
qed

theorem insert_ok:
  assumes rel: "qrel s L" and q: "is_head s q" and un: "unqueued s L pid"
    and pid: "\<not> isbadpid (proctab s) pid" and key: "MINKEY < key"
  shows "q_ok (insert_q pid q key s) s OK
           (L(q := ins_desc (ky (queuetab s)) pid key (L q))) ((ky (queuetab s))(pid := key))"
proof -
  let ?k = "ky (queuetab s)" and ?P = "\<lambda>x. ky (queuetab s) x \<ge> key"
  define us vs where "us = takeWhile ?P (L q)" and "vs = dropWhile ?P (L q)"
  have L: "L q = us @ vs" by (simp add: us_def vs_def)
  define b where "b = hd (vs @ [q + 1])"
  have scan: "insert_scan (queuetab s) q key = Some b"
    using insert_scan_ok [OF qrel_rep [OF rel q] key] by (simp add: b_def vs_def)
  have prev: "pv (queuetab s) b = last (q # us)"
    using qrep_split [of "queuetab s" q us vs] qrel_rep [OF rel q] L by (simp add: b_def)
  define qt where "qt = insert_at pid b key (queuetab s)"
  have qt: "nx qt = (nx (queuetab s))(pid := b, last (q # us) := pid)"
    "pv qt = (pv (queuetab s))(pid := last (q # us), b := pid)" "ky qt = ?k(pid := key)"
    by (simp_all add: qt_def insert_at_def Let_def field_fold prev del: last.simps)
  have e: "insert_q pid q key s = (OK, s\<lparr>queuetab := qt\<rparr>)"
    using pid is_head_facts [OF rel q] scan by (simp add: insert_q_def qt_def)
  from splice_ok [OF rel q un L qt(1,2) refl b_def] qt(3) show ?thesis
    unfolding e by (simp add: ins_desc_def us_def vs_def)
qed

text \<open>Keys in descending order.\<close>

definition desc :: "(int \<Rightarrow> int) \<Rightarrow> int list \<Rightarrow> bool" where
  "desc k xs \<longleftrightarrow> sorted_wrt (\<lambda>x y. k x \<ge> k y) xs"

lemma desc_cong: "(\<And>x. x \<in> set xs \<Longrightarrow> k x = k' x) \<Longrightarrow> desc k xs = desc k' xs"
  unfolding desc_def by (induction xs) auto

lemma desc_ins_desc:
  assumes "desc k xs" "pid \<notin> set xs"
  shows "desc (k(pid := key)) (ins_desc k pid key xs)"
  using assms
proof (induction xs)
  case Nil
  then show ?case by (simp add: desc_def ins_desc_def)
next
  case (Cons x xs)
  then have IH: "desc (k(pid := key)) (ins_desc k pid key xs)" by (auto simp: desc_def)
  show ?case
  proof (cases "key \<le> k x")
    case True
    then have "ins_desc k pid key (x # xs) = x # ins_desc k pid key xs" by (simp add: ins_desc_def)
    with True IH Cons.prems show ?thesis by (auto simp: desc_def)
  next
    case False
    then have "ins_desc k pid key (x # xs) = pid # x # xs" by (simp add: ins_desc_def)
    moreover have "desc (k(pid := key)) (x # xs)"
      using Cons.prems desc_cong [of "x # xs" "k(pid := key)" k] by fastforce
    moreover have "\<forall>y \<in> set (x # xs). (k(pid := key)) y \<le> key"
      using False Cons.prems by (auto simp: desc_def)
    ultimately show ?thesis by (simp add: desc_def)
  qed
qed

lemma desc_remove1: "desc k xs \<Longrightarrow> desc k (remove1 x xs)"
  unfolding desc_def by (induction xs) (auto dest: notin_set_remove1 [rotated] set_remove1_subset [THEN subsetD])

section \<open>New queues\<close>

theorem newqueue_ok:
  assumes "qrel s L" "nextqid s < NQENT" "L (nextqid s) = []"
  shows "fst (newqueue s) = nextqid s \<and> is_head (snd (newqueue s)) (nextqid s) \<and>
    qrel (snd (newqueue s)) L"
proof -
  let ?s = "snd (newqueue s)" and ?q = "nextqid s"
  have s': "fst (newqueue s) = ?q" "nextqid ?s = ?q + 2"
    "nx (queuetab ?s) = (nx (queuetab s))(?q := ?q + 1, ?q + 1 := EMPTY)"
    "pv (queuetab ?s) = (pv (queuetab s))(?q := EMPTY, ?q + 1 := ?q)"
    "ky (queuetab ?s) = (ky (queuetab s))(?q := MAXKEY, ?q + 1 := MINKEY)"
    using assms(2) by (simp_all add: newqueue_def Let_def)
  have q: "NPROC \<le> ?q" "even ?q" "?q \<le> NQENT - 2"
  proof -
    show "NPROC \<le> ?q" "even ?q" using assms(1) by (auto simp: qrel_def)
    with assms(2) show "?q \<le> NQENT - 2" by presburger
  qed
  have heads: "is_head ?s q' \<longleftrightarrow> is_head s q' \<or> q' = ?q" for q'
    using q s'(2) unfolding is_head_def by auto presburger
  have old: "qrep (queuetab ?s) q' (L q')" if "is_head s q'" for q'
  proof -
    have "NPROC \<le> q'" "q' < ?q" "even (q' - NPROC)" using that by (auto simp: is_head_def)
    with q(2) have "q' + 1 < ?q" by presburger
    moreover have "x < ?q" if "x \<in> set (L q')" for x
      using qrel_range [OF assms(1) \<open>is_head s q'\<close> that] q by auto
    ultimately have apart: "?q \<notin> set (q' # L q' @ [q' + 1])" "?q + 1 \<notin> set (q' # L q' @ [q' + 1])"
      by force+
    then have "chain (nx (queuetab ?s)) (q' # L q' @ [q' + 1]) = chain (nx (queuetab s)) (q' # L q' @ [q' + 1])"
      "chain (pv (queuetab ?s)) ((q' + 1) # rev (L q') @ [q']) = chain (pv (queuetab s)) ((q' + 1) # rev (L q') @ [q'])"
      unfolding s' by (intro chain_cong; auto)+
    with qrel_rep [OF assms(1) that] apart show ?thesis by (auto simp: qrep_def s')
  qed
  have "qrep (queuetab ?s) ?q (L ?q)" using assms(3) by (simp add: qrep_def s')
  with old assms q show ?thesis
    by (auto simp: qrel_def heads s')
qed

section \<open>Delta insertion\<close>

text \<open>The scan of \<^verbatim>\<open>insertd.c\<close> on the list: the entries passed, the entries left, and the part
  of the delay that remains after the keys of the entries passed have been subtracted.\<close>

fun delta_scan :: "(int \<Rightarrow> int) \<Rightarrow> int \<Rightarrow> int list \<Rightarrow> int list \<times> int list \<times> int" where
  "delta_scan k key [] = ([], [], key)"
| "delta_scan k key (x # xs) =
     (if k x \<le> key
      then (case delta_scan k (s32 (key - k x)) xs of (us, vs, r) \<Rightarrow> (x # us, vs, r))
      else ([], x # xs, key))"

definition delta_keys :: "(int \<Rightarrow> int) \<Rightarrow> int \<Rightarrow> int \<Rightarrow> int list \<Rightarrow> int \<Rightarrow> int" where
  "delta_keys k pid r vs =
     (case vs of [] \<Rightarrow> k(pid := r) | v # _ \<Rightarrow> k(pid := r, v := s32 (k v - r)))"

lemma delta_scan_split: "delta_scan k key xs = (us, vs, r) \<Longrightarrow> xs = us @ vs"
  by (induction k key xs arbitrary: us vs r rule: delta_scan.induct)
    (auto split: if_splits prod.splits)

lemma insertd_while:
  assumes "chain (nx qt) (p # xs @ [t])" "t \<notin> set xs" "delta_scan (ky qt) key xs = (us, vs, r)"
  shows "while_option (\<lambda>(prev, nxt, key). nxt \<noteq> t \<and> qkey (qt nxt) \<le> key)
       (\<lambda>(prev, nxt, key). (nxt, qnext (qt nxt), s32 (key - qkey (qt nxt))))
       (p, hd (xs @ [t]), key) = Some (last (p # us), hd (vs @ [t]), r)"
  using assms
proof (induction xs arbitrary: p key us)
  case Nil
  then show ?case by simp
next
  case (Cons x xs)
  have c: "chain (nx qt) (x # xs @ [t])" and n: "qnext (qt x) = hd (xs @ [t])"
    using Cons.prems(1) by (cases xs; auto simp: nx_def)+
  show ?case
  proof (cases "ky qt x \<le> key")
    case True
    with Cons.prems(3) obtain us' where us: "us = x # us'"
      and d: "delta_scan (ky qt) (s32 (key - ky qt x)) xs = (us', vs, r)"
      by (auto split: prod.splits)
    from Cons.IH [OF c _ d] Cons.prems(2) True us n show ?thesis
      by (subst while_option_step) (auto simp: field_fold)
  next
    case False
    with Cons.prems show ?thesis by (auto simp: field_fold)
  qed
qed

theorem insertd_ok:
  assumes rel: "qrel s L" and q: "is_head s q" and un: "unqueued s L pid"
    and pid: "\<not> isbadpid (proctab s) pid"
    and d: "delta_scan (ky (queuetab s)) key (L q) = (us, vs, r)"
  shows "q_ok (insertd pid q key s) s OK (L(q := us @ pid # vs)) (delta_keys (ky (queuetab s)) pid r vs)"
proof -
  have L: "L q = us @ vs" using delta_scan_split [OF d] .
  have rep: "qrep (queuetab s) q (L q)" by (rule qrel_rep [OF rel q])
  have ge: "NPROC \<le> q" using q by (simp add: is_head_def)
  define b where "b = hd (vs @ [q + 1])"
  have tl: "q + 1 \<notin> set (L q)" using qrel_range [OF rel q, of "q + 1"] ge by auto
  have "qnext (queuetab s q) = hd (L q @ [q + 1])"
    using qrep_firstid [OF rep] by (simp add: firstid_def)
  then have scan: "insertd_scan (queuetab s) q key = Some (last (q # us), b, r)"
    using insertd_while [OF _ tl d, of q] rep by (simp add: insertd_scan_def qrep_def b_def)
  define qt where "qt = insertd_at pid q (last (q # us)) b r (queuetab s)"
  have ne: "pid \<noteq> q + 1" "b \<noteq> pid"
    using un ge q L unfolding b_def by (cases vs; auto simp: unqueued_def)+
  have qt: "nx qt = (nx (queuetab s))(pid := b, last (q # us) := pid)"
    "pv qt = (pv (queuetab s))(pid := last (q # us), b := pid)"
    by (simp_all add: qt_def insertd_at_def Let_def del: last.simps)
  have key: "ky qt = delta_keys (ky (queuetab s)) pid r vs"
    using tl L ne
    by (cases vs) (auto simp: qt_def insertd_at_def Let_def field_fold delta_keys_def b_def simp del: last.simps)
  have e: "insertd pid q key s = (OK, s\<lparr>queuetab := qt\<rparr>)"
    using pid is_head_facts [OF rel q] scan by (simp add: insertd_def qt_def)
  have "ky qt j = ky (queuetab s) j" if "j \<notin> insert pid (set (L q))" for j
    using that L unfolding key by (cases vs) (auto simp: delta_keys_def)
  from splice_ok [OF rel q un L qt refl b_def this] show ?thesis
    unfolding e key [symmetric] .
qed

end
