(* ===== verification/Sched.thy ===== *)
theory Sched
  imports Proc_Queue
begin

text \<open>
  The scheduler: \<^verbatim>\<open>resched.c\<close>, \<^verbatim>\<open>ready.c\<close>, \<^verbatim>\<open>resume.c\<close>, \<^verbatim>\<open>suspend.c\<close>, \<^verbatim>\<open>yield.c\<close>,
  \<^verbatim>\<open>chprio.c\<close>, \<^verbatim>\<open>getprio.c\<close>, \<^verbatim>\<open>getpid.c\<close>, and the kernel invariant \<open>kinv\<close> that ties the
  state of each process to the queue it is on.

  Interrupts are disabled in every operation, so an operation is atomic up to the next context
  switch. \<open>resched\<close> is the state change of \<^verbatim>\<open>resched()\<close> including the switch. Statements a caller
  executes after \<^verbatim>\<open>resched()\<close> run when the caller is current again: \<open>resume_point\<close> runs them at
  once when no switch took place and otherwise saves a frame that the process completes later.
\<close>

section \<open>Operations\<close>

definition resched :: "kernel \<Rightarrow> kernel" where
  "resched s =
     (if ndefers s > 0 then s\<lparr>attempt := True\<rparr>
      else
        let old = currpid s; ptold = proctab s old in
        if prstate ptold = PR_CURR \<and> prprio ptold > firstkey (queuetab s) (readylist s) then s
        else
          let s1 = (if prstate ptold = PR_CURR
                    then snd (insert_q old (readylist s) (prprio ptold) (set_state old PR_READY s))
                    else s);
              (new, s2) = dequeue (readylist s1) s1;
              s3 = set_state new PR_CURR (s2\<lparr>currpid := new\<rparr>)
          in s3\<lparr>preempt := QUANTUM\<rparr>)"

abbreviation (input) DEFER_START :: int where "DEFER_START \<equiv> 1"
abbreviation (input) DEFER_STOP :: int where "DEFER_STOP \<equiv> 2"

definition resched_cntl :: "int \<Rightarrow> kernel \<Rightarrow> int \<times> kernel" where
  "resched_cntl defr s =
     (if defr = DEFER_START then
        (let s1 = s\<lparr>ndefers := s32 (ndefers s + 1)\<rparr>
         in (OK, if ndefers s = 0 then s1\<lparr>attempt := False\<rparr> else s1))
      else if defr = DEFER_STOP then
        (if ndefers s \<le> 0 then (SYSERR, s)
         else let s1 = s\<lparr>ndefers := ndefers s - 1\<rparr>
              in (OK, if ndefers s1 = 0 \<and> attempt s1 then resched s1 else s1))
      else (SYSERR, s))"

definition ready :: "int \<Rightarrow> kernel \<Rightarrow> int \<times> kernel" where
  "ready pid s =
     (if isbadpid (proctab s) pid then (SYSERR, s)
      else
        let s1 = set_state pid PR_READY s;
            s2 = snd (insert_q pid (readylist s1) (prprio (proctab s1 pid)) s1)
        in (OK, resched s2))"

definition resume_point ::
  "kernel \<Rightarrow> kernel \<Rightarrow> frame \<Rightarrow> (kernel \<Rightarrow> 'a \<times> kernel) \<Rightarrow> 'a option \<times> kernel" where
  "resume_point s s' f k =
     (if currpid s' = currpid s then (case k s' of (r, t) \<Rightarrow> (Some r, t))
      else (None, s'\<lparr>pframe := (pframe s')(currpid s := Some f)\<rparr>))"

definition resume :: "int \<Rightarrow> kernel \<Rightarrow> int \<times> kernel" where
  "resume pid s =
     (if isbadpid (proctab s) pid then (SYSERR, s)
      else if prstate (proctab s pid) \<noteq> PR_SUSP then (SYSERR, s)
      else let prio = prprio (proctab s pid) in (prio, snd (ready pid s)))"

definition suspend_ret :: "int \<Rightarrow> kernel \<Rightarrow> int \<times> kernel" where
  "suspend_ret pid s = (prprio (proctab s pid), s)"

definition suspend :: "int \<Rightarrow> kernel \<Rightarrow> int option \<times> kernel" where
  "suspend pid s =
     (if isbadpid (proctab s) pid \<or> pid = NULLPROC then (Some SYSERR, s)
      else if prstate (proctab s pid) \<noteq> PR_CURR \<and> prstate (proctab s pid) \<noteq> PR_READY
      then (Some SYSERR, s)
      else if prstate (proctab s pid) = PR_READY then
        (let s1 = snd (getitem pid s); s2 = set_state pid PR_SUSP s1
         in (case suspend_ret pid s2 of (r, t) \<Rightarrow> (Some r, t)))
      else
        let s1 = set_state pid PR_SUSP s
        in resume_point s (resched s1) (F_suspend pid) (suspend_ret pid))"

definition yield :: "kernel \<Rightarrow> int \<times> kernel" where
  "yield s = (OK, resched s)"

definition chprio :: "int \<Rightarrow> int \<Rightarrow> kernel \<Rightarrow> int \<times> kernel" where
  "chprio pid newprio s =
     (if isbadpid (proctab s) pid then (SYSERR, s)
      else let oldprio = prprio (proctab s pid)
           in (oldprio, upd_proc pid (\<lambda>e. e\<lparr>prprio := s16 newprio\<rparr>) s))"

definition getprio :: "int \<Rightarrow> kernel \<Rightarrow> int \<times> kernel" where
  "getprio pid s =
     (if isbadpid (proctab s) pid then (SYSERR, s) else (prprio (proctab s pid), s))"

definition getpid :: "kernel \<Rightarrow> int" where
  "getpid s = currpid s"

section \<open>The kernel invariant\<close>

text \<open>The queue a process belongs on, according to its state.\<close>

definition home :: "kernel \<Rightarrow> int \<Rightarrow> int option" where
  "home s p =
     (case prstate (proctab s p) of
        PR_READY \<Rightarrow> Some (readylist s)
      | PR_SLEEP \<Rightarrow> Some (sleepq s)
      | PR_RECTIM \<Rightarrow> Some (sleepq s)
      | PR_WAIT \<Rightarrow> Some (squeue (semtab s (prsem (proctab s p))))
      | _ \<Rightarrow> None)"

text \<open>The queues the kernel uses are allocated and different from each other.\<close>

definition qids_ok :: "kernel \<Rightarrow> bool" where
  "qids_ok s \<longleftrightarrow>
     is_head s (readylist s) \<and> is_head s (sleepq s) \<and> readylist s \<noteq> sleepq s \<and>
     (\<forall>i \<in> {0..<NSEM}. is_head s (squeue (semtab s i)) \<and>
        squeue (semtab s i) \<noteq> readylist s \<and> squeue (semtab s i) \<noteq> sleepq s) \<and>
     inj_on (\<lambda>i. squeue (semtab s i)) {0..<NSEM}"

text \<open>Every process outside \<open>X\<close> is on the queue its state says and on no other; the processes
  of \<open>X\<close>, which an operation has taken off a queue and not yet placed, are on none.\<close>

definition placed :: "kernel \<Rightarrow> (int \<Rightarrow> int list) \<Rightarrow> int set \<Rightarrow> bool" where
  "placed s L X \<longleftrightarrow>
     (\<forall>p \<in> {0..<NPROC}. \<forall>q. is_head s q \<longrightarrow>
        (p \<in> set (L q) \<longleftrightarrow> p \<notin> X \<and> home s p = Some q)) \<and>
     (\<forall>p \<in> {0..<NPROC}. prstate (proctab s p) = PR_WAIT \<longrightarrow> prsem (proctab s p) \<in> {0..<NSEM})"

text \<open>At most one process is current, it is \<open>currpid\<close>, and the null process never blocks.\<close>

definition cur_ok :: "kernel \<Rightarrow> bool" where
  "cur_ok s \<longleftrightarrow>
     currpid s \<in> {0..<NPROC} \<and>
     (\<forall>p \<in> {0..<NPROC}. prstate (proctab s p) = PR_CURR \<longrightarrow> p = currpid s) \<and>
     prstate (proctab s NULLPROC) \<in> {PR_CURR, PR_READY}"

definition prio_ok :: "kernel \<Rightarrow> bool" where
  "prio_ok s \<longleftrightarrow> (\<forall>p. - 32768 \<le> prprio (proctab s p) \<and> prprio (proctab s p) \<le> 32767)"

text \<open>A semaphore with a negative count has as many waiting processes as the count says, any
  other has none; a free one has none.\<close>

definition sem_cnt :: "kernel \<Rightarrow> (int \<Rightarrow> int list) \<Rightarrow> int \<Rightarrow> bool" where
  "sem_cnt s L i \<longleftrightarrow>
     int (length (L (squeue (semtab s i)))) = max 0 (- scount (semtab s i)) \<and>
     scount (semtab s i) \<le> 2147483647"

definition sem_ok :: "kernel \<Rightarrow> (int \<Rightarrow> int list) \<Rightarrow> int \<Rightarrow> bool" where
  "sem_ok s L i \<longleftrightarrow> sem_cnt s L i \<and> (sstate (semtab s i) = S_FREE \<longrightarrow> 0 \<le> scount (semtab s i))"

definition sems_ok :: "kernel \<Rightarrow> (int \<Rightarrow> int list) \<Rightarrow> bool" where
  "sems_ok s L \<longleftrightarrow> (\<forall>i \<in> {0..<NSEM}. sem_ok s L i)"

text \<open>The discipline of the message buffers. A process blocked in \<^verbatim>\<open>receive\<close> has no message, unless it is
  just being released; a process that was blocked there and is runnable again has one, so that
  the rest of \<^verbatim>\<open>receive\<close> finds it.\<close>

definition msg_ok :: "kernel \<Rightarrow> int set \<Rightarrow> bool" where
  "msg_ok s X \<longleftrightarrow>
     (\<forall>p \<in> {0..<NPROC}.
        (p \<notin> X \<and> prstate (proctab s p) = PR_RECV \<longrightarrow> \<not> prhasmsg (proctab s p)) \<and>
        (pframe s p = Some F_receive \<longrightarrow>
           prstate (proctab s p) \<in> {PR_FREE, PR_RECV} \<or> prhasmsg (proctab s p)))"

definition wakeable :: "kernel \<Rightarrow> int \<Rightarrow> bool" where
  "wakeable s p \<longleftrightarrow> (prstate (proctab s p) \<in> {PR_FREE, PR_RECV} \<longrightarrow> prhasmsg (proctab s p))"

definition kcore :: "kernel \<Rightarrow> (int \<Rightarrow> int list) \<Rightarrow> int set \<Rightarrow> bool" where
  "kcore s L X \<longleftrightarrow>
     qrel s L \<and> qids_ok s \<and> placed s L X \<and> cur_ok s \<and> prio_ok s \<and>
     desc (ky (queuetab s)) (L (readylist s)) \<and> kstat s = Running \<and> msg_ok s X"

definition kinv :: "kernel \<Rightarrow> (int \<Rightarrow> int list) \<Rightarrow> bool" where
  "kinv s L \<longleftrightarrow>
     kcore s L {} \<and> sems_ok s L \<and> ndefers s = 0 \<and> prstate (proctab s (currpid s)) = PR_CURR"

section \<open>Moving processes between queues\<close>

text \<open>Two states with the same queue identifiers.\<close>

definition same_q :: "kernel \<Rightarrow> kernel \<Rightarrow> bool" where
  "same_q s s' \<longleftrightarrow>
     nextqid s' = nextqid s \<and> readylist s' = readylist s \<and> sleepq s' = sleepq s \<and>
     (\<forall>i. squeue (semtab s' i) = squeue (semtab s i))"

lemma same_q_refl [simp]: "same_q s s"
  by (simp add: same_q_def)

lemma same_q_head: "same_q s s' \<Longrightarrow> is_head s' q = is_head s q"
  by (simp add: same_q_def is_head_def)

lemma same_q_qids: "same_q s s' \<Longrightarrow> qids_ok s' = qids_ok s"
  by (simp add: same_q_def qids_ok_def is_head_def)

lemma same_q_home:
  "same_q s s' \<Longrightarrow> prstate (proctab s' p) = prstate (proctab s p) \<Longrightarrow>
   prsem (proctab s' p) = prsem (proctab s p) \<Longrightarrow> home s' p = home s p"
  by (auto simp: same_q_def home_def split: prstate.splits)

lemma qids_okD:
  assumes "qids_ok s"
  shows "is_head s (readylist s)" "is_head s (sleepq s)" "readylist s \<noteq> sleepq s"
    "i \<in> {0..<NSEM} \<Longrightarrow> is_head s (squeue (semtab s i))"
    "i \<in> {0..<NSEM} \<Longrightarrow> squeue (semtab s i) \<noteq> readylist s"
    "i \<in> {0..<NSEM} \<Longrightarrow> squeue (semtab s i) \<noteq> sleepq s"
    "i \<in> {0..<NSEM} \<Longrightarrow> j \<in> {0..<NSEM} \<Longrightarrow> squeue (semtab s i) = squeue (semtab s j) \<Longrightarrow> i = j"
  using assms by (auto simp: qids_ok_def dest: inj_onD)

lemma placed_unqueued:
  "placed s L X \<Longrightarrow> p \<in> {0..<NPROC} \<Longrightarrow> p \<in> X \<or> home s p = None \<Longrightarrow> unqueued s L p"
  by (auto simp: placed_def unqueued_def)

lemma placed_mem:
  "placed s L X \<Longrightarrow> p \<in> {0..<NPROC} \<Longrightarrow> is_head s q \<Longrightarrow> p \<in> set (L q) \<longleftrightarrow> p \<notin> X \<and> home s p = Some q"
  by (auto simp: placed_def)

text \<open>A change of the process table at one entry.\<close>

definition only_proc :: "kernel \<Rightarrow> kernel \<Rightarrow> int \<Rightarrow> bool" where
  "only_proc s s' p \<longleftrightarrow>
     same_q s s' \<and> (\<forall>p'. p' \<noteq> p \<longrightarrow> prstate (proctab s' p') = prstate (proctab s p') \<and>
        prsem (proctab s' p') = prsem (proctab s p')) \<and>
     (prstate (proctab s' p) = PR_WAIT \<longrightarrow> prsem (proctab s' p) \<in> {0..<NSEM})"

lemma placed_move_in:
  assumes "placed s L X" "only_proc s s' p" "home s' p = Some q" "is_head s q"
    "p \<in> X" "set xs = insert p (set (L q))"
  shows "placed s' (L(q := xs)) (X - {p})"
proof -
  have h: "home s' p' = home s p'" if "p' \<noteq> p" for p'
    using that assms(2) by (intro same_q_home) (auto simp: only_proc_def)
  have hd: "is_head s' = is_head s"
    using assms(2) by (auto simp: only_proc_def same_q_head)
  show ?thesis
    unfolding placed_def
  proof (intro conjI ballI allI impI)
    fix p' q' assume p': "p' \<in> {0..<NPROC}" "is_head s' q'"
    then show "p' \<in> set ((L(q := xs)) q') \<longleftrightarrow> p' \<notin> X - {p} \<and> home s' p' = Some q'"
      using assms h [of p'] hd placed_mem [OF assms(1) p'(1)] by (cases "p' = p") auto
  next
    fix p' assume "p' \<in> {0..<NPROC}" "prstate (proctab s' p') = PR_WAIT"
    then show "prsem (proctab s' p') \<in> {0..<NSEM}"
      using assms(1,2) unfolding placed_def only_proc_def by (cases "p' = p") auto
  qed
qed

lemma placed_move_out:
  assumes "placed s L X" "only_proc s s' p" "is_head s q"
    "p \<in> set (L q)" "set xs = set (L q) - {p}" "p \<in> {0..<NPROC}"
  shows "placed s' (L(q := xs)) (insert p X)"
proof -
  have h: "home s' p' = home s p'" if "p' \<noteq> p" for p'
    using that assms(2) by (intro same_q_home) (auto simp: only_proc_def)
  have hd: "is_head s' = is_head s"
    using assms(2) by (auto simp: only_proc_def same_q_head)
  have "home s p = Some q" using assms placed_mem [OF assms(1,6,3)] by simp
  then have pq: "p \<notin> set (L q')" if "is_head s q'" "q' \<noteq> q" for q'
    using placed_mem [OF assms(1,6) that(1)] that by auto
  show ?thesis
    unfolding placed_def
  proof (intro conjI ballI allI impI)
    fix p' q' assume p': "p' \<in> {0..<NPROC}" "is_head s' q'"
    then show "p' \<in> set ((L(q := xs)) q') \<longleftrightarrow> p' \<notin> insert p X \<and> home s' p' = Some q'"
      using assms(3,5) h [of p'] hd pq placed_mem [OF assms(1) p'(1)] by (cases "p' = p") auto
  next
    fix p' assume "p' \<in> {0..<NPROC}" "prstate (proctab s' p') = PR_WAIT"
    then show "prsem (proctab s' p') \<in> {0..<NSEM}"
      using assms(1,2) unfolding placed_def only_proc_def by (cases "p' = p") auto
  qed
qed

lemma placed_stay:
  assumes "placed s L X" "only_proc s s' p" "p \<in> X"
  shows "placed s' L X"
proof -
  have h: "home s' p' = home s p'" if "p' \<noteq> p" for p'
    using that assms(2) by (intro same_q_home) (auto simp: only_proc_def)
  have hd: "is_head s' = is_head s"
    using assms(2) by (auto simp: only_proc_def same_q_head)
  show ?thesis
    unfolding placed_def
  proof (intro conjI ballI allI impI)
    fix p' q' assume p': "p' \<in> {0..<NPROC}" "is_head s' q'"
    then show "p' \<in> set (L q') \<longleftrightarrow> p' \<notin> X \<and> home s' p' = Some q'"
      using assms(3) h [of p'] hd placed_mem [OF assms(1) p'(1)] by (cases "p' = p") auto
  next
    fix p' assume "p' \<in> {0..<NPROC}" "prstate (proctab s' p') = PR_WAIT"
    then show "prsem (proctab s' p') \<in> {0..<NSEM}"
      using assms(1,2) unfolding placed_def only_proc_def by (cases "p' = p") auto
  qed
qed

lemma placed_transit: "home s p = None \<Longrightarrow> placed s L (insert p X) = placed s L (X - {p})"
  unfolding placed_def by (intro conj_cong ball_cong all_cong imp_cong refl iffI) auto

lemma placed_cong:
  assumes "same_q s s'" "\<And>p. prstate (proctab s' p) = prstate (proctab s p)"
    "\<And>p. prsem (proctab s' p) = prsem (proctab s p)"
  shows "placed s' L X = placed s L X"
  using same_q_home [OF assms(1) assms(2) assms(3)] same_q_head [OF assms(1)] assms
  by (simp add: placed_def)

section \<open>Effect of the queue operations on the invariant\<close>

lemma kcoreD:
  assumes "kcore s L X"
  shows "qrel s L" "qids_ok s" "placed s L X" "cur_ok s" "prio_ok s"
    "desc (ky (queuetab s)) (L (readylist s))" "kstat s = Running"
    "is_head s (readylist s)" "is_head s (sleepq s)" "readylist s \<noteq> sleepq s" "msg_ok s X"
  using assms qids_okD [of s] by (auto simp: kcore_def)

lemma msg_ok_queuetab [simp]: "msg_ok (s\<lparr>queuetab := qt\<rparr>) X = msg_ok s X"
  by (simp add: msg_ok_def)

lemma msg_ok_mono: "msg_ok s X \<Longrightarrow> X \<subseteq> Y \<Longrightarrow> msg_ok s Y"
  by (auto simp: msg_ok_def)

lemma kcore_only_queues:
  assumes "kcore s L X" "qrel (s\<lparr>queuetab := qt\<rparr>) L'" "placed (s\<lparr>queuetab := qt\<rparr>) L' X'"
    "desc (ky qt) (L' (readylist s))" "X \<subseteq> X'"
  shows "kcore (s\<lparr>queuetab := qt\<rparr>) L' X'"
  using assms msg_ok_mono [of s X X'] by (simp add: kcore_def qids_ok_def cur_ok_def prio_ok_def is_head_def)

lemma only_proc_queues [simp]: "placed s L X \<Longrightarrow> p \<in> {0..<NPROC} \<Longrightarrow> only_proc s (s\<lparr>queuetab := qt\<rparr>) p"
  by (simp add: only_proc_def same_q_def placed_def)

lemma kcore_take:
  assumes k: "kcore s L X" and q: "is_head s q" and pid: "pid \<in> set (L q)"
    and ok: "q_ok out s pid (L(q := remove1 pid (L q))) (ky (queuetab s))"
  obtains qt where "out = (pid, s\<lparr>queuetab := qt\<rparr>)"
    "kcore (s\<lparr>queuetab := qt\<rparr>) (L(q := remove1 pid (L q))) (insert pid X)" "ky qt = ky (queuetab s)"
proof -
  note K = kcoreD [OF k]
  obtain qt where o: "out = (pid, s\<lparr>queuetab := qt\<rparr>)"
    and r: "qrel (s\<lparr>queuetab := qt\<rparr>) (L(q := remove1 pid (L q)))" and kq: "ky qt = ky (queuetab s)"
    using ok by (rule q_okE)
  have range: "pid \<in> {0..<NPROC}" using qrel_range [OF K(1) q pid] by simp
  have "distinct (L q)" using qrel_rep [OF K(1) q] by (simp add: qrep_def)
  then have "placed (s\<lparr>queuetab := qt\<rparr>) (L(q := remove1 pid (L q))) (insert pid X)"
    using K(3) range by (intro placed_move_out [OF K(3) _ q pid]) auto
  moreover have "desc (ky qt) ((L(q := remove1 pid (L q))) (readylist s))"
    using K(6) by (auto simp: kq desc_remove1)
  ultimately have "kcore (s\<lparr>queuetab := qt\<rparr>) (L(q := remove1 pid (L q))) (insert pid X)"
    by (rule kcore_only_queues [OF k r]) blast
  with o kq that show thesis by blast
qed

lemma kcore_getitem:
  assumes "kcore s L X" "is_head s q" "pid \<in> set (L q)"
  obtains qt where "getitem pid s = (pid, s\<lparr>queuetab := qt\<rparr>)"
    "kcore (s\<lparr>queuetab := qt\<rparr>) (L(q := remove1 pid (L q))) (insert pid X)" "ky qt = ky (queuetab s)"
  using kcore_take [OF assms getitem_ok [OF kcoreD(1) [OF assms(1)] assms(2,3)]] by blast

lemma kcore_dequeue:
  assumes "kcore s L X" "is_head s q" "L q = pid # xs"
  obtains qt where "dequeue q s = (pid, s\<lparr>queuetab := qt\<rparr>)"
    "kcore (s\<lparr>queuetab := qt\<rparr>) (L(q := xs)) (insert pid X)" "ky qt = ky (queuetab s)"
proof -
  have "q_ok (dequeue q s) s pid (L(q := remove1 pid (L q))) (ky (queuetab s))"
    using dequeue_ok [OF kcoreD(1) [OF assms(1)] assms(2,3)] assms(3) by simp
  from kcore_take [OF assms(1,2) _ this] assms(3) that show thesis by auto
qed

lemma kcore_getfirst:
  assumes "kcore s L X" "is_head s q" "L q = pid # xs"
  obtains qt where "getfirst q s = (pid, s\<lparr>queuetab := qt\<rparr>)"
    "kcore (s\<lparr>queuetab := qt\<rparr>) (L(q := xs)) (insert pid X)" "ky qt = ky (queuetab s)"
proof -
  have "q_ok (getfirst q s) s pid (L(q := remove1 pid (L q))) (ky (queuetab s))"
    using getfirst_ok [OF kcoreD(1) [OF assms(1)] assms(2,3)] assms(3) by simp
  from kcore_take [OF assms(1,2) _ this] assms(3) that show thesis by auto
qed

text \<open>The invariant looks at the queues and at the state, semaphore and priority of processes.\<close>

lemma kcore_cong:
  assumes "same_q s s'" "queuetab s' = queuetab s" "currpid s' = currpid s" "kstat s' = kstat s"
    "\<And>p. prstate (proctab s' p) = prstate (proctab s p)"
    "\<And>p. prsem (proctab s' p) = prsem (proctab s p)"
    "\<And>p. prprio (proctab s' p) = prprio (proctab s p)"
    "\<And>p. prhasmsg (proctab s' p) = prhasmsg (proctab s p)" "pframe s' = pframe s"
  shows "kcore s' L X = kcore s L X"
proof -
  have "qrel s' L = qrel s L"
    using assms(1,2) same_q_head [OF assms(1)] by (simp add: qrel_def same_q_def)
  moreover have "readylist s' = readylist s" using assms(1) by (simp add: same_q_def)
  ultimately show ?thesis
    using assms(2-) same_q_qids [OF assms(1)] placed_cong [OF assms(1,5,6)]
    by (simp add: kcore_def cur_ok_def prio_ok_def msg_ok_def)
qed

lemma kcore_irrelevant [simp]:
  "kcore (s\<lparr>attempt := b\<rparr>) L X = kcore s L X" "kcore (s\<lparr>ndefers := n\<rparr>) L X = kcore s L X"
  "kcore (s\<lparr>preempt := m\<rparr>) L X = kcore s L X"
  "kcore (s\<lparr>clktime := m\<rparr>) L X = kcore s L X" "kcore (s\<lparr>count1000 := m\<rparr>) L X = kcore s L X"
  "kcore (s\<lparr>kmem := h\<rparr>) L X = kcore s L X" "kcore (s\<lparr>devlog := d\<rparr>) L X = kcore s L X"
  "kcore (s\<lparr>prcount := n\<rparr>) L X = kcore s L X" "kcore (s\<lparr>nextpid := n\<rparr>) L X = kcore s L X"
  "kcore (s\<lparr>nextsem := n\<rparr>) L X = kcore s L X"
  "kcore (s\<lparr>buftab := bt\<rparr>) L X = kcore s L X"
  "kcore (s\<lparr>nbpools := np\<rparr>) L X = kcore s L X"
  "kcore (s\<lparr>ptfree := pf\<rparr>) L X = kcore s L X"
  "kcore (s\<lparr>porttab := po\<rparr>) L X = kcore s L X"
  "kcore (s\<lparr>ptnextid := pn\<rparr>) L X = kcore s L X"
  "kcore (s\<lparr>marks := mk\<rparr>) L X = kcore s L X"
  "kcore (s\<lparr>nmarks := nm\<rparr>) L X = kcore s L X"
  "kcore (s\<lparr>mkmutex := mm\<rparr>) L X = kcore s L X"
  by (rule kcore_cong; simp add: same_q_def)+

text \<open>The statements of \<^verbatim>\<open>ready()\<close> before its call of \<^verbatim>\<open>resched()\<close>: a process in transit goes
  on the ready list.\<close>

lemma set_state_simps [simp]:
  "queuetab (set_state p st s) = queuetab s" "nextqid (set_state p st s) = nextqid s"
  "readylist (set_state p st s) = readylist s" "sleepq (set_state p st s) = sleepq s"
  "semtab (set_state p st s) = semtab s" "currpid (set_state p st s) = currpid s"
  "ndefers (set_state p st s) = ndefers s" "kstat (set_state p st s) = kstat s"
  "proctab (set_state p st s) = (proctab s)(p := (proctab s p)\<lparr>prstate := st\<rparr>)"
  "pframe (set_state p st s) = pframe s" "attempt (set_state p st s) = attempt s"
  by (simp_all add: upd_defs)

lemma kcore_make_ready:
  assumes k: "kcore s L (insert p X)" and p: "p \<in> {0..<NPROC}" and w: "wakeable s p"
  obtains qt where
    "insert_q p (readylist s) (prprio (proctab s p)) (set_state p PR_READY s)
       = (OK, (set_state p PR_READY s)\<lparr>queuetab := qt\<rparr>)"
    "ky qt = (ky (queuetab s))(p := prprio (proctab s p))"
    "kcore ((set_state p PR_READY s)\<lparr>queuetab := qt\<rparr>)
       (L(readylist s := ins_desc (ky (queuetab s)) p (prprio (proctab s p)) (L (readylist s)))) (X - {p})"
proof -
  note K = kcoreD [OF k]
  let ?s = "set_state p PR_READY s" and ?pr = "prprio (proctab s p)"
  let ?xs = "ins_desc (ky (queuetab s)) p ?pr (L (readylist s))"
  have un: "unqueued s L p" using K(3) p by (intro placed_unqueued) auto
  have rel: "qrel ?s L" using K(1) by (simp add: qrel_def is_head_def)
  have un': "unqueued ?s L p" using un by (simp add: unqueued_def is_head_def)
  have rl: "is_head ?s (readylist s)" using K(8) by (simp add: is_head_def)
  have bad: "\<not> isbadpid (proctab ?s) p" using p by (simp add: isbadpid_def)
  have key: "MINKEY < ?pr" using K(5) by (simp add: prio_ok_def order.strict_trans2 [of _ "-32768"])
  obtain qt where o: "insert_q p (readylist s) ?pr ?s = (OK, ?s\<lparr>queuetab := qt\<rparr>)"
    and r: "qrel (?s\<lparr>queuetab := qt\<rparr>) (L(readylist s := ?xs))"
    and kq: "ky qt = (ky (queuetab s))(p := ?pr)"
    using insert_ok [OF rel rl un' bad key] by (auto elim: q_okE)
  have "only_proc s (?s\<lparr>queuetab := qt\<rparr>) p" by (simp add: only_proc_def same_q_def)
  then have pl: "placed (?s\<lparr>queuetab := qt\<rparr>) (L(readylist s := ?xs)) (X - {p})"
    using placed_move_in [OF K(3), of "?s\<lparr>queuetab := qt\<rparr>" p "readylist s" ?xs] K(8)
    by (simp add: home_def)
  have "p \<notin> set (L (readylist s))" using un K(8) by (simp add: unqueued_def)
  then have "desc (ky qt) ?xs" using desc_ins_desc [OF K(6)] by (simp add: kq)
  moreover have "msg_ok ?s (X - {p})" using K(11) w by (auto simp: msg_ok_def wakeable_def)
  ultimately have "kcore (?s\<lparr>queuetab := qt\<rparr>) (L(readylist s := ?xs)) (X - {p})"
    using r pl K by (auto simp: kcore_def qids_ok_def cur_ok_def prio_ok_def is_head_def)
  with o kq that show thesis by blast
qed

text \<open>The ready list holds exactly the ready processes, the sleep queue the sleeping ones.\<close>

lemma queue_iff_state:
  assumes k: "kcore s L {}" and p: "p \<in> {0..<NPROC}"
  shows "p \<in> set (L (readylist s)) \<longleftrightarrow> prstate (proctab s p) = PR_READY"
    "p \<in> set (L (sleepq s)) \<longleftrightarrow> prstate (proctab s p) = PR_SLEEP \<or> prstate (proctab s p) = PR_RECTIM"
proof -
  note C = kcoreD [OF k]
  have "prsem (proctab s p) \<in> {0..<NSEM}" if "prstate (proctab s p) = PR_WAIT"
    using C(3) p that unfolding placed_def by blast
  then have "home s p = Some (readylist s) \<longleftrightarrow> prstate (proctab s p) = PR_READY"
    "home s p = Some (sleepq s) \<longleftrightarrow> prstate (proctab s p) = PR_SLEEP \<or> prstate (proctab s p) = PR_RECTIM"
    using qids_okD(5,6) [OF C(2), of "prsem (proctab s p)"] C(10)
    by (auto simp: home_def split: prstate.splits)
  with placed_mem [OF C(3) p C(8)] placed_mem [OF C(3) p C(9)]
  show "p \<in> set (L (readylist s)) \<longleftrightarrow> prstate (proctab s p) = PR_READY"
    "p \<in> set (L (sleepq s)) \<longleftrightarrow> prstate (proctab s p) = PR_SLEEP \<or> prstate (proctab s p) = PR_RECTIM"
    by simp_all
qed

section \<open>Rescheduling\<close>

text \<open>The list the next process is taken from: the ready list, with the current process behind the
  entries of its priority if it stays eligible.\<close>

definition candidates :: "kernel \<Rightarrow> (int \<Rightarrow> int list) \<Rightarrow> int list" where
  "candidates s L =
     (if prstate (proctab s (currpid s)) = PR_CURR
      then ins_desc (ky (queuetab s)) (currpid s) (prprio (proctab s (currpid s))) (L (readylist s))
      else L (readylist s))"

definition switched_keys :: "kernel \<Rightarrow> int \<Rightarrow> int" where
  "switched_keys s =
     (if prstate (proctab s (currpid s)) = PR_CURR
      then (ky (queuetab s))(currpid s := prprio (proctab s (currpid s)))
      else ky (queuetab s))"

definition keeps_cpu :: "kernel \<Rightarrow> bool" where
  "keeps_cpu s \<longleftrightarrow>
     prstate (proctab s (currpid s)) = PR_CURR \<and>
     prprio (proctab s (currpid s)) > firstkey (queuetab s) (readylist s)"

text \<open>What changes in a switch: queue links, keys, process states, the current process and the
  time slice; a key changes only for a process that was current.\<close>

definition switch_frame :: "kernel \<Rightarrow> kernel \<Rightarrow> bool" where
  "switch_frame s s' \<longleftrightarrow>
     (\<exists>qt pt cp pr. s' = s\<lparr>queuetab := qt, proctab := pt, currpid := cp, preempt := pr\<rparr> \<and>
        (\<forall>p. \<exists>st. pt p = (proctab s p)\<lparr>prstate := st\<rparr>) \<and>
        (\<forall>p. ky qt p = ky (queuetab s) p \<or> p = currpid s \<and> prstate (proctab s p) = PR_CURR))"

lemma same_but_state [simp]: "\<exists>st. e = e\<lparr>prstate := st\<rparr>"
  by (rule exI [of _ "prstate e"]) simp

lemma switch_frameI:
  assumes "s' = s\<lparr>queuetab := qt, proctab := pt, currpid := cp, preempt := pr\<rparr>"
    "\<And>p. \<exists>st. pt p = (proctab s p)\<lparr>prstate := st\<rparr>"
    "\<And>p. ky qt p = ky (queuetab s) p \<or> p = currpid s \<and> prstate (proctab s p) = PR_CURR"
  shows "switch_frame s s'"
  unfolding switch_frame_def using assms by blast

lemma switch_frame_refl [simp]: "switch_frame s s"
  unfolding switch_frame_def
  by (rule exI [of _ "queuetab s"], rule exI [of _ "proctab s"], rule exI [of _ "currpid s"],
      rule exI [of _ "preempt s"]) simp

lemma switch_frameD:
  assumes "switch_frame s s'"
  shows "semtab s' = semtab s" "readylist s' = readylist s" "sleepq s' = sleepq s"
    "nextqid s' = nextqid s" "ndefers s' = ndefers s" "kstat s' = kstat s" "same_q s s'"
    "pframe s' = pframe s" "prcount s' = prcount s" "kmem s' = kmem s" "devlog s' = devlog s"
    "nextpid s' = nextpid s" "nextsem s' = nextsem s" "attempt s' = attempt s"
    "clktime s' = clktime s" "count1000 s' = count1000 s"
    "buftab s' = buftab s" "nbpools s' = nbpools s" "ptfree s' = ptfree s" "porttab s' = porttab s"
    "ptnextid s' = ptnextid s" "marks s' = marks s" "nmarks s' = nmarks s" "mkmutex s' = mkmutex s"
    "prprio (proctab s' p) = prprio (proctab s p)" "prhasmsg (proctab s' p) = prhasmsg (proctab s p)"
    "prmsg (proctab s' p) = prmsg (proctab s p)" "prsem (proctab s' p) = prsem (proctab s p)"
    "prparent (proctab s' p) = prparent (proctab s p)" "prdesc (proctab s' p) = prdesc (proctab s p)"
    "prstkbase (proctab s' p) = prstkbase (proctab s p)" "prstklen (proctab s' p) = prstklen (proctab s p)"
    "prname (proctab s' p) = prname (proctab s p)" "prstkptr (proctab s' p) = prstkptr (proctab s p)"
proof -
  obtain qt pt cp pr where s': "s' = s\<lparr>queuetab := qt, proctab := pt, currpid := cp, preempt := pr\<rparr>"
    and pt: "\<And>p. \<exists>st. pt p = (proctab s p)\<lparr>prstate := st\<rparr>"
    using assms unfolding switch_frame_def by blast
  obtain st where "pt p = (proctab s p)\<lparr>prstate := st\<rparr>" using pt by blast
  then show "prprio (proctab s' p) = prprio (proctab s p)" "prhasmsg (proctab s' p) = prhasmsg (proctab s p)"
    "prmsg (proctab s' p) = prmsg (proctab s p)" "prsem (proctab s' p) = prsem (proctab s p)"
    "prparent (proctab s' p) = prparent (proctab s p)" "prdesc (proctab s' p) = prdesc (proctab s p)"
    "prstkbase (proctab s' p) = prstkbase (proctab s p)" "prstklen (proctab s' p) = prstklen (proctab s p)"
    "prname (proctab s' p) = prname (proctab s p)" "prstkptr (proctab s' p) = prstkptr (proctab s p)"
    by (auto simp: s')
qed (use assms in \<open>auto simp: switch_frame_def same_q_def\<close>)

lemma switch_frame_keys:
  "switch_frame s s' \<Longrightarrow> p \<noteq> currpid s \<or> prstate (proctab s p) \<noteq> PR_CURR \<Longrightarrow>
   ky (queuetab s') p = ky (queuetab s) p"
  by (auto simp: switch_frame_def)

lemma resched_deferred: "ndefers s > 0 \<Longrightarrow> resched s = s\<lparr>attempt := True\<rparr>"
  by (simp add: resched_def)

lemma resched_keep: "ndefers s = 0 \<Longrightarrow> keeps_cpu s \<Longrightarrow> resched s = s"
  by (simp add: resched_def keeps_cpu_def Let_def)

text \<open>Giving the processor to a process that is in transit.\<close>

lemma kcore_set_current:
  assumes k: "kcore s L {p}" and p: "p \<in> {0..<NPROC}" and cur: "prstate (proctab s (currpid s)) \<noteq> PR_CURR"
    and w: "wakeable s p"
  shows "kcore ((set_state p PR_CURR (s\<lparr>currpid := p\<rparr>))\<lparr>preempt := n\<rparr>) L {}"
proof -
  note K = kcoreD [OF k]
  let ?s = "(set_state p PR_CURR (s\<lparr>currpid := p\<rparr>))\<lparr>preempt := n\<rparr>"
  have op: "only_proc s ?s p" by (simp add: only_proc_def same_q_def)
  have "placed ?s L {p}" by (rule placed_stay [OF K(3) op]) simp
  moreover have "home ?s p = None" by (simp add: home_def)
  ultimately have pl: "placed ?s L {}" using placed_transit [of ?s p L "{}"] by simp
  moreover have "cur_ok ?s"
    using K(4) cur p by (auto simp: cur_ok_def)
  moreover have "msg_ok ?s {}" using K(11) w by (auto simp: msg_ok_def wakeable_def)
  ultimately show ?thesis
    using K by (simp add: kcore_def qids_ok_def prio_ok_def is_head_def qrel_def)
qed

lemma ready_nonempty:
  assumes "kcore s L {}" "prstate (proctab s (currpid s)) \<noteq> PR_CURR"
  shows "L (readylist s) \<noteq> []"
proof -
  note K = kcoreD [OF assms(1)]
  have "prstate (proctab s NULLPROC) = PR_READY" using K(4) assms(2) by (auto simp: cur_ok_def)
  then have "NULLPROC \<in> set (L (readylist s))"
    using placed_mem [OF K(3) _ K(8), of NULLPROC] by (simp add: home_def)
  then show ?thesis by auto
qed

lemma candidates_nonempty: "kcore s L {} \<Longrightarrow> candidates s L \<noteq> []"
  using ready_nonempty [of s L] by (auto simp: candidates_def ins_desc_def)

lemma kcore_curr_transit:
  assumes "kcore s L {}" "home s p = None"
  shows "kcore s L {p}"
  using assms placed_transit [of s p L "{}"] msg_ok_mono [of s "{}" "{p}"] by (simp add: kcore_def)

lemma resched_switch:
  assumes k: "kcore s L {}" and nd: "ndefers s = 0" and sw: "\<not> keeps_cpu s"
    and c: "candidates s L = p # xs"
  shows "kcore (resched s) (L(readylist s := xs)) {}" "currpid (resched s) = p"
    "prstate (proctab (resched s) p) = PR_CURR" "switch_frame s (resched s)"
    "ky (queuetab (resched s)) = switched_keys s"
    "q \<noteq> p \<Longrightarrow> prstate (proctab s q) \<noteq> PR_CURR \<Longrightarrow> prstate (proctab (resched s) q) = prstate (proctab s q)"
proof -
  let ?c = "currpid s"
  define s1 where "s1 = (if prstate (proctab s ?c) = PR_CURR
     then snd (insert_q ?c (readylist s) (prprio (proctab s ?c)) (set_state ?c PR_READY s)) else s)"
  have c_range: "?c \<in> {0..<NPROC}" using kcoreD(4) [OF k] by (simp add: cur_ok_def)
  obtain qt1 st where s1: "s1 = (set_state ?c st s)\<lparr>queuetab := qt1\<rparr>"
    and k1: "kcore s1 (L(readylist s := candidates s L)) {}"
    and cur1: "prstate (proctab s1 ?c) \<noteq> PR_CURR"
    and ky1: "ky qt1 = switched_keys s" and st1: "prstate (proctab s ?c) \<noteq> PR_CURR \<Longrightarrow> st = prstate (proctab s ?c)"
  proof (cases "prstate (proctab s ?c) = PR_CURR")
    case True
    then have "kcore s L (insert ?c {})" using k by (intro kcore_curr_transit) (simp_all add: home_def)
    from kcore_make_ready [OF this c_range] True obtain qt where
      o: "insert_q ?c (readylist s) (prprio (proctab s ?c)) (set_state ?c PR_READY s)
          = (OK, (set_state ?c PR_READY s)\<lparr>queuetab := qt\<rparr>)"
      and kq: "ky qt = (ky (queuetab s))(?c := prprio (proctab s ?c))"
      and kk: "kcore ((set_state ?c PR_READY s)\<lparr>queuetab := qt\<rparr>) (L(readylist s := candidates s L)) {}"
      by (auto simp: candidates_def wakeable_def)
    show thesis
      by (rule that [of qt PR_READY]) (use True o kk kq in \<open>auto simp: s1_def switched_keys_def\<close>)
  next
    case False
    have "(set_state ?c (prstate (proctab s ?c)) s)\<lparr>queuetab := queuetab s\<rparr> = s"
      by (simp add: upd_defs)
    then show thesis
      by (intro that [of "queuetab s" "prstate (proctab s ?c)"])
        (use False k in \<open>auto simp: s1_def candidates_def switched_keys_def\<close>)
  qed
  have rl: "readylist s1 = readylist s" "currpid s1 = ?c" by (simp_all add: s1)
  have hd1: "is_head s1 (readylist s)" using kcoreD(8) [OF k1] rl by simp
  from kcore_dequeue [OF k1 hd1, of p xs] c obtain qt2 where
    d: "dequeue (readylist s) s1 = (p, s1\<lparr>queuetab := qt2\<rparr>)"
    and k2: "kcore (s1\<lparr>queuetab := qt2\<rparr>) (L(readylist s := xs)) {p}"
    and kq2: "ky qt2 = ky (queuetab s1)" by auto
  have r: "resched s = (set_state p PR_CURR (s1\<lparr>queuetab := qt2, currpid := p\<rparr>))\<lparr>preempt := QUANTUM\<rparr>"
    using nd sw d rl by (auto simp: resched_def keeps_cpu_def Let_def s1_def [symmetric])
  have p_range: "p \<in> {0..<NPROC}"
    using qrel_range [OF kcoreD(1) [OF k1] hd1, of p] c by simp
  have "prstate (proctab s1 p) = PR_READY"
    using queue_iff_state(1) [OF k1 p_range] c rl by simp
  then have w: "wakeable (s1\<lparr>queuetab := qt2\<rparr>) p" by (simp add: wakeable_def)
  from kcore_set_current [OF k2 p_range _ w] cur1 rl show "kcore (resched s) (L(readylist s := xs)) {}"
    by (simp add: r)
  show "currpid (resched s) = p" "prstate (proctab (resched s) p) = PR_CURR"
    by (simp_all add: r upd_defs)
  have "resched s = s\<lparr>queuetab := qt2, proctab := proctab (resched s), currpid := p, preempt := QUANTUM\<rparr>"
    by (simp add: r s1 upd_defs)
  moreover have "\<exists>st. proctab (resched s) p' = (proctab s p')\<lparr>prstate := st\<rparr>" for p'
    by (auto simp: r s1 upd_defs)
  ultimately show "switch_frame s (resched s)"
    by (rule switch_frameI) (use ky1 kq2 s1 in \<open>auto simp: switched_keys_def\<close>)
  show "ky (queuetab (resched s)) = switched_keys s"
    using ky1 kq2 s1 by (simp add: r upd_defs)
  show "q \<noteq> p \<Longrightarrow> prstate (proctab s q) \<noteq> PR_CURR \<Longrightarrow> prstate (proctab (resched s) q) = prstate (proctab s q)"
    using st1 by (auto simp: r s1 upd_defs)
qed

lemma resched_ok:
  assumes "kcore s L {}" "ndefers s = 0"
  obtains xs where "kcore (resched s) (L(readylist s := xs)) {}"
    "prstate (proctab (resched s) (currpid (resched s))) = PR_CURR" "switch_frame s (resched s)"
proof (cases "keeps_cpu s")
  case True
  then show thesis
    using that [of "L (readylist s)"] assms by (simp add: resched_keep keeps_cpu_def)
next
  case False
  obtain p xs where "candidates s L = p # xs"
    using candidates_nonempty [OF assms(1)] by (cases "candidates s L") auto
  from resched_switch [OF assms False this] that show thesis by blast
qed

lemma sems_ok_cong:
  assumes "\<And>i. i \<in> {0..<NSEM} \<Longrightarrow> semtab s' i = semtab s i"
    "\<And>i. i \<in> {0..<NSEM} \<Longrightarrow> L' (squeue (semtab s i)) = L (squeue (semtab s i))"
  shows "sems_ok s' L' = sems_ok s L"
  using assms by (simp add: sems_ok_def sem_ok_def sem_cnt_def)

lemma sems_ok_other_queue:
  assumes "kcore s L X" "q = readylist s \<or> q = sleepq s" "semtab s' = semtab s" "sems_ok s L"
  shows "sems_ok s' (L(q := xs))"
  using assms qids_okD(5,6) [OF kcoreD(2) [OF assms(1)]] by (subst sems_ok_cong [of _ s _ L]) auto

lemma resched_kinv:
  assumes "kcore s L {}" "ndefers s = 0" "sems_ok s L"
  obtains xs where "kinv (resched s) (L(readylist s := xs))" "switch_frame s (resched s)"
proof -
  from resched_ok [OF assms(1,2)] obtain xs where
    k: "kcore (resched s) (L(readylist s := xs)) {}"
    and c: "prstate (proctab (resched s) (currpid (resched s))) = PR_CURR"
    and f: "switch_frame s (resched s)" by blast
  have "sems_ok (resched s) (L(readylist s := xs))"
    using sems_ok_other_queue [OF assms(1) _ switch_frameD(1) [OF f] assms(3)] by simp
  with k c f assms(2) that show thesis by (simp add: kinv_def switch_frameD(5))
qed

section \<open>Making a process ready\<close>

lemma ready_bad: "isbadpid (proctab s) p \<Longrightarrow> ready p s = (SYSERR, s)"
  by (simp add: ready_def)

lemma isbadpid_range: "\<not> isbadpid pt p \<Longrightarrow> p \<in> {0..<NPROC}"
  by (auto simp: isbadpid_def)

lemma ready_kinv:
  assumes k: "kcore s L {p}" and p: "\<not> isbadpid (proctab s) p" and nd: "ndefers s = 0" and sm: "sems_ok s L"
    and w: "wakeable s p"
  obtains xs where "fst (ready p s) = OK" "kinv (snd (ready p s)) (L(readylist s := xs))"
    "semtab (snd (ready p s)) = semtab s"
proof -
  let ?L = "L(readylist s := ins_desc (ky (queuetab s)) p (prprio (proctab s p)) (L (readylist s)))"
  from kcore_make_ready [of s L p "{}"] k isbadpid_range [OF p] w obtain qt where
    o: "insert_q p (readylist s) (prprio (proctab s p)) (set_state p PR_READY s)
       = (OK, (set_state p PR_READY s)\<lparr>queuetab := qt\<rparr>)"
    and kk: "kcore ((set_state p PR_READY s)\<lparr>queuetab := qt\<rparr>) ?L {}"
    by auto
  let ?s = "(set_state p PR_READY s)\<lparr>queuetab := qt\<rparr>"
  have sm': "sems_ok ?s ?L" by (rule sems_ok_other_queue [OF k _ _ sm]) simp_all
  have r: "ready p s = (OK, resched ?s)"
    using p o by (simp add: ready_def Let_def)
  have nd': "ndefers ?s = 0" using nd by simp
  from resched_kinv [OF kk nd' sm'] obtain xs where
    "kinv (resched ?s) (?L(readylist ?s := xs))" and f: "switch_frame ?s (resched ?s)" by blast
  then show thesis using that r switch_frameD(1) [OF f] by simp
qed

lemma ready_deferred:
  assumes k: "kcore s L {p}" and p: "\<not> isbadpid (proctab s) p" and nd: "ndefers s > 0"
    and w: "wakeable s p"
  obtains qt where "ready p s = (OK, (set_state p PR_READY s)\<lparr>queuetab := qt, attempt := True\<rparr>)"
    "kcore ((set_state p PR_READY s)\<lparr>queuetab := qt, attempt := True\<rparr>)
       (L(readylist s := ins_desc (ky (queuetab s)) p (prprio (proctab s p)) (L (readylist s)))) {}"
    "ky qt = (ky (queuetab s))(p := prprio (proctab s p))"
proof -
  from kcore_make_ready [of s L p "{}"] k isbadpid_range [OF p] w obtain qt where
    o: "insert_q p (readylist s) (prprio (proctab s p)) (set_state p PR_READY s)
       = (OK, (set_state p PR_READY s)\<lparr>queuetab := qt\<rparr>)"
    and kq: "ky qt = (ky (queuetab s))(p := prprio (proctab s p))"
    and kk: "kcore ((set_state p PR_READY s)\<lparr>queuetab := qt\<rparr>)
       (L(readylist s := ins_desc (ky (queuetab s)) p (prprio (proctab s p)) (L (readylist s)))) {}"
    by auto
  show thesis
    by (rule that [of qt])
      (use p o nd kk kq in \<open>auto simp: ready_def Let_def resched_def\<close>)
qed

section \<open>System calls of the scheduler keep the invariant\<close>

lemma kinvD:
  assumes "kinv s L"
  shows "kcore s L {}" "sems_ok s L" "ndefers s = 0" "prstate (proctab s (currpid s)) = PR_CURR"
    "currpid s \<in> {0..<NPROC}" "home s (currpid s) = None"
  using assms by (auto simp: kinv_def kcore_def cur_ok_def home_def)

lemma kinv_irrelevant [simp]:
  "kinv (s\<lparr>attempt := b\<rparr>) L = kinv s L" "kinv (s\<lparr>preempt := m\<rparr>) L = kinv s L"
  "kinv (s\<lparr>clktime := m\<rparr>) L = kinv s L"
  "kinv (s\<lparr>count1000 := m\<rparr>) L = kinv s L" "kinv (s\<lparr>kmem := h\<rparr>) L = kinv s L"
  "kinv (s\<lparr>devlog := d\<rparr>) L = kinv s L" "kinv (s\<lparr>prcount := n\<rparr>) L = kinv s L"
  "kinv (s\<lparr>nextpid := n\<rparr>) L = kinv s L" "kinv (s\<lparr>nextsem := n\<rparr>) L = kinv s L"
  "kinv (s\<lparr>buftab := bt\<rparr>) L = kinv s L"
  "kinv (s\<lparr>nbpools := np\<rparr>) L = kinv s L"
  "kinv (s\<lparr>ptfree := pf\<rparr>) L = kinv s L"
  "kinv (s\<lparr>porttab := po\<rparr>) L = kinv s L"
  "kinv (s\<lparr>ptnextid := pn\<rparr>) L = kinv s L"
  "kinv (s\<lparr>marks := mk\<rparr>) L = kinv s L"
  "kinv (s\<lparr>nmarks := nm\<rparr>) L = kinv s L"
  "kinv (s\<lparr>mkmutex := mm\<rparr>) L = kinv s L"
  by (simp_all add: kinv_def sems_ok_def sem_ok_def sem_cnt_def)

text \<open>A process in transit that is put into a state without a queue.\<close>

lemma kcore_park:
  assumes k: "kcore s L (insert p X)" and st: "st \<in> {PR_FREE, PR_SUSP, PR_RECV}" and p: "p \<noteq> NULLPROC"
    and w: "st = PR_SUSP \<Longrightarrow> wakeable s p" "st = PR_RECV \<Longrightarrow> \<not> prhasmsg (proctab s p)"
  shows "kcore (set_state p st s) L (X - {p})"
proof -
  note K = kcoreD [OF k]
  have op: "only_proc s (set_state p st s) p" using st by (auto simp: only_proc_def same_q_def)
  have "placed (set_state p st s) L (insert p X)" by (rule placed_stay [OF K(3) op]) simp
  moreover have "home (set_state p st s) p = None" using st by (auto simp: home_def)
  ultimately have "placed (set_state p st s) L (X - {p})" by (simp add: placed_transit)
  moreover have "cur_ok (set_state p st s)" using K(4) p st by (auto simp: cur_ok_def)
  moreover have "msg_ok (set_state p st s) (X - {p})"
    using K(11) w st by (auto simp: msg_ok_def wakeable_def)
  ultimately show ?thesis
    using K by (simp add: kcore_def qids_ok_def prio_ok_def is_head_def qrel_def)
qed

lemma sems_ok_set_state [simp]: "sems_ok (set_state p st s) L = sems_ok s L"
  by (simp add: sems_ok_def sem_ok_def sem_cnt_def)

lemma sems_ok_queuetab [simp]: "sems_ok (s\<lparr>queuetab := qt\<rparr>) L = sems_ok s L"
  by (simp add: sems_ok_def sem_ok_def sem_cnt_def)

text \<open>The current process gives up the processor for good or until it is made ready.\<close>

lemma block_current_kinv:
  assumes k: "kinv s L" and c: "currpid s \<noteq> NULLPROC" and st: "st \<in> {PR_FREE, PR_SUSP, PR_RECV}"
    and w: "st = PR_RECV \<Longrightarrow> \<not> prhasmsg (proctab s (currpid s))"
  obtains xs where "kinv (resched (set_state (currpid s) st s)) (L(readylist s := xs))"
    "switch_frame (set_state (currpid s) st s) (resched (set_state (currpid s) st s))"
proof -
  note K = kinvD [OF k]
  have "kcore s L (insert (currpid s) {})" using kcore_curr_transit [OF K(1,6)] .
  from kcore_park [OF this st c _ w] K(4) have k1: "kcore (set_state (currpid s) st s) L {}"
    by (simp add: wakeable_def)
  show thesis
    using resched_kinv [OF k1] K(2,3) that by auto
qed

text \<open>Leaving a frame behind, and taking one away.\<close>

lemma kinv_frame:
  assumes "kinv s L" "f = Some F_receive \<Longrightarrow> \<not> wakeable s p \<or> prhasmsg (proctab s p)"
  shows "kinv (s\<lparr>pframe := (pframe s)(p := f)\<rparr>) L"
proof -
  note C = kcoreD [OF kinvD(1) [OF assms(1)]]
  have "msg_ok (s\<lparr>pframe := (pframe s)(p := f)\<rparr>) {}" using C(11) assms(2) by (auto simp: msg_ok_def wakeable_def)
  moreover have "placed (s\<lparr>pframe := (pframe s)(p := f)\<rparr>) L {} = placed s L {}"
    by (rule placed_cong) (simp_all add: same_q_def)
  ultimately have "kcore (s\<lparr>pframe := (pframe s)(p := f)\<rparr>) L {}"
    using C by (simp add: kcore_def qids_ok_def cur_ok_def prio_ok_def is_head_def qrel_def)
  then show ?thesis using kinvD [OF assms(1)] by (simp add: kinv_def sems_ok_def sem_ok_def sem_cnt_def)
qed

lemma resume_point_kinv:
  assumes "kinv s' L" "\<And>r t. currpid s' = currpid s \<Longrightarrow> k s' = (r, t) \<Longrightarrow> kinv t L"
    "f = F_receive \<Longrightarrow> prstate (proctab s' (currpid s)) = PR_RECV \<and> \<not> prhasmsg (proctab s' (currpid s))"
  shows "kinv (snd (resume_point s s' f k)) L"
  using assms kinv_frame [OF assms(1), of "Some f" "currpid s"]
  by (auto simp: resume_point_def wakeable_def split: prod.splits)

lemma resched_other_state:
  assumes k: "kcore s L {}" and nd: "ndefers s = 0" and q: "prstate (proctab s q) \<noteq> PR_CURR"
    "prstate (proctab s q) \<noteq> PR_READY" "q \<in> {0..<NPROC}"
  shows "prstate (proctab (resched s) q) = prstate (proctab s q)"
proof (cases "keeps_cpu s")
  case True
  then show ?thesis by (simp add: resched_keep [OF nd])
next
  case False
  obtain p xs where c: "candidates s L = p # xs"
    using candidates_nonempty [OF k] by (cases "candidates s L") auto
  have "q \<notin> set (candidates s L)"
    using queue_iff_state(1) [OF k q(3)] q(1,2) by (auto simp: candidates_def)
  with c have "q \<noteq> p" by auto
  from resched_switch(6) [OF k nd False c this q(1)] show ?thesis .
qed

lemma resume_kinv:
  assumes "kinv s L"
  shows "\<exists>L'. kinv (snd (resume p s)) L'"
proof (cases "isbadpid (proctab s) p \<or> prstate (proctab s p) \<noteq> PR_SUSP")
  case True
  with assms show ?thesis by (auto simp: resume_def)
next
  case False
  then have "kcore s L {p}"
    by (intro kcore_curr_transit kinvD(1) [OF assms]) (simp add: home_def)
  with False kinvD [OF assms] show ?thesis
    by (auto simp: resume_def Let_def wakeable_def elim: ready_kinv)
qed

lemma suspend_kinv:
  assumes "kinv s L"
  shows "\<exists>L'. kinv (snd (suspend p s)) L'"
proof -
  note K = kinvD [OF assms]
  consider (bad) "isbadpid (proctab s) p \<or> p = NULLPROC \<or>
      (prstate (proctab s p) \<noteq> PR_CURR \<and> prstate (proctab s p) \<noteq> PR_READY)"
    | (rdy) "\<not> isbadpid (proctab s) p" "p \<noteq> NULLPROC" "prstate (proctab s p) = PR_READY"
    | (cur) "\<not> isbadpid (proctab s) p" "p \<noteq> NULLPROC" "prstate (proctab s p) = PR_CURR"
    by blast
  then show ?thesis
  proof cases
    case bad
    with assms show ?thesis by (auto simp: suspend_def)
  next
    case rdy
    note C = kcoreD [OF K(1)]
    have "p \<in> set (L (readylist s))"
      using placed_mem [OF C(3) isbadpid_range [OF rdy(1)] C(8)] rdy(3) by (simp add: home_def)
    from kcore_getitem [OF K(1) C(8) this] obtain qt where
      g: "getitem p s = (p, s\<lparr>queuetab := qt\<rparr>)"
      and k: "kcore (s\<lparr>queuetab := qt\<rparr>) (L(readylist s := remove1 p (L (readylist s)))) (insert p {})"
      by auto
    from kcore_park [OF k _ rdy(2), of PR_SUSP] rdy(3)
    have "kcore (set_state p PR_SUSP (s\<lparr>queuetab := qt\<rparr>))
        (L(readylist s := remove1 p (L (readylist s)))) {}" by (simp add: wakeable_def)
    moreover have "sems_ok s (L(readylist s := remove1 p (L (readylist s))))"
      using sems_ok_other_queue [OF K(1) _ _ K(2)] by simp
    moreover have "p \<noteq> currpid s" using K(4) rdy(3) by auto
    ultimately have "kinv (set_state p PR_SUSP (s\<lparr>queuetab := qt\<rparr>))
        (L(readylist s := remove1 p (L (readylist s))))"
      using K by (simp add: kinv_def)
    with rdy g show ?thesis by (auto simp: suspend_def suspend_ret_def Let_def)
  next
    case cur
    then have p: "p = currpid s"
      using kcoreD(4) [OF K(1)] isbadpid_range [OF cur(1)] by (simp add: cur_ok_def)
    from block_current_kinv [OF assms, of PR_SUSP] cur(2) p obtain xs where
      "kinv (resched (set_state p PR_SUSP s)) (L(readylist s := xs))" by auto
    then have "kinv (snd (resume_point s (resched (set_state p PR_SUSP s)) (F_suspend p) (suspend_ret p)))
        (L(readylist s := xs))"
      by (intro resume_point_kinv) (auto simp: suspend_ret_def)
    with cur show ?thesis by (auto simp: suspend_def Let_def)
  qed
qed

lemma yield_kinv: "kinv s L \<Longrightarrow> \<exists>L'. kinv (snd (yield s)) L'"
  unfolding yield_def by (rule resched_kinv [OF kinvD(1,3,2)]) auto

lemma chprio_kinv:
  assumes "kinv s L"
  shows "kinv (snd (chprio p newprio s)) L"
proof -
  let ?s = "upd_proc p (\<lambda>e. e\<lparr>prprio := s16 newprio\<rparr>) s"
  note K = kinvD [OF assms] and C = kcoreD [OF kinvD(1) [OF assms]]
  have sq: "same_q s ?s" by (simp add: same_q_def upd_proc_def)
  have "placed ?s L {} = placed s L {}" by (rule placed_cong [OF sq]) (simp_all add: upd_proc_def)
  moreover have "prio_ok ?s" using C(5) s16_range by (simp add: prio_ok_def upd_proc_def)
  ultimately have "kcore ?s L {}"
    using C by (simp add: kcore_def qids_ok_def cur_ok_def is_head_def qrel_def upd_proc_def msg_ok_def)
  then have "kinv ?s L"
    using K by (auto simp: kinv_def upd_proc_def sems_ok_def sem_ok_def sem_cnt_def)
  with assms show ?thesis by (simp add: chprio_def Let_def)
qed

section \<open>The scheduling policy\<close>

text \<open>The keys of the ready list are the priorities of its processes; \<^verbatim>\<open>chprio\<close> on a ready
  process is the one operation that breaks this.\<close>

definition keys_current :: "kernel \<Rightarrow> (int \<Rightarrow> int list) \<Rightarrow> bool" where
  "keys_current s L \<longleftrightarrow> (\<forall>p \<in> set (L (readylist s)). ky (queuetab s) p = prprio (proctab s p))"

lemma firstkey_max:
  assumes "qrel s L" "is_head s q" "desc (ky (queuetab s)) (L q)" "p \<in> set (L q)"
  shows "ky (queuetab s) p \<le> firstkey (queuetab s) q"
  using assms qrep_firstid [OF qrel_rep [OF assms(1,2)]]
  by (cases "L q") (auto simp: firstkey_def desc_def ky_def)

lemma resched_policy:
  assumes k: "kcore s L {}" and nd: "ndefers s = 0" and kc: "keys_current s L"
  obtains xs where "kcore (resched s) (L(readylist s := xs)) {}"
    "\<And>p. p \<in> set xs \<Longrightarrow> prprio (proctab (resched s) p) \<le> prprio (proctab (resched s) (currpid (resched s)))"
    "keys_current (resched s) (L(readylist s := xs))"
proof (cases "keeps_cpu s")
  case True
  note C = kcoreD [OF k]
  have r: "resched s = s" by (rule resched_keep [OF nd True])
  have "prprio (proctab s p) \<le> prprio (proctab s (currpid s))" if "p \<in> set (L (readylist s))" for p
  proof -
    have "ky (queuetab s) p \<le> firstkey (queuetab s) (readylist s)"
      by (rule firstkey_max [OF C(1,8,6) that])
    then show ?thesis using True kc that by (auto simp: keeps_cpu_def keys_current_def)
  qed
  then show thesis
    by (intro that [of "L (readylist s)"]) (use k kc r in \<open>auto simp: keys_current_def\<close>)
next
  case False
  note C = kcoreD [OF k]
  obtain p xs where c: "candidates s L = p # xs"
    using candidates_nonempty [OF k] by (cases "candidates s L") auto
  note R = resched_switch [OF k nd False c]
  have notin: "currpid s \<notin> set (L (readylist s))" if "prstate (proctab s (currpid s)) = PR_CURR"
    using placed_mem [OF C(3) _ C(8), of "currpid s"] C(4) that by (auto simp: home_def cur_ok_def)
  have "desc (switched_keys s) (p # xs)"
    using desc_ins_desc [OF C(6) notin, of "prprio (proctab s (currpid s))"] C(6)
    unfolding c [symmetric] by (simp add: candidates_def switched_keys_def)
  moreover have kk: "\<forall>y \<in> set (p # xs). switched_keys s y = prprio (proctab s y)"
    using kc notin unfolding c [symmetric]
    by (auto simp: keys_current_def candidates_def switched_keys_def)
  ultimately have le: "\<forall>y \<in> set xs. prprio (proctab s y) \<le> prprio (proctab s p)"
    by (simp add: desc_def)
  have "ky (queuetab (resched s)) y = prprio (proctab s y)" if "y \<in> set xs" for y
    using that kk by (simp add: R(5))
  then show thesis
    by (intro that [of xs] R(1))
      (use R(2) le switch_frameD [OF R(4)] in \<open>auto simp: keys_current_def\<close>)
qed

lemma ins_desc_first: "\<forall>x \<in> set xs. k x < key \<Longrightarrow> ins_desc k p key xs = p # xs"
  by (cases xs) (auto simp: ins_desc_def)

lemma ins_desc_below: "key \<le> k p \<Longrightarrow> ins_desc k q key (p # xs) = p # ins_desc k q key xs"
  by (simp add: ins_desc_def)

lemma ins_desc_cong: "(\<And>x. x \<in> set xs \<Longrightarrow> k x = k' x) \<Longrightarrow> ins_desc k p key xs = ins_desc k' p key xs"
  unfolding ins_desc_def by (simp cong: takeWhile_cong dropWhile_cong)

text \<open>A resumed process whose priority exceeds that of the current process and of all ready ones
  gets the processor before the call returns.\<close>

lemma resume_preempts:
  assumes k: "kinv s L" and p: "p \<in> {0..<NPROC}" "prstate (proctab s p) = PR_SUSP"
    and hi: "prprio (proctab s (currpid s)) < prprio (proctab s p)"
      "\<forall>q \<in> set (L (readylist s)). ky (queuetab s) q < prprio (proctab s p)"
  shows "fst (resume p s) = prprio (proctab s p)" "currpid (snd (resume p s)) = p"
    "kinv (snd (resume p s)) (L(readylist s :=
       ins_desc (ky (queuetab s)) (currpid s) (prprio (proctab s (currpid s))) (L (readylist s))))"
    "semtab (snd (resume p s)) = semtab s" "pframe (snd (resume p s)) = pframe s"
    "prhasmsg (proctab (snd (resume p s)) q) = prhasmsg (proctab s q)"
    "readylist (snd (resume p s)) = readylist s" "sleepq (snd (resume p s)) = sleepq s"
    "nextsem (snd (resume p s)) = nextsem s" "prprio (proctab (snd (resume p s)) q) = prprio (proctab s q)"
    "ky (queuetab (snd (resume p s))) =
       (ky (queuetab s))(p := prprio (proctab s p), currpid s := prprio (proctab s (currpid s)))"
proof -
  let ?k = "ky (queuetab s)" and ?pr = "prprio (proctab s p)" and ?rl = "readylist s" and ?c = "currpid s"
  have kc: "kcore s L (insert p {})" using kcore_curr_transit [OF kinvD(1) [OF k]] p by (simp add: home_def)
  have w: "wakeable s p" using p(2) by (simp add: wakeable_def)
  have pc: "p \<noteq> ?c" using kinvD(4) [OF k] p(2) by auto
  from kcore_make_ready [OF kc p(1) w] obtain qt where
    i: "insert_q p ?rl ?pr (set_state p PR_READY s) = (OK, (set_state p PR_READY s)\<lparr>queuetab := qt\<rparr>)"
    and ky: "ky qt = ?k(p := ?pr)"
    and k1: "kcore ((set_state p PR_READY s)\<lparr>queuetab := qt\<rparr>) (L(?rl := ins_desc ?k p ?pr (L ?rl))) ({} - {p})" .
  define s1 where "s1 = (set_state p PR_READY s)\<lparr>queuetab := qt\<rparr>"
  define L1 where "L1 = L(?rl := p # L ?rl)"
  have k1': "kcore s1 L1 {}" using k1 ins_desc_first [OF hi(2)] by (simp add: s1_def L1_def)
  have c1: "prstate (proctab s1 ?c) = PR_CURR" "prprio (proctab s1 ?c) = prprio (proctab s ?c)" "currpid s1 = ?c"
    using kinvD(4) [OF k] pc by (simp_all add: s1_def)
  have cand: "candidates s1 L1 = p # ins_desc (ky qt) ?c (prprio (proctab s ?c)) (L ?rl)"
    using c1 ky hi(1) by (simp add: candidates_def L1_def ins_desc_below) (simp add: s1_def ins_desc_below)
  have nk: "\<not> keeps_cpu s1"
    using firstkey_max [OF kcoreD(1,8,6) [OF k1'], of p] hi(1) c1 ky
    by (auto simp: keeps_cpu_def L1_def s1_def)
  have nd: "ndefers s1 = 0" using kinvD(3) [OF k] by (simp add: s1_def)
  note sw = resched_switch [OF k1' nd nk cand]
  have r: "resume p s = (?pr, resched s1)"
    using p i by (simp add: resume_def ready_def isbadpid_def s1_def Let_def)
  then show "fst (resume p s) = ?pr" "currpid (snd (resume p s)) = p" using sw(2) by simp_all
  have "p \<notin> set (L ?rl)" using kinvD(1) [OF k] p by (auto simp: queue_iff_state)
  then have "ins_desc (ky qt) ?c (prprio (proctab s ?c)) (L ?rl) = ins_desc ?k ?c (prprio (proctab s ?c)) (L ?rl)"
    unfolding ky by (intro ins_desc_cong) auto
  moreover have "sems_ok s1 L1" unfolding L1_def
    by (rule sems_ok_other_queue [OF kinvD(1) [OF k]]) (use kinvD(2) [OF k] in \<open>simp_all add: s1_def\<close>)
  then have "sems_ok (resched s1) (L1(?rl := ins_desc ?k ?c (prprio (proctab s ?c)) (L ?rl)))"
    by (intro sems_ok_other_queue [OF k1' _ switch_frameD(1) [OF sw(4)]]) (simp_all add: s1_def)
  ultimately show "kinv (snd (resume p s)) (L(?rl := ins_desc ?k ?c (prprio (proctab s ?c)) (L ?rl)))"
    using sw(1,2,3) switch_frameD(5) [OF sw(4)] nd r by (simp add: kinv_def L1_def s1_def)
  show "semtab (snd (resume p s)) = semtab s" "pframe (snd (resume p s)) = pframe s"
    "prhasmsg (proctab (snd (resume p s)) q) = prhasmsg (proctab s q)"
    "readylist (snd (resume p s)) = readylist s" "sleepq (snd (resume p s)) = sleepq s"
    "nextsem (snd (resume p s)) = nextsem s" "prprio (proctab (snd (resume p s)) q) = prprio (proctab s q)"
    using switch_frameD(1,8,26,2,3,13,25) [OF sw(4)] r by (simp_all add: s1_def set_state_def upd_proc_def)
  show "ky (queuetab (snd (resume p s))) = ?k(p := ?pr, ?c := prprio (proctab s ?c))"
    using sw(5) r c1 ky by (simp add: switched_keys_def) (simp add: s1_def)
qed

definition on_cpu_or_ready :: "kernel \<Rightarrow> int \<Rightarrow> bool" where
  "on_cpu_or_ready s p \<longleftrightarrow> prstate (proctab s p) = PR_READY \<or> prstate (proctab s p) = PR_CURR"

lemma resched_eligible:
  assumes k: "kcore s L {}" and c: "prstate (proctab s (currpid s)) = PR_CURR" and p: "p \<in> {0..<NPROC}"
    and nd: "ndefers s = 0"
  shows "on_cpu_or_ready (resched s) p \<longleftrightarrow> on_cpu_or_ready s p"
proof (cases "keeps_cpu s")
  case True
  then show ?thesis by (simp add: resched_keep [OF nd])
next
  case False
  note C = kcoreD [OF k]
  obtain q xs where cd: "candidates s L = q # xs"
    using candidates_nonempty [OF k] by (cases "candidates s L") auto
  note R = resched_switch [OF k nd False cd]
  note C' = kcoreD [OF R(1)]
  have rl: "readylist (resched s) = readylist s" using switch_frameD(2) [OF R(4)] .
  have mem: "p \<in> set (L (readylist s)) \<longleftrightarrow> prstate (proctab s p) = PR_READY"
    by (rule queue_iff_state [OF k p])
  have mem': "p \<in> set xs \<longleftrightarrow> prstate (proctab (resched s) p) = PR_READY"
    using queue_iff_state(1) [OF R(1) p] rl by simp
  have "set (q # xs) = insert (currpid s) (set (L (readylist s)))"
    unfolding cd [symmetric] using c by (simp add: candidates_def)
  moreover have "prstate (proctab s p) = PR_CURR \<longleftrightarrow> p = currpid s"
    using C(4) c p by (auto simp: cur_ok_def)
  moreover have "prstate (proctab (resched s) p) = PR_CURR \<longleftrightarrow> p = q"
    using C'(4) R(2,3) p by (auto simp: cur_ok_def)
  ultimately show ?thesis using mem mem' by (auto simp: on_cpu_or_ready_def)
qed

lemma ready_eligible:
  assumes k: "kcore s L {p}" and p: "\<not> isbadpid (proctab s) p" and nd: "ndefers s = 0" and w: "wakeable s p"
    and c: "prstate (proctab s (currpid s)) = PR_CURR" "p \<noteq> currpid s"
  shows "on_cpu_or_ready (snd (ready p s)) p" "prhasmsg (proctab (snd (ready p s)) q) = prhasmsg (proctab s q)"
    "prmsg (proctab (snd (ready p s)) q) = prmsg (proctab s q)"
proof -
  from kcore_make_ready [of s L p "{}"] k isbadpid_range [OF p] w obtain qt where
    o: "insert_q p (readylist s) (prprio (proctab s p)) (set_state p PR_READY s) = (OK, (set_state p PR_READY s)\<lparr>queuetab := qt\<rparr>)"
    and kk: "kcore ((set_state p PR_READY s)\<lparr>queuetab := qt\<rparr>)
      (L(readylist s := ins_desc (ky (queuetab s)) p (prprio (proctab s p)) (L (readylist s)))) {}" by auto
  let ?s = "(set_state p PR_READY s)\<lparr>queuetab := qt\<rparr>"
  have r: "snd (ready p s) = resched ?s" using p o by (simp add: ready_def Let_def)
  have cu: "prstate (proctab ?s (currpid ?s)) = PR_CURR" using c by simp
  show "on_cpu_or_ready (snd (ready p s)) p"
    unfolding r using resched_eligible [OF kk cu isbadpid_range [OF p]] nd by (simp add: on_cpu_or_ready_def)
  from resched_ok [OF kk] nd have f: "switch_frame ?s (resched ?s)" by auto
  show "prhasmsg (proctab (snd (ready p s)) q) = prhasmsg (proctab s q)"
    "prmsg (proctab (snd (ready p s)) q) = prmsg (proctab s q)"
    unfolding r using switch_frameD(26,27) [OF f, of q] by (auto split: if_splits)
qed

end
