(* ===== verification/Semaphore.thy ===== *)
theory Semaphore
  imports Sched
begin

text \<open>
  Counting semaphores: \<^verbatim>\<open>wait.c\<close>, \<^verbatim>\<open>signal.c\<close>, \<^verbatim>\<open>signaln.c\<close>, \<^verbatim>\<open>semcreate.c\<close>,
  \<^verbatim>\<open>semdelete.c\<close>, \<^verbatim>\<open>semreset.c\<close> and \<^verbatim>\<open>semcount.c\<close>. Every call keeps the kernel invariant; in
  particular a semaphore whose count is \<open>-n\<close> has exactly \<open>n\<close> processes on its queue, so the
  loops of \<^verbatim>\<open>semdelete\<close> and \<^verbatim>\<open>semreset\<close> release all of them and end.
\<close>

section \<open>Operations\<close>

definition wait :: "int \<Rightarrow> kernel \<Rightarrow> int \<times> kernel" where
  "wait sem s =
     (if isbadsem sem then (SYSERR, s)
      else if sstate (semtab s sem) = S_FREE then (SYSERR, s)
      else
        let s1 = upd_sem sem (\<lambda>e. e\<lparr>scount := s32 (scount e - 1)\<rparr>) s in
        if scount (semtab s1 sem) < 0 then
          let s2 = upd_proc (currpid s1) (\<lambda>e. e\<lparr>prstate := PR_WAIT, prsem := sem\<rparr>) s1;
              s3 = snd (enqueue (currpid s2) (squeue (semtab s2 sem)) s2)
          in (OK, resched s3)
        else (OK, s1))"

text \<open>The body of \<^verbatim>\<open>signal\<close> after its checks, which is also the loop body of \<^verbatim>\<open>signaln\<close>.\<close>

definition signal_one :: "int \<Rightarrow> kernel \<Rightarrow> kernel" where
  "signal_one sem s =
     (let s1 = upd_sem sem (\<lambda>e. e\<lparr>scount := s32 (scount e + 1)\<rparr>) s in
      if scount (semtab s sem) < 0 then
        let (pid, s2) = dequeue (squeue (semtab s1 sem)) s1 in snd (ready pid s2)
      else s1)"

definition signal :: "int \<Rightarrow> kernel \<Rightarrow> int \<times> kernel" where
  "signal sem s =
     (if isbadsem sem then (SYSERR, s)
      else if sstate (semtab s sem) = S_FREE then (SYSERR, s)
      else (OK, signal_one sem s))"

fun signal_loop :: "nat \<Rightarrow> int \<Rightarrow> kernel \<Rightarrow> kernel" where
  "signal_loop 0 sem s = s"
| "signal_loop (Suc n) sem s = signal_loop n sem (signal_one sem s)"

definition signaln :: "int \<Rightarrow> int \<Rightarrow> kernel \<Rightarrow> int \<times> kernel" where
  "signaln sem count s =
     (if isbadsem sem \<or> count < 0 then (SYSERR, s)
      else if sstate (semtab s sem) = S_FREE then (SYSERR, s)
      else
        let s1 = snd (resched_cntl DEFER_START s);
            s2 = signal_loop (nat count) sem s1
        in (OK, snd (resched_cntl DEFER_STOP s2)))"

text \<open>The search of \<^verbatim>\<open>newsem\<close>: at most \<open>n\<close> more entries, starting at \<^verbatim>\<open>nextsem\<close>.\<close>

fun newsem_loop :: "nat \<Rightarrow> kernel \<Rightarrow> int \<times> kernel" where
  "newsem_loop 0 s = (SYSERR, s)"
| "newsem_loop (Suc n) s =
     (let sem = nextsem s;
          s1 = s\<lparr>nextsem := (if nextsem s + 1 \<ge> NSEM then 0 else nextsem s + 1)\<rparr>
      in if sstate (semtab s1 sem) = S_FREE
         then (sem, upd_sem sem (\<lambda>e. e\<lparr>sstate := S_USED\<rparr>) s1)
         else newsem_loop n s1)"

definition newsem :: "kernel \<Rightarrow> int \<times> kernel" where
  "newsem s = newsem_loop (nat NSEM) s"

definition semcreate :: "int \<Rightarrow> kernel \<Rightarrow> int \<times> kernel" where
  "semcreate count s =
     (if count < 0 then (SYSERR, s)
      else case newsem s of (sem, s1) \<Rightarrow>
        if sem = SYSERR then (SYSERR, s1)
        else (sem, upd_sem sem (\<lambda>e. e\<lparr>scount := count\<rparr>) s1))"

text \<open>The loop of \<^verbatim>\<open>semdelete\<close>, whose test increments the count also when it fails.\<close>

definition semdelete_body :: "int \<Rightarrow> kernel \<Rightarrow> kernel" where
  "semdelete_body sem s =
     (let s1 = upd_sem sem (\<lambda>e. e\<lparr>scount := s32 (scount e + 1)\<rparr>) s;
          (pid, s2) = getfirst (squeue (semtab s1 sem)) s1
      in snd (ready pid s2))"

definition semdelete_loop :: "int \<Rightarrow> kernel \<Rightarrow> kernel option" where
  "semdelete_loop sem s =
     map_option (upd_sem sem (\<lambda>e. e\<lparr>scount := s32 (scount e + 1)\<rparr>))
       (while_option (\<lambda>s. scount (semtab s sem) < 0) (semdelete_body sem) s)"

definition semdelete :: "int \<Rightarrow> kernel \<Rightarrow> int \<times> kernel" where
  "semdelete sem s =
     (if isbadsem sem then (SYSERR, s)
      else if sstate (semtab s sem) = S_FREE then (SYSERR, s)
      else
        let s1 = upd_sem sem (\<lambda>e. e\<lparr>sstate := S_FREE\<rparr>) s;
            s2 = snd (resched_cntl DEFER_START s1)
        in case semdelete_loop sem s2 of
             None \<Rightarrow> (SYSERR, s2\<lparr>kstat := Hung\<rparr>)
           | Some s3 \<Rightarrow> (OK, snd (resched_cntl DEFER_STOP s3)))"

definition semreset_loop :: "int \<Rightarrow> kernel \<Rightarrow> kernel option" where
  "semreset_loop q s =
     map_option snd
       (while_option (\<lambda>(pid, s). pid \<noteq> EMPTY) (\<lambda>(pid, s). getfirst q (snd (ready pid s)))
         (getfirst q s))"

definition semreset :: "int \<Rightarrow> int \<Rightarrow> kernel \<Rightarrow> int \<times> kernel" where
  "semreset sem count s =
     (if count < 0 \<or> isbadsem sem \<or> sstate (semtab s sem) = S_FREE then (SYSERR, s)
      else
        let semqueue = squeue (semtab s sem);
            s1 = snd (resched_cntl DEFER_START s)
        in case semreset_loop semqueue s1 of
             None \<Rightarrow> (SYSERR, s1\<lparr>kstat := Hung\<rparr>)
           | Some s2 \<Rightarrow>
               (OK, snd (resched_cntl DEFER_STOP (upd_sem sem (\<lambda>e. e\<lparr>scount := count\<rparr>) s2))))"

definition semcount :: "int \<Rightarrow> kernel \<Rightarrow> int" where
  "semcount semid s =
     (if isbadsem semid \<or> sstate (semtab s semid) = S_FREE then SYSERR
      else scount (semtab s semid))"

section \<open>Changing one semaphore\<close>

lemma upd_sem_simps [simp]:
  "queuetab (upd_sem i f s) = queuetab s" "nextqid (upd_sem i f s) = nextqid s"
  "readylist (upd_sem i f s) = readylist s" "sleepq (upd_sem i f s) = sleepq s"
  "proctab (upd_sem i f s) = proctab s" "currpid (upd_sem i f s) = currpid s"
  "ndefers (upd_sem i f s) = ndefers s" "kstat (upd_sem i f s) = kstat s"
  "attempt (upd_sem i f s) = attempt s" "pframe (upd_sem i f s) = pframe s"
  "semtab (upd_sem i f s) = (semtab s)(i := f (semtab s i))"
  by (simp_all add: upd_sem_def)

lemma kcore_upd_sem:
  "squeue (f (semtab s i)) = squeue (semtab s i) \<Longrightarrow> kcore (upd_sem i f s) L X = kcore s L X"
  by (rule kcore_cong) (auto simp: same_q_def)

text \<open>All semaphores but \<open>i\<close> agree with their queues.\<close>

definition sems_ok_but :: "int \<Rightarrow> kernel \<Rightarrow> (int \<Rightarrow> int list) \<Rightarrow> bool" where
  "sems_ok_but i s L \<longleftrightarrow> (\<forall>j \<in> {0..<NSEM} - {i}. sem_ok s L j)"

lemma sems_ok_split: "i \<in> {0..<NSEM} \<Longrightarrow> sems_ok s L \<longleftrightarrow> sem_ok s L i \<and> sems_ok_but i s L"
  by (auto simp: sems_ok_def sems_ok_but_def)

lemma sems_ok_but_upd:
  assumes "kcore s L X" "i \<in> {0..<NSEM}" "sems_ok_but i s L" "q = squeue (semtab s i)"
    "\<And>j. j \<noteq> i \<Longrightarrow> semtab s' j = semtab s j"
  shows "sems_ok_but i s' (L(q := xs))"
proof -
  have "squeue (semtab s j) \<noteq> q" if "j \<in> {0..<NSEM} - {i}" for j
    using that assms(2,4) qids_okD(7) [OF kcoreD(2) [OF assms(1)]] by auto
  then show ?thesis using assms(3,5) by (simp add: sems_ok_but_def sem_ok_def sem_cnt_def)
qed

lemma waiting_length: "kcore s L X \<Longrightarrow> i \<in> {0..<NSEM} \<Longrightarrow> length (L (squeue (semtab s i))) \<le> 100"
  using qrep_length [OF qrel_rep] kcoreD(1,2) qids_okD(4) by blast

text \<open>A process on the queue of a semaphore is waiting for it and is not the current one.\<close>

lemma waiting_state:
  assumes "kcore s L {}" "i \<in> {0..<NSEM}" "p \<in> set (L (squeue (semtab s i)))"
  shows "p \<in> {0..<NPROC}" "prstate (proctab s p) = PR_WAIT" "prsem (proctab s p) = i"
    "\<not> isbadpid (proctab s) p"
proof -
  note C = kcoreD [OF assms(1)] and Q = qids_okD [OF kcoreD(2) [OF assms(1)]]
  show r: "p \<in> {0..<NPROC}" using qrel_range [OF C(1) Q(4) [OF assms(2)] assms(3)] by simp
  have h: "home s p = Some (squeue (semtab s i))"
    using placed_mem [OF C(3) r Q(4) [OF assms(2)]] assms(3) by simp
  show st: "prstate (proctab s p) = PR_WAIT"
    using h Q(5,6) [OF assms(2)] by (auto simp: home_def split: prstate.splits)
  have "prsem (proctab s p) \<in> {0..<NSEM}" using C(3) r st by (auto simp: placed_def)
  with h st Q(7) [OF _ assms(2)] show "prsem (proctab s p) = i" by (simp add: home_def)
  show "\<not> isbadpid (proctab s) p" using r st by (simp add: isbadpid_def)
qed

lemma no_waiters:
  assumes "kcore s L {}" "i \<in> {0..<NSEM}" "L (squeue (semtab s i)) = []" "p \<in> {0..<NPROC}"
  shows "\<not> (prstate (proctab s p) = PR_WAIT \<and> prsem (proctab s p) = i)"
  using placed_mem [OF kcoreD(3) [OF assms(1)] assms(4) qids_okD(4) [OF kcoreD(2) [OF assms(1)] assms(2)]] assms(3)
  by (auto simp: home_def)

section \<open>Releasing one process\<close>

lemma sem_cnt_queue:
  assumes "sem_cnt s L i" "scount (semtab s i) < 0"
  obtains p xs where "L (squeue (semtab s i)) = p # xs" "int (length xs) = - scount (semtab s i) - 1"
  using assms by (cases "L (squeue (semtab s i))") (auto simp: sem_cnt_def)

text \<open>Incrementing a negative count and taking the first process off the queue, by \<^verbatim>\<open>dequeue\<close> as in
  \<^verbatim>\<open>signal\<close> or by \<^verbatim>\<open>getfirst\<close> as in \<^verbatim>\<open>semdelete\<close>.\<close>

lemma sem_take:
  assumes k: "kcore s L {}" and i: "i \<in> {0..<NSEM}" and cnt: "sem_cnt s L i" "scount (semtab s i) < 0"
    and oth: "sems_ok_but i s L" and op: "op = dequeue \<or> op = getfirst"
  obtains p xs qt where "L (squeue (semtab s i)) = p # xs"
    "op (squeue (semtab s i)) (upd_sem i (\<lambda>e. e\<lparr>scount := s32 (scount e + 1)\<rparr>) s)
       = (p, (upd_sem i (\<lambda>e. e\<lparr>scount := s32 (scount e + 1)\<rparr>) s)\<lparr>queuetab := qt\<rparr>)"
    "kcore ((upd_sem i (\<lambda>e. e\<lparr>scount := s32 (scount e + 1)\<rparr>) s)\<lparr>queuetab := qt\<rparr>)
       (L(squeue (semtab s i) := xs)) {p}"
    "sem_cnt ((upd_sem i (\<lambda>e. e\<lparr>scount := s32 (scount e + 1)\<rparr>) s)\<lparr>queuetab := qt\<rparr>)
       (L(squeue (semtab s i) := xs)) i"
    "sems_ok_but i ((upd_sem i (\<lambda>e. e\<lparr>scount := s32 (scount e + 1)\<rparr>) s)\<lparr>queuetab := qt\<rparr>)
       (L(squeue (semtab s i) := xs))"
    "scount (semtab s i) + 1 = s32 (scount (semtab s i) + 1)"
proof -
  let ?q = "squeue (semtab s i)"
  let ?s = "upd_sem i (\<lambda>e. e\<lparr>scount := s32 (scount e + 1)\<rparr>) s"
  obtain p xs where L: "L ?q = p # xs" and len: "int (length xs) = - scount (semtab s i) - 1"
    using sem_cnt_queue [OF cnt] .
  have lb: "- 100 \<le> scount (semtab s i)" using waiting_length [OF k i] L len by simp
  then have s32: "s32 (scount (semtab s i) + 1) = scount (semtab s i) + 1" using cnt(2) by simp
  have k': "kcore ?s L {}" using k by (simp add: kcore_upd_sem)
  have q: "is_head ?s ?q" using qids_okD(4) [OF kcoreD(2) [OF k] i] by (simp add: is_head_def)
  obtain qt where o: "op ?q ?s = (p, ?s\<lparr>queuetab := qt\<rparr>)"
    and kk: "kcore (?s\<lparr>queuetab := qt\<rparr>) (L(?q := xs)) {p}"
    using op
  proof
    assume e: "op = dequeue"
    show thesis by (rule kcore_dequeue [OF k' q L]) (rule that, simp_all add: e)
  next
    assume e: "op = getfirst"
    show thesis by (rule kcore_getfirst [OF k' q L]) (rule that, simp_all add: e)
  qed
  have "sem_cnt (?s\<lparr>queuetab := qt\<rparr>) (L(?q := xs)) i"
    using len cnt(2) s32 by (simp add: sem_cnt_def)
  moreover have "sems_ok_but i (?s\<lparr>queuetab := qt\<rparr>) (L(?q := xs))"
    by (rule sems_ok_but_upd [OF k i oth refl]) simp
  ultimately show thesis using that [OF L o kk] s32 by simp
qed

lemma wait_not_curr:
  assumes "kcore s L {}" "i \<in> {0..<NSEM}" "L (squeue (semtab s i)) = p # xs"
    "prstate (proctab s (currpid s)) = PR_CURR"
  shows "p \<noteq> currpid s" "\<not> isbadpid (proctab s) p"
  using waiting_state [OF assms(1,2), of p] assms(3,4) by auto

section \<open>signal and wait\<close>

lemma signal_one_kinv:
  assumes k: "kinv s L" and i: "i \<in> {0..<NSEM}" and used: "sstate (semtab s i) = S_USED"
    and room: "scount (semtab s i) < 2147483647"
  obtains xs ys where
    "kinv (signal_one i s) (L(squeue (semtab s i) := xs, readylist s := ys))"
    "semtab (signal_one i s) = (semtab s)(i := (semtab s i)\<lparr>scount := scount (semtab s i) + 1\<rparr>)"
    "L (squeue (semtab s i)) = [] \<and> xs = [] \<or>
     (\<exists>p. L (squeue (semtab s i)) = p # xs \<and> on_cpu_or_ready (signal_one i s) p)"
proof -
  note K = kinvD [OF k]
  let ?q = "squeue (semtab s i)"
  let ?s = "upd_sem i (\<lambda>e. e\<lparr>scount := s32 (scount e + 1)\<rparr>) s"
  have cnt: "sem_cnt s L i" and oth: "sems_ok_but i s L"
    using K(2) i by (auto simp: sems_ok_split [OF i] sem_ok_def)
  show thesis
  proof (cases "scount (semtab s i) < 0")
    case True
    from sem_take [OF K(1) i cnt True oth disjI1 [OF refl]] obtain p xs qt where
      L: "L ?q = p # xs" and d: "dequeue ?q ?s = (p, ?s\<lparr>queuetab := qt\<rparr>)"
      and kk: "kcore (?s\<lparr>queuetab := qt\<rparr>) (L(?q := xs)) {p}"
      and c: "sem_cnt (?s\<lparr>queuetab := qt\<rparr>) (L(?q := xs)) i"
      and o: "sems_ok_but i (?s\<lparr>queuetab := qt\<rparr>) (L(?q := xs))"
      and s32: "scount (semtab s i) + 1 = s32 (scount (semtab s i) + 1)" .
    have sm: "sems_ok (?s\<lparr>queuetab := qt\<rparr>) (L(?q := xs))"
      using c o used by (simp add: sems_ok_split [OF i] sem_ok_def)
    have p: "\<not> isbadpid (proctab (?s\<lparr>queuetab := qt\<rparr>)) p"
      using wait_not_curr [OF K(1) i L K(4)] by simp
    have nd: "ndefers (?s\<lparr>queuetab := qt\<rparr>) = 0" using K(3) by simp
    have w: "wakeable (?s\<lparr>queuetab := qt\<rparr>) p"
      using waiting_state(2) [OF K(1) i, of p] L by (simp add: wakeable_def)
    from ready_kinv [OF kk p nd sm w] obtain ys where
      "kinv (snd (ready p (?s\<lparr>queuetab := qt\<rparr>))) (L(?q := xs, readylist s := ys))"
      "semtab (snd (ready p (?s\<lparr>queuetab := qt\<rparr>))) = semtab ?s" by auto
    moreover have "on_cpu_or_ready (snd (ready p (?s\<lparr>queuetab := qt\<rparr>))) p"
      using ready_eligible(1) [OF kk p nd w] wait_not_curr [OF K(1) i L K(4)] K(4) by simp
    ultimately show thesis
      using that [of xs ys] True d L s32 by (simp add: signal_one_def Let_def)
  next
    case False
    then have L: "L ?q = []" using cnt by (simp add: sem_cnt_def)
    have s32: "s32 (scount (semtab s i) + 1) = scount (semtab s i) + 1" using False room by simp
    have "kcore ?s L {}" using K(1) by (simp add: kcore_upd_sem)
    moreover have "sem_ok ?s L i"
      using False room L s32 by (simp add: sem_ok_def sem_cnt_def)
    moreover have "sems_ok_but i ?s L"
      using sems_ok_but_upd [OF K(1) i oth refl, of ?s "L ?q"] by simp
    ultimately have "kinv ?s (L(?q := [], readylist s := L (readylist s)))"
      using K L by (auto simp: kinv_def sems_ok_split [OF i] fun_upd_idem)
    with that [of "[]" "L (readylist s)"] False L s32 show thesis
      by (simp add: signal_one_def Let_def)
  qed
qed

lemma signal_kinv:
  assumes "kinv s L" "scount (semtab s i) < 2147483647"
  shows "\<exists>L'. kinv (snd (signal i s)) L'"
proof (cases "isbadsem i \<or> sstate (semtab s i) = S_FREE")
  case True
  with assms show ?thesis by (auto simp: signal_def)
next
  case False
  then have "i \<in> {0..<NSEM}" "sstate (semtab s i) = S_USED"
    by (auto simp: isbadsem_def intro: sstate.exhaust [of "sstate (semtab s i)"])
  from signal_one_kinv [OF assms(1) this assms(2)] False show ?thesis
    by (auto simp: signal_def)
qed

lemma good_semaphore:
  "\<not> (isbadsem i \<or> sstate (semtab s i) = S_FREE) \<longleftrightarrow> i \<in> {0..<NSEM} \<and> sstate (semtab s i) = S_USED"
  by (cases "sstate (semtab s i)") (auto simp: isbadsem_def)

text \<open>\<^verbatim>\<open>wait\<close> by a process other than the null process: with a positive count it passes, else it joins
  the end of the queue and the processor is given away.\<close>

lemma wait_s32:
  assumes k: "kinv s L" and i: "i \<in> {0..<NSEM}"
  shows "s32 (scount (semtab s i) - 1) = scount (semtab s i) - 1"
proof -
  have cnt: "sem_cnt s L i" using kinvD(2) [OF k] i by (auto simp: sems_ok_split [OF i] sem_ok_def)
  then have "- 100 \<le> scount (semtab s i)"
    using waiting_length [OF kinvD(1) [OF k] i] by (auto simp: sem_cnt_def)
  then show ?thesis using cnt by (simp add: sem_cnt_def)
qed

lemma wait_passes:
  assumes k: "kinv s L" and i: "i \<in> {0..<NSEM}" and used: "sstate (semtab s i) = S_USED"
    and pos: "0 < scount (semtab s i)"
  shows "wait i s = (OK, upd_sem i (\<lambda>e. e\<lparr>scount := scount e - 1\<rparr>) s)"
    "kinv (upd_sem i (\<lambda>e. e\<lparr>scount := scount e - 1\<rparr>) s) L"
proof -
  note K = kinvD [OF k]
  let ?s1 = "upd_sem i (\<lambda>e. e\<lparr>scount := scount e - 1\<rparr>) s"
  have cnt: "sem_cnt s L i" and oth: "sems_ok_but i s L"
    using K(2) i by (auto simp: sems_ok_split [OF i] sem_ok_def)
  show "wait i s = (OK, ?s1)"
    using pos wait_s32 [OF k i] i used by (simp add: wait_def isbadsem_def upd_sem_def)
  have "sem_ok ?s1 L i" using cnt used pos by (simp add: sem_ok_def sem_cnt_def)
  moreover have "sems_ok_but i ?s1 L"
    using sems_ok_but_upd [OF K(1) i oth refl, of ?s1 "L (squeue (semtab s i))"] by simp
  ultimately show "kinv ?s1 L" using K by (simp add: kinv_def sems_ok_split [OF i] kcore_upd_sem)
qed

lemma wait_blocks:
  assumes k: "kinv s L" and c: "currpid s \<noteq> NULLPROC" and i: "i \<in> {0..<NSEM}"
    and used: "sstate (semtab s i) = S_USED" and le: "scount (semtab s i) \<le> 0"
  obtains ys where "fst (wait i s) = OK"
    "kinv (snd (wait i s)) (L(squeue (semtab s i) := L (squeue (semtab s i)) @ [currpid s], readylist s := ys))"
    "semtab (snd (wait i s)) = (semtab s)(i := (semtab s i)\<lparr>scount := scount (semtab s i) - 1\<rparr>)"
proof -
  note K = kinvD [OF k] and C = kcoreD [OF kinvD(1) [OF k]]
  let ?q = "squeue (semtab s i)" and ?c = "currpid s"
  let ?s1 = "upd_sem i (\<lambda>e. e\<lparr>scount := scount e - 1\<rparr>) s"
  let ?s2 = "upd_proc ?c (\<lambda>e. e\<lparr>prstate := PR_WAIT, prsem := i\<rparr>) ?s1"
  have cnt: "sem_cnt s L i" and oth: "sems_ok_but i s L"
    using K(2) i by (auto simp: sems_ok_split [OF i] sem_ok_def)
  have un: "unqueued s L ?c" using placed_unqueued [OF C(3) K(5)] K(6) by simp
  have q: "is_head s ?q" using qids_okD(4) [OF C(2) i] .
  have rel2: "qrel ?s2 L" and un2: "unqueued ?s2 L ?c" and q2: "is_head ?s2 ?q"
    using C(1) un q by (simp_all add: qrel_def unqueued_def is_head_def upd_proc_def)
  have bad2: "\<not> isbadpid (proctab ?s2) ?c" using K(5) by (simp add: isbadpid_def upd_proc_def)
  obtain qt where e: "enqueue ?c ?q ?s2 = (?c, ?s2\<lparr>queuetab := qt\<rparr>)"
    and r3: "qrel (?s2\<lparr>queuetab := qt\<rparr>) (L(?q := L ?q @ [?c]))" and kq: "ky qt = ky (queuetab s)"
    using enqueue_ok [OF rel2 q2 un2 bad2] by (auto elim!: q_okE simp: upd_proc_def)
  let ?s3 = "?s2\<lparr>queuetab := qt\<rparr>" and ?L = "L(?q := L ?q @ [?c])"
  have op: "only_proc s ?s3 ?c" using i by (simp add: only_proc_def same_q_def upd_proc_def)
  have "placed s L {?c}" using C(3) K(6) placed_transit [of s ?c L "{}"] by simp
  then have pl: "placed ?s3 ?L {}"
    using placed_move_in [OF _ op _ q, of L "{?c}" "L ?q @ [?c]"] by (simp add: home_def upd_proc_def)
  have nr: "?q \<noteq> readylist s" using qids_okD(5) [OF C(2) i] .
  have "msg_ok ?s3 {}" using C(11) K(4) by (auto simp: msg_ok_def upd_proc_def)
  then have "kcore ?s3 ?L {}"
    using C r3 pl c K(5) kq nr same_q_qids [of s ?s3] op
    by (auto simp: kcore_def cur_ok_def prio_ok_def upd_proc_def only_proc_def)
  moreover have "sem_ok ?s3 ?L i" using le cnt used by (simp add: sem_ok_def sem_cnt_def upd_proc_def)
  moreover have "sems_ok_but i ?s3 ?L"
    by (rule sems_ok_but_upd [OF K(1) i oth refl]) (simp add: upd_proc_def)
  ultimately obtain ys where ys: "kinv (resched ?s3) (?L(readylist s := ys))" "switch_frame ?s3 (resched ?s3)"
    using resched_kinv [of ?s3 ?L] K(3) by (auto simp: sems_ok_split [OF i] upd_proc_def)
  have w: "wait i s = (OK, resched ?s3)"
    using le wait_s32 [OF k i] i used e by (simp add: wait_def isbadsem_def upd_sem_def upd_proc_def)
  show thesis
    by (rule that [of ys]) (use w ys switch_frameD(1) [OF ys(2)] in \<open>simp_all add: upd_proc_def\<close>)
qed

lemma wait_kinv:
  assumes k: "kinv s L" and c: "currpid s \<noteq> NULLPROC"
  shows "\<exists>L'. kinv (snd (wait i s)) L'"
proof (cases "isbadsem i \<or> sstate (semtab s i) = S_FREE")
  case True
  with k show ?thesis by (auto simp: wait_def)
next
  case False
  then have i: "i \<in> {0..<NSEM}" "sstate (semtab s i) = S_USED" using good_semaphore by blast+
  show ?thesis
  proof (cases "scount (semtab s i) \<le> 0")
    case True
    from wait_blocks [OF k c i True] show ?thesis by blast
  next
    case False
    then show ?thesis using wait_passes [OF k i] by auto
  qed
qed

section \<open>Operations under deferred rescheduling\<close>

text \<open>The state between \<^verbatim>\<open>resched_cntl(DEFER_START)\<close> and \<^verbatim>\<open>resched_cntl(DEFER_STOP)\<close>, where the
  current process keeps the processor.\<close>

definition kdefer :: "kernel \<Rightarrow> (int \<Rightarrow> int list) \<Rightarrow> bool" where
  "kdefer s L \<longleftrightarrow>
     kcore s L {} \<and> ndefers s = 1 \<and> prstate (proctab s (currpid s)) = PR_CURR"

lemma defer_start:
  assumes "kcore s L {}" "ndefers s = 0" "prstate (proctab s (currpid s)) = PR_CURR"
  shows "snd (resched_cntl DEFER_START s) = s\<lparr>ndefers := 1, attempt := False\<rparr>"
    "kdefer (snd (resched_cntl DEFER_START s)) L"
  using assms by (simp_all add: resched_cntl_def kdefer_def)

lemma defer_stop:
  assumes "kdefer s L" "sems_ok s L"
  obtains xs where "kinv (snd (resched_cntl DEFER_STOP s)) (L(readylist s := xs))"
    "semtab (snd (resched_cntl DEFER_STOP s)) = semtab s"
proof (cases "attempt s")
  case True
  have "kcore (s\<lparr>ndefers := 0\<rparr>) L {}" "sems_ok (s\<lparr>ndefers := 0\<rparr>) L"
    using assms by (simp_all add: kdefer_def sems_ok_def sem_ok_def sem_cnt_def)
  from resched_kinv [OF this(1) _ this(2)] obtain xs where
    "kinv (resched (s\<lparr>ndefers := 0\<rparr>)) (L(readylist s := xs))"
    and f: "switch_frame (s\<lparr>ndefers := 0\<rparr>) (resched (s\<lparr>ndefers := 0\<rparr>))" by auto
  with that True assms(1) switch_frameD(1) [OF f] show thesis
    by (simp add: resched_cntl_def kdefer_def)
next
  case False
  then have "kinv (snd (resched_cntl DEFER_STOP s)) (L(readylist s := L (readylist s)))"
    using assms by (simp add: resched_cntl_def kdefer_def kinv_def sems_ok_def sem_ok_def sem_cnt_def)
  then show thesis
    by (rule that) (use False assms(1) in \<open>simp add: resched_cntl_def kdefer_def\<close>)
qed

text \<open>Releasing a waiting process while rescheduling is deferred: the process moves to the ready
  list, the count goes up by one, and nothing else happens to the semaphores.\<close>

lemma release_deferred:
  assumes k: "kdefer s L" and i: "i \<in> {0..<NSEM}" and L: "L (squeue (semtab s i)) = p # xs"
    and s': "kcore (s1\<lparr>queuetab := qt\<rparr>) (L(squeue (semtab s i) := xs)) {p}"
    and fr: "proctab s1 = proctab s" "currpid s1 = currpid s" "ndefers s1 = ndefers s" "readylist s1 = readylist s"
  obtains ys where "kdefer (snd (ready p (s1\<lparr>queuetab := qt\<rparr>))) (L(squeue (semtab s i) := xs, readylist s := ys))"
    "semtab (snd (ready p (s1\<lparr>queuetab := qt\<rparr>))) = semtab s1"
    "readylist (snd (ready p (s1\<lparr>queuetab := qt\<rparr>))) = readylist s"
proof -
  have K: "kcore s L {}" "ndefers s = 1" "prstate (proctab s (currpid s)) = PR_CURR"
    using k by (auto simp: kdefer_def)
  have ne: "squeue (semtab s i) \<noteq> readylist s" using qids_okD(5) [OF kcoreD(2) [OF K(1)] i] .
  have p: "p \<noteq> currpid s" "\<not> isbadpid (proctab (s1\<lparr>queuetab := qt\<rparr>)) p"
    using wait_not_curr [OF K(1) i L K(3)] fr by simp_all
  have nd: "0 < ndefers (s1\<lparr>queuetab := qt\<rparr>)" using K(2) fr by simp
  have w: "wakeable (s1\<lparr>queuetab := qt\<rparr>) p"
    using waiting_state(2) [OF K(1) i, of p] L fr by (simp add: wakeable_def)
  from ready_deferred [OF s' p(2) nd w] obtain qt' where
    r: "ready p (s1\<lparr>queuetab := qt\<rparr>) = (OK, (set_state p PR_READY (s1\<lparr>queuetab := qt\<rparr>))\<lparr>queuetab := qt', attempt := True\<rparr>)"
    and kk: "kcore ((set_state p PR_READY (s1\<lparr>queuetab := qt\<rparr>))\<lparr>queuetab := qt', attempt := True\<rparr>)
       (L(squeue (semtab s i) := xs, readylist s :=
          ins_desc (ky qt) p (prprio (proctab s p)) (L (readylist s)))) {}"
    using fr ne by auto
  show thesis
    by (rule that [of "ins_desc (ky qt) p (prprio (proctab s p)) (L (readylist s))"])
      (use r kk K p fr in \<open>auto simp: kdefer_def\<close>)
qed

lemma kdeferD:
  assumes "kdefer s L"
  shows "kcore s L {}" "ndefers s = 1" "prstate (proctab s (currpid s)) = PR_CURR"
  using assms by (auto simp: kdefer_def)

lemma sem_cnt_ready:
  assumes "kcore s L X" "i \<in> {0..<NSEM}" "semtab s' = semtab s"
  shows "sem_cnt s' (L(readylist s := ys)) i = sem_cnt s L i"
  using assms qids_okD(5) [OF kcoreD(2) [OF assms(1)] assms(2)] by (simp add: sem_cnt_def)

lemma sems_ok_but_ready:
  assumes "kcore s L X" "semtab s' = semtab s"
  shows "sems_ok_but i s' (L(readylist s := ys)) = sems_ok_but i s L"
  using assms qids_okD(5) [OF kcoreD(2) [OF assms(1)]]
  by (auto simp: sems_ok_but_def sem_ok_def sem_cnt_def)

text \<open>One turn of a releasing loop, with \<open>op\<close> the way the process is taken off the queue.\<close>

lemma release_one:
  assumes k: "kdefer s L" and i: "i \<in> {0..<NSEM}" and cnt: "sem_cnt s L i" "scount (semtab s i) < 0"
    and oth: "sems_ok_but i s L" and op: "op = dequeue \<or> op = getfirst"
    and s': "s' = (case op (squeue (semtab s i)) (upd_sem i (\<lambda>e. e\<lparr>scount := s32 (scount e + 1)\<rparr>) s)
                    of (pid, t) \<Rightarrow> snd (ready pid t))"
  obtains L' where "kdefer s' L'" "sem_cnt s' L' i" "sems_ok_but i s' L'"
    "semtab s' = (semtab s)(i := (semtab s i)\<lparr>scount := scount (semtab s i) + 1\<rparr>)"
    "readylist s' = readylist s"
proof -
  let ?q = "squeue (semtab s i)"
  let ?s = "upd_sem i (\<lambda>e. e\<lparr>scount := s32 (scount e + 1)\<rparr>) s"
  note K = kdeferD [OF k]
  from sem_take [OF K(1) i cnt oth op] obtain p xs qt where
    L: "L ?q = p # xs" and d: "op ?q ?s = (p, ?s\<lparr>queuetab := qt\<rparr>)"
    and kk: "kcore (?s\<lparr>queuetab := qt\<rparr>) (L(?q := xs)) {p}"
    and c: "sem_cnt (?s\<lparr>queuetab := qt\<rparr>) (L(?q := xs)) i"
    and o: "sems_ok_but i (?s\<lparr>queuetab := qt\<rparr>) (L(?q := xs))"
    and s32: "scount (semtab s i) + 1 = s32 (scount (semtab s i) + 1)" .
  have s'_eq: "s' = snd (ready p (?s\<lparr>queuetab := qt\<rparr>))" by (simp add: s' d)
  obtain ys where kd: "kdefer s' (L(?q := xs, readylist s := ys))" and sm: "semtab s' = semtab ?s"
    and rl: "readylist s' = readylist s"
    using release_deferred [OF k i L kk] unfolding s'_eq by auto
  have "sem_cnt s' (L(?q := xs, readylist s := ys)) i"
    using sem_cnt_ready [OF kk i, of s' ys] c sm by simp
  moreover have "sems_ok_but i s' (L(?q := xs, readylist s := ys))"
    using sems_ok_but_ready [OF kk, of s' i ys] o sm by simp
  ultimately show thesis
    using that [OF kd] sm s32 rl by simp
qed

lemma signal_one_kdefer:
  assumes k: "kdefer s L" and sm: "sems_ok s L" and i: "i \<in> {0..<NSEM}"
    and used: "sstate (semtab s i) = S_USED" and room: "scount (semtab s i) < 2147483647"
  obtains L' where "kdefer (signal_one i s) L'" "sems_ok (signal_one i s) L'"
    "semtab (signal_one i s) = (semtab s)(i := (semtab s i)\<lparr>scount := scount (semtab s i) + 1\<rparr>)"
proof -
  let ?s = "upd_sem i (\<lambda>e. e\<lparr>scount := s32 (scount e + 1)\<rparr>) s"
  have cnt: "sem_cnt s L i" and oth: "sems_ok_but i s L"
    using sm by (auto simp: sems_ok_split [OF i] sem_ok_def)
  show thesis
  proof (cases "scount (semtab s i) < 0")
    case True
    then have "signal_one i s = (case dequeue (squeue (semtab s i)) ?s of (pid, t) \<Rightarrow> snd (ready pid t))"
      by (simp add: signal_one_def Let_def)
    from release_one [OF k i cnt True oth disjI1 [OF refl] this] used that show thesis
      by (auto simp: sems_ok_split [OF i] sem_ok_def)
  next
    case False
    then have s32: "s32 (scount (semtab s i) + 1) = scount (semtab s i) + 1" using room by simp
    have e: "signal_one i s = ?s" using False by (simp add: signal_one_def Let_def)
    have "sem_ok ?s L i" using False cnt room s32 by (simp add: sem_ok_def sem_cnt_def)
    moreover have "sems_ok_but i ?s L"
      using sems_ok_but_upd [OF kdeferD(1) [OF k] i oth refl, of ?s "L (squeue (semtab s i))"] by simp
    moreover have "kdefer ?s L" using k by (simp add: kdefer_def kcore_upd_sem)
    ultimately show thesis using that [of L] e s32 by (simp add: sems_ok_split [OF i])
  qed
qed

lemma signal_loop_kdefer:
  assumes "kdefer s L" "sems_ok s L" "i \<in> {0..<NSEM}" "sstate (semtab s i) = S_USED"
    "scount (semtab s i) + int n \<le> 2147483647"
  shows "\<exists>L'. kdefer (signal_loop n i s) L' \<and> sems_ok (signal_loop n i s) L' \<and>
    semtab (signal_loop n i s) i = (semtab s i)\<lparr>scount := scount (semtab s i) + int n\<rparr>"
  using assms
proof (induction n arbitrary: s L)
  case 0
  then show ?case by auto
next
  case (Suc n)
  from signal_one_kdefer [OF Suc.prems(1,2,3,4)] Suc.prems(5) obtain L1 where
    1: "kdefer (signal_one i s) L1" "sems_ok (signal_one i s) L1"
    and sm: "semtab (signal_one i s) = (semtab s)(i := (semtab s i)\<lparr>scount := scount (semtab s i) + 1\<rparr>)"
    by auto
  from Suc.IH [OF 1 Suc.prems(3)] Suc.prems(4,5) sm show ?case by (simp add: ac_simps)
qed

lemma signaln_result:
  assumes k: "kinv s L" and i: "i \<in> {0..<NSEM}" and used: "sstate (semtab s i) = S_USED"
    and n: "0 \<le> n" and room: "scount (semtab s i) + n \<le> 2147483647"
  obtains L' where "fst (signaln i n s) = OK" "kinv (snd (signaln i n s)) L'"
    "scount (semtab (snd (signaln i n s)) i) = scount (semtab s i) + n"
proof -
  note K = kinvD [OF k] and D = defer_start [OF kinvD(1) [OF k] kinvD(3) [OF k] kinvD(4) [OF k]]
  let ?s = "snd (resched_cntl DEFER_START s)"
  have "sems_ok ?s L" using K(2) unfolding D(1) by (simp add: sems_ok_def sem_ok_def sem_cnt_def)
  from signal_loop_kdefer [OF D(2) this i, of "nat n"] used room n obtain L' where
    l: "kdefer (signal_loop (nat n) i ?s) L'" "sems_ok (signal_loop (nat n) i ?s) L'"
    "semtab (signal_loop (nat n) i ?s) i = (semtab s i)\<lparr>scount := scount (semtab s i) + n\<rparr>"
    by (auto simp: D(1))
  have e: "signaln i n s = (OK, snd (resched_cntl DEFER_STOP (signal_loop (nat n) i ?s)))"
    using i used n by (simp add: signaln_def isbadsem_def Let_def)
  show thesis
  proof (rule defer_stop [OF l(1,2)])
    fix xs
    assume "kinv (snd (resched_cntl DEFER_STOP (signal_loop (nat n) i ?s)))
        (L'(readylist (signal_loop (nat n) i ?s) := xs))"
      "semtab (snd (resched_cntl DEFER_STOP (signal_loop (nat n) i ?s))) = semtab (signal_loop (nat n) i ?s)"
    then show thesis by (intro that) (simp_all add: e l(3))
  qed
qed

lemma signaln_kinv:
  assumes k: "kinv s L" and room: "scount (semtab s i) + n \<le> 2147483647"
  shows "\<exists>L'. kinv (snd (signaln i n s)) L'"
proof (cases "isbadsem i \<or> n < 0 \<or> sstate (semtab s i) = S_FREE")
  case True
  with k show ?thesis by (auto simp: signaln_def)
next
  case False
  then have "i \<in> {0..<NSEM}" "sstate (semtab s i) = S_USED" "0 \<le> n"
    using good_semaphore [of i s] by (blast, blast, simp)
  from signaln_result [OF k this room] show ?thesis by blast
qed

section \<open>Deleting and resetting\<close>

lemma semdelete_while:
  assumes "kdefer s L" "i \<in> {0..<NSEM}" "sem_cnt s L i" "sems_ok_but i s L"
  shows "\<exists>s' L'. while_option (\<lambda>s. scount (semtab s i) < 0) (semdelete_body i) s = Some s' \<and>
    kdefer s' L' \<and> sem_cnt s' L' i \<and> sems_ok_but i s' L' \<and>
    semtab s' i = (semtab s i)\<lparr>scount := max 0 (scount (semtab s i))\<rparr>"
  using assms
proof (induction "nat (- scount (semtab s i))" arbitrary: s L)
  case 0
  then show ?case by (intro exI [of _ s] exI [of _ L]) (simp add: max_def)
next
  case (Suc n)
  then have neg: "scount (semtab s i) < 0" by simp
  have "semdelete_body i s = (case getfirst (squeue (semtab s i))
      (upd_sem i (\<lambda>e. e\<lparr>scount := s32 (scount e + 1)\<rparr>) s) of (pid, t) \<Rightarrow> snd (ready pid t))"
    by (simp add: semdelete_body_def Let_def)
  from release_one [OF Suc.prems(1,2,3) neg Suc.prems(4) disjI2 [OF refl] this] obtain L1 where
    1: "kdefer (semdelete_body i s) L1" "sem_cnt (semdelete_body i s) L1 i"
      "sems_ok_but i (semdelete_body i s) L1"
    and sm: "semtab (semdelete_body i s) = (semtab s)(i := (semtab s i)\<lparr>scount := scount (semtab s i) + 1\<rparr>)" .
  have "n = nat (- scount (semtab (semdelete_body i s) i))" using Suc.hyps(2) sm by simp
  from Suc.hyps(1) [OF this 1(1) Suc.prems(2) 1(2,3)] neg sm show ?case
    by (auto simp: while_option_step)
qed

lemma semdelete_result:
  assumes k: "kinv s L" and i: "i \<in> {0..<NSEM}" and used: "sstate (semtab s i) = S_USED"
    and room: "scount (semtab s i) < 2147483647"
  obtains L' where "fst (semdelete i s) = OK" "kinv (snd (semdelete i s)) L'"
    "sstate (semtab (snd (semdelete i s)) i) = S_FREE" "L' (squeue (semtab s i)) = []"
    "squeue (semtab (snd (semdelete i s)) i) = squeue (semtab s i)"
proof -
  note K = kinvD [OF k]
  let ?f = "upd_sem i (\<lambda>e. e\<lparr>scount := s32 (scount e + 1)\<rparr>)"
  let ?s1 = "upd_sem i (\<lambda>e. e\<lparr>sstate := S_FREE\<rparr>) s"
  let ?s2 = "snd (resched_cntl DEFER_START ?s1)"
  have k1: "kcore ?s1 L {}" using K(1) by (simp add: kcore_upd_sem)
  have D: "?s2 = ?s1\<lparr>ndefers := 1, attempt := False\<rparr>" "kdefer ?s2 L"
    using defer_start [OF k1] K(3,4) by simp_all
  have cnt: "sem_cnt ?s2 L i" and oth: "sems_ok_but i ?s2 L"
    using K(2) unfolding D(1) by (auto simp: sems_ok_split [OF i] sem_ok_def sem_cnt_def sems_ok_but_def)
  from semdelete_while [OF D(2) i cnt oth] obtain s' L' where
    w: "while_option (\<lambda>s. scount (semtab s i) < 0) (semdelete_body i) ?s2 = Some s'"
    and k': "kdefer s' L'" and c': "sem_cnt s' L' i" and o': "sems_ok_but i s' L'"
    and sm: "semtab s' i = (semtab ?s2 i)\<lparr>scount := max 0 (scount (semtab ?s2 i))\<rparr>" by blast
  have smi: "semtab s' i = (semtab s i)\<lparr>sstate := S_FREE, scount := max 0 (scount (semtab s i))\<rparr>"
    using sm by (simp add: D(1))
  have "s32 (max 0 (scount (semtab s i)) + 1) = max 0 (scount (semtab s i)) + 1" using room by simp
  then have smf: "semtab (?f s') i = (semtab s i)\<lparr>sstate := S_FREE, scount := max 0 (scount (semtab s i)) + 1\<rparr>"
    by (simp add: smi)
  have nil: "L' (squeue (semtab s i)) = []" using c' smi by (simp add: sem_cnt_def)
  then have "sem_ok (?f s') L' i" using smf room by (simp add: sem_ok_def sem_cnt_def del: upd_sem_simps)
  moreover have "sems_ok_but i (?f s') L'"
    using sems_ok_but_upd [OF kdeferD(1) [OF k'] i o' refl, of "?f s'" "L' (squeue (semtab s' i))"] by simp
  moreover have "kdefer (?f s') L'" using k' by (simp add: kdefer_def kcore_upd_sem)
  ultimately obtain xs where
    fin: "kinv (snd (resched_cntl DEFER_STOP (?f s'))) (L'(readylist (?f s') := xs))"
    and fsm: "semtab (snd (resched_cntl DEFER_STOP (?f s'))) = semtab (?f s')"
    using defer_stop [of "?f s'" L'] by (auto simp: sems_ok_split [OF i])
  have ne: "squeue (semtab s i) \<noteq> readylist s'"
    using qids_okD(5) [OF kcoreD(2) [OF kdeferD(1) [OF k']] i] smi by simp
  have e: "semdelete i s = (OK, snd (resched_cntl DEFER_STOP (?f s')))"
    using w i used by (simp add: semdelete_def semdelete_loop_def isbadsem_def Let_def)
  show thesis
    by (rule that [of "L'(readylist (?f s') := xs)"])
      (use e fin fsm smf nil ne in \<open>simp_all del: upd_sem_simps(10)\<close>)
qed

lemma semreset_while:
  assumes "kdefer s L" "i \<in> {0..<NSEM}" "sems_ok_but i s L" "q = squeue (semtab s i)"
  shows "\<exists>s' L'. semreset_loop q s = Some s' \<and> kdefer s' L' \<and> L' q = [] \<and> sems_ok_but i s' L' \<and>
    semtab s' = semtab s"
  using assms
proof (induction "length (L q)" arbitrary: s L)
  case 0
  then have "getfirst q s = (EMPTY, s)"
    using getfirst_empty [OF kcoreD(1) [OF kdeferD(1)]] qids_okD(4) [OF kcoreD(2) [OF kdeferD(1)]] by auto
  with 0 show ?case by (intro exI [of _ s] exI [of _ L]) (simp add: semreset_loop_def)
next
  case (Suc n)
  note K = kdeferD [OF Suc.prems(1)]
  obtain p xs where L: "L q = p # xs" using Suc.hyps(2) by (cases "L q") auto
  have q: "is_head s q" using qids_okD(4) [OF kcoreD(2) [OF K(1)] Suc.prems(2)] Suc.prems(4) by simp
  obtain qt where g: "getfirst q s = (p, s\<lparr>queuetab := qt\<rparr>)"
    and kk: "kcore (s\<lparr>queuetab := qt\<rparr>) (L(q := xs)) {p}"
    using kcore_getfirst [OF K(1) q L] by auto
  have p: "0 \<le> p" using qrel_range [OF kcoreD(1) [OF K(1)] q, of p] L by simp
  let ?s = "snd (ready p (s\<lparr>queuetab := qt\<rparr>))"
  from release_deferred [OF Suc.prems(1,2) L [unfolded Suc.prems(4)] kk [unfolded Suc.prems(4)]]
    Suc.prems(4) obtain ys where
    k': "kdefer ?s (L(q := xs, readylist s := ys))" and sm: "semtab ?s = semtab s" by auto
  have "q \<noteq> readylist s" using qids_okD(5) [OF kcoreD(2) [OF K(1)] Suc.prems(2)] Suc.prems(4) by simp
  then have len: "n = length ((L(q := xs, readylist s := ys)) q)" using L Suc.hyps(2) by simp
  have "sems_ok_but i (s\<lparr>queuetab := qt\<rparr>) (L(q := xs))"
    by (rule sems_ok_but_upd [OF K(1) Suc.prems(2,3,4)]) simp
  then have oth: "sems_ok_but i ?s (L(q := xs, readylist s := ys))"
    using sems_ok_but_ready [OF kk, of ?s i ys] sm by simp
  have "semreset_loop q s = semreset_loop q ?s"
    using g p by (simp add: semreset_loop_def while_option_step)
  with Suc.hyps(1) [OF len k' Suc.prems(2) oth] Suc.prems(4) sm show ?case by simp
qed

lemma semreset_result:
  assumes k: "kinv s L" and i: "i \<in> {0..<NSEM}" and used: "sstate (semtab s i) = S_USED"
    and n: "0 \<le> n" "n \<le> 2147483647"
  obtains L' where "fst (semreset i n s) = OK" "kinv (snd (semreset i n s)) L'"
    "scount (semtab (snd (semreset i n s)) i) = n" "L' (squeue (semtab s i)) = []"
    "semtab (snd (semreset i n s)) i = (semtab s i)\<lparr>scount := n\<rparr>"
proof -
  note K = kinvD [OF k]
  let ?q = "squeue (semtab s i)" and ?f = "upd_sem i (\<lambda>e. e\<lparr>scount := n\<rparr>)"
  let ?s1 = "snd (resched_cntl DEFER_START s)"
  have D: "?s1 = s\<lparr>ndefers := 1, attempt := False\<rparr>" "kdefer ?s1 L"
    using defer_start [OF K(1,3,4)] by simp_all
  have oth: "sems_ok_but i ?s1 L"
    using K(2) unfolding D(1) by (auto simp: sems_ok_split [OF i] sem_ok_def sem_cnt_def sems_ok_but_def)
  from semreset_while [OF D(2) i oth] obtain s' L' where
    w: "semreset_loop ?q ?s1 = Some s'" and k': "kdefer s' L'" and nil: "L' ?q = []"
    and o': "sems_ok_but i s' L'" and sm: "semtab s' = semtab s" by (auto simp: D(1))
  have "sem_ok (?f s') L' i" using nil n sm used by (simp add: sem_ok_def sem_cnt_def)
  moreover have "sems_ok_but i (?f s') L'"
    using sems_ok_but_upd [OF kdeferD(1) [OF k'] i o' refl, of "?f s'" "L' (squeue (semtab s' i))"] by simp
  moreover have "kdefer (?f s') L'" using k' by (simp add: kdefer_def kcore_upd_sem)
  ultimately obtain xs where
    fin: "kinv (snd (resched_cntl DEFER_STOP (?f s'))) (L'(readylist (?f s') := xs))"
    and fsm: "semtab (snd (resched_cntl DEFER_STOP (?f s'))) = semtab (?f s')"
    using defer_stop [of "?f s'" L'] by (auto simp: sems_ok_split [OF i])
  have ne: "?q \<noteq> readylist s'"
    using qids_okD(5) [OF kcoreD(2) [OF kdeferD(1) [OF k']] i] sm by simp
  have e: "semreset i n s = (OK, snd (resched_cntl DEFER_STOP (?f s')))"
    using w i used n by (simp add: semreset_def isbadsem_def Let_def)
  show thesis
    by (rule that [of "L'(readylist (?f s') := xs)"]) (use e fin fsm nil ne sm in simp_all)
qed

lemma semdelete_kinv:
  assumes "kinv s L" "scount (semtab s i) < 2147483647"
  shows "\<exists>L'. kinv (snd (semdelete i s)) L'"
proof (cases "isbadsem i \<or> sstate (semtab s i) = S_FREE")
  case True
  with assms show ?thesis by (auto simp: semdelete_def)
next
  case False
  then have "i \<in> {0..<NSEM}" "sstate (semtab s i) = S_USED"
    by (auto simp: isbadsem_def intro: sstate.exhaust [of "sstate (semtab s i)"])
  from semdelete_result [OF assms(1) this assms(2)] show ?thesis by blast
qed

lemma semreset_kinv:
  assumes "kinv s L" "n \<le> 2147483647"
  shows "\<exists>L'. kinv (snd (semreset i n s)) L'"
proof (cases "n < 0 \<or> isbadsem i \<or> sstate (semtab s i) = S_FREE")
  case True
  with assms show ?thesis by (auto simp: semreset_def)
next
  case False
  then have "i \<in> {0..<NSEM}" "sstate (semtab s i) = S_USED" "0 \<le> n"
    by (auto simp: isbadsem_def intro: sstate.exhaust [of "sstate (semtab s i)"])
  from semreset_result [OF assms(1) this assms(2)] show ?thesis by blast
qed

section \<open>Creating\<close>

lemma newsem_loop_result:
  assumes "nextsem s \<in> {0..<NSEM}"
  shows "case newsem_loop n s of (sem, s') \<Rightarrow>
     nextsem s' \<in> {0..<NSEM} \<and>
     (if sem = SYSERR then s' = s\<lparr>nextsem := nextsem s'\<rparr> \<and>
        (\<forall>j. 0 \<le> j \<and> j < int n \<longrightarrow> sstate (semtab s ((nextsem s + j) mod NSEM)) = S_USED)
      else sem \<in> {0..<NSEM} \<and> sstate (semtab s sem) = S_FREE \<and>
        s' = upd_sem sem (\<lambda>e. e\<lparr>sstate := S_USED\<rparr>) (s\<lparr>nextsem := nextsem s'\<rparr>))"
  using assms
proof (induction n arbitrary: s)
  case 0
  then show ?case by auto
next
  case (Suc n)
  let ?s = "s\<lparr>nextsem := (if nextsem s + 1 \<ge> NSEM then 0 else nextsem s + 1)\<rparr>"
  have nx: "nextsem ?s \<in> {0..<NSEM}" "nextsem ?s = (nextsem s + 1) mod NSEM"
    using Suc.prems by (auto simp: mod_pos_pos_trivial) presburger
  show ?case
  proof (cases "sstate (semtab s (nextsem s)) = S_FREE")
    case True
    then show ?thesis using Suc.prems nx by (simp add: Let_def upd_sem_def)
  next
    case False
    obtain sem s' where r: "newsem_loop n ?s = (sem, s')" by (cases "newsem_loop n ?s")
    have u: "sstate (semtab s (nextsem s)) = S_USED" using False by (cases "sstate (semtab s (nextsem s))") auto
    have shift: "(nextsem s + j) mod NSEM = (nextsem ?s + (j - 1)) mod NSEM" for j
      unfolding nx(2) by (simp add: mod_add_left_eq)
    have "sstate (semtab s ((nextsem s + j) mod NSEM)) = S_USED"
      if all: "\<forall>j. 0 \<le> j \<and> j < int n \<longrightarrow> sstate (semtab s ((nextsem ?s + j) mod NSEM)) = S_USED"
        and j: "0 \<le> j" "j < int (Suc n)" for j
    proof (cases "j = 0")
      case True
      then show ?thesis using u Suc.prems by simp
    next
      case False
      then have "0 \<le> j - 1 \<and> j - 1 < int n" using j by simp
      from all [rule_format, OF this] show ?thesis by (simp only: shift)
    qed
    with Suc.IH [OF nx(1)] r False nx(1) show ?thesis by (auto simp: Let_def upd_sem_def)
  qed
qed

lemma newsem_result:
  assumes "nextsem s \<in> {0..<NSEM}" "newsem s = (sem, s')"
  shows "nextsem s' \<in> {0..<NSEM}"
    "sem = SYSERR \<Longrightarrow> s' = s\<lparr>nextsem := nextsem s'\<rparr>"
    "sem = SYSERR \<Longrightarrow> j \<in> {0..<NSEM} \<Longrightarrow> sstate (semtab s j) = S_USED"
    "sem \<noteq> SYSERR \<Longrightarrow> sem \<in> {0..<NSEM} \<and> sstate (semtab s sem) = S_FREE \<and>
       s' = upd_sem sem (\<lambda>e. e\<lparr>sstate := S_USED\<rparr>) (s\<lparr>nextsem := nextsem s'\<rparr>)"
proof -
  note R = newsem_loop_result [OF assms(1), of "nat NSEM", folded newsem_def, unfolded assms(2) prod.case]
  then show "nextsem s' \<in> {0..<NSEM}" "sem = SYSERR \<Longrightarrow> s' = s\<lparr>nextsem := nextsem s'\<rparr>"
    "sem \<noteq> SYSERR \<Longrightarrow> sem \<in> {0..<NSEM} \<and> sstate (semtab s sem) = S_FREE \<and>
       s' = upd_sem sem (\<lambda>e. e\<lparr>sstate := S_USED\<rparr>) (s\<lparr>nextsem := nextsem s'\<rparr>)"
    by (auto split: if_splits)
  assume sem: "sem = SYSERR" and j: "j \<in> {0..<NSEM}"
  have "(nextsem s + (j - nextsem s) mod NSEM) mod NSEM = j"
    using j by (simp add: mod_add_right_eq)
  moreover have "0 \<le> (j - nextsem s) mod NSEM \<and> (j - nextsem s) mod NSEM < NSEM" by simp
  ultimately show "sstate (semtab s j) = S_USED" using R sem by (metis int_nat_eq zero_le_numeral)
qed

lemma semcreate_result:
  assumes "nextsem s \<in> {0..<NSEM}" "semcreate n s = (sem, s')"
  shows "nextsem s' \<in> {0..<NSEM}" "sem = SYSERR \<Longrightarrow> s' = s\<lparr>nextsem := nextsem s'\<rparr>"
    "sem = SYSERR \<longleftrightarrow> n < 0 \<or> (\<forall>j \<in> {0..<NSEM}. sstate (semtab s j) = S_USED)"
    "sem \<noteq> SYSERR \<Longrightarrow> sem \<in> {0..<NSEM} \<and> sstate (semtab s sem) = S_FREE \<and>
       s' = upd_sem sem (\<lambda>e. e\<lparr>sstate := S_USED, scount := n\<rparr>) (s\<lparr>nextsem := nextsem s'\<rparr>)"
proof -
  obtain i t where e: "newsem s = (i, t)" by force
  note r = newsem_result [OF assms(1) e]
  have u: "i = SYSERR \<longleftrightarrow> (\<forall>j \<in> {0..<NSEM}. sstate (semtab s j) = S_USED)"
    using r(3) r(4) by (metis sstate.distinct(1))
  show "nextsem s' \<in> {0..<NSEM}" "sem = SYSERR \<longleftrightarrow> n < 0 \<or> (\<forall>j \<in> {0..<NSEM}. sstate (semtab s j) = S_USED)"
    using assms e u r(1) by (auto simp: semcreate_def upd_sem_def split: if_splits)
  show "s' = s\<lparr>nextsem := nextsem s'\<rparr>" if "sem = SYSERR"
    using assms(2) e r(2) that by (auto simp: semcreate_def split: if_splits)
  assume "sem \<noteq> SYSERR"
  then have c: "i = sem" "s' = upd_sem sem (\<lambda>e. e\<lparr>scount := n\<rparr>) t"
    using assms(2) e by (auto simp: semcreate_def split: if_splits)
  with r(4) \<open>sem \<noteq> SYSERR\<close> have t: "sem \<in> {0..<NSEM} \<and> sstate (semtab s sem) = S_FREE"
    "t = upd_sem sem (\<lambda>e. e\<lparr>sstate := S_USED\<rparr>) (s\<lparr>nextsem := nextsem t\<rparr>)" by auto
  have "upd_sem sem (\<lambda>e. e\<lparr>scount := n\<rparr>) t = upd_sem sem (\<lambda>e. e\<lparr>sstate := S_USED, scount := n\<rparr>) (s\<lparr>nextsem := nextsem t\<rparr>)"
    by (subst t(2)) (simp add: upd_sem_def)
  then show "sem \<in> {0..<NSEM} \<and> sstate (semtab s sem) = S_FREE \<and>
       s' = upd_sem sem (\<lambda>e. e\<lparr>sstate := S_USED, scount := n\<rparr>) (s\<lparr>nextsem := nextsem s'\<rparr>)"
    using t(1) c(2) by (simp add: upd_sem_def)
qed

lemma semcreate_shape:
  assumes "nextsem s \<in> {0..<NSEM}" "semcreate n s = (j, s')"
  obtains k st where "s' = s\<lparr>nextsem := k, semtab := st\<rparr>" "k \<in> {0..<NSEM}"
    "j \<noteq> SYSERR \<Longrightarrow> j \<in> {0..<NSEM} \<and> sstate (semtab s j) = S_FREE \<and> st = (semtab s)(j := (semtab s j)\<lparr>sstate := S_USED, scount := n\<rparr>)"
proof (cases "j = SYSERR")
  case True
  note R = semcreate_result [OF assms]
  have "s\<lparr>nextsem := nextsem s'\<rparr> = s\<lparr>nextsem := nextsem s', semtab := semtab s\<rparr>" by simp
  with R(2) [OF True] have "s' = s\<lparr>nextsem := nextsem s', semtab := semtab s\<rparr>" by metis
  then show thesis using R(1) True that by blast
next
  case False
  note R = semcreate_result [OF assms]
  let ?st = "(semtab s)(j := (semtab s j)\<lparr>sstate := S_USED, scount := n\<rparr>)"
  have "s' = s\<lparr>nextsem := nextsem s', semtab := ?st\<rparr>" using R(4) [OF False] by (simp add: upd_sem_def)
  then show thesis using R(1) R(4) [OF False] that [of ?st "nextsem s'"] by blast
qed

lemma semcreate_kinv:
  assumes k: "kinv s L" and n: "count \<le> 2147483647" and nx: "nextsem s \<in> {0..<NSEM}"
  shows "kinv (snd (semcreate count s)) L \<and> nextsem (snd (semcreate count s)) \<in> {0..<NSEM}"
proof -
  obtain sem s' where r: "semcreate count s = (sem, s')" by force
  note R = semcreate_result [OF nx r]
  have "kinv s' L"
  proof (cases "sem = SYSERR")
    case True
    then show ?thesis using R(2) k by (metis kinv_irrelevant(9))
  next
    case False
    then have sem: "sem \<in> {0..<NSEM}" "sstate (semtab s sem) = S_FREE" "0 \<le> count" and
      e: "s' = upd_sem sem (\<lambda>e. e\<lparr>sstate := S_USED, scount := count\<rparr>) (s\<lparr>nextsem := nextsem s'\<rparr>)"
      using R(3,4) by auto
    note K = kinvD [OF k]
    let ?s = "upd_sem sem (\<lambda>e. e\<lparr>sstate := S_USED, scount := count\<rparr>) (s\<lparr>nextsem := nextsem s'\<rparr>)"
    have nil: "L (squeue (semtab s sem)) = []" and oth: "sems_ok_but sem s L"
      using K(2) sem by (auto simp: sems_ok_split [OF sem(1)] sem_ok_def sem_cnt_def)
    have "sem_ok ?s L sem" using nil n sem(3) by (simp add: sem_ok_def sem_cnt_def)
    moreover have "sems_ok_but sem ?s L"
      using sems_ok_but_upd [OF K(1) sem(1) oth refl, of ?s "L (squeue (semtab s sem))"] by simp
    moreover have "kcore ?s L {}" using K(1) by (simp add: kcore_upd_sem)
    ultimately have "kinv ?s L"
      using K(3,4) unfolding kinv_def sems_ok_split [OF sem(1)] by simp
    with e show ?thesis by simp
  qed
  with R(1) r show ?thesis by simp
qed

end
