(* ===== verification/Clock.thy ===== *)
theory Clock
  imports Semaphore
begin

text \<open>
  Sleeping and the clock: \<^verbatim>\<open>sleep.c\<close>, \<^verbatim>\<open>unsleep.c\<close>, \<^verbatim>\<open>wakeup.c\<close> and \<^verbatim>\<open>clkhandler.c\<close>. The sleep
  queue is a delta list: the key of an entry is its delay after the entry before it. \<open>wake\<close>
  gives the time that is left for each sleeper; inserting, removing and ticking are shown to do to
  these times what they should, without arithmetic overflow.
\<close>

section \<open>Operations\<close>

definition unsleep :: "int \<Rightarrow> kernel \<Rightarrow> int \<times> kernel" where
  "unsleep pid s =
     (if isbadpid (proctab s) pid then (SYSERR, s)
      else if prstate (proctab s pid) \<noteq> PR_SLEEP \<and> prstate (proctab s pid) \<noteq> PR_RECTIM
      then (SYSERR, s)
      else
        let pidnext = qnext (queuetab s pid);
            s1 = (if pidnext < NPROC
                  then s\<lparr>queuetab := set_qkey (queuetab s) pidnext
                         (s32 (qkey (queuetab s pidnext) + qkey (queuetab s pid)))\<rparr>
                  else s)
        in (OK, snd (getitem pid s1)))"

definition sleepms :: "int \<Rightarrow> kernel \<Rightarrow> int \<times> kernel" where
  "sleepms delay s =
     (if delay < 0 then (SYSERR, s)
      else if delay = 0 then (OK, snd (yield s))
      else
        let (r, s1) = insertd (currpid s) (sleepq s) delay s in
        if r = SYSERR then (SYSERR, s1)
        else (OK, resched (set_state (currpid s1) PR_SLEEP s1)))"

abbreviation (input) MAXSECONDS :: int where "MAXSECONDS \<equiv> 2147483"

definition sleep :: "int \<Rightarrow> kernel \<Rightarrow> int \<times> kernel" where
  "sleep delay s =
     (if delay < 0 \<or> delay > MAXSECONDS then (SYSERR, s)
      else (OK, snd (sleepms (s32 (1000 * delay)) s)))"

definition wakeup_loop :: "kernel \<Rightarrow> kernel option" where
  "wakeup_loop s =
     while_option
       (\<lambda>s. nonempty (queuetab s) (sleepq s) \<and> firstkey (queuetab s) (sleepq s) \<le> 0)
       (\<lambda>s. let (pid, s1) = dequeue (sleepq s) s in snd (ready pid s1)) s"

definition wakeup :: "kernel \<Rightarrow> kernel" where
  "wakeup s =
     (let s1 = snd (resched_cntl DEFER_START s) in
      case wakeup_loop s1 of
        None \<Rightarrow> s1\<lparr>kstat := Hung\<rparr>
      | Some s2 \<Rightarrow> snd (resched_cntl DEFER_STOP s2))"

text \<open>The handler; \<open>ovf\<close> is the overflow flag it reads in the status register of the timer.\<close>

definition clk_count :: "kernel \<Rightarrow> kernel" where
  "clk_count s =
     (let s1 = s\<lparr>count1000 := u32 (count1000 s + 1)\<rparr> in
      if count1000 s1 \<ge> 1000 then s1\<lparr>clktime := u32 (clktime s1 + 1), count1000 := 0\<rparr> else s1)"

definition clk_sleepers :: "kernel \<Rightarrow> kernel" where
  "clk_sleepers s =
     (if \<not> isempty (queuetab s) (sleepq s) then
        (let f = firstid (queuetab s) (sleepq s);
             s1 = s\<lparr>queuetab := set_qkey (queuetab s) f (s32 (qkey (queuetab s f) - 1))\<rparr>
         in if qkey (queuetab s1 f) = 0 then wakeup s1 else s1)
      else s)"

definition clk_preempt :: "kernel \<Rightarrow> kernel" where
  "clk_preempt s =
     (let s1 = s\<lparr>preempt := u32 (preempt s + 4294967295)\<rparr> in
      if preempt s1 = 0 then resched (s1\<lparr>preempt := QUANTUM\<rparr>) else s1)"

definition clkhandler :: "bool \<Rightarrow> kernel \<Rightarrow> kernel" where
  "clkhandler ovf s = (if \<not> ovf then s else clk_preempt (clk_sleepers (clk_count s)))"

section \<open>Time left for each sleeper\<close>

fun wake :: "(int \<Rightarrow> int) \<Rightarrow> int \<Rightarrow> int list \<Rightarrow> (int \<times> int) list" where
  "wake k t [] = []"
| "wake k t (x # xs) = (x, t + k x) # wake k (t + k x) xs"

definition sleepers :: "kernel \<Rightarrow> (int \<times> int) list" where
  "sleepers s = wake (ky (queuetab s)) 0 (qlist s (sleepq s))"

text \<open>Delays in the queue are nonnegative and the longest remaining time fits an \<open>int32\<close>.\<close>

definition deltas_ok :: "(int \<Rightarrow> int) \<Rightarrow> int list \<Rightarrow> bool" where
  "deltas_ok k xs \<longleftrightarrow> (\<forall>x \<in> set xs. 0 \<le> k x) \<and> sum_list (map k xs) \<le> 2147483647"

lemma wake_cong: "(\<And>x. x \<in> set xs \<Longrightarrow> k x = k' x) \<Longrightarrow> wake k t xs = wake k' t xs"
  by (induction xs arbitrary: t) auto

lemma fst_wake [simp]: "map fst (wake k t xs) = xs"
  by (induction xs arbitrary: t) auto

lemma wake_shift: "wake k (t + d) xs = map (\<lambda>(x, u). (x, u + d)) (wake k t xs)"
proof (induction xs arbitrary: t)
  case (Cons x xs)
  show ?case using Cons [of "t + k x"] by (simp add: add.commute add.left_commute)
qed simp

lemma wake_append: "wake k t (xs @ ys) = wake k t xs @ wake k (t + sum_list (map k xs)) ys"
  by (induction xs arbitrary: t) (auto simp: add.assoc)

lemma wake_ge: "\<forall>x \<in> set xs. 0 \<le> k x \<Longrightarrow> (x, u) \<in> set (wake k t xs) \<Longrightarrow> t \<le> u"
proof (induction xs arbitrary: t)
  case (Cons y ys)
  then show ?case by (auto dest: Cons.IH [rotated])
qed simp

text \<open>Delta insertion puts the sleeper behind every sleeper due no later, with the whole delay.\<close>

lemma delta_scan_nonneg:
  assumes "\<forall>x \<in> set xs. 0 \<le> k x" "0 \<le> key" "key \<le> 2147483647"
    "delta_scan k key xs = (us, vs, r)"
  shows "r = key - sum_list (map k us) \<and> 0 \<le> r \<and> us = map fst (takeWhile (\<lambda>(x, u). u \<le> t + key) (wake k t xs)) \<and>
    (\<forall>v ws. vs = v # ws \<longrightarrow> r < k v)"
  using assms
proof (induction xs arbitrary: key us t)
  case Nil
  then show ?case by simp
next
  case (Cons x xs)
  show ?case
  proof (cases "k x \<le> key")
    case False
    with Cons.prems show ?thesis by auto
  next
    case True
    have s32: "s32 (key - k x) = key - k x" using True Cons.prems by simp
    with True Cons.prems(4) obtain us' where us: "us = x # us'"
      and d: "delta_scan k (key - k x) xs = (us', vs, r)" by (auto split: prod.splits)
    have "0 \<le> key - k x" "key - k x \<le> 2147483647" using True Cons.prems by auto
    from Cons.IH [OF _ this d, of "t + k x"] Cons.prems(1)
    have IH: "r = key - k x - sum_list (map k us')" "0 \<le> r" "\<forall>v ws. vs = v # ws \<longrightarrow> r < k v"
      and us': "map fst (takeWhile (\<lambda>(x, u). u \<le> t + key) (wake k (t + k x) xs)) = us'" by auto
    show ?thesis unfolding us by (simp add: us' True IH(3)) (use IH(1,2) in simp)
  qed
qed

theorem delta_insert_wake:
  assumes k: "deltas_ok k xs" and key: "0 \<le> key" "key \<le> 2147483647" and pid: "pid \<notin> set xs" and dist: "distinct xs"
    and d: "delta_scan k key xs = (us, vs, r)"
  shows "wake (delta_keys k pid r vs) 0 (us @ pid # vs) =
      takeWhile (\<lambda>(x, u). u \<le> key) (wake k 0 xs) @ (pid, key) # dropWhile (\<lambda>(x, u). u \<le> key) (wake k 0 xs)"
    and "deltas_ok (delta_keys k pid r vs) (us @ pid # vs)"
proof -
  have nn: "\<forall>x \<in> set xs. 0 \<le> k x" using k by (simp add: deltas_ok_def)
  have xs: "xs = us @ vs" by (rule delta_scan_split [OF d])
  have r: "r = key - sum_list (map k us)" "0 \<le> r" "\<And>v ws. vs = v # ws \<Longrightarrow> r < k v"
    and us: "us = map fst (takeWhile (\<lambda>(x, u). u \<le> key) (wake k 0 xs))"
    using delta_scan_nonneg [OF nn key d, of 0] by auto
  have len: "length us = length (takeWhile (\<lambda>(x, u). u \<le> key) (wake k 0 xs))"
    using arg_cong [OF us, of length] by simp
  have w: "wake k 0 xs = wake k 0 us @ wake k (sum_list (map k us)) vs" by (simp add: xs wake_append)
  have lw: "length (wake k 0 us) = length us" by (metis fst_wake length_map)
  have tw: "takeWhile (\<lambda>(x, u). u \<le> key) (wake k 0 xs) = wake k 0 us"
    by (metis append_eq_append_conv len lw takeWhile_dropWhile_id w)
  then have dw: "dropWhile (\<lambda>(x, u). u \<le> key) (wake k 0 xs) = wake k (sum_list (map k us)) vs"
    by (metis append_same_eq same_append_eq takeWhile_dropWhile_id w)
  have nneg: "\<forall>x \<in> set us. 0 \<le> k x" using nn xs by auto
  have sumus: "0 \<le> sum_list (map k us)" using nneg by (intro sum_list_nonneg) auto
  have range: "0 \<le> k v - r" "k v - r \<le> 2147483647" if "vs = v # ws" for v ws
  proof -
    show "0 \<le> k v - r" using r(3) [OF that] by simp
    have "0 \<le> sum_list (map k ws)" using nn xs that by (intro sum_list_nonneg) auto
    then show "k v - r \<le> 2147483647" using k sumus r(2) xs that by (simp add: deltas_ok_def)
  qed
  let ?k = "delta_keys k pid r vs"
  have pid': "pid \<notin> set us" "pid \<notin> set vs" and disj: "set us \<inter> set vs = {}" "distinct vs"
    using pid xs dist by auto
  have kus: "wake ?k 0 us = wake k 0 us" "sum_list (map ?k us) = sum_list (map k us)"
    "\<forall>x \<in> set us. ?k x = k x"
    using pid' disj by (cases vs; auto simp: delta_keys_def intro!: wake_cong arg_cong [of _ _ sum_list])+
  have kpid: "?k pid = r" using pid' by (cases vs) (auto simp: delta_keys_def)
  have kvs: "wake ?k (t + r) vs = wake k t vs" for t
  proof (cases vs)
    case (Cons v ws)
    then have "?k v = k v - r" "\<forall>x \<in> set ws. ?k x = k x"
      using range [OF Cons] pid' disj by (auto simp: delta_keys_def)
    then show ?thesis using Cons wake_cong [of ws ?k k] by simp
  qed simp
  show "wake ?k 0 (us @ pid # vs) =
      takeWhile (\<lambda>(x, u). u \<le> key) (wake k 0 xs) @ (pid, key) # dropWhile (\<lambda>(x, u). u \<le> key) (wake k 0 xs)"
  proof -
    have "sum_list (map k us) + r = key" using r(1) by simp
    then show ?thesis
      unfolding tw dw using kvs [of "sum_list (map k us)"] by (simp add: wake_append kus kpid)
  qed
  have "sum_list (map ?k vs) = (if vs = [] then 0 else sum_list (map k vs) - r)" "\<forall>x \<in> set vs. 0 \<le> ?k x"
  proof -
    show "sum_list (map ?k vs) = (if vs = [] then 0 else sum_list (map k vs) - r)"
    proof (cases vs)
      case (Cons v ws)
      define k' where "k' = ?k"
      have m: "map k' ws = map k ws" and v: "k' v = k v - r"
        using Cons range [OF Cons] pid' disj by (auto simp: delta_keys_def k'_def)
      show ?thesis unfolding k'_def [symmetric] using Cons v arg_cong [OF m, of sum_list] by simp
    qed simp
    show "\<forall>x \<in> set vs. 0 \<le> ?k x"
      using range pid' nn xs by (cases vs) (auto simp: delta_keys_def)
  qed
  with kus kpid r key k nneg xs show "deltas_ok ?k (us @ pid # vs)"
    by (auto simp: deltas_ok_def)
qed

text \<open>Removing a sleeper and adding its delay to the next one leaves the times of the others.\<close>

definition drop_keys :: "(int \<Rightarrow> int) \<Rightarrow> int \<Rightarrow> int list \<Rightarrow> int \<Rightarrow> int" where
  "drop_keys k pid vs = (case vs of [] \<Rightarrow> k | v # _ \<Rightarrow> k(v := s32 (k v + k pid)))"

lemma wake_drop:
  assumes k: "deltas_ok k (us @ pid # vs)" and dist: "distinct (us @ pid # vs)"
  shows "wake (drop_keys k pid vs) 0 (us @ vs) = filter (\<lambda>(x, u). x \<noteq> pid) (wake k 0 (us @ pid # vs))"
    and "deltas_ok (drop_keys k pid vs) (us @ vs)"
proof -
  let ?k = "drop_keys k pid vs"
  have nn: "\<forall>x \<in> set (us @ pid # vs). 0 \<le> k x" using k by (simp add: deltas_ok_def)
  have su: "0 \<le> sum_list (map k us)" using nn by (intro sum_list_nonneg) auto
  have s32: "s32 (k v + k pid) = k v + k pid" if "vs = v # ws" for v ws
  proof -
    have "0 \<le> sum_list (map k ws)" using nn that by (intro sum_list_nonneg) auto
    then show ?thesis using k nn that su by (intro s32_id) (auto simp: deltas_ok_def)
  qed
  have kus: "wake ?k 0 us = wake k 0 us" "map ?k us = map k us"
    using dist by (cases vs; auto simp: drop_keys_def intro!: wake_cong)+
  have kvs: "wake ?k t vs = wake k (t + k pid) vs" for t
  proof (cases vs)
    case (Cons v ws)
    have "\<forall>x \<in> set ws. ?k x = k x" using Cons dist by (auto simp: drop_keys_def)
    then have "wake ?k u ws = wake k u ws" for u by (intro wake_cong) auto
    moreover have "?k v = k v + k pid" using Cons s32 [OF Cons] by (simp add: drop_keys_def)
    ultimately show ?thesis by (simp add: Cons add.commute add.left_commute)
  qed simp
  have flt: "filter (\<lambda>(x, u). x \<noteq> pid) (wake k t ys) = wake k t ys" if "pid \<notin> set ys" for t ys
    using that by (induction ys arbitrary: t) auto
  show "wake ?k 0 (us @ vs) = filter (\<lambda>(x, u). x \<noteq> pid) (wake k 0 (us @ pid # vs))"
    using dist by (simp add: wake_append kus kvs flt)
  have "sum_list (map ?k vs) = (if vs = [] then 0 else sum_list (map k vs) + k pid)" "\<forall>x \<in> set vs. 0 \<le> ?k x"
  proof -
    show "sum_list (map ?k vs) = (if vs = [] then 0 else sum_list (map k vs) + k pid)"
    proof (cases vs)
      case (Cons v ws)
      define k' where "k' = ?k"
      have m: "map k' ws = map k ws" and v: "k' v = k v + k pid"
        using Cons s32 [OF Cons] dist by (auto simp: drop_keys_def k'_def)
      show ?thesis unfolding k'_def [symmetric] using Cons v arg_cong [OF m, of sum_list] by simp
    qed simp
    show "\<forall>x \<in> set vs. 0 \<le> ?k x"
      using s32 nn by (cases vs) (auto simp: drop_keys_def)
  qed
  moreover have "\<forall>x \<in> set us. 0 \<le> ?k x" using kus(2) nn by (metis map_eq_conv in_set_conv_decomp append_Cons append.assoc)
  ultimately show "deltas_ok ?k (us @ vs)"
    using k nn arg_cong [OF kus(2), of sum_list] by (auto simp: deltas_ok_def)
qed

text \<open>A tick takes one off every remaining time.\<close>

lemma wake_tick:
  assumes "distinct (x # xs)" "- 2147483647 \<le> k x" "k x \<le> 2147483647"
  shows "wake (k(x := s32 (k x - 1))) 0 (x # xs) = map (\<lambda>(y, u). (y, u - 1)) (wake k 0 (x # xs))"
proof -
  have "wake (k(x := s32 (k x - 1))) t xs = wake k t xs" for t
    using assms(1) by (intro wake_cong) auto
  then show ?thesis using assms wake_shift [of k "k x" "- 1" xs] by simp
qed

section \<open>Effect on the kernel invariant\<close>

text \<open>The keys of one queue may change freely, as long as the ready list stays in order.\<close>

lemma qrel_set_qkey:
  assumes "qrel s L" "p \<in> {0..<NPROC}"
  shows "qrel (s\<lparr>queuetab := set_qkey (queuetab s) p v\<rparr>) L"
proof -
  have "qrep (set_qkey (queuetab s) p v) q (L q)" if "is_head s q" for q
    using qrel_rep [OF assms(1) that] assms(2) that by (auto simp: qrep_def is_head_def)
  then show ?thesis using assms(1) by (auto simp: qrel_def is_head_def)
qed

lemma kcore_set_qkey:
  assumes k: "kcore s L X" and p: "p \<in> {0..<NPROC}" "p \<notin> set (L (readylist s))"
  shows "kcore (s\<lparr>queuetab := set_qkey (queuetab s) p v\<rparr>) L X"
proof -
  note C = kcoreD [OF k]
  have "desc (ky (set_qkey (queuetab s) p v)) (L (readylist s)) = desc (ky (queuetab s)) (L (readylist s))"
    using p(2) by (intro desc_cong) auto
  moreover have "placed (s\<lparr>queuetab := set_qkey (queuetab s) p v\<rparr>) L X = placed s L X"
    by (rule placed_cong) (simp_all add: same_q_def)
  ultimately show ?thesis
    using C qrel_set_qkey [OF C(1) p(1), of v] by (intro kcore_only_queues [OF k]) auto
qed

lemma ready_sleep_disjoint:
  "kcore s L X \<Longrightarrow> x \<in> set (L (sleepq s)) \<Longrightarrow> x \<notin> set (L (readylist s))"
  using qrel_member_unique [OF kcoreD(1) kcoreD(8) kcoreD(9)] kcoreD(10) by blast

text \<open>The current process enters the sleep queue and takes a sleeping state.\<close>

lemma insertd_sleep:
  assumes k: "kinv s L" and c: "currpid s \<noteq> NULLPROC" and st: "st = PR_SLEEP \<or> st = PR_RECTIM"
    and d: "delta_scan (ky (queuetab s)) key (L (sleepq s)) = (us, vs, r)"
  obtains qt where "insertd (currpid s) (sleepq s) key s = (OK, s\<lparr>queuetab := qt\<rparr>)"
    "kcore (set_state (currpid s) st (s\<lparr>queuetab := qt\<rparr>)) (L(sleepq s := us @ currpid s # vs)) {}"
    "ky qt = delta_keys (ky (queuetab s)) (currpid s) r vs"
proof -
  note K = kinvD [OF k] and C = kcoreD [OF kinvD(1) [OF k]]
  let ?c = "currpid s"
  let ?L = "L(sleepq s := us @ ?c # vs)"
  have un: "unqueued s L ?c" using placed_unqueued [OF C(3) K(5)] K(6) by simp
  have bad: "\<not> isbadpid (proctab s) ?c" using K(4,5) by (simp add: isbadpid_def)
  obtain qt where o: "insertd ?c (sleepq s) key s = (OK, s\<lparr>queuetab := qt\<rparr>)"
    and r: "qrel (s\<lparr>queuetab := qt\<rparr>) ?L" and kq: "ky qt = delta_keys (ky (queuetab s)) ?c r vs"
    using insertd_ok [OF C(1,9) un bad d] by (rule q_okE)
  let ?s = "set_state ?c st (s\<lparr>queuetab := qt\<rparr>)"
  have L: "L (sleepq s) = us @ vs" by (rule delta_scan_split [OF d])
  have "placed s L {?c}" using C(3) K(6) placed_transit [of s ?c L "{}"] by simp
  moreover have op: "only_proc s ?s ?c" using st by (auto simp: only_proc_def same_q_def)
  moreover have "home ?s ?c = Some (sleepq s)" using st by (auto simp: home_def)
  ultimately have pl: "placed ?s ?L {}"
    using placed_move_in [of s L "{?c}" ?s ?c "sleepq s" "us @ ?c # vs"] C(9) L by simp
  have "ky qt x = ky (queuetab s) x" if "x \<in> set (L (readylist s))" for x
  proof -
    have "x \<notin> set (us @ vs)" using ready_sleep_disjoint [OF K(1)] that L by auto
    moreover have "x \<noteq> ?c" using un C(8) that by (auto simp: unqueued_def)
    ultimately show ?thesis unfolding kq by (cases vs) (auto simp: delta_keys_def)
  qed
  then have "desc (ky qt) (L (readylist s)) = desc (ky (queuetab s)) (L (readylist s))" by (rule desc_cong)
  moreover have "msg_ok ?s {}" using C(11) K(4) st by (auto simp: msg_ok_def)
  ultimately have "kcore ?s ?L {}"
    using C r pl c st K(5) same_q_qids [of s ?s] op
    by (auto simp: kcore_def cur_ok_def prio_ok_def only_proc_def qrel_def is_head_def)
  with o kq that show thesis by blast
qed

lemma sleepms_kinv:
  assumes k: "kinv s L" and c: "currpid s \<noteq> NULLPROC"
  shows "\<exists>L'. kinv (snd (sleepms n s)) L'"
proof (cases "n \<le> 0")
  case True
  then show ?thesis using k yield_kinv [OF k] by (auto simp: sleepms_def)
next
  case False
  obtain us vs r where d: "delta_scan (ky (queuetab s)) n (L (sleepq s)) = (us, vs, r)"
    by (cases "delta_scan (ky (queuetab s)) n (L (sleepq s))") auto
  from insertd_sleep [OF k c disjI1 [OF refl] d] obtain qt where
    o: "insertd (currpid s) (sleepq s) n s = (OK, s\<lparr>queuetab := qt\<rparr>)"
    and kk: "kcore (set_state (currpid s) PR_SLEEP (s\<lparr>queuetab := qt\<rparr>)) (L(sleepq s := us @ currpid s # vs)) {}" .
  have "sems_ok (s\<lparr>queuetab := qt\<rparr>) (L(sleepq s := us @ currpid s # vs))"
    using sems_ok_other_queue [OF kinvD(1) [OF k] _ _ kinvD(2) [OF k]] by simp
  with resched_kinv [OF kk] kinvD(3) [OF k] False o show ?thesis
    by (auto simp: sleepms_def)
qed

lemma sleep_kinv: "kinv s L \<Longrightarrow> currpid s \<noteq> NULLPROC \<Longrightarrow> \<exists>L'. kinv (snd (sleep n s)) L'"
  using sleepms_kinv by (auto simp: sleep_def)

text \<open>\<^verbatim>\<open>unsleep\<close> takes the process off the sleep queue; it keeps its state until the caller sets it.\<close>

lemma unsleep_kcore:
  assumes k: "kcore s L {}" and p: "p \<in> {0..<NPROC}"
    and st: "prstate (proctab s p) = PR_SLEEP \<or> prstate (proctab s p) = PR_RECTIM"
  obtains us vs qt where "L (sleepq s) = us @ p # vs" "unsleep p s = (OK, s\<lparr>queuetab := qt\<rparr>)"
    "kcore (s\<lparr>queuetab := qt\<rparr>) (L(sleepq s := us @ vs)) {p}"
    "ky qt = drop_keys (ky (queuetab s)) p vs"
proof -
  note C = kcoreD [OF k]
  have mem: "p \<in> set (L (sleepq s))"
    using placed_mem [OF C(3) p C(9)] st by (auto simp: home_def)
  then obtain us vs where L: "L (sleepq s) = us @ p # vs" by (auto simp: in_set_conv_decomp)
  have rep: "qrep (queuetab s) (sleepq s) (us @ p # vs)" using qrel_rep [OF C(1,9)] L by simp
  have "chain (nx (queuetab s)) ((sleepq s # us) @ p # vs @ [sleepq s + 1])" using rep by (simp add: qrep_def)
  then have nxt: "qnext (queuetab s p) = hd (vs @ [sleepq s + 1])"
    by (subst (asm) chain_snoc_Cons) (cases vs; simp add: nx_def)
  have ge: "NPROC \<le> sleepq s" using C(9) by (simp add: is_head_def)
  let ?v = "hd (vs @ [sleepq s + 1])"
  define s1 where "s1 = (if ?v < NPROC then s\<lparr>queuetab := set_qkey (queuetab s) ?v
    (s32 (qkey (queuetab s ?v) + qkey (queuetab s p)))\<rparr> else s)"
  have v: "?v < NPROC \<longleftrightarrow> vs \<noteq> []" "vs \<noteq> [] \<Longrightarrow> ?v \<in> set (L (sleepq s))"
    using rep ge L by (cases vs; auto simp: qrep_def)+
  have k1: "kcore s1 L {}"
    unfolding s1_def
    using v k kcore_set_qkey [OF k, of ?v] qrel_range [OF C(1,9)] ready_sleep_disjoint [OF k]
    by (cases "vs = []") (auto simp del: hd_append2)
  have s1': "sleepq s1 = sleepq s" "\<exists>qt1. s1 = s\<lparr>queuetab := qt1\<rparr>"
    by (auto simp: s1_def intro: exI [of _ "queuetab s"])
  have hd1: "is_head s1 (sleepq s)" using kcoreD(9) [OF k1] s1' by simp
  have ky1: "ky (queuetab s1) = drop_keys (ky (queuetab s)) p vs"
    using v by (cases vs) (auto simp: s1_def drop_keys_def field_fold)
  from kcore_getitem [OF k1 hd1 mem] obtain qt where
    g: "getitem p s1 = (p, s1\<lparr>queuetab := qt\<rparr>)"
    and kk: "kcore (s1\<lparr>queuetab := qt\<rparr>) (L(sleepq s := remove1 p (L (sleepq s)))) {p}"
    and kq: "ky qt = ky (queuetab s1)" .
  have "remove1 p (L (sleepq s)) = us @ vs" using rep L by (auto simp: qrep_def)
  moreover have "unsleep p s = (OK, s1\<lparr>queuetab := qt\<rparr>)"
    using p st g by (auto simp: unsleep_def isbadpid_def nxt s1_def [symmetric] Let_def)
  ultimately show thesis using that [OF L] kk kq ky1 s1' by auto
qed

section \<open>Waking up\<close>

lemma sleeping_state:
  assumes "kcore s L {}" "x \<in> set (L (sleepq s))"
  shows "x \<in> {0..<NPROC}" "prstate (proctab s x) = PR_SLEEP \<or> prstate (proctab s x) = PR_RECTIM"
    "\<not> isbadpid (proctab s) x"
proof -
  note C = kcoreD [OF assms(1)]
  show r: "x \<in> {0..<NPROC}" using qrel_range [OF C(1,9) assms(2)] by simp
  show st: "prstate (proctab s x) = PR_SLEEP \<or> prstate (proctab s x) = PR_RECTIM"
    using queue_iff_state(2) [OF assms(1) r] assms(2) by simp
  show "\<not> isbadpid (proctab s) x" using r st by (auto simp: isbadpid_def)
qed

lemma wakeup_while:
  assumes "kdefer s L" "sems_ok s L" "L (sleepq s) = us @ vs" "\<forall>x \<in> set us. ky (queuetab s) x \<le> 0"
    "vs \<noteq> [] \<Longrightarrow> ky (queuetab s) (hd vs) > 0"
  shows "\<exists>s' L'. wakeup_loop s = Some s' \<and> kdefer s' L' \<and> sems_ok s' L' \<and> L' (sleepq s) = vs \<and>
    sleepq s' = sleepq s \<and> (\<forall>x \<in> set vs. ky (queuetab s') x = ky (queuetab s) x) \<and>
    (\<forall>x. prstate (proctab s' x) = (if x \<in> set us then PR_READY else prstate (proctab s x)))"
  using assms
proof (induction us arbitrary: s L)
  case Nil
  note K = kdeferD [OF Nil.prems(1)]
  note C = kcoreD [OF K(1)]
  have "firstid (queuetab s) (sleepq s) = hd (vs @ [sleepq s + 1])"
    using qrep_firstid [OF qrel_rep [OF C(1,9)]] Nil.prems(3) by simp
  then have "\<not> (nonempty (queuetab s) (sleepq s) \<and> firstkey (queuetab s) (sleepq s) \<le> 0)"
    using qrel_isempty(2) [OF C(1,9)] Nil.prems(3,5) by (auto simp: firstkey_def field_fold)
  with Nil.prems show ?case
    by (intro exI [of _ s] exI [of _ L]) (auto simp: wakeup_loop_def)
next
  case (Cons x us)
  note K = kdeferD [OF Cons.prems(1)]
  note C = kcoreD [OF K(1)]
  have L: "L (sleepq s) = x # (us @ vs)" using Cons.prems(3) by simp
  have dist: "distinct (x # us @ vs)" using qrel_rep [OF C(1,9)] L by (simp add: qrep_def)
  have X: "prstate (proctab s x) = PR_SLEEP \<or> prstate (proctab s x) = PR_RECTIM" "\<not> isbadpid (proctab s) x"
    using sleeping_state [OF K(1), of x] L by simp_all
  from kcore_dequeue [OF K(1) C(9) L] obtain qt where
    d: "dequeue (sleepq s) s = (x, s\<lparr>queuetab := qt\<rparr>)"
    and k1: "kcore (s\<lparr>queuetab := qt\<rparr>) (L(sleepq s := us @ vs)) {x}" and ky1: "ky qt = ky (queuetab s)" .
  have nc: "x \<noteq> currpid s" using X(1) K(3) by auto
  have nd: "0 < ndefers (s\<lparr>queuetab := qt\<rparr>)" using K(2) by simp
  have bad: "\<not> isbadpid (proctab (s\<lparr>queuetab := qt\<rparr>)) x" using X(2) by simp
  have wk: "wakeable (s\<lparr>queuetab := qt\<rparr>) x" using X(1) by (auto simp: wakeable_def)
  define ys where "ys = ins_desc (ky (queuetab s)) x (prprio (proctab s x)) (L (readylist s))"
  obtain qt' where
    r: "ready x (s\<lparr>queuetab := qt\<rparr>) = (OK, (set_state x PR_READY (s\<lparr>queuetab := qt\<rparr>))\<lparr>queuetab := qt', attempt := True\<rparr>)"
    and k2: "kcore ((set_state x PR_READY (s\<lparr>queuetab := qt\<rparr>))\<lparr>queuetab := qt', attempt := True\<rparr>)
       (L(sleepq s := us @ vs, readylist s := ys)) {}"
    and ky2: "ky qt' = (ky (queuetab s))(x := prprio (proctab s x))"
    by (rule ready_deferred [OF k1 bad nd wk]) (use C(10) ky1 in \<open>simp add: ys_def\<close>)
  let ?s = "(set_state x PR_READY (s\<lparr>queuetab := qt\<rparr>))\<lparr>queuetab := qt', attempt := True\<rparr>"
  let ?L = "L(sleepq s := us @ vs, readylist s := ys)"
  have kd: "kdefer ?s ?L" using k2 K nc by (simp add: kdefer_def)
  have sm: "sems_ok ?s ?L"
    by (rule sems_ok_other_queue [OF k1]) (use sems_ok_other_queue [OF K(1) _ refl Cons.prems(2)] in auto)
  have "firstid (queuetab s) (sleepq s) = x"
    using qrep_firstid [OF qrel_rep [OF C(1,9)]] L by simp
  then have "nonempty (queuetab s) (sleepq s) \<and> firstkey (queuetab s) (sleepq s) \<le> 0"
    using qrel_isempty(2) [OF C(1,9)] L Cons.prems(4) by (auto simp: firstkey_def field_fold)
  then have w: "wakeup_loop s = wakeup_loop ?s"
    using d r unfolding wakeup_loop_def by (subst while_option_step) auto
  have L': "?L (sleepq ?s) = us @ vs" using C(10) by simp
  have neg: "\<forall>y \<in> set us. ky (queuetab ?s) y \<le> 0" using Cons.prems(4) dist by (auto simp: ky2)
  have pos: "vs \<noteq> [] \<Longrightarrow> ky (queuetab ?s) (hd vs) > 0"
    using Cons.prems(5) dist by (cases vs) (auto simp: ky2)
  from Cons.IH [OF kd sm L' neg pos] obtain s' L' where
    IH: "wakeup_loop ?s = Some s'" "kdefer s' L'" "sems_ok s' L'" "L' (sleepq s) = vs" "sleepq s' = sleepq s"
      "\<forall>y \<in> set vs. ky (queuetab s') y = ky (queuetab ?s) y" "\<forall>y. prstate (proctab s' y) = (if y \<in> set us then PR_READY else prstate (proctab ?s y))"
    by auto
  with w dist show ?case by (intro exI [of _ s'] exI [of _ L']) (auto simp: ky2)
qed

text \<open>Rescheduling does not touch the sleepers.\<close>

lemma sleepers_eq: "kcore s L X \<Longrightarrow> sleepers s = wake (ky (queuetab s)) 0 (L (sleepq s))"
  using qrel_qlist [OF kcoreD(1) kcoreD(9)] by (simp add: sleepers_def)

lemma switch_sleep_keys:
  assumes "kcore s L {}" "switch_frame s s'" "x \<in> set (L (sleepq s))"
  shows "ky (queuetab s') x = ky (queuetab s) x"
  by (rule switch_frame_keys [OF assms(2)]) (use sleeping_state(2) [OF assms(1,3)] in auto)

lemma resched_sleepers:
  assumes "kcore s L {}" "ndefers s = 0" "sems_ok s L"
  obtains L' where "kinv (resched s) L'" "L' (sleepq s) = L (sleepq s)" "sleepers (resched s) = sleepers s"
    "\<And>x. x \<in> set (L (sleepq s)) \<Longrightarrow> ky (queuetab (resched s)) x = ky (queuetab s) x"
    "sleepq (resched s) = sleepq s"
proof -
  from resched_kinv [OF assms] obtain xs where
    k: "kinv (resched s) (L(readylist s := xs))" and f: "switch_frame s (resched s)" by blast
  have L': "(L(readylist s := xs)) (sleepq s) = L (sleepq s)" using kcoreD(10) [OF assms(1)] by simp
  have "wake (ky (queuetab (resched s))) 0 (L (sleepq s)) = wake (ky (queuetab s)) 0 (L (sleepq s))"
    by (rule wake_cong) (rule switch_sleep_keys [OF assms(1) f])
  then have "sleepers (resched s) = sleepers s"
    using sleepers_eq [OF assms(1)] sleepers_eq [OF kinvD(1) [OF k]] L' switch_frameD(3) [OF f] by simp
  with k L' f switch_sleep_keys [OF assms(1) f] that show thesis by (auto simp: switch_frameD(3))
qed

definition due :: "kernel \<Rightarrow> (int \<Rightarrow> int list) \<Rightarrow> int list" where
  "due s L = takeWhile (\<lambda>x. ky (queuetab s) x \<le> 0) (L (sleepq s))"

definition not_due :: "kernel \<Rightarrow> (int \<Rightarrow> int list) \<Rightarrow> int list" where
  "not_due s L = dropWhile (\<lambda>x. ky (queuetab s) x \<le> 0) (L (sleepq s))"

text \<open>A switch only ever moves processes between ready and current, if the current process was
  eligible.\<close>

lemma wakeup_result:
  assumes k: "kinv s L"
  obtains L' where "kinv (wakeup s) L'" "L' (sleepq s) = not_due s L" "sleepq (wakeup s) = sleepq s"
    "\<And>x. x \<in> set (not_due s L) \<Longrightarrow> ky (queuetab (wakeup s)) x = ky (queuetab s) x"
    "\<And>x. x \<in> set (due s L) \<Longrightarrow> on_cpu_or_ready (wakeup s) x"
proof -
  note K = kinvD [OF k]
  let ?s1 = "snd (resched_cntl DEFER_START s)"
  have D: "?s1 = s\<lparr>ndefers := 1, attempt := False\<rparr>" "kdefer ?s1 L"
    using defer_start [OF K(1,3,4)] by simp_all
  have sm: "sems_ok ?s1 L" using K(2) unfolding D(1) by (simp add: sems_ok_def sem_ok_def sem_cnt_def)
  have L: "L (sleepq ?s1) = due s L @ not_due s L" by (simp add: D(1) due_def not_due_def)
  have neg: "\<forall>x \<in> set (due s L). ky (queuetab ?s1) x \<le> 0"
    by (auto simp: due_def D(1) dest: set_takeWhileD)
  have pos: "not_due s L \<noteq> [] \<Longrightarrow> ky (queuetab ?s1) (hd (not_due s L)) > 0"
    using hd_dropWhile [of "\<lambda>x. ky (queuetab s) x \<le> 0" "L (sleepq s)"] by (simp add: not_due_def D(1))
  from wakeup_while [OF D(2) sm L neg pos] obtain s2 L2 where
    w: "wakeup_loop ?s1 = Some s2" and kd: "kdefer s2 L2" and sm2: "sems_ok s2 L2"
    and L2: "L2 (sleepq s) = not_due s L" "sleepq s2 = sleepq s"
    and ky2: "\<forall>x \<in> set (not_due s L). ky (queuetab s2) x = ky (queuetab s) x"
    and rdy: "\<forall>x. prstate (proctab s2 x) = (if x \<in> set (due s L) then PR_READY else prstate (proctab s x))"
    by (auto simp: D(1))
  have e: "wakeup s = snd (resched_cntl DEFER_STOP s2)" using w by (simp add: wakeup_def Let_def)
  note K2 = kdeferD [OF kd]
  have range: "x \<in> {0..<NPROC}" if "x \<in> set (due s L)" for x
    using sleeping_state(1) [OF K(1), of x] that by (auto simp: due_def dest: set_takeWhileD)
  have el2: "on_cpu_or_ready s2 x" if "x \<in> set (due s L)" for x
    using rdy that by (simp add: on_cpu_or_ready_def)
  let ?s3 = "s2\<lparr>ndefers := 0\<rparr>"
  have k3: "kcore ?s3 L2 {}" "sems_ok ?s3 L2"
    using K2(1) sm2 by (simp_all add: sems_ok_def sem_ok_def sem_cnt_def)
  show thesis
  proof (cases "attempt s2")
    case True
    then have e3: "wakeup s = resched ?s3" unfolding e using K2(2) by (simp add: resched_cntl_def)
    from resched_sleepers [OF k3(1) _ k3(2)] obtain L' where
      1: "kinv (resched ?s3) L'" "L' (sleepq s2) = L2 (sleepq s2)" "sleepq (resched ?s3) = sleepq s2"
        "\<And>x. x \<in> set (L2 (sleepq s2)) \<Longrightarrow> ky (queuetab (resched ?s3)) x = ky (queuetab s2) x" by auto
    have "on_cpu_or_ready (resched ?s3) x" if "x \<in> set (due s L)" for x
      using resched_eligible [OF k3(1) _ range [OF that]] K2(3) el2 [OF that]
      by (simp add: on_cpu_or_ready_def)
    with 1 that [of L'] L2 ky2 show thesis unfolding e3 by auto
  next
    case False
    then have e3: "wakeup s = ?s3" unfolding e using K2(2) by (simp add: resched_cntl_def)
    have "kinv ?s3 L2" using k3 K2(3) by (simp add: kinv_def)
    with that [of L2] L2 ky2 el2 show thesis unfolding e3 by (auto simp: on_cpu_or_ready_def)
  qed
qed

section \<open>The clock interrupt\<close>

lemma clk_count_kinv: "kinv (clk_count s) L = kinv s L"
  by (simp add: clk_count_def Let_def)

lemma clk_count_sleepers:
  "queuetab (clk_count s) = queuetab s" "sleepq (clk_count s) = sleepq s" "sleepers (clk_count s) = sleepers s"
  by (simp_all add: clk_count_def Let_def sleepers_def qlist_def)

lemma clk_preempt_kinv:
  assumes "kinv s L"
  obtains L' where "kinv (clk_preempt s) L'" "sleepers (clk_preempt s) = sleepers s"
    "L' (sleepq s) = L (sleepq s)" "sleepq (clk_preempt s) = sleepq s"
    "\<And>x. x \<in> set (L (sleepq s)) \<Longrightarrow> ky (queuetab (clk_preempt s)) x = ky (queuetab s) x"
    "\<And>x. x \<in> {0..<NPROC} \<Longrightarrow> on_cpu_or_ready (clk_preempt s) x = on_cpu_or_ready s x"
proof (cases "u32 (preempt s + 4294967295) = 0")
  case True
  let ?s = "s\<lparr>preempt := QUANTUM\<rparr>"
  note K = kinvD [OF assms]
  have k: "kcore ?s L {}" "sems_ok ?s L" "ndefers ?s = 0" "prstate (proctab ?s (currpid ?s)) = PR_CURR"
    using K by (simp_all add: sems_ok_def sem_ok_def sem_cnt_def)
  have e: "clk_preempt s = resched ?s" using True by (simp add: clk_preempt_def Let_def)
  have "sleepers ?s = sleepers s" by (simp add: sleepers_def qlist_def)
  moreover have "on_cpu_or_ready (resched ?s) x = on_cpu_or_ready s x" if "x \<in> {0..<NPROC}" for x
    using resched_eligible [OF k(1,4) that k(3)] by (simp add: on_cpu_or_ready_def)
  ultimately show thesis using resched_sleepers [OF k(1,3,2)] that e by auto
next
  case False
  then show thesis
    using that [of L] assms
    by (simp add: clk_preempt_def Let_def sleepers_def qlist_def on_cpu_or_ready_def)
qed

text \<open>Any clock tick keeps the kernel invariant.\<close>

lemma clk_sleepers_cases:
  assumes k: "kinv s L"
  obtains (empty) "L (sleepq s) = []" "clk_sleepers s = s"
  | (tick) x xs s1 where "L (sleepq s) = x # xs"
    "s1 = s\<lparr>queuetab := set_qkey (queuetab s) x (s32 (ky (queuetab s) x - 1))\<rparr>"
    "kinv s1 L" "clk_sleepers s = (if ky (queuetab s1) x = 0 then wakeup s1 else s1)"
proof (cases "L (sleepq s)")
  case Nil
  note C = kcoreD [OF kinvD(1) [OF k]]
  with Nil empty qrel_isempty(1) [OF C(1,9)] show thesis by (simp add: clk_sleepers_def)
next
  case (Cons x xs)
  note K = kinvD [OF k] and C = kcoreD [OF kinvD(1) [OF k]]
  let ?s = "s\<lparr>queuetab := set_qkey (queuetab s) x (s32 (ky (queuetab s) x - 1))\<rparr>"
  have x: "x \<in> {0..<NPROC}" "x \<notin> set (L (readylist s))"
    using sleeping_state(1) [OF K(1), of x] ready_sleep_disjoint [OF K(1), of x] Cons by auto
  have "kinv ?s L" using kcore_set_qkey [OF K(1) x] K by (simp add: kinv_def)
  moreover have "firstid (queuetab s) (sleepq s) = x"
    using qrep_firstid [OF qrel_rep [OF C(1,9)]] Cons by simp
  ultimately show thesis
    using tick [OF Cons refl] qrel_isempty(1) [OF C(1,9)] Cons
    by (simp add: clk_sleepers_def Let_def field_fold)
qed

lemma clkhandler_kinv:
  assumes "kinv s L"
  shows "\<exists>L'. kinv (clkhandler ovf s) L'"
proof (cases ovf)
  case True
  have "kinv (clk_count s) L" using assms by (simp add: clk_count_kinv)
  then have "\<exists>L'. kinv (clk_sleepers (clk_count s)) L'"
  proof (cases rule: clk_sleepers_cases)
    case empty
    then show ?thesis using assms by (auto simp: clk_count_kinv)
  next
    case (tick x xs s1)
    obtain L' where "kinv (wakeup s1) L'" using wakeup_result [OF tick(3)] by blast
    then show ?thesis using tick(3,4) by (cases "ky (queuetab s1) x = 0") auto
  qed
  then obtain L' where "kinv (clk_sleepers (clk_count s)) L'" ..
  from clk_preempt_kinv [OF this] obtain L'' where "kinv (clk_preempt (clk_sleepers (clk_count s))) L''"
    by blast
  with True show ?thesis by (auto simp: clkhandler_def)
qed (use assms in \<open>auto simp: clkhandler_def\<close>)

text \<open>With delays as \<^verbatim>\<open>sleepms\<close> and \<^verbatim>\<open>insertd\<close> make them, the first sleeper has at least one tick to
  go.\<close>

definition sleep_ok :: "kernel \<Rightarrow> (int \<Rightarrow> int list) \<Rightarrow> bool" where
  "sleep_ok s L \<longleftrightarrow>
     deltas_ok (ky (queuetab s)) (L (sleepq s)) \<and>
     (L (sleepq s) \<noteq> [] \<longrightarrow> 1 \<le> ky (queuetab s) (hd (L (sleepq s))))"

lemma wake_pos:
  "\<forall>x \<in> set xs. 0 \<le> k x \<Longrightarrow> 0 < t \<Longrightarrow> (p, u) \<in> set (wake k t xs) \<Longrightarrow> 0 < u"
  using wake_ge [of xs k p u t] by simp

lemma wake_not_due:
  "\<forall>x \<in> set xs. 0 \<le> k x \<Longrightarrow>
   wake k 0 (dropWhile (\<lambda>x. k x \<le> 0) xs) = filter (\<lambda>(p, t). 0 < t) (wake k 0 xs)"
proof (induction xs)
  case (Cons x xs)
  show ?case
  proof (cases "k x = 0")
    case True
    then show ?thesis using Cons by simp
  next
    case False
    then have "0 < k x" using Cons.prems by simp
    then have "filter (\<lambda>(p, t). 0 < t) (wake k (k x) xs) = wake k (k x) xs"
      using wake_pos [of xs k "k x"] Cons.prems by (intro filter_True) auto
    with \<open>0 < k x\<close> show ?thesis by simp
  qed
qed simp

lemma wake_due:
  "\<forall>x \<in> set xs. 0 \<le> k x \<Longrightarrow> (p, 0) \<in> set (wake k 0 xs) \<Longrightarrow> p \<in> set (takeWhile (\<lambda>x. k x \<le> 0) xs)"
proof (induction xs)
  case (Cons x xs)
  show ?case
  proof (cases "k x = 0")
    case True
    then show ?thesis using Cons by auto
  next
    case False
    then show ?thesis using Cons.prems wake_pos [of xs k "k x" p 0] by force
  qed
qed simp

lemma deltas_ok_drop: "deltas_ok k xs \<Longrightarrow> deltas_ok k (dropWhile P xs)"
proof -
  assume k: "deltas_ok k xs"
  then have "0 \<le> sum_list (map k (takeWhile P xs))"
    by (intro sum_list_nonneg) (auto simp: deltas_ok_def dest: set_takeWhileD)
  moreover have "sum_list (map k xs) = sum_list (map k (takeWhile P xs)) + sum_list (map k (dropWhile P xs))"
    by (metis map_append sum_list_append takeWhile_dropWhile_id)
  ultimately show ?thesis using k by (auto simp: deltas_ok_def dest: set_dropWhileD)
qed

lemma deltas_ok_cong: "(\<And>x. x \<in> set xs \<Longrightarrow> k x = k' x) \<Longrightarrow> deltas_ok k xs = deltas_ok k' xs"
proof -
  assume e: "\<And>x. x \<in> set xs \<Longrightarrow> k x = k' x"
  then have "sum_list (map k xs) = sum_list (map k' xs)" by (intro arg_cong [of _ _ sum_list] map_cong refl)
  then show ?thesis using e by (simp add: deltas_ok_def)
qed

lemma tick_deltas:
  assumes "deltas_ok k (x # xs)" "distinct (x # xs)" "1 \<le> k x"
  shows "deltas_ok (k(x := s32 (k x - 1))) (x # xs)" "s32 (k x - 1) = k x - 1"
proof -
  have "0 \<le> sum_list (map k xs)" using assms(1) by (intro sum_list_nonneg) (auto simp: deltas_ok_def)
  then show e: "s32 (k x - 1) = k x - 1" using assms(1,3) by (intro s32_id) (auto simp: deltas_ok_def)
  define k' where "k' = k(x := k x - 1)"
  have k': "map k' xs = map k xs" "k' x = k x - 1" "\<forall>y \<in> set xs. k' y = k y"
    using assms(2) by (auto simp: k'_def)
  have "deltas_ok k' (x # xs)"
    using assms(1,3) k'(2,3) arg_cong [OF k'(1), of sum_list] by (simp add: deltas_ok_def)
  then show "deltas_ok (k(x := s32 (k x - 1))) (x # xs)" by (simp only: e k'_def)
qed

lemma clk_sleepers_tick:
  assumes k: "kinv s L" and ok: "sleep_ok s L"
  obtains L' where "kinv (clk_sleepers s) L'" "sleep_ok (clk_sleepers s) L'"
    "sleepers (clk_sleepers s) = filter (\<lambda>(p, t). 0 < t) (map (\<lambda>(p, t). (p, t - 1)) (sleepers s))"
    "\<And>p. (p, 1) \<in> set (sleepers s) \<Longrightarrow> on_cpu_or_ready (clk_sleepers s) p"
  using k
proof (cases rule: clk_sleepers_cases)
  case empty
  then show thesis using that [of L] k ok sleepers_eq [OF kinvD(1) [OF k]] by simp
next
  case (tick x xs s1)
  note K = kinvD [OF k] and C = kcoreD [OF kinvD(1) [OF k]]
  let ?k = "ky (queuetab s)" and ?k1 = "ky (queuetab s1)"
  have dist: "distinct (x # xs)" using qrel_rep [OF C(1,9)] tick(1) by (simp add: qrep_def)
  have kx: "1 \<le> ?k x" and dk: "deltas_ok ?k (x # xs)" using ok tick(1) by (auto simp: sleep_ok_def)
  have k1: "?k1 = ?k(x := s32 (?k x - 1))" and sq: "sleepq s1 = sleepq s" by (simp_all add: tick(2))
  note T = tick_deltas [OF dk dist kx]
  have nn: "\<forall>y \<in> set (x # xs). 0 \<le> ?k1 y" using T(1) by (simp add: k1 deltas_ok_def)
  have "0 \<le> sum_list (map ?k xs)" using dk by (intro sum_list_nonneg) (auto simp: deltas_ok_def)
  then have "?k x \<le> 2147483647" using dk by (simp add: deltas_ok_def)
  then have w: "wake ?k1 0 (x # xs) = map (\<lambda>(p, t). (p, t - 1)) (sleepers s)"
    unfolding k1 sleepers_eq [OF K(1)] tick(1) using kx by (intro wake_tick [OF dist]) auto
  have mem: "(p, 0) \<in> set (wake ?k1 0 (x # xs))" if "(p, 1) \<in> set (sleepers s)" for p
    unfolding w using that by force
  show thesis
  proof (cases "?k1 x = 0")
    case True
    from wakeup_result [OF tick(3)] obtain L' where
      1: "kinv (wakeup s1) L'" "L' (sleepq s1) = not_due s1 L" "sleepq (wakeup s1) = sleepq s1"
        "\<And>y. y \<in> set (not_due s1 L) \<Longrightarrow> ky (queuetab (wakeup s1)) y = ?k1 y"
        "\<And>y. y \<in> set (due s1 L) \<Longrightarrow> on_cpu_or_ready (wakeup s1) y" by blast
    have nd: "not_due s1 L = dropWhile (\<lambda>y. ?k1 y \<le> 0) (x # xs)"
      and du: "due s1 L = takeWhile (\<lambda>y. ?k1 y \<le> 0) (x # xs)"
      by (simp_all add: not_due_def due_def sq tick(1))
    have "sleepers (wakeup s1) = wake ?k1 0 (not_due s1 L)"
      using sleepers_eq [OF kinvD(1) [OF 1(1)]] 1(2,3) wake_cong [OF 1(4)] by simp
    also have "\<dots> = filter (\<lambda>(p, t). 0 < t) (map (\<lambda>(p, t). (p, t - 1)) (sleepers s))"
      unfolding nd wake_not_due [OF nn] w ..
    finally have sl: "sleepers (wakeup s1) = \<dots>" .
    have "deltas_ok ?k1 (not_due s1 L)"
      unfolding nd using T(1) by (intro deltas_ok_drop) (simp add: k1)
    then have "deltas_ok (ky (queuetab (wakeup s1))) (not_due s1 L)"
      using deltas_ok_cong [OF 1(4)] by simp
    moreover have "1 \<le> ky (queuetab (wakeup s1)) (hd (not_due s1 L))" if "not_due s1 L \<noteq> []"
      using that 1(4) [of "hd (not_due s1 L)"] hd_dropWhile [of "\<lambda>y. ?k1 y \<le> 0" "x # xs"]
      unfolding nd by simp
    ultimately have "sleep_ok (wakeup s1) L'" using 1(2,3) by (simp add: sleep_ok_def)
    moreover have "on_cpu_or_ready (wakeup s1) p" if "(p, 1) \<in> set (sleepers s)" for p
      using 1(5) wake_due [OF nn mem [OF that]] by (simp add: du)
    ultimately show thesis using that [OF _ _ _] 1(1) sl tick(4) True by simp
  next
    case False
    then have pos: "0 < ?k1 x" using nn by simp
    then have flt: "filter (\<lambda>(p, t). 0 < t) (wake ?k1 0 (x # xs)) = wake ?k1 0 (x # xs)"
      using wake_not_due [OF nn] by simp
    have e: "clk_sleepers s = s1" using tick(4) False by simp
    have "sleepers s1 = wake ?k1 0 (x # xs)" using sleepers_eq [OF kinvD(1) [OF tick(3)]] sq tick(1) by simp
    then have "sleepers s1 = filter (\<lambda>(p, t). 0 < t) (map (\<lambda>(p, t). (p, t - 1)) (sleepers s))"
      by (simp only: flt w [symmetric])
    moreover have "sleep_ok s1 L" using T(1) pos by (simp add: sleep_ok_def sq tick(1) k1)
    moreover have False if "(p, 1) \<in> set (sleepers s)" for p
      using wake_due [OF nn mem [OF that]] pos by simp
    ultimately show thesis using that [of L] tick(3) e by blast
  qed
qed

lemma sleep_ok_cong:
  assumes "sleep_ok s L" "sleepq s' = sleepq s" "L' (sleepq s) = L (sleepq s)"
    "\<And>x. x \<in> set (L (sleepq s)) \<Longrightarrow> ky (queuetab s') x = ky (queuetab s) x"
  shows "sleep_ok s' L'"
  using assms(1-3) deltas_ok_cong [OF assms(4)] assms(4) [OF hd_in_set] by (auto simp: sleep_ok_def)

theorem clkhandler_tick:
  assumes k: "kinv s L" and ok: "sleep_ok s L"
  shows "\<exists>L'. kinv (clkhandler True s) L' \<and> sleep_ok (clkhandler True s) L' \<and>
    sleepers (clkhandler True s) = filter (\<lambda>(p, t). 0 < t) (map (\<lambda>(p, t). (p, t - 1)) (sleepers s)) \<and>
    (\<forall>p. (p, 1) \<in> set (sleepers s) \<longrightarrow> on_cpu_or_ready (clkhandler True s) p)"
proof -
  let ?s = "clk_count s"
  have k0: "kinv ?s L" using k by (simp add: clk_count_kinv)
  have ok0: "sleep_ok ?s L" using ok by (simp add: sleep_ok_def clk_count_sleepers)
  from clk_sleepers_tick [OF k0 ok0] obtain L1 where
    1: "kinv (clk_sleepers ?s) L1" "sleep_ok (clk_sleepers ?s) L1"
      "sleepers (clk_sleepers ?s) = filter (\<lambda>(p, t). 0 < t) (map (\<lambda>(p, t). (p, t - 1)) (sleepers s))"
      "\<And>p. (p, 1) \<in> set (sleepers s) \<Longrightarrow> on_cpu_or_ready (clk_sleepers ?s) p"
    by (auto simp: clk_count_sleepers)
  from clk_preempt_kinv [OF 1(1)] obtain L2 where
    2: "kinv (clk_preempt (clk_sleepers ?s)) L2" "sleepers (clk_preempt (clk_sleepers ?s)) = sleepers (clk_sleepers ?s)"
      "L2 (sleepq (clk_sleepers ?s)) = L1 (sleepq (clk_sleepers ?s))"
      "sleepq (clk_preempt (clk_sleepers ?s)) = sleepq (clk_sleepers ?s)"
      "\<And>x. x \<in> set (L1 (sleepq (clk_sleepers ?s))) \<Longrightarrow>
         ky (queuetab (clk_preempt (clk_sleepers ?s))) x = ky (queuetab (clk_sleepers ?s)) x"
      "\<And>x. x \<in> {0..<NPROC} \<Longrightarrow> on_cpu_or_ready (clk_preempt (clk_sleepers ?s)) x = on_cpu_or_ready (clk_sleepers ?s) x"
    by blast
  have "sleep_ok (clk_preempt (clk_sleepers ?s)) L2"
    by (rule sleep_ok_cong [OF 1(2) 2(4)]) (fact 2(3), rule 2(5))
  moreover have "p \<in> {0..<NPROC}" if "(p, 1) \<in> set (sleepers s)" for p
  proof -
    have "p \<in> set (map fst (sleepers s))" using that by force
    then have "p \<in> set (L (sleepq s))" by (simp only: sleepers_eq [OF kinvD(1) [OF k]] fst_wake)
    then show ?thesis by (rule sleeping_state(1) [OF kinvD(1) [OF k]])
  qed
  ultimately show ?thesis
    using 1 2 by (intro exI [of _ L2]) (auto simp: clkhandler_def)
qed

section \<open>A sleeping process wakes up on time\<close>

lemma sleep_okI:
  assumes "deltas_ok k (us @ p # vs)" "0 < key" "delta_scan k0 key xs = (us, vs, r)" "k p = r"
    "xs \<noteq> [] \<Longrightarrow> 1 \<le> k0 (hd xs)" "\<And>x. x \<in> set us \<Longrightarrow> k x = k0 x" "0 \<le> r"
  shows "1 \<le> k (hd (us @ p # vs))"
proof (cases us)
  case Nil
  then have "r = key" using assms(3) by (cases xs) (auto split: if_splits prod.splits)
  then show ?thesis using Nil assms(2,4) by simp
next
  case (Cons u us')
  then have "xs \<noteq> []" "hd xs = u" using delta_scan_split [OF assms(3)] by auto
  then show ?thesis using Cons assms(5,6) by simp
qed

theorem sleepms_result:
  assumes k: "kinv s L" and c: "currpid s \<noteq> NULLPROC" and ok: "sleep_ok s L" and n: "0 < n" "n \<le> 2147483647"
  obtains L' where "fst (sleepms n s) = OK" "kinv (snd (sleepms n s)) L'" "sleep_ok (snd (sleepms n s)) L'"
    "sleepers (snd (sleepms n s)) =
       takeWhile (\<lambda>(x, u). u \<le> n) (sleepers s) @ (currpid s, n) # dropWhile (\<lambda>(x, u). u \<le> n) (sleepers s)"
proof -
  note C = kcoreD [OF kinvD(1) [OF k]]
  let ?xs = "L (sleepq s)" and ?k = "ky (queuetab s)" and ?c = "currpid s"
  obtain us vs r where d: "delta_scan ?k n ?xs = (us, vs, r)"
    by (cases "delta_scan ?k n ?xs") auto
  from insertd_sleep [OF k c disjI1 [OF refl] d] obtain qt where
    o: "insertd ?c (sleepq s) n s = (OK, s\<lparr>queuetab := qt\<rparr>)"
    and kk: "kcore (set_state ?c PR_SLEEP (s\<lparr>queuetab := qt\<rparr>)) (L(sleepq s := us @ ?c # vs)) {}"
    and kq: "ky qt = delta_keys ?k ?c r vs" .
  let ?s = "set_state ?c PR_SLEEP (s\<lparr>queuetab := qt\<rparr>)" and ?L = "L(sleepq s := us @ ?c # vs)"
  have dis: "distinct ?xs" and cn: "?c \<notin> set ?xs"
    using qrel_rep [OF C(1,9)] queue_iff_state(2) [OF kinvD(1) [OF k] kinvD(5) [OF k]] kinvD(4) [OF k]
    by (auto simp: qrep_def)
  have dk: "deltas_ok ?k ?xs" and hd1: "?xs \<noteq> [] \<Longrightarrow> 1 \<le> ?k (hd ?xs)" using ok by (auto simp: sleep_ok_def)
  note w = delta_insert_wake [OF dk _ n(2) cn dis d]
  have r: "0 \<le> r" using delta_scan_nonneg [OF _ _ n(2) d, of 0] dk n(1) by (auto simp: deltas_ok_def)
  have kr: "ky qt ?c = r" "\<And>x. x \<in> set us \<Longrightarrow> ky qt x = ?k x"
    using cn dis delta_scan_split [OF d] unfolding kq by (cases vs; auto simp: delta_keys_def)+
  have sok: "sleep_ok ?s ?L"
    using sleep_okI [OF _ n(1) d kr(1) hd1 kr(2) r] w(2) n(1) by (simp add: sleep_ok_def kq)
  have sl: "sleepers ?s = takeWhile (\<lambda>(x, u). u \<le> n) (sleepers s) @ (?c, n) # dropWhile (\<lambda>(x, u). u \<le> n) (sleepers s)"
    using w(1) n(1) sleepers_eq [OF kk] sleepers_eq [OF kinvD(1) [OF k]] by (simp add: kq)
  have "sems_ok ?s ?L" using sems_ok_other_queue [OF kinvD(1) [OF k] _ _ kinvD(2) [OF k]] by simp
  from resched_sleepers [OF kk _ this] obtain L' where
    L': "kinv (resched ?s) L'" "L' (sleepq ?s) = ?L (sleepq ?s)" "sleepers (resched ?s) = sleepers ?s"
    "\<And>x. x \<in> set (?L (sleepq ?s)) \<Longrightarrow> ky (queuetab (resched ?s)) x = ky (queuetab ?s) x" "sleepq (resched ?s) = sleepq ?s"
    using kinvD(3) [OF k] by auto
  have e: "sleepms n s = (OK, resched ?s)" using o n(1) by (simp add: sleepms_def)
  have "sleep_ok (resched ?s) L'" by (rule sleep_ok_cong [OF sok L'(5)]) (fact L'(2), rule L'(4))
  with that L'(1,3) sl e show thesis by simp
qed

text \<open>With \<open>t\<close> milliseconds left, \<open>t\<close> clock interrupts wake the process, and not fewer.\<close>

theorem ticks_wake:
  assumes "kinv s L" "sleep_ok s L" "(p, int t) \<in> set (sleepers s)"
  shows "j < t \<Longrightarrow> (p, int (t - j)) \<in> set (sleepers ((clkhandler True ^^ j) s))"
    "0 < t \<Longrightarrow> on_cpu_or_ready ((clkhandler True ^^ t) s) p"
proof -
  have ind: "\<exists>L'. kinv ((clkhandler True ^^ j) s) L' \<and> sleep_ok ((clkhandler True ^^ j) s) L' \<and>
      (p, int (t - j)) \<in> set (sleepers ((clkhandler True ^^ j) s))" if "j < t" for j
    using that
  proof (induction j)
    case 0
    then show ?case using assms by auto
  next
    case (Suc j)
    then obtain L' where L': "kinv ((clkhandler True ^^ j) s) L'" "sleep_ok ((clkhandler True ^^ j) s) L'"
      "(p, int (t - j)) \<in> set (sleepers ((clkhandler True ^^ j) s))" by auto
    have t: "int (t - Suc j) = int (t - j) - 1" using Suc.prems by simp
    have "(p, int (t - Suc j)) \<in> (\<lambda>(p, t). (p, t - 1)) ` set (sleepers ((clkhandler True ^^ j) s))"
      unfolding t by (rule rev_image_eqI [OF L'(3)]) simp
    then have "(p, int (t - Suc j)) \<in> set (filter (\<lambda>(p, t). 0 < t)
        (map (\<lambda>(p, t). (p, t - 1)) (sleepers ((clkhandler True ^^ j) s))))" using Suc.prems by simp
    then show ?case using clkhandler_tick [OF L'(1,2)] unfolding funpow.simps o_apply by metis
  qed
  then show "j < t \<Longrightarrow> (p, int (t - j)) \<in> set (sleepers ((clkhandler True ^^ j) s))" by blast
  assume t: "0 < t"
  then obtain m where m: "t = Suc m" by (cases t) auto
  from ind [of m] m obtain L' where "kinv ((clkhandler True ^^ m) s) L'" "sleep_ok ((clkhandler True ^^ m) s) L'"
    "(p, 1) \<in> set (sleepers ((clkhandler True ^^ m) s))" by auto
  then show "on_cpu_or_ready ((clkhandler True ^^ t) s) p" using clkhandler_tick m by auto
qed

end
