(* ===== verification/Message.thy ===== *)
theory Message
  imports Clock
begin

text \<open>
  Message passing between processes: \<^verbatim>\<open>system/send.c\<close>, \<^verbatim>\<open>receive.c\<close>, \<^verbatim>\<open>recvclr.c\<close> and
  \<^verbatim>\<open>recvtime.c\<close>. Each process has a one-message buffer, \<open>prmsg\<close> guarded by \<open>prhasmsg\<close>.

  A receive that blocks is split where the process loses the processor: the first part leaves a
  \<open>frame\<close> behind, and the second part (\<open>receive_ret\<close>, \<open>recvtime_ret\<close>) runs when the process is
  scheduled again. Results are \<^typ>\<open>umsg32\<close> words, so that \<^verbatim>\<open>SYSERR\<close> and \<^verbatim>\<open>TIMEOUT\<close> are
  the words \<open>-1\<close> and \<open>-3\<close>.
\<close>

section \<open>Operations\<close>

definition send :: "int \<Rightarrow> umsg32 \<Rightarrow> kernel \<Rightarrow> int \<times> kernel" where
  "send pid msg s =
     (if isbadpid (proctab s) pid then (SYSERR, s)
      else if prhasmsg (proctab s pid) then (SYSERR, s)
      else
        let s1 = upd_proc pid (\<lambda>e. e\<lparr>prmsg := msg, prhasmsg := True\<rparr>) s in
        if prstate (proctab s1 pid) = PR_RECV then (OK, snd (ready pid s1))
        else if prstate (proctab s1 pid) = PR_RECTIM then
          (OK, snd (ready pid (snd (unsleep pid s1))))
        else (OK, s1))"

definition receive_ret :: "kernel \<Rightarrow> umsg32 \<times> kernel" where
  "receive_ret s =
     (let msg = prmsg (proctab s (currpid s))
      in (msg, upd_proc (currpid s) (\<lambda>e. e\<lparr>prhasmsg := False\<rparr>) s))"

definition receive :: "kernel \<Rightarrow> umsg32 option \<times> kernel" where
  "receive s =
     (if prhasmsg (proctab s (currpid s)) = False
      then resume_point s (resched (set_state (currpid s) PR_RECV s)) F_receive receive_ret
      else (case receive_ret s of (m, t) \<Rightarrow> (Some m, t)))"

definition recvclr :: "kernel \<Rightarrow> umsg32 \<times> kernel" where
  "recvclr s =
     (if prhasmsg (proctab s (currpid s)) = True
      then (prmsg (proctab s (currpid s)), upd_proc (currpid s) (\<lambda>e. e\<lparr>prhasmsg := False\<rparr>) s)
      else (1, s))"

definition recvtime_ret :: "kernel \<Rightarrow> umsg32 \<times> kernel" where
  "recvtime_ret s =
     (if prhasmsg (proctab s (currpid s))
      then (prmsg (proctab s (currpid s)), upd_proc (currpid s) (\<lambda>e. e\<lparr>prhasmsg := False\<rparr>) s)
      else (- 3, s))"

definition recvtime :: "int \<Rightarrow> kernel \<Rightarrow> umsg32 option \<times> kernel" where
  "recvtime maxwait s =
     (if maxwait < 0 then (Some (- 1), s)
      else if prhasmsg (proctab s (currpid s)) = False then
        (case insertd (currpid s) (sleepq s) maxwait s of (r, s1) \<Rightarrow>
           if r = SYSERR then (Some (- 1), s1)
           else resume_point s (resched (set_state (currpid s1) PR_RECTIM s1)) F_recvtime recvtime_ret)
      else (case recvtime_ret s of (m, t) \<Rightarrow> (Some m, t)))"

section \<open>Updates of the message buffer\<close>

lemma kcore_upd_msg:
  assumes k: "kcore s L X" and f: "\<And>e. prstate (f e) = prstate e" "\<And>e. prsem (f e) = prsem e" "\<And>e. prprio (f e) = prprio e"
    and m: "msg_ok (upd_proc p f s) X"
  shows "kcore (upd_proc p f s) L X"
proof -
  note C = kcoreD [OF k]
  have "placed (upd_proc p f s) L X = placed s L X"
    by (rule placed_cong) (auto simp: same_q_def upd_proc_def f)
  then show ?thesis using C m
    by (auto simp: kcore_def qrel_def qids_ok_def is_head_def cur_ok_def prio_ok_def upd_proc_def f)
qed

lemma kinv_upd_msg:
  assumes k: "kinv s L" and f: "\<And>e. prstate (f e) = prstate e" "\<And>e. prsem (f e) = prsem e" "\<And>e. prprio (f e) = prprio e"
    and m: "msg_ok (upd_proc p f s) {}"
  shows "kinv (upd_proc p f s) L"
proof -
  have "sems_ok (upd_proc p f s) L = sems_ok s L" by (rule sems_ok_cong) (auto simp: upd_proc_def)
  then show ?thesis
    using kinvD [OF k] kcore_upd_msg [OF _ f m] by (auto simp: kinv_def upd_proc_def f)
qed

text \<open>Emptying the buffer is safe for a process that is not inside \<^verbatim>\<open>receive\<close>.\<close>

lemma take_msg_kinv:
  assumes "kinv s L" "pframe s p \<noteq> Some F_receive"
  shows "kinv (upd_proc p (\<lambda>e. e\<lparr>prhasmsg := False\<rparr>) s) L"
proof (rule kinv_upd_msg [OF assms(1)])
  show "msg_ok (upd_proc p (\<lambda>e. e\<lparr>prhasmsg := False\<rparr>) s) {}"
    using kcoreD(11) [OF kinvD(1) [OF assms(1)]] assms(2) by (auto simp: msg_ok_def upd_proc_def)
qed simp_all

lemma receive_ret_kinv: "kinv s L \<Longrightarrow> pframe s (currpid s) \<noteq> Some F_receive \<Longrightarrow> kinv (snd (receive_ret s)) L"
  by (simp add: receive_ret_def Let_def take_msg_kinv)

lemma recvtime_ret_kinv: "kinv s L \<Longrightarrow> pframe s (currpid s) \<noteq> Some F_receive \<Longrightarrow> kinv (snd (recvtime_ret s)) L"
  by (simp add: recvtime_ret_def take_msg_kinv)

lemma recvclr_kinv: "kinv s L \<Longrightarrow> pframe s (currpid s) \<noteq> Some F_receive \<Longrightarrow> kinv (snd (recvclr s)) L"
  by (simp add: recvclr_def take_msg_kinv)

section \<open>Sending keeps the invariant\<close>

abbreviation (input) deliver :: "int \<Rightarrow> umsg32 \<Rightarrow> kernel \<Rightarrow> kernel" where
  "deliver p m s \<equiv> upd_proc p (\<lambda>e. e\<lparr>prmsg := m, prhasmsg := True\<rparr>) s"

lemma deliver_kcore:
  assumes "kcore s L X" "prstate (proctab s p) = PR_RECV \<Longrightarrow> p \<in> X"
  shows "kcore (deliver p m s) L X"
proof (rule kcore_upd_msg [OF assms(1)])
  show "msg_ok (deliver p m s) X"
    using kcoreD(11) [OF assms(1)] assms(2) by (auto simp: msg_ok_def upd_proc_def)
qed simp_all

lemma sems_ok_upd_proc [simp]: "sems_ok (upd_proc p f s) L = sems_ok s L"
  by (rule sems_ok_cong) (auto simp: upd_proc_def)

lemma unsleep_ready_kinv:
  assumes k: "kinv s L" and p: "\<not> isbadpid (proctab s) p" and st: "prstate (proctab s p) = PR_RECTIM"
  shows "\<exists>L'. kinv (snd (ready p (snd (unsleep p s)))) L'"
proof -
  note K = kinvD [OF k]
  from unsleep_kcore [OF K(1) isbadpid_range [OF p] disjI2 [OF st]] obtain us vs qt where
    u: "L (sleepq s) = us @ p # vs" "unsleep p s = (OK, s\<lparr>queuetab := qt\<rparr>)"
      "kcore (s\<lparr>queuetab := qt\<rparr>) (L(sleepq s := us @ vs)) {p}" by metis
  have sm: "sems_ok (s\<lparr>queuetab := qt\<rparr>) (L(sleepq s := us @ vs))"
    using sems_ok_other_queue [OF K(1) _ _ K(2)] by simp
  from ready_kinv [OF u(3) _ _ sm] p K(3) st have "\<exists>L'. kinv (snd (ready p (s\<lparr>queuetab := qt\<rparr>))) L'"
    by (auto simp: wakeable_def)
  with u(2) show ?thesis by simp
qed

lemma send_cases:
  assumes k: "kinv s L"
  obtains (bad) "send p m s = (SYSERR, s)" "isbadpid (proctab s) p \<or> prhasmsg (proctab s p)"
  | (recv) xs where "send p m s = (OK, snd (ready p (deliver p m s)))" "prstate (proctab s p) = PR_RECV"
      "kcore (deliver p m s) L {p}" "kinv (snd (send p m s)) (L(readylist s := xs))"
      "\<not> isbadpid (proctab s) p" "\<not> prhasmsg (proctab s p)"
  | (rectim) L' where "send p m s = (OK, snd (ready p (snd (unsleep p (deliver p m s)))))"
      "prstate (proctab s p) = PR_RECTIM" "kinv (snd (send p m s)) L'" "kinv (deliver p m s) L"
      "\<not> isbadpid (proctab s) p" "\<not> prhasmsg (proctab s p)"
  | (other) "send p m s = (OK, deliver p m s)" "kinv (deliver p m s) L"
      "prstate (proctab s p) \<noteq> PR_RECV" "prstate (proctab s p) \<noteq> PR_RECTIM"
      "\<not> isbadpid (proctab s) p" "\<not> prhasmsg (proctab s p)"
proof -
  note K = kinvD [OF k]
  let ?s = "deliver p m s"
  have st: "prstate (proctab ?s p) = prstate (proctab s p)" "isbadpid (proctab ?s) p = isbadpid (proctab s) p"
    by (simp_all add: upd_proc_def isbadpid_def)
  have fl: "ndefers ?s = ndefers s" "readylist ?s = readylist s" by (simp_all add: upd_proc_def)
  consider "isbadpid (proctab s) p \<or> prhasmsg (proctab s p)"
    | (ok) "\<not> isbadpid (proctab s) p" "\<not> prhasmsg (proctab s p)" by blast
  then show thesis
  proof cases
    case 1
    then show thesis using bad by (auto simp: send_def)
  next
    case ok
    have d: "kinv ?s L" if "prstate (proctab s p) \<noteq> PR_RECV"
      using that kcoreD(11) [OF K(1)] by (intro kinv_upd_msg [OF k]) (auto simp: msg_ok_def upd_proc_def)
    consider "prstate (proctab s p) = PR_RECV" | "prstate (proctab s p) = PR_RECTIM"
      | "prstate (proctab s p) \<noteq> PR_RECV" "prstate (proctab s p) \<noteq> PR_RECTIM" by blast
    then show thesis
    proof cases
      case 1
      have "kcore s L {p}" using 1 by (intro kcore_curr_transit K(1)) (simp add: home_def)
      then have c: "kcore ?s L {p}" by (rule deliver_kcore) simp
      have w: "wakeable ?s p" by (simp add: wakeable_def upd_proc_def)
      have e: "send p m s = (OK, snd (ready p ?s))" using ok 1 st by (simp add: send_def Let_def)
      obtain xs where "kinv (snd (ready p ?s)) (L(readylist s := xs))"
        by (rule ready_kinv [OF c _ _ _ w]) (use ok K(2,3) fl in \<open>simp_all add: st\<close>)
      with recv [OF e 1 c] e ok show thesis by simp
    next
      case 2
      have e: "send p m s = (OK, snd (ready p (snd (unsleep p ?s))))" using ok 2 st by (simp add: send_def Let_def)
      have "kinv ?s L" using d 2 by simp
      from unsleep_ready_kinv [OF this, of p] ok 2 st obtain L' where "kinv (snd (send p m s)) L'" by (auto simp: e)
      with rectim [OF e 2] \<open>kinv ?s L\<close> ok show thesis by simp
    next
      case 3
      then show thesis using other d ok st by (simp add: send_def Let_def)
    qed
  qed
qed

theorem send_kinv:
  assumes k: "kinv s L"
  shows "\<exists>L'. kinv (snd (send p m s)) L'"
  by (rule send_cases [OF k, of p m]) (use k in auto)

section \<open>Receiving keeps the invariant\<close>

lemma blocked_state:
  assumes k: "kcore (set_state (currpid s) st s) L {}" and nd: "ndefers s = 0" and c: "currpid s \<in> {0..<NPROC}"
    and st: "st \<noteq> PR_CURR" "st \<noteq> PR_READY" and f: "switch_frame (set_state (currpid s) st s) s'"
    and s': "s' = resched (set_state (currpid s) st s)"
  shows "prstate (proctab s' (currpid s)) = st" "prhasmsg (proctab s' (currpid s)) = prhasmsg (proctab s (currpid s))"
    "pframe s' = pframe s"
  using resched_other_state [OF k, of "currpid s"] nd c st switch_frameD(8,26) [OF f]
  by (simp_all add: s')

theorem receive_kinv:
  assumes k: "kinv s L" and c: "currpid s \<noteq> NULLPROC" and fr: "pframe s (currpid s) = None"
  shows "\<exists>L'. kinv (snd (receive s)) L'"
proof (cases "prhasmsg (proctab s (currpid s))")
  case True
  have "snd (receive s) = snd (receive_ret s)" using True by (simp add: receive_def split_beta)
  then show ?thesis using k receive_ret_kinv [OF k] fr by auto
next
  case False
  note K = kinvD [OF k]
  let ?s = "set_state (currpid s) PR_RECV s"
  from block_current_kinv [OF k c, of PR_RECV] False obtain xs where
    b: "kinv (resched ?s) (L(readylist s := xs))" and f: "switch_frame ?s (resched ?s)" by auto
  have "kcore s L (insert (currpid s) {})" using kcore_curr_transit [OF K(1,6)] .
  from kcore_park [OF this _ c, of PR_RECV] False have kc: "kcore ?s L {}" by simp
  note B = blocked_state [OF kc K(3,5) _ _ f refl]
  have "kinv (snd (resume_point s (resched ?s) F_receive receive_ret)) (L(readylist s := xs))"
    by (rule resume_point_kinv [OF b]) (use receive_ret_kinv [OF b] fr B False in auto)
  with False show ?thesis by (auto simp: receive_def)
qed

theorem recvtime_kinv:
  assumes k: "kinv s L" and c: "currpid s \<noteq> NULLPROC" and fr: "pframe s (currpid s) = None"
  shows "\<exists>L'. kinv (snd (recvtime n s)) L'"
proof (cases "n < 0 \<or> prhasmsg (proctab s (currpid s))")
  case True
  then have "snd (recvtime n s) = s \<or> snd (recvtime n s) = snd (recvtime_ret s)"
    by (auto simp: recvtime_def split_beta)
  then show ?thesis using k recvtime_ret_kinv [OF k] fr by auto
next
  case False
  obtain us vs r where d: "delta_scan (ky (queuetab s)) n (L (sleepq s)) = (us, vs, r)"
    by (cases "delta_scan (ky (queuetab s)) n (L (sleepq s))") auto
  from insertd_sleep [OF k c disjI2 [OF refl] d] obtain qt where
    o: "insertd (currpid s) (sleepq s) n s = (OK, s\<lparr>queuetab := qt\<rparr>)"
    and kk: "kcore (set_state (currpid s) PR_RECTIM (s\<lparr>queuetab := qt\<rparr>)) (L(sleepq s := us @ currpid s # vs)) {}" .
  let ?s = "set_state (currpid s) PR_RECTIM (s\<lparr>queuetab := qt\<rparr>)"
  have "sems_ok (s\<lparr>queuetab := qt\<rparr>) (L(sleepq s := us @ currpid s # vs))"
    using sems_ok_other_queue [OF kinvD(1) [OF k] _ _ kinvD(2) [OF k]] by simp
  with resched_kinv [OF kk] kinvD(3) [OF k] obtain L' where
    b: "kinv (resched ?s) L'" and f: "switch_frame ?s (resched ?s)" by auto
  have "pframe (resched ?s) = pframe s" using switch_frameD(8) [OF f] by simp
  then have "kinv (snd (resume_point s (resched ?s) F_recvtime recvtime_ret)) L'"
    by (intro resume_point_kinv [OF b]) (use recvtime_ret_kinv [OF b] fr in auto)
  with False o show ?thesis by (auto simp: recvtime_def)
qed

section \<open>What is delivered\<close>

text \<open>Without a message the caller of \<^verbatim>\<open>receive\<close> gives up the processor and waits in state \<^verbatim>\<open>PR_RECV\<close>;
  with one, the call takes it at once.\<close>

lemma receive_blocks:
  assumes k: "kinv s L" and c: "currpid s \<noteq> NULLPROC" and fr: "pframe s (currpid s) = None"
    and m: "\<not> prhasmsg (proctab s (currpid s))"
  shows "fst (receive s) = None" "currpid (snd (receive s)) \<noteq> currpid s"
    "prstate (proctab (snd (receive s)) (currpid s)) = PR_RECV" "\<not> prhasmsg (proctab (snd (receive s)) (currpid s))"
    "pframe (snd (receive s)) (currpid s) = Some F_receive"
proof -
  note K = kinvD [OF k]
  let ?s = "set_state (currpid s) PR_RECV s"
  from block_current_kinv [OF k c, of PR_RECV] m obtain xs where
    b: "kinv (resched ?s) (L(readylist s := xs))" and f: "switch_frame ?s (resched ?s)" by auto
  have "kcore s L (insert (currpid s) {})" using kcore_curr_transit [OF K(1,6)] .
  from kcore_park [OF this _ c, of PR_RECV] m have kc: "kcore ?s L {}" by simp
  note B = blocked_state [OF kc K(3,5) _ _ f refl]
  have n: "currpid (resched ?s) \<noteq> currpid s" using kinvD(4) [OF b] B(1) by auto
  have "receive s = (None, (resched ?s)\<lparr>pframe := (pframe (resched ?s))(currpid s := Some F_receive)\<rparr>)"
    using m n by (simp add: receive_def resume_point_def)
  then show "fst (receive s) = None" "currpid (snd (receive s)) \<noteq> currpid s"
    "prstate (proctab (snd (receive s)) (currpid s)) = PR_RECV" "\<not> prhasmsg (proctab (snd (receive s)) (currpid s))"
    "pframe (snd (receive s)) (currpid s) = Some F_receive"
    using n B m by simp_all
qed

lemma receive_at_once:
  "prhasmsg (proctab s (currpid s)) \<Longrightarrow>
   receive s = (Some (prmsg (proctab s (currpid s))), upd_proc (currpid s) (\<lambda>e. e\<lparr>prhasmsg := False\<rparr>) s)"
  by (simp add: receive_def receive_ret_def)

lemma pframe_queue_ops [simp]:
  "pframe (snd (insert_q p q k s)) = pframe s" "pframe (snd (getitem p s)) = pframe s" "pframe (snd (dequeue q s)) = pframe s"
  by (simp_all add: insert_q_def getitem_def dequeue_def getfirst_def Let_def split: option.split)

lemma pframe_resched [simp]: "pframe (resched s) = pframe s"
  using pframe_queue_ops(3) by (simp add: resched_def Let_def split_beta)

lemma pframe_send [simp]: "pframe (snd (send p m s)) = pframe s"
  by (simp add: send_def ready_def Let_def upd_proc_def unsleep_def)

text \<open>A process that is made ready gets the processor if its priority is above that of the current process and of all that are ready.\<close>

lemma ready_takes_cpu:
  assumes k: "kcore s L {p}" and p: "p \<in> {0..<NPROC}" "wakeable s p" "\<not> isbadpid (proctab s) p" "p \<noteq> currpid s"
    and c: "prstate (proctab s (currpid s)) = PR_CURR" and nd: "ndefers s = 0"
    and hi: "prprio (proctab s (currpid s)) < prprio (proctab s p)"
      "\<forall>q \<in> set (L (readylist s)). ky (queuetab s) q < prprio (proctab s p)"
  shows "currpid (snd (ready p s)) = p"
proof -
  let ?pr = "prprio (proctab s p)" and ?rl = "readylist s"
  from kcore_make_ready [OF k p(1,2)] obtain qt where
    i: "insert_q p ?rl ?pr (set_state p PR_READY s) = (OK, (set_state p PR_READY s)\<lparr>queuetab := qt\<rparr>)"
    and ky: "ky qt = (ky (queuetab s))(p := ?pr)"
    and k1: "kcore ((set_state p PR_READY s)\<lparr>queuetab := qt\<rparr>) (L(?rl := p # L ?rl)) {}"
    unfolding ins_desc_first [OF hi(2)] by auto
  let ?s = "(set_state p PR_READY s)\<lparr>queuetab := qt\<rparr>" and ?L = "L(?rl := p # L ?rl)"
  have "\<exists>xs. candidates ?s ?L = p # xs" using c p(4) hi(1) ky by (simp add: candidates_def ins_desc_below)
  then obtain xs where cand: "candidates ?s ?L = p # xs" by blast
  have "\<not> keeps_cpu ?s"
    using firstkey_max [OF kcoreD(1,8,6) [OF k1], of p] hi(1) p(4) ky by (auto simp: keeps_cpu_def)
  from resched_switch(2) [OF k1 _ this cand] show ?thesis using p(3) i nd by (simp add: ready_def Let_def)
qed

text \<open>A process that comes back from the blocking part of \<^verbatim>\<open>receive\<close> finds a message in its buffer:
  \<^verbatim>\<open>receive\<close> never returns a stale word.\<close>

theorem receive_has_message:
  assumes "kinv s L" "pframe s (currpid s) = Some F_receive"
  shows "prhasmsg (proctab s (currpid s))"
  using kcoreD(11) [OF kinvD(1) [OF assms(1)]] kinvD(4,5) [OF assms(1)] assms(2) by (force simp: msg_ok_def)

text \<open>A successful \<^verbatim>\<open>send\<close> puts the message into the buffer of the recipient and makes it runnable if
  it was waiting; a failed one changes nothing.\<close>

theorem send_delivers:
  assumes k: "kinv s L"
  shows "if isbadpid (proctab s) p \<or> prhasmsg (proctab s p) then send p m s = (SYSERR, s)
    else fst (send p m s) = OK \<and> prhasmsg (proctab (snd (send p m s)) p) \<and> prmsg (proctab (snd (send p m s)) p) = m \<and>
      (prstate (proctab s p) \<in> {PR_RECV, PR_RECTIM} \<longrightarrow> on_cpu_or_ready (snd (send p m s)) p) \<and>
      (\<forall>q. q \<noteq> p \<longrightarrow> prhasmsg (proctab (snd (send p m s)) q) = prhasmsg (proctab s q) \<and>
         prmsg (proctab (snd (send p m s)) q) = prmsg (proctab s q))"
  using k
proof (cases rule: send_cases [of _ _ p m])
  case bad
  then show ?thesis by simp
next
  case (recv xs)
  note K = kinvD [OF k]
  have c: "p \<noteq> currpid s" using K(4) recv(2) by auto
  have "ndefers (deliver p m s) = 0" "wakeable (deliver p m s) p" "\<not> isbadpid (proctab (deliver p m s)) p"
    "prstate (proctab (deliver p m s) (currpid (deliver p m s))) = PR_CURR" "p \<noteq> currpid (deliver p m s)"
    using K recv(5) c by (auto simp: upd_proc_def wakeable_def isbadpid_def)
  note E = ready_eligible [OF recv(3) this(3,1,2,4,5)]
  show ?thesis using recv(1,2,5,6) E by (auto simp: upd_proc_def)
next
  case (rectim L')
  note K = kinvD [OF rectim(4)]
  let ?s = "deliver p m s"
  have p: "\<not> isbadpid (proctab ?s) p" "prstate (proctab ?s p) = PR_RECTIM"
    using rectim(2,5) by (simp_all add: upd_proc_def isbadpid_def)
  from unsleep_kcore [OF K(1) isbadpid_range [OF p(1)] disjI2 [OF p(2)]] obtain us vs qt where
    u: "unsleep p ?s = (OK, ?s\<lparr>queuetab := qt\<rparr>)" "kcore (?s\<lparr>queuetab := qt\<rparr>) (L(sleepq ?s := us @ vs)) {p}" by metis
  have c: "p \<noteq> currpid ?s" using K(4) p(2) by auto
  have "ndefers (?s\<lparr>queuetab := qt\<rparr>) = 0" "wakeable (?s\<lparr>queuetab := qt\<rparr>) p" "\<not> isbadpid (proctab (?s\<lparr>queuetab := qt\<rparr>)) p"
    "prstate (proctab (?s\<lparr>queuetab := qt\<rparr>) (currpid (?s\<lparr>queuetab := qt\<rparr>))) = PR_CURR" "p \<noteq> currpid (?s\<lparr>queuetab := qt\<rparr>)"
    using K p c by (auto simp: wakeable_def)
  note E = ready_eligible [OF u(2) this(3,1,2,4,5)]
  show ?thesis using rectim(1,5,6) u(1) E by (auto simp: upd_proc_def)
next
  case other
  then show ?thesis by (auto simp: upd_proc_def)
qed

end
