(* ===== verification/Frames.thy ===== *)
theory Frames
  imports Message
begin

text \<open>
  What scheduling, semaphores, the clock and message passing leave alone: the memory, the process
  counters, the tables of the buffer pools and ports, and the fields of a process table entry that
  \<^verbatim>\<open>create\<close> fills in. The relation \<open>quiet\<close> says so; it holds of every state, whether or not
  the invariant does, and composes along the calls.
\<close>

definition quiet :: "kernel \<Rightarrow> kernel \<Rightarrow> bool" where
  "quiet s s' \<longleftrightarrow>
     kmem s' = kmem s \<and> prcount s' = prcount s \<and> nextpid s' = nextpid s \<and> nextsem s' = nextsem s \<and> devlog s' = devlog s \<and>
     (\<forall>p q. pframe s' p = Some (F_kill q) \<longrightarrow> pframe s p = Some (F_kill q)) \<and>
     buftab s' = buftab s \<and> nbpools s' = nbpools s \<and> ptfree s' = ptfree s \<and> porttab s' = porttab s \<and>
     ptnextid s' = ptnextid s \<and> marks s' = marks s \<and> nmarks s' = nmarks s \<and> mkmutex s' = mkmutex s \<and>
     (\<forall>p. prstkbase (proctab s' p) = prstkbase (proctab s p) \<and> prstklen (proctab s' p) = prstklen (proctab s p) \<and>
        prparent (proctab s' p) = prparent (proctab s p) \<and> prdesc (proctab s' p) = prdesc (proctab s p) \<and>
        prname (proctab s' p) = prname (proctab s p))"

named_theorems quiet_ops \<open>operations that are quiet\<close>

lemma quiet_refl [simp]: "quiet s s"
  by (simp add: quiet_def)

lemma quiet_trans: "quiet s t \<Longrightarrow> quiet t u \<Longrightarrow> quiet s u"
  by (simp add: quiet_def)

lemma quietD:
  assumes "quiet s s'"
  shows "kmem s' = kmem s" "prcount s' = prcount s" "nextpid s' = nextpid s" "devlog s' = devlog s"
    "buftab s' = buftab s" "nbpools s' = nbpools s" "ptfree s' = ptfree s" "porttab s' = porttab s"
    "ptnextid s' = ptnextid s" "marks s' = marks s" "nmarks s' = nmarks s" "mkmutex s' = mkmutex s"
    "prstkbase (proctab s' p) = prstkbase (proctab s p)" "prstklen (proctab s' p) = prstklen (proctab s p)"
    "prparent (proctab s' p) = prparent (proctab s p)" "prdesc (proctab s' p) = prdesc (proctab s p)"
    "nextsem s' = nextsem s" "pframe s' p = Some (F_kill q) \<Longrightarrow> pframe s p = Some (F_kill q)"
  using assms by (simp_all add: quiet_def)

text \<open>Stores that are quiet, in any position of a sequence of stores.\<close>

lemma quiet_stores [simp]:
  "quiet s (t\<lparr>queuetab := qt\<rparr>) = quiet s t" "quiet s (t\<lparr>kstat := x\<rparr>) = quiet s t"
  "quiet s (t\<lparr>attempt := b\<rparr>) = quiet s t" "quiet s (t\<lparr>ndefers := n\<rparr>) = quiet s t"
  "quiet s (t\<lparr>currpid := n\<rparr>) = quiet s t" "quiet s (t\<lparr>preempt := k\<rparr>) = quiet s t"
  "quiet s (t\<lparr>clktime := k\<rparr>) = quiet s t" "quiet s (t\<lparr>count1000 := k\<rparr>) = quiet s t"
  "quiet s (upd_sem i g t) = quiet s t" "quiet s (set_state p st t) = quiet s t"
  "quiet s (upd_proc p (\<lambda>e. e\<lparr>prhasmsg := False\<rparr>) t) = quiet s t"
  "quiet s (upd_proc p (\<lambda>e. e\<lparr>prmsg := m, prhasmsg := True\<rparr>) t) = quiet s t"
  "quiet s (upd_proc p (\<lambda>e. e\<lparr>prstate := st, prsem := i\<rparr>) t) = quiet s t"
  "quiet s (upd_proc p (\<lambda>e. e\<lparr>prprio := pr\<rparr>) t) = quiet s t"
  by (auto simp: quiet_def upd_defs)

section \<open>Queues and scheduling\<close>

lemma quiet_queue [quiet_ops]:
  "quiet s t \<Longrightarrow> quiet s (snd (getitem p t))" "quiet s t \<Longrightarrow> quiet s (snd (enqueue p q t))"
  "quiet s t \<Longrightarrow> quiet s (snd (insert_q p q k t))" "quiet s t \<Longrightarrow> quiet s (snd (insertd p q k t))"
  by (auto simp: getitem_def enqueue_def insert_q_def insertd_def Let_def split: option.splits)

lemma quiet_getfirst [quiet_ops]: "quiet s t \<Longrightarrow> quiet s (snd (getfirst q t))"
  by (auto simp: getfirst_def intro: quiet_queue)

lemma quiet_dequeue [quiet_ops]: "quiet s t \<Longrightarrow> quiet s (snd (dequeue q t))"
  using quiet_getfirst [of s t q] by (auto simp: dequeue_def Let_def split: prod.splits)

lemma quiet_resched [quiet_ops]:
  assumes "quiet s t"
  shows "quiet s (resched t)"
proof -
  define t1 where "t1 = (if prstate (proctab t (currpid t)) = PR_CURR
    then snd (insert_q (currpid t) (readylist t) (prprio (proctab t (currpid t))) (set_state (currpid t) PR_READY t)) else t)"
  have "quiet s t1" using assms by (simp add: t1_def quiet_ops)
  then have "quiet s (snd (dequeue (readylist t1) t1))" by (rule quiet_dequeue)
  then show ?thesis
    using assms by (cases "dequeue (readylist t1) t1") (simp add: resched_def Let_def t1_def [symmetric])
qed

lemma quiet_ready [quiet_ops]: "quiet s t \<Longrightarrow> quiet s (snd (ready p t))"
  by (simp add: ready_def Let_def quiet_ops)

lemma quiet_cntl [quiet_ops]: "quiet s t \<Longrightarrow> quiet s (snd (resched_cntl d t))"
  by (simp add: resched_cntl_def Let_def quiet_ops)

lemma quiet_sched [quiet_ops]:
  "quiet s t \<Longrightarrow> quiet s (snd (resume p t))" "quiet s t \<Longrightarrow> quiet s (snd (yield t))"
  "quiet s t \<Longrightarrow> quiet s (snd (chprio p n t))"
  by (simp_all add: resume_def yield_def chprio_def Let_def quiet_ops)

lemma quiet_frame: "quiet s t \<Longrightarrow> \<forall>q. f \<noteq> Some (F_kill q) \<Longrightarrow> quiet s (t\<lparr>pframe := (pframe t)(p := f)\<rparr>)"
  by (simp add: quiet_def)

lemma quiet_resume_point [quiet_ops]:
  assumes "quiet s t" "\<And>u. quiet s u \<Longrightarrow> quiet s (snd (k u))" "\<forall>q. f \<noteq> F_kill q"
  shows "quiet s (snd (resume_point r t f k))"
proof (cases "currpid t = currpid r")
  case True
  then show ?thesis using assms(2) [OF assms(1)] by (cases "k t") (simp add: resume_point_def)
next
  case False
  then show ?thesis using quiet_frame [OF assms(1), of "Some f"] assms(3) by (simp add: resume_point_def)
qed

lemma quiet_suspend [quiet_ops]: "quiet s t \<Longrightarrow> quiet s (snd (suspend p t))"
  by (auto simp: suspend_def Let_def suspend_ret_def intro!: quiet_ops)

section \<open>Semaphores\<close>

lemma quiet_while:
  assumes "while_option b c t = Some u" "quiet s t" "\<And>v. b v \<Longrightarrow> quiet s v \<Longrightarrow> quiet s (c v)"
  shows "quiet s u"
  using assms(1) by (rule while_option_rule [where P = "quiet s", rotated]) (use assms in auto)

lemma quiet_signal_one [quiet_ops]: "quiet s t \<Longrightarrow> quiet s (signal_one i t)"
proof -
  assume "quiet s t"
  then have "quiet s (snd (dequeue q (upd_sem i f t)))" for q f by (simp add: quiet_ops)
  then show ?thesis using \<open>quiet s t\<close>
    by (auto simp: signal_one_def Let_def split: prod.splits) (metis quiet_ready snd_conv)
qed

lemma quiet_wait [quiet_ops]: "quiet s t \<Longrightarrow> quiet s (snd (wait i t))"
  by (simp add: wait_def Let_def quiet_ops)

lemma quiet_signal [quiet_ops]: "quiet s t \<Longrightarrow> quiet s (snd (signal i t))"
  by (simp add: signal_def quiet_ops)

lemma quiet_signal_loop [quiet_ops]: "quiet s t \<Longrightarrow> quiet s (signal_loop n i t)"
  by (induction n i t rule: signal_loop.induct) (simp_all add: quiet_ops)

lemma quiet_signaln [quiet_ops]: "quiet s t \<Longrightarrow> quiet s (snd (signaln i n t))"
  by (simp add: signaln_def Let_def quiet_ops)

text \<open>\<^verbatim>\<open>semcreate\<close> advances \<open>nextsem\<close> and is quiet otherwise.\<close>

lemma quiet_newsem: "quiet (s\<lparr>nextsem := n0\<rparr>) (t\<lparr>nextsem := n0\<rparr>) \<Longrightarrow> quiet (s\<lparr>nextsem := n0\<rparr>) ((snd (newsem_loop n t))\<lparr>nextsem := n0\<rparr>)"
  by (induction n t rule: newsem_loop.induct) (auto simp: Let_def quiet_def upd_sem_def)

lemma quiet_semcreate: "quiet (s\<lparr>nextsem := n0\<rparr>) ((snd (semcreate n s))\<lparr>nextsem := n0\<rparr>)"
proof -
  obtain i t where t: "newsem s = (i, t)" by force
  have "quiet (s\<lparr>nextsem := n0\<rparr>) (t\<lparr>nextsem := n0\<rparr>)"
    using quiet_newsem [where s = s and t = s and n = "nat NSEM"] t by (simp add: newsem_def)
  moreover have "(upd_sem i f t)\<lparr>nextsem := n0\<rparr> = upd_sem i f (t\<lparr>nextsem := n0\<rparr>)" for f by (simp add: upd_sem_def)
  ultimately show ?thesis using t by (simp add: semcreate_def)
qed

lemma quiet_semdelete_body: "quiet s t \<Longrightarrow> quiet s (semdelete_body i t)"
proof -
  assume "quiet s t"
  then have "quiet s (snd (getfirst q (upd_sem i f t)))" for q f by (simp add: quiet_ops)
  then show ?thesis
    by (auto simp: semdelete_body_def Let_def split: prod.splits) (metis quiet_ready snd_conv)
qed

lemma quiet_semdelete [quiet_ops]: "quiet s t \<Longrightarrow> quiet s (snd (semdelete i t))"
proof -
  assume q: "quiet s t"
  have "quiet s v" if "semdelete_loop i u = Some v" "quiet s u" for u v
    using that quiet_while [OF _ that(2) quiet_semdelete_body] by (auto simp: semdelete_loop_def)
  then show ?thesis using q by (auto simp: semdelete_def Let_def quiet_ops split: option.splits)
qed

lemma quiet_semreset [quiet_ops]: "quiet s t \<Longrightarrow> quiet s (snd (semreset i n t))"
proof -
  assume q: "quiet s t"
  have "quiet s v" if l: "semreset_loop qu u = Some v" and u: "quiet s u" for u v qu
  proof -
    from l obtain w where w: "while_option (\<lambda>(pid, s). pid \<noteq> EMPTY) (\<lambda>(pid, s). getfirst qu (snd (ready pid s)))
        (getfirst qu u) = Some w" "v = snd w" by (auto simp: semreset_loop_def)
    from w(1) have "quiet s (snd w)"
      by (rule while_option_rule [where P = "\<lambda>x. quiet s (snd x)", rotated]) (auto simp: u quiet_ops)
    with w(2) show ?thesis by simp
  qed
  then show ?thesis using q by (auto simp: semreset_def Let_def quiet_ops split: option.splits)
qed

section \<open>Clock and messages\<close>

lemma quiet_unsleep [quiet_ops]: "quiet s t \<Longrightarrow> quiet s (snd (unsleep p t))"
  by (simp add: unsleep_def Let_def quiet_ops)

lemma quiet_sleepms [quiet_ops]: "quiet s t \<Longrightarrow> quiet s (snd (sleepms n t))"
  using quiet_queue(4) [of s t "currpid t" "sleepq t" n]
  by (cases "insertd (currpid t) (sleepq t) n t") (simp add: sleepms_def Let_def quiet_ops)

lemma quiet_sleep [quiet_ops]: "quiet s t \<Longrightarrow> quiet s (snd (sleep n t))"
  by (simp add: sleep_def quiet_ops)

lemma quiet_wakeup [quiet_ops]: "quiet s t \<Longrightarrow> quiet s (wakeup t)"
proof -
  assume q: "quiet s t"
  have body: "quiet s (case dequeue (sleepq v) v of (pid, s1) \<Rightarrow> snd (ready pid s1))" if "quiet s v" for v
    using quiet_dequeue [OF that, of "sleepq v"] by (auto simp: quiet_ops split: prod.splits)
  have "quiet s v" if l: "wakeup_loop u = Some v" and u: "quiet s u" for u v
    using l u unfolding wakeup_loop_def by (rule quiet_while) (simp only: Let_def, rule body)
  then show ?thesis using q by (auto simp: wakeup_def Let_def quiet_ops split: option.splits)
qed

lemma quiet_clkhandler [quiet_ops]: "quiet s t \<Longrightarrow> quiet s (clkhandler ovf t)"
  by (simp add: clkhandler_def clk_preempt_def clk_sleepers_def clk_count_def Let_def quiet_ops)

lemma quiet_send [quiet_ops]: "quiet s t \<Longrightarrow> quiet s (snd (send p m t))"
  by (simp add: send_def Let_def quiet_ops)

lemma quiet_receive [quiet_ops]:
  "quiet s t \<Longrightarrow> quiet s (snd (receive_ret t))" "quiet s t \<Longrightarrow> quiet s (snd (recvtime_ret t))"
  "quiet s t \<Longrightarrow> quiet s (snd (receive t))" "quiet s t \<Longrightarrow> quiet s (snd (recvclr t))"
proof -
  show 1: "quiet s t \<Longrightarrow> quiet s (snd (receive_ret t))" for t by (simp add: receive_ret_def Let_def)
  show "quiet s t \<Longrightarrow> quiet s (snd (recvtime_ret t))" by (simp add: recvtime_ret_def)
  show "quiet s t \<Longrightarrow> quiet s (snd (receive t))"
    using 1 [of t] by (auto simp: receive_def split_beta intro!: quiet_ops 1)
  show "quiet s t \<Longrightarrow> quiet s (snd (recvclr t))" by (simp add: recvclr_def)
qed

lemma quiet_recvtime [quiet_ops]: "quiet s t \<Longrightarrow> quiet s (snd (recvtime n t))"
  using quiet_queue(4) [of s t "currpid t" "sleepq t" n] quiet_receive(2) [of s t]
  by (auto simp: recvtime_def split: prod.splits intro!: quiet_ops)

end
