(* ===== verification/Memory.thy ===== *)
theory Memory
  imports Kernel_State
begin

text \<open>
  The low-level memory manager: \<^verbatim>\<open>system/getmem.c\<close>, \<^verbatim>\<open>getstk.c\<close>, \<^verbatim>\<open>freemem.c\<close>,
  \<^verbatim>\<open>meminit.c\<close> and the macros \<^verbatim>\<open>roundmb\<close>, \<^verbatim>\<open>truncmb\<close> and \<^verbatim>\<open>freestk\<close> of
  \<^verbatim>\<open>include/memory.h\<close>.

  The free list lives in the free memory itself: a \<^verbatim>\<open>struct memblk\<close> at address \<open>a\<close> keeps
  \<open>mnext\<close> in the word at \<open>a\<close> and \<open>mlength\<close> in the word at \<open>a + 4\<close>. The walks along the list
  are \<^term>\<open>while_option\<close> loops on those words; an operation on a list that never ends is
  \<^term>\<open>None\<close>. \<open>mem_ok m bs\<close> says that the memory holds the free list \<open>bs\<close>, and every
  operation is shown to act on \<open>bs\<close>, and on the set of free bytes, as an allocator should.
\<close>

section \<open>Operations\<close>

definition roundmb :: "nat \<Rightarrow> nat" where
  "roundmb x = unat (and (7 + (of_nat x :: 32 word)) (not 7))"

definition truncmb :: "nat \<Rightarrow> nat" where
  "truncmb x = unat (and (of_nat x :: 32 word) (not 7))"

definition mnext :: "memory \<Rightarrow> nat \<Rightarrow> nat" where
  "mnext m a = mem m a"

definition mlength :: "memory \<Rightarrow> nat \<Rightarrow> nat" where
  "mlength m a = mem m (a + 4)"

definition set_mnext :: "nat \<Rightarrow> nat \<Rightarrow> memory \<Rightarrow> memory" where
  "set_mnext a v m = m\<lparr>mem := (mem m)(a := v)\<rparr>"

definition set_mlength :: "nat \<Rightarrow> nat \<Rightarrow> memory \<Rightarrow> memory" where
  "set_mlength a v m = m\<lparr>mem := (mem m)(a + 4 := v)\<rparr>"

text \<open>Subtraction of \<^verbatim>\<open>uint32\<close> values.\<close>

definition sub32 :: "nat \<Rightarrow> nat \<Rightarrow> nat" where
  "sub32 x y = u32 (x + (4294967296 - u32 y))"

definition getmem_scan :: "memory \<Rightarrow> nat \<Rightarrow> (nat \<times> nat) option" where
  "getmem_scan m nbytes =
     while_option (\<lambda>(prev, cur). cur \<noteq> 0 \<and> mlength m cur < nbytes)
       (\<lambda>(prev, cur). (cur, mnext m cur)) (memlist m, mnext m (memlist m))"

definition getmem :: "nat \<Rightarrow> memory \<Rightarrow> (nat option \<times> memory) option" where
  "getmem nbytes0 m =
     (if nbytes0 = 0 then Some (None, m)
      else
        let nbytes = roundmb nbytes0 in
        case getmem_scan m nbytes of
          None \<Rightarrow> None
        | Some (prev, cur) \<Rightarrow>
            if cur = 0 then Some (None, m)
            else if mlength m cur = nbytes then
              let m1 = set_mnext prev (mnext m cur) m
              in Some (Some cur, set_mlength (memlist m) (sub32 (mlength m1 (memlist m)) nbytes) m1)
            else
              let leftover = u32 (cur + nbytes);
                  m1 = set_mnext prev leftover m;
                  m2 = set_mnext leftover (mnext m1 cur) m1;
                  m3 = set_mlength leftover (sub32 (mlength m2 cur) nbytes) m2
              in Some (Some cur, set_mlength (memlist m) (sub32 (mlength m3 (memlist m)) nbytes) m3))"

definition getstk_scan :: "memory \<Rightarrow> nat \<Rightarrow> (nat \<times> nat \<times> nat \<times> nat) option" where
  "getstk_scan m nbytes =
     while_option (\<lambda>(prev, cur, fits, fitsprev). cur \<noteq> 0)
       (\<lambda>(prev, cur, fits, fitsprev).
          (cur, mnext m cur,
           if mlength m cur \<ge> nbytes then (cur, prev) else (fits, fitsprev)))
       (memlist m, mnext m (memlist m), 0, 0)"

definition getstk :: "nat \<Rightarrow> memory \<Rightarrow> (nat option \<times> memory) option" where
  "getstk nbytes0 m =
     (if nbytes0 = 0 then Some (None, m)
      else
        let nbytes = roundmb nbytes0 in
        case getstk_scan m nbytes of
          None \<Rightarrow> None
        | Some (prev, cur, fits, fitsprev) \<Rightarrow>
            if fits = 0 then Some (None, m)
            else
              let (m1, fits1) =
                (if nbytes = mlength m fits then (set_mnext fitsprev (mnext m fits) m, fits)
                 else let m' = set_mlength fits (sub32 (mlength m fits) nbytes) m
                      in (m', u32 (fits + mlength m' fits)));
                  m2 = set_mlength (memlist m) (sub32 (mlength m1 (memlist m)) nbytes) m1
              in Some (Some (sub32 (u32 (fits1 + nbytes)) 4), m2))"

definition freemem_scan :: "memory \<Rightarrow> nat \<Rightarrow> (nat \<times> nat) option" where
  "freemem_scan m block =
     while_option (\<lambda>(prev, nxt). nxt \<noteq> 0 \<and> nxt < block)
       (\<lambda>(prev, nxt). (nxt, mnext m nxt)) (memlist m, mnext m (memlist m))"

definition freemem_link :: "nat \<Rightarrow> nat \<Rightarrow> nat \<Rightarrow> nat \<Rightarrow> nat \<Rightarrow> memory \<Rightarrow> memory" where
  "freemem_link prev nxt tp block0 nbytes m0 =
     (let m1 = set_mlength (memlist m0) (u32 (mlength m0 (memlist m0) + nbytes)) m0;
          (block, m2) =
            (if tp = block0 then (prev, set_mlength prev (u32 (mlength m1 prev + nbytes)) m1)
             else (block0, set_mnext prev block0 (set_mlength block0 nbytes (set_mnext block0 nxt m1))))
      in if u32 (block + mlength m2 block) = nxt then
           let m3 = set_mlength block (u32 (mlength m2 block + mlength m2 nxt)) m2
           in set_mnext block (mnext m3 nxt) m3
         else m2)"

definition freemem :: "nat \<Rightarrow> nat \<Rightarrow> memory \<Rightarrow> (int \<times> memory) option" where
  "freemem block nbytes0 m =
     (if nbytes0 = 0 \<or> block < minheap m \<or> block > maxheap m then Some (SYSERR, m)
      else
        let nbytes = roundmb nbytes0 in
        case freemem_scan m block of
          None \<Rightarrow> None
        | Some (prev, nxt) \<Rightarrow>
            let tp = (if prev = memlist m then 0 else u32 (prev + mlength m prev)) in
            if (prev \<noteq> memlist m \<and> block < tp) \<or> (nxt \<noteq> 0 \<and> u32 (block + nbytes) > nxt)
            then Some (SYSERR, m)
            else Some (OK, freemem_link prev nxt tp block nbytes m))"

definition freestk :: "nat \<Rightarrow> nat \<Rightarrow> memory \<Rightarrow> (int \<times> memory) option" where
  "freestk p len m = freemem (u32 (sub32 p (roundmb len) + 4)) (roundmb len) m"

abbreviation (input) MAXADDR :: nat where "MAXADDR \<equiv> 2684354560"

definition meminit :: "nat \<Rightarrow> memory \<Rightarrow> memory" where
  "meminit endaddr m0 =
     (let m1 = m0\<lparr>minheap := endaddr, maxheap := MAXADDR\<rparr>;
          m2 = set_mnext (memlist m1) (minheap m1) m1;
          memptr = mnext m2 (memlist m2);
          m3 = set_mnext memptr 0 m2;
          len = sub32 (maxheap m3) (minheap m3);
          m4 = set_mlength memptr len m3
      in set_mlength (memlist m4) len m4)"

section \<open>Rounding\<close>

lemma and_not7: "unat (and w (not 7) :: 32 word) = unat w div 8 * 8"
  using unat_and_not_mask [of w 3] by (simp add: mask_eq_exp_minus_1)

lemma roundmb_eq: "roundmb x = u32 (7 + x) div 8 * 8"
  unfolding roundmb_def and_not7
  by (simp add: unat_word_ariths unat_of_nat u32_def mod_simps take_bit_eq_mod)

lemma truncmb_eq: "truncmb x = u32 x div 8 * 8"
  unfolding truncmb_def and_not7 by (simp add: unat_of_nat u32_def take_bit_eq_mod)

lemma roundmb_dvd [simp]: "8 dvd roundmb x"
  by (simp add: roundmb_eq)

lemma roundmb_bounds:
  assumes "x < 4294967289"
  shows "x \<le> roundmb x" "roundmb x < x + 8" "0 < x \<Longrightarrow> 0 < roundmb x"
  using assms by (simp_all add: roundmb_eq)

lemma roundmb_id: "8 dvd x \<Longrightarrow> x < 4294967296 \<Longrightarrow> roundmb x = x"
  by (auto simp: roundmb_eq u32_def elim!: dvdE)

lemma roundmb_idem: "roundmb (roundmb x) = roundmb x"
proof -
  have "roundmb x \<le> u32 (7 + x)" by (simp add: roundmb_eq)
  also have "\<dots> < 4294967296" by simp
  finally show ?thesis by (simp add: roundmb_id)
qed

lemma sub32_id [simp]: "y \<le> x \<Longrightarrow> x < 4294967296 \<Longrightarrow> sub32 x y = x - y"
  by (simp add: sub32_def u32_def mod_if)

section \<open>The free list\<close>

text \<open>A free list is the list of its blocks, address and length, in address order. Two free blocks
  are never adjacent.\<close>

type_synonym blocks = "(nat \<times> nat) list"

fun blks :: "heap \<Rightarrow> nat \<Rightarrow> blocks \<Rightarrow> nat \<Rightarrow> bool" where
  "blks h a [] z \<longleftrightarrow> a = z"
| "blks h a ((b, l) # bs) z \<longleftrightarrow> a = b \<and> h (b + 4) = l \<and> blks h (h b) bs z"

fun blocks_ok :: "nat \<Rightarrow> nat \<Rightarrow> blocks \<Rightarrow> bool" where
  "blocks_ok lo hi [] \<longleftrightarrow> True"
| "blocks_ok lo hi ((b, l) # bs) \<longleftrightarrow>
     lo \<le> b \<and> 0 < l \<and> 8 dvd l \<and> b + l \<le> hi \<and> blocks_ok (b + l + 1) hi bs"

definition total :: "blocks \<Rightarrow> nat" where
  "total bs = sum_list (map snd bs)"

definition free_bytes :: "blocks \<Rightarrow> nat set" where
  "free_bytes bs = (\<Union>(b, l) \<in> set bs. {b..<b + l})"

definition mem_ok :: "memory \<Rightarrow> blocks \<Rightarrow> bool" where
  "mem_ok m bs \<longleftrightarrow>
     memlist m \<noteq> 0 \<and> memlist m + 8 \<le> minheap m \<and> maxheap m < 4294967296 \<and>
     blocks_ok (minheap m) (maxheap m) bs \<and>
     blks (mem m) (memlist m) ((memlist m, total bs) # bs) 0"

lemma total_simps [simp]:
  "total [] = 0" "total ((b, l) # bs) = l + total bs" "total (us @ vs) = total us + total vs"
  by (simp_all add: total_def)

lemma free_bytes_simps [simp]:
  "free_bytes [] = {}" "free_bytes ((b, l) # bs) = {b..<b + l} \<union> free_bytes bs"
  "free_bytes (us @ vs) = free_bytes us \<union> free_bytes vs"
  by (auto simp: free_bytes_def)

lemma blks_append: "blks h a (us @ vs) z \<longleftrightarrow> (\<exists>y. blks h a us y \<and> blks h y vs z)"
  by (induction us arbitrary: a) auto

lemma blks_cong:
  "\<forall>b \<in> fst ` set bs. h' b = h b \<and> h' (b + 4) = h (b + 4) \<Longrightarrow> blks h' a bs z = blks h a bs z"
proof (induction bs arbitrary: a)
  case (Cons x bs)
  obtain b l where "x = (b, l)" by force
  with Cons.prems Cons.IH [of "h b"] show ?case by simp
qed simp

lemma blks_start: "blks h a bs z \<Longrightarrow> a = (case bs of [] \<Rightarrow> z | (b, l) # _ \<Rightarrow> b)"
  by (cases bs) auto

lemma blocks_ok_mono: "blocks_ok lo hi bs \<Longrightarrow> lo' \<le> lo \<Longrightarrow> blocks_ok lo' hi bs"
  by (cases bs) auto

lemma blocks_ok_hi:
  "blocks_ok lo hi bs \<Longrightarrow> \<forall>(b, l) \<in> set bs. b + l \<le> hi' \<Longrightarrow> blocks_ok lo hi' bs"
  by (induction bs arbitrary: lo) auto

lemma blocks_ok_mono_hi: "blocks_ok lo hi bs \<Longrightarrow> hi \<le> hi' \<Longrightarrow> blocks_ok lo hi' bs"
  by (induction bs arbitrary: lo) auto

lemma blocks_ok_mem:
  "blocks_ok lo hi bs \<Longrightarrow> (b, l) \<in> set bs \<Longrightarrow> lo \<le> b \<and> 8 \<le> l \<and> 8 dvd l \<and> b + l \<le> hi"
proof (induction bs arbitrary: lo)
  case (Cons x bs)
  obtain b' l' where x: "x = (b', l')" by force
  show ?case
  proof (cases "(b, l) = x")
    case True
    then show ?thesis using Cons.prems x dvd_imp_le [of 8 l] by simp
  next
    case False
    then show ?thesis using Cons.IH [of "b' + l' + 1"] Cons.prems x by auto
  qed
qed simp

lemma blocks_ok_append:
  "blocks_ok lo hi (us @ vs) \<longleftrightarrow>
     blocks_ok lo hi us \<and> blocks_ok (if us = [] then lo else fst (last us) + snd (last us) + 1) hi vs"
  by (induction us arbitrary: lo) (auto split: if_splits)

lemma blocks_ok_after:
  assumes "blocks_ok lo hi (us @ (b, l) # vs)" "(b', l') \<in> set vs"
  shows "b + l < b'" "b + 8 \<le> b'"
proof -
  have "blocks_ok (b + l + 1) hi vs" using assms(1) by (simp add: blocks_ok_append)
  from blocks_ok_mem [OF this assms(2)] show 1: "b + l < b'" by simp
  have "8 \<le> l" using blocks_ok_mem [OF assms(1), of b l] by simp
  with 1 show "b + 8 \<le> b'" by simp
qed

lemma blocks_ok_before:
  assumes "blocks_ok lo hi (us @ (b, l) # vs)" "(b', l') \<in> set us"
  shows "b' + l' < b" "b' + 8 \<le> b"
proof -
  obtain us1 us2 where us: "us = us1 @ (b', l') # us2" using split_list [OF assms(2)] by blast
  show "b' + l' < b" "b' + 8 \<le> b"
    using blocks_ok_after [of lo hi us1 b' l' "us2 @ (b, l) # vs" b l] assms(1) us by auto
qed

lemma total_le: "blocks_ok lo hi bs \<Longrightarrow> lo \<le> hi \<Longrightarrow> total bs \<le> hi - lo"
proof (induction bs arbitrary: lo)
  case (Cons x bs)
  obtain b l where x: "x = (b, l)" by force
  show ?case
  proof (cases bs)
    case Nil
    then show ?thesis using Cons.prems x by auto
  next
    case (Cons y ys)
    then have "b + l + 1 \<le> hi" using Cons.prems x by (cases y) auto
    with Cons.IH [of "b + l + 1"] Cons.prems x show ?thesis by auto
  qed
qed simp

lemma mem_okD:
  assumes "mem_ok m bs"
  shows "memlist m \<noteq> 0" "memlist m + 8 \<le> minheap m" "maxheap m < 4294967296"
    "blocks_ok (minheap m) (maxheap m) bs" "mem m (memlist m + 4) = total bs"
    "blks (mem m) (mem m (memlist m)) bs 0" "0 \<notin> fst ` set bs"
    "(b, l) \<in> set bs \<Longrightarrow> memlist m + 8 \<le> b"
  using assms blocks_ok_mem [of "minheap m" "maxheap m" bs] by (force simp: mem_ok_def)+

text \<open>The walks of \<^verbatim>\<open>getmem\<close> and \<^verbatim>\<open>freemem\<close> stop at the first block that the loop condition
  rejects.\<close>

definition adr :: "blocks \<Rightarrow> nat" where
  "adr bs = (case bs of [] \<Rightarrow> 0 | (b, _) # _ \<Rightarrow> b)"

lemma adr_simps [simp]: "adr [] = 0" "adr ((b, l) # bs) = b"
  by (simp_all add: adr_def)

lemma blks_adr: "blks h a bs 0 \<Longrightarrow> a = adr bs"
  by (auto dest: blks_start simp: adr_def split: list.splits)

lemma walk_scan:
  "blks h c bs 0 \<Longrightarrow> 0 \<notin> fst ` set bs \<Longrightarrow>
   while_option (\<lambda>(prev, cur). cur \<noteq> 0 \<and> P cur (h (cur + 4))) (\<lambda>(prev, cur). (cur, h cur)) (p, c) =
     Some (last (p # map fst (takeWhile (\<lambda>(b, l). P b l) bs)), adr (dropWhile (\<lambda>(b, l). P b l) bs))"
proof (induction bs arbitrary: p c)
  case (Cons x bs)
  obtain b l where x: "x = (b, l)" by force
  show ?case
  proof (cases "P b l")
    case True
    then show ?thesis using Cons.IH [of "h b" b] Cons.prems x by (subst while_option_step) auto
  next
    case False
    then show ?thesis using Cons.prems x by simp
  qed
qed simp

lemma getmem_scan_eq:
  assumes "mem_ok m bs"
  shows "getmem_scan m n =
    Some (last (memlist m # map fst (takeWhile (\<lambda>(b, l). l < n) bs)), adr (dropWhile (\<lambda>(b, l). l < n) bs))"
  using walk_scan [OF mem_okD(6) [OF assms] mem_okD(7) [OF assms], where P = "\<lambda>b l. l < n"]
  by (simp add: getmem_scan_def mnext_def mlength_def)

lemma freemem_scan_eq:
  assumes "mem_ok m bs"
  shows "freemem_scan m a =
    Some (last (memlist m # map fst (takeWhile (\<lambda>(b, l). b < a) bs)), adr (dropWhile (\<lambda>(b, l). b < a) bs))"
  using walk_scan [OF mem_okD(6) [OF assms] mem_okD(7) [OF assms], where P = "\<lambda>b l. b < a"]
  by (simp add: freemem_scan_def mnext_def)

section \<open>Relinking\<close>

text \<open>Every change an operation makes to the list starts at some node \<open>p\<close> and touches nothing below
  it; the head \<open>memlist\<close> is a node like the others.\<close>

lemma blks_splice:
  assumes "blks h a (us @ (p, lp) # vs) 0" "\<forall>b \<in> fst ` set us. b + 8 \<le> p" "\<forall>x < p. h' x = h x"
    "h' (p + 4) = lp'" "blks h' (h' p) vs' 0"
  shows "blks h' a (us @ (p, lp') # vs') 0"
proof -
  obtain y where y: "blks h a us y" "y = p" using assms(1) by (auto simp: blks_append)
  have "blks h' a us y" using y(1) assms(2,3) blks_cong [of us h' h a y] by force
  with y(2) assms(4,5) show ?thesis by (auto simp: blks_append)
qed

lemma blks_above:
  "blks h a bs z \<Longrightarrow> \<forall>b \<in> fst ` set bs. k \<le> b \<Longrightarrow> \<forall>x \<ge> k. h' x = h x \<Longrightarrow> blks h' a bs z"
  using blks_cong [of bs h' h a z] by force

definition prev_node :: "memory \<Rightarrow> blocks \<Rightarrow> nat" where
  "prev_node m us = last (memlist m # map fst us)"

lemma prev_node_split:
  assumes "mem_ok m (us @ vs)"
  obtains ns lp where "(memlist m, total (us @ vs)) # us = ns @ [(prev_node m us, lp)]"
    "\<forall>b \<in> fst ` set ns. b + 8 \<le> prev_node m us" "\<forall>b \<in> fst ` set vs. prev_node m us + 8 \<le> b"
    "us = [] \<and> ns = [] \<and> prev_node m us = memlist m \<or>
     (\<exists>us'. us = us' @ [(prev_node m us, lp)] \<and> ns = (memlist m, total (us @ vs)) # us')"
proof (cases us rule: rev_cases)
  case Nil
  then show thesis using that [of "[]" "total vs"] mem_okD(8) [OF assms] by (force simp: prev_node_def)
next
  case (snoc us' x)
  obtain p l where x: "x = (p, l)" by force
  note ok = mem_okD(4) [OF assms]
  have p: "prev_node m us = p" by (simp add: prev_node_def snoc x)
  have "\<forall>b \<in> fst ` set us'. b + 8 \<le> p"
    using blocks_ok_before(2) [of _ _ us' p l vs] ok snoc x by force
  moreover have "\<forall>b \<in> fst ` set vs. p + 8 \<le> b"
    using blocks_ok_after(2) [of _ _ us' p l vs] ok snoc x by force
  moreover have "memlist m + 8 \<le> p" using mem_okD(8) [OF assms, of p l] snoc x by simp
  ultimately show thesis
    using that [of "(memlist m, total (us @ vs)) # us'" l] by (simp add: prev_node_def snoc x)
qed

text \<open>Replacing what follows node \<open>prev_node m us\<close>, keeping its length field.\<close>

lemma relink:
  assumes m: "mem_ok m (us @ vs)" and h: "\<forall>x < prev_node m us. h x = mem m x"
    and p: "h (prev_node m us + 4) = mem m (prev_node m us + 4)"
    and vs': "blks h (h (prev_node m us)) vs' 0"
  shows "blks h (memlist m) ((memlist m, total (us @ vs)) # us @ vs') 0"
proof -
  from prev_node_split [OF m] obtain ns lp where
    ns: "(memlist m, total (us @ vs)) # us = ns @ [(prev_node m us, lp)]"
    and sp: "\<forall>b \<in> fst ` set ns. b + 8 \<le> prev_node m us" by metis
  have b: "blks (mem m) (memlist m) (ns @ (prev_node m us, lp) # vs) 0"
    using m ns unfolding mem_ok_def by (metis append.assoc append_Cons append_Nil)
  then have "mem m (prev_node m us + 4) = lp" by (auto simp: blks_append)
  with blks_splice [OF b sp h _ vs'] p have "blks h (memlist m) (ns @ (prev_node m us, lp) # vs') 0" by simp
  then show ?thesis using ns by (metis append.assoc append_Cons append_Nil)
qed

lemma set_total:
  assumes "blks h a ((a, t) # bs) 0" "\<forall>b \<in> fst ` set bs. a + 8 \<le> b"
  shows "blks (h(a + 4 := t')) a ((a, t') # bs) 0"
  using assms blks_cong [of bs "h(a + 4 := t')" h "h a" 0] by force

section \<open>Taking a block\<close>

definition carve_low :: "nat \<Rightarrow> nat \<Rightarrow> nat \<Rightarrow> blocks" where
  "carve_low n b l = (if l = n then [] else [(b + n, l - n)])"

definition carve_high :: "nat \<Rightarrow> nat \<Rightarrow> nat \<Rightarrow> blocks" where
  "carve_high n b l = (if l = n then [] else [(b, l - n)])"

lemma carve_blocks_ok:
  assumes "blocks_ok lo hi (us @ (b, l) # vs)" "n \<le> l" "0 < n" "8 dvd n"
  shows "blocks_ok lo hi (us @ carve_low n b l @ vs)" "blocks_ok lo hi (us @ carve_high n b l @ vs)"
proof -
  define lo1 where "lo1 = (if us = [] then lo else fst (last us) + snd (last us) + 1)"
  have a: "blocks_ok lo hi us" "lo1 \<le> b" "0 < l" "8 dvd l" "b + l \<le> hi" "blocks_ok (b + l + 1) hi vs"
    using assms(1) by (auto simp: blocks_ok_append lo1_def)
  have d: "8 dvd l - n" using a(4) assms(4) by (rule dvd_diff_nat)
  have "blocks_ok lo1 hi (carve_low n b l @ vs)" "blocks_ok lo1 hi (carve_high n b l @ vs)"
    using a d assms(2,3) by (auto simp: carve_low_def carve_high_def intro: blocks_ok_mono)
  with a(1) show "blocks_ok lo hi (us @ carve_low n b l @ vs)" "blocks_ok lo hi (us @ carve_high n b l @ vs)"
    by (simp_all add: blocks_ok_append lo1_def)
qed

lemma free_disjoint:
  assumes "blocks_ok lo hi (us @ (b, l) # vs)"
  shows "free_bytes us \<inter> {b..<b + l} = {}" "free_bytes vs \<inter> {b..<b + l} = {}"
proof -
  show "free_bytes us \<inter> {b..<b + l} = {}"
    using blocks_ok_before(1) [OF assms] by (fastforce simp: free_bytes_def)
  show "free_bytes vs \<inter> {b..<b + l} = {}"
    using blocks_ok_after(1) [OF assms] by (fastforce simp: free_bytes_def)
qed

lemma carve_bytes:
  assumes "blocks_ok lo hi (us @ (b, l) # vs)" "n \<le> l"
  shows "free_bytes (us @ carve_low n b l @ vs) = free_bytes (us @ (b, l) # vs) - {b..<b + n}"
    "free_bytes (us @ carve_high n b l @ vs) = free_bytes (us @ (b, l) # vs) - {b + l - n..<b + l}"
proof -
  have "{b..<b + n} \<subseteq> {b..<b + l}" "{b + l - n..<b + l} \<subseteq> {b..<b + l}" using assms(2) by auto
  moreover have "free_bytes (carve_low n b l) = {b..<b + l} - {b..<b + n}"
    "free_bytes (carve_high n b l) = {b..<b + l} - {b + l - n..<b + l}"
    using assms(2) by (auto simp: carve_low_def carve_high_def)
  ultimately show "free_bytes (us @ carve_low n b l @ vs) = free_bytes (us @ (b, l) # vs) - {b..<b + n}"
    "free_bytes (us @ carve_high n b l @ vs) = free_bytes (us @ (b, l) # vs) - {b + l - n..<b + l}"
    using free_disjoint [OF assms(1)] by auto
qed

lemma carve_total:
  "n \<le> l \<Longrightarrow> total (us @ carve_low n b l @ vs) = total (us @ (b, l) # vs) - n"
  "n \<le> l \<Longrightarrow> total (us @ carve_high n b l @ vs) = total (us @ (b, l) # vs) - n"
  by (auto simp: carve_low_def carve_high_def)

text \<open>An operation may write the list head and free memory, nothing else.\<close>

definition touches :: "memory \<Rightarrow> memory \<Rightarrow> nat set \<Rightarrow> bool" where
  "touches m m' A \<longleftrightarrow>
     m' = m\<lparr>mem := mem m'\<rparr> \<and> (\<forall>x. x \<notin> A \<and> x \<noteq> memlist m \<and> x \<noteq> memlist m + 4 \<longrightarrow> mem m' x = mem m x)"

lemma touchesI:
  "\<forall>x. x \<notin> A \<and> x \<noteq> memlist m \<and> x \<noteq> memlist m + 4 \<longrightarrow> h x = mem m x \<Longrightarrow> touches m (m\<lparr>mem := h\<rparr>) A"
  by (simp add: touches_def)

lemma block_bytes:
  assumes "blocks_ok lo hi bs" "(b, l) \<in> set bs" "i < 8"
  shows "b + i \<in> free_bytes bs"
proof -
  have "8 \<le> l" using blocks_ok_mem [OF assms(1,2)] by blast
  then have "b + i \<in> {b..<b + l}" using assms(3) by simp
  then show ?thesis using assms(2) unfolding free_bytes_def by blast
qed

lemma prev_node_bytes:
  assumes "mem_ok m (us @ vs)"
  shows "prev_node m us = memlist m \<or> {prev_node m us, prev_node m us + 4} \<subseteq> free_bytes us"
proof -
  from prev_node_split [OF assms] consider "prev_node m us = memlist m"
    | us' lp where "us = us' @ [(prev_node m us, lp)]" by metis
  then show ?thesis
  proof cases
    case 2
    have "blocks_ok (minheap m) (maxheap m) us" using mem_okD(4) [OF assms] by (simp add: blocks_ok_append)
    moreover have "(prev_node m us, lp) \<in> set us" by (subst 2) simp
    ultimately show ?thesis
      using block_bytes [of _ _ us "prev_node m us" lp 0] block_bytes [of _ _ us "prev_node m us" lp 4] by simp
  qed simp
qed

lemma prev_node_head:
  assumes "mem_ok m (us @ vs)"
  shows "prev_node m us = memlist m \<or> memlist m + 8 \<le> prev_node m us" "prev_node m us \<noteq> memlist m + 4"
    "prev_node m us = memlist m \<longleftrightarrow> us = []"
proof -
  from prev_node_split [OF assms] consider "us = []" "prev_node m us = memlist m"
    | us' lp where "us = us' @ [(prev_node m us, lp)]" by metis
  then have 1: "us = [] \<and> prev_node m us = memlist m \<or> us \<noteq> [] \<and> memlist m + 8 \<le> prev_node m us"
  proof cases
    case 2
    have "(prev_node m us, lp) \<in> set us" by (subst 2) simp
    with mem_okD(8) [OF assms, of "prev_node m us" lp] show ?thesis by auto
  qed simp
  then show "prev_node m us = memlist m \<or> memlist m + 8 \<le> prev_node m us" "prev_node m us \<noteq> memlist m + 4"
    "prev_node m us = memlist m \<longleftrightarrow> us = []" by auto
qed

lemma mem_okI:
  assumes m: "mem_ok m bs" and ok: "blocks_ok (minheap m) (maxheap m) bs'"
    and b: "blks h (memlist m) ((memlist m, t) # bs') 0"
  shows "mem_ok (m\<lparr>mem := h(memlist m + 4 := total bs')\<rparr>) bs'"
proof -
  have "\<forall>b \<in> fst ` set bs'. memlist m + 8 \<le> b"
    using blocks_ok_mem [OF ok] mem_okD(2) [OF m] by fastforce
  from set_total [OF b this] show ?thesis using m ok by (simp add: mem_ok_def)
qed

lemma total_lt: "mem_ok m bs \<Longrightarrow> total bs < 4294967296"
proof (cases bs)
  case (Cons x xs)
  assume m: "mem_ok m bs"
  then have "minheap m \<le> maxheap m" using blocks_ok_mem [OF mem_okD(4) [OF m], of "fst x" "snd x"] Cons by simp
  from total_le [OF mem_okD(4) [OF m] this] mem_okD(3) [OF m] show ?thesis by simp
qed simp

lemma mem_ok_block:
  assumes "mem_ok m (us @ (b, l) # vs)"
  shows "mem m (b + 4) = l" "blks (mem m) (mem m b) vs 0" "b + l < 4294967296" "l \<le> total (us @ (b, l) # vs)"
    "prev_node m us < b" "prev_node m us + 8 \<le> b" "\<forall>c \<in> fst ` set vs. b + l + 1 \<le> c" "8 \<le> l" "memlist m + 8 \<le> b"
proof -
  show "mem m (b + 4) = l" "blks (mem m) (mem m b) vs 0"
    using mem_okD(6) [OF assms] by (auto simp: blks_append)
  show "b + l < 4294967296" "8 \<le> l"
    using blocks_ok_mem [OF mem_okD(4) [OF assms], of b l] mem_okD(3) [OF assms] by auto
  show "prev_node m us + 8 \<le> b" using prev_node_split [OF assms] by (metis image_insert insertI1 list.simps(15) fst_conv)
  then show "prev_node m us < b" by simp
  show "\<forall>c \<in> fst ` set vs. b + l + 1 \<le> c" using blocks_ok_after(1) [OF mem_okD(4) [OF assms]] by force
  show "memlist m + 8 \<le> b" using mem_okD(8) [OF assms, of b l] by simp
qed simp

lemma take_low:
  assumes m: "mem_ok m (us @ (b, l) # vs)" and n: "n \<le> l" "0 < n" "8 dvd n"
    and h: "h = (if l = n then (mem m)(prev_node m us := mem m b)
                 else (mem m)(prev_node m us := b + n, b + n := mem m b, b + n + 4 := l - n))"
    and m': "m' = m\<lparr>mem := h(memlist m + 4 := total (us @ (b, l) # vs) - n)\<rparr>"
  shows "mem_ok m' (us @ carve_low n b l @ vs)" "touches m m' (free_bytes (us @ (b, l) # vs))"
proof -
  let ?p = "prev_node m us"
  note B = mem_ok_block [OF m]
  have d: "l = n \<or> 8 \<le> l - n"
    using n blocks_ok_mem [OF mem_okD(4) [OF m], of b l] dvd_diff_nat [of 8 l n] dvd_imp_le [of 8 "l - n"] by force
  have "\<forall>x \<ge> b + l + 1. h x = mem m x" using B(6) d n by (auto simp: h)
  from blks_above [OF B(2,7) this] have ab: "blks h (mem m b) vs 0" .
  have "h ?p = (if l = n then mem m b else b + n)" "l \<noteq> n \<Longrightarrow> h (b + n) = mem m b \<and> h (b + n + 4) = l - n"
    using B(6) n by (auto simp: h)
  then have "blks h (h ?p) (carve_low n b l @ vs) 0" using ab by (simp add: carve_low_def)
  moreover have "\<forall>x < ?p. h x = mem m x" "h (?p + 4) = mem m (?p + 4)" using B(6) n by (auto simp: h)
  ultimately have "blks h (memlist m) ((memlist m, total (us @ (b, l) # vs)) # us @ carve_low n b l @ vs) 0"
    by (intro relink [OF m])
  from mem_okI [OF m carve_blocks_ok(1) [OF mem_okD(4) [OF m] n] this]
  show "mem_ok m' (us @ carve_low n b l @ vs)" by (simp only: m' carve_total(1) [OF n(1)])
  have w: "\<forall>x. x \<notin> free_bytes (us @ (b, l) # vs) \<and> x \<noteq> memlist m \<longrightarrow> h x = mem m x"
    using prev_node_bytes [OF m] d n by (auto simp: h)
  show "touches m m' (free_bytes (us @ (b, l) # vs))"
    unfolding m' by (rule touchesI) (use w in auto)
qed

theorem getmem_result:
  assumes m: "mem_ok m bs" and n: "0 < n0" "n = roundmb n0" "0 < n"
  obtains (none) "\<forall>(b, l) \<in> set bs. l < n" "getmem n0 m = Some (None, m)"
  | (some) us b l vs m' where "bs = us @ (b, l) # vs" "\<forall>(b, l) \<in> set us. l < n" "n \<le> l"
    "getmem n0 m = Some (Some b, m')" "mem_ok m' (us @ carve_low n b l @ vs)" "touches m m' (free_bytes bs)"
proof (cases "dropWhile (\<lambda>(b, l). l < n) bs")
  case Nil
  then have "\<forall>(b, l) \<in> set bs. l < n" by simp
  moreover obtain q where "getmem_scan m n = Some (q, 0)" using getmem_scan_eq [OF m, of n] unfolding Nil by simp
  ultimately show thesis using none n by (simp add: getmem_def)
next
  case (Cons x vs)
  obtain b l where x: "x = (b, l)" by force
  define us where "us = takeWhile (\<lambda>(b, l). l < n) bs"
  have bs: "bs = us @ (b, l) # vs" using Cons x us_def by (metis takeWhile_dropWhile_id)
  have us: "\<forall>(b, l) \<in> set us. l < n" unfolding us_def using takeWhile_dropWhile_split(2) by fast
  have l: "n \<le> l" using dropWhile_hd [OF Cons] x by simp
  note M = m [unfolded bs]
  note B = mem_ok_block [OF M]
  have s: "getmem_scan m n = Some (prev_node m us, b)"
    using getmem_scan_eq [OF m, of n] Cons x by (simp add: us_def prev_node_def)
  define h where "h = (if l = n then (mem m)(prev_node m us := mem m b)
                 else (mem m)(prev_node m us := b + n, b + n := mem m b, b + n + 4 := l - n))"
  define m' where "m' = m\<lparr>mem := h(memlist m + 4 := total bs - n)\<rparr>"
  have "b + n < 4294967296" "l < 4294967296" using B(3) l by simp_all
  moreover have "h (memlist m + 4) = total bs"
    using B(9) mem_okD(5) [OF m] prev_node_head [OF M] n by (auto simp: h_def)
  moreover have "8 \<le> n" using n dvd_imp_le [of 8 n] by simp
  ultimately have "getmem n0 m = Some (Some b, m')"
    using s B(1,3,6,9) n l total_lt [OF m] prev_node_head(2) [OF M]
    by (auto simp: getmem_def Let_def mnext_def mlength_def set_mnext_def set_mlength_def m'_def h_def bs)
  with some [OF bs us l] take_low [OF M l n(3), of h m'] n(2) h_def m'_def bs show thesis by simp
qed

section \<open>Taking a stack\<close>

definition stk_more :: "nat \<times> nat \<times> nat \<times> nat \<Rightarrow> bool" where
  "stk_more = (\<lambda>(prev, cur, fits, fitsprev). cur \<noteq> 0)"

definition stk_step :: "heap \<Rightarrow> nat \<Rightarrow> nat \<times> nat \<times> nat \<times> nat \<Rightarrow> nat \<times> nat \<times> nat \<times> nat" where
  "stk_step h n = (\<lambda>(prev, cur, fits, fitsprev).
     (cur, h cur, if h (cur + 4) \<ge> n then (cur, prev) else (fits, fitsprev)))"

lemma stk_scan_none:
  "blks h c bs 0 \<Longrightarrow> 0 \<notin> fst ` set bs \<Longrightarrow> \<forall>(b, l) \<in> set bs. l < n \<Longrightarrow>
   \<exists>q. while_option stk_more (stk_step h n) (p, c, f, fp) = Some (q, 0, f, fp)"
proof (induction bs arbitrary: p c)
  case (Cons x bs)
  obtain b l where x: "x = (b, l)" by force
  have "while_option stk_more (stk_step h n) (p, c, f, fp) =
      while_option stk_more (stk_step h n) (b, h b, f, fp)"
    using Cons.prems x by (subst while_option_step) (auto simp: stk_step_def stk_more_def)
  then show ?case using Cons.IH [of "h b" b] Cons.prems x by auto
qed (simp add: stk_more_def)

lemma stk_scan_some:
  "blks h c (us @ (b, l) # vs) 0 \<Longrightarrow> 0 \<notin> fst ` set (us @ (b, l) # vs) \<Longrightarrow> n \<le> l \<Longrightarrow>
   \<forall>(b, l) \<in> set vs. l < n \<Longrightarrow>
   \<exists>q. while_option stk_more (stk_step h n) (p, c, f, fp) =
     Some (q, 0, b, last (p # map fst us))"
proof (induction us arbitrary: p c f fp)
  case Nil
  then show ?case using stk_scan_none [of h "h b" vs n b b p]
    by (subst while_option_step) (auto simp: stk_step_def stk_more_def)
next
  case (Cons x us)
  obtain b' l' where x: "x = (b', l')" by force
  have "while_option stk_more (stk_step h n) (p, c, f, fp) =
      while_option stk_more (stk_step h n)
        (b', h b', if h (b' + 4) \<ge> n then (b', p) else (f, fp))"
    using Cons.prems x by (subst while_option_step) (auto simp: stk_step_def stk_more_def)
  then show ?case using Cons.IH [of "h b'" b'] Cons.prems x by (cases "h (b' + 4) \<ge> n") auto
qed

lemma getstk_scan_step:
  "getstk_scan m n = while_option stk_more (stk_step (mem m) n)
     (memlist m, mem m (memlist m), 0, 0)"
  by (simp add: getstk_scan_def stk_step_def stk_more_def mnext_def mlength_def)

lemma last_fit:
  obtains (none) "\<forall>(b, l) \<in> set bs. l < n"
  | (some) us b l vs where "bs = us @ (b, l) # vs" "n \<le> l" "\<forall>(b, l) \<in> set vs. l < (n::nat)"
proof (cases "\<exists>x \<in> set bs. n \<le> snd x")
  case True
  then obtain us x vs where "bs = us @ x # vs" "n \<le> snd x" "\<forall>y \<in> set vs. \<not> n \<le> snd y"
    using split_list_last_prop_iff [of bs "\<lambda>x. n \<le> snd x"] by blast
  then show thesis using some [of us "fst x" "snd x" vs] by force
next
  case False
  then show thesis using none by force
qed

lemma prev_node_next:
  assumes "mem_ok m (us @ vs)"
  shows "mem m (prev_node m us) = adr vs"
proof -
  from prev_node_split [OF assms] obtain ns lp where
    ns: "(memlist m, total (us @ vs)) # us = ns @ [(prev_node m us, lp)]" by metis
  have "blks (mem m) (memlist m) (ns @ (prev_node m us, lp) # vs) 0"
    using assms ns unfolding mem_ok_def by (metis append.assoc append_Cons append_Nil)
  then show ?thesis by (auto simp: blks_append dest: blks_adr)
qed

lemma take_high:
  assumes m: "mem_ok m (us @ (b, l) # vs)" and n: "n \<le> l" "0 < n" "8 dvd n"
    and h: "h = (if l = n then (mem m)(prev_node m us := mem m b) else (mem m)(b + 4 := l - n))"
    and m': "m' = m\<lparr>mem := h(memlist m + 4 := total (us @ (b, l) # vs) - n)\<rparr>"
  shows "mem_ok m' (us @ carve_high n b l @ vs)" "touches m m' (free_bytes (us @ (b, l) # vs))"
proof -
  let ?p = "prev_node m us"
  note B = mem_ok_block [OF m]
  have "\<forall>x \<ge> b + l + 1. h x = mem m x" using B(6,8) n by (auto simp: h)
  from blks_above [OF B(2,7) this] have ab: "blks h (mem m b) vs 0" .
  have "h ?p = (if l = n then mem m b else b)" "l \<noteq> n \<Longrightarrow> h b = mem m b \<and> h (b + 4) = l - n"
    using B(6) prev_node_next [OF m] by (auto simp: h)
  then have "blks h (h ?p) (carve_high n b l @ vs) 0" using ab by (simp add: carve_high_def)
  moreover have "\<forall>x < ?p. h x = mem m x" "h (?p + 4) = mem m (?p + 4)" using B(6) n by (auto simp: h)
  ultimately have "blks h (memlist m) ((memlist m, total (us @ (b, l) # vs)) # us @ carve_high n b l @ vs) 0"
    by (intro relink [OF m])
  from mem_okI [OF m carve_blocks_ok(2) [OF mem_okD(4) [OF m] n] this]
  show "mem_ok m' (us @ carve_high n b l @ vs)" by (simp only: m' carve_total(2) [OF n(1)])
  have w: "\<forall>x. x \<notin> free_bytes (us @ (b, l) # vs) \<and> x \<noteq> memlist m \<longrightarrow> h x = mem m x"
    using prev_node_bytes [OF m] B(8) n by (auto simp: h)
  show "touches m m' (free_bytes (us @ (b, l) # vs))"
    unfolding m' by (rule touchesI) (use w in auto)
qed

theorem getstk_result:
  assumes m: "mem_ok m bs" and n: "0 < n0" "n = roundmb n0" "0 < n"
  obtains (none) "\<forall>(b, l) \<in> set bs. l < n" "getstk n0 m = Some (None, m)"
  | (some) us b l vs m' where "bs = us @ (b, l) # vs" "\<forall>(b, l) \<in> set vs. l < n" "n \<le> l"
    "getstk n0 m = Some (Some (b + l - 4), m')" "mem_ok m' (us @ carve_high n b l @ vs)" "touches m m' (free_bytes bs)"
proof (cases rule: last_fit [of bs n])
  case first: none
  from stk_scan_none [OF mem_okD(6) [OF m] mem_okD(7) [OF m] first] obtain q where
    "getstk_scan m n = Some (q, 0, 0, 0)" unfolding getstk_scan_step by blast
  then show thesis using none first n by (simp add: getstk_def)
next
  case fit: (some us b l vs)
  note M = m [unfolded fit(1)]
  note B = mem_ok_block [OF M]
  from stk_scan_some [OF mem_okD(6) [OF M] mem_okD(7) [OF M] fit(2,3)] obtain q where
    s: "getstk_scan m n = Some (q, 0, b, prev_node m us)" unfolding getstk_scan_step prev_node_def by blast
  define h where "h = (if l = n then (mem m)(prev_node m us := mem m b) else (mem m)(b + 4 := l - n))"
  define m' where "m' = m\<lparr>mem := h(memlist m + 4 := total bs - n)\<rparr>"
  have "h (memlist m + 4) = total bs"
    using B(9) mem_okD(5) [OF m] prev_node_head [OF M] n by (auto simp: h_def)
  then have "getstk n0 m = Some (Some (b + l - 4), m')"
    using s B(1,3,6,8,9) n fit(2) total_lt [OF m] prev_node_head(2) [OF M]
    by (auto simp: getstk_def Let_def mnext_def mlength_def set_mnext_def set_mlength_def m'_def h_def fit(1))
  with some [OF fit(1,3,2)] take_high [OF M fit(2) n(3), of h m'] n(2) h_def m'_def fit(1) show thesis by simp
qed

section \<open>Returning a block\<close>

text \<open>The block returned is merged with the free block that ends at it, and then with the one that
  starts at its end.\<close>

definition merge_low :: "blocks \<Rightarrow> nat \<Rightarrow> nat \<Rightarrow> blocks \<times> nat \<times> nat" where
  "merge_low us a n =
     (if us \<noteq> [] \<and> fst (last us) + snd (last us) = a
      then (butlast us, fst (last us), snd (last us) + n) else (us, a, n))"

definition merge_high :: "nat \<Rightarrow> nat \<Rightarrow> blocks \<Rightarrow> blocks" where
  "merge_high c k vs =
     (case vs of [] \<Rightarrow> [(c, k)] | (b, l) # ws \<Rightarrow> if c + k = b then (c, k + l) # ws else (c, k) # vs)"

definition link_low :: "heap \<Rightarrow> nat \<Rightarrow> blocks \<Rightarrow> nat \<Rightarrow> nat \<Rightarrow> nat \<Rightarrow> heap" where
  "link_low g p us a n nxt =
     (if us \<noteq> [] \<and> fst (last us) + snd (last us) = a then g(p + 4 := snd (last us) + n)
      else g(a := nxt, a + 4 := n, p := a))"

definition link_high :: "heap \<Rightarrow> nat \<Rightarrow> nat \<Rightarrow> blocks \<Rightarrow> heap" where
  "link_high h c k vs =
     (case vs of [] \<Rightarrow> h | (b, l) # ws \<Rightarrow> if c + k = b then h(c + 4 := k + l, c := h b) else h)"

lemma link_low_ok:
  assumes m: "mem_ok m (us @ vs)" and a: "minheap m \<le> a" "\<forall>(b, l) \<in> set us. b + l \<le> a"
    and n: "8 \<le> n" and vs: "\<forall>b \<in> fst ` set vs. a + n \<le> b"
    and g: "g = (mem m)(memlist m + 4 := t)" and u: "merge_low us a n = (us1, c, k)"
  shows "blks (link_low g (prev_node m us) us a n (adr vs)) (memlist m) ((memlist m, t) # us1 @ (c, k) # vs) 0"
    "\<forall>b \<in> fst ` set ((memlist m, t) # us1). b + 8 \<le> c"
proof -
  let ?p = "prev_node m us" and ?h = "link_low g (prev_node m us) us a n (adr vs)"
  have "blks (mem m) (memlist m) ((memlist m, total (us @ vs)) # us @ vs) 0" using m by (simp add: mem_ok_def)
  moreover have "\<forall>b \<in> fst ` set (us @ vs). memlist m + 8 \<le> b" using mem_okD(8) [OF m] by force
  ultimately have G: "blks g (memlist m) ((memlist m, t) # us @ vs) 0" unfolding g by (rule set_total)
  from prev_node_split [OF m] obtain ns lp where
    "(memlist m, total (us @ vs)) # us = ns @ [(?p, lp)]" and sp: "\<forall>b \<in> fst ` set ns. b + 8 \<le> ?p"
    and vp: "\<forall>b \<in> fst ` set vs. ?p + 8 \<le> b"
    and sh: "us = [] \<and> ns = [] \<and> ?p = memlist m \<or> (\<exists>us'. us = us' @ [(?p, lp)] \<and> ns = (memlist m, total (us @ vs)) # us')"
    by metis
  have "blks ?h (memlist m) ((memlist m, t) # us1 @ (c, k) # vs) 0 \<and>
    (\<forall>b \<in> fst ` set ((memlist m, t) # us1). b + 8 \<le> c)"
  proof (cases "us \<noteq> [] \<and> fst (last us) + snd (last us) = a")
    case True
    with sh obtain us' where us: "us = us' @ [(?p, lp)]" and ns: "ns = (memlist m, total (us @ vs)) # us'" by blast
    have l: "last us = (?p, lp)" "butlast us = us'" by (subst us, simp)+
    have h: "?h = g(?p + 4 := lp + n)" and r: "us1 = us'" "c = ?p" "k = lp + n"
      using True l u by (auto simp: link_low_def merge_low_def)
    have e: "(memlist m, t) # us @ vs = ((memlist m, t) # us') @ (?p, lp) # vs" by (subst us) simp
    have b: "blks g (g ?p) vs 0" using G unfolding e blks_append by auto
    have "blks ?h (memlist m) (((memlist m, t) # us') @ (?p, lp + n) # vs) 0"
    proof (rule blks_splice [OF G [unfolded e]])
      show "blks ?h (?h ?p) vs 0" using blks_above [OF b vp, of ?h] by (simp add: h)
    qed (use sp in \<open>auto simp: h ns\<close>)
    then show ?thesis using r sp ns by simp
  next
    case False
    have h: "?h = g(a := adr vs, a + 4 := n, ?p := a)" and r: "us1 = us" "c = a" "k = n"
      using False u by (auto simp: link_low_def merge_low_def)
    have pa: "?p + 8 \<le> a"
      using sh
    proof
      assume "\<exists>us'. us = us' @ [(?p, lp)] \<and> ns = (memlist m, total (us @ vs)) # us'"
      then have i: "(?p, lp) \<in> set us" by (metis in_set_conv_decomp)
      with a(2) have "?p + lp \<le> a" by blast
      moreover have "8 \<le> lp" using blocks_ok_mem [OF mem_okD(4) [OF m], of ?p lp] i by simp
      ultimately show ?thesis by simp
    qed (use mem_okD(2) [OF m] a(1) in \<open>simp add: prev_node_def\<close>)
    have "\<forall>b \<in> fst ` set us. b + 8 \<le> a"
      using a(2) blocks_ok_mem [OF mem_okD(4) [OF m]] by fastforce
    moreover have "memlist m + 8 \<le> a" using mem_okD(2) [OF m] a(1) by simp
    moreover have bv: "blks g (adr vs) vs 0"
      using G by (auto simp: blks_append dest: blks_adr)
    moreover from sh have "blks ?h (memlist m) ((memlist m, t) # us @ (a, n) # vs) 0"
    proof
      assume nil: "us = [] \<and> ns = [] \<and> ?p = memlist m"
      have "blks ?h (adr vs) vs 0" using blks_above [OF bv vs, of ?h] n pa by (simp add: h)
      moreover have "?h (memlist m) = a" "?h (memlist m + 4) = t" "?h (a + 4) = n" "?h a = adr vs"
        using nil pa g unfolding h by (simp_all add: prev_node_def)
      ultimately show ?thesis using nil by simp
    next
      assume "\<exists>us'. us = us' @ [(?p, lp)] \<and> ns = (memlist m, total (us @ vs)) # us'"
      then obtain us' where us: "us = us' @ [(?p, lp)]" and ns: "ns = (memlist m, total (us @ vs)) # us'" by blast
      have e: "(memlist m, t) # us @ ws = ((memlist m, t) # us') @ (?p, lp) # ws" for ws by (subst us) simp
      have gl: "g (?p + 4) = lp" using G unfolding e blks_append by auto
      have "blks ?h (adr vs) vs 0" using blks_above [OF bv vs, of ?h] n pa by (simp add: h)
      then have "blks ?h (?h ?p) ((a, n) # vs) 0" using pa by (simp add: h)
      then show ?thesis unfolding e
        by (intro blks_splice [OF G [unfolded e]]) (use sp pa gl in \<open>auto simp: h ns\<close>)
    qed
    ultimately show ?thesis using r by simp
  qed
  then show "blks ?h (memlist m) ((memlist m, t) # us1 @ (c, k) # vs) 0"
    "\<forall>b \<in> fst ` set ((memlist m, t) # us1). b + 8 \<le> c" by blast+
qed

lemma link_high_ok:
  assumes b: "blks h a (ns @ (c, k) # vs) 0" and ns: "\<forall>b \<in> fst ` set ns. b + 8 \<le> c"
    and k: "8 \<le> k" and vs: "\<forall>b \<in> fst ` set (tl vs). c + k + 8 \<le> b"
  shows "blks (link_high h c k vs) a (ns @ merge_high c k vs) 0"
proof (cases "\<exists>l ws. vs = (c + k, l) # ws")
  case True
  then obtain l ws where v: "vs = (c + k, l) # ws" by blast
  let ?h = "link_high h c k vs"
  have h: "?h = h(c + 4 := k + l, c := h (c + k))" by (simp add: link_high_def v)
  have "blks h (h (c + k)) ws 0" using b by (auto simp: blks_append v)
  moreover have "\<forall>b \<in> fst ` set ws. c + k + 8 \<le> b" using vs v by simp
  moreover have "\<forall>x \<ge> c + k + 8. ?h x = h x" "?h c = h (c + k)" by (simp_all add: h)
  ultimately have "blks ?h (?h c) ws 0" using blks_above [of h "h (c + k)" ws 0 "c + k + 8" ?h] by simp
  then have "blks ?h a (ns @ (c, k + l) # ws) 0"
    by (intro blks_splice [OF b ns]) (auto simp: h)
  then show ?thesis by (simp add: merge_high_def v)
next
  case False
  then have "link_high h c k vs = h" "merge_high c k vs = (c, k) # vs"
    by (auto simp: link_high_def merge_high_def split: list.splits)
  then show ?thesis using b by simp
qed

lemma merge_low_ok:
  assumes ok: "blocks_ok lo hi us" and u: "merge_low us a n = (us1, c, k)" and n: "0 < n" "8 dvd n"
    and a: "lo \<le> a" "\<forall>(b, l) \<in> set us. b + l \<le> a"
  shows "blocks_ok lo (a + n) (us1 @ [(c, k)])" "c + k = a + n"
    "free_bytes (us1 @ [(c, k)]) = free_bytes us \<union> {a..<a + n}" "total us1 + k = total us + n" "8 \<le> k"
proof -
  have "blocks_ok lo (a + n) (us1 @ [(c, k)]) \<and> c + k = a + n \<and>
    free_bytes (us1 @ [(c, k)]) = free_bytes us \<union> {a..<a + n} \<and> total us1 + k = total us + n \<and> 8 \<le> k"
  proof (cases "us \<noteq> [] \<and> fst (last us) + snd (last us) = a")
    case True
    then obtain us' p l where us: "us = us' @ [(p, l)]" by (metis append_butlast_last_id prod.collapse)
    have r: "us1 = us'" "c = p" "k = l + n" and pa: "p + l = a" using u True us by (auto simp: merge_low_def)
    have "\<forall>(b, l) \<in> set us'. b + l \<le> a + n" using a(2) us by fastforce
    moreover have "8 dvd l" using ok us by (auto simp: blocks_ok_append)
    moreover have "8 \<le> l" using blocks_ok_mem [OF ok, of p l] us by simp
    ultimately show ?thesis using ok us r pa n(1,2) by (auto simp: blocks_ok_append intro: blocks_ok_hi)
  next
    case False
    then have r: "us1 = us" "c = a" "k = n" using u by (auto simp: merge_low_def)
    have "\<forall>(b, l) \<in> set us. b + l \<le> a + n" using a(2) by fastforce
    moreover have "us \<noteq> [] \<Longrightarrow> fst (last us) + snd (last us) < a"
      using False a(2) last_in_set [of us] by fastforce
    ultimately show ?thesis using ok r n a(1) dvd_imp_le [of 8 n] by (auto simp: blocks_ok_append intro: blocks_ok_hi)
  qed
  then show "blocks_ok lo (a + n) (us1 @ [(c, k)])" "c + k = a + n"
    "free_bytes (us1 @ [(c, k)]) = free_bytes us \<union> {a..<a + n}" "total us1 + k = total us + n" "8 \<le> k" by blast+
qed

lemma merge_high_ok:
  assumes ok: "blocks_ok lo (c + k) (us @ [(c, k)])" and vs: "blocks_ok (c + k) hi vs" and hi: "c + k \<le> hi"
  shows "blocks_ok lo hi (us @ merge_high c k vs)"
    "free_bytes (us @ merge_high c k vs) = free_bytes (us @ [(c, k)]) \<union> free_bytes vs"
    "total (us @ merge_high c k vs) = total us + k + total vs"
proof -
  have o: "blocks_ok lo hi us" using ok hi by (auto simp: blocks_ok_append intro: blocks_ok_mono_hi)
  show "blocks_ok lo hi (us @ merge_high c k vs)"
    using ok o vs hi by (auto simp: blocks_ok_append merge_high_def add.assoc split: list.splits)
  show "free_bytes (us @ merge_high c k vs) = free_bytes (us @ [(c, k)]) \<union> free_bytes vs"
    by (auto simp: merge_high_def split: list.splits)
  show "total (us @ merge_high c k vs) = total us + k + total vs"
    by (auto simp: merge_high_def split: list.splits)
qed

text \<open>The two tests of \<^verbatim>\<open>freemem\<close>, against the block before and the block after, find every
  overlap with the free list.\<close>

definition low_end :: "blocks \<Rightarrow> nat" where
  "low_end us = (if us = [] then 0 else fst (last us) + snd (last us))"

definition overlaps :: "blocks \<Rightarrow> nat \<Rightarrow> nat \<Rightarrow> blocks \<Rightarrow> bool" where
  "overlaps us a n vs \<longleftrightarrow> us \<noteq> [] \<and> a < low_end us \<or> vs \<noteq> [] \<and> a + n > adr vs"

lemma blocks_low_end:
  assumes "blocks_ok lo hi us" "(b, l) \<in> set us"
  shows "b + l \<le> low_end us"
  using assms
proof (cases us rule: rev_cases)
  case (snoc us' x)
  obtain c k where "x = (c, k)" by force
  with snoc assms blocks_ok_before(1) [of lo hi us' c k "[]" b l] show ?thesis by (auto simp: low_end_def)
qed simp

lemma blocks_adr:
  assumes "blocks_ok lo hi vs" "b \<in> fst ` set vs"
  shows "adr vs \<le> b"
proof -
  obtain l where b: "(b, l) \<in> set vs" using assms(2) by force
  then obtain c k ws where v: "vs = (c, k) # ws" by (cases vs) auto
  then show ?thesis using blocks_ok_after(1) [of lo hi "[]" c k ws b l] assms(1) b by auto
qed

lemma overlaps_iff:
  assumes ok: "blocks_ok lo hi (us @ vs)" and us: "\<forall>b \<in> fst ` set us. b < a" and vs: "\<forall>b \<in> fst ` set vs. a \<le> b"
    and n: "0 < n"
  shows "overlaps us a n vs \<longleftrightarrow> {a..<a + n} \<inter> free_bytes (us @ vs) \<noteq> {}"
proof
  assume "overlaps us a n vs"
  then consider "us \<noteq> []" "a < low_end us" | b l ws where "vs = (b, l) # ws" "b < a + n"
    by (cases vs) (auto simp: overlaps_def)
  then show "{a..<a + n} \<inter> free_bytes (us @ vs) \<noteq> {}"
  proof cases
    case 1
    then have l: "last us \<in> set us" by simp
    then have "fst (last us) < a" using us by blast
    then have "a \<in> free_bytes us" using l 1
      by (auto simp: free_bytes_def low_end_def intro!: bexI [of _ "last us"])
    then show ?thesis using n by (intro notI) (auto dest: equals0D [of _ a])
  next
    case 2
    then have "b \<in> free_bytes vs" using blocks_ok_mem [OF ok, of b l] by simp
    then show ?thesis using 2 vs by auto
  qed
next
  assume "{a..<a + n} \<inter> free_bytes (us @ vs) \<noteq> {}"
  then obtain x where "x \<in> {a..<a + n}" "x \<in> free_bytes (us @ vs)" by blast
  then have x: "a \<le> x" "x < a + n" "x \<in> free_bytes us \<or> x \<in> free_bytes vs" by simp_all
  from x(3) show "overlaps us a n vs"
  proof
    assume "x \<in> free_bytes us"
    then obtain b l where "(b, l) \<in> set us" "x < b + l" by (auto simp: free_bytes_def)
    moreover have "blocks_ok lo hi us" using ok by (simp add: blocks_ok_append)
    ultimately have "a < low_end us" "us \<noteq> []" using blocks_low_end [of lo hi us b l] x(1) by auto
    then show ?thesis by (simp add: overlaps_def)
  next
    assume "x \<in> free_bytes vs"
    then obtain b l where b: "(b, l) \<in> set vs" "b \<le> x" by (auto simp: free_bytes_def)
    have "\<exists>lo'. blocks_ok lo' hi vs" using ok by (auto simp: blocks_ok_append)
    then have "adr vs \<le> b" using blocks_adr b(1) by force
    then show ?thesis using b x(2) by (auto simp: overlaps_def)
  qed
qed

lemma prev_node_low_end:
  assumes "mem_ok m (us @ vs)"
  shows "(if prev_node m us = memlist m then 0 else u32 (prev_node m us + mlength m (prev_node m us))) = low_end us"
    "us \<noteq> [] \<Longrightarrow> mem m (prev_node m us + 4) = snd (last us)" "us \<noteq> [] \<Longrightarrow> prev_node m us = fst (last us)"
proof -
  show p: "us \<noteq> [] \<Longrightarrow> prev_node m us = fst (last us)" by (simp add: prev_node_def last_map)
  show l: "us \<noteq> [] \<Longrightarrow> mem m (prev_node m us + 4) = snd (last us)"
  proof -
    assume "us \<noteq> []"
    then obtain us' b l where us: "us = us' @ [(b, l)]" by (metis append_butlast_last_id prod.collapse)
    then show ?thesis using mem_ok_block(1) [of m us' b l vs] assms by (simp add: prev_node_def)
  qed
  show "(if prev_node m us = memlist m then 0 else u32 (prev_node m us + mlength m (prev_node m us))) = low_end us"
  proof (cases "us = []")
    case False
    then have "(fst (last us), snd (last us)) \<in> set (us @ vs)" by simp
    from blocks_ok_mem [OF mem_okD(4) [OF assms] this] have "low_end us < 4294967296"
      using mem_okD(3) [OF assms] False by (simp add: low_end_def)
    then show ?thesis using False p l prev_node_head(3) [OF assms] by (simp add: mlength_def low_end_def)
  qed (simp add: prev_node_def low_end_def)
qed

lemma freemem_link_low:
  assumes m: "mem_ok m (us @ vs)" and a: "memlist m + 8 \<le> a" and n: "8 \<le> n"
    and u: "merge_low us a n = (us1, c, k)" and ck: "c + k < 4294967296" and ua: "\<forall>b \<in> fst ` set us. b < a"
    and g: "g = (mem m)(memlist m + 4 := t)" and h: "h = link_low g (prev_node m us) us a n z"
  shows "(if low_end us = a then (prev_node m us, set_mlength (prev_node m us)
         (u32 (mlength (m\<lparr>mem := g\<rparr>) (prev_node m us) + n)) (m\<lparr>mem := g\<rparr>))
       else (a, set_mnext (prev_node m us) a (set_mlength a n (set_mnext a z (m\<lparr>mem := g\<rparr>))))) = (c, m\<lparr>mem := h\<rparr>)"
    "h (c + 4) = k"
proof -
  let ?p = "prev_node m us"
  have "(if low_end us = a then (?p, set_mlength ?p (u32 (mlength (m\<lparr>mem := g\<rparr>) ?p + n)) (m\<lparr>mem := g\<rparr>))
       else (a, set_mnext ?p a (set_mlength a n (set_mnext a z (m\<lparr>mem := g\<rparr>))))) = (c, m\<lparr>mem := h\<rparr>) \<and> h (c + 4) = k"
  proof (cases "us \<noteq> [] \<and> fst (last us) + snd (last us) = a")
    case True
    have f: "c = ?p" "k = snd (last us) + n" "low_end us = a" "h = g(?p + 4 := k)"
      using True u prev_node_low_end(3) [OF m] by (auto simp: merge_low_def low_end_def h link_low_def)
    have "g (?p + 4) = snd (last us)"
      using True prev_node_low_end(2) [OF m] prev_node_head(3) [OF m] by (simp add: g)
    then show ?thesis using f ck by (simp add: set_mlength_def mlength_def)
  next
    case False
    have f: "c = a" "k = n" "low_end us \<noteq> a" "h = g(a := z, a + 4 := n, ?p := a)"
      using False u a by (auto simp: merge_low_def low_end_def h link_low_def)
    have "?p < a"
      using a ua prev_node_low_end(3) [OF m] last_in_set [of us] by (cases "us = []") (auto simp: prev_node_def)
    then show ?thesis using f by (simp add: set_mlength_def set_mnext_def)
  qed
  then show "(if low_end us = a then (?p, set_mlength ?p (u32 (mlength (m\<lparr>mem := g\<rparr>) ?p + n)) (m\<lparr>mem := g\<rparr>))
       else (a, set_mnext ?p a (set_mlength a n (set_mnext a z (m\<lparr>mem := g\<rparr>))))) = (c, m\<lparr>mem := h\<rparr>)"
    "h (c + 4) = k" by blast+
qed

lemma freemem_link_eq:
  assumes m: "mem_ok m (us @ vs)" and a: "memlist m + 8 \<le> a" and n: "8 \<le> n"
    and u: "merge_low us a n = (us1, c, k)" and ck: "c + k = a + n" "a + n < 4294967296" "8 \<le> k"
    and ua: "\<forall>b \<in> fst ` set us. b < a" and t: "t = total (us @ vs) + n" "t < 4294967296" and vs: "\<forall>b \<in> fst ` set vs. a + n \<le> b"
    and g: "g = (mem m)(memlist m + 4 := t)" and h: "h = link_low g (prev_node m us) us a n (adr vs)"
    and hv: "blks h (adr vs) vs 0" and vl: "\<forall>(b, l) \<in> set vs. b + l < 4294967296"
  shows "freemem_link (prev_node m us) (adr vs) (low_end us) a n m = m\<lparr>mem := link_high h c k vs\<rparr>"
proof -
  have k: "c + k < 4294967296" using ck by simp
  note low = freemem_link_low [OF m a n u k ua g h]
  have g1: "set_mlength (memlist m) (u32 (mlength m (memlist m) + n)) m = m\<lparr>mem := g\<rparr>"
    using mem_okD(5) [OF m] t by (simp add: set_mlength_def mlength_def g)
  have nz: "adr vs = 0 \<longleftrightarrow> vs = []" using mem_okD(7) [OF m] by (cases vs) force+
  have "freemem_link (prev_node m us) (adr vs) (low_end us) a n m =
     (if c + k = adr vs then
        let m3 = set_mlength c (u32 (k + mlength (m\<lparr>mem := h\<rparr>) (adr vs))) (m\<lparr>mem := h\<rparr>)
        in set_mnext c (mnext m3 (adr vs)) m3
      else m\<lparr>mem := h\<rparr>)"
    unfolding freemem_link_def g1 Let_def low(1) using low(2) k by (simp add: mlength_def)
  also have "\<dots> = m\<lparr>mem := link_high h c k vs\<rparr>"
  proof (cases vs)
    case Nil
    then show ?thesis using ck n by (simp add: link_high_def)
  next
    case (Cons x ws)
    obtain b l where x: "x = (b, l)" by force
    have hb: "h (b + 4) = l" using hv Cons x by simp
    show ?thesis
    proof (cases "c + k = b")
      case True
      have "k + l < 4294967296" using vl Cons x True by auto
      then show ?thesis using Cons x True hb ck n
        by (auto simp: link_high_def set_mlength_def set_mnext_def mnext_def mlength_def)
    next
      case False
      then show ?thesis using Cons x by (simp add: link_high_def)
    qed
  qed
  finally show ?thesis .
qed

lemma merge_touches:
  assumes m: "mem_ok m (us @ vs)" and u: "merge_low us a n = (us1, c, k)" and n: "8 \<le> n" "8 \<le> k"
    and fb: "free_bytes (us1 @ [(c, k)]) = free_bytes us \<union> {a..<a + n}"
  shows "touches m (m\<lparr>mem := link_high (link_low ((mem m)(memlist m + 4 := t)) (prev_node m us) us a n z) c k vs\<rparr>)
    (free_bytes (us @ vs) \<union> {a..<a + n})"
proof (rule touchesI, intro allI impI)
  fix x assume x: "x \<notin> free_bytes (us @ vs) \<union> {a..<a + n} \<and> x \<noteq> memlist m \<and> x \<noteq> memlist m + 4"
  have "{c..<c + k} \<subseteq> free_bytes us \<union> {a..<a + n}" unfolding fb [symmetric] by simp
  moreover have "x \<notin> free_bytes us \<union> {a..<a + n}" using x by simp
  ultimately have "x \<notin> {c..<c + k}" by (rule contra_subsetD)
  then have c: "x \<noteq> c" "x \<noteq> c + 4" using n(2) by auto
  have a: "x \<noteq> a" "x \<noteq> a + 4" using x n(1) by auto
  have p: "x \<noteq> prev_node m us" "us \<noteq> [] \<Longrightarrow> x \<noteq> prev_node m us + 4"
    using prev_node_bytes [OF m] prev_node_head(3) [OF m] x by auto
  show "link_high (link_low ((mem m)(memlist m + 4 := t)) (prev_node m us) us a n z) c k vs x = mem m x"
  proof -
    have "x \<noteq> memlist m + 4" using x by simp
    then have "link_low ((mem m)(memlist m + 4 := t)) (prev_node m us) us a n z x = mem m x"
      using a p by (simp add: link_low_def)
    then show ?thesis using c by (simp add: link_high_def split: list.split)
  qed
qed

theorem freemem_result:
  assumes m: "mem_ok m bs" and n: "0 < n0" "n = roundmb n0" "0 < n" and a: "minheap m \<le> a" "a + n \<le> maxheap m"
  obtains (overlap) "{a..<a + n} \<inter> free_bytes bs \<noteq> {}" "freemem a n0 m = Some (SYSERR, m)"
  | (freed) m' bs' where "{a..<a + n} \<inter> free_bytes bs = {}" "freemem a n0 m = Some (OK, m')" "mem_ok m' bs'"
    "free_bytes bs' = free_bytes bs \<union> {a..<a + n}" "total bs' = total bs + n" "touches m m' (free_bytes bs')"
proof -
  define us where "us = takeWhile (\<lambda>(b, l). b < a) bs"
  define vs where "vs = dropWhile (\<lambda>(b, l). b < a) bs"
  have bs: "bs = us @ vs" by (simp add: us_def vs_def)
  note M = m [unfolded bs]
  note ok = mem_okD(4) [OF M]
  have us: "\<forall>b \<in> fst ` set us. b < a" unfolding us_def by (auto dest: set_takeWhileD)
  have okv: "blocks_ok (if us = [] then minheap m else fst (last us) + snd (last us) + 1) (maxheap m) vs"
    and oku: "blocks_ok (minheap m) (maxheap m) us" using ok by (simp_all add: blocks_ok_append)
  have "vs \<noteq> [] \<Longrightarrow> a \<le> adr vs" using hd_dropWhile [of "\<lambda>(b, l). b < a" bs] by (cases vs) (auto simp: vs_def)
  then have vs: "\<forall>b \<in> fst ` set vs. a \<le> b" using blocks_adr [OF okv] by (cases "vs = []") fastforce+
  have lim: "a + n < 4294967296" and n8: "8 \<le> n" "8 dvd n"
    using a mem_okD(3) [OF m] n dvd_imp_le [of 8 n] by auto
  have scan: "freemem_scan m a = Some (prev_node m us, adr vs)"
    using freemem_scan_eq [OF m, of a] by (simp add: us_def vs_def prev_node_def)
  have nz: "adr vs = 0 \<longleftrightarrow> vs = []" using mem_okD(7) [OF M] by (cases vs) force+
  have f: "freemem a n0 m = (if overlaps us a n vs then Some (SYSERR, m)
      else Some (OK, freemem_link (prev_node m us) (adr vs) (low_end us) a n m))"
    unfolding freemem_def Let_def n(2) [symmetric] scan option.case prod.case prev_node_low_end(1) [OF M]
    using a n lim prev_node_head(3) [OF M] nz by (auto simp: overlaps_def)
  show thesis
  proof (cases "overlaps us a n vs")
    case True
    then show thesis using overlap f overlaps_iff [OF ok us vs n(3)] bs by simp
  next
    case False
    then have ua: "\<forall>(b, l) \<in> set us. b + l \<le> a" and va: "\<forall>b \<in> fst ` set vs. a + n \<le> b"
      using blocks_low_end [OF oku] blocks_adr [OF okv] by (fastforce simp: overlaps_def)+
    obtain us1 c k where u: "merge_low us a n = (us1, c, k)" by (cases "merge_low us a n") auto
    note low = merge_low_ok [OF oku u n(3) n8(2) a(1) ua]
    have okv': "blocks_ok (c + k) (maxheap m) vs" unfolding low(2)
      using okv va by (cases vs) auto
    note high = merge_high_ok [OF low(1) [folded low(2)] okv' [unfolded low(2), folded low(2)]]
    define bs' where "bs' = us1 @ merge_high c k vs"
    have ok': "blocks_ok (minheap m) (maxheap m) bs'" and fb: "free_bytes bs' = free_bytes bs \<union> {a..<a + n}"
      and tt: "total bs' = total bs + n" using high low(2,3,4) a(2) by (auto simp: bs'_def bs)
    define g where "g = (mem m)(memlist m + 4 := total bs + n)"
    define h where "h = link_low g (prev_node m us) us a n (adr vs)"
    define m' where "m' = m\<lparr>mem := link_high h c k vs\<rparr>"
    note L = link_low_ok [OF M a(1) ua n8(1) va g_def u, folded h_def]
    have hc: "blks h (h c) vs 0" using L(1) by (auto simp: blks_append)
    then have hv: "blks h (adr vs) vs 0" using blks_adr [OF hc] by simp
    have tl: "\<forall>b \<in> fst ` set (tl vs). c + k + 8 \<le> b"
    proof
      fix b' assume b': "b' \<in> fst ` set (tl vs)"
      then obtain b l l' where v: "vs = (b, l) # tl vs" "(b', l') \<in> set (tl vs)" by (cases vs) auto
      have "blocks_ok (c + k) (maxheap m) ([] @ (b, l) # tl vs)" using okv' v(1) by simp
      from blocks_ok_after(2) [OF this v(2)] blocks_ok_mem [OF this, of b l] show "c + k + 8 \<le> b'" by simp
    qed
    have L1: "blks h (memlist m) (((memlist m, total bs + n) # us1) @ (c, k) # vs) 0" using L(1) by simp
    from link_high_ok [OF L1 L(2) low(5) tl]
    have "blks (link_high h c k vs) (memlist m) ((memlist m, total bs') # bs') 0"
      unfolding tt unfolding bs'_def by simp
    then have m': "mem_ok m' bs'"
      unfolding mem_ok_def m'_def using ok' mem_okD(1,2,3) [OF m] by simp
    have vl: "\<forall>(b, l) \<in> set vs. b + l < 4294967296"
      using blocks_ok_mem [OF okv] mem_okD(3) [OF m] by fastforce
    have "freemem_link (prev_node m us) (adr vs) (low_end us) a n m = m'"
      unfolding m'_def
      using freemem_link_eq [OF M _ n8(1) u low(2) lim low(5) us _ _ va g_def h_def hv vl] mem_okD(2) [OF m] a(1)
        total_lt [OF m'] bs tt by simp
    moreover have "touches m m' (free_bytes bs')"
      unfolding m'_def fb bs using merge_touches [OF M u n8(1) low(5,3)] by (simp add: g_def h_def bs)
    ultimately show thesis using freed [of m' bs'] False f m' fb tt overlaps_iff [OF ok us vs n(3)] bs by simp
  qed
qed

section \<open>The contract of an allocator\<close>

text \<open>What the rest of the kernel relies on: a pointer and a size name a span of bytes, an allocation
  takes a span out of the free set, returning it puts exactly that span back, and a span that is
  free already is refused.\<close>

locale allocator =
  fixes ok :: "'m \<Rightarrow> nat set \<Rightarrow> bool"
    and heap_of :: "'m \<Rightarrow> nat set"
    and span :: "nat \<Rightarrow> nat \<Rightarrow> nat set"
    and good :: "nat \<Rightarrow> bool"
    and alloc :: "nat \<Rightarrow> 'm \<Rightarrow> (nat option \<times> 'm) option"
    and release :: "nat \<Rightarrow> nat \<Rightarrow> 'm \<Rightarrow> (int \<times> 'm) option"
  assumes free_in_heap: "ok m F \<Longrightarrow> F \<subseteq> heap_of m"
    and alloc_total: "ok m F \<Longrightarrow> good n \<Longrightarrow> \<exists>r. alloc n m = Some r"
    and alloc_none: "ok m F \<Longrightarrow> good n \<Longrightarrow> alloc n m = Some (None, m') \<Longrightarrow> m' = m"
    and alloc_some: "ok m F \<Longrightarrow> good n \<Longrightarrow> alloc n m = Some (Some p, m') \<Longrightarrow>
      span p n \<subseteq> F \<and> span p n \<noteq> {} \<and> ok m' (F - span p n) \<and> heap_of m' = heap_of m"
    and release_ok: "ok m F \<Longrightarrow> good n \<Longrightarrow> span p n \<subseteq> heap_of m \<Longrightarrow> span p n \<inter> F = {} \<Longrightarrow>
      \<exists>m'. release p n m = Some (1, m') \<and> ok m' (F \<union> span p n) \<and> heap_of m' = heap_of m"
    and release_bad: "ok m F \<Longrightarrow> good n \<Longrightarrow> span p n \<subseteq> heap_of m \<Longrightarrow> span p n \<inter> F \<noteq> {} \<Longrightarrow>
      release p n m = Some (- 1, m)"
begin

lemma alloc_disjoint:
  assumes "ok m F" "good n" "good k" "alloc n m = Some (Some p, m1)" "alloc k m1 = Some (Some q, m2)"
  shows "span p n \<inter> span q k = {}"
  using alloc_some [OF assms(1,2,4)] alloc_some [of m1 "F - span p n" k q m2] assms(3,5) by blast

lemma alloc_release:
  assumes "ok m F" "good n" "alloc n m = Some (Some p, m1)"
  shows "\<exists>m2. release p n m1 = Some (1, m2) \<and> ok m2 F"
proof -
  have a: "span p n \<subseteq> F" "ok m1 (F - span p n)" "heap_of m1 = heap_of m"
    using alloc_some [OF assms] by auto
  then have "span p n \<subseteq> heap_of m1" using free_in_heap [OF assms(1)] by auto
  from release_ok [OF a(2) assms(2) this] obtain m2 where
    "release p n m1 = Some (1, m2)" "ok m2 (F - span p n \<union> span p n)" by blast
  moreover have "F - span p n \<union> span p n = F" using a(1) by blast
  ultimately show ?thesis by auto
qed

lemma double_release:
  assumes "ok m F" "good n" "span p n \<subseteq> heap_of m" "span p n \<inter> F = {}" "span p n \<noteq> {}"
    "release p n m = Some (1, m1)"
  shows "release p n m1 = Some (- 1, m1)"
proof -
  obtain m' where "release p n m = Some (1, m')" "ok m' (F \<union> span p n)" "heap_of m' = heap_of m"
    using release_ok [OF assms(1-4)] by blast
  then show ?thesis using release_bad [of m1 "F \<union> span p n" n p] assms by auto
qed

end

definition mem_free :: "memory \<Rightarrow> nat set \<Rightarrow> bool" where
  "mem_free m F \<longleftrightarrow> (\<exists>bs. mem_ok m bs \<and> free_bytes bs = F)"

definition heap_range :: "memory \<Rightarrow> nat set" where
  "heap_range m = {minheap m..<maxheap m}"

definition mem_span :: "nat \<Rightarrow> nat \<Rightarrow> nat set" where
  "mem_span p n = {p..<p + roundmb n}"

definition stk_span :: "nat \<Rightarrow> nat \<Rightarrow> nat set" where
  "stk_span p n = {p + 4 - roundmb n..<p + 4}"

definition good_size :: "nat \<Rightarrow> bool" where
  "good_size n \<longleftrightarrow> 0 < n \<and> n < 4294967289"

lemma good_roundmb: "good_size n \<Longrightarrow> 0 < n" "good_size n \<Longrightarrow> 0 < roundmb n"
  using roundmb_bounds(3) [of n] by (auto simp: good_size_def)

lemma touches_heap: "touches m m' A \<Longrightarrow> heap_range m' = heap_range m"
  unfolding touches_def heap_range_def by (metis memory.select_convs(3,4) memory.surjective memory.update_convs(1))

lemma free_bytes_heap: "mem_ok m bs \<Longrightarrow> free_bytes bs \<subseteq> heap_range m"
  using blocks_ok_mem [OF mem_okD(4)] by (fastforce simp: free_bytes_def heap_range_def)

lemma getmem_alloc:
  assumes "mem_free m F" "good_size n" "getmem n m = Some (r, m')"
  shows "r = None \<Longrightarrow> m' = m"
    "r = Some p \<Longrightarrow> mem_span p n \<subseteq> F \<and> mem_span p n \<noteq> {} \<and> mem_free m' (F - mem_span p n) \<and> heap_range m' = heap_range m"
proof -
  obtain bs where bs: "mem_ok m bs" "F = free_bytes bs" using assms(1) by (auto simp: mem_free_def)
  note g = getmem_result [OF bs(1) good_roundmb(1) [OF assms(2)] refl good_roundmb(2) [OF assms(2)]]
  show "r = None \<Longrightarrow> m' = m" by (rule g) (use assms(3) in auto)
  show "r = Some p \<Longrightarrow> mem_span p n \<subseteq> F \<and> mem_span p n \<noteq> {} \<and> mem_free m' (F - mem_span p n) \<and> heap_range m' = heap_range m"
  proof (rule g)
    fix us b l vs m1
    assume r: "r = Some p" and s: "bs = us @ (b, l) # vs" "roundmb n \<le> l" "getmem n m = Some (Some b, m1)"
      "mem_ok m1 (us @ carve_low (roundmb n) b l @ vs)" "touches m m1 (free_bytes bs)"
    have e: "p = b" "m' = m1" using r s(3) assms(3) by simp_all
    have "mem_free m' (F - mem_span p n)" unfolding mem_free_def e mem_span_def
      using s(4) carve_bytes(1) [of _ _ us b l vs, OF mem_okD(4) [OF bs(1) [unfolded s(1)]] s(2)] bs(2) s(1) by blast
    moreover have "mem_span p n \<subseteq> F" using s(2) by (auto simp: mem_span_def e bs(2) s(1))
    moreover have "mem_span p n \<noteq> {}" using good_roundmb(2) [OF assms(2)] by (simp add: mem_span_def)
    ultimately show ?thesis using touches_heap [OF s(5)] e(2) by simp
  qed (use assms(3) in auto)
qed

lemma getstk_alloc:
  assumes "mem_free m F" "good_size n" "getstk n m = Some (r, m')"
  shows "r = None \<Longrightarrow> m' = m"
    "r = Some p \<Longrightarrow> stk_span p n \<subseteq> F \<and> stk_span p n \<noteq> {} \<and> mem_free m' (F - stk_span p n) \<and> heap_range m' = heap_range m"
proof -
  obtain bs where bs: "mem_ok m bs" "F = free_bytes bs" using assms(1) by (auto simp: mem_free_def)
  note g = getstk_result [OF bs(1) good_roundmb(1) [OF assms(2)] refl good_roundmb(2) [OF assms(2)]]
  show "r = None \<Longrightarrow> m' = m" by (rule g) (use assms(3) in auto)
  show "r = Some p \<Longrightarrow> stk_span p n \<subseteq> F \<and> stk_span p n \<noteq> {} \<and> mem_free m' (F - stk_span p n) \<and> heap_range m' = heap_range m"
  proof (rule g)
    fix us b l vs m1
    assume r: "r = Some p" and s: "bs = us @ (b, l) # vs" "roundmb n \<le> l" "getstk n m = Some (Some (b + l - 4), m1)"
      "mem_ok m1 (us @ carve_high (roundmb n) b l @ vs)" "touches m m1 (free_bytes bs)"
    have "8 \<le> l" using mem_ok_block(8) bs(1) s(1) by blast
    then have e: "p + 4 = b + l" "m' = m1" using r s(3) assms(3) by simp_all
    have "mem_free m' (F - stk_span p n)" unfolding mem_free_def e stk_span_def
      using s(4) carve_bytes(2) [of _ _ us b l vs, OF mem_okD(4) [OF bs(1) [unfolded s(1)]] s(2)] bs(2) s(1) by blast
    moreover have "stk_span p n \<subseteq> F" using s(2) by (auto simp: stk_span_def e bs(2) s(1))
    moreover have "stk_span p n \<noteq> {}" using good_roundmb(2) [OF assms(2)] by (simp add: stk_span_def)
    ultimately show ?thesis using touches_heap [OF s(5)] e(2) by simp
  qed (use assms(3) in auto)
qed

lemma alloc_returns:
  assumes "mem_free m F" "good_size n"
  shows "\<exists>r. getmem n m = Some r" "\<exists>r. getstk n m = Some r"
proof -
  obtain bs where bs: "mem_ok m bs" using assms(1) by (auto simp: mem_free_def)
  show "\<exists>r. getmem n m = Some r"
    by (rule getmem_result [OF bs good_roundmb(1) [OF assms(2)] refl good_roundmb(2) [OF assms(2)]]) auto
  show "\<exists>r. getstk n m = Some r"
    by (rule getstk_result [OF bs good_roundmb(1) [OF assms(2)] refl good_roundmb(2) [OF assms(2)]]) auto
qed

lemma freemem_release:
  assumes "mem_free m F" "good_size n" "mem_span p n \<subseteq> heap_range m"
  shows "mem_span p n \<inter> F = {} \<Longrightarrow>
      \<exists>m'. freemem p n m = Some (OK, m') \<and> mem_free m' (F \<union> mem_span p n) \<and> heap_range m' = heap_range m"
    "mem_span p n \<inter> F \<noteq> {} \<Longrightarrow> freemem p n m = Some (SYSERR, m)"
proof -
  obtain bs where bs: "mem_ok m bs" "F = free_bytes bs" using assms(1) by (auto simp: mem_free_def)
  note n = good_roundmb [OF assms(2)]
  have "{p..<p + roundmb n} \<subseteq> {minheap m..<maxheap m}" using assms(3) by (simp add: mem_span_def heap_range_def)
  then have a: "minheap m \<le> p" "p + roundmb n \<le> maxheap m" using n(2) by (auto simp: ivl_subset)
  note f = freemem_result [OF bs(1) n(1) refl n(2) a]
  show "\<exists>m'. freemem p n m = Some (OK, m') \<and> mem_free m' (F \<union> mem_span p n) \<and> heap_range m' = heap_range m"
    if "mem_span p n \<inter> F = {}"
  proof (rule f)
    fix m' bs'
    assume "freemem p n m = Some (OK, m')" "mem_ok m' bs'" "free_bytes bs' = free_bytes bs \<union> {p..<p + roundmb n}"
      "touches m m' (free_bytes bs')"
    then show ?thesis using touches_heap bs(2) by (auto simp: mem_free_def mem_span_def)
  qed (use that bs(2) in \<open>simp add: mem_span_def\<close>)
  show "freemem p n m = Some (SYSERR, m)" if "mem_span p n \<inter> F \<noteq> {}"
    by (rule f) (use that bs(2) in \<open>simp_all add: mem_span_def\<close>)
qed

lemma mem_free_heap: "mem_free m F \<Longrightarrow> F \<subseteq> heap_range m"
  using free_bytes_heap by (auto simp: mem_free_def)

interpretation heap: allocator mem_free heap_range mem_span good_size getmem freemem
proof
  fix m F n p m'
  assume m: "mem_free m F"
  show "F \<subseteq> heap_range m" by (rule mem_free_heap [OF m])
  assume n: "good_size n"
  show "\<exists>r. getmem n m = Some r" by (rule alloc_returns(1) [OF m n])
  show "m' = m" if "getmem n m = Some (None, m')" by (rule getmem_alloc(1) [OF m n that refl])
  show "mem_span p n \<subseteq> F \<and> mem_span p n \<noteq> {} \<and> mem_free m' (F - mem_span p n) \<and> heap_range m' = heap_range m"
    if "getmem n m = Some (Some p, m')" by (rule getmem_alloc(2) [OF m n that refl])
  assume s: "mem_span p n \<subseteq> heap_range m"
  show "\<exists>m'. freemem p n m = Some (1, m') \<and> mem_free m' (F \<union> mem_span p n) \<and> heap_range m' = heap_range m"
    if "mem_span p n \<inter> F = {}" by (rule freemem_release(1) [OF m n s that])
  show "freemem p n m = Some (- 1, m)" if "mem_span p n \<inter> F \<noteq> {}" by (rule freemem_release(2) [OF m n s that])
qed

lemma freestk_span:
  assumes m: "mem_free m F" and n: "good_size n" and s: "stk_span p n \<subseteq> heap_range m"
  shows "freestk p n m = freemem (p + 4 - roundmb n) (roundmb n) m" "good_size (roundmb n)"
    "stk_span p n = mem_span (p + 4 - roundmb n) (roundmb n)"
proof -
  obtain bs where bs: "mem_ok m bs" using m by (auto simp: mem_free_def)
  note r = good_roundmb(2) [OF n]
  have sub: "{p + 4 - roundmb n..<p + 4} \<subseteq> {minheap m..<maxheap m}" using s by (simp add: stk_span_def heap_range_def)
  then have lo: "minheap m \<le> p + 4 - roundmb n" "p + 4 \<le> maxheap m"
    using r by (auto simp: ivl_subset)
  then have p: "roundmb n \<le> p" "p + 4 < 4294967296" using mem_okD(2,3) [OF bs] by auto
  then show "freestk p n m = freemem (p + 4 - roundmb n) (roundmb n) m" by (simp add: freestk_def)
  have "roundmb n \<le> 4294967288"
    using u32_less [of "7 + n"] unfolding roundmb_eq by presburger
  then show "good_size (roundmb n)" using r by (simp add: good_size_def)
  show "stk_span p n = mem_span (p + 4 - roundmb n) (roundmb n)"
    using p(1) by (simp add: stk_span_def mem_span_def roundmb_idem)
qed

interpretation stacks: allocator mem_free heap_range stk_span good_size getstk freestk
proof
  fix m F n p m'
  assume m: "mem_free m F"
  show "F \<subseteq> heap_range m" by (rule mem_free_heap [OF m])
  assume n: "good_size n"
  show "\<exists>r. getstk n m = Some r" by (rule alloc_returns(2) [OF m n])
  show "m' = m" if "getstk n m = Some (None, m')" by (rule getstk_alloc(1) [OF m n that refl])
  show "stk_span p n \<subseteq> F \<and> stk_span p n \<noteq> {} \<and> mem_free m' (F - stk_span p n) \<and> heap_range m' = heap_range m"
    if "getstk n m = Some (Some p, m')" by (rule getstk_alloc(2) [OF m n that refl])
  assume s: "stk_span p n \<subseteq> heap_range m"
  note f = freestk_span [OF m n s]
  show "\<exists>m'. freestk p n m = Some (1, m') \<and> mem_free m' (F \<union> stk_span p n) \<and> heap_range m' = heap_range m"
    if "stk_span p n \<inter> F = {}"
    using freemem_release(1) [OF m f(2) s [unfolded f(3)] that [unfolded f(3)]] f(1,3) by simp
  show "freestk p n m = Some (- 1, m)" if "stk_span p n \<inter> F \<noteq> {}"
    using freemem_release(2) [OF m f(2) s [unfolded f(3)] that [unfolded f(3)]] f(1) by simp
qed

section \<open>Initialisation and the edges of the size range\<close>

lemma meminit_ok:
  assumes "memlist m \<noteq> 0" "memlist m + 8 \<le> e" "8 dvd e" "e < MAXADDR"
  shows "mem_ok (meminit e m) [(e, MAXADDR - e)]"
proof -
  have d: "8 dvd MAXADDR - e" using assms(3) by (intro dvd_diff_nat) simp_all
  have "mem (meminit e m) = (mem m)(memlist m := e, e := 0, e + 4 := MAXADDR - e, memlist m + 4 := MAXADDR - e)"
    "minheap (meminit e m) = e" "maxheap (meminit e m) = MAXADDR" "memlist (meminit e m) = memlist m"
    using assms by (simp_all add: meminit_def set_mnext_def set_mlength_def mnext_def Let_def)
  then show ?thesis using assms d by (simp add: mem_ok_def)
qed

text \<open>A request of the last seven sizes rounds to zero, and \<^verbatim>\<open>getmem\<close> hands out the first free
  block without taking it off the list.\<close>

lemma getmem_huge:
  assumes m: "mem_ok m ((b, l) # bs)" and n: "4294967289 \<le> n" "n < 4294967296"
  shows "getmem n m = Some (Some b, m)"
proof -
  have r: "roundmb n = 0" using n by (simp add: roundmb_eq u32_def mod_if)
  have b: "mem m (memlist m) = b" "b \<noteq> 0" "mem m (b + 4) = l" "0 < l" "b < 4294967296" "l < 4294967296" "memlist m + 8 \<le> b"
    using mem_okD [OF m] mem_ok_block [of m "[]" b l bs] m by auto
  have "getmem_scan m 0 = Some (memlist m, b)" by (simp add: getmem_scan_def mnext_def b)
  moreover have "mem m (memlist m + 4) < 4294967296" using mem_okD(5) [OF m] total_lt [OF m] by simp
  ultimately show ?thesis using n b r
    by (auto simp: getmem_def Let_def set_mnext_def set_mlength_def mnext_def mlength_def fun_upd_idem)
qed

end
