(* ===== verification/Process.thy ===== *)
theory Process
  imports Frames Memory
begin

text \<open>
  Creating and killing processes: \<^verbatim>\<open>system/create.c\<close> (with \<^verbatim>\<open>newpid\<close>), \<^verbatim>\<open>kill.c\<close>, \<^verbatim>\<open>exit.c\<close>,
  \<^verbatim>\<open>userret.c\<close> and \<^verbatim>\<open>xdone.c\<close>.

  The stack that \<^verbatim>\<open>create\<close> builds is written into the memory word by word, as the code does.
  \<^verbatim>\<open>kill\<close> calls \<^verbatim>\<open>send\<close> in its middle, and a parent that was waiting may take the processor
  there: the rest, \<open>kill_rest\<close>, then runs when the killer is scheduled again. Calls of
  \<^verbatim>\<open>close\<close> are recorded in \<open>devlog\<close>. The address of \<^verbatim>\<open>userret\<close>, which the linker chooses, is the
  argument \<open>initret\<close>.
\<close>

section \<open>Operations\<close>

fun newpid_loop :: "nat \<Rightarrow> kernel \<Rightarrow> int \<times> kernel" where
  "newpid_loop 0 s = (SYSERR, s)"
| "newpid_loop (Suc n) s =
     (let p = nextpid s mod NPROC; s1 = s\<lparr>nextpid := p + 1\<rparr> in
      if prstate (proctab s p) = PR_FREE then (p, s1) else newpid_loop n s1)"

definition newpid :: "kernel \<Rightarrow> int \<times> kernel" where
  "newpid s = newpid_loop (nat NPROC) s"

definition roundew :: "nat \<Rightarrow> nat" where
  "roundew x = unat (and ((of_nat x :: 32 word) + 3) (not 3))"

abbreviation (input) MINSTK :: nat where "MINSTK \<equiv> 400"
abbreviation (input) STACKMAGIC :: nat where "STACKMAGIC \<equiv> 168471209"
abbreviation (input) CONSOLE :: int where "CONSOLE \<equiv> 0"
abbreviation (input) NDEVS :: int where "NDEVS \<equiv> 30"

text \<open>\<^verbatim>\<open>*--saddr = v\<close>\<close>

definition push :: "nat \<Rightarrow> nat \<times> heap \<Rightarrow> nat \<times> heap" where
  "push v = (\<lambda>(saddr, h). (sub32 saddr 4, h(sub32 saddr 4 := v)))"

definition stack_words :: "nat \<Rightarrow> nat \<Rightarrow> nat list \<Rightarrow> nat list" where
  "stack_words procaddr initret args =
     rev (drop 4 args) @ [procaddr] @ replicate 8 0 @
     map (\<lambda>i. if i \<le> length args then args ! (i - 1) else 0) [4, 3, 2, 1] @ [initret, 83]"

definition build_stack :: "nat \<Rightarrow> nat \<Rightarrow> nat \<Rightarrow> nat list \<Rightarrow> heap \<Rightarrow> nat \<times> heap" where
  "build_stack saddr procaddr initret args h =
     fold push (stack_words procaddr initret args) (saddr, h(saddr := STACKMAGIC))"

definition create :: "nat \<Rightarrow> nat \<Rightarrow> int \<Rightarrow> string \<Rightarrow> nat list \<Rightarrow> nat \<Rightarrow> kernel \<Rightarrow> int \<times> kernel" where
  "create procaddr ssize0 priority0 name args initret s =
     (let priority = s16 priority0; ssize = roundew (if ssize0 < MINSTK then MINSTK else ssize0) in
      case getstk ssize (kmem s) of
        None \<Rightarrow> (SYSERR, s\<lparr>kstat := Hung\<rparr>)
      | Some (None, m) \<Rightarrow> (SYSERR, s\<lparr>kmem := m\<rparr>)
      | Some (Some saddr, m) \<Rightarrow>
          let (pid, s1) = newpid (s\<lparr>kmem := m\<rparr>) in
          if pid = SYSERR then (SYSERR, s1)
          else if priority < 1 then (SYSERR, s1)
          else
            let (sp, h) = build_stack saddr procaddr initret args (mem (kmem s1));
                s2 = s1\<lparr>prcount := s32 (prcount s1 + 1), kmem := (kmem s1)\<lparr>mem := h\<rparr>,
                        pframe := (pframe s1)(pid := None)\<rparr>
            in (pid, upd_proc pid (\<lambda>e. e\<lparr>prstate := PR_SUSP, prprio := priority, prstkptr := sp,
                    prstkbase := saddr, prstklen := ssize, prname := take 15 name, prsem := - 1,
                    prparent := getpid s2, prhasmsg := False,
                    prdesc := [CONSOLE, CONSOLE, CONSOLE] @ drop 3 (prdesc e)\<rparr>) s2))"

definition xdone :: "kernel \<Rightarrow> kernel" where
  "xdone s = s\<lparr>kstat := Halted\<rparr>"

text \<open>The call \<^verbatim>\<open>close(d)\<close>: a bad descriptor returns at once, a good one calls the driver.\<close>

definition close_call :: "int \<Rightarrow> kernel \<Rightarrow> kernel" where
  "close_call d s = (if d < 0 \<or> d \<ge> NDEVS then s else s\<lparr>devlog := devlog s @ [DevClose d]\<rparr>)"

definition kill_state :: "int \<Rightarrow> kernel \<Rightarrow> int option \<times> kernel" where
  "kill_state pid s =
     (case prstate (proctab s pid) of
        PR_CURR \<Rightarrow>
          (let s1 = resched (set_state pid PR_FREE s) in
           if currpid s1 = currpid s then (Some OK, set_state pid PR_FREE (snd (unsleep pid s1)))
           else (None, s1))
      | PR_SLEEP \<Rightarrow> (Some OK, set_state pid PR_FREE (snd (unsleep pid s)))
      | PR_RECTIM \<Rightarrow> (Some OK, set_state pid PR_FREE (snd (unsleep pid s)))
      | PR_WAIT \<Rightarrow>
          (let s1 = upd_sem (prsem (proctab s pid)) (\<lambda>e. e\<lparr>scount := s32 (scount e + 1)\<rparr>) s
           in (Some OK, set_state pid PR_FREE (snd (getitem pid s1))))
      | PR_READY \<Rightarrow> (Some OK, set_state pid PR_FREE (snd (getitem pid s)))
      | _ \<Rightarrow> (Some OK, set_state pid PR_FREE s))"

definition kill_rest :: "int \<Rightarrow> kernel \<Rightarrow> int option \<times> kernel" where
  "kill_rest pid s =
     (let s1 = fold (\<lambda>i. close_call (prdesc (proctab s pid) ! i)) [0, 1, 2] s in
      case freestk (prstkbase (proctab s1 pid)) (prstklen (proctab s1 pid)) (kmem s1) of
        None \<Rightarrow> (None, s1\<lparr>kstat := Hung\<rparr>)
      | Some (_, m) \<Rightarrow> kill_state pid (s1\<lparr>kmem := m\<rparr>))"

definition kill :: "int \<Rightarrow> kernel \<Rightarrow> int option \<times> kernel" where
  "kill pid s =
     (if isbadpid (proctab s) pid \<or> pid = NULLPROC \<or> prstate (proctab s pid) = PR_FREE
      then (Some SYSERR, s)
      else
        let s1 = s\<lparr>prcount := s32 (prcount s - 1)\<rparr> in
        if prcount s1 \<le> 1 then (None, xdone s1)
        else
          let s2 = snd (send (prparent (proctab s1 pid)) (word_of_int pid) s1)
          in case resume_point s1 s2 (F_kill pid) (kill_rest pid) of
               (Some r, t) \<Rightarrow> (r, t)
             | (None, t) \<Rightarrow> (None, t))"

definition exit :: "kernel \<Rightarrow> int option \<times> kernel" where
  "exit s = kill (getpid s) s"

definition userret :: "kernel \<Rightarrow> int option \<times> kernel" where
  "userret s = kill (getpid s) s"

section \<open>Killing keeps the invariant\<close>

lemma kcore_free:
  assumes k: "kcore s L {p}" and sm: "sems_ok s L" and nd: "ndefers s = 0"
    and c: "prstate (proctab s (currpid s)) = PR_CURR" "p \<noteq> currpid s" "p \<noteq> NULLPROC"
  shows "kinv (set_state p PR_FREE s) L"
  using kcore_park [of s L p "{}" PR_FREE] assms by (simp add: kinv_def)

lemma kill_waiting:
  assumes k: "kinv s L" and p: "p \<in> {0..<NPROC}" "p \<noteq> NULLPROC" and st: "prstate (proctab s p) = PR_WAIT"
  shows "\<exists>L'. kinv (set_state p PR_FREE (snd (getitem p
    (upd_sem (prsem (proctab s p)) (\<lambda>e. e\<lparr>scount := s32 (scount e + 1)\<rparr>) s)))) L'"
proof -
  note K = kinvD [OF k] and C = kcoreD [OF kinvD(1) [OF k]]
  let ?i = "prsem (proctab s p)"
  let ?q = "squeue (semtab s ?i)" and ?s = "upd_sem ?i (\<lambda>e. e\<lparr>scount := s32 (scount e + 1)\<rparr>) s"
  have i: "?i \<in> {0..<NSEM}" using C(3) p(1) st unfolding placed_def by blast
  have q: "is_head s ?q" by (rule qids_okD(4) [OF C(2) i])
  have m: "p \<in> set (L ?q)" using placed_mem [OF C(3) p(1) q] st by (simp add: home_def)
  have cnt: "sem_ok s L ?i" and oth: "sems_ok_but ?i s L" using K(2) by (simp_all add: sems_ok_split [OF i])
  have "int (length (L ?q)) = max 0 (- scount (semtab s ?i))" using cnt by (simp add: sem_ok_def sem_cnt_def)
  moreover have "0 < length (L ?q)" using m by (rule length_pos_if_in_set)
  ultimately have neg: "scount (semtab s ?i) < 0" and len: "int (length (L ?q)) = - scount (semtab s ?i)" by linarith+
  have s32: "s32 (scount (semtab s ?i) + 1) = scount (semtab s ?i) + 1"
    using waiting_length [OF K(1) i] len neg by (intro s32_id) linarith+
  have ks: "kcore ?s L {}" using K(1) by (simp add: kcore_upd_sem)
  have qs: "is_head ?s ?q" using q by (simp add: is_head_def)
  from kcore_getitem [OF ks qs m] obtain qt where
    g: "getitem p ?s = (p, ?s\<lparr>queuetab := qt\<rparr>)" "kcore (?s\<lparr>queuetab := qt\<rparr>) (L(?q := remove1 p (L ?q))) {p}" by auto
  have "sem_ok (?s\<lparr>queuetab := qt\<rparr>) (L(?q := remove1 p (L ?q))) ?i"
    using cnt len neg m s32 \<open>0 < length (L ?q)\<close> by (auto simp: sem_ok_def sem_cnt_def length_remove1)
  moreover have "sems_ok_but ?i (?s\<lparr>queuetab := qt\<rparr>) (L(?q := remove1 p (L ?q)))"
    by (rule sems_ok_but_upd [OF K(1) i oth refl]) simp
  ultimately have "sems_ok (?s\<lparr>queuetab := qt\<rparr>) (L(?q := remove1 p (L ?q)))" by (simp add: sems_ok_split [OF i])
  moreover have "p \<noteq> currpid s" using K(4) st by auto
  ultimately show ?thesis using kcore_free [OF g(2)] K(3,4) p(2) g(1) by auto
qed

lemma kill_sleeping:
  assumes k: "kinv s L" and p: "p \<in> {0..<NPROC}" "p \<noteq> NULLPROC"
    and st: "prstate (proctab s p) = PR_SLEEP \<or> prstate (proctab s p) = PR_RECTIM"
  shows "\<exists>L'. kinv (set_state p PR_FREE (snd (unsleep p s))) L'"
proof -
  note K = kinvD [OF k]
  from unsleep_kcore [OF K(1) p(1) st] obtain us vs qt where
    u: "unsleep p s = (OK, s\<lparr>queuetab := qt\<rparr>)" "kcore (s\<lparr>queuetab := qt\<rparr>) (L(sleepq s := us @ vs)) {p}" by metis
  have "sems_ok (s\<lparr>queuetab := qt\<rparr>) (L(sleepq s := us @ vs))"
    using sems_ok_other_queue [OF K(1) _ _ K(2)] by simp
  moreover have "p \<noteq> currpid s" using K(4) st by auto
  ultimately show ?thesis using kcore_free [OF u(2)] K(3,4) p(2) u(1) by auto
qed

lemma kill_ready:
  assumes k: "kinv s L" and p: "p \<in> {0..<NPROC}" "p \<noteq> NULLPROC" and st: "prstate (proctab s p) = PR_READY"
  shows "\<exists>L'. kinv (set_state p PR_FREE (snd (getitem p s))) L'"
proof -
  note K = kinvD [OF k] and C = kcoreD [OF kinvD(1) [OF k]]
  have "p \<in> set (L (readylist s))" using queue_iff_state(1) [OF K(1) p(1)] st by simp
  from kcore_getitem [OF K(1) C(8) this] obtain qt where
    g: "getitem p s = (p, s\<lparr>queuetab := qt\<rparr>)"
      "kcore (s\<lparr>queuetab := qt\<rparr>) (L(readylist s := remove1 p (L (readylist s)))) {p}" by auto
  have "sems_ok (s\<lparr>queuetab := qt\<rparr>) (L(readylist s := remove1 p (L (readylist s))))"
    using sems_ok_other_queue [OF K(1) _ _ K(2)] by simp
  moreover have "p \<noteq> currpid s" using K(4) st by auto
  ultimately show ?thesis using kcore_free [OF g(2)] K(3,4) p(2) g(1) by auto
qed

lemma kill_current:
  assumes k: "kinv s L" and p: "p \<in> {0..<NPROC}" "p \<noteq> NULLPROC" and st: "prstate (proctab s p) = PR_CURR"
  shows "\<exists>L'. kinv (resched (set_state p PR_FREE s)) L'" "currpid (resched (set_state p PR_FREE s)) \<noteq> currpid s"
    "currpid s = p"
proof -
  note K = kinvD [OF k]
  show pc: "currpid s = p" using kcoreD(4) [OF K(1)] p(1) st by (simp add: cur_ok_def)
  from block_current_kinv [OF k, of PR_FREE] p(2) pc obtain xs where
    b: "kinv (resched (set_state p PR_FREE s)) (L(readylist s := xs))"
      "switch_frame (set_state p PR_FREE s) (resched (set_state p PR_FREE s))" by auto
  show "\<exists>L'. kinv (resched (set_state p PR_FREE s)) L'" using b(1) by blast
  have "kcore s L (insert p {})" using kcore_curr_transit [OF K(1,6)] pc by simp
  from kcore_park [OF this _ p(2), of PR_FREE] have kc: "kcore (set_state (currpid s) PR_FREE s) L {}" by (simp add: pc)
  from blocked_state(1) [OF kc K(3,5) _ _ _ refl] b(2) kinvD(4) [OF b(1)]
  show "currpid (resched (set_state p PR_FREE s)) \<noteq> currpid s" by (auto simp: pc)
qed

lemma kill_parked:
  assumes k: "kinv s L" and p: "p \<in> {0..<NPROC}" "p \<noteq> NULLPROC"
    and st: "prstate (proctab s p) \<in> {PR_FREE, PR_SUSP, PR_RECV}"
  shows "\<exists>L'. kinv (set_state p PR_FREE s) L'"
proof -
  note K = kinvD [OF k]
  have "kcore s L {p}" using st by (intro kcore_curr_transit K(1)) (auto simp: home_def)
  moreover have "p \<noteq> currpid s" using K(4) st by auto
  ultimately show ?thesis using kcore_free K(2,3,4) p(2) by blast
qed

lemma kill_state_kinv:
  assumes k: "kinv s L" and p: "p \<in> {0..<NPROC}" "p \<noteq> NULLPROC"
  shows "\<exists>L'. kinv (snd (kill_state p s)) L'"
proof (cases "prstate (proctab s p)")
  case PR_CURR
  then show ?thesis using kill_current [OF k p] by (auto simp: kill_state_def Let_def)
next
  case PR_WAIT
  then show ?thesis using kill_waiting [OF k p] by (simp add: kill_state_def Let_def)
next
  case PR_READY
  then show ?thesis using kill_ready [OF k p] by (simp add: kill_state_def)
next
  case PR_SLEEP
  then show ?thesis using kill_sleeping [OF k p] by (simp add: kill_state_def)
next
  case PR_RECTIM
  then show ?thesis using kill_sleeping [OF k p] by (simp add: kill_state_def)
qed (auto simp: kill_state_def intro: kill_parked [OF k p])

section \<open>Stacks\<close>

text \<open>Every stack recorded in the process table is a span of the heap. The free list is intact and
  \<open>F\<close> is the set of free bytes.\<close>

definition stk_ok :: "memory \<Rightarrow> procent \<Rightarrow> bool" where
  "stk_ok m e \<longleftrightarrow> prstklen e = 0 \<or> good_size (prstklen e) \<and> stk_span (prstkbase e) (prstklen e) \<subseteq> heap_range m"

definition kmem_ok :: "kernel \<Rightarrow> nat set \<Rightarrow> bool" where
  "kmem_ok s F \<longleftrightarrow> mem_free (kmem s) F \<and> (\<forall>p \<in> {0..<NPROC}. stk_ok (kmem s) (proctab s p))"

lemma kmem_ok_quiet: "quiet s s' \<Longrightarrow> kmem_ok s' F = kmem_ok s F"
  by (simp add: kmem_ok_def stk_ok_def quiet_def)

lemma freestk_returns:
  assumes m: "mem_free m F" and e: "stk_ok m e"
  obtains r m' F' where "freestk (prstkbase e) (prstklen e) m = Some (r, m')" "mem_free m' F'"
    "heap_range m' = heap_range m"
    "prstklen e \<noteq> 0 \<Longrightarrow> stk_span (prstkbase e) (prstklen e) \<inter> F = {} \<Longrightarrow>
       r = OK \<and> F' = F \<union> stk_span (prstkbase e) (prstklen e)"
proof (cases "prstklen e \<noteq> 0 \<and> stk_span (prstkbase e) (prstklen e) \<inter> F = {}")
  case True
  from stacks.release_ok [OF m _ _ conjunct2 [OF True]] e True obtain m' where
    "freestk (prstkbase e) (prstklen e) m = Some (1, m')"
    "mem_free m' (F \<union> stk_span (prstkbase e) (prstklen e))" "heap_range m' = heap_range m"
    unfolding stk_ok_def by blast
  with that show thesis by blast
next
  case False
  have "freestk (prstkbase e) (prstklen e) m = Some (SYSERR, m)"
  proof (cases "prstklen e = 0")
    case True
    then show ?thesis by (simp add: freestk_def freemem_def roundmb_eq)
  next
    case nz: False
    then have "good_size (prstklen e)" "stk_span (prstkbase e) (prstklen e) \<subseteq> heap_range m"
      "stk_span (prstkbase e) (prstklen e) \<inter> F \<noteq> {}" using e False by (auto simp: stk_ok_def)
    from stacks.release_bad [OF m this] show ?thesis .
  qed
  with that [of SYSERR m F] m False show thesis by blast
qed

lemma close_call_log: "\<exists>d. close_call x s = s\<lparr>devlog := d\<rparr>"
proof (cases "x < 0 \<or> x \<ge> NDEVS")
  case True
  then have "close_call x s = s\<lparr>devlog := devlog s\<rparr>" by (simp add: close_call_def)
  then show ?thesis by blast
next
  case False
  then have "close_call x s = s\<lparr>devlog := devlog s @ [DevClose x]\<rparr>" by (simp add: close_call_def)
  then show ?thesis by blast
qed

lemma close_calls: "\<exists>d. fold (\<lambda>i. close_call (f i)) is s = s\<lparr>devlog := d\<rparr>"
proof (induction "is" arbitrary: s)
  case Nil
  show ?case by (rule exI [of _ "devlog s"]) simp
next
  case (Cons i "is")
  obtain d where "close_call (f i) s = s\<lparr>devlog := d\<rparr>" using close_call_log by blast
  then show ?case using Cons.IH [of "s\<lparr>devlog := d\<rparr>"] by auto
qed

lemma heap_range_stk_ok: "heap_range m' = heap_range m \<Longrightarrow> stk_ok m' e = stk_ok m e"
  by (simp add: stk_ok_def)

lemma kill_state_quiet: "quiet s t \<Longrightarrow> quiet s (snd (kill_state p t))"
  by (simp add: kill_state_def Let_def quiet_ops split: prstate.split)

theorem kill_rest_kinv:
  assumes k: "kinv s L" and m: "kmem_ok s F" and p: "p \<in> {0..<NPROC}" "p \<noteq> NULLPROC"
  shows "\<exists>L' F'. kinv (snd (kill_rest p s)) L' \<and> kmem_ok (snd (kill_rest p s)) F'"
proof -
  obtain d where d: "fold (\<lambda>i. close_call (prdesc (proctab s p) ! i)) [0, 1, 2] s = s\<lparr>devlog := d\<rparr>"
    using close_calls [of "\<lambda>i. prdesc (proctab s p) ! i" "[0, 1, 2]" s] by (rule exE)
  have mf: "mem_free (kmem s) F" and so: "\<forall>q \<in> {0..<NPROC}. stk_ok (kmem s) (proctab s q)"
    using m by (auto simp: kmem_ok_def)
  obtain r m' F' where f: "freestk (prstkbase (proctab s p)) (prstklen (proctab s p)) (kmem s) = Some (r, m')"
    and m': "mem_free m' F'" "heap_range m' = heap_range (kmem s)"
    by (rule freestk_returns [OF mf, of "proctab s p"]) (use so p in auto)
  let ?s = "s\<lparr>devlog := d, kmem := m'\<rparr>"
  have e: "kill_rest p s = kill_state p ?s"
    unfolding kill_rest_def Let_def d by (simp add: f)
  have "kinv ?s L" using k by simp
  from kill_state_kinv [OF this p] obtain L' where "kinv (snd (kill_state p ?s)) L'" by blast
  moreover have "kmem_ok ?s F'" using m' so by (simp add: kmem_ok_def heap_range_stk_ok [OF m'(2)])
  ultimately show ?thesis using kmem_ok_quiet [OF kill_state_quiet [OF quiet_refl [of ?s], of p]] e by auto
qed

theorem kill_kinv:
  assumes k: "kinv s L" and m: "kmem_ok s F"
  shows "kstat (snd (kill p s)) = Halted \<or> (\<exists>L' F'. kinv (snd (kill p s)) L' \<and> kmem_ok (snd (kill p s)) F')"
proof (cases "isbadpid (proctab s) p \<or> p = NULLPROC")
  case True
  then have "snd (kill p s) = s" by (auto simp: kill_def)
  then show ?thesis using k m by auto
next
  case False
  then have p: "p \<in> {0..<NPROC}" "p \<noteq> NULLPROC" "prstate (proctab s p) \<noteq> PR_FREE"
    by (auto dest: isbadpid_range simp: isbadpid_def)
  let ?s1 = "s\<lparr>prcount := s32 (prcount s - 1)\<rparr>"
  let ?s2 = "snd (send (prparent (proctab s p)) (word_of_int p) ?s1)"
  show ?thesis
  proof (cases "s32 (prcount s - 1) \<le> 1")
    case True
    then show ?thesis using False p by (simp add: kill_def xdone_def)
  next
    case more: False
    have "kinv ?s1 L" using k by simp
    from send_kinv [OF this] obtain L' where k2: "kinv ?s2 L'" by blast
    have "quiet ?s1 ?s2" by (rule quiet_send) simp
    then have m2: "kmem_ok ?s2 F" using m by (simp add: kmem_ok_quiet) (simp add: kmem_ok_def)
    have "kill p s = (case resume_point ?s1 ?s2 (F_kill p) (kill_rest p) of (Some r, t) \<Rightarrow> (r, t) | (None, t) \<Rightarrow> (None, t))"
      using False p more by (simp add: kill_def Let_def)
    then have "snd (kill p s) = snd (resume_point ?s1 ?s2 (F_kill p) (kill_rest p))"
      by (simp split: prod.split option.split)
    moreover have "\<exists>L' F'. kinv (snd (resume_point ?s1 ?s2 (F_kill p) (kill_rest p))) L' \<and>
        kmem_ok (snd (resume_point ?s1 ?s2 (F_kill p) (kill_rest p))) F'"
    proof (cases "currpid ?s2 = currpid ?s1")
      case True
      then show ?thesis using kill_rest_kinv [OF k2 m2 p(1,2)] by (auto simp: resume_point_def split: prod.splits)
    next
      case False
      have "kinv (?s2\<lparr>pframe := (pframe ?s2)(currpid ?s1 := Some (F_kill p))\<rparr>) L'"
        by (rule kinv_frame [OF k2]) simp
      moreover have "kmem_ok (?s2\<lparr>pframe := (pframe ?s2)(currpid ?s1 := Some (F_kill p))\<rparr>) F"
        using m2 by (simp add: kmem_ok_def)
      ultimately show ?thesis using False by (auto simp: resume_point_def)
    qed
    ultimately show ?thesis by simp
  qed
qed

section \<open>Creating a process\<close>

lemma newpid_loop_result:
  assumes "0 \<le> nextpid s"
  shows "case newpid_loop n s of (p, s') \<Rightarrow>
    0 \<le> nextpid s' \<and> s' = s\<lparr>nextpid := nextpid s'\<rparr> \<and>
    (if p = SYSERR then \<forall>j. 0 \<le> j \<and> j < int n \<longrightarrow> prstate (proctab s ((nextpid s + j) mod NPROC)) \<noteq> PR_FREE
     else p \<in> {0..<NPROC} \<and> prstate (proctab s p) = PR_FREE)"
  using assms
proof (induction n arbitrary: s)
  case (Suc n)
  let ?p = "nextpid s mod NPROC"
  show ?case
  proof (cases "prstate (proctab s ?p) = PR_FREE")
    case True
    moreover have "?p \<in> {0..<NPROC}" "?p \<noteq> SYSERR" using pos_mod_sign [of NPROC "nextpid s"] by auto
    ultimately show ?thesis by (simp add: Let_def)
  next
    case False
    have e: "newpid_loop (Suc n) s = newpid_loop n (s\<lparr>nextpid := ?p + 1\<rparr>)" using False by (simp add: Let_def)
    have IH: "case newpid_loop n (s\<lparr>nextpid := ?p + 1\<rparr>) of (p, s') \<Rightarrow>
      0 \<le> nextpid s' \<and> s' = (s\<lparr>nextpid := ?p + 1\<rparr>)\<lparr>nextpid := nextpid s'\<rparr> \<and>
      (if p = SYSERR then \<forall>j. 0 \<le> j \<and> j < int n \<longrightarrow> prstate (proctab s ((?p + 1 + j) mod NPROC)) \<noteq> PR_FREE
       else p \<in> {0..<NPROC} \<and> prstate (proctab s p) = PR_FREE)"
      using Suc.IH [of "s\<lparr>nextpid := ?p + 1\<rparr>"] by (simp cong: if_cong)
    have step: "prstate (proctab s ((nextpid s + j) mod NPROC)) \<noteq> PR_FREE"
      if all: "\<forall>j. 0 \<le> j \<and> j < int n \<longrightarrow> prstate (proctab s ((?p + 1 + j) mod NPROC)) \<noteq> PR_FREE"
        and j: "0 \<le> j" "j < int (Suc n)" for j
    proof (cases "j = 0")
      case False
      have "(?p + 1 + (j - 1)) mod NPROC = (nextpid s + j) mod NPROC" by (simp add: mod_simps algebra_simps)
      then show ?thesis using all [rule_format, of "j - 1"] j False by simp
    qed (use False in simp)
    show ?thesis unfolding e using IH step by (auto split: prod.splits if_splits)
  qed
qed auto

lemma newpid_result:
  assumes "0 \<le> nextpid s" "newpid s = (p, s')"
  shows "0 \<le> nextpid s'" "s' = s\<lparr>nextpid := nextpid s'\<rparr>"
    "p \<noteq> SYSERR \<Longrightarrow> p \<in> {0..<NPROC} \<and> prstate (proctab s p) = PR_FREE"
    "p = SYSERR \<Longrightarrow> q \<in> {0..<NPROC} \<Longrightarrow> prstate (proctab s q) \<noteq> PR_FREE"
proof -
  have n: "newpid_loop 100 s = (p, s')" using assms(2) by (simp add: newpid_def)
  have r: "0 \<le> nextpid s' \<and> s' = s\<lparr>nextpid := nextpid s'\<rparr> \<and>
    (if p = SYSERR then \<forall>j. 0 \<le> j \<and> j < int 100 \<longrightarrow> prstate (proctab s ((nextpid s + j) mod NPROC)) \<noteq> PR_FREE
     else p \<in> {0..<NPROC} \<and> prstate (proctab s p) = PR_FREE)"
    using newpid_loop_result [OF assms(1), of 100] unfolding n prod.case .
  show "0 \<le> nextpid s'" "s' = s\<lparr>nextpid := nextpid s'\<rparr>" by (fact conjunct1 [OF r] conjunct1 [OF conjunct2 [OF r]])+
  show "p \<noteq> SYSERR \<Longrightarrow> p \<in> {0..<NPROC} \<and> prstate (proctab s p) = PR_FREE"
    using conjunct2 [OF conjunct2 [OF r]] by (simp only: if_False)
  show "prstate (proctab s q) \<noteq> PR_FREE" if "p = SYSERR" "q \<in> {0..<NPROC}"
  proof -
    have "(nextpid s + (q - nextpid s) mod NPROC) mod NPROC = q" using that(2) by (simp add: mod_simps)
    moreover have "0 \<le> (q - nextpid s) mod NPROC" "(q - nextpid s) mod NPROC < 100" by simp_all
    moreover have "\<forall>j. 0 \<le> j \<and> j < int 100 \<longrightarrow> prstate (proctab s ((nextpid s + j) mod NPROC)) \<noteq> PR_FREE"
      using conjunct2 [OF conjunct2 [OF r]] that(1) by (simp only: if_True simp_thms)
    ultimately show ?thesis by (metis of_nat_numeral)
  qed
qed

text \<open>The words are pushed one below the other and nothing else is written.\<close>

lemma push_words:
  "4 * length ws \<le> a \<Longrightarrow> a < 4294967296 \<Longrightarrow> fold push ws (a, h) = (b, h') \<Longrightarrow>
   b = a - 4 * length ws \<and> (\<forall>x. x < a - 4 * length ws \<or> a \<le> x \<longrightarrow> h' x = h x) \<and>
   (\<forall>i < length ws. h' (a - 4 * (i + 1)) = ws ! i)"
proof (induction ws arbitrary: a h)
  case (Cons w ws)
  have p: "push w (a, h) = (a - 4, h(a - 4 := w))" using Cons.prems by (simp add: push_def)
  have pre: "4 * length ws \<le> a - 4" "a - 4 < 4294967296" "fold push ws (a - 4, h(a - 4 := w)) = (b, h')"
    using Cons.prems p by simp_all
  have "b = a - 4 - 4 * length ws \<and> (\<forall>x. x < a - 4 - 4 * length ws \<or> a - 4 \<le> x \<longrightarrow> h' x = (h(a - 4 := w)) x) \<and>
    (\<forall>i < length ws. h' (a - 4 - 4 * (i + 1)) = ws ! i)"
    using Cons.IH [OF pre] .
  then have IH: "b = a - 4 - 4 * length ws" "\<And>x. x < a - 4 - 4 * length ws \<or> a - 4 \<le> x \<Longrightarrow> h' x = (h(a - 4 := w)) x"
    "\<And>i. i < length ws \<Longrightarrow> h' (a - 4 - 4 * (i + 1)) = ws ! i" by blast+
  have "h' (a - 4 * (i + 1)) = (w # ws) ! i" if "i < length (w # ws)" for i
  proof (cases i)
    case 0
    then show ?thesis using IH(2) [of "a - 4"] by simp
  next
    case (Suc j)
    have "a - 4 * (i + 1) = a - 4 - 4 * (j + 1)" by (simp add: Suc)
    then show ?thesis using IH(3) [of j] that Suc by simp
  qed
  moreover have "h' x = h x" if "x < a - 4 * length (w # ws) \<or> a \<le> x" for x
  proof -
    have "x < a - 4 - 4 * length ws \<or> a - 4 \<le> x" "x \<noteq> a - 4" using that Cons.prems(1) by auto
    then show ?thesis using IH(2) [of x] by simp
  qed
  ultimately show ?case using IH(1) by simp
qed simp

lemma stack_words_length: "length (stack_words p r args) = length args - 4 + 15"
  by (simp add: stack_words_def)

lemma mem_ok_write:
  assumes m: "mem_ok m bs" and h: "\<forall>x. x \<in> free_bytes bs \<or> x < minheap m \<longrightarrow> h x = mem m x"
  shows "mem_ok (m\<lparr>mem := h\<rparr>) bs"
proof -
  have hd: "h (memlist m) = mem m (memlist m)" "h (memlist m + 4) = mem m (memlist m + 4)"
    using h mem_okD(2) [OF m] by auto
  have "\<forall>b \<in> fst ` set bs. h b = mem m b \<and> h (b + 4) = mem m (b + 4)"
    using block_bytes [OF mem_okD(4) [OF m], of _ _ 0] block_bytes [OF mem_okD(4) [OF m], of _ _ 4] h by force
  from blks_cong [OF this] m hd show ?thesis by (simp add: mem_ok_def)
qed

lemma mem_free_write:
  assumes m: "mem_free m F" and h: "\<forall>x. x \<notin> A \<longrightarrow> h x = mem m x" and A: "A \<subseteq> heap_range m" "A \<inter> F = {}"
  shows "mem_free (m\<lparr>mem := h\<rparr>) F"
proof -
  obtain bs where bs: "mem_ok m bs" "free_bytes bs = F" using m by (auto simp: mem_free_def)
  have "\<forall>x. x \<in> free_bytes bs \<or> x < minheap m \<longrightarrow> h x = mem m x" using h A bs(2) by (auto simp: heap_range_def)
  from mem_ok_write [OF bs(1) this] bs(2) show ?thesis by (auto simp: mem_free_def)
qed

lemma roundew_eq: "x < 4294967293 \<Longrightarrow> roundew x = (x + 3) div 4 * 4"
proof -
  assume x: "x < 4294967293"
  then have "unat ((of_nat x :: 32 word) + 3) = x + 3"
    by (simp add: unat_word_ariths unat_of_nat take_bit_eq_mod)
  then show ?thesis using unat_and_not_mask [of "of_nat x + 3" 2] by (simp add: roundew_def mask_eq_exp_minus_1)
qed

text \<open>The size of the stack that \<^verbatim>\<open>create\<close> asks for, and what the arguments may take of it.\<close>

definition stk_size :: "nat \<Rightarrow> nat" where
  "stk_size ssize0 = roundew (if ssize0 < MINSTK then MINSTK else ssize0)"

lemma stk_size_good:
  assumes "n < 4294967280"
  shows "good_size (stk_size n)" "MINSTK \<le> stk_size n" "n \<le> stk_size n"
proof -
  have "stk_size n = ((if n < MINSTK then MINSTK else n) + 3) div 4 * 4"
    unfolding stk_size_def by (rule roundew_eq) (use assms in simp)
  then show "good_size (stk_size n)" "MINSTK \<le> stk_size n" "n \<le> stk_size n"
    using assms by (auto simp: good_size_def)
qed

lemma kcore_new_process:
  assumes k: "kinv s L" and p: "p \<in> {0..<NPROC}" "prstate (proctab s p) = PR_FREE" and fr: "pframe s p = None"
    and f: "prstate (f (proctab s p)) = PR_SUSP" "\<not> prhasmsg (f (proctab s p))"
      "- 32768 \<le> prprio (f (proctab s p))" "prprio (f (proctab s p)) \<le> 32767"
  shows "kinv (upd_proc p f s) L"
proof -
  note K = kinvD [OF k] and C = kcoreD [OF kinvD(1) [OF k]]
  let ?s = "upd_proc p f s"
  have st: "proctab ?s = (proctab s)(p := f (proctab s p))" by (simp add: upd_proc_def)
  have op: "only_proc s ?s p" using f(1) by (simp add: only_proc_def same_q_def upd_proc_def)
  have "placed s L {p}" using C(3) p(2) placed_transit [of s p L "{}"] by (simp add: home_def)
  then have "placed ?s L {p}" by (rule placed_stay [OF _ op]) simp
  then have pl: "placed ?s L {}" using placed_transit [of ?s p L "{}"] f(1) by (simp add: home_def st)
  have nc1: "p \<noteq> currpid s" using K(4) p(2) by auto
  have "prstate (proctab s NULLPROC) \<noteq> PR_FREE" using C(4) by (auto simp: cur_ok_def)
  then have nc: "p \<noteq> currpid s" "p \<noteq> NULLPROC" using nc1 p(2) by auto
  have "prstate (proctab ?s q) = PR_CURR \<Longrightarrow> prstate (proctab s q) = PR_CURR" for q using f(1) by (auto simp: st split: if_splits)
  then have "cur_ok ?s" using C(4) nc by (simp add: cur_ok_def) (simp add: st upd_proc_def)
  moreover have "prio_ok ?s" using C(5) f(3,4) by (simp add: prio_ok_def st)
  moreover have "msg_ok ?s {}" using C(11) f(1,2) fr by (auto simp: msg_ok_def upd_proc_def)
  moreover have "qrel ?s L" "qids_ok ?s" using C(1,2) by (simp_all add: qrel_def qids_ok_def is_head_def upd_proc_def)
  ultimately have "kcore ?s L {}" using C pl by (simp add: kcore_def upd_proc_def)
  then show ?thesis using K nc by (simp add: kinv_def sems_ok_upd_proc) (simp add: upd_proc_def)
qed

lemma build_stack_result:
  assumes "build_stack a p r args h = (sp, h')" "4 * (length args - 4 + 15) \<le> a" "a < 4294967296"
  shows "sp = a - 4 * (length args - 4 + 15)" "h' a = STACKMAGIC"
    "\<And>x. x < sp \<or> a < x \<Longrightarrow> h' x = h x"
    "\<And>i. i < length args - 4 + 15 \<Longrightarrow> h' (a - 4 * (i + 1)) = stack_words p r args ! i"
proof -
  have f: "fold push (stack_words p r args) (a, h(a := STACKMAGIC)) = (sp, h')"
    using assms(1) by (simp add: build_stack_def)
  have l: "4 * length (stack_words p r args) \<le> a" using assms(2) by (simp add: stack_words_length)
  note P = push_words [OF l assms(3) f, unfolded stack_words_length]
  show "sp = a - 4 * (length args - 4 + 15)" using P by blast
  show "h' a = STACKMAGIC" using conjunct1 [OF conjunct2 [OF P], rule_format, of a] by simp
  show "h' x = h x" if "x < sp \<or> a < x" for x
    using conjunct1 [OF conjunct2 [OF P], rule_format, of x] conjunct1 [OF P] that by auto
  show "\<And>i. i < length args - 4 + 15 \<Longrightarrow> h' (a - 4 * (i + 1)) = stack_words p r args ! i"
    using conjunct2 [OF conjunct2 [OF P]] by blast
qed

lemma getstk_touches:
  assumes "mem_free m F" "good_size n" "getstk n m = Some (r, m')"
  shows "touches m m' F"
proof -
  obtain bs where bs: "mem_ok m bs" "free_bytes bs = F" using assms(1) by (auto simp: mem_free_def)
  show ?thesis
    by (rule getstk_result [OF bs(1) good_roundmb(1) [OF assms(2)] refl good_roundmb(2) [OF assms(2)]])
      (use assms(3) bs(2) in \<open>auto simp: touches_def\<close>)
qed

lemma stk_span_bounds:
  assumes m: "mem_free m F" and g: "good_size n" and s: "stk_span a n \<subseteq> heap_range m"
  shows "n \<le> a" "a < 4294967296" "a - n + 4 \<in> stk_span a n" "a \<in> stk_span a n" "minheap m \<le> a + 4 - roundmb n"
proof -
  obtain bs where bs: "mem_ok m bs" using m by (auto simp: mem_free_def)
  have r: "n \<le> roundmb n" "0 < roundmb n" "0 < n" using g roundmb_bounds [of n] by (auto simp: good_size_def)
  have "{a + 4 - roundmb n..<a + 4} \<subseteq> {minheap m..<maxheap m}" using s by (simp add: stk_span_def heap_range_def)
  then have b: "minheap m \<le> a + 4 - roundmb n" "a + 4 \<le> maxheap m" using r(2) by (auto simp: ivl_subset)
  then show "n \<le> a" "a < 4294967296" "minheap m \<le> a + 4 - roundmb n" using mem_okD(2,3) [OF bs] r by auto
  have "8 \<le> roundmb n" using r(2) roundmb_dvd [of n] dvd_imp_le by blast
  then show "a - n + 4 \<in> stk_span a n" "a \<in> stk_span a n" using r \<open>n \<le> a\<close> by (auto simp: stk_span_def)
qed

text \<open>The parts of the state \<^verbatim>\<open>create\<close> relies on, and its three outcomes: no memory for the stack; a stack
  but no process (it is not given back); a new suspended process that owns the stack.\<close>

definition args_fit :: "nat list \<Rightarrow> nat \<Rightarrow> bool" where
  "args_fit args ssize0 \<longleftrightarrow> ssize0 < 4294967280 \<and> 4 * (length args - 4 + 16) \<le> stk_size ssize0"

theorem create_result:
  assumes k: "kinv s L" and m: "kmem_ok s F" and np: "0 \<le> nextpid s" and a: "args_fit args n"
    and cr: "create procaddr n pr name args initret s = (r, s')"
  obtains (nostack) "r = SYSERR" "s' = s"
  | (leak) saddr where "r = SYSERR" "kinv s' L" "stk_span saddr (stk_size n) \<subseteq> F"
      "kmem_ok s' (F - stk_span saddr (stk_size n))" "0 \<le> nextpid s'" "proctab s' = proctab s"
      "s16 pr < 1 \<or> (\<forall>p \<in> {0..<NPROC}. prstate (proctab s p) \<noteq> PR_FREE)"
  | (new) e where "kinv s' L" "r \<in> {0..<NPROC}" "prstate (proctab s r) = PR_FREE" "proctab s' = (proctab s)(r := e)"
      "prstate e = PR_SUSP" "prprio e = s16 pr" "prparent e = currpid s" "prname e = take 15 name"
      "prstklen e = stk_size n" "stk_span (prstkbase e) (stk_size n) \<subseteq> F"
      "kmem_ok s' (F - stk_span (prstkbase e) (stk_size n))" "0 \<le> nextpid s'"
      "\<And>x. x \<notin> stk_span (prstkbase e) (stk_size n) \<Longrightarrow> x \<noteq> memlist (kmem s) \<Longrightarrow> x \<noteq> memlist (kmem s) + 4 \<Longrightarrow>
         x \<notin> F \<Longrightarrow> mem (kmem s') x = mem (kmem s) x"
      "prstkptr e = prstkbase e - 4 * (length args - 4 + 15)"
proof -
  have mf: "mem_free (kmem s) F" and so: "\<forall>q \<in> {0..<NPROC}. stk_ok (kmem s) (proctab s q)"
    using m by (auto simp: kmem_ok_def)
  have g: "good_size (stk_size n)" using a stk_size_good(1) by (simp add: args_fit_def)
  obtain r0 m1 where gs: "getstk (stk_size n) (kmem s) = Some (r0, m1)"
    using stacks.alloc_total [OF mf g] by (metis surj_pair)
  show thesis
  proof (cases r0)
    case None
    have "m1 = kmem s" using stacks.alloc_none [OF mf g] gs None by simp
    then show thesis using nostack cr gs None by (simp add: create_def Let_def stk_size_def)
  next
    case (Some saddr)
    from stacks.alloc_some [OF mf g] gs Some have
      A: "stk_span saddr (stk_size n) \<subseteq> F" "mem_free m1 (F - stk_span saddr (stk_size n))" "heap_range m1 = heap_range (kmem s)"
      by auto
    obtain p s1 where np1: "newpid (s\<lparr>kmem := m1\<rparr>) = (p, s1)" by (metis surj_pair)
    have npp: "0 \<le> nextpid (s\<lparr>kmem := m1\<rparr>)" using np by simp
    note N = newpid_result [OF npp np1]
    have s1: "s1 = s\<lparr>kmem := m1, nextpid := nextpid s1\<rparr>" using N(2) by simp
    have k1: "kinv s1 L" by (subst s1) (use k in simp)
    have so1: "\<forall>q \<in> {0..<NPROC}. stk_ok m1 (proctab s1 q)"
      by (subst s1) (use so heap_range_stk_ok [OF A(3)] in simp)
    have f1: "kmem s1 = m1" "proctab s1 = proctab s" "currpid s1 = currpid s" by (subst s1, simp)+
    have e: "create procaddr n pr name args initret s = (if p = SYSERR \<or> s16 pr < 1 then (SYSERR, s1) else
         let (sp, h) = build_stack saddr procaddr initret args (mem (kmem s1));
                s2 = s1\<lparr>prcount := s32 (prcount s1 + 1), kmem := (kmem s1)\<lparr>mem := h\<rparr>,
                        pframe := (pframe s1)(p := None)\<rparr>
            in (p, upd_proc p (\<lambda>e. e\<lparr>prstate := PR_SUSP, prprio := s16 pr, prstkptr := sp,
                    prstkbase := saddr, prstklen := stk_size n, prname := take 15 name, prsem := - 1,
                    prparent := getpid s2, prhasmsg := False,
                    prdesc := [CONSOLE, CONSOLE, CONSOLE] @ drop 3 (prdesc e)\<rparr>) s2))"
      using gs Some np1 by (simp add: create_def stk_size_def Let_def)
    show thesis
    proof (cases "p = SYSERR \<or> s16 pr < 1")
      case True
      have "kmem_ok s1 (F - stk_span saddr (stk_size n))" using A(2) so1 f1(1) by (simp add: kmem_ok_def)
      then show thesis using leak [of saddr] True cr e k1 A(1) N(1,4) f1 by auto
    next
      case False
      let ?S = "stk_span saddr (stk_size n)"
      have hs: "?S \<subseteq> heap_range m1" using A(1,3) mem_free_heap [OF mf] by simp
      note B = stk_span_bounds [OF A(2) g hs]
      have fit: "4 * (length args - 4 + 16) \<le> stk_size n" using a by (simp add: args_fit_def)
      obtain sp h where bs: "build_stack saddr procaddr initret args (mem m1) = (sp, h)" by (metis surj_pair)
      have le: "4 * (length args - 4 + 15) \<le> saddr" using fit B(1) by simp
      note W = build_stack_result [OF bs le B(2)]
      have hw: "h x = mem m1 x" if "x \<notin> ?S" for x
      proof -
        have "stk_size n \<le> roundmb (stk_size n)" using g by (intro roundmb_bounds) (simp add: good_size_def)
        then have "x < sp \<or> saddr < x" using that fit B(1) unfolding W(1) stk_span_def by auto
        then show ?thesis by (rule W(3))
      qed
      define e' where "e' = (proctab s p)\<lparr>prstate := PR_SUSP, prprio := s16 pr, prstkptr := sp,
        prstkbase := saddr, prstklen := stk_size n, prname := take 15 name, prsem := - 1,
        prparent := currpid s, prhasmsg := False, prdesc := [CONSOLE, CONSOLE, CONSOLE] @ drop 3 (prdesc (proctab s p))\<rparr>"
      define s2 where "s2 = s1\<lparr>prcount := s32 (prcount s1 + 1), kmem := m1\<lparr>mem := h\<rparr>, pframe := (pframe s1)(p := None)\<rparr>"
      have r: "r = p" "s' = upd_proc p (\<lambda>_. e') s2"
        using cr e False bs f1 by (auto simp: Let_def s2_def e'_def upd_proc_def getpid_def)
      have p: "p \<in> {0..<NPROC}" "prstate (proctab s p) = PR_FREE" using N(3) False by auto
      have "kinv (s1\<lparr>pframe := (pframe s1)(p := None)\<rparr>) L" by (rule kinv_frame [OF k1]) simp
      then have "kinv ((s1\<lparr>pframe := (pframe s1)(p := None)\<rparr>)\<lparr>prcount := s32 (prcount s1 + 1), kmem := m1\<lparr>mem := h\<rparr>\<rparr>) L"
        by simp
      moreover have "s2 = (s1\<lparr>pframe := (pframe s1)(p := None)\<rparr>)\<lparr>prcount := s32 (prcount s1 + 1), kmem := m1\<lparr>mem := h\<rparr>\<rparr>"
        by (simp add: s2_def)
      ultimately have "kinv s2 L" by (simp only:)
      then have k': "kinv s' L" unfolding r(2)
        by (rule kcore_new_process) (use p f1 s16_range [of pr] in \<open>simp_all add: s2_def e'_def\<close>)
      have pt: "proctab s' = (proctab s)(p := e')" "kmem s' = m1\<lparr>mem := h\<rparr>" by (simp_all add: r(2) upd_proc_def s2_def f1)
      have hr: "heap_range (m1\<lparr>mem := h\<rparr>) = heap_range m1" by (simp add: heap_range_def)
      have "mem_free (m1\<lparr>mem := h\<rparr>) (F - ?S)" by (rule mem_free_write [OF A(2) _ hs]) (use hw in auto)
      moreover have "stk_ok m1 e'" using hs g by (simp add: stk_ok_def e'_def)
      ultimately have km: "kmem_ok s' (F - ?S)"
        using so1 by (simp add: kmem_ok_def pt f1 heap_range_stk_ok [OF hr])
      have fr: "mem (kmem s') x = mem (kmem s) x"
        if "x \<notin> ?S" "x \<noteq> memlist (kmem s)" "x \<noteq> memlist (kmem s) + 4" "x \<notin> F" for x
        using getstk_touches [OF mf g gs] hw [OF that(1)] that pt(2) by (simp add: touches_def)
      show thesis
        by (rule new [of e']) (use k' p pt km A(1) N(1) fr W(1) in \<open>simp_all add: r e'_def upd_proc_def s2_def\<close>)
    qed
  qed
qed

end
