(* ===== verification/Startup.thy ===== *)
theory Startup
  imports Process
begin

text \<open>
  Start of the system: \<^verbatim>\<open>sysinit\<close> of \<^verbatim>\<open>system/initialize.c\<close> with \<^verbatim>\<open>bufinit.c\<close> and the part of
  \<^verbatim>\<open>clkinit.c\<close> that sets kernel variables. \<open>boot\<close> is the memory image the C run-time starts from, with
  the uninitialised globals zero; the linker gives the address of the list head and of \<^verbatim>\<open>end\<close>.
  The zero port state is none of the three the code tests for; \<open>PT_LIMBO\<close>, which it never tests
  for either, stands for it. Device initialisation is outside the kernel record.
\<close>

section \<open>Operations\<close>

definition boot :: "nat \<Rightarrow> kernel" where
  "boot memlist0 = \<lparr>queuetab = (\<lambda>_. \<lparr>qkey = 0, qnext = 0, qprev = 0\<rparr>), nextqid = NPROC,
     proctab = (\<lambda>_. \<lparr>prstate = PR_FREE, prprio = 0, prstkptr = 0, prstkbase = 0, prstklen = 0, prname = [],
       prsem = 0, prparent = 0, prmsg = 0, prhasmsg = False, prdesc = [0, 0, 0, 0, 0]\<rparr>),
     prcount = 0, currpid = 0, nextpid = 1, readylist = 0,
     semtab = (\<lambda>_. \<lparr>sstate = S_FREE, scount = 0, squeue = 0\<rparr>), nextsem = 0, ndefers = 0, attempt = False,
     sleepq = 0, clktime = 0, count1000 = 0, preempt = 0,
     kmem = \<lparr>mem = (\<lambda>_. 0), memlist = memlist0, minheap = 0, maxheap = 0\<rparr>, pframe = (\<lambda>_. None),
     buftab = (\<lambda>_. \<lparr>bpnext = 0, bpsem = 0, bpsize = 0\<rparr>), nbpools = 0, ptfree = 0,
     porttab = (\<lambda>_. \<lparr>ptssem = 0, ptrsem = 0, ptstate = PT_LIMBO, ptmaxcnt = 0, ptseq = 0, pthead = 0, pttail = 0\<rparr>),
     ptnextid = 0, marks = (\<lambda>_. 0), nmarks = 0, mkmutex = 0, devlog = [], kstat = Running\<rparr>"

abbreviation (input) NULLSTK :: nat where "NULLSTK \<equiv> 8192"

definition init_proctab :: "kernel \<Rightarrow> kernel" where
  "init_proctab s =
     fold (\<lambda>i. upd_proc (int i) (\<lambda>e. e\<lparr>prstate := PR_FREE, prname := [], prstkbase := 0, prprio := 0\<rparr>)) [0..<100] s"

definition init_null :: "kernel \<Rightarrow> kernel" where
  "init_null s =
     (case getstk NULLSTK (kmem s) of
        None \<Rightarrow> s\<lparr>kstat := Hung\<rparr>
      | Some (r, m) \<Rightarrow>
          upd_proc NULLPROC (\<lambda>e. e\<lparr>prstate := PR_CURR, prprio := 0, prname := ''prnull'',
              prstkbase := (case r of None \<Rightarrow> 4294967295 | Some a \<Rightarrow> a), prstklen := NULLSTK, prstkptr := 0\<rparr>)
            (s\<lparr>kmem := m, currpid := NULLPROC\<rparr>))"

definition init_sem :: "nat \<Rightarrow> kernel \<Rightarrow> kernel" where
  "init_sem i s =
     (let s1 = upd_sem (int i) (\<lambda>e. e\<lparr>sstate := S_FREE, scount := 0\<rparr>) s;
          (q, s2) = newqueue s1
      in upd_sem (int i) (\<lambda>e. e\<lparr>squeue := q\<rparr>) s2)"

definition bufinit :: "kernel \<Rightarrow> int \<times> kernel" where
  "bufinit s = (OK, s\<lparr>nbpools := 0\<rparr>)"

definition clkinit :: "kernel \<Rightarrow> kernel" where
  "clkinit s = (let (q, s1) = newqueue s in s1\<lparr>sleepq := q, preempt := QUANTUM, clktime := 0, count1000 := 0\<rparr>)"

definition sysinit :: "nat \<Rightarrow> kernel \<Rightarrow> kernel" where
  "sysinit endaddr s0 =
     (let s1 = s0\<lparr>kmem := meminit endaddr (kmem s0), prcount := 1, ndefers := 0\<rparr>;
          s2 = init_null (init_proctab s1);
          s3 = fold init_sem [0..<100] s2;
          s4 = snd (bufinit s3);
          (q, s5) = newqueue s4
      in clkinit (s5\<lparr>readylist := q\<rparr>))"

section \<open>The invariant holds when the system starts\<close>

definition sems_init :: "nat \<Rightarrow> kernel \<Rightarrow> bool" where
  "sems_init n s \<longleftrightarrow> nextqid s = NPROC + 2 * int n \<and> qrel s (\<lambda>_. []) \<and>
     (\<forall>i \<in> {0..<int n}. semtab s i = \<lparr>sstate = S_FREE, scount = 0, squeue = NPROC + 2 * i\<rparr>)"

lemma newqueue_state:
  assumes "nextqid s < NQENT"
  shows "\<exists>qt. newqueue s = (nextqid s, s\<lparr>nextqid := nextqid s + 2, queuetab := qt\<rparr>)"
  using assms by (simp add: newqueue_def Let_def) blast

lemma init_sem_step:
  assumes "sems_init n s" "n < 100"
  shows "sems_init (Suc n) (init_sem n s)"
    "\<exists>qt st. init_sem n s = s\<lparr>nextqid := nextqid s + 2, queuetab := qt, semtab := st\<rparr>"
proof -
  let ?s = "upd_sem (int n) (\<lambda>e. e\<lparr>sstate := S_FREE, scount := 0\<rparr>) s"
  have q: "nextqid s = NPROC + 2 * int n" "qrel s (\<lambda>_. [])" using assms(1) by (auto simp: sems_init_def)
  have lt: "nextqid ?s < NQENT" using assms(2) q(1) by simp
  have rel: "qrel ?s (\<lambda>_. [])" using q(2) by (simp add: qrel_def is_head_def)
  obtain qt where nq: "newqueue ?s = (nextqid ?s, ?s\<lparr>nextqid := nextqid ?s + 2, queuetab := qt\<rparr>)"
    using newqueue_state [OF lt] by blast
  have rel': "qrel (?s\<lparr>nextqid := nextqid s + 2, queuetab := qt\<rparr>) (\<lambda>_. [])"
    using newqueue_ok [OF rel lt] nq by simp
  have e: "init_sem n s = upd_sem (int n) (\<lambda>e. e\<lparr>squeue := nextqid s\<rparr>) (?s\<lparr>nextqid := nextqid s + 2, queuetab := qt\<rparr>)"
    using nq by (simp add: init_sem_def Let_def)
  show "\<exists>qt st. init_sem n s = s\<lparr>nextqid := nextqid s + 2, queuetab := qt, semtab := st\<rparr>"
    unfolding e by (simp add: upd_sem_def) blast
  have "qrel (init_sem n s) (\<lambda>_. [])" using rel' unfolding e by (simp add: qrel_def is_head_def)
  moreover have "semtab (init_sem n s) i = \<lparr>sstate = S_FREE, scount = 0, squeue = NPROC + 2 * i\<rparr>"
    if "i \<in> {0..<int (Suc n)}" for i
    using that assms(1) q(1) unfolding e by (auto simp: sems_init_def intro: sentry.equality)
  moreover have "nextqid (init_sem n s) = NPROC + 2 * int (Suc n)" unfolding e using q(1) by simp
  ultimately show "sems_init (Suc n) (init_sem n s)" by (simp add: sems_init_def)
qed

lemma init_sem_loop:
  assumes "sems_init 0 s" "n \<le> 100"
  shows "sems_init n (fold init_sem [0..<n] s) \<and>
    (\<exists>nq qt st. fold init_sem [0..<n] s = s\<lparr>nextqid := nq, queuetab := qt, semtab := st\<rparr>)"
  using assms(2)
proof (induction n)
  case 0
  show ?case using assms(1) by (intro conjI exI [of _ "nextqid s"] exI [of _ "queuetab s"] exI [of _ "semtab s"]) simp_all
next
  case (Suc n)
  then obtain nq qt st where IH: "sems_init n (fold init_sem [0..<n] s)"
    "fold init_sem [0..<n] s = s\<lparr>nextqid := nq, queuetab := qt, semtab := st\<rparr>" by auto
  show ?case using init_sem_step [OF IH(1)] Suc.prems IH(2) by auto
qed

lemma init_proctab_zero:
  assumes "\<And>i. proctab s i = e" "prstate e = PR_FREE" "prname e = []" "prstkbase e = 0" "prprio e = 0"
  shows "init_proctab s = s"
proof -
  have "upd_proc i (\<lambda>e. e\<lparr>prstate := PR_FREE, prname := [], prstkbase := 0, prprio := 0\<rparr>) s = s" for i
  proof -
    have "(proctab s)(i := (proctab s i)\<lparr>prstate := PR_FREE, prname := [], prstkbase := 0, prprio := 0\<rparr>) = proctab s"
      using assms by (intro ext) (auto intro: procent.equality)
    then show ?thesis by (simp add: upd_proc_def)
  qed
  then have "fold (\<lambda>i. upd_proc (int i) (\<lambda>e. e\<lparr>prstate := PR_FREE, prname := [], prstkbase := 0, prprio := 0\<rparr>)) xs s = s" for xs
    by (induction xs) simp_all
  then show ?thesis by (simp add: init_proctab_def)
qed

lemma null_stack:
  assumes "mem_ok m [(e, l)]" "8192 \<le> l"
  obtains a m' F where "getstk NULLSTK m = Some (Some a, m')" "mem_free m' F" "heap_range m' = heap_range m"
    "stk_span a NULLSTK \<subseteq> heap_range m" "mem_ok m' (carve_high NULLSTK e l)"
proof -
  have f: "mem_free m (free_bytes [(e, l)])" using assms(1) by (auto simp: mem_free_def)
  have g: "good_size NULLSTK" by (simp add: good_size_def)
  have r: "roundmb NULLSTK = 8192" by (simp add: roundmb_eq)
  obtain a m' where s: "getstk NULLSTK m = Some (Some a, m')" "mem_ok m' (carve_high NULLSTK e l)"
    by (rule getstk_result [OF assms(1), of NULLSTK 8192]) (use r assms(2) in \<open>auto simp: Cons_eq_append_conv\<close>)
  from stacks.alloc_some [OF f g s(1)] mem_free_heap [OF f] that [OF s(1) _ _ _ s(2)] show thesis by blast
qed

definition started :: "kernel \<Rightarrow> bool" where
  "started s \<longleftrightarrow>
     (\<forall>p. prstate (proctab s p) = (if p = NULLPROC then PR_CURR else PR_FREE) \<and> prprio (proctab s p) = 0 \<and>
        \<not> prhasmsg (proctab s p)) \<and>
     currpid s = NULLPROC \<and> pframe s = (\<lambda>_. None) \<and> kstat s = Running \<and> ndefers s = 0"

lemma started_kinv:
  assumes st: "started s" and i: "nextqid s = 304" "qrel s (\<lambda>_. [])"
      "\<forall>i \<in> {0..<100}. semtab s i = \<lparr>sstate = S_FREE, scount = 0, squeue = 100 + 2 * i\<rparr>"
    and r: "readylist s = 300" "sleepq s = 302"
  shows "kinv s (\<lambda>_. [])"
proof -
  have sm: "semtab s i = \<lparr>sstate = S_FREE, scount = 0, squeue = 100 + 2 * i\<rparr>" if "0 \<le> i" "i < 100" for i
    using i(3) that by simp
  have h: "home s p = None" for p using st by (simp add: started_def home_def)
  have "qids_ok s" using i(1) r sm by (auto simp: qids_ok_def is_head_def inj_on_def)
  moreover have "placed s (\<lambda>_. []) {}" using h st by (auto simp: placed_def started_def)
  moreover have "cur_ok s" "prio_ok s" "msg_ok s {}" using st by (auto simp: cur_ok_def prio_ok_def msg_ok_def started_def)
  moreover have "sems_ok s (\<lambda>_. [])" using sm by (simp add: sems_ok_def sem_ok_def sem_cnt_def)
  ultimately show ?thesis using i st by (simp add: kinv_def kcore_def started_def desc_def)
qed

theorem sysinit_kinv:
  assumes "ml \<noteq> 0" "ml + 8 \<le> e" "8 dvd e" "e + NULLSTK \<le> MAXADDR"
  shows "kinv (sysinit e (boot ml)) (\<lambda>_. []) \<and> (\<exists>F. kmem_ok (sysinit e (boot ml)) F) \<and>
    nextsem (sysinit e (boot ml)) = 0 \<and> nextpid (sysinit e (boot ml)) = 1 \<and>
    started (sysinit e (boot ml)) \<and> prcount (sysinit e (boot ml)) = 1 \<and> readylist (sysinit e (boot ml)) = 300 \<and>
    sleepq (sysinit e (boot ml)) = 302 \<and> mem_ok (kmem (sysinit e (boot ml))) (carve_high NULLSTK e (MAXADDR - e)) \<and>
    (\<forall>i \<in> {0..<NSEM}. semtab (sysinit e (boot ml)) i = \<lparr>sstate = S_FREE, scount = 0, squeue = 100 + 2 * i\<rparr>)"
proof -
  define s1 where "s1 = (boot ml)\<lparr>kmem := meminit e (kmem (boot ml)), prcount := 1, ndefers := 0\<rparr>"
  have ip: "init_proctab s1 = s1" by (rule init_proctab_zero [of s1 "proctab s1 0"]) (simp_all add: s1_def boot_def)
  have mo: "mem_ok (kmem s1) [(e, MAXADDR - e)]" using assms by (simp add: s1_def boot_def meminit_ok)
  obtain a m' F where g: "getstk NULLSTK (kmem s1) = Some (Some a, m')" "mem_free m' F" "heap_range m' = heap_range (kmem s1)"
    "stk_span a NULLSTK \<subseteq> heap_range (kmem s1)" "mem_ok m' (carve_high NULLSTK e (MAXADDR - e))"
    by (rule null_stack [OF mo]) (use assms(4) in auto)
  define s2 where "s2 = init_null s1"
  have s2: "s2 = upd_proc NULLPROC (\<lambda>e. e\<lparr>prstate := PR_CURR, prprio := 0, prname := ''prnull'',
      prstkbase := a, prstklen := NULLSTK, prstkptr := 0\<rparr>) (s1\<lparr>kmem := m', currpid := NULLPROC\<rparr>)"
    using g(1) by (simp add: s2_def init_null_def)
  have "sems_init 0 s2" by (auto simp: s2 sems_init_def upd_proc_def s1_def boot_def qrel_def is_head_def)
  from init_sem_loop [OF this, of 100] obtain nq qt st where
    i: "sems_init 100 (fold init_sem [0..<100] s2)"
    and f: "fold init_sem [0..<100] s2 = s2\<lparr>nextqid := nq, queuetab := qt, semtab := st\<rparr>" by auto
  define s4 where "s4 = (s2\<lparr>nextqid := nq, queuetab := qt, semtab := st\<rparr>)\<lparr>nbpools := 0\<rparr>"
  have s4: "nextqid s4 = 300" "qrel s4 (\<lambda>_. [])"
    "\<forall>i \<in> {0..<100}. semtab s4 i = \<lparr>sstate = S_FREE, scount = 0, squeue = 100 + 2 * i\<rparr>"
    using i unfolding f by (simp_all add: sems_init_def s4_def qrel_def is_head_def)
  obtain qt5 where n5: "newqueue s4 = (300, s4\<lparr>nextqid := 302, queuetab := qt5\<rparr>)"
    using newqueue_state [of s4] s4(1) by auto
  define s5 where "s5 = s4\<lparr>nextqid := 302, queuetab := qt5, readylist := 300\<rparr>"
  have r5: "qrel s5 (\<lambda>_. [])" using newqueue_ok [OF s4(2)] s4(1) n5 by (simp add: s5_def qrel_def is_head_def)
  obtain qt6 where n6: "newqueue s5 = (302, s5\<lparr>nextqid := 304, queuetab := qt6\<rparr>)"
    using newqueue_state [of s5] by (auto simp: s5_def)
  define s6 where "s6 = s5\<lparr>nextqid := 304, queuetab := qt6, sleepq := 302, preempt := QUANTUM, clktime := 0, count1000 := 0\<rparr>"
  have r6: "qrel s6 (\<lambda>_. [])" using newqueue_ok [OF r5] n6 by (simp add: s5_def s6_def qrel_def is_head_def)
  have e: "sysinit e (boot ml) = s6"
    unfolding sysinit_def s1_def [symmetric] Let_def ip s2_def [symmetric] f
    using n5 n6 by (simp add: bufinit_def clkinit_def s4_def s5_def s6_def)
  have st6: "started s6" by (auto simp: started_def s6_def s5_def s4_def s2 upd_proc_def s1_def boot_def)
  moreover have sem6: "\<forall>i \<in> {0..<100}. semtab s6 i = \<lparr>sstate = S_FREE, scount = 0, squeue = 100 + 2 * i\<rparr>"
    using s4(3) by (simp add: s6_def s5_def)
  ultimately have "kinv s6 (\<lambda>_. [])" using r6 by (intro started_kinv) (simp_all add: s6_def s5_def)
  moreover have "kmem_ok s6 F"
    using g by (auto simp: kmem_ok_def stk_ok_def s6_def s5_def s4_def s2 upd_proc_def s1_def boot_def good_size_def)
  ultimately show ?thesis unfolding e using st6 sem6 g(5) by (auto simp: s6_def s5_def s4_def s2 upd_proc_def s1_def boot_def)
qed

end
