(* ===== verification/Kernel_Steps.thy ===== *)
theory Kernel_Steps
  imports Startup
begin

text \<open>
  The kernel as a transition system. The current process issues one of the system calls of \<open>syscall\<close> (processes, semaphores, sleeping, messages and
  memory), stores a word into memory that is in use, or completes the call it was suspended in, or the clock interrupts it. Interrupts are
  disabled inside a system call, so that a step is atomic except where the call reschedules; there the rest of the call is the \<open>frame\<close> of the
  process, and it is a step of its own. The calls of buffer pools, ports, marks and devices are not steps.

  \<open>allowed\<close> collects what a caller has to respect: the null process does not block (the comment at \<^verbatim>\<open>nulluser\<close>); the count of a semaphore stays
  inside \<^verbatim>\<open>int32\<close>; the arguments of a new process fit on its stack; sizes are below the seven that \<^verbatim>\<open>roundmb\<close> rounds to 0; what is given back lies
  in the heap, as \<^verbatim>\<open>freemem\<close> checks only where a block starts; and a store goes to a word of the heap or above it that is not free.
\<close>

datatype syscall =
    C_resume int | C_suspend int | C_yield | C_chprio int int
  | C_wait int | C_signal int | C_signaln int int | C_semcreate int | C_semdelete int | C_semreset int int
  | C_sleep int | C_sleepms int
  | C_send int umsg32 | C_receive | C_recvclr | C_recvtime int
  | C_create nat nat int string "nat list" nat | C_kill int | C_exit
  | C_getmem nat | C_freemem nat nat | C_getstk nat | C_freestk nat nat | C_store nat nat

text \<open>A call of the memory manager; one that does not end leaves the machine hung.\<close>

definition mem_call :: "(memory \<Rightarrow> ('a \<times> memory) option) \<Rightarrow> kernel \<Rightarrow> kernel" where
  "mem_call f s = (case f (kmem s) of None \<Rightarrow> s\<lparr>kstat := Hung\<rparr> | Some (_, m) \<Rightarrow> s\<lparr>kmem := m\<rparr>)"

fun exec :: "syscall \<Rightarrow> kernel \<Rightarrow> kernel" where
  "exec (C_resume p) s = snd (resume p s)"
| "exec (C_suspend p) s = snd (suspend p s)"
| "exec C_yield s = snd (yield s)"
| "exec (C_chprio p n) s = snd (chprio p n s)"
| "exec (C_wait i) s = snd (wait i s)"
| "exec (C_signal i) s = snd (signal i s)"
| "exec (C_signaln i n) s = snd (signaln i n s)"
| "exec (C_semcreate n) s = snd (semcreate n s)"
| "exec (C_semdelete i) s = snd (semdelete i s)"
| "exec (C_semreset i n) s = snd (semreset i n s)"
| "exec (C_sleep n) s = snd (sleep n s)"
| "exec (C_sleepms n) s = snd (sleepms n s)"
| "exec (C_send p m) s = snd (send p m s)"
| "exec C_receive s = snd (receive s)"
| "exec C_recvclr s = snd (recvclr s)"
| "exec (C_recvtime n) s = snd (recvtime n s)"
| "exec (C_create a n pr nm args ret) s = snd (create a n pr nm args ret s)"
| "exec (C_kill p) s = snd (kill p s)"
| "exec C_exit s = snd (exit s)"
| "exec (C_getmem n) s = mem_call (getmem n) s"
| "exec (C_freemem p n) s = mem_call (freemem p n) s"
| "exec (C_getstk n) s = mem_call (getstk n) s"
| "exec (C_freestk p n) s = mem_call (freestk p n) s"
| "exec (C_store a v) s = s\<lparr>kmem := (kmem s)\<lparr>mem := (mem (kmem s))(a := v)\<rparr>\<rparr>"

fun allowed :: "syscall \<Rightarrow> kernel \<Rightarrow> bool" where
  "allowed (C_wait i) s \<longleftrightarrow> currpid s \<noteq> NULLPROC"
| "allowed (C_sleep n) s \<longleftrightarrow> currpid s \<noteq> NULLPROC"
| "allowed (C_sleepms n) s \<longleftrightarrow> currpid s \<noteq> NULLPROC"
| "allowed C_receive s \<longleftrightarrow> currpid s \<noteq> NULLPROC"
| "allowed (C_recvtime n) s \<longleftrightarrow> currpid s \<noteq> NULLPROC"
| "allowed (C_signal i) s \<longleftrightarrow> scount (semtab s i) < 2147483647"
| "allowed (C_signaln i n) s \<longleftrightarrow> scount (semtab s i) + n \<le> 2147483647"
| "allowed (C_semdelete i) s \<longleftrightarrow> scount (semtab s i) < 2147483647"
| "allowed (C_semcreate n) s \<longleftrightarrow> n \<le> 2147483647"
| "allowed (C_semreset i n) s \<longleftrightarrow> n \<le> 2147483647"
| "allowed (C_create a n pr nm args ret) s \<longleftrightarrow> args_fit args n"
| "allowed (C_getmem n) s \<longleftrightarrow> n < 4294967289"
| "allowed (C_getstk n) s \<longleftrightarrow> n < 4294967289"
| "allowed (C_freemem p n) s \<longleftrightarrow> n < 4294967289 \<and> mem_span p n \<subseteq> heap_range (kmem s)"
| "allowed (C_freestk p n) s \<longleftrightarrow> n < 4294967289 \<and> stk_span p n \<subseteq> heap_range (kmem s)"
| "allowed (C_store a v) s \<longleftrightarrow> minheap (kmem s) \<le> a \<and> (\<forall>F. mem_free (kmem s) F \<longrightarrow> a \<notin> F)"
| "allowed c s \<longleftrightarrow> True"

definition unframe :: "kernel \<Rightarrow> kernel" where
  "unframe s = s\<lparr>pframe := (pframe s)(currpid s := None)\<rparr>"

inductive kstep :: "kernel \<Rightarrow> kernel \<Rightarrow> bool" where
  call: "kstat s = Running \<Longrightarrow> pframe s (currpid s) = None \<Longrightarrow> allowed c s \<Longrightarrow> kstep s (exec c s)"
| tick: "kstat s = Running \<Longrightarrow> pframe s (currpid s) = None \<Longrightarrow> kstep s (clkhandler ovf s)"
| end_suspend: "kstat s = Running \<Longrightarrow> pframe s (currpid s) = Some (F_suspend p) \<Longrightarrow>
    kstep s (snd (suspend_ret p (unframe s)))"
| end_receive: "kstat s = Running \<Longrightarrow> pframe s (currpid s) = Some F_receive \<Longrightarrow> kstep s (snd (receive_ret (unframe s)))"
| end_recvtime: "kstat s = Running \<Longrightarrow> pframe s (currpid s) = Some F_recvtime \<Longrightarrow> kstep s (snd (recvtime_ret (unframe s)))"
| end_kill: "kstat s = Running \<Longrightarrow> pframe s (currpid s) = Some (F_kill p) \<Longrightarrow> kstep s (snd (kill_rest p (unframe s)))"

inductive_cases kstepE: "kstep s s'"

definition kill_frames_ok :: "kernel \<Rightarrow> bool" where
  "kill_frames_ok s \<longleftrightarrow> (\<forall>p q. pframe s p = Some (F_kill q) \<longrightarrow> q \<in> {0..<NPROC} \<and> q \<noteq> NULLPROC)"

definition sysinv :: "kernel \<Rightarrow> bool" where
  "sysinv s \<longleftrightarrow>
     (\<exists>L. kinv s L) \<and> (\<exists>F. kmem_ok s F) \<and> nextsem s \<in> {0..<NSEM} \<and> 0 \<le> nextpid s \<and> kill_frames_ok s"

lemma kill_frames_quiet: "quiet s s' \<Longrightarrow> kill_frames_ok s \<Longrightarrow> kill_frames_ok s'"
  unfolding kill_frames_ok_def quiet_def by blast

lemma sysinv_quiet:
  assumes "sysinv s" "quiet s s'" "\<exists>L'. kinv s' L'"
  shows "sysinv s'"
  using assms kmem_ok_quiet [OF assms(2)] quietD(3,17) [OF assms(2)] kill_frames_quiet [OF assms(2)]
  by (auto simp: sysinv_def)

lemma sysinv_unframe: "sysinv s \<Longrightarrow> sysinv (unframe s)"
proof -
  assume s: "sysinv s"
  then obtain L where "kinv s L" by (auto simp: sysinv_def)
  then have "kinv (unframe s) L" unfolding unframe_def by (rule kinv_frame) simp
  then show ?thesis using s by (auto simp: sysinv_def kmem_ok_def kill_frames_ok_def unframe_def)
qed

lemma unframe_simps [simp]: "currpid (unframe s) = currpid s" "pframe (unframe s) (currpid s) = None"
  by (simp_all add: unframe_def)

lemma kill_rest_sysinv:
  assumes "sysinv s" "p \<in> {0..<NPROC}" "p \<noteq> NULLPROC"
  shows "sysinv (snd (kill_rest p s))"
proof -
  obtain L F where k: "kinv s L" "kmem_ok s F" using assms(1) by (auto simp: sysinv_def)
  from kill_rest_kinv [OF k assms(2,3)] obtain L' F' where
    k': "kinv (snd (kill_rest p s)) L'" "kmem_ok (snd (kill_rest p s)) F'" by blast
  have "nextsem (snd (kill_rest p s)) = nextsem s \<and> nextpid (snd (kill_rest p s)) = nextpid s \<and>
      kill_frames_ok (snd (kill_rest p s))"
  proof -
    obtain d where d: "fold (\<lambda>i. close_call (prdesc (proctab s p) ! i)) [0, 1, 2] s = s\<lparr>devlog := d\<rparr>"
      using close_calls [of "\<lambda>i. prdesc (proctab s p) ! i" "[0, 1, 2]" s] by (rule exE)
    consider "snd (kill_rest p s) = s\<lparr>devlog := d, kstat := Hung\<rparr>"
      | m where "snd (kill_rest p s) = snd (kill_state p (s\<lparr>devlog := d, kmem := m\<rparr>))"
      unfolding kill_rest_def Let_def d
      by (cases "freestk (prstkbase (proctab s p)) (prstklen (proctab s p)) (kmem s)") (auto split: prod.splits)
    then show ?thesis
    proof cases
      case 1
      then show ?thesis using assms(1) by (simp add: sysinv_def kill_frames_ok_def)
    next
      case (2 m)
      let ?s = "s\<lparr>devlog := d, kmem := m\<rparr>"
      have "quiet ?s (snd (kill_state p ?s))" by (rule kill_state_quiet) simp
      moreover have "kill_frames_ok ?s" using assms(1) by (simp add: sysinv_def kill_frames_ok_def)
      ultimately have "kill_frames_ok (snd (kill_state p ?s))" "nextpid (snd (kill_state p ?s)) = nextpid ?s"
        "nextsem (snd (kill_state p ?s)) = nextsem ?s" by (blast intro: kill_frames_quiet quietD(3,17))+
      then show ?thesis by (simp add: 2)
    qed
  qed
  then show ?thesis using k' assms(1) by (auto simp: sysinv_def)
qed

lemma kill_sysinv:
  assumes i: "sysinv s"
  shows "kstat (snd (kill p s)) = Halted \<or> sysinv (snd (kill p s))"
proof (cases "isbadpid (proctab s) p \<or> p = NULLPROC \<or> s32 (prcount s - 1) \<le> 1")
  case True
  then show ?thesis using i by (auto simp: kill_def xdone_def isbadpid_def)
next
  case False
  then have p: "p \<in> {0..<NPROC}" "p \<noteq> NULLPROC" "prstate (proctab s p) \<noteq> PR_FREE"
    by (auto dest: isbadpid_range simp: isbadpid_def)
  let ?s1 = "s\<lparr>prcount := s32 (prcount s - 1)\<rparr>"
  let ?s2 = "snd (send (prparent (proctab s p)) (word_of_int p) ?s1)"
  have i1: "sysinv ?s1" using i by (auto simp: sysinv_def kmem_ok_def kill_frames_ok_def)
  then obtain L where k: "kinv ?s1 L" by (auto simp: sysinv_def)
  have i2: "sysinv ?s2" by (rule sysinv_quiet [OF i1 _ send_kinv [OF k]]) (simp add: quiet_ops)
  have "snd (kill p s) = snd (resume_point ?s1 ?s2 (F_kill p) (kill_rest p))"
    using False p by (simp add: kill_def Let_def split: prod.split option.split)
  moreover have "sysinv (snd (resume_point ?s1 ?s2 (F_kill p) (kill_rest p)))"
  proof (cases "currpid ?s2 = currpid ?s1")
    case True
    then show ?thesis using kill_rest_sysinv [OF i2 p(1,2)] by (cases "kill_rest p ?s2") (simp add: resume_point_def)
  next
    case ne: False
    obtain L2 where "kinv ?s2 L2" using i2 by (auto simp: sysinv_def)
    then have "kinv (?s2\<lparr>pframe := (pframe ?s2)(currpid ?s1 := Some (F_kill p))\<rparr>) L2" by (rule kinv_frame) simp
    then show ?thesis using ne i2 p by (auto simp: resume_point_def sysinv_def kmem_ok_def kill_frames_ok_def)
  qed
  ultimately show ?thesis by simp
qed

lemma semcreate_sysinv:
  assumes i: "sysinv s" and n: "n \<le> 2147483647"
  shows "sysinv (snd (semcreate n s))"
proof -
  obtain L F where k: "kinv s L" "kmem_ok s F" "nextsem s \<in> {0..<NSEM}" "0 \<le> nextpid s" "kill_frames_ok s"
    using i by (auto simp: sysinv_def)
  let ?s = "snd (semcreate n s)"
  have q: "quiet (s\<lparr>nextsem := 0\<rparr>) (?s\<lparr>nextsem := 0\<rparr>)" by (rule quiet_semcreate)
  have "kmem_ok (s\<lparr>nextsem := 0\<rparr>) F" "kill_frames_ok (s\<lparr>nextsem := 0\<rparr>)"
    using k(2,5) by (simp_all add: kmem_ok_def kill_frames_ok_def)
  then have "kmem_ok (?s\<lparr>nextsem := 0\<rparr>) F" "kill_frames_ok (?s\<lparr>nextsem := 0\<rparr>)"
    using kmem_ok_quiet [OF q, of F] kill_frames_quiet [OF q] by blast+
  then have "kmem_ok ?s F" "kill_frames_ok ?s" by (simp_all add: kmem_ok_def kill_frames_ok_def)
  then show ?thesis using semcreate_kinv [OF k(1) n k(3)] quietD(3) [OF q] k(4) by (auto simp: sysinv_def)
qed

lemma create_frames:
  assumes np: "0 \<le> nextpid s" and c: "create pa n pr nm args ret s = (r, s')"
  shows "nextsem s' = nextsem s" "pframe s' p = pframe s p \<or> pframe s' p = None"
proof -
  have "nextsem s' = nextsem s \<and> (pframe s' p = pframe s p \<or> pframe s' p = None)"
  proof (cases "getstk (stk_size n) (kmem s)")
    case None
    then show ?thesis using c by (auto simp: create_def stk_size_def)
  next
    case (Some x)
    obtain r0 m where x: "x = (r0, m)" by force
    obtain pid s1 where np1: "newpid (s\<lparr>kmem := m\<rparr>) = (pid, s1)" by force
    have e: "s1 = (s\<lparr>kmem := m\<rparr>)\<lparr>nextpid := nextpid s1\<rparr>" by (rule newpid_result(2) [OF _ np1]) (simp add: np)
    have f: "nextsem s1 = nextsem s" "pframe s1 = pframe s"
      using arg_cong [OF e, of nextsem] arg_cong [OF e, of pframe] by simp_all
    show ?thesis
    proof (cases r0)
      case None
      then show ?thesis using c Some x by (auto simp: create_def stk_size_def)
    next
      case (Some a)
      obtain sp h where b: "build_stack a pa ret args (mem (kmem s1)) = (sp, h)" by force
      let ?t = "snd (create pa n pr nm args ret s)"
      have "nextsem ?t = nextsem s \<and> (pframe ?t = pframe s \<or> pframe ?t = (pframe s)(pid := None))"
        using \<open>getstk _ _ = Some x\<close> x Some np1 b f by (simp add: create_def stk_size_def upd_proc_def Let_def)
      then show ?thesis using c by (auto split: if_splits)
    qed
  qed
  then show "nextsem s' = nextsem s" "pframe s' p = pframe s p \<or> pframe s' p = None" by simp_all
qed

lemma create_sysinv:
  assumes i: "sysinv s" and a: "args_fit args n"
  shows "sysinv (snd (create pa n pr nm args ret s))"
proof -
  obtain L F where k: "kinv s L" "kmem_ok s F" "nextsem s \<in> {0..<NSEM}" "0 \<le> nextpid s" "kill_frames_ok s"
    using i by (auto simp: sysinv_def)
  obtain r s' where c: "create pa n pr nm args ret s = (r, s')" by force
  note f = create_frames [OF k(4) c]
  have "kill_frames_ok s'" using k(5) f(2) unfolding kill_frames_ok_def by (metis option.distinct(1))
  moreover have "(\<exists>L. kinv s' L) \<and> (\<exists>F. kmem_ok s' F) \<and> 0 \<le> nextpid s'"
    by (rule create_result [OF k(1,2,4) a c]) (use k in blast)+
  ultimately show ?thesis using c f k(3) by (simp add: sysinv_def)
qed

lemma mem_call_sysinv:
  assumes i: "sysinv s"
    and f: "\<And>F. mem_free (kmem s) F \<Longrightarrow> \<exists>r m F'. f (kmem s) = Some (r, m) \<and> mem_free m F' \<and> heap_range m = heap_range (kmem s)"
  shows "sysinv (mem_call f s)"
proof -
  obtain L F where k: "kinv s L" "kmem_ok s F" using i by (auto simp: sysinv_def)
  then obtain r m F' where m: "f (kmem s) = Some (r, m)" "mem_free m F'" "heap_range m = heap_range (kmem s)"
    using f [of F] unfolding kmem_ok_def by blast
  have "kmem_ok (s\<lparr>kmem := m\<rparr>) F'" using k(2) m(2) by (simp add: kmem_ok_def heap_range_stk_ok [OF m(3)])
  moreover have "kinv (s\<lparr>kmem := m\<rparr>) L" using k(1) by simp
  ultimately show ?thesis using i m(1) by (auto simp: mem_call_def sysinv_def kill_frames_ok_def)
qed

lemma alloc_calls_sysinv:
  assumes "sysinv s" "n < 4294967289"
  shows "sysinv (mem_call (getmem n) s)" "sysinv (mem_call (getstk n) s)"
proof -
  have g: "\<exists>r m' F'. getmem n m = Some (r, m') \<and> mem_free m' F' \<and> heap_range m' = heap_range m" if mf: "mem_free m F" for m F
  proof (cases "n = 0")
    case False
    then have n: "good_size n" using assms(2) by (simp add: good_size_def)
    obtain r m' where r: "getmem n m = Some (r, m')" using alloc_returns(1) [OF mf n] by auto
    show ?thesis using getmem_alloc [OF mf n r] mf r by (cases r) auto
  qed (use mf in \<open>auto simp: getmem_def\<close>)
  then show "sysinv (mem_call (getmem n) s)" by (intro mem_call_sysinv [OF assms(1)])
  have g: "\<exists>r m' F'. getstk n m = Some (r, m') \<and> mem_free m' F' \<and> heap_range m' = heap_range m" if mf: "mem_free m F" for m F
  proof (cases "n = 0")
    case False
    then have n: "good_size n" using assms(2) by (simp add: good_size_def)
    obtain r m' where r: "getstk n m = Some (r, m')" using alloc_returns(2) [OF mf n] by auto
    show ?thesis using getstk_alloc [OF mf n r] mf r by (cases r) auto
  qed (use mf in \<open>auto simp: getstk_def\<close>)
  then show "sysinv (mem_call (getstk n) s)" by (intro mem_call_sysinv [OF assms(1)])
qed

lemma release_calls_sysinv:
  assumes i: "sysinv s" and n: "n < 4294967289"
  shows "mem_span p n \<subseteq> heap_range (kmem s) \<Longrightarrow> sysinv (mem_call (freemem p n) s)"
    "stk_span p n \<subseteq> heap_range (kmem s) \<Longrightarrow> sysinv (mem_call (freestk p n) s)"
proof -
  assume p: "mem_span p n \<subseteq> heap_range (kmem s)"
  have "\<exists>r m' F'. freemem p n (kmem s) = Some (r, m') \<and> mem_free m' F' \<and> heap_range m' = heap_range (kmem s)" if m: "mem_free (kmem s) F" for F
  proof (cases "n = 0")
    case False
    then have "good_size n" using n by (simp add: good_size_def)
    from freemem_release [OF m this p] m show ?thesis by blast
  qed (use m in \<open>auto simp: freemem_def\<close>)
  then show "sysinv (mem_call (freemem p n) s)" by (intro mem_call_sysinv [OF i])
next
  assume p: "stk_span p n \<subseteq> heap_range (kmem s)"
  have "\<exists>r m' F'. freestk p n (kmem s) = Some (r, m') \<and> mem_free m' F' \<and> heap_range m' = heap_range (kmem s)" if m: "mem_free (kmem s) F" for F
  proof (cases "n = 0")
    case False
    then have g: "good_size n" using n by (simp add: good_size_def)
    note S = freestk_span [OF m g p]
    show ?thesis using freemem_release [OF m S(2)] p m unfolding S(1,3) by blast
  qed (use m in \<open>auto simp: freestk_def freemem_def roundmb_eq\<close>)
  then show "sysinv (mem_call (freestk p n) s)" by (intro mem_call_sysinv [OF i])
qed

lemma store_sysinv:
  assumes i: "sysinv s" and a: "minheap (kmem s) \<le> a" "\<forall>F. mem_free (kmem s) F \<longrightarrow> a \<notin> F"
  shows "sysinv (s\<lparr>kmem := (kmem s)\<lparr>mem := (mem (kmem s))(a := v)\<rparr>\<rparr>)"
proof -
  let ?m = "(kmem s)\<lparr>mem := (mem (kmem s))(a := v)\<rparr>"
  obtain L F where k: "kinv s L" "kmem_ok s F" using i by (auto simp: sysinv_def)
  then obtain bs where b: "mem_ok (kmem s) bs" "free_bytes bs = F" by (auto simp: kmem_ok_def mem_free_def)
  have "a \<notin> free_bytes bs" using a(2) k(2) b(2) by (simp add: kmem_ok_def)
  then have "mem_ok ?m bs" using a(1) by (intro mem_ok_write [OF b(1)]) auto
  then have f: "mem_free ?m F" using b(2) by (auto simp: mem_free_def)
  have h: "heap_range ?m = heap_range (kmem s)" by (simp add: heap_range_def)
  have "kmem_ok (s\<lparr>kmem := ?m\<rparr>) F" using k(2) f by (simp add: kmem_ok_def heap_range_stk_ok [OF h])
  moreover have "kinv (s\<lparr>kmem := ?m\<rparr>) L" using k(1) by simp
  ultimately show ?thesis using i by (auto simp: sysinv_def kill_frames_ok_def)
qed

section \<open>Every step keeps the invariant\<close>

lemma exec_sysinv:
  assumes i: "sysinv s" and f: "pframe s (currpid s) = None" and a: "allowed c s"
  shows "kstat (exec c s) = Halted \<or> sysinv (exec c s)"
proof -
  obtain L where k: "kinv s L" using i by (auto simp: sysinv_def)
  note q = sysinv_quiet [OF i]
  show ?thesis
  proof (cases c)
    case (C_resume p)
    then show ?thesis using q [OF _ resume_kinv [OF k]] by (simp add: quiet_ops)
  next
    case (C_suspend p)
    then show ?thesis using q [OF _ suspend_kinv [OF k]] by (simp add: quiet_ops)
  next
    case C_yield
    then show ?thesis using q [OF _ yield_kinv [OF k]] by (simp add: quiet_ops)
  next
    case (C_chprio p n)
    have "\<exists>L'. kinv (snd (chprio p n s)) L'" using chprio_kinv [OF k] by blast
    then show ?thesis using C_chprio q [of "snd (chprio p n s)"] by (simp add: quiet_ops)
  next
    case (C_wait i)
    then show ?thesis using q [OF _ wait_kinv [OF k]] a by (simp add: quiet_ops)
  next
    case (C_signal i)
    then show ?thesis using q [OF _ signal_kinv [OF k]] a by (simp add: quiet_ops)
  next
    case (C_signaln i n)
    then show ?thesis using q [OF _ signaln_kinv [OF k]] a by (simp add: quiet_ops)
  next
    case (C_semcreate n)
    then show ?thesis using semcreate_sysinv [OF i] a by simp
  next
    case (C_semdelete i)
    then show ?thesis using q [OF _ semdelete_kinv [OF k]] a by (simp add: quiet_ops)
  next
    case (C_semreset i n)
    then show ?thesis using q [OF _ semreset_kinv [OF k]] a by (simp add: quiet_ops)
  next
    case (C_sleep n)
    then show ?thesis using q [OF _ sleep_kinv [OF k]] a by (simp add: quiet_ops)
  next
    case (C_sleepms n)
    then show ?thesis using q [OF _ sleepms_kinv [OF k]] a by (simp add: quiet_ops)
  next
    case (C_send p m)
    then show ?thesis using q [OF _ send_kinv [OF k]] by (simp add: quiet_ops)
  next
    case C_receive
    then show ?thesis using q [OF _ receive_kinv [OF k _ f]] a by (simp add: quiet_ops)
  next
    case C_recvclr
    have "\<exists>L'. kinv (snd (recvclr s)) L'" using recvclr_kinv [OF k] f by auto
    then show ?thesis using C_recvclr q [of "snd (recvclr s)"] by (simp add: quiet_ops)
  next
    case (C_recvtime n)
    then show ?thesis using q [OF _ recvtime_kinv [OF k _ f]] a by (simp add: quiet_ops)
  next
    case (C_create pa n pr nm args ret)
    then show ?thesis using create_sysinv [OF i] a by simp
  next
    case (C_kill p)
    then show ?thesis using kill_sysinv [OF i] by simp
  next
    case C_exit
    then show ?thesis using kill_sysinv [OF i] by (simp add: exit_def)
  next
    case (C_getmem n)
    then show ?thesis using alloc_calls_sysinv(1) [OF i] a by simp
  next
    case (C_freemem p n)
    then show ?thesis using release_calls_sysinv(1) [OF i] a by simp
  next
    case (C_getstk n)
    then show ?thesis using alloc_calls_sysinv(2) [OF i] a by simp
  next
    case (C_freestk p n)
    then show ?thesis using release_calls_sysinv(2) [OF i] a by simp
  next
    case (C_store b v)
    then show ?thesis using store_sysinv [OF i] a by simp
  qed
qed

lemma kstep_sysinv:
  assumes "kstep s s'" "sysinv s"
  shows "kstat s' = Halted \<or> sysinv s'"
  using assms(1)
proof (cases rule: kstep.cases)
  case (call c)
  then show ?thesis using exec_sysinv [OF assms(2)] by simp
next
  case (tick ovf)
  obtain L where "kinv s L" using assms(2) by (auto simp: sysinv_def)
  then show ?thesis using tick sysinv_quiet [OF assms(2) _ clkhandler_kinv] by (simp add: quiet_ops)
next
  case (end_suspend p)
  then show ?thesis using sysinv_unframe [OF assms(2)] by (simp add: suspend_ret_def)
next
  case end_receive
  note u = sysinv_unframe [OF assms(2)]
  then obtain L where k: "kinv (unframe s) L" by (auto simp: sysinv_def)
  have "\<exists>L'. kinv (snd (receive_ret (unframe s))) L'" using receive_ret_kinv [OF k] by auto
  then show ?thesis using sysinv_quiet [OF u, of "snd (receive_ret (unframe s))"] end_receive by (simp add: quiet_ops)
next
  case end_recvtime
  note u = sysinv_unframe [OF assms(2)]
  then obtain L where k: "kinv (unframe s) L" by (auto simp: sysinv_def)
  have "\<exists>L'. kinv (snd (recvtime_ret (unframe s))) L'" using recvtime_ret_kinv [OF k] by auto
  then show ?thesis using sysinv_quiet [OF u, of "snd (recvtime_ret (unframe s))"] end_recvtime by (simp add: quiet_ops)
next
  case (end_kill p)
  then have "p \<in> {0..<NPROC}" "p \<noteq> NULLPROC" using assms(2) by (auto simp: sysinv_def kill_frames_ok_def)
  then show ?thesis using kill_rest_sysinv [OF sysinv_unframe [OF assms(2)]] end_kill by simp
qed

lemma halted_stops: "kstat s = Halted \<Longrightarrow> \<not> kstep s s'"
  by (auto elim: kstepE)

lemma reachable_sysinv:
  assumes "kstep\<^sup>*\<^sup>* s s'" "sysinv s"
  shows "kstat s' = Halted \<or> sysinv s'"
  using assms
proof (induction rule: rtranclp_induct)
  case (step t u)
  then show ?case using kstep_sysinv halted_stops by blast
qed simp

lemma sysinit_sysinv:
  assumes "ml \<noteq> 0" "ml + 8 \<le> e" "8 dvd e" "e + NULLSTK \<le> MAXADDR"
  shows "sysinv (sysinit e (boot ml))"
  using sysinit_kinv [OF assms] by (auto simp: sysinv_def kill_frames_ok_def started_def)

end
