(* ===== verification/Sample_States.thy ===== *)
theory Sample_States
  imports Kernel_Steps
begin

text \<open>
  Two states of a running system at which the properties of the kernel are applied: \<open>idle\<close>, the
  state \<^verbatim>\<open>sysinit\<close> leaves with the null process running, and \<open>busy\<close>, where process 1 of
  priority 20 has been resumed and has taken the processor from the null process.
\<close>

definition idle :: kernel where
  "idle = sysinit 16 (boot 8)"

definition loaded :: kernel where
  "loaded = upd_proc 1 (\<lambda>e. e\<lparr>prstate := PR_SUSP, prprio := 20\<rparr>) idle"

definition busy :: kernel where
  "busy = snd (resume 1 loaded)"

lemma idle_facts:
  shows "kinv idle (\<lambda>_. [])" "\<exists>F. kmem_ok idle F" "nextsem idle = 0" "nextpid idle = 1" "started idle"
    "prcount idle = 1" "readylist idle = 300" "sleepq idle = 302"
    "mem_ok (kmem idle) [(16, 2684346352)]"
    "i \<in> {0..<NSEM} \<Longrightarrow> semtab idle i = \<lparr>sstate = S_FREE, scount = 0, squeue = 100 + 2 * i\<rparr>"
  using sysinit_kinv [of 8 16] unfolding idle_def by (auto simp: carve_high_def)

lemma idle_proc [simp]:
  "prstate (proctab idle p) = (if p = NULLPROC then PR_CURR else PR_FREE)" "prprio (proctab idle p) = 0"
  "\<not> prhasmsg (proctab idle p)" "currpid idle = NULLPROC" "pframe idle p = None" "kstat idle = Running" "ndefers idle = 0"
  using idle_facts(5) by (auto simp: started_def)

lemma idle_sysinv: "sysinv idle"
  unfolding idle_def by (rule sysinit_sysinv) auto

lemma loaded_kinv: "kinv loaded (\<lambda>_. [])"
  unfolding loaded_def by (rule kcore_new_process [OF idle_facts(1)]) simp_all

lemma loaded_proc [simp]:
  "prstate (proctab loaded p) = (if p = 1 then PR_SUSP else if p = NULLPROC then PR_CURR else PR_FREE)"
  "prprio (proctab loaded p) = (if p = 1 then 20 else 0)"
  "\<not> prhasmsg (proctab loaded p)" "currpid loaded = NULLPROC" "pframe loaded p = None"
  "semtab loaded = semtab idle" "readylist loaded = 300" "sleepq loaded = 302" "nextsem loaded = 0"
  by (simp_all add: loaded_def upd_proc_def idle_facts)

lemmas busy_resumed = resume_preempts [OF loaded_kinv, of 1]

lemma busy_facts:
  shows "kinv busy ((\<lambda>_. [])(300 := [0]))" "currpid busy = 1" "pframe busy p = None" "\<not> prhasmsg (proctab busy p)"
    "semtab busy = semtab idle" "readylist busy = 300" "sleepq busy = 302" "nextsem busy = 0"
    "prprio (proctab busy p) = (if p = 1 then 20 else 0)" "ky (queuetab busy) 0 = 0" "ky (queuetab busy) 1 = 20"
  using busy_resumed unfolding busy_def by (simp_all add: ins_desc_def)

lemma busy_state [simp]: "prstate (proctab busy 1) = PR_CURR"
  using kinvD(4) [OF busy_facts(1)] by (simp add: busy_facts)

lemma busy_null [simp]: "prstate (proctab busy 0) = PR_READY"
  using queue_iff_state(1) [OF kinvD(1) [OF busy_facts(1)], of 0] by (simp add: busy_facts)

lemma busy_keys: "keys_current busy ((\<lambda>_. [])(300 := [0]))"
  by (simp add: keys_current_def busy_facts)

lemma busy_resched: "resched busy = busy"
proof -
  have "firstkey (queuetab busy) 300 = 0"
    using qrep_firstid [OF qrel_rep [OF kcoreD(1,8) [OF kinvD(1) [OF busy_facts(1)]]]] busy_facts(10)
    by (simp add: busy_facts firstkey_def ky_def)
  then show ?thesis by (intro resched_keep) (simp_all add: keeps_cpu_def busy_facts kinvD(3) [OF busy_facts(1)])
qed

text \<open>Process 1 waits for a message and the null process runs; a message makes process 1 run again.\<close>

lemma busy_receive:
  shows "currpid (snd (receive busy)) = 0" "kinv (snd (receive busy)) (\<lambda>_. [])" "prprio (proctab (snd (receive busy)) p) = (if p = 1 then 20 else 0)"
    "readylist (snd (receive busy)) = 300"
proof -
  let ?s = "set_state 1 PR_RECV busy" and ?L = "(\<lambda>_. [])(300 := [0::int])"
  note K = kinvD [OF busy_facts(1)]
  have "kcore busy ?L (insert 1 {})" using kcore_curr_transit [OF K(1,6)] by (simp add: busy_facts)
  from kcore_park [OF this, of PR_RECV] have k: "kcore ?s ?L {}" by (simp add: busy_facts)
  have c: "candidates ?s ?L = [0]" "\<not> keeps_cpu ?s" by (simp_all add: candidates_def keeps_cpu_def busy_facts)
  have n: "ndefers ?s = 0" using K(3) by simp
  note sw = resched_switch [OF k n c(2,1)]
  have r: "snd (receive busy) = (resched ?s)\<lparr>pframe := (pframe (resched ?s))(1 := Some F_receive)\<rparr>"
    using sw(2) by (simp add: receive_def resume_point_def busy_facts)
  show "currpid (snd (receive busy)) = 0" using sw(2) unfolding r by simp
  show "prprio (proctab (snd (receive busy)) p) = (if p = 1 then 20 else 0)" "readylist (snd (receive busy)) = 300"
    using switch_frameD(25,2) [OF sw(4)] unfolding r by (simp_all add: busy_facts upd_proc_def set_state_def)
  have "sems_ok (resched ?s) (?L(300 := []))"
    by (rule sems_ok_other_queue [OF k _ switch_frameD(1) [OF sw(4)]]) (use K(2) in \<open>simp_all add: busy_facts\<close>)
  then have ki: "kinv (resched ?s) (\<lambda>_. [])"
    using sw(1-3) switch_frameD(5) [OF sw(4)] n by (simp add: kinv_def busy_facts fun_upd_idem)
  have "prstate (proctab (resched ?s) 1) = PR_RECV" using sw(6) [of 1] by simp
  then show "kinv (snd (receive busy)) (\<lambda>_. [])" unfolding r by (intro kinv_frame [OF ki]) (simp add: wakeable_def)
qed

lemma busy_rendezvous: "currpid (snd (send 1 42 (snd (receive busy)))) = 1"
proof -
  let ?s = "snd (receive busy)" and ?t = "deliver 1 42 (snd (receive busy))"
  note R = receive_blocks [OF busy_facts(1)]
  have st: "prstate (proctab ?s 1) = PR_RECV" "\<not> prhasmsg (proctab ?s 1)" using R(3,4) by (simp_all add: busy_facts)
  note K = kinvD [OF busy_receive(2)]
  have "kcore ?s (\<lambda>_. []) {1}" using st by (intro kcore_curr_transit K(1)) (simp add: home_def)
  then have c: "kcore ?t (\<lambda>_. []) {1}" by (rule deliver_kcore) simp
  have "send 1 42 ?s = (OK, snd (ready 1 ?t))" using st by (simp add: send_def Let_def upd_proc_def isbadpid_def)
  moreover have "currpid (snd (ready 1 ?t)) = 1"
    by (rule ready_takes_cpu [OF c]) (use K(3,4) st busy_receive(1,3) in \<open>auto simp: upd_proc_def wakeable_def isbadpid_def\<close>)
  ultimately show ?thesis by simp
qed

text \<open>The same with semaphore 0 created.\<close>

definition armed :: "int \<Rightarrow> kernel" where
  "armed n = snd (semcreate n busy)"

lemma armed_semcreate:
  assumes "0 \<le> n"
  shows "semcreate n busy = (0, upd_sem 0 (\<lambda>e. e\<lparr>sstate := S_USED, scount := n\<rparr>) (busy\<lparr>nextsem := 1\<rparr>))"
proof -
  have "newsem_loop (Suc m) busy = (0, upd_sem 0 (\<lambda>e. e\<lparr>sstate := S_USED\<rparr>) (busy\<lparr>nextsem := 1\<rparr>))" for m
    using idle_facts(10) [of 0] by (simp add: busy_facts Let_def)
  from this [of 99] show ?thesis using assms by (simp add: semcreate_def newsem_def upd_sem_def)
qed

lemma armed_facts:
  assumes "0 \<le> n" "n \<le> 2147483647"
  shows "kinv (armed n) ((\<lambda>_. [])(300 := [0]))" "currpid (armed n) = 1" "pframe (armed n) p = None"
    "semtab (armed n) 0 = \<lparr>sstate = S_USED, scount = n, squeue = 100\<rparr>"
  using semcreate_kinv [OF busy_facts(1) assms(2)] armed_semcreate [OF assms(1)] idle_facts(10) [of 0]
  by (simp_all add: armed_def busy_facts upd_sem_def)

text \<open>Creating a process in the idle system succeeds and gives process 1.\<close>

lemma idle_create:
  "fst (create 4096 400 20 ''main'' [] 0 idle) = 1"
  "\<exists>m. getstk 400 (kmem idle) = Some (Some 2684346364, m)"
proof -
  obtain m where g: "getstk 400 (kmem idle) = Some (Some 2684346364, m)"
    by (rule getstk_result [OF idle_facts(9), of 400]) (auto simp: roundmb_eq Cons_eq_append_conv)
  then show "\<exists>m. getstk 400 (kmem idle) = Some (Some 2684346364, m)" by blast
  have "newpid_loop (Suc k) (idle\<lparr>kmem := m\<rparr>) = (1, idle\<lparr>kmem := m, nextpid := 2\<rparr>)" for k
    by (simp add: idle_facts Let_def)
  from this [of 99] have "newpid (idle\<lparr>kmem := m\<rparr>) = (1, idle\<lparr>kmem := m, nextpid := 2\<rparr>)"
    by (simp add: newpid_def)
  then show "fst (create 4096 400 20 ''main'' [] 0 idle) = 1"
    using g by (simp add: create_def roundew_eq Let_def split: prod.split)
qed

end
