(* ===== verification/Node_List.thy ===== *)
theory Node_List
  imports Process
begin

text \<open>
  Linked lists of fixed-size nodes in the heap, as the buffer pools and the ports keep them: every node has the
  address of the next one in the word at a fixed offset, and the list ends with a null pointer. \<open>nodes off h a ns\<close> says
  that the list starting at \<open>a\<close> has the nodes \<open>ns\<close>; \<open>link_loop\<close> is the loop with which both components
  chain a fresh array of nodes.
\<close>

definition set_word :: "nat \<Rightarrow> nat \<Rightarrow> kernel \<Rightarrow> kernel" where
  "set_word a v s = s\<lparr>kmem := (kmem s)\<lparr>mem := (mem (kmem s))(a := v)\<rparr>\<rparr>"

lemma set_word_mem [simp]: "mem (kmem (set_word a v s)) = (mem (kmem s))(a := v)"
  by (simp add: set_word_def)

fun link_loop :: "nat \<Rightarrow> nat \<Rightarrow> nat \<Rightarrow> nat \<Rightarrow> heap \<Rightarrow> heap" where
  "link_loop off stride 0 a h = h(a + off := 0)"
| "link_loop off stride (Suc k) a h = link_loop off stride k (a + stride) (h(a + off := a + stride))"

fun nodes :: "nat \<Rightarrow> heap \<Rightarrow> nat \<Rightarrow> nat list \<Rightarrow> bool" where
  "nodes off h a [] \<longleftrightarrow> a = 0"
| "nodes off h a (n # ns) \<longleftrightarrow> a = n \<and> n \<noteq> 0 \<and> nodes off h (h (n + off)) ns"

text \<open>The list of nodes as a function of the heap; it has a value exactly when the list ends.\<close>

partial_function (option) node_list :: "nat \<Rightarrow> heap \<Rightarrow> nat \<Rightarrow> nat list option" where
  "node_list off h a = (if a = 0 then Some [] else Option.bind (node_list off h (h (a + off))) (\<lambda>ns. Some (a # ns)))"

lemma nodes_node_list: "nodes off h a ns \<Longrightarrow> node_list off h a = Some ns"
  by (induction ns arbitrary: a) (subst node_list.simps; simp)+

lemma nodes_cong: "\<forall>n \<in> set ns. h' (n + off) = h (n + off) \<Longrightarrow> nodes off h' a ns = nodes off h a ns"
  by (induction ns arbitrary: a) auto

lemma nodes_upd [simp]: "\<forall>n \<in> set ns. x \<noteq> n + off \<Longrightarrow> nodes off (h(x := v)) a ns = nodes off h a ns"
  by (rule nodes_cong) auto

lemma nodes_upd_other [simp]:
  "n \<notin> set ns \<Longrightarrow> nodes off (h(n + off := v)) a ns = nodes off h a ns"
  "n \<notin> set ns \<Longrightarrow> nodes 0 (h(n := v)) a ns = nodes 0 h a ns"
  by (rule nodes_cong; auto)+

lemma nodes_nonzero: "nodes off h a ns \<Longrightarrow> 0 \<notin> set ns"
  by (induction ns arbitrary: a) auto

lemma nodes_hd: "nodes off h a ns \<Longrightarrow> a = (if ns = [] then 0 else hd ns)"
  by (cases ns) auto

lemma nodes_snoc:
  assumes "nodes off h a ns" "distinct ns" "ns \<noteq> []" "b \<noteq> 0" "b \<notin> set ns" "h (b + off) = 0"
  shows "nodes off (h(last ns + off := b)) a (ns @ [b])"
  using assms
proof (induction ns arbitrary: a)
  case (Cons n ns)
  then show ?case
  proof (cases "ns = []")
    case False
    then have "last ns \<noteq> n" using Cons.prems(2) by auto
    then show ?thesis using Cons False by auto
  qed auto
qed simp

lemma nodes_append:
  assumes "nodes off h a ns" "nodes off h b ms" "distinct ns" "ns \<noteq> []" "set ns \<inter> set ms = {}"
  shows "nodes off (h(last ns + off := b)) a (ns @ ms)"
  using assms
proof (induction ns arbitrary: a)
  case (Cons n ns)
  show ?case
  proof (cases "ns = []")
    case True
    then show ?thesis using Cons.prems nodes_upd [of ms "n + off" off h b b] by (auto simp: fun_upd_def)
  next
    case False
    then have "last ns \<noteq> n" using Cons.prems(3) by auto
    then show ?thesis using Cons False by auto
  qed
qed simp

lemma link_loop_other: "0 < stride \<Longrightarrow> x < a + off \<Longrightarrow> link_loop off stride k a h x = h x"
  by (induction k arbitrary: a h) auto

lemma link_loop_nodes:
  assumes "0 < a" "0 < stride"
  shows "nodes off (link_loop off stride k a h) a (map (\<lambda>i. a + i * stride) [0..<Suc k])"
  using assms
proof (induction k arbitrary: a h)
  case (Suc k)
  let ?h = "h(a + off := a + stride)"
  have "map (\<lambda>i. a + i * stride) [0..<Suc (Suc k)] = a # map (\<lambda>i. (a + stride) + i * stride) [0..<Suc k]"
    unfolding upt_conv_Cons [OF zero_less_Suc] map_Suc_upt [symmetric] by (simp add: algebra_simps)
  moreover have "link_loop off stride k (a + stride) ?h (a + off) = a + stride"
    using link_loop_other [of stride "a + off" "a + stride" off k ?h] Suc.prems(2) by simp
  ultimately show ?case using Suc.prems by (simp del: upt_Suc add: Suc.IH)
qed simp

lemma link_loop_writes:
  "x \<notin> (\<lambda>i. a + i * stride + off) ` {..k} \<Longrightarrow> link_loop off stride k a h x = h x"
proof (induction k arbitrary: a h)
  case (Suc k)
  have "x \<notin> (\<lambda>i. a + stride + i * stride + off) ` {..k}"
  proof
    assume "x \<in> (\<lambda>i. a + stride + i * stride + off) ` {..k}"
    then obtain i where "i \<le> k" "x = a + Suc i * stride + off" by auto
    then show False using Suc.prems by (metis Suc_le_mono atMost_iff imageI)
  qed
  moreover have "x \<noteq> a + off" using Suc.prems by force
  ultimately show ?case by (simp add: Suc.IH)
qed auto

section \<open>Arrays of nodes\<close>

text \<open>The \<open>n\<close> nodes of an array at \<open>buf\<close>.\<close>

definition buffers :: "nat \<Rightarrow> nat \<Rightarrow> nat \<Rightarrow> nat list" where
  "buffers buf stride n = map (\<lambda>i. buf + i * stride) [0..<n]"

lemma buffers_disjoint:
  assumes "a \<in> set (buffers buf stride n)" "b \<in> set (buffers buf stride n)" "a \<noteq> b"
  shows "{a..<a + stride} \<inter> {b..<b + stride} = {}"
proof -
  have "a + stride \<le> b" if "a = buf + i * stride" "b = buf + j * stride" "i < j" for i j a b
    using that mult_le_mono1 [of "Suc i" j stride] by simp
  then show ?thesis using assms by (auto simp: buffers_def) (metis assms(3) linorder_neqE_nat add_leD1 leD le_less_trans)+
qed

lemma buffers_inside:
  assumes "a \<in> set (buffers buf stride n)"
  shows "{a..<a + stride} \<subseteq> {buf..<buf + n * stride}"
proof -
  obtain i where "i < n" "a = buf + i * stride" using assms by (auto simp: buffers_def)
  then show ?thesis using mult_le_mono1 [of "Suc i" n stride] by auto
qed

lemma distinct_buffers: "0 < stride \<Longrightarrow> distinct (buffers buf stride n)"
  by (auto simp: buffers_def distinct_map inj_on_def)

lemma link_buffers:
  assumes m: "mem_free m F" and sp: "mem_span buf n \<subseteq> heap_range m" "mem_span buf n \<inter> F = {}"
    and len: "Suc k * stride \<le> roundmb n" "off < stride"
  shows "mem_free (m\<lparr>mem := link_loop off stride k buf (mem m)\<rparr>) F"
proof (rule mem_free_write [OF m _ sp], intro allI impI)
  fix x assume x: "x \<notin> mem_span buf n"
  have "x \<notin> (\<lambda>i. buf + i * stride + off) ` {..k}"
  proof
    assume "x \<in> (\<lambda>i. buf + i * stride + off) ` {..k}"
    then obtain i where i: "x = buf + i * stride + off" "i \<in> {..k}" by (rule imageE)
    then have "buf + i * stride \<in> set (buffers buf stride (Suc k))" by (auto simp: buffers_def)
    then have "x \<in> {buf..<buf + Suc k * stride}" by (rule subsetD [OF buffers_inside]) (use i(1) len(2) in simp)
    then show False using x len(1) by (simp add: mem_span_def)
  qed
  then show "link_loop off stride k buf (mem m) x = mem m x" by (rule link_loop_writes)
qed

end
