(* ===== verification/Bufpool.thy ===== *)
theory Bufpool
  imports Node_List Startup
begin

text \<open>
  Buffer pools (\<^verbatim>\<open>system/mkbufpool.c\<close>, \<^verbatim>\<open>getbuf.c\<close>, \<^verbatim>\<open>freebuf.c\<close>). A pool is a block of the heap cut into buffers; a free
  buffer has the address of the next free one in its first word, a buffer in use the number of its pool.
  \<^verbatim>\<open>getbuf\<close> waits for the semaphore of the pool: when the process blocks there, the rest of the call is the
  frame \<open>F_getbuf\<close>. A pointer that signals an error is \<^verbatim>\<open>(char *)SYSERR\<close>, all bits set.
\<close>

unbundle bit_operations_syntax

abbreviation (input) NBPOOLS :: int where "NBPOOLS \<equiv> 20"
abbreviation (input) BP_MAXB :: int where "BP_MAXB \<equiv> 8192"
abbreviation (input) BP_MINB :: int where "BP_MINB \<equiv> 8"
abbreviation (input) BP_MAXN :: int where "BP_MAXN \<equiv> 2048"
abbreviation (input) SYSERRP :: nat where "SYSERRP \<equiv> 4294967295"

section \<open>Operations\<close>

definition upd_pool :: "int \<Rightarrow> (bpentry \<Rightarrow> bpentry) \<Rightarrow> kernel \<Rightarrow> kernel" where
  "upd_pool i f s = s\<lparr>buftab := (buftab s)(i := f (buftab s i))\<rparr>"

definition round4 :: "int \<Rightarrow> int" where
  "round4 n = (n + 3) AND (NOT 3)"

definition mkbufpool :: "int \<Rightarrow> int \<Rightarrow> kernel \<Rightarrow> int \<times> kernel" where
  "mkbufpool bufsiz0 numbufs s =
     (if bufsiz0 < BP_MINB \<or> bufsiz0 > BP_MAXB \<or> numbufs < 1 \<or> numbufs > BP_MAXN \<or> nbpools s \<ge> NBPOOLS then (SYSERR, s)
      else
        let bufsiz = round4 bufsiz0;
            nbytes = nat (numbufs * (bufsiz + 4))
        in case getmem nbytes (kmem s) of
             None \<Rightarrow> (SYSERR, s\<lparr>kstat := Hung\<rparr>)
           | Some (None, m) \<Rightarrow> (SYSERR, s\<lparr>kmem := m\<rparr>)
           | Some (Some buf, m) \<Rightarrow>
               let poolid = nbpools s;
                   s1 = upd_pool poolid (\<lambda>e. e\<lparr>bpnext := buf, bpsize := nat bufsiz\<rparr>) (s\<lparr>kmem := m, nbpools := poolid + 1\<rparr>);
                   (sem, s2) = semcreate numbufs s1;
                   s3 = upd_pool poolid (\<lambda>e. e\<lparr>bpsem := sem\<rparr>) s2
               in if sem = SYSERR then
                    (case freemem buf nbytes (kmem s3) of
                       None \<Rightarrow> (SYSERR, s3\<lparr>kstat := Hung\<rparr>)
                     | Some (_, m') \<Rightarrow> (SYSERR, s3\<lparr>kmem := m', nbpools := nbpools s3 - 1\<rparr>))
                  else
                    (poolid, s3\<lparr>kmem := (kmem s3)\<lparr>mem :=
                       link_loop 0 (nat (bufsiz + 4)) (nat (numbufs - 1)) buf (mem (kmem s3))\<rparr>\<rparr>))"

definition getbuf_rest :: "int \<Rightarrow> kernel \<Rightarrow> nat \<times> kernel" where
  "getbuf_rest poolid s =
     (let bufptr = bpnext (buftab s poolid);
          s1 = upd_pool poolid (\<lambda>e. e\<lparr>bpnext := mem (kmem s) bufptr\<rparr>) s;
          s2 = set_word bufptr (nat poolid) s1
      in (u32 (4 + bufptr), s2))"

definition getbuf :: "int \<Rightarrow> kernel \<Rightarrow> nat option \<times> kernel" where
  "getbuf poolid s =
     (if poolid < 0 \<or> poolid \<ge> nbpools s then (Some SYSERRP, s)
      else
        let s1 = snd (wait (bpsem (buftab s poolid)) s)
        in resume_point s s1 (F_getbuf poolid) (getbuf_rest poolid))"

definition freebuf :: "nat \<Rightarrow> kernel \<Rightarrow> int \<times> kernel" where
  "freebuf bufaddr0 s =
     (let bufaddr = sub32 bufaddr0 4;
          poolid = s32 (int (mem (kmem s) bufaddr))
      in if poolid < 0 \<or> poolid \<ge> nbpools s then (SYSERR, s)
         else
           let s1 = set_word bufaddr (bpnext (buftab s poolid)) s;
               s2 = upd_pool poolid (\<lambda>e. e\<lparr>bpnext := bufaddr\<rparr>) s1
           in (OK, snd (signal (bpsem (buftab s2 poolid)) s2)))"

section \<open>The free list of a pool\<close>

definition pool_free :: "kernel \<Rightarrow> int \<Rightarrow> nat list \<Rightarrow> bool" where
  "pool_free s i fl \<longleftrightarrow> nodes 0 (mem (kmem s)) (bpnext (buftab s i)) fl \<and> distinct fl"

lemma pool_free_cong:
  assumes "quiet s s'"
  shows "pool_free s' i fl = pool_free s i fl"
  using quietD(1,5) [OF assms] by (simp add: pool_free_def)

lemma getbuf_rest_takes:
  assumes "pool_free s i (a # fl)" "a + 4 < 4294967296"
  shows "fst (getbuf_rest i s) = a + 4" "pool_free (snd (getbuf_rest i s)) i fl"
    "mem (kmem (snd (getbuf_rest i s))) = (mem (kmem s))(a := nat i)"
    "\<And>j gl. j \<noteq> i \<Longrightarrow> a \<notin> set gl \<Longrightarrow> pool_free (snd (getbuf_rest i s)) j gl = pool_free s j gl"
  using assms by (auto simp: getbuf_rest_def pool_free_def upd_pool_def set_word_def)

lemma kinv_pool [simp]:
  "kinv (upd_pool i f s) L = kinv s L" "kinv (set_word a v s) L = kinv s L"
  by (simp_all add: upd_pool_def set_word_def)

section \<open>Getting and freeing buffers\<close>

lemma getbuf_available:
  assumes k: "kinv s L" and i: "0 \<le> i" "i < nbpools s" and f: "pool_free s i (a # fl)" "a + 4 < 4294967296"
    and sem: "bpsem (buftab s i) = j" "j \<in> {0..<NSEM}" "sstate (semtab s j) = S_USED" "0 < scount (semtab s j)"
  obtains s' where "getbuf i s = (Some (a + 4), s')" "kinv s' L" "pool_free s' i fl" "mem (kmem s') = (mem (kmem s))(a := nat i)"
    "semtab s' = (semtab s)(j := (semtab s j)\<lparr>scount := scount (semtab s j) - 1\<rparr>)"
    "currpid s' = currpid s" "nbpools s' = nbpools s" "bpsem (buftab s' i) = j"
proof -
  note w = wait_passes [OF k sem(2-4)]
  let ?s1 = "upd_sem j (\<lambda>e. e\<lparr>scount := scount e - 1\<rparr>) s"
  let ?s2 = "snd (getbuf_rest i ?s1)"
  have f1: "pool_free ?s1 i (a # fl)" using f(1) by (simp add: pool_free_def upd_sem_def)
  note g = getbuf_rest_takes [OF f1 f(2)]
  have "getbuf i s = (Some (a + 4), ?s2)"
    using w(1) i sem(1) g(1) by (cases "getbuf_rest i ?s1") (simp add: getbuf_def resume_point_def)
  moreover have "kinv ?s2 L" using w(2) by (simp add: getbuf_rest_def Let_def)
  moreover have "semtab ?s2 = (semtab s)(j := (semtab s j)\<lparr>scount := scount (semtab s j) - 1\<rparr>)"
    "currpid ?s2 = currpid s" "nbpools ?s2 = nbpools s" "bpsem (buftab ?s2 i) = j"
    using sem(1) by (simp_all add: getbuf_rest_def Let_def set_word_def upd_pool_def upd_sem_def)
  moreover have "mem (kmem ?s2) = (mem (kmem s))(a := nat i)" using g(3) by (simp add: upd_sem_def)
  ultimately show thesis using that g(2) by blast
qed

text \<open>A buffer of pool \<open>i\<close> in use: its first word is the number of the pool and it is not on the free list.\<close>

definition pool_used :: "kernel \<Rightarrow> int \<Rightarrow> nat \<Rightarrow> bool" where
  "pool_used s i a \<longleftrightarrow> mem (kmem s) a = nat i \<and> a \<noteq> 0 \<and> a + 4 < 4294967296"

lemma freebuf_returns:
  assumes k: "kinv s L" and i: "0 \<le> i" "i < nbpools s" "nbpools s \<le> NBPOOLS" and f: "pool_free s i fl" "a \<notin> set fl"
    and u: "pool_used s i a"
    and sem: "bpsem (buftab s i) = j" "j \<in> {0..<NSEM}" "sstate (semtab s j) = S_USED" "scount (semtab s j) < 2147483647"
  obtains xs ys where "fst (freebuf (a + 4) s) = OK" "pool_free (snd (freebuf (a + 4) s)) i (a # fl)"
    "kinv (snd (freebuf (a + 4) s)) (L(squeue (semtab s j) := xs, readylist s := ys))"
    "semtab (snd (freebuf (a + 4) s)) = (semtab s)(j := (semtab s j)\<lparr>scount := scount (semtab s j) + 1\<rparr>)"
    "mem (kmem (snd (freebuf (a + 4) s))) = (mem (kmem s))(a := bpnext (buftab s i))"
    "L (squeue (semtab s j)) = [] \<and> xs = [] \<or>
     (\<exists>p. L (squeue (semtab s j)) = p # xs \<and> on_cpu_or_ready (snd (freebuf (a + 4) s)) p)"
proof -
  let ?s1 = "upd_pool i (\<lambda>e. e\<lparr>bpnext := a\<rparr>) (set_word a (bpnext (buftab s i)) s)"
  have a: "sub32 (a + 4) 4 = a" using u by (simp add: pool_used_def)
  have p: "s32 (int (mem (kmem s) a)) = i" using u i by (simp add: pool_used_def s32_def)
  have k1: "kinv ?s1 L" using k by simp
  have sem1: "semtab ?s1 = semtab s" "readylist ?s1 = readylist s" "bpsem (buftab ?s1 i) = j"
    using sem(1) by (simp_all add: upd_pool_def set_word_def)
  have e: "freebuf (a + 4) s = (OK, signal_one j ?s1)"
    using i sem sem1 good_semaphore [of j ?s1] by (simp add: freebuf_def Let_def a p signal_def set_word_def upd_pool_def)
  have q: "quiet ?s1 (signal_one j ?s1)" by (rule quiet_signal_one) simp
  have "pool_free ?s1 i (a # fl)" using f u by (auto simp: pool_free_def pool_used_def upd_pool_def set_word_def)
  then have fl: "pool_free (signal_one j ?s1) i (a # fl)" using pool_free_cong [OF q] by simp
  have m: "mem (kmem (signal_one j ?s1)) = (mem (kmem s))(a := bpnext (buftab s i))"
    using quietD(1) [OF q] by (simp add: upd_pool_def set_word_def)
  from signal_one_kinv [OF k1 sem(2)] sem(3,4) sem1 obtain xs ys where
    "kinv (signal_one j ?s1) (L(squeue (semtab s j) := xs, readylist s := ys))"
    "semtab (signal_one j ?s1) = (semtab s)(j := (semtab s j)\<lparr>scount := scount (semtab s j) + 1\<rparr>)"
    "L (squeue (semtab s j)) = [] \<and> xs = [] \<or> (\<exists>p. L (squeue (semtab s j)) = p # xs \<and> on_cpu_or_ready (signal_one j ?s1) p)"
    by auto
  then show thesis using that e fl m by simp
qed

section \<open>Making a pool\<close>

lemma round4_eq: "round4 n = (n + 3) div 4 * 4"
proof -
  have "round4 n = (n + 3) AND NOT (mask 2)" by (simp add: round4_def mask_eq_exp_minus_1)
  also have "\<dots> = push_bit 2 (drop_bit 2 (n + 3))" by (rule bit_eqI) (auto simp: bit_simps not_less dest!: le_Suc_ex)
  finally show ?thesis by (simp add: push_bit_eq_mult drop_bit_eq_div)
qed

definition pool_bytes :: "int \<Rightarrow> int \<Rightarrow> nat" where
  "pool_bytes bufsiz numbufs = nat numbufs * nat (round4 bufsiz + 4)"

lemma pool_bytes_good:
  assumes "BP_MINB \<le> bufsiz" "bufsiz \<le> BP_MAXB" "1 \<le> numbufs" "numbufs \<le> BP_MAXN"
  shows "nat (numbufs * (round4 bufsiz + 4)) = pool_bytes bufsiz numbufs" "good_size (pool_bytes bufsiz numbufs)"
    "bufsiz \<le> round4 bufsiz" "pool_bytes bufsiz numbufs \<le> roundmb (pool_bytes bufsiz numbufs)"
proof -
  have r: "bufsiz \<le> round4 bufsiz" "round4 bufsiz \<le> 8195" using assms by (auto simp: round4_eq)
  then show "bufsiz \<le> round4 bufsiz" by simp
  show e: "nat (numbufs * (round4 bufsiz + 4)) = pool_bytes bufsiz numbufs"
    using assms r by (simp add: pool_bytes_def nat_mult_distrib)
  have "numbufs * (round4 bufsiz + 4) \<le> 2048 * 8199" using assms r by (intro mult_mono) auto
  moreover have "1 * 1 \<le> numbufs * (round4 bufsiz + 4)" using assms r by (intro mult_mono) auto
  ultimately have "0 < pool_bytes bufsiz numbufs" "pool_bytes bufsiz numbufs < 4294967289" using e by simp_all
  then show "good_size (pool_bytes bufsiz numbufs)" "pool_bytes bufsiz numbufs \<le> roundmb (pool_bytes bufsiz numbufs)"
    using roundmb_bounds(1) by (simp_all add: good_size_def)
qed

lemma semcreate_keeps:
  assumes "nextsem s \<in> {0..<NSEM}" "semcreate n s = (j, s')"
  shows "kmem s' = kmem s" "nbpools s' = nbpools s" "proctab s' = proctab s" "buftab s' = buftab s"
    "j \<noteq> SYSERR \<Longrightarrow> semtab s' = (semtab s)(j := (semtab s j)\<lparr>sstate := S_USED, scount := n\<rparr>)"
  by (rule semcreate_shape [OF assms]; simp)+

theorem mkbufpool_result:
  assumes k: "kinv s L" and m: "kmem_ok s F" and nx: "nextsem s \<in> {0..<NSEM}"
    and c: "mkbufpool bufsiz numbufs s = (r, s')"
  obtains
    (fail) "r = SYSERR" "kinv s' L" "kmem_ok s' F" "nbpools s' = nbpools s"
  | (pool) buf j where "r = nbpools s" "nbpools s < NBPOOLS" "nbpools s' = nbpools s + 1" "kinv s' L"
      "mem_span buf (pool_bytes bufsiz numbufs) \<subseteq> F" "kmem_ok s' (F - mem_span buf (pool_bytes bufsiz numbufs))"
      "pool_free s' r (buffers buf (nat (round4 bufsiz + 4)) (nat numbufs))" "bufsiz \<le> int (bpsize (buftab s' r))"
      "bpsem (buftab s' r) = j" "j \<in> {0..<NSEM}" "sstate (semtab s j) = S_FREE"
      "semtab s' = (semtab s)(j := (semtab s j)\<lparr>sstate := S_USED, scount := numbufs\<rparr>)"
proof (cases "bufsiz < BP_MINB \<or> bufsiz > BP_MAXB \<or> numbufs < 1 \<or> numbufs > BP_MAXN \<or> nbpools s \<ge> NBPOOLS")
  case True
  then show thesis using c k m fail by (auto simp: mkbufpool_def)
next
  case False
  then have b: "BP_MINB \<le> bufsiz" "bufsiz \<le> BP_MAXB" "1 \<le> numbufs" "numbufs \<le> BP_MAXN" "nbpools s < NBPOOLS" by auto
  note g = pool_bytes_good [OF b(1-4)]
  let ?n = "pool_bytes bufsiz numbufs" and ?st = "nat (round4 bufsiz + 4)"
  have mf: "mem_free (kmem s) F" using m by (simp add: kmem_ok_def)
  from heap.alloc_total [OF mf g(2)] obtain ro m1 where a: "getmem ?n (kmem s) = Some (ro, m1)" by force
  show thesis
  proof (cases ro)
    case None
    then have "m1 = kmem s" using heap.alloc_none [OF mf g(2)] a by simp
    then have "r = SYSERR" "s' = s" using c False a None by (simp_all add: mkbufpool_def g(1))
    then show thesis using k m fail by simp
  next
    case (Some buf)
    from heap.alloc_some [OF mf g(2)] a Some
    have A: "mem_span buf ?n \<subseteq> F" "mem_free m1 (F - mem_span buf ?n)" "heap_range m1 = heap_range (kmem s)" by auto
    define s1 where "s1 = upd_pool (nbpools s) (\<lambda>e. e\<lparr>bpnext := buf, bpsize := nat (round4 bufsiz)\<rparr>)
      (s\<lparr>kmem := m1, nbpools := nbpools s + 1\<rparr>)"
    obtain j s2 where sc: "semcreate numbufs s1 = (j, s2)" by force
    have E: "mkbufpool bufsiz numbufs s =
      (let s3 = upd_pool (nbpools s) (\<lambda>e. e\<lparr>bpsem := j\<rparr>) s2 in
       if j = SYSERR then
         (case freemem buf ?n (kmem s3) of None \<Rightarrow> (SYSERR, s3\<lparr>kstat := Hung\<rparr>)
          | Some (_, m') \<Rightarrow> (SYSERR, s3\<lparr>kmem := m', nbpools := nbpools s3 - 1\<rparr>))
       else (nbpools s, s3\<lparr>kmem := (kmem s3)\<lparr>mem := link_loop 0 ?st (nat (numbufs - 1)) buf (mem (kmem s3))\<rparr>\<rparr>))"
      using False a Some by (simp add: mkbufpool_def g(1) s1_def [symmetric] sc Let_def)
    have nx1: "nextsem s1 \<in> {0..<NSEM}" using nx by (simp add: s1_def upd_pool_def)
    note R = semcreate_result [OF nx1 sc]
    have k1: "kinv s1 L" using k by (simp add: s1_def)
    have k2: "kinv s2 L" using semcreate_kinv [OF k1 _ nx1, of numbufs] b sc by simp
    have q: "kmem s2 = m1" "nbpools s2 = nbpools s + 1" "proctab s2 = proctab s" "buftab s2 = buftab s1"
      using semcreate_keeps(1-4) [OF nx1 sc] by (simp_all add: s1_def upd_pool_def)
    have stk: "kmem_ok (t\<lparr>kmem := m'\<rparr>) F'" if "heap_range m' = heap_range m1" "mem_free m' F'" "proctab t = proctab s" for t m' F'
      using that m A(3) by (simp add: kmem_ok_def stk_ok_def)
    show thesis
    proof (cases "j = SYSERR")
      case True
      have "mem_span buf ?n \<subseteq> heap_range m1" using A(1,3) mem_free_heap [OF mf] by simp
      from heap.release_ok [OF A(2) g(2) this] obtain m2 where
        f: "freemem buf ?n m1 = Some (1, m2)" "mem_free m2 (F - mem_span buf ?n \<union> mem_span buf ?n)" "heap_range m2 = heap_range m1" by blast
      have F: "F - mem_span buf ?n \<union> mem_span buf ?n = F" using A(1) by blast
      let ?t = "(upd_pool (nbpools s) (\<lambda>e. e\<lparr>bpsem := j\<rparr>) s2)\<lparr>nbpools := nbpools s\<rparr>"
      have e: "r = SYSERR" "s' = ?t\<lparr>kmem := m2\<rparr>"
        using c f(1) True q unfolding E Let_def by (auto simp: upd_pool_def)
      have "kmem_ok s' F" unfolding e using stk [OF f(3,2), of ?t] F q(3) by (simp add: upd_pool_def)
      moreover have "kinv s' L" "nbpools s' = nbpools s" using k2 by (simp_all add: e)
      ultimately show thesis using fail e(1) by simp
    next
      case False
      have J: "j \<in> {0..<NSEM}" "sstate (semtab s j) = S_FREE"
        "semtab s2 = (semtab s)(j := (semtab s j)\<lparr>sstate := S_USED, scount := numbufs\<rparr>)"
        using R(4) [OF False] semcreate_keeps(5) [OF nx1 sc False] by (auto simp: s1_def upd_pool_def)
      let ?t = "upd_pool (nbpools s) (\<lambda>e. e\<lparr>bpsem := j\<rparr>) s2"
      let ?h = "link_loop 0 ?st (nat (numbufs - 1)) buf (mem m1)"
      have e: "r = nbpools s" "s' = ?t\<lparr>kmem := m1\<lparr>mem := ?h\<rparr>\<rparr>"
        using c False q unfolding E Let_def by (auto simp: upd_pool_def)
      have st: "0 < ?st" "Suc (nat (numbufs - 1)) = nat numbufs" using b g(3) by auto
      have buf: "0 < buf" using A(1) mf g(2) mem_free_heap [OF mf] roundmb_bounds(3) [of ?n] 
        by (auto simp: mem_free_def mem_span_def good_size_def heap_range_def mem_ok_def dest!: subsetD [of _ _ buf])
      have "mem_free (m1\<lparr>mem := ?h\<rparr>) (F - mem_span buf ?n)"
        by (rule link_buffers [OF A(2), of _ ?n]) (use A mem_free_heap [OF mf] st g(4) in \<open>auto simp: pool_bytes_def\<close>)
      then have "kmem_ok s' (F - mem_span buf ?n)" unfolding e(2)
        by (intro stk) (simp_all add: heap_range_def upd_pool_def q)
      moreover have "pool_free s' r (buffers buf ?st (nat numbufs))"
        using link_loop_nodes [OF buf st(1), of 0 "nat (numbufs - 1)" "mem m1"] distinct_buffers [OF st(1)] st(2)
        by (simp add: e pool_free_def upd_pool_def q s1_def buffers_def)
      moreover have "bufsiz \<le> int (bpsize (buftab s' r))" "bpsem (buftab s' r) = j" "semtab s' = semtab s2" "nbpools s' = nbpools s + 1"
        using b g(3) by (simp_all add: e upd_pool_def q s1_def)
      moreover have "kinv s' L" using k2 by (simp add: e)
      ultimately show thesis using pool e(1) b(5) A(1) J by simp
    qed
  qed
qed

end
