(* ===== verification/Ports.thy ===== *)
theory Ports
  imports Node_List Startup
begin

text \<open>
  Ports (\<^verbatim>\<open>system/ptinit.c\<close>, \<^verbatim>\<open>ptcreate.c\<close>, \<^verbatim>\<open>ptsend.c\<close>, \<^verbatim>\<open>ptrecv.c\<close>, \<^verbatim>\<open>ptclear.c\<close>, \<^verbatim>\<open>ptdelete.c\<close>, \<^verbatim>\<open>ptreset.c\<close>,
  \<^verbatim>\<open>ptcount.c\<close>): bounded message queues guarded by two semaphores. The messages are kept in nodes
  of two words, \<^verbatim>\<open>ptmsg\<close> and \<^verbatim>\<open>ptnext\<close>, taken from one free list. A process that blocks or is preempted inside a call
  leaves the rest of the call in a frame. The disposal function that \<^verbatim>\<open>ptdelete\<close> and \<^verbatim>\<open>ptreset\<close> are given is called with every
  message, which is recorded in \<open>devlog\<close>. \<^verbatim>\<open>panic\<close> stops the machine.

  The main results: every operation keeps the nodes partitioned between the free list and the queues, and
  the queue of a port is a FIFO queue.
\<close>

abbreviation (input) NPORTS :: int where "NPORTS \<equiv> 30"

section \<open>Operations\<close>

definition isbadport :: "int \<Rightarrow> bool" where
  "isbadport portid \<longleftrightarrow> portid < 0 \<or> portid \<ge> NPORTS"

definition upd_port :: "int \<Rightarrow> (ptentry \<Rightarrow> ptentry) \<Rightarrow> kernel \<Rightarrow> kernel" where
  "upd_port p f s = s\<lparr>porttab := (porttab s)(p := f (porttab s p))\<rparr>"

definition ptinit :: "int \<Rightarrow> kernel \<Rightarrow> int \<times> kernel" where
  "ptinit maxmsgs s =
     (case getmem (nat (maxmsgs * 8 mod 4294967296)) (kmem s) of
        None \<Rightarrow> (SYSERR, s\<lparr>kstat := Hung\<rparr>)
      | Some (None, m) \<Rightarrow> (SYSERR, s\<lparr>kmem := m, kstat := Halted\<rparr>)
      | Some (Some a, m) \<Rightarrow>
          let pt = (\<lambda>i. if 0 \<le> i \<and> i < NPORTS then (porttab s i)\<lparr>ptstate := PT_FREE, ptseq := 0\<rparr> else porttab s i);
              h = link_loop 4 8 (nat (maxmsgs - 1)) a (mem m)
          in (OK, s\<lparr>ptfree := a, porttab := pt, ptnextid := 0, kmem := m\<lparr>mem := h\<rparr>\<rparr>))"

definition ptcreate_at :: "int \<Rightarrow> int \<Rightarrow> kernel \<Rightarrow> kernel" where
  "ptcreate_at ptnum count s =
     (let s1 = upd_port ptnum (\<lambda>e. e\<lparr>ptstate := PT_ALLOC\<rparr>) s;
          (ss, s2) = semcreate count s1;
          s3 = upd_port ptnum (\<lambda>e. e\<lparr>ptssem := ss\<rparr>) s2;
          (rs, s4) = semcreate 0 s3
      in upd_port ptnum (\<lambda>e. e\<lparr>ptrsem := rs, pttail := 0, pthead := 0, ptseq := s32 (ptseq e + 1),
           ptmaxcnt := nat (count mod 65536)\<rparr>) s4)"

fun ptcreate_loop :: "nat \<Rightarrow> int \<Rightarrow> kernel \<Rightarrow> int \<times> kernel" where
  "ptcreate_loop 0 count s = (SYSERR, s)"
| "ptcreate_loop (Suc i) count s =
     (let ptnum = ptnextid s;
          s1 = s\<lparr>ptnextid := (if ptnextid s + 1 \<ge> NPORTS then 0 else ptnextid s + 1)\<rparr>
      in if ptstate (porttab s1 ptnum) = PT_FREE then (ptnum, ptcreate_at ptnum count s1)
         else ptcreate_loop i count s1)"

definition ptcreate :: "int \<Rightarrow> kernel \<Rightarrow> int \<times> kernel" where
  "ptcreate count s = (if count < 0 then (SYSERR, s) else ptcreate_loop (nat NPORTS) count s)"

text \<open>Taking a node from the free list and linking it at the tail; unlinking the head and returning it.\<close>

definition port_put :: "int \<Rightarrow> umsg32 \<Rightarrow> kernel \<Rightarrow> kernel" where
  "port_put portid msg s =
     (let msgnode = ptfree s;
          s1 = s\<lparr>ptfree := mem (kmem s) (msgnode + 4)\<rparr>;
          s2 = set_word msgnode (unat msg) (set_word (msgnode + 4) 0 s1);
          tailnode = pttail (porttab s2 portid)
      in if tailnode = 0 then upd_port portid (\<lambda>e. e\<lparr>pthead := msgnode, pttail := msgnode\<rparr>) s2
         else upd_port portid (\<lambda>e. e\<lparr>pttail := msgnode\<rparr>) (set_word (tailnode + 4) msgnode s2))"

definition port_get :: "int \<Rightarrow> kernel \<Rightarrow> umsg32 \<times> kernel" where
  "port_get portid s =
     (let msgnode = pthead (porttab s portid);
          msg = word_of_nat (mem (kmem s) msgnode);
          s1 = (if pthead (porttab s portid) = pttail (porttab s portid)
                then upd_port portid (\<lambda>e. e\<lparr>pttail := 0, pthead := 0\<rparr>) s
                else upd_port portid (\<lambda>e. e\<lparr>pthead := mem (kmem s) (msgnode + 4)\<rparr>) s);
          s2 = set_word (msgnode + 4) (ptfree s1) s1
      in (msg, s2\<lparr>ptfree := msgnode\<rparr>))"

definition ptsend_rest :: "int \<Rightarrow> umsg32 \<Rightarrow> int \<Rightarrow> kernel \<Rightarrow> int \<times> kernel" where
  "ptsend_rest portid msg seq s =
     (if ptstate (porttab s portid) \<noteq> PT_ALLOC \<or> ptseq (porttab s portid) \<noteq> seq then (SYSERR, s)
      else if ptfree s = 0 then (SYSERR, s\<lparr>kstat := Halted\<rparr>)
      else
        let s1 = port_put portid msg s
        in (OK, snd (signal (ptrsem (porttab s1 portid)) s1)))"

definition ptsend :: "int \<Rightarrow> umsg32 \<Rightarrow> kernel \<Rightarrow> int option \<times> kernel" where
  "ptsend portid msg s =
     (if isbadport portid \<or> ptstate (porttab s portid) \<noteq> PT_ALLOC then (Some SYSERR, s)
      else
        let seq = ptseq (porttab s portid);
            (r, s1) = wait (ptssem (porttab s portid)) s
        in if r = SYSERR then (Some SYSERR, s1)
           else resume_point s s1 (F_ptsend portid msg seq) (ptsend_rest portid msg seq))"

definition ptrecv_rest :: "int \<Rightarrow> int \<Rightarrow> kernel \<Rightarrow> umsg32 \<times> kernel" where
  "ptrecv_rest portid seq s =
     (if ptstate (porttab s portid) \<noteq> PT_ALLOC \<or> ptseq (porttab s portid) \<noteq> seq then (word_of_int SYSERR, s)
      else
        let (msg, s1) = port_get portid s
        in (msg, snd (signal (ptssem (porttab s1 portid)) s1)))"

definition ptrecv :: "int \<Rightarrow> kernel \<Rightarrow> umsg32 option \<times> kernel" where
  "ptrecv portid s =
     (if isbadport portid \<or> ptstate (porttab s portid) \<noteq> PT_ALLOC then (Some (word_of_int SYSERR), s)
      else
        let seq = ptseq (porttab s portid);
            (r, s1) = wait (ptrsem (porttab s portid)) s
        in if r = SYSERR then (Some (word_of_int SYSERR), s1)
           else resume_point s s1 (F_ptrecv portid seq) (ptrecv_rest portid seq))"

text \<open>The loop of \<^verbatim>\<open>_ptclear\<close> over the messages.\<close>

partial_function (option) dispose_loop :: "nat \<Rightarrow> kernel \<Rightarrow> kernel option" where
  "dispose_loop walk s =
     (if walk \<noteq> 0
      then dispose_loop (mem (kmem s) (walk + 4)) (s\<lparr>devlog := devlog s @ [Dispose (word_of_nat (mem (kmem s) walk))]\<rparr>)
      else Some s)"

text \<open>Each of the two semaphore operations may give up the processor: stage 1 is what remains after the
  first, stage 2 after the second.\<close>

definition ptclear_end :: "int \<Rightarrow> ptstate \<Rightarrow> kernel \<Rightarrow> kernel" where
  "ptclear_end portid newstate s =
     (let s1 = upd_port portid (\<lambda>e. e\<lparr>ptstate := newstate\<rparr>) s
      in if newstate = PT_FREE then s1\<lparr>ptnextid := portid\<rparr> else s1)"

definition ptclear_sem :: "ptstate \<Rightarrow> int \<Rightarrow> int \<Rightarrow> kernel \<Rightarrow> kernel" where
  "ptclear_sem newstate sem count s = (if newstate = PT_ALLOC then snd (semreset sem count s) else snd (semdelete sem s))"

definition ptclear_rest :: "int \<Rightarrow> ptstate \<Rightarrow> nat \<Rightarrow> kernel \<Rightarrow> int option \<times> kernel" where
  "ptclear_rest portid newstate stage s =
     (if stage = 1 then
        resume_point s (ptclear_sem newstate (ptrsem (porttab s portid)) 0 s) (F_ptclear portid newstate 2)
          (\<lambda>s. (OK, ptclear_end portid newstate s))
      else (Some OK, ptclear_end portid newstate s))"

definition ptclear_unlink :: "int \<Rightarrow> ptstate \<Rightarrow> kernel \<Rightarrow> kernel option" where
  "ptclear_unlink portid newstate s =
     (let s1 = upd_port portid (\<lambda>e. e\<lparr>ptstate := PT_LIMBO, ptseq := s32 (ptseq e + 1)\<rparr>) s;
          walk = pthead (porttab s1 portid);
          free = (if walk = 0 then Some s1
                  else map_option (\<lambda>s. (set_word (pttail (porttab s portid) + 4) (ptfree s) s)\<lparr>ptfree := pthead (porttab s portid)\<rparr>)
                         (dispose_loop walk s1))
      in map_option (\<lambda>s. if newstate = PT_ALLOC then upd_port portid (\<lambda>e. e\<lparr>pttail := 0, pthead := 0\<rparr>) s else s) free)"

definition ptclear :: "int \<Rightarrow> ptstate \<Rightarrow> kernel \<Rightarrow> int option \<times> kernel" where
  "ptclear portid newstate s =
     (case ptclear_unlink portid newstate s of
        None \<Rightarrow> (None, s\<lparr>kstat := Hung\<rparr>)
      | Some s1 \<Rightarrow>
          let s2 = ptclear_sem newstate (ptssem (porttab s1 portid)) (int (ptmaxcnt (porttab s1 portid))) s1
          in if currpid s2 = currpid s then ptclear_rest portid newstate 1 s2
             else (None, s2\<lparr>pframe := (pframe s2)(currpid s := Some (F_ptclear portid newstate 1))\<rparr>))"

definition ptdelete :: "int \<Rightarrow> kernel \<Rightarrow> int option \<times> kernel" where
  "ptdelete portid s =
     (if isbadport portid \<or> ptstate (porttab s portid) \<noteq> PT_ALLOC then (Some SYSERR, s) else ptclear portid PT_FREE s)"

definition ptreset :: "int \<Rightarrow> kernel \<Rightarrow> int option \<times> kernel" where
  "ptreset portid s =
     (if isbadport portid \<or> ptstate (porttab s portid) \<noteq> PT_ALLOC then (Some SYSERR, s) else ptclear portid PT_ALLOC s)"

definition ptcount :: "int \<Rightarrow> kernel \<Rightarrow> int" where
  "ptcount portid s =
     (if isbadport portid \<or> ptstate (porttab s portid) \<noteq> PT_ALLOC then SYSERR
      else
        let count = semcount (ptrsem (porttab s portid)) s in
        if count \<ge> 0 then
          let sndcnt = semcount (ptssem (porttab s portid)) s
          in if sndcnt < 0 then s32 (count + - sndcnt) else count
        else count)"

section \<open>The partition of the nodes\<close>

text \<open>\<open>ports_ok N s fl Q\<close>: the nodes \<open>N\<close> are partitioned into the free list \<open>fl\<close> and the queues \<open>Q p\<close> of the allocated ports,
  each linked as its table entry says.\<close>

definition port_list :: "heap \<Rightarrow> ptentry \<Rightarrow> nat list \<Rightarrow> bool" where
  "port_list h e ns \<longleftrightarrow>
     (if ptstate e = PT_ALLOC then nodes 4 h (pthead e) ns \<and> pttail e = (if ns = [] then 0 else last ns) else ns = [])"

definition ports_ok :: "nat set \<Rightarrow> kernel \<Rightarrow> nat list \<Rightarrow> (int \<Rightarrow> nat list) \<Rightarrow> bool" where
  "ports_ok N s fl Q \<longleftrightarrow>
     0 \<notin> N \<and> (\<forall>n \<in> N. n + 4 \<notin> N) \<and>
     nodes 4 (mem (kmem s)) (ptfree s) fl \<and> distinct fl \<and>
     (\<forall>p \<in> {0..<NPORTS}. port_list (mem (kmem s)) (porttab s p) (Q p) \<and> distinct (Q p) \<and> set (Q p) \<inter> set fl = {}) \<and>
     (\<forall>p \<in> {0..<NPORTS}. \<forall>p' \<in> {0..<NPORTS}. p \<noteq> p' \<longrightarrow> set (Q p) \<inter> set (Q p') = {}) \<and>
     set fl \<union> (\<Union>p \<in> {0..<NPORTS}. set (Q p)) = N"

lemma ports_okD:
  assumes "ports_ok N s fl Q"
  shows "0 \<notin> N" "n \<in> N \<Longrightarrow> n + 4 \<notin> N" "nodes 4 (mem (kmem s)) (ptfree s) fl" "distinct fl" "set fl \<subseteq> N"
    "p \<in> {0..<NPORTS} \<Longrightarrow> port_list (mem (kmem s)) (porttab s p) (Q p)" "p \<in> {0..<NPORTS} \<Longrightarrow> distinct (Q p)"
    "p \<in> {0..<NPORTS} \<Longrightarrow> set (Q p) \<inter> set fl = {}" "p \<in> {0..<NPORTS} \<Longrightarrow> set (Q p) \<subseteq> N"
    "p \<in> {0..<NPORTS} \<Longrightarrow> p' \<in> {0..<NPORTS} \<Longrightarrow> p \<noteq> p' \<Longrightarrow> set (Q p) \<inter> set (Q p') = {}"
proof -
  have u: "set fl \<union> (\<Union>p \<in> {0..<NPORTS}. set (Q p)) = N" using assms by (simp add: ports_ok_def)
  show "set fl \<subseteq> N" "p \<in> {0..<NPORTS} \<Longrightarrow> set (Q p) \<subseteq> N" unfolding u [symmetric] by auto
qed (use assms in \<open>simp_all add: ports_ok_def\<close>)

lemma port_list_other:
  assumes "port_list h e ns" "\<forall>n \<in> set ns. h' (n + 4) = h (n + 4)"
  shows "port_list h' e ns"
  using assms nodes_cong [of ns h' 4 h] by (auto simp: port_list_def split: if_splits)

lemma ports_ok_quiet: "quiet s s' \<Longrightarrow> ports_ok N s' fl Q = ports_ok N s fl Q"
  using quietD(1,7,8) [of s s'] by (simp add: ports_ok_def)

text \<open>A step on port \<open>p\<close> that moves nodes between its queue and the free list and touches links of moved nodes only.\<close>

lemma ports_ok_step:
  assumes o: "ports_ok N s fl Q" and p: "p \<in> {0..<NPORTS}"
    and fl: "nodes 4 (mem (kmem s')) (ptfree s') fl'" "distinct fl'"
    and ns: "port_list (mem (kmem s')) (porttab s' p) ns'" "distinct ns'" "set ns' \<inter> set fl' = {}"
    and part: "set ns' \<union> set fl' = set (Q p) \<union> set fl"
    and other: "\<And>p'. p' \<noteq> p \<Longrightarrow> porttab s' p' = porttab s p'"
      "\<And>n. n \<in> N \<Longrightarrow> n \<notin> set (Q p) \<union> set fl \<Longrightarrow> mem (kmem s') (n + 4) = mem (kmem s) (n + 4)"
  shows "ports_ok N s' fl' (Q(p := ns'))"
proof -
  note D = ports_okD [OF o]
  have q: "port_list (mem (kmem s')) (porttab s' p') (Q p')" "set (Q p') \<inter> set fl' = {}" "set (Q p') \<inter> set ns' = {}"
    if p': "p' \<in> {0..<NPORTS}" "p' \<noteq> p" for p'
  proof -
    have d: "set (Q p') \<inter> (set (Q p) \<union> set fl) = {}" using D(8) [OF p'(1)] D(10) [OF p'(1) p p'(2)] by blast
    then show "set (Q p') \<inter> set fl' = {}" "set (Q p') \<inter> set ns' = {}" using part by blast+
    have "\<forall>n \<in> set (Q p'). mem (kmem s') (n + 4) = mem (kmem s) (n + 4)"
      using d D(9) [OF p'(1)] other(2) by blast
    then show "port_list (mem (kmem s')) (porttab s' p') (Q p')"
      using port_list_other [OF D(6) [OF p'(1)]] other(1) [OF p'(2)] by simp
  qed
  have u: "set fl' \<union> (\<Union>p' \<in> {0..<NPORTS}. set ((Q(p := ns')) p')) = N"
  proof -
    have "(\<Union>p' \<in> {0..<NPORTS}. set ((Q(p := ns')) p')) = set ns' \<union> (\<Union>p' \<in> {0..<NPORTS} - {p}. set (Q p'))"
      using p by (auto split: if_splits)
    moreover have "(\<Union>p' \<in> {0..<NPORTS}. set (Q p')) = set (Q p) \<union> (\<Union>p' \<in> {0..<NPORTS} - {p}. set (Q p'))"
      using p by auto
    moreover have "set fl \<union> (\<Union>p' \<in> {0..<NPORTS}. set (Q p')) = N" using o by (simp add: ports_ok_def)
    moreover have "A \<union> B = C \<union> D \<Longrightarrow> B \<union> (A \<union> E) = D \<union> (C \<union> E)" for A B C D E :: "nat set" by blast
    ultimately show ?thesis using part by metis
  qed
  show ?thesis
    unfolding ports_ok_def
  proof (intro conjI ballI impI)
    show "set fl' \<union> (\<Union>p' \<in> {0..<NPORTS}. set ((Q(p := ns')) p')) = N" by (rule u)
    fix p1 p2 assume "p1 \<in> {0..<NPORTS}" "p2 \<in> {0..<NPORTS}" "p1 \<noteq> p2"
    then show "set ((Q(p := ns')) p1) \<inter> set ((Q(p := ns')) p2) = {}" using q(3) D(10) by (auto simp: Int_commute)
  qed (use D(1,2) fl ns q D(7) in \<open>simp_all split: if_splits\<close>)
qed

section \<open>Messages in and out\<close>

lemma port_put_result:
  assumes o: "ports_ok N s (n # fl) Q" and p: "p \<in> {0..<NPORTS}" "ptstate (porttab s p) = PT_ALLOC"
  shows "ports_ok N (port_put p msg s) fl (Q(p := Q p @ [n]))" "mem (kmem (port_put p msg s)) n = unat msg"
    "\<And>m. m \<in> N \<Longrightarrow> m \<noteq> n \<Longrightarrow> mem (kmem (port_put p msg s)) m = mem (kmem s) m"
proof -
  note D = ports_okD [OF o]
  let ?h = "mem (kmem s)"
  have n: "ptfree s = n" "n \<noteq> 0" "n \<in> N" "n \<notin> set fl" "nodes 4 ?h (?h (n + 4)) fl" using D(3-5) by auto
  have q: "nodes 4 ?h (pthead (porttab s p)) (Q p)" "pttail (porttab s p) = (if Q p = [] then 0 else last (Q p))"
    using D(6) [OF p(1)] p(2) by (simp_all add: port_list_def)
  have sub: "set (Q p) \<subseteq> N" "n \<notin> set (Q p)" using D(8,9) [OF p(1)] by auto
  have off: "m + 4 \<noteq> n" "m \<noteq> n + 4" if "m \<in> N" for m using D(2) [OF that] D(2) [OF n(3)] that n(3) by auto
  let ?h1 = "?h(n + 4 := 0, n := unat msg)"
  have h: "mem (kmem (port_put p msg s)) = (if Q p = [] then ?h1 else ?h1(last (Q p) + 4 := n))"
    "ptfree (port_put p msg s) = ?h (n + 4)"
    "porttab (port_put p msg s) p = (porttab s p)\<lparr>pthead := (if Q p = [] then n else pthead (porttab s p)), pttail := n\<rparr>"
    "\<And>p'. p' \<noteq> p \<Longrightarrow> porttab (port_put p msg s) p' = porttab s p'"
  proof -
    have "pttail (porttab s p) = 0 \<longleftrightarrow> Q p = []" using q(2) nodes_nonzero [OF q(1)] by (metis last_in_set)
    then show "mem (kmem (port_put p msg s)) = (if Q p = [] then ?h1 else ?h1(last (Q p) + 4 := n))"
      "ptfree (port_put p msg s) = ?h (n + 4)"
      "porttab (port_put p msg s) p = (porttab s p)\<lparr>pthead := (if Q p = [] then n else pthead (porttab s p)), pttail := n\<rparr>"
      "\<And>p'. p' \<noteq> p \<Longrightarrow> porttab (port_put p msg s) p' = porttab s p'"
      using q(2) n(1) by (simp_all add: port_put_def Let_def set_word_def upd_port_def)
  qed
  have link: "mem (kmem (port_put p msg s)) (m + 4) = ?h (m + 4)" if "m \<in> N" "m \<noteq> n" "Q p = [] \<or> m \<noteq> last (Q p)" for m
    using that off [OF that(1)] h(1) by auto
  have "Q p = [] \<or> last (Q p) \<notin> set fl" using D(8) [OF p(1)] last_in_set [of "Q p"] by force
  then have "\<forall>m \<in> set fl. m \<in> N \<and> m \<noteq> n \<and> (Q p = [] \<or> m \<noteq> last (Q p))"
    using D(5) n(4) by auto
  then have fl: "nodes 4 (mem (kmem (port_put p msg s))) (?h (n + 4)) fl"
    using n(5) nodes_cong [of fl "mem (kmem (port_put p msg s))" 4 ?h] link by simp
  have hq: "port_list (mem (kmem (port_put p msg s))) (porttab (port_put p msg s) p) (Q p @ [n])"
  proof (cases "Q p = []")
    case True
    then show ?thesis using n(2) by (simp add: port_list_def h p(2))
  next
    case False
    have "nodes 4 ?h1 (pthead (porttab s p)) (Q p)"
      using q(1) nodes_cong [of "Q p" ?h1 4 ?h] sub off by (auto simp: subset_iff)
    from nodes_snoc [OF this D(7) [OF p(1)] False n(2) sub(2)] show ?thesis
      using False by (simp add: port_list_def h p(2))
  qed
  show "ports_ok N (port_put p msg s) fl (Q(p := Q p @ [n]))"
  proof (rule ports_ok_step [OF o p(1)])
    show "mem (kmem (port_put p msg s)) (m + 4) = ?h (m + 4)" if "m \<in> N" "m \<notin> set (Q p) \<union> set (n # fl)" for m
    proof (rule link [OF that(1)])
      show "m \<noteq> n" using that(2) by simp
      show "Q p = [] \<or> m \<noteq> last (Q p)" using that(2) last_in_set [of "Q p"] by blast
    qed
    show "nodes 4 (mem (kmem (port_put p msg s))) (ptfree (port_put p msg s)) fl" using fl h(2) by simp
    show "set (Q p @ [n]) \<inter> set fl = {}" using D(8) [OF p(1)] n(4) by auto
  qed (use hq h(4) D(7) [OF p(1)] D(4) sub(2) in simp_all)
  have l: "last (Q p) \<in> N" if "Q p \<noteq> []" using sub(1) last_in_set [OF that] by blast
  show "mem (kmem (port_put p msg s)) n = unat msg" using off(1) [OF l] by (auto simp: h)
  show "mem (kmem (port_put p msg s)) m = ?h m" if "m \<in> N" "m \<noteq> n" for m
    using that off(2) [OF that(1)] D(2) [OF l] by (auto simp: h)
qed

lemma port_get_result:
  assumes o: "ports_ok N s fl Q" and p: "p \<in> {0..<NPORTS}" "ptstate (porttab s p) = PT_ALLOC" and q: "Q p = n # ns"
  shows "fst (port_get p s) = word_of_nat (mem (kmem s) n)" "ports_ok N (snd (port_get p s)) (n # fl) (Q(p := ns))"
    "\<And>m. m \<in> N \<Longrightarrow> mem (kmem (snd (port_get p s))) m = mem (kmem s) m"
proof -
  note D = ports_okD [OF o]
  let ?h = "mem (kmem s)" and ?s = "snd (port_get p s)"
  have l: "pthead (porttab s p) = n" "n \<noteq> 0" "nodes 4 ?h (?h (n + 4)) ns" "pttail (porttab s p) = last (n # ns)"
    using D(6) [OF p(1)] p(2) q by (auto simp: port_list_def)
  have n: "n \<in> N" "n \<notin> set ns" "n \<notin> set fl" "distinct ns" "set ns \<inter> set fl = {}"
    using D(7,8,9) [OF p(1)] q by auto
  have hd: "pthead (porttab s p) = pttail (porttab s p) \<longleftrightarrow> ns = []" using l n(2) by (metis last.simps last_in_set)
  have h: "mem (kmem ?s) = ?h(n + 4 := ptfree s)" "ptfree ?s = n"
    "porttab ?s p = (porttab s p)\<lparr>pthead := (if ns = [] then 0 else ?h (n + 4)), pttail := (if ns = [] then 0 else last ns)\<rparr>"
    "\<And>p'. p' \<noteq> p \<Longrightarrow> porttab ?s p' = porttab s p'"
    using hd l by (simp_all add: port_get_def Let_def set_word_def upd_port_def)
  show "fst (port_get p s) = word_of_nat (?h n)" using l(1) by (simp add: port_get_def Let_def)
  have "ports_ok N ?s (n # fl) (Q(p := ns))"
  proof (rule ports_ok_step [OF o p(1)])
    show "port_list (mem (kmem ?s)) (porttab ?s p) ns" using l(3) n(2) p(2) nodes_hd [OF l(3)] by (auto simp: port_list_def h)
  qed (use D(3,4) q n l(2) h in auto)
  then show "ports_ok N (snd (port_get p s)) (n # fl) (Q(p := ns))" .
  show "mem (kmem ?s) m = ?h m" if "m \<in> N" for m using that D(2) [OF n(1)] by (auto simp: h)
qed

text \<open>The messages of a port as a function of the state.\<close>

definition port_msgs :: "int \<Rightarrow> kernel \<Rightarrow> umsg32 list" where
  "port_msgs p s = map (\<lambda>n. word_of_nat (mem (kmem s) n)) (the (node_list 4 (mem (kmem s)) (pthead (porttab s p))))"

definition port_inv :: "nat set \<Rightarrow> int \<Rightarrow> kernel \<Rightarrow> bool" where
  "port_inv N p s \<longleftrightarrow> p \<in> {0..<NPORTS} \<and> ptstate (porttab s p) = PT_ALLOC \<and> (\<exists>fl Q. ports_ok N s fl Q)"

lemma port_msgs_eq:
  assumes "ports_ok N s fl Q" "p \<in> {0..<NPORTS}" "ptstate (porttab s p) = PT_ALLOC"
  shows "port_msgs p s = map (\<lambda>n. word_of_nat (mem (kmem s) n)) (Q p)"
  using ports_okD(6) [OF assms(1,2)] assms(3) nodes_node_list by (fastforce simp: port_msgs_def port_list_def)

lemma put_get_state [simp]:
  "ptstate (porttab (port_put p msg s) p') = ptstate (porttab s p')"
  "ptstate (porttab (snd (port_get p s)) p') = ptstate (porttab s p')"
  by (simp_all add: port_put_def port_get_def Let_def set_word_def upd_port_def)

interpretation pt: fifo "port_inv N p" "port_msgs p" "\<lambda>_ s. ptfree s \<noteq> 0" "port_put p" "port_get p" for N p
proof
  fix s msg assume i: "port_inv N p s" and r: "ptfree s \<noteq> 0"
  then obtain fl0 Q where o: "ports_ok N s fl0 Q" and p: "p \<in> {0..<NPORTS}" "ptstate (porttab s p) = PT_ALLOC"
    by (auto simp: port_inv_def)
  obtain n fl where fl: "fl0 = n # fl" using ports_okD(3) [OF o] r by (cases fl0) auto
  note R = port_put_result [OF o [unfolded fl] p, where msg = msg]
  have sub: "n \<notin> set (Q p)" "set (Q p) \<subseteq> N" using ports_okD(8,9) [OF o p(1)] fl by auto
  have "\<forall>m \<in> set (Q p). mem (kmem (port_put p msg s)) m = mem (kmem s) m" using R(3) sub by blast
  then have "map (\<lambda>n. word_of_nat (mem (kmem (port_put p msg s)) n)) (Q p) = map (\<lambda>n. (word_of_nat (mem (kmem s) n) :: umsg32)) (Q p)"
    by simp
  then show "port_inv N p (port_put p msg s) \<and> port_msgs p (port_put p msg s) = port_msgs p s @ [msg]"
    using R p port_msgs_eq [OF o p] port_msgs_eq [OF R(1) p(1)] by (auto simp: port_inv_def)
next
  fix s x xs assume i: "port_inv N p s" and c: "port_msgs p s = x # xs"
  then obtain fl Q where o: "ports_ok N s fl Q" and p: "p \<in> {0..<NPORTS}" "ptstate (porttab s p) = PT_ALLOC"
    by (auto simp: port_inv_def)
  obtain n ns where q: "Q p = n # ns" "x = word_of_nat (mem (kmem s) n)" "xs = map (\<lambda>n. word_of_nat (mem (kmem s) n)) ns"
    using port_msgs_eq [OF o p] c by (cases "Q p") auto
  note R = port_get_result [OF o p q(1)]
  have "set ns \<subseteq> N" using ports_okD(9) [OF o p(1)] q by auto
  then have "map (\<lambda>n. (word_of_nat (mem (kmem (snd (port_get p s))) n) :: umsg32)) ns = xs" using R(3) q(3) by auto
  then show "fst (port_get p s) = x \<and> port_inv N p (snd (port_get p s)) \<and> port_msgs p (snd (port_get p s)) = xs"
    using R q(2) p port_msgs_eq [OF R(2) p(1)] by (auto simp: port_inv_def)
qed

section \<open>Ports as bounded queues\<close>

text \<open>\<open>port_sync\<close>: nobody is blocked at the port or on the way into it; the receiver semaphore counts the
  messages and the sender semaphore the room that is left.\<close>

definition port_sync :: "nat set \<Rightarrow> int \<Rightarrow> kernel \<Rightarrow> bool" where
  "port_sync N p s \<longleftrightarrow>
     port_inv N p s \<and> (\<exists>L. kinv s L) \<and>
     (let ss = ptssem (porttab s p); rs = ptrsem (porttab s p); n = length (port_msgs p s); c = ptmaxcnt (porttab s p) in
      ss \<in> {0..<NSEM} \<and> rs \<in> {0..<NSEM} \<and> ss \<noteq> rs \<and> sstate (semtab s ss) = S_USED \<and> sstate (semtab s rs) = S_USED \<and>
      n \<le> c \<and> c < 65536 \<and> scount (semtab s rs) = int n \<and> scount (semtab s ss) = int c - int n)"

lemma port_upd_sem [simp]:
  "port_inv N p (upd_sem i f s) = port_inv N p s" "port_msgs p (upd_sem i f s) = port_msgs p s"
  "porttab (upd_sem i f s) = porttab s" "ptfree (upd_sem i f s) = ptfree s"
  by (simp_all add: port_inv_def port_msgs_def ports_ok_def upd_sem_def)

lemma port_ops_frame:
  "semtab (port_put p msg s) = semtab s" "kinv (port_put p msg s) L = kinv s L" "currpid (port_put p msg s) = currpid s"
  "semtab (snd (port_get p s)) = semtab s" "kinv (snd (port_get p s)) L = kinv s L" "currpid (snd (port_get p s)) = currpid s"
  "ptssem (porttab (port_put p msg s) p') = ptssem (porttab s p')" "ptrsem (porttab (port_put p msg s) p') = ptrsem (porttab s p')"
  "ptmaxcnt (porttab (port_put p msg s) p') = ptmaxcnt (porttab s p')"
  "ptssem (porttab (snd (port_get p s)) p') = ptssem (porttab s p')" "ptrsem (porttab (snd (port_get p s)) p') = ptrsem (porttab s p')"
  "ptmaxcnt (porttab (snd (port_get p s)) p') = ptmaxcnt (porttab s p')"
  by (simp_all add: port_put_def port_get_def Let_def set_word_def upd_port_def)

text \<open>\<^verbatim>\<open>signal\<close> with nobody waiting.\<close>

lemma signal_counts:
  assumes "kinv s L" "i \<in> {0..<NSEM}" "sstate (semtab s i) = S_USED" "0 \<le> scount (semtab s i)" "scount (semtab s i) < 2147483647"
  shows "snd (signal i s) = upd_sem i (\<lambda>e. e\<lparr>scount := scount (semtab s i) + 1\<rparr>) s" "\<exists>L'. kinv (snd (signal i s)) L'"
  using signal_kinv [OF assms(1,5)] assms(2-5) by (simp_all add: signal_def signal_one_def isbadsem_def upd_sem_def s32_id)

lemma ptsend_sync:
  assumes p: "port_sync N p s" and room: "length (port_msgs p s) < ptmaxcnt (porttab s p)" "ptfree s \<noteq> 0"
  shows "fst (ptsend p msg s) = Some OK" "port_sync N p (snd (ptsend p msg s))"
    "port_msgs p (snd (ptsend p msg s)) = port_msgs p s @ [msg]" "currpid (snd (ptsend p msg s)) = currpid s"
proof -
  let ?e = "porttab s p"
  let ?ss = "ptssem ?e" and ?rs = "ptrsem ?e"
  from p obtain L where k: "kinv s L" and i: "port_inv N p s" and sem: "?ss \<in> {0..<NSEM}" "?rs \<in> {0..<NSEM}" "?ss \<noteq> ?rs"
    "sstate (semtab s ?ss) = S_USED" "sstate (semtab s ?rs) = S_USED" "ptmaxcnt ?e < 65536"
    "scount (semtab s ?rs) = int (length (port_msgs p s))"
    "scount (semtab s ?ss) = int (ptmaxcnt ?e) - int (length (port_msgs p s))"
    by (auto simp: port_sync_def Let_def)
  let ?s1 = "upd_sem ?ss (\<lambda>e. e\<lparr>scount := scount e - 1\<rparr>) s"
  let ?t = "port_put p msg ?s1"
  let ?u = "upd_sem ?rs (\<lambda>e. e\<lparr>scount := scount (semtab s ?rs) + 1\<rparr>) ?t"
  have w: "wait ?ss s = (OK, ?s1)" "kinv ?s1 L" using wait_passes [OF k sem(1,4)] sem(8) room(1) by auto
  have put: "port_inv N p ?t" "port_msgs p ?t = port_msgs p s @ [msg]"
    using pt.put_law [of N p ?s1 msg] i room(2) by simp_all
  note f = port_ops_frame(1-3,7-9) [of p msg ?s1]
  have sg: "snd (signal ?rs ?t) = ?u" "\<exists>L'. kinv (snd (signal ?rs ?t)) L'"
    using signal_counts [of ?t L ?rs] w(2) sem room(1) by (simp_all add: f)
  have p': "\<not> isbadport p" "ptstate ?e = PT_ALLOC" using i by (auto simp: port_inv_def isbadport_def)
  have e: "ptsend p msg s = (Some OK, ?u)"
    using p' w(1) room(2) sg(1) by (simp add: ptsend_def resume_point_def ptsend_rest_def Let_def f split_beta)
  show "fst (ptsend p msg s) = Some OK" "currpid (snd (ptsend p msg s)) = currpid s" using e by (simp_all add: f)
  show m: "port_msgs p (snd (ptsend p msg s)) = port_msgs p s @ [msg]" using e put(2) by simp
  show "port_sync N p (snd (ptsend p msg s))"
    unfolding port_sync_def Let_def m using e put(1) sg sem room(1) by (simp add: f)
qed

lemma ptrecv_sync:
  assumes p: "port_sync N p s" and ne: "port_msgs p s = msg # ms"
  shows "fst (ptrecv p s) = Some msg" "port_sync N p (snd (ptrecv p s))"
    "port_msgs p (snd (ptrecv p s)) = ms" "currpid (snd (ptrecv p s)) = currpid s"
proof -
  let ?e = "porttab s p"
  let ?ss = "ptssem ?e" and ?rs = "ptrsem ?e"
  from p obtain L where k: "kinv s L" and i: "port_inv N p s" and sem: "?ss \<in> {0..<NSEM}" "?rs \<in> {0..<NSEM}" "?ss \<noteq> ?rs"
    "sstate (semtab s ?ss) = S_USED" "sstate (semtab s ?rs) = S_USED" "length (port_msgs p s) \<le> ptmaxcnt ?e" "ptmaxcnt ?e < 65536"
    "scount (semtab s ?rs) = int (length (port_msgs p s))"
    "scount (semtab s ?ss) = int (ptmaxcnt ?e) - int (length (port_msgs p s))"
    by (auto simp: port_sync_def Let_def)
  let ?s1 = "upd_sem ?rs (\<lambda>e. e\<lparr>scount := scount e - 1\<rparr>) s"
  let ?t = "snd (port_get p ?s1)"
  let ?u = "upd_sem ?ss (\<lambda>e. e\<lparr>scount := scount (semtab s ?ss) + 1\<rparr>) ?t"
  have w: "wait ?rs s = (OK, ?s1)" "kinv ?s1 L" using wait_passes [OF k sem(2,5)] sem(8) ne by auto
  have get: "fst (port_get p ?s1) = msg" "port_inv N p ?t" "port_msgs p ?t = ms"
    using pt.get_law [of N p ?s1 msg ms] i ne by simp_all
  note f = port_ops_frame(4-6,10-12) [of p ?s1]
  have sg: "snd (signal ?ss ?t) = ?u" "\<exists>L'. kinv (snd (signal ?ss ?t)) L'"
    using signal_counts [of ?t L ?ss] w(2) sem by (simp_all add: f)
  have p': "\<not> isbadport p" "ptstate ?e = PT_ALLOC" using i by (auto simp: port_inv_def isbadport_def)
  have e: "ptrecv p s = (Some msg, ?u)"
    using p' w(1) sg(1) get(1) by (simp add: ptrecv_def resume_point_def ptrecv_rest_def Let_def f split_beta)
  show "fst (ptrecv p s) = Some msg" "currpid (snd (ptrecv p s)) = currpid s" using e by (simp_all add: f)
  show m: "port_msgs p (snd (ptrecv p s)) = ms" using e get(3) by simp
  show "port_sync N p (snd (ptrecv p s))"
    unfolding port_sync_def Let_def m using e get(2) sg sem ne by (simp add: f)
qed

text \<open>The system calls make the port a FIFO queue as well.\<close>

interpretation port: fifo "port_sync N p" "port_msgs p"
  "\<lambda>_ s. length (port_msgs p s) < ptmaxcnt (porttab s p) \<and> ptfree s \<noteq> 0"
  "\<lambda>msg s. snd (ptsend p msg s)" "\<lambda>s. (the (fst (ptrecv p s)), snd (ptrecv p s))" for N p
  by unfold_locales (use ptsend_sync ptrecv_sync in auto)

text \<open>A full port blocks the sender, an empty one the receiver.\<close>

lemma wait_gives_up:
  assumes "kinv s L" "currpid s \<noteq> NULLPROC" "i \<in> {0..<NSEM}" "sstate (semtab s i) = S_USED" "scount (semtab s i) \<le> 0"
  shows "fst (wait i s) = OK" "currpid (snd (wait i s)) \<noteq> currpid s"
    "prstate (proctab (snd (wait i s)) (currpid s)) = PR_WAIT" "prsem (proctab (snd (wait i s)) (currpid s)) = i"
proof -
  obtain ys where w: "fst (wait i s) = OK"
    "kinv (snd (wait i s)) (L(squeue (semtab s i) := L (squeue (semtab s i)) @ [currpid s], readylist s := ys))"
    "semtab (snd (wait i s)) = (semtab s)(i := (semtab s i)\<lparr>scount := scount (semtab s i) - 1\<rparr>)"
    using wait_blocks [OF assms] by metis
  have n: "squeue (semtab s i) \<noteq> readylist s" using qids_okD(5) [OF kcoreD(2) [OF kinvD(1) [OF assms(1)]] assms(3)] .
  show "fst (wait i s) = OK" by (rule w(1))
  show st: "prstate (proctab (snd (wait i s)) (currpid s)) = PR_WAIT" "prsem (proctab (snd (wait i s)) (currpid s)) = i"
    using waiting_state(2,3) [OF kinvD(1) [OF w(2)] assms(3), of "currpid s"] w(3) n by auto
  show "currpid (snd (wait i s)) \<noteq> currpid s" using st(1) kinvD(4) [OF w(2)] by auto
qed

lemma port_blocks:
  assumes p: "port_sync N p s" and c: "currpid s \<noteq> NULLPROC"
  shows "length (port_msgs p s) = ptmaxcnt (porttab s p) \<Longrightarrow>
      fst (ptsend p msg s) = None \<and> prstate (proctab (snd (ptsend p msg s)) (currpid s)) = PR_WAIT \<and>
      pframe (snd (ptsend p msg s)) (currpid s) = Some (F_ptsend p msg (ptseq (porttab s p)))"
    "port_msgs p s = [] \<Longrightarrow>
      fst (ptrecv p s) = None \<and> prstate (proctab (snd (ptrecv p s)) (currpid s)) = PR_WAIT \<and>
      pframe (snd (ptrecv p s)) (currpid s) = Some (F_ptrecv p (ptseq (porttab s p)))"
proof -
  let ?ss = "ptssem (porttab s p)" and ?rs = "ptrsem (porttab s p)"
  from p obtain L where k: "kinv s L" and i: "port_inv N p s" and sem: "?ss \<in> {0..<NSEM}" "?rs \<in> {0..<NSEM}"
    "sstate (semtab s ?ss) = S_USED" "sstate (semtab s ?rs) = S_USED"
    "scount (semtab s ?rs) = int (length (port_msgs p s))"
    "scount (semtab s ?ss) = int (ptmaxcnt (porttab s p)) - int (length (port_msgs p s))"
    by (auto simp: port_sync_def Let_def)
  have p': "\<not> isbadport p" "ptstate (porttab s p) = PT_ALLOC" using i by (auto simp: port_inv_def isbadport_def)
  show "fst (ptsend p msg s) = None \<and> prstate (proctab (snd (ptsend p msg s)) (currpid s)) = PR_WAIT \<and>
      pframe (snd (ptsend p msg s)) (currpid s) = Some (F_ptsend p msg (ptseq (porttab s p)))"
    if "length (port_msgs p s) = ptmaxcnt (porttab s p)"
    using wait_gives_up [OF k c sem(1,3)] sem(6) that p' by (simp add: ptsend_def split_beta resume_point_def)
  show "fst (ptrecv p s) = None \<and> prstate (proctab (snd (ptrecv p s)) (currpid s)) = PR_WAIT \<and>
      pframe (snd (ptrecv p s)) (currpid s) = Some (F_ptrecv p (ptseq (porttab s p)))"
    if "port_msgs p s = []"
    using wait_gives_up [OF k c sem(2,4)] sem(5) that p' by (simp add: ptrecv_def split_beta resume_point_def)
qed

section \<open>Creating, clearing and initialising\<close>

definition ports_inv :: "nat set \<Rightarrow> kernel \<Rightarrow> bool" where
  "ports_inv N s \<longleftrightarrow> (\<exists>fl Q. ports_ok N s fl Q)"

lemma port_inv_iff: "port_inv N p s \<longleftrightarrow> p \<in> {0..<NPORTS} \<and> ptstate (porttab s p) = PT_ALLOC \<and> ports_inv N s"
  by (simp add: port_inv_def ports_inv_def)

lemma ports_inv_quiet: "quiet s s' \<Longrightarrow> ports_inv N s' = ports_inv N s"
  by (simp add: ports_inv_def ports_ok_quiet)

lemma ports_inv_other [simp]:
  "ports_inv N (s\<lparr>pframe := f\<rparr>) = ports_inv N s" "ports_inv N (s\<lparr>ptnextid := i\<rparr>) = ports_inv N s"
  "ports_inv N (s\<lparr>devlog := d\<rparr>) = ports_inv N s" "ports_inv N (s\<lparr>kstat := k\<rparr>) = ports_inv N s"
  "ports_inv N (s\<lparr>nextsem := i\<rparr>) = ports_inv N s"
  by (simp_all add: ports_inv_def ports_ok_def)

text \<open>An entry that is not allocated has no nodes; allocating it needs an empty list.\<close>

lemma ports_ok_entry:
  assumes "ports_ok N s fl Q" "p \<in> {0..<NPORTS}" "Q p = []"
    and "ptstate (f (porttab s p)) = PT_ALLOC \<Longrightarrow> pthead (f (porttab s p)) = 0 \<and> pttail (f (porttab s p)) = 0"
  shows "ports_ok N (upd_port p f s) fl Q"
  using assms by (auto simp: ports_ok_def upd_port_def port_list_def)

lemma ports_inv_entry:
  assumes "ports_inv N s" "p \<in> {0..<NPORTS}" "ptstate (porttab s p) \<noteq> PT_ALLOC"
    and "ptstate (f (porttab s p)) = PT_ALLOC \<Longrightarrow> pthead (f (porttab s p)) = 0 \<and> pttail (f (porttab s p)) = 0"
  shows "ports_inv N (upd_port p f s)"
proof -
  obtain fl Q where o: "ports_ok N s fl Q" using assms(1) by (auto simp: ports_inv_def)
  then have "Q p = []" using ports_okD(6) [OF o assms(2)] assms(3) by (simp add: port_list_def)
  from ports_ok_entry [where f = f, OF o assms(2) this assms(4)] show ?thesis by (auto simp: ports_inv_def)
qed

lemma dispose_loop_ok:
  "nodes 4 (mem (kmem s)) a ns \<Longrightarrow>
   dispose_loop a s = Some (s\<lparr>devlog := devlog s @ map (\<lambda>n. Dispose (word_of_nat (mem (kmem s) n))) ns\<rparr>)"
proof (induction ns arbitrary: a s)
  case Nil
  then show ?case by (simp add: dispose_loop.simps [of 0])
next
  case (Cons n ns)
  then show ?case by (subst dispose_loop.simps) simp
qed

lemma ptclear_unlink_result:
  assumes o: "ports_ok N s fl Q" and p: "p \<in> {0..<NPORTS}" "ptstate (porttab s p) = PT_ALLOC"
  obtains s' where "ptclear_unlink p st s = Some s'" "ports_ok N s' (Q p @ fl) (Q(p := []))"
    "devlog s' = devlog s @ map Dispose (port_msgs p s)" "ptstate (porttab s' p) = PT_LIMBO"
    "st = PT_ALLOC \<Longrightarrow> pthead (porttab s' p) = 0 \<and> pttail (porttab s' p) = 0"
    "ptssem (porttab s' p) = ptssem (porttab s p)" "ptrsem (porttab s' p) = ptrsem (porttab s p)"
    "ptmaxcnt (porttab s' p) = ptmaxcnt (porttab s p)" "\<And>L. kinv s' L = kinv s L" "semtab s' = semtab s" "currpid s' = currpid s"
proof -
  note D = ports_okD [OF o]
  let ?h = "mem (kmem s)" and ?e = "porttab s p"
  have q: "nodes 4 ?h (pthead ?e) (Q p)" "pttail ?e = (if Q p = [] then 0 else last (Q p))"
    using D(6) [OF p(1)] p(2) by (simp_all add: port_list_def)
  have z: "pthead ?e = 0 \<longleftrightarrow> Q p = []" using q(1) by (cases "Q p") auto
  let ?d = "devlog s @ map Dispose (port_msgs p s)"
  let ?h1 = "if Q p = [] then ?h else ?h(last (Q p) + 4 := ptfree s)"
  let ?f = "\<lambda>e. if st = PT_ALLOC then e\<lparr>ptstate := PT_LIMBO, ptseq := s32 (ptseq e + 1), pttail := 0, pthead := 0\<rparr>
    else e\<lparr>ptstate := PT_LIMBO, ptseq := s32 (ptseq e + 1)\<rparr>"
  let ?s = "(upd_port p ?f s)\<lparr>kmem := (kmem s)\<lparr>mem := ?h1\<rparr>, devlog := ?d, ptfree := (if Q p = [] then ptfree s else pthead ?e)\<rparr>"
  have dl: "dispose_loop (pthead ?e) (upd_port p g s) = Some ((upd_port p g s)\<lparr>devlog := ?d\<rparr>)" for g
    using dispose_loop_ok [of "upd_port p g s"] q(1) port_msgs_eq [OF o p] by (simp add: upd_port_def comp_def)
  have e: "ptclear_unlink p st s = Some ?s"
    using q(2) z dl [of "\<lambda>e. e\<lparr>ptstate := PT_LIMBO, ptseq := s32 (ptseq e + 1)\<rparr>", unfolded upd_port_def] port_msgs_eq [OF o p]
    by (cases "Q p = []") (simp_all add: ptclear_unlink_def Let_def upd_port_def set_word_def)
  have "nodes 4 ?h1 (if Q p = [] then ptfree s else pthead ?e) (Q p @ fl)"
    using nodes_append [OF q(1) D(3,7)] p(1) D(3) D(8) [OF p(1)] by simp
  then have "ports_ok N ?s (Q p @ fl) (Q(p := []))"
  proof (intro ports_ok_step [OF o p(1)])
    show "mem (kmem ?s) (n + 4) = ?h (n + 4)" if "n \<notin> set (Q p) \<union> set fl" for n
      using that last_in_set [of "Q p"] by auto
  qed (use D(4) D(7,8) [OF p(1)] in \<open>auto simp: upd_port_def port_list_def\<close>)
  moreover have "kinv ?s L = kinv s L" for L by (simp add: upd_port_def)
  ultimately show thesis using that [OF e] by (simp add: upd_port_def)
qed

lemma quiet_ptclear_sem: "quiet s (ptclear_sem st i n s)"
  by (simp add: ptclear_sem_def quiet_ops)

lemma ptclear_end_inv:
  assumes "ports_inv N s" "p \<in> {0..<NPORTS}" "ptstate (porttab s p) \<noteq> PT_ALLOC"
    and "st = PT_ALLOC \<Longrightarrow> pthead (porttab s p) = 0 \<and> pttail (porttab s p) = 0"
  shows "ports_inv N (ptclear_end p st s)"
  using ports_inv_entry [OF assms(1-3), of "\<lambda>e. e\<lparr>ptstate := st\<rparr>"] assms(4) by (auto simp: ptclear_end_def Let_def)

lemma ptclear_rest_inv:
  assumes "ports_inv N s" "p \<in> {0..<NPORTS}" "ptstate (porttab s p) \<noteq> PT_ALLOC"
    and "st = PT_ALLOC \<Longrightarrow> pthead (porttab s p) = 0 \<and> pttail (porttab s p) = 0"
  shows "ports_inv N (snd (ptclear_rest p st k s))"
proof -
  let ?t = "ptclear_sem st (ptrsem (porttab s p)) 0 s"
  have q: "ports_inv N ?t" "porttab ?t = porttab s"
    using assms(1) quiet_ptclear_sem ports_inv_quiet quietD(8) by metis+
  then show ?thesis using assms ptclear_end_inv [OF assms(1-3)] ptclear_end_inv [OF q(1) assms(2)]
    by (auto simp: ptclear_rest_def resume_point_def)
qed

theorem port_ops_partition:
  assumes i: "ports_inv N s"
  shows "ports_inv N (snd (ptsend p msg s))" "ports_inv N (snd (ptdelete p s))" "ports_inv N (snd (ptreset p s))"
    "p \<in> {0..<NPORTS} \<Longrightarrow> ports_inv N (snd (ptsend_rest p msg seq s))"
    "port_msgs p s \<noteq> [] \<Longrightarrow> ports_inv N (snd (ptrecv p s))"
    "p \<in> {0..<NPORTS} \<Longrightarrow> port_msgs p s \<noteq> [] \<Longrightarrow> ports_inv N (snd (ptrecv_rest p seq s))"
proof -
  have q: "ports_inv N (snd (signal j t)) = ports_inv N t" "ports_inv N (snd (wait j t)) = ports_inv N t" for j t
    by (rule ports_inv_quiet; simp add: quiet_ops)+
  have send: "ports_inv N (snd (ptsend_rest p msg seq s))" if "p \<in> {0..<NPORTS}" "ports_inv N s" for s seq
    using pt.put_law [of N p s msg] that by (auto simp: ptsend_rest_def Let_def q port_inv_iff)
  have recv: "ports_inv N (snd (ptrecv_rest p seq s))" if "p \<in> {0..<NPORTS}" "port_msgs p s \<noteq> []" "ports_inv N s" for s seq
    using pt.get_law [of N p s "hd (port_msgs p s)" "tl (port_msgs p s)"] that
    by (auto simp: ptrecv_rest_def split_beta q port_inv_iff)
  show "p \<in> {0..<NPORTS} \<Longrightarrow> ports_inv N (snd (ptsend_rest p msg seq s))"
    "p \<in> {0..<NPORTS} \<Longrightarrow> port_msgs p s \<noteq> [] \<Longrightarrow> ports_inv N (snd (ptrecv_rest p seq s))" using send recv i by blast+
  have pr: "p \<in> {0..<NPORTS}" if "\<not> isbadport p" using that by (auto simp: isbadport_def)
  have w: "ports_inv N t" "port_msgs p t = port_msgs p s" if "wait j s = (r, t)" for j r t
    using q(2) [of j s] quietD(1,8) [OF quiet_wait [OF quiet_refl, of s j]] that i by (auto simp: port_msgs_def)
  have rp: "ports_inv N (snd (resume_point a b f k))" if "ports_inv N b" "ports_inv N (snd (k b))" for a b f and k :: "kernel \<Rightarrow> 'a \<times> kernel"
    using that by (simp add: resume_point_def split_beta)
  show "ports_inv N (snd (ptsend p msg s))"
    using i send pr w by (auto simp: ptsend_def Let_def split: prod.split intro!: rp)
  show "ports_inv N (snd (ptrecv p s))" if "port_msgs p s \<noteq> []"
    using i that recv pr w by (auto simp: ptrecv_def Let_def split: prod.split intro!: rp)
  have clear: "ports_inv N (snd (ptclear p st s))" if p: "p \<in> {0..<NPORTS}" "ptstate (porttab s p) = PT_ALLOC" for st
  proof -
    obtain fl Q where "ports_ok N s fl Q" using i by (auto simp: ports_inv_def)
    from ptclear_unlink_result [OF this p, of st] obtain s1 where
      s1: "ptclear_unlink p st s = Some s1" "ports_inv N s1" "ptstate (porttab s1 p) = PT_LIMBO"
      "st = PT_ALLOC \<Longrightarrow> pthead (porttab s1 p) = 0 \<and> pttail (porttab s1 p) = 0" by (metis ports_inv_def)
    let ?t = "ptclear_sem st (ptssem (porttab s1 p)) (int (ptmaxcnt (porttab s1 p))) s1"
    have t: "ports_inv N ?t" "porttab ?t = porttab s1"
      using s1(2) quiet_ptclear_sem ports_inv_quiet quietD(8) by metis+
    show ?thesis using s1 t ptclear_rest_inv [OF t(1) p(1)] by (simp add: ptclear_def Let_def)
  qed
  show "ports_inv N (snd (ptdelete p s))" "ports_inv N (snd (ptreset p s))"
    using i clear pr by (auto simp: ptdelete_def ptreset_def)
qed

text \<open>A new port is empty, with room for \<open>count\<close> messages, unless a semaphore could not be created.\<close>

lemma ptcreate_at_result:
  assumes k: "kinv s L" and nx: "nextsem s \<in> {0..<NSEM}" and i: "ports_inv N s" and p: "p \<in> {0..<NPORTS}"
    and st: "ptstate (porttab s p) = PT_FREE" and n: "0 \<le> count" "count < 65536"
  shows "ports_inv N (ptcreate_at p count s)"
    "ptssem (porttab (ptcreate_at p count s) p) \<noteq> SYSERR \<Longrightarrow> ptrsem (porttab (ptcreate_at p count s) p) \<noteq> SYSERR \<Longrightarrow>
       port_sync N p (ptcreate_at p count s) \<and> port_msgs p (ptcreate_at p count s) = [] \<and>
       ptmaxcnt (porttab (ptcreate_at p count s) p) = nat count"
proof -
  let ?s1 = "upd_port p (\<lambda>e. e\<lparr>ptstate := PT_ALLOC\<rparr>) s"
  obtain ss s2 where c1: "semcreate count ?s1 = (ss, s2)" by force
  have nx1: "nextsem ?s1 \<in> {0..<NSEM}" using nx by (simp add: upd_port_def)
  obtain k1 t1 where s2: "s2 = ?s1\<lparr>nextsem := k1, semtab := t1\<rparr>" "k1 \<in> {0..<NSEM}"
    "ss \<noteq> SYSERR \<Longrightarrow> ss \<in> {0..<NSEM} \<and> sstate (semtab s ss) = S_FREE \<and> t1 = (semtab s)(ss := (semtab s ss)\<lparr>sstate := S_USED, scount := count\<rparr>)"
    by (rule semcreate_shape [OF nx1 c1]) (simp add: upd_port_def)
  let ?s3 = "upd_port p (\<lambda>e. e\<lparr>ptssem := ss\<rparr>) s2"
  obtain rs s4 where c2: "semcreate 0 ?s3 = (rs, s4)" by force
  have nx3: "nextsem ?s3 \<in> {0..<NSEM}" using s2 by (simp add: upd_port_def)
  obtain k2 t2 where s4: "s4 = ?s3\<lparr>nextsem := k2, semtab := t2\<rparr>"
    "rs \<noteq> SYSERR \<Longrightarrow> rs \<in> {0..<NSEM} \<and> sstate (t1 rs) = S_FREE \<and> t2 = t1(rs := (t1 rs)\<lparr>sstate := S_USED, scount := 0\<rparr>)"
    by (rule semcreate_shape [OF nx3 c2]) (simp add: upd_port_def s2)
  let ?f = "\<lambda>e. e\<lparr>ptstate := PT_ALLOC, ptssem := ss, ptrsem := rs, pttail := 0, pthead := 0, ptseq := s32 (ptseq e + 1),
    ptmaxcnt := nat count\<rparr>"
  let ?t = "(upd_port p ?f s)\<lparr>nextsem := k2, semtab := t2\<rparr>"
  have t: "ptcreate_at p count s = ?t"
    using n by (simp add: ptcreate_at_def c1 c2) (simp add: s4(1) s2(1) upd_port_def)
  have "ports_inv N (upd_port p ?f s)" using ports_inv_entry [OF i p, of ?f] st by simp
  then have inv: "ports_inv N ?t" by (simp add: ports_inv_def ports_ok_def)
  then show "ports_inv N (ptcreate_at p count s)" unfolding t .
  have k1: "kinv s2 L" using semcreate_kinv [OF _ _ nx1, of L count] k n c1 by (simp add: upd_port_def)
  have "kinv s4 L" using semcreate_kinv [OF _ _ nx3, of L 0] k1 c2 by (simp add: upd_port_def)
  then have "kinv (ptcreate_at p count s) L" by (simp add: ptcreate_at_def c1 c2) (simp add: upd_port_def)
  then have k2: "kinv ?t L" unfolding t .
  have m: "port_msgs p ?t = []" by (simp add: port_msgs_def upd_port_def node_list.simps [of _ _ 0])
  assume "ptssem (porttab (ptcreate_at p count s) p) \<noteq> SYSERR" "ptrsem (porttab (ptcreate_at p count s) p) \<noteq> SYSERR"
  then have ok: "ss \<noteq> SYSERR" "rs \<noteq> SYSERR" unfolding t by (simp_all add: upd_port_def)
  have d: "rs \<noteq> ss" using s2(3) [OF ok(1)] s4(2) [OF ok(2)] by auto
  have "port_sync N p ?t"
    unfolding port_sync_def Let_def m
    using inv k2 p n s2(3) [OF ok(1)] s4(2) [OF ok(2)] d by (auto simp: port_inv_iff upd_port_def)
  then show "port_sync N p (ptcreate_at p count s) \<and> port_msgs p (ptcreate_at p count s) = [] \<and>
       ptmaxcnt (porttab (ptcreate_at p count s) p) = nat count"
    unfolding t using m by (simp add: upd_port_def)
qed

lemma ptcreate_loop_result:
  assumes "ptnextid s \<in> {0..<NPORTS}" "ptcreate_loop i count s = (r, s')"
  shows "r = SYSERR \<and> s' = s\<lparr>ptnextid := ptnextid s'\<rparr> \<and> (\<forall>j. 0 \<le> j \<and> j < int i \<longrightarrow> ptstate (porttab s ((ptnextid s + j) mod NPORTS)) \<noteq> PT_FREE) \<or>
    r \<in> {0..<NPORTS} \<and> ptstate (porttab s r) = PT_FREE \<and> (\<exists>k \<in> {0..<NPORTS}. s' = ptcreate_at r count (s\<lparr>ptnextid := k\<rparr>))"
  using assms
proof (induction i arbitrary: s)
  case (Suc i)
  let ?k = "if ptnextid s + 1 \<ge> NPORTS then 0 else ptnextid s + 1"
  let ?s = "s\<lparr>ptnextid := ?k\<rparr>"
  have k: "?k \<in> {0..<NPORTS}" "?k = (ptnextid s + 1) mod NPORTS"
    using Suc.prems(1) by (cases "ptnextid s = 29"; auto)+
  show ?case
  proof (cases "ptstate (porttab s (ptnextid s)) = PT_FREE")
    case True
    then show ?thesis using Suc.prems k(1) by (auto simp: Let_def)
  next
    case False
    then have e: "ptcreate_loop i count ?s = (r, s')" using Suc.prems(2) by (simp add: Let_def)
    have k': "ptnextid ?s \<in> {0..<NPORTS}" using k(1) by simp
    from Suc.IH [OF k' e]
    show ?thesis
    proof (elim disjE conjE)
      assume a: "r = SYSERR" "s' = ?s\<lparr>ptnextid := ptnextid s'\<rparr>"
        "\<forall>j. 0 \<le> j \<and> j < int i \<longrightarrow> ptstate (porttab ?s ((ptnextid ?s + j) mod NPORTS)) \<noteq> PT_FREE"
      have "ptstate (porttab s ((ptnextid s + j) mod NPORTS)) \<noteq> PT_FREE" if j: "0 \<le> j" "j < int (Suc i)" for j
      proof (cases "j = 0")
        case True
        then show ?thesis using False Suc.prems(1) by simp
      next
        case False
        have "(ptnextid s + j) mod NPORTS = (?k + (j - 1)) mod NPORTS" unfolding k(2) by (simp add: mod_add_left_eq)
        then show ?thesis using a(3) [rule_format, of "j - 1"] j False by simp
      qed
      then show ?thesis using a(1,2) by simp
    next
      assume "r \<in> {0..<NPORTS}" "ptstate (porttab ?s r) = PT_FREE" "\<exists>k \<in> {0..<NPORTS}. s' = ptcreate_at r count (?s\<lparr>ptnextid := k\<rparr>)"
      then show ?thesis by auto
    qed
  qed
qed auto

theorem ptinit_result:
  assumes m: "mem_free (kmem s) F" and n: "1 \<le> maxmsgs" "maxmsgs \<le> 536870910"
  obtains "fst (ptinit maxmsgs s) = SYSERR" "kstat (snd (ptinit maxmsgs s)) = Halted"
  | a m' where "ptinit maxmsgs s = (OK, snd (ptinit maxmsgs s))" "mem_span a (nat maxmsgs * 8) \<subseteq> F"
      "mem_free (kmem (snd (ptinit maxmsgs s))) (F - mem_span a (nat maxmsgs * 8))"
      "heap_range (kmem (snd (ptinit maxmsgs s))) = heap_range (kmem s)"
      "ports_ok (set (buffers a 8 (nat maxmsgs))) (snd (ptinit maxmsgs s)) (buffers a 8 (nat maxmsgs)) (\<lambda>_. [])"
      "\<And>p. p \<in> {0..<NPORTS} \<Longrightarrow> ptstate (porttab (snd (ptinit maxmsgs s)) p) = PT_FREE"
      "ptnextid (snd (ptinit maxmsgs s)) = 0" "\<And>L. kinv (snd (ptinit maxmsgs s)) L = kinv s L"
      "getmem (nat maxmsgs * 8) (kmem s) = Some (Some a, m')"
      "semtab (snd (ptinit maxmsgs s)) = semtab s" "nextsem (snd (ptinit maxmsgs s)) = nextsem s"
      "currpid (snd (ptinit maxmsgs s)) = currpid s"
proof -
  let ?n = "nat maxmsgs * 8"
  have e: "nat (maxmsgs * 8 mod 4294967296) = ?n" using n by (simp add: nat_mult_distrib)
  have g: "good_size ?n" using n by (simp add: good_size_def)
  obtain r m1 where a: "getmem ?n (kmem s) = Some (r, m1)" using heap.alloc_total [OF m g] by force
  show thesis
  proof (cases r)
    case None
    then show thesis using a that(1) by (simp add: ptinit_def e)
  next
    case (Some b)
    from heap.alloc_some [OF m g] a Some
    have A: "mem_span b ?n \<subseteq> F" "mem_free m1 (F - mem_span b ?n)" "heap_range m1 = heap_range (kmem s)" by auto
    let ?s = "snd (ptinit maxmsgs s)" and ?k = "nat (maxmsgs - 1)"
    have k: "Suc ?k = nat maxmsgs" using n by simp
    have b0: "0 < b" using A(1) mem_free_heap [OF m] m good_roundmb(2) [OF g]
      by (auto simp: mem_free_def mem_span_def heap_range_def mem_ok_def dest!: subsetD [of _ _ b])
    have s: "ptinit maxmsgs s = (OK, ?s)" "ptfree ?s = b" "kmem ?s = m1\<lparr>mem := link_loop 4 8 ?k b (mem m1)\<rparr>"
      "\<And>p. p \<in> {0..<NPORTS} \<Longrightarrow> ptstate (porttab ?s p) = PT_FREE" "ptnextid ?s = 0" "kinv ?s L = kinv s L"
      "semtab ?s = semtab s" "nextsem ?s = nextsem s" "currpid ?s = currpid s" for L
      using a Some by (simp_all add: ptinit_def e Let_def)
    have len: "Suc ?k * 8 \<le> roundmb ?n" using k roundmb_bounds(1) [of ?n] g by (simp add: good_size_def)
    have mf: "mem_free (kmem ?s) (F - mem_span b ?n)" unfolding s(3)
      by (rule link_buffers [OF A(2)]) (use A mem_free_heap [OF m] len in auto)
    have nd: "n + 4 \<notin> set (buffers b 8 j)" if "n \<in> set (buffers b 8 j)" for n j
      using that by (auto simp: buffers_def) presburger
    have "nodes 4 (mem (kmem ?s)) (ptfree ?s) (buffers b 8 (nat maxmsgs))"
      using link_loop_nodes [OF b0, of 8 4 ?k "mem m1"] k by (simp add: s(2,3) buffers_def)
    then have "ports_ok (set (buffers b 8 (nat maxmsgs))) ?s (buffers b 8 (nat maxmsgs)) (\<lambda>_. [])"
      using nd nodes_nonzero s(4) distinct_buffers [of 8 b] by (auto simp: ports_ok_def port_list_def)
    then show thesis using that(2) [OF s(1) A(1) mf _ _ s(4,5,6)] a Some A(3) s by (simp add: heap_range_def)
  qed
qed

end
