(* ===== verification/Port_Books.thy ===== *)
theory Port_Books
  imports Ports Kernel_Steps
begin

text \<open>
  The books of a port while processes are blocked in it. A process that is inside \<^verbatim>\<open>ptrecv\<close> has taken a unit of the receiver semaphore
  and not yet a message; one inside \<^verbatim>\<open>ptsend\<close> has taken a unit of the sender semaphore and not yet stored its message. So the first semaphore
  counts the messages less the receivers on their way, the second the room less the senders on their way, and only such processes
  wait in the queues of the two. \<^verbatim>\<open>ptsend\<close>, \<^verbatim>\<open>ptrecv\<close> and the completion of both keep these books, and with them a receiver that is released
  finds a message and a sender finds room.
\<close>

definition receivers :: "int \<Rightarrow> kernel \<Rightarrow> int set" where
  "receivers p s = {q \<in> {0..<NPROC}. pframe s q = Some (F_ptrecv p (ptseq (porttab s p)))}"

definition senders :: "int \<Rightarrow> kernel \<Rightarrow> int set" where
  "senders p s = {q \<in> {0..<NPROC}. \<exists>msg. pframe s q = Some (F_ptsend p msg (ptseq (porttab s p)))}"

text \<open>The books with the receivers \<open>R\<close> and the senders \<open>S\<close> on their way.\<close>

definition pbooks :: "nat set \<Rightarrow> int \<Rightarrow> int set \<Rightarrow> int set \<Rightarrow> kernel \<Rightarrow> (int \<Rightarrow> int list) \<Rightarrow> bool" where
  "pbooks N p R S s L \<longleftrightarrow>
     kinv s L \<and> port_inv N p s \<and> finite R \<and> finite S \<and>
     (let ss = ptssem (porttab s p); rs = ptrsem (porttab s p); n = length (port_msgs p s); c = ptmaxcnt (porttab s p) in
      ss \<in> {0..<NSEM} \<and> rs \<in> {0..<NSEM} \<and> ss \<noteq> rs \<and> sstate (semtab s ss) = S_USED \<and> sstate (semtab s rs) = S_USED \<and> c < 65536 \<and>
      scount (semtab s rs) = int n - int (card R) \<and> scount (semtab s ss) = int c - int n - int (card S) \<and>
      set (L (squeue (semtab s rs))) \<subseteq> R \<and> set (L (squeue (semtab s ss))) \<subseteq> S)"

definition port_books :: "nat set \<Rightarrow> int \<Rightarrow> kernel \<Rightarrow> bool" where
  "port_books N p s \<longleftrightarrow> (\<exists>L. pbooks N p (receivers p s) (senders p s) s L)"

lemma pbooksD:
  assumes "pbooks N p R S s L"
  shows "kinv s L" "port_inv N p s" "finite R" "finite S"
    "ptssem (porttab s p) \<in> {0..<NSEM}" "ptrsem (porttab s p) \<in> {0..<NSEM}" "ptssem (porttab s p) \<noteq> ptrsem (porttab s p)"
    "sstate (semtab s (ptssem (porttab s p))) = S_USED" "sstate (semtab s (ptrsem (porttab s p))) = S_USED"
    "ptmaxcnt (porttab s p) < 65536"
    "scount (semtab s (ptrsem (porttab s p))) = int (length (port_msgs p s)) - int (card R)"
    "scount (semtab s (ptssem (porttab s p))) = int (ptmaxcnt (porttab s p)) - int (length (port_msgs p s)) - int (card S)"
    "set (L (squeue (semtab s (ptrsem (porttab s p))))) \<subseteq> R" "set (L (squeue (semtab s (ptssem (porttab s p))))) \<subseteq> S"
    "p \<in> {0..<NPORTS}" "ptstate (porttab s p) = PT_ALLOC"
  using assms by (auto simp: pbooks_def Let_def port_inv_def)

lemma finite_on_way [simp]: "finite (receivers p s)" "finite (senders p s)"
  by (rule finite_subset [of _ "{0..<NPROC}"]; auto simp: receivers_def senders_def)+

section \<open>Whoever is released finds a message or room\<close>

text \<open>Those waiting at a semaphore together with one process that is not waiting.\<close>

lemma waiting_and_one:
  assumes k: "kinv s L" and i: "i \<in> {0..<NSEM}" and w: "set (L (squeue (semtab s i))) \<subseteq> A" and f: "finite A" and c: "currpid s \<in> A"
  shows "max 0 (- scount (semtab s i)) + 1 \<le> int (card A)"
proof -
  let ?q = "L (squeue (semtab s i))"
  note K = kinvD [OF k]
  have "distinct ?q" using qrel_rep [OF kcoreD(1) [OF K(1)] qids_okD(4) [OF kcoreD(2) [OF K(1)] i]] by (simp add: qrep_def)
  moreover have "currpid s \<notin> set ?q" using waiting_state(2) [OF K(1) i] K(4) by fastforce
  ultimately have "card (insert (currpid s) (set ?q)) = length ?q + 1" by (simp add: distinct_card)
  moreover have "card (insert (currpid s) (set ?q)) \<le> card A" using w f c by (intro card_mono) auto
  moreover have "int (length ?q) = max 0 (- scount (semtab s i))" using K(2) i by (auto simp: sems_ok_def sem_ok_def sem_cnt_def)
  ultimately show ?thesis by linarith
qed

lemma waiting_all:
  assumes k: "kinv s L" and i: "i \<in> {0..<NSEM}" and w: "set (L (squeue (semtab s i))) \<subseteq> A" and f: "finite A"
  shows "max 0 (- scount (semtab s i)) \<le> int (card A)"
proof -
  let ?q = "L (squeue (semtab s i))"
  note K = kinvD [OF k]
  have "distinct ?q" using qrel_rep [OF kcoreD(1) [OF K(1)] qids_okD(4) [OF kcoreD(2) [OF K(1)] i]] by (simp add: qrep_def)
  then have "length ?q \<le> card A" using card_mono [OF f w] by (simp add: distinct_card)
  moreover have "int (length ?q) = max 0 (- scount (semtab s i))" using K(2) i by (auto simp: sems_ok_def sem_ok_def sem_cnt_def)
  ultimately show ?thesis by linarith
qed

lemma receiver_finds_message:
  assumes b: "pbooks N p R S s L" and c: "currpid s \<in> R"
  shows "port_msgs p s \<noteq> []"
proof -
  note B = pbooksD [OF b]
  have "0 < length (port_msgs p s)" using waiting_and_one [OF B(1,6,13,3) c] B(11) by linarith
  then show ?thesis by simp
qed

lemma sender_finds_room:
  assumes b: "pbooks N p R S s L" and c: "currpid s \<in> S"
  shows "length (port_msgs p s) < ptmaxcnt (porttab s p)"
proof -
  note B = pbooksD [OF b]
  show ?thesis using waiting_and_one [OF B(1,5,14,4) c] B(12) by linarith
qed

lemma port_bounded:
  assumes b: "pbooks N p R S s L"
  shows "length (port_msgs p s) \<le> ptmaxcnt (porttab s p)"
proof -
  note B = pbooksD [OF b]
  show ?thesis using waiting_all [OF B(1,5,14,4)] B(12) by linarith
qed

section \<open>The steps of the calls\<close>

lemma pframe_sem_ops [simp]: "pframe (snd (wait i s)) = pframe s" "pframe (snd (signal i s)) = pframe s"
  "pframe (port_put p msg s) = pframe s" "pframe (snd (port_get p s)) = pframe s"
  by (simp_all add: wait_def signal_def signal_one_def ready_def enqueue_def upd_sem_def upd_proc_def Let_def split_beta
      port_put_def port_get_def set_word_def upd_port_def)

lemma quiet_ports:
  assumes "quiet s t"
  shows "port_inv N p t = port_inv N p s" "port_msgs p t = port_msgs p s" "porttab t = porttab s"
  using quietD(1,7,8) [OF assms] by (simp_all add: port_inv_def ports_ok_def port_msgs_def)

text \<open>\<^verbatim>\<open>signal\<close> on one of the semaphores: one more unit, and the waiting process that is released stays among those on their way.\<close>

lemma pbooks_signal:
  assumes k: "kinv t L" and i: "i \<in> {0..<NSEM}" "sstate (semtab t i) = S_USED" "scount (semtab t i) < 2147483647"
  shows "\<exists>L'. kinv (snd (signal i t)) L' \<and> quiet t (snd (signal i t)) \<and>
    semtab (snd (signal i t)) = (semtab t)(i := (semtab t i)\<lparr>scount := scount (semtab t i) + 1\<rparr>) \<and>
    (\<forall>j \<in> {0..<NSEM}. set (L' (squeue (semtab t j))) \<subseteq> set (L (squeue (semtab t j))))"
proof -
  have e: "snd (signal i t) = signal_one i t" using i by (simp add: signal_def isbadsem_def)
  obtain xs ys where s: "kinv (signal_one i t) (L(squeue (semtab t i) := xs, readylist t := ys))"
    "semtab (signal_one i t) = (semtab t)(i := (semtab t i)\<lparr>scount := scount (semtab t i) + 1\<rparr>)"
    "L (squeue (semtab t i)) = [] \<and> xs = [] \<or> (\<exists>p. L (squeue (semtab t i)) = p # xs \<and> on_cpu_or_ready (signal_one i t) p)"
    by (rule signal_one_kinv [OF k i])
  have "squeue (semtab t j) \<noteq> readylist t" if "j \<in> {0..<NSEM}" for j
    using qids_okD(5) [OF kcoreD(2) [OF kinvD(1) [OF k]] that] .
  moreover have "set xs \<subseteq> set (L (squeue (semtab t i)))" using s(3) by (elim disjE exE conjE) auto
  ultimately have "\<forall>j \<in> {0..<NSEM}. set ((L(squeue (semtab t i) := xs, readylist t := ys)) (squeue (semtab t j))) \<subseteq> set (L (squeue (semtab t j)))"
    by (simp add: fun_upd_apply)
  then show ?thesis unfolding e using s(1,2) quiet_signal_one [OF quiet_refl] by blast
qed

lemma recv_step:
  assumes b: "pbooks N p R S s L" and c: "currpid s \<in> R"
  shows "\<exists>u L'. ptrecv_rest p (ptseq (porttab s p)) s = (hd (port_msgs p s), u) \<and> pbooks N p (R - {currpid s}) S u L' \<and>
    port_msgs p u = tl (port_msgs p s) \<and> pframe u = pframe s \<and> ptseq (porttab u p) = ptseq (porttab s p)"
proof -
  note B = pbooksD [OF b]
  let ?t = "snd (port_get p s)" and ?ss = "ptssem (porttab s p)"
  let ?u = "snd (signal ?ss ?t)"
  obtain msg ms where m: "port_msgs p s = msg # ms" using receiver_finds_message [OF b c] by (cases "port_msgs p s") auto
  from pt.get_law [of N p s, OF B(2) m] have g: "fst (port_get p s) = msg" "port_inv N p ?t" "port_msgs p ?t = ms" by auto
  note f = port_ops_frame(4-6,10-12) [of p s]
  have sq: "ptseq (porttab ?t p) = ptseq (porttab s p)" by (simp add: port_get_def Let_def set_word_def upd_port_def)
  have r: "ptrecv_rest p (ptseq (porttab s p)) s = (msg, ?u)"
    using B(16) g(1) by (simp add: ptrecv_rest_def split_beta f)
  have lim: "scount (semtab s ?ss) < 2147483647" using B(10,12) by linarith
  have "kinv ?t L" "sstate (semtab ?t ?ss) = S_USED" "scount (semtab ?t ?ss) < 2147483647" using B(1,8) lim by (simp_all add: f)
  from pbooks_signal [OF this(1) B(5) this(2,3), unfolded f(1)] obtain L' where u: "kinv ?u L'" "quiet ?t ?u"
    "semtab ?u = (semtab s)(?ss := (semtab s ?ss)\<lparr>scount := scount (semtab s ?ss) + 1\<rparr>)"
    "\<forall>j \<in> {0..<NSEM}. set (L' (squeue (semtab s j))) \<subseteq> set (L (squeue (semtab s j)))" by (elim exE conjE) rule
  note q = quiet_ports [OF u(2)]
  have "currpid s \<notin> set (L (squeue (semtab s (ptrsem (porttab s p)))))"
    using waiting_state(2) [OF kinvD(1) [OF B(1)] B(6)] kinvD(4) [OF B(1)] by fastforce
  then have w: "set (L' (squeue (semtab s (ptrsem (porttab s p))))) \<subseteq> R - {currpid s}" "set (L' (squeue (semtab s ?ss))) \<subseteq> S"
    using subset_trans [OF u(4) [rule_format, OF B(6)] B(13)] subset_trans [OF u(4) [rule_format, OF B(5)] B(14)]
      u(4) [rule_format, OF B(6)] by (simp_all add: subset_Diff_insert) blast
  define X where "X = R - {currpid s}"
  have "int (card R) = int (card X) + 1" "finite X" using c B(3) card.remove [of R "currpid s"] by (simp_all add: X_def)
  then have "pbooks N p X S ?u L'"
    unfolding pbooks_def Let_def using B u(1,3) g m w [folded X_def] by (simp add: q f)
  then show ?thesis using r g m sq by (intro exI [of _ ?u] exI [of _ L']) (simp add: q X_def)
qed

lemma send_step:
  assumes b: "pbooks N p R S s L" and c: "currpid s \<in> S" and fr: "ptfree s \<noteq> 0"
  shows "\<exists>u L'. ptsend_rest p msg (ptseq (porttab s p)) s = (OK, u) \<and> pbooks N p R (S - {currpid s}) u L' \<and>
    port_msgs p u = port_msgs p s @ [msg] \<and> pframe u = pframe s \<and> ptseq (porttab u p) = ptseq (porttab s p)"
proof -
  note B = pbooksD [OF b]
  let ?t = "port_put p msg s" and ?rs = "ptrsem (porttab s p)"
  let ?u = "snd (signal ?rs ?t)"
  from pt.put_law [of N p s, OF B(2) fr] have g: "port_inv N p ?t" "port_msgs p ?t = port_msgs p s @ [msg]" by auto
  note f = port_ops_frame(1-3,7-9) [of p msg s]
  have sq: "ptseq (porttab ?t p) = ptseq (porttab s p)" by (simp add: port_put_def Let_def set_word_def upd_port_def)
  have r: "ptsend_rest p msg (ptseq (porttab s p)) s = (OK, ?u)"
    using B(16) fr by (simp add: ptsend_rest_def Let_def f)
  have lim: "scount (semtab s ?rs) < 2147483647" using B(10,11) port_bounded [OF b] by linarith
  have "kinv ?t L" "sstate (semtab ?t ?rs) = S_USED" "scount (semtab ?t ?rs) < 2147483647" using B(1,9) lim by (simp_all add: f)
  from pbooks_signal [OF this(1) B(6) this(2,3), unfolded f(1)] obtain L' where u: "kinv ?u L'" "quiet ?t ?u"
    "semtab ?u = (semtab s)(?rs := (semtab s ?rs)\<lparr>scount := scount (semtab s ?rs) + 1\<rparr>)"
    "\<forall>j \<in> {0..<NSEM}. set (L' (squeue (semtab s j))) \<subseteq> set (L (squeue (semtab s j)))" by (elim exE conjE) rule
  note q = quiet_ports [OF u(2)]
  have "currpid s \<notin> set (L (squeue (semtab s (ptssem (porttab s p)))))"
    using waiting_state(2) [OF kinvD(1) [OF B(1)] B(5)] kinvD(4) [OF B(1)] by fastforce
  then have w: "set (L' (squeue (semtab s (ptssem (porttab s p))))) \<subseteq> S - {currpid s}" "set (L' (squeue (semtab s ?rs))) \<subseteq> R"
    using subset_trans [OF u(4) [rule_format, OF B(5)] B(14)] subset_trans [OF u(4) [rule_format, OF B(6)] B(13)]
      u(4) [rule_format, OF B(5)] by (simp_all add: subset_Diff_insert) blast
  define X where "X = S - {currpid s}"
  have "int (card S) = int (card X) + 1" "finite X" using c B(4) card.remove [of S "currpid s"] by (simp_all add: X_def)
  then have "pbooks N p R X ?u L'"
    unfolding pbooks_def Let_def using B u(1,3) g w [folded X_def] by (simp add: q f)
  then show ?thesis using r g sq by (intro exI [of _ ?u] exI [of _ L']) (simp add: q X_def)
qed

text \<open>\<^verbatim>\<open>wait\<close> puts the caller on its way, whether it passes or blocks.\<close>

lemma wait_enters:
  assumes k: "kinv s L" and i: "i \<in> {0..<NSEM}" "sstate (semtab s i) = S_USED" and c: "currpid s \<noteq> NULLPROC \<or> 0 < scount (semtab s i)"
  shows "\<exists>L'. fst (wait i s) = OK \<and> kinv (snd (wait i s)) L' \<and>
    semtab (snd (wait i s)) = (semtab s)(i := (semtab s i)\<lparr>scount := scount (semtab s i) - 1\<rparr>) \<and>
    set (L' (squeue (semtab s i))) \<subseteq> insert (currpid s) (set (L (squeue (semtab s i)))) \<and>
    (\<forall>j \<in> {0..<NSEM}. j \<noteq> i \<longrightarrow> L' (squeue (semtab s j)) = L (squeue (semtab s j)))"
proof (cases "0 < scount (semtab s i)")
  case True
  then show ?thesis using wait_passes [OF k i] by (intro exI [of _ L]) (auto simp: upd_sem_def)
next
  case False
  then obtain ys where w: "fst (wait i s) = OK"
    "kinv (snd (wait i s)) (L(squeue (semtab s i) := L (squeue (semtab s i)) @ [currpid s], readylist s := ys))"
    "semtab (snd (wait i s)) = (semtab s)(i := (semtab s i)\<lparr>scount := scount (semtab s i) - 1\<rparr>)"
    using wait_blocks [OF k _ i] c by (metis linorder_not_less)
  note Q = qids_okD(5,7) [OF kcoreD(2) [OF kinvD(1) [OF k]]]
  let ?L = "L(squeue (semtab s i) := L (squeue (semtab s i)) @ [currpid s], readylist s := ys)"
  have "\<forall>j \<in> {0..<NSEM}. j \<noteq> i \<longrightarrow> ?L (squeue (semtab s j)) = L (squeue (semtab s j))" using Q i(1) by auto
  moreover have "set (?L (squeue (semtab s i))) \<subseteq> insert (currpid s) (set (L (squeue (semtab s i))))" using Q(1) [OF i(1)] by simp
  ultimately show ?thesis using w by blast
qed

lemma recv_enters:
  assumes b: "pbooks N p R S s L" and c: "currpid s \<notin> R" "currpid s \<noteq> NULLPROC \<or> 0 < scount (semtab s (ptrsem (porttab s p)))"
  shows "fst (wait (ptrsem (porttab s p)) s) = OK"
    "\<exists>L'. pbooks N p (insert (currpid s) R) S (snd (wait (ptrsem (porttab s p)) s)) L'"
proof -
  note B = pbooksD [OF b]
  let ?rs = "ptrsem (porttab s p)" and ?ss = "ptssem (porttab s p)"
  let ?w = "snd (wait ?rs s)"
  from wait_enters [OF B(1,6,9) c(2)] obtain L' where w: "fst (wait ?rs s) = OK" "kinv ?w L'"
    "semtab ?w = (semtab s)(?rs := (semtab s ?rs)\<lparr>scount := scount (semtab s ?rs) - 1\<rparr>)"
    "set (L' (squeue (semtab s ?rs))) \<subseteq> insert (currpid s) (set (L (squeue (semtab s ?rs))))"
    "L' (squeue (semtab s ?ss)) = L (squeue (semtab s ?ss))" using B(5,7) by blast
  show "fst (wait ?rs s) = OK" by (rule w(1))
  have "quiet s ?w" by (rule quiet_wait [OF quiet_refl])
  note q = quiet_ports [OF this]
  have "set (L' (squeue (semtab s ?rs))) \<subseteq> insert (currpid s) R" using w(4) B(13) by blast
  then have "pbooks N p (insert (currpid s) R) S ?w L'"
    unfolding pbooks_def Let_def using B w(2,3,5) c(1) by (simp add: q)
  then show "\<exists>L'. pbooks N p (insert (currpid s) R) S ?w L'" by blast
qed

lemma send_enters:
  assumes b: "pbooks N p R S s L" and c: "currpid s \<notin> S" "currpid s \<noteq> NULLPROC \<or> 0 < scount (semtab s (ptssem (porttab s p)))"
  shows "fst (wait (ptssem (porttab s p)) s) = OK"
    "\<exists>L'. pbooks N p R (insert (currpid s) S) (snd (wait (ptssem (porttab s p)) s)) L'"
proof -
  note B = pbooksD [OF b]
  let ?rs = "ptrsem (porttab s p)" and ?ss = "ptssem (porttab s p)"
  let ?w = "snd (wait ?ss s)"
  from wait_enters [OF B(1,5,8) c(2)] obtain L' where w: "fst (wait ?ss s) = OK" "kinv ?w L'"
    "semtab ?w = (semtab s)(?ss := (semtab s ?ss)\<lparr>scount := scount (semtab s ?ss) - 1\<rparr>)"
    "set (L' (squeue (semtab s ?ss))) \<subseteq> insert (currpid s) (set (L (squeue (semtab s ?ss))))"
    "L' (squeue (semtab s ?rs)) = L (squeue (semtab s ?rs))" using B(6) B(7) [symmetric] by blast
  show "fst (wait ?ss s) = OK" by (rule w(1))
  have "quiet s ?w" by (rule quiet_wait [OF quiet_refl])
  note q = quiet_ports [OF this]
  have "set (L' (squeue (semtab s ?ss))) \<subseteq> insert (currpid s) S" using w(4) B(14) by blast
  then have "pbooks N p R (insert (currpid s) S) ?w L'"
    unfolding pbooks_def Let_def using B w(2,3,5) c(1) by (simp add: q)
  then show "\<exists>L'. pbooks N p R (insert (currpid s) S) ?w L'" by blast
qed

section \<open>The calls and their completion keep the books\<close>

lemma port_books_frame:
  assumes b: "pbooks N p R S u L" and f: "receivers p (u\<lparr>pframe := f\<rparr>) = R" "senders p (u\<lparr>pframe := f\<rparr>) = S"
    and k: "kinv (u\<lparr>pframe := f\<rparr>) L"
  shows "port_books N p (u\<lparr>pframe := f\<rparr>)"
proof -
  have "pbooks N p R S (u\<lparr>pframe := f\<rparr>) L"
    using b k by (simp add: pbooks_def port_inv_def ports_ok_def port_msgs_def Let_def)
  then show ?thesis unfolding port_books_def f by blast
qed

lemma on_way_eq:
  assumes "pframe t = pframe s" "ptseq (porttab t p) = ptseq (porttab s p)"
  shows "receivers p t = receivers p s" "senders p t = senders p s"
  using assms by (simp_all add: receivers_def senders_def)

lemma not_on_way: "pframe s c = None \<Longrightarrow> c \<notin> receivers p s \<and> c \<notin> senders p s"
  by (simp add: receivers_def senders_def)

lemma ptrecv_books:
  assumes b: "port_books N p s" and c: "currpid s \<noteq> NULLPROC \<or> 0 < scount (semtab s (ptrsem (porttab s p)))" "pframe s (currpid s) = None"
  shows "port_books N p (snd (ptrecv p s))"
proof -
  obtain L where L: "pbooks N p (receivers p s) (senders p s) s L" using b by (auto simp: port_books_def)
  note B = pbooksD [OF L] and n = not_on_way [where p = p, OF c(2)]
  let ?w = "snd (wait (ptrsem (porttab s p)) s)" and ?sq = "ptseq (porttab s p)"
  from recv_enters [OF L _ c(1)] n obtain L' where w: "fst (wait (ptrsem (porttab s p)) s) = OK"
    "pbooks N p (insert (currpid s) (receivers p s)) (senders p s) ?w L'" by auto
  have pt: "porttab ?w = porttab s" using quietD(8) [OF quiet_wait [OF quiet_refl]] .
  have e: "ptrecv p s = resume_point s ?w (F_ptrecv p ?sq) (ptrecv_rest p ?sq)"
    using w(1) B(15,16) by (simp add: ptrecv_def isbadport_def split_beta Let_def)
  show ?thesis
  proof (cases "currpid ?w = currpid s")
    case True
    from recv_step [OF w(2)] True obtain u L2 where u: "ptrecv_rest p ?sq ?w = (hd (port_msgs p ?w), u)"
      "pbooks N p (insert (currpid s) (receivers p s) - {currpid s}) (senders p s) u L2" "pframe u = pframe s" "ptseq (porttab u p) = ?sq"
      by (auto simp: pt)
    then show ?thesis using e True n on_way_eq [OF u(3,4)] by (auto simp: resume_point_def port_books_def)
  next
    case False
    let ?f = "(pframe ?w)(currpid s := Some (F_ptrecv p ?sq))"
    have "snd (ptrecv p s) = ?w\<lparr>pframe := ?f\<rparr>" using e False by (simp add: resume_point_def)
    moreover have "kinv (?w\<lparr>pframe := ?f\<rparr>) L'" by (rule kinv_frame [OF pbooksD(1) [OF w(2)]]) simp
    moreover have "receivers p (?w\<lparr>pframe := ?f\<rparr>) = insert (currpid s) (receivers p s)" "senders p (?w\<lparr>pframe := ?f\<rparr>) = senders p s"
      using kinvD(5) [OF B(1)] c(2) by (auto simp: receivers_def senders_def pt)
    ultimately show ?thesis using port_books_frame [OF w(2)] by metis
  qed
qed

text \<open>A sender for which there is no node left stops the machine.\<close>

lemma ptsend_books:
  assumes b: "port_books N p s" and c: "currpid s \<noteq> NULLPROC \<or> 0 < scount (semtab s (ptssem (porttab s p)))" "pframe s (currpid s) = None"
  shows "kstat (snd (ptsend p msg s)) = Halted \<or> port_books N p (snd (ptsend p msg s))"
proof -
  obtain L where L: "pbooks N p (receivers p s) (senders p s) s L" using b by (auto simp: port_books_def)
  note B = pbooksD [OF L] and n = not_on_way [where p = p, OF c(2)]
  let ?w = "snd (wait (ptssem (porttab s p)) s)" and ?sq = "ptseq (porttab s p)"
  from send_enters [OF L _ c(1)] n obtain L' where w: "fst (wait (ptssem (porttab s p)) s) = OK"
    "pbooks N p (receivers p s) (insert (currpid s) (senders p s)) ?w L'" by auto
  have pt: "porttab ?w = porttab s" using quietD(8) [OF quiet_wait [OF quiet_refl]] .
  have e: "ptsend p msg s = resume_point s ?w (F_ptsend p msg ?sq) (ptsend_rest p msg ?sq)"
    using w(1) B(15,16) by (simp add: ptsend_def isbadport_def split_beta Let_def)
  consider "currpid ?w = currpid s" "ptfree ?w = 0" | "currpid ?w = currpid s" "ptfree ?w \<noteq> 0" | "currpid ?w \<noteq> currpid s" by blast
  then show ?thesis
  proof cases
    case 1
    then show ?thesis using e B(16) by (simp add: resume_point_def ptsend_rest_def pt)
  next
    case 2
    from send_step [OF w(2) _ 2(2), of msg] 2(1) obtain u L2 where u: "ptsend_rest p msg ?sq ?w = (OK, u)"
      "pbooks N p (receivers p s) (insert (currpid s) (senders p s) - {currpid s}) u L2" "pframe u = pframe s" "ptseq (porttab u p) = ?sq"
      by (auto simp: pt)
    then show ?thesis using e 2(1) n on_way_eq [OF u(3,4)] by (auto simp: resume_point_def port_books_def)
  next
    case 3
    let ?f = "(pframe ?w)(currpid s := Some (F_ptsend p msg ?sq))"
    have "snd (ptsend p msg s) = ?w\<lparr>pframe := ?f\<rparr>" using e 3 by (simp add: resume_point_def)
    moreover have "kinv (?w\<lparr>pframe := ?f\<rparr>) L'" by (rule kinv_frame [OF pbooksD(1) [OF w(2)]]) simp
    moreover have "receivers p (?w\<lparr>pframe := ?f\<rparr>) = receivers p s" "senders p (?w\<lparr>pframe := ?f\<rparr>) = insert (currpid s) (senders p s)"
      using kinvD(5) [OF B(1)] c(2) by (auto simp: receivers_def senders_def pt)
    ultimately show ?thesis using port_books_frame [OF w(2)] by metis
  qed
qed

lemma unframe_ports [simp]:
  "port_msgs p (unframe s) = port_msgs p s" "porttab (unframe s) = porttab s" "ptfree (unframe s) = ptfree s"
  by (simp_all add: unframe_def port_msgs_def)

lemma unframe_books:
  assumes b: "pbooks N p R S s L"
  shows "pbooks N p R S (unframe s) L"
proof -
  have "kinv (unframe s) L" unfolding unframe_def by (rule kinv_frame [OF pbooksD(1) [OF b]]) simp
  then show ?thesis using b by (simp add: pbooks_def unframe_def port_inv_def ports_ok_def port_msgs_def Let_def)
qed

lemma unframe_on_way:
  "receivers p (unframe s) = receivers p s - {currpid s}" "senders p (unframe s) = senders p s - {currpid s}"
  by (auto simp: receivers_def senders_def unframe_def)

lemma ptrecv_completes:
  assumes b: "port_books N p s" and f: "pframe s (currpid s) = Some (F_ptrecv p seq)"
  shows "port_books N p (snd (ptrecv_rest p seq (unframe s)))"
    "seq = ptseq (porttab s p) \<Longrightarrow> port_msgs p s \<noteq> [] \<and> fst (ptrecv_rest p seq (unframe s)) = hd (port_msgs p s) \<and>
       port_msgs p (snd (ptrecv_rest p seq (unframe s))) = tl (port_msgs p s)"
proof -
  obtain L where L: "pbooks N p (receivers p s) (senders p s) s L" using b by (auto simp: port_books_def)
  note B = pbooksD [OF L]
  have n: "currpid s \<notin> senders p s" "seq = ptseq (porttab s p) \<longleftrightarrow> currpid s \<in> receivers p s"
    using f kinvD(5) [OF B(1)] by (auto simp: senders_def receivers_def)
  have "port_books N p (snd (ptrecv_rest p seq (unframe s))) \<and> (seq = ptseq (porttab s p) \<longrightarrow> port_msgs p s \<noteq> [] \<and>
    fst (ptrecv_rest p seq (unframe s)) = hd (port_msgs p s) \<and> port_msgs p (snd (ptrecv_rest p seq (unframe s))) = tl (port_msgs p s))"
  proof (cases "seq = ptseq (porttab s p)")
    case True
    from recv_step [OF unframe_books [OF L]] True n(2) obtain u L' where u: "ptrecv_rest p seq (unframe s) = (hd (port_msgs p s), u)"
      "pbooks N p (receivers p s - {currpid s}) (senders p s) u L'" "port_msgs p u = tl (port_msgs p s)"
      "pframe u = pframe (unframe s)" "ptseq (porttab u p) = ptseq (porttab (unframe s) p)" by auto
    have "port_books N p u" unfolding port_books_def on_way_eq [OF u(4,5)] unframe_on_way using u(2) n(1) by auto
    then show ?thesis using u receiver_finds_message [OF L] n(2) by simp
  next
    case False
    have "port_books N p (unframe s)"
      unfolding port_books_def unframe_on_way using unframe_books [OF L] n False by auto
    then show ?thesis using False by (simp add: ptrecv_rest_def)
  qed
  then show "port_books N p (snd (ptrecv_rest p seq (unframe s)))"
    "seq = ptseq (porttab s p) \<Longrightarrow> port_msgs p s \<noteq> [] \<and> fst (ptrecv_rest p seq (unframe s)) = hd (port_msgs p s) \<and>
       port_msgs p (snd (ptrecv_rest p seq (unframe s))) = tl (port_msgs p s)" by blast+
qed

lemma ptsend_completes:
  assumes b: "port_books N p s" and f: "pframe s (currpid s) = Some (F_ptsend p msg seq)"
  shows "seq \<noteq> ptseq (porttab s p) \<or> ptfree s \<noteq> 0 \<Longrightarrow> port_books N p (snd (ptsend_rest p msg seq (unframe s)))"
    "seq = ptseq (porttab s p) \<Longrightarrow> ptfree s \<noteq> 0 \<Longrightarrow> length (port_msgs p s) < ptmaxcnt (porttab s p) \<and>
       fst (ptsend_rest p msg seq (unframe s)) = OK \<and> port_msgs p (snd (ptsend_rest p msg seq (unframe s))) = port_msgs p s @ [msg]"
proof -
  obtain L where L: "pbooks N p (receivers p s) (senders p s) s L" using b by (auto simp: port_books_def)
  note B = pbooksD [OF L]
  have n: "currpid s \<notin> receivers p s" "seq = ptseq (porttab s p) \<longleftrightarrow> currpid s \<in> senders p s"
    using f kinvD(5) [OF B(1)] by (auto simp: senders_def receivers_def)
  have now: "port_books N p (snd (ptsend_rest p msg seq (unframe s))) \<and> length (port_msgs p s) < ptmaxcnt (porttab s p) \<and>
      fst (ptsend_rest p msg seq (unframe s)) = OK \<and> port_msgs p (snd (ptsend_rest p msg seq (unframe s))) = port_msgs p s @ [msg]"
    if a: "seq = ptseq (porttab s p)" "ptfree s \<noteq> 0"
  proof -
    from send_step [OF unframe_books [OF L], of msg] a n(2) obtain u L' where u: "ptsend_rest p msg seq (unframe s) = (OK, u)"
      "pbooks N p (receivers p s) (senders p s - {currpid s}) u L'" "port_msgs p u = port_msgs p s @ [msg]"
      "pframe u = pframe (unframe s)" "ptseq (porttab u p) = ptseq (porttab (unframe s) p)" by auto
    have "port_books N p u" unfolding port_books_def on_way_eq [OF u(4,5)] unframe_on_way using u(2) n(1) by auto
    then show ?thesis using u sender_finds_room [OF L] n(2) a(1) by simp
  qed
  have "port_books N p (snd (ptsend_rest p msg seq (unframe s)))" if "seq \<noteq> ptseq (porttab s p)"
  proof -
    have "port_books N p (unframe s)"
      unfolding port_books_def unframe_on_way using unframe_books [OF L] n that by auto
    then show ?thesis using that by (simp add: ptsend_rest_def)
  qed
  then show "seq \<noteq> ptseq (porttab s p) \<or> ptfree s \<noteq> 0 \<Longrightarrow> port_books N p (snd (ptsend_rest p msg seq (unframe s)))"
    using now by blast
  show "seq = ptseq (porttab s p) \<Longrightarrow> ptfree s \<noteq> 0 \<Longrightarrow> length (port_msgs p s) < ptmaxcnt (porttab s p) \<and>
       fst (ptsend_rest p msg seq (unframe s)) = OK \<and> port_msgs p (snd (ptsend_rest p msg seq (unframe s))) = port_msgs p s @ [msg]"
    using now by blast
qed

section \<open>A new port\<close>

lemma port_sync_books:
  assumes s: "port_sync N p s" and e: "receivers p s = {}" "senders p s = {}"
  shows "port_books N p s"
proof -
  obtain L where k: "kinv s L" using s by (auto simp: port_sync_def)
  have q: "L (squeue (semtab s i)) = []" if "i \<in> {0..<NSEM}" "0 \<le> scount (semtab s i)" for i
  proof -
    have "sem_ok s L i" using kinvD(2) [OF k] that(1) by (simp add: sems_ok_def)
    then show ?thesis using that(2) by (simp add: sem_ok_def sem_cnt_def)
  qed
  have "pbooks N p {} {} s L" using s k q by (auto simp: pbooks_def port_sync_def Let_def)
  then show ?thesis unfolding port_books_def e by blast
qed

lemma ptcreate_at_inv:
  assumes i: "ports_inv N s" and p: "p \<in> {0..<NPORTS}" "ptstate (porttab s p) \<noteq> PT_ALLOC"
  shows "ports_inv N (ptcreate_at p count s)"
proof -
  let ?s1 = "upd_port p (\<lambda>e. e\<lparr>ptstate := PT_ALLOC\<rparr>) s"
  obtain ss s2 where c1: "semcreate count ?s1 = (ss, s2)" by force
  let ?s3 = "upd_port p (\<lambda>e. e\<lparr>ptssem := ss\<rparr>) s2"
  obtain rs s4 where c2: "semcreate 0 ?s3 = (rs, s4)" by force
  have q1: "kmem s2 = kmem s" "ptfree s2 = ptfree s" "porttab s2 = porttab ?s1"
    using quietD(1,7,8) [OF quiet_semcreate [where n = count and s = ?s1]] c1 by (simp_all add: upd_port_def)
  have q2: "kmem s4 = kmem s" "ptfree s4 = ptfree s" "porttab s4 = porttab ?s3"
    using quietD(1,7,8) [OF quiet_semcreate [where n = 0 and s = ?s3]] c2 q1 by (simp_all add: upd_port_def)
  let ?f = "\<lambda>e. e\<lparr>ptstate := PT_ALLOC, ptssem := ss, ptrsem := rs, pttail := 0, pthead := 0, ptseq := s32 (ptseq e + 1),
    ptmaxcnt := nat (count mod 65536)\<rparr>"
  have "ports_inv N (upd_port p ?f s)" by (rule ports_inv_entry [OF i p]) simp
  moreover have "kmem (ptcreate_at p count s) = kmem s" "ptfree (ptcreate_at p count s) = ptfree s"
    "porttab (ptcreate_at p count s) = porttab (upd_port p ?f s)"
    by (simp_all add: ptcreate_at_def c1 c2) (simp_all add: upd_port_def q2 q1)
  ultimately show ?thesis by (simp add: ports_inv_def ports_ok_def upd_port_def)
qed

lemma ptcreate_inv:
  assumes "ports_inv N s" "ptnextid s \<in> {0..<NPORTS}"
  shows "ports_inv N (snd (ptcreate count s))"
proof (cases "count < 0")
  case False
  obtain r s' where c: "ptcreate_loop (nat NPORTS) count s = (r, s')" by force
  have "ports_inv N s'" using ptcreate_loop_result [OF assms(2) c]
  proof (elim disjE conjE bexE)
    assume "s' = s\<lparr>ptnextid := ptnextid s'\<rparr>"
    then show ?thesis using ports_inv_other(2) assms(1) by metis
  next
    fix k assume "r \<in> {0..<NPORTS}" "ptstate (porttab s r) = PT_FREE" "s' = ptcreate_at r count (s\<lparr>ptnextid := k\<rparr>)"
    then show ?thesis using ptcreate_at_inv [of N "s\<lparr>ptnextid := k\<rparr>" r count] assms(1) by simp
  qed
  then show ?thesis using c False by (simp add: ptcreate_def)
qed (use assms in \<open>simp add: ptcreate_def\<close>)

lemma ptcreate_books:
  assumes k: "kinv s L" "nextsem s \<in> {0..<NSEM}" "ports_inv N s" "ptnextid s \<in> {0..<NPORTS}" "count < 65536"
    and c: "ptcreate count s = (p, s')" "p \<noteq> SYSERR" "ptssem (porttab s' p) \<noteq> SYSERR" "ptrsem (porttab s' p) \<noteq> SYSERR"
    and w: "receivers p s' = {}" "senders p s' = {}"
  shows "port_books N p s' \<and> port_msgs p s' = [] \<and> ptmaxcnt (porttab s' p) = nat count"
proof -
  have n: "0 \<le> count" "ptcreate_loop (nat NPORTS) count s = (p, s')" using c(1,2) by (auto simp: ptcreate_def split: if_splits)
  from ptcreate_loop_result [OF k(4) n(2)] c(2) obtain j where
    j: "p \<in> {0..<NPORTS}" "ptstate (porttab s p) = PT_FREE" "s' = ptcreate_at p count (s\<lparr>ptnextid := j\<rparr>)" by auto
  have k': "kinv (s\<lparr>ptnextid := j\<rparr>) L" "nextsem (s\<lparr>ptnextid := j\<rparr>) \<in> {0..<NSEM}" "ports_inv N (s\<lparr>ptnextid := j\<rparr>)"
    "ptstate (porttab (s\<lparr>ptnextid := j\<rparr>) p) = PT_FREE" using k j(2) by simp_all
  have "port_sync N p s' \<and> port_msgs p s' = [] \<and> ptmaxcnt (porttab s' p) = nat count"
    using ptcreate_at_result(2) [OF k'(1-3) j(1) k'(4) n(1) k(5)] c(3,4) unfolding j(3) by blast
  then show ?thesis using port_sync_books w by blast
qed

section \<open>The partition of the nodes\<close>

lemma port_books_inv: "port_books N p s \<Longrightarrow> ports_inv N s"
  by (auto simp: port_books_def pbooks_def port_inv_iff)

end
