(* ===== verification/Mark.thy ===== *)
theory Mark
  imports Node_List Startup
begin

text \<open>
  Memory marks (\<^verbatim>\<open>system/mark.c\<close>, \<^verbatim>\<open>include/mark.h\<close>): a location is marked when it holds the index of an entry of
  \<^verbatim>\<open>marks\<close> that points back to it, so that no initial value of the location can be mistaken for a mark. The check of the
  number of marks precedes the wait for the mutual exclusion semaphore; the rest of the call is the frame \<open>F_mark\<close>.
\<close>

abbreviation (input) MAXMARK :: int where "MAXMARK \<equiv> 20"

section \<open>Operations\<close>

definition markinit :: "kernel \<Rightarrow> kernel" where
  "markinit s = (let (sem, s1) = semcreate 1 (s\<lparr>nmarks := 0\<rparr>) in s1\<lparr>mkmutex := sem\<rparr>)"

definition notmarked :: "nat \<Rightarrow> kernel \<Rightarrow> bool" where
  "notmarked loc s \<longleftrightarrow>
     (let v = s32 (int (mem (kmem s) loc)) in v < 0 \<or> v \<ge> nmarks s \<or> marks s v \<noteq> loc)"

definition mark_rest :: "nat \<Rightarrow> kernel \<Rightarrow> int \<times> kernel" where
  "mark_rest loc s =
     (let n = nmarks s;
          s1 = set_word loc (nat n) (s\<lparr>nmarks := n + 1\<rparr>);
          s2 = s1\<lparr>marks := (marks s1)(n := loc)\<rparr>
      in (OK, snd (signal (mkmutex s2) s2)))"

definition mark :: "nat \<Rightarrow> kernel \<Rightarrow> int option \<times> kernel" where
  "mark loc s =
     (let v = s32 (int (mem (kmem s) loc)) in
      if v \<ge> 0 \<and> v < nmarks s \<and> marks s v = loc then (Some OK, s)
      else if nmarks s \<ge> MAXMARK then (Some SYSERR, s)
      else resume_point s (snd (wait (mkmutex s) s)) (F_mark loc) (mark_rest loc))"

section \<open>Marked locations\<close>

text \<open>Entries below \<open>nmarks\<close> point to locations that hold their index.\<close>

definition marks_ok :: "kernel \<Rightarrow> bool" where
  "marks_ok s \<longleftrightarrow> 0 \<le> nmarks s \<and> nmarks s \<le> MAXMARK \<and> (\<forall>i \<in> {0..<nmarks s}. mem (kmem s) (marks s i) = nat i)"

lemma marked_iff:
  assumes "marks_ok s"
  shows "\<not> notmarked loc s \<longleftrightarrow> (\<exists>i \<in> {0..<nmarks s}. marks s i = loc)"
proof -
  have "s32 (int (mem (kmem s) (marks s i))) = i" if "i \<in> {0..<nmarks s}" for i
    using assms that by (auto simp: marks_ok_def s32_id)
  then show ?thesis by (force simp: notmarked_def Let_def)
qed

lemma mark_rest_result:
  assumes "marks_ok s" "notmarked loc s" "nmarks s < MAXMARK"
  shows "marks_ok (snd (mark_rest loc s))" "nmarks (snd (mark_rest loc s)) = nmarks s + 1"
    "notmarked loc' (snd (mark_rest loc s)) \<longleftrightarrow> loc' \<noteq> loc \<and> notmarked loc' s"
    "\<And>a. a \<noteq> loc \<Longrightarrow> mem (kmem (snd (mark_rest loc s))) a = mem (kmem s) a"
proof -
  let ?s = "(set_word loc (nat (nmarks s)) (s\<lparr>nmarks := nmarks s + 1\<rparr>))\<lparr>marks := (marks s)(nmarks s := loc)\<rparr>"
  have q: "quiet ?s (snd (mark_rest loc s))"
    unfolding mark_rest_def Let_def by (simp add: quiet_ops set_word_def)
  have d: "marks s i \<noteq> loc" if "i \<in> {0..<nmarks s}" for i using assms(2) marked_iff [OF assms(1)] that by blast
  have ok: "marks_ok ?s" using assms(1,3) d by (auto simp: marks_ok_def set_word_def)
  have same: "marks_ok (snd (mark_rest loc s)) = marks_ok ?s" "nmarks (snd (mark_rest loc s)) = nmarks s + 1"
    "\<And>x. notmarked x (snd (mark_rest loc s)) = notmarked x ?s" "kmem (snd (mark_rest loc s)) = kmem ?s"
    using quietD(1,10,11) [OF q] by (simp_all add: marks_ok_def notmarked_def set_word_def)
  then show "marks_ok (snd (mark_rest loc s))" "nmarks (snd (mark_rest loc s)) = nmarks s + 1" using ok by simp_all
  show "notmarked loc' (snd (mark_rest loc s)) \<longleftrightarrow> loc' \<noteq> loc \<and> notmarked loc' s"
  proof -
    have "{0..<nmarks s + 1} = insert (nmarks s) {0..<nmarks s}" using assms(1) by (auto simp: marks_ok_def)
    then have "\<not> notmarked loc' ?s \<longleftrightarrow> loc = loc' \<or> (\<exists>i \<in> {0..<nmarks s}. marks s i = loc')"
      using marked_iff [OF ok, of loc'] by (auto simp: set_word_def)
    then show ?thesis unfolding same(3) using marked_iff [OF assms(1), of loc'] by blast
  qed
  show "mem (kmem (snd (mark_rest loc s))) a = mem (kmem s) a" if "a \<noteq> loc" for a
    using same(4) that by (simp add: set_word_def)
qed

text \<open>With the semaphore free, \<^verbatim>\<open>mark\<close> marks the location and no other, and marking again changes nothing.\<close>

lemma mark_result:
  assumes k: "kinv s L" and m: "marks_ok s" and n: "nmarks s < MAXMARK" "notmarked loc s"
    and sem: "mkmutex s \<in> {0..<NSEM}" "sstate (semtab s (mkmutex s)) = S_USED" "0 < scount (semtab s (mkmutex s))"
  shows "fst (mark loc s) = Some OK" "marks_ok (snd (mark loc s))" "nmarks (snd (mark loc s)) = nmarks s + 1"
    "notmarked loc' (snd (mark loc s)) \<longleftrightarrow> loc' \<noteq> loc \<and> notmarked loc' s"
    "mark loc (snd (mark loc s)) = (Some OK, snd (mark loc s))"
proof -
  let ?s1 = "upd_sem (mkmutex s) (\<lambda>e. e\<lparr>scount := scount e - 1\<rparr>) s"
  have w: "wait (mkmutex s) s = (OK, ?s1)" by (rule wait_passes(1) [OF k sem])
  have 1: "marks_ok ?s1 = marks_ok s" "\<And>x. notmarked x ?s1 = notmarked x s" "nmarks ?s1 = nmarks s"
    by (simp_all add: marks_ok_def notmarked_def upd_sem_def)
  have e: "mark loc s = (Some OK, snd (mark_rest loc ?s1))"
    using n w unfolding mark_def notmarked_def Let_def by (auto simp: resume_point_def mark_rest_def Let_def)
  note R = mark_rest_result [of ?s1 loc, unfolded 1, OF m n(2,1)]
  show "fst (mark loc s) = Some OK" "marks_ok (snd (mark loc s))" "nmarks (snd (mark loc s)) = nmarks s + 1"
    "notmarked loc' (snd (mark loc s)) \<longleftrightarrow> loc' \<noteq> loc \<and> notmarked loc' s"
    using R e by simp_all
  have "\<not> notmarked loc (snd (mark loc s))" using R(3) e by simp
  then show "mark loc (snd (mark loc s)) = (Some OK, snd (mark loc s))"
    by (auto simp: mark_def notmarked_def Let_def)
qed

text \<open>A process that passed the check and then waited finds the table full: it stores beyond its end.\<close>

lemma mark_rest_overflow:
  assumes "nmarks s = MAXMARK"
  shows "marks (snd (mark_rest loc s)) MAXMARK = loc" "nmarks (snd (mark_rest loc s)) = MAXMARK + 1"
proof -
  let ?s = "(set_word loc (nat (nmarks s)) (s\<lparr>nmarks := nmarks s + 1\<rparr>))\<lparr>marks := (marks s)(nmarks s := loc)\<rparr>"
  have q: "quiet ?s (snd (mark_rest loc s))"
    unfolding mark_rest_def Let_def by (simp add: quiet_ops set_word_def)
  show "marks (snd (mark_rest loc s)) MAXMARK = loc" "nmarks (snd (mark_rest loc s)) = MAXMARK + 1"
    using quietD(10,11) [OF q] assms by (simp_all add: set_word_def)
qed

end
