(* ===== verification/Svc_Props.thy ===== *)
theory Svc_Props
  imports Sample_States Bufpool Port_Books Mark
begin

text \<open>
  What buffer pools, ports and memory marks promise, each theorem followed by an application to the sample states.
\<close>

section \<open>Buffer pools\<close>

text \<open>\<^verbatim>\<open>mkbufpool\<close> makes a pool of \<open>numbufs\<close> disjoint buffers of at least the requested size inside
  memory that was free, all of them on the free list and counted by a new semaphore; when it fails, all memory it took is given back.\<close>

theorem mkbufpool_pool:
  assumes "kinv s L" "kmem_ok s F" "nextsem s \<in> {0..<NSEM}" "0 \<le> nbpools s" "mkbufpool bufsiz numbufs s = (r, s')"
  shows "kinv s' L \<and>
    (if r = SYSERR then kmem_ok s' F \<and> nbpools s' = nbpools s
     else r = nbpools s \<and> nbpools s' = nbpools s + 1 \<and> bufsiz \<le> int (bpsize (buftab s' r)) \<and>
       semcount (bpsem (buftab s' r)) s' = numbufs \<and>
       (\<exists>buf. let fl = buffers buf (nat (round4 bufsiz + 4)) (nat numbufs); A = mem_span buf (pool_bytes bufsiz numbufs) in
          pool_free s' r fl \<and> length fl = nat numbufs \<and> A \<subseteq> F \<and> kmem_ok s' (F - A) \<and>
          (\<forall>a \<in> set fl. {a..<a + nat (round4 bufsiz + 4)} \<subseteq> A) \<and>
          (\<forall>a \<in> set fl. \<forall>b \<in> set fl. a \<noteq> b \<longrightarrow> {a..<a + nat (round4 bufsiz + 4)} \<inter> {b..<b + nat (round4 bufsiz + 4)} = {})))"
proof (rule mkbufpool_result [OF assms(1-3,5)])
  assume "r = SYSERR" "kinv s' L" "kmem_ok s' F" "nbpools s' = nbpools s"
  then show ?thesis by simp
next
  fix buf j
  let ?st = "nat (round4 bufsiz + 4)" and ?A = "mem_span buf (pool_bytes bufsiz numbufs)"
  assume p: "r = nbpools s" "nbpools s < NBPOOLS" "nbpools s' = nbpools s + 1" "kinv s' L" "?A \<subseteq> F" "kmem_ok s' (F - ?A)"
    "pool_free s' r (buffers buf ?st (nat numbufs))" "bufsiz \<le> int (bpsize (buftab s' r))" "bpsem (buftab s' r) = j"
    "j \<in> {0..<NSEM}" "sstate (semtab s j) = S_FREE"
    "semtab s' = (semtab s)(j := (semtab s j)\<lparr>sstate := S_USED, scount := numbufs\<rparr>)"
  have ne: "r \<noteq> SYSERR" using p(1) assms(4) by simp
  have b: "BP_MINB \<le> bufsiz" "bufsiz \<le> BP_MAXB" "1 \<le> numbufs" "numbufs \<le> BP_MAXN"
    using assms(5) ne by (auto simp: mkbufpool_def split: if_splits)
  have "{buf..<buf + nat numbufs * ?st} \<subseteq> ?A"
    using pool_bytes_good(4) [OF b] by (simp add: mem_span_def pool_bytes_def)
  then have "\<forall>a \<in> set (buffers buf ?st (nat numbufs)). {a..<a + ?st} \<subseteq> ?A" using buffers_inside by blast
  moreover have "length (buffers buf ?st (nat numbufs)) = nat numbufs" by (simp add: buffers_def)
  moreover have "semcount (bpsem (buftab s' r)) s' = numbufs" using p(9,10,12) by (simp add: semcount_def isbadsem_def)
  ultimately show ?thesis using p ne buffers_disjoint [of _ buf ?st "nat numbufs"] unfolding Let_def by auto
qed

lemma idle_pools: "nbpools idle = 0"
  by (simp add: idle_def sysinit_def Let_def clkinit_def bufinit_def newqueue_def split_beta)

lemma idle_mkbufpool: "fst (mkbufpool 8 2 idle) = 0"
proof -
  obtain m where g: "getmem 24 (kmem idle) = Some (Some 16, m)"
    by (rule getmem_result [OF idle_facts(9), of 24]) (auto simp: roundmb_eq Cons_eq_append_conv)
  have "round4 8 = 8" by (simp add: round4_eq)
  have "fst (semcreate 2 (idle\<lparr>kmem := m, nbpools := 1, buftab := bt\<rparr>)) = 0" for bt
    using idle_facts(3,10) newsem_loop.simps(2) [of 99] by (simp add: semcreate_def newsem_def Let_def split_beta)
  then show ?thesis
    using g \<open>round4 8 = 8\<close> by (simp add: mkbufpool_def idle_pools Let_def split_beta upd_pool_def)
qed

theorem mkbufpool_pool_witness:
  "fst (mkbufpool 8 2 idle) = 0 \<and> nbpools (snd (mkbufpool 8 2 idle)) = 1 \<and>
   semcount (bpsem (buftab (snd (mkbufpool 8 2 idle)) 0)) (snd (mkbufpool 8 2 idle)) = 2"
proof -
  obtain F where F: "kmem_ok idle F" using idle_facts(2) by blast
  have c: "mkbufpool 8 2 idle = (0, snd (mkbufpool 8 2 idle))" using idle_mkbufpool by (simp add: prod_eq_iff)
  show ?thesis using mkbufpool_pool [OF idle_facts(1) F _ _ c] by (simp add: idle_facts idle_pools idle_mkbufpool)
qed

text \<open>While buffers are available, \<^verbatim>\<open>getbuf\<close> returns the first free one without blocking, takes it off the list and marks it with its pool, and
  \<^verbatim>\<open>freebuf\<close> of a buffer in use puts it back: getting a buffer and freeing it restores the free list and the count.\<close>

theorem getbuf_freebuf:
  assumes "kinv s L" "0 \<le> i" "i < nbpools s" "nbpools s \<le> NBPOOLS" "pool_free s i (a # fl)" "a + 4 < 4294967296"
    and "bpsem (buftab s i) = j" "j \<in> {0..<NSEM}" "sstate (semtab s j) = S_USED" "0 < scount (semtab s j)" "scount (semtab s j) \<le> 2048"
  shows "\<exists>s1 s2. getbuf i s = (Some (a + 4), s1) \<and> pool_free s1 i fl \<and> mem (kmem s1) a = nat i \<and> semcount j s1 = semcount j s - 1 \<and>
    freebuf (a + 4) s1 = (OK, s2) \<and> pool_free s2 i (a # fl) \<and> semcount j s2 = semcount j s \<and> mem (kmem s2) = mem (kmem s) \<and> (\<exists>L. kinv s2 L)"
proof -
  have h: "bpnext (buftab s i) = a" "a \<noteq> 0" "nodes 0 (mem (kmem s)) (mem (kmem s) a) fl"
    using assms(5) by (auto simp: pool_free_def)
  obtain s1 where g: "getbuf i s = (Some (a + 4), s1)" "kinv s1 L" "pool_free s1 i fl" "mem (kmem s1) = (mem (kmem s))(a := nat i)"
    "semtab s1 = (semtab s)(j := (semtab s j)\<lparr>scount := scount (semtab s j) - 1\<rparr>)" "nbpools s1 = nbpools s" "bpsem (buftab s1 i) = j"
    by (rule getbuf_available [OF assms(1-3,5-10)])
  have a: "a \<notin> set fl" "pool_used s1 i a" using assms(5,6) h(2) g(4) by (auto simp: pool_free_def pool_used_def)
  have "bpnext (buftab s1 i) = (if fl = [] then 0 else hd fl)"
    using nodes_hd [of 0 "mem (kmem s1)" "bpnext (buftab s1 i)" fl] g(3) by (simp add: pool_free_def)
  then have m: "(mem (kmem s1))(a := bpnext (buftab s1 i)) = mem (kmem s)" using nodes_hd [OF h(3)] g(4) by (simp add: fun_upd_idem)
  let ?s2 = "snd (freebuf (a + 4) s1)"
  obtain xs ys where f: "fst (freebuf (a + 4) s1) = OK" "pool_free ?s2 i (a # fl)"
    "kinv ?s2 (L(squeue (semtab s1 j) := xs, readylist s1 := ys))"
    "semtab ?s2 = (semtab s1)(j := (semtab s1 j)\<lparr>scount := scount (semtab s1 j) + 1\<rparr>)" "mem (kmem ?s2) = (mem (kmem s1))(a := bpnext (buftab s1 i))"
    by (rule freebuf_returns [OF g(2) assms(2) _ _ g(3) a g(7)]) (use assms(3,4,8-11) g(5,6) in auto)
  have "semcount j s1 = semcount j s - 1" "semcount j ?s2 = semcount j s"
    using assms(8,9) by (simp_all add: semcount_def isbadsem_def f(4) g(5))
  then show ?thesis using g f m by (intro exI [of _ s1] exI [of _ ?s2]) (auto simp: prod_eq_iff)
qed

theorem getbuf_freebuf_witness:
  "\<exists>a s1 s2. getbuf 0 (snd (mkbufpool 8 2 idle)) = (Some (a + 4), s1) \<and> freebuf (a + 4) s1 = (OK, s2) \<and>
     mem (kmem s2) = mem (kmem (snd (mkbufpool 8 2 idle)))"
proof -
  obtain F where F: "kmem_ok idle F" using idle_facts(2) by blast
  let ?s = "snd (mkbufpool 8 2 idle)"
  have c: "mkbufpool 8 2 idle = (0, ?s)" using idle_mkbufpool by (simp add: prod_eq_iff)
  have nx: "nextsem idle \<in> {0..<NSEM}" by (simp add: idle_facts)
  obtain buf j where p: "kinv ?s (\<lambda>_. [])" "nbpools ?s = 1" "mem_span buf 24 \<subseteq> F" "kmem_ok ?s (F - mem_span buf 24)"
    "pool_free ?s 0 [buf, buf + 12]" "bpsem (buftab ?s 0) = j" "j \<in> {0..<NSEM}"
    "semtab ?s j = (semtab idle j)\<lparr>sstate := S_USED, scount := 2\<rparr>"
    by (rule mkbufpool_result [OF idle_facts(1) F nx c])
      (auto simp: pool_bytes_def round4_eq buffers_def upt_rec idle_pools)
  have "{buf..<buf + 24} \<subseteq> heap_range (kmem idle)"
    using p(3) mem_free_heap F by (fastforce simp: mem_span_def roundmb_eq kmem_ok_def)
  then have "buf + 24 \<le> maxheap (kmem idle)" by (simp add: heap_range_def)
  moreover have "maxheap (kmem idle) < 4294967296" using idle_facts(9) by (simp add: mem_ok_def)
  ultimately show ?thesis
    using getbuf_freebuf [OF p(1) _ _ _ p(5) _ p(6,7)] p(2,8) by fastforce
qed


section \<open>Ports\<close>

text \<open>C22: a port is a bounded first-in first-out queue: the messages sent while there is room and nobody is blocked at the port are
  received in the order in which they were sent, none lost and none twice; a sender at a full port and a receiver at an empty one
  block, leaving the rest of their call to be completed later.\<close>

theorem port_fifo:
  assumes "port_sync N p s" "port_msgs p s = []" "currpid s \<noteq> NULLPROC"
    and "fill (\<lambda>_ s. length (port_msgs p s) < ptmaxcnt (porttab s p) \<and> ptfree s \<noteq> 0) (\<lambda>msg s. snd (ptsend p msg s)) xs s = Some t"
  shows "fst (drain (\<lambda>s. (the (fst (ptrecv p s)), snd (ptrecv p s))) (length xs) t) = xs \<and>
    port_msgs p t = xs \<and> port_sync N p t \<and> fst (ptrecv p s) = None \<and>
    prstate (proctab (snd (ptrecv p s)) (currpid s)) = PR_WAIT \<and>
    (length xs = ptmaxcnt (porttab t p) \<longrightarrow> currpid t \<noteq> NULLPROC \<longrightarrow> fst (ptsend p msg t) = None \<and>
       prstate (proctab (snd (ptsend p msg t)) (currpid t)) = PR_WAIT)"
  using port.first_in_first_out [OF assms(1,2,4)] port.fill_contents [OF assms(1,4)] assms(2)
    port_blocks(2) [OF assms(1,3,2)] port_blocks(1) [of N p t msg]
  by auto

text \<open>The system with the ports initialised for four messages and port 0 created for three.\<close>

definition ported :: kernel where
  "ported = snd (ptcreate 3 (snd (ptinit 4 busy)))"

lemma busy_kmem: "kmem busy = kmem idle"
  using quietD(1) [OF quiet_sched(1) [OF quiet_refl, of loaded 1]] by (simp add: busy_def loaded_def upd_proc_def)

lemma ported_sync:
  obtains N where "port_sync N 0 ported" "port_msgs 0 ported = []" "ptmaxcnt (porttab ported 0) = 3" "ptfree ported \<noteq> 0"
    "currpid ported = 1" "ports_inv N ported" "ptnextid ported = 1" "pframe ported = (\<lambda>_. None)"
proof -
  let ?s = "snd (ptinit 4 busy)"
  have mf: "mem_free (kmem busy) (free_bytes [(16, 2684346352)])"
    using idle_facts(9) by (auto simp: mem_free_def busy_kmem)
  obtain m where g: "getmem 32 (kmem busy) = Some (Some 16, m)"
    unfolding busy_kmem by (rule getmem_result [OF idle_facts(9), of 32]) (auto simp: roundmb_eq Cons_eq_append_conv)
  obtain a where s: "ports_ok (set (buffers a 8 4)) ?s (buffers a 8 4) (\<lambda>_. [])"
      "\<And>p. p \<in> {0..<NPORTS} \<Longrightarrow> ptstate (porttab ?s p) = PT_FREE" "ptnextid ?s = 0" "kinv ?s ((\<lambda>_. [])(300 := [0]))"
      "semtab ?s = semtab idle" "nextsem ?s = 0" "currpid ?s = 1"
    by (rule ptinit_result [OF mf, of 4]) (use g busy_facts in \<open>auto simp: ptinit_def Let_def\<close>)
  have fr: "pframe ?s = (\<lambda>_. None)" using g by (auto simp: ptinit_def Let_def busy_facts)
  define s1 where "s1 = ?s\<lparr>ptnextid := 1\<rparr>"
  have p: "ported = ptcreate_at 0 3 s1"
    using ptcreate_loop.simps(2) [of 29 3 ?s] s(2) [of 0] s(3) by (simp add: ported_def ptcreate_def s1_def Let_def)
  let ?t = "upd_port 0 (\<lambda>e. e\<lparr>ptstate := PT_ALLOC\<rparr>) s1"
  have sc1: "semcreate 3 ?t = (0, upd_sem 0 (\<lambda>e. e\<lparr>sstate := S_USED, scount := 3\<rparr>) (?t\<lparr>nextsem := 1\<rparr>))"
    using newsem_loop.simps(2) [of 99 ?t] s(5,6) idle_facts(10) [of 0]
    by (simp add: semcreate_def newsem_def Let_def s1_def upd_port_def upd_sem_def)
  let ?u = "upd_port 0 (\<lambda>e. e\<lparr>ptssem := 0\<rparr>) (upd_sem 0 (\<lambda>e. e\<lparr>sstate := S_USED, scount := 3\<rparr>) (?t\<lparr>nextsem := 1\<rparr>))"
  have sc2: "fst (semcreate 0 ?u) = 1"
    using newsem_loop.simps(2) [of 99 ?u] s(5,6) idle_facts(10) [of 1]
    by (simp add: semcreate_def newsem_def Let_def s1_def upd_port_def upd_sem_def)
  obtain s4 where s4: "semcreate 0 ?u = (1, s4)" using sc2 by (cases "semcreate 0 ?u") auto
  have u: "nextsem ?u \<in> {0..<NSEM}" by (simp add: upd_port_def upd_sem_def)
  obtain k st where k: "s4 = ?u\<lparr>nextsem := k, semtab := st\<rparr>" by (rule semcreate_shape [OF u s4])
  have e: "ptssem (porttab ported 0) = 0" "ptrsem (porttab ported 0) = 1" "ptfree ported = ptfree ?s" "currpid ported = 1" "ptnextid ported = 1"
    "pframe ported = (\<lambda>_. None)"
    unfolding p ptcreate_at_def sc1 Let_def using s(7) fr by (simp_all add: s4) (simp_all add: k upd_port_def upd_sem_def s1_def)
  have "ports_inv (set (buffers a 8 4)) ?s" using s(1) unfolding ports_inv_def by blast
  then have i: "ports_inv (set (buffers a 8 4)) s1" by (simp add: s1_def)
  have "ptfree ?s \<noteq> 0" using ports_okD(3) [OF s(1)] nodes_hd [OF ports_okD(3) [OF s(1)]] nodes_nonzero [OF ports_okD(3) [OF s(1)]]
    by (auto simp: buffers_def upt_rec)
  moreover have "kinv s1 ((\<lambda>_. [])(300 := [0]))" "nextsem s1 \<in> {0..<NSEM}" "ptstate (porttab s1 0) = PT_FREE"
    using s(2) [of 0] s(4,6) by (simp_all add: s1_def)
  ultimately show thesis
    using that [of "set (buffers a 8 4)"] ptcreate_at_result [OF _ _ i, of _ 0 3] e p by auto
qed

lemma ported_books:
  obtains N where "port_books N 0 ported" "port_sync N 0 ported" "port_msgs 0 ported = []" "ports_inv N ported" "currpid ported = 1"
    "ptnextid ported = 1" "pframe ported 1 = None"
proof -
  obtain N where n: "port_sync N 0 ported" "port_msgs 0 ported = []" "currpid ported = 1" "ports_inv N ported" "ptnextid ported = 1"
    "pframe ported = (\<lambda>_. None)" by (rule ported_sync)
  have "port_books N 0 ported" by (rule port_sync_books [OF n(1)]) (simp_all add: receivers_def senders_def n(6))
  then show thesis using that n by simp
qed

theorem port_fifo_witness:
  "\<exists>t. fst (drain (\<lambda>s. (the (fst (ptrecv 0 s)), snd (ptrecv 0 s))) 1 t) = [7] \<and> port_msgs 0 t = [7]"
proof -
  obtain N where n: "port_sync N 0 ported" "port_msgs 0 ported = []" "ptmaxcnt (porttab ported 0) = 3" "ptfree ported \<noteq> 0"
    "currpid ported = 1" by (rule ported_sync)
  show ?thesis using port_fifo [OF n(1,2), of "[7]" "snd (ptsend 0 7 ported)" 0] n by auto
qed

text \<open>C23: the message nodes are partitioned between the free list and the queues of the allocated ports, each properly linked: no node is lost and none is
  in two places. \<^verbatim>\<open>ptinit\<close> for 1 to 536870910 messages establishes this or stops the machine; \<^verbatim>\<open>ptcreate\<close>, \<^verbatim>\<open>ptsend\<close>, \<^verbatim>\<open>ptdelete\<close> and \<^verbatim>\<open>ptreset\<close> keep it, as
  do the completion of a suspended \<^verbatim>\<open>ptsend\<close> and of the clearing of a port that is as its first part left it. \<^verbatim>\<open>ptrecv\<close> of a process other than the null process and the completion
  of a suspended one keep it at a port that is not allocated or whose semaphores count its messages and room (\<open>port_books\<close>).\<close>

theorem port_nodes_partitioned:
  assumes "ports_inv N s" "p \<in> {0..<NPORTS}" "ptnextid s \<in> {0..<NPORTS}"
  shows "ports_inv N (snd (ptcreate count s)) \<and>
    ports_inv N (snd (ptsend p msg s)) \<and> ports_inv N (snd (ptsend_rest p msg seq s)) \<and>
    (ptstate (porttab s p) \<noteq> PT_ALLOC \<or> port_books N p s \<and> currpid s \<noteq> NULLPROC \<and> pframe s (currpid s) = None \<longrightarrow>
       ports_inv N (snd (ptrecv p s))) \<and>
    (ptstate (porttab s p) \<noteq> PT_ALLOC \<or> port_books N p s \<and> pframe s (currpid s) = Some (F_ptrecv p seq) \<longrightarrow>
       ports_inv N (snd (ptrecv_rest p seq (unframe s)))) \<and>
    ports_inv N (snd (ptdelete p s)) \<and> ports_inv N (snd (ptreset p s)) \<and>
    (ptstate (porttab s p) = PT_LIMBO \<and> (st = PT_ALLOC \<longrightarrow> pthead (porttab s p) = 0 \<and> pttail (porttab s p) = 0) \<longrightarrow>
       ports_inv N (snd (ptclear_rest p st k s))) \<and>
    (mem_free (kmem s) F \<and> 1 \<le> maxmsgs \<and> maxmsgs \<le> 536870910 \<longrightarrow>
       kstat (snd (ptinit maxmsgs s)) = Halted \<or> (\<exists>M. card M = nat maxmsgs \<and> ports_inv M (snd (ptinit maxmsgs s))))"
proof (intro conjI impI)
  note part = port_ops_partition [OF assms(1)]
  show "ports_inv N (snd (ptcreate count s))" by (rule ptcreate_inv [OF assms(1,3)])
  show "ports_inv N (snd (ptsend p msg s))" "ports_inv N (snd (ptsend_rest p msg seq s))"
    "ports_inv N (snd (ptdelete p s))" "ports_inv N (snd (ptreset p s))" using part assms(2) by blast+
  show "ports_inv N (snd (ptrecv p s))"
    if "ptstate (porttab s p) \<noteq> PT_ALLOC \<or> port_books N p s \<and> currpid s \<noteq> NULLPROC \<and> pframe s (currpid s) = None"
    using that
  proof
    assume "ptstate (porttab s p) \<noteq> PT_ALLOC"
    then show ?thesis using assms(1) by (simp add: ptrecv_def)
  qed (blast intro: port_books_inv ptrecv_books)
  show "ports_inv N (snd (ptrecv_rest p seq (unframe s)))"
    if "ptstate (porttab s p) \<noteq> PT_ALLOC \<or> port_books N p s \<and> pframe s (currpid s) = Some (F_ptrecv p seq)"
    using that
  proof
    assume "ptstate (porttab s p) \<noteq> PT_ALLOC"
    then show ?thesis using assms(1) by (simp add: ptrecv_rest_def unframe_def)
  qed (blast intro: port_books_inv ptrecv_completes(1))
  show "ports_inv N (snd (ptclear_rest p st k s))"
    if "ptstate (porttab s p) = PT_LIMBO \<and> (st = PT_ALLOC \<longrightarrow> pthead (porttab s p) = 0 \<and> pttail (porttab s p) = 0)"
    using that by (intro ptclear_rest_inv [OF assms(1,2)]) auto
  show "kstat (snd (ptinit maxmsgs s)) = Halted \<or> (\<exists>M. card M = nat maxmsgs \<and> ports_inv M (snd (ptinit maxmsgs s)))"
    if m: "mem_free (kmem s) F \<and> 1 \<le> maxmsgs \<and> maxmsgs \<le> 536870910"
  proof (rule ptinit_result [of s F maxmsgs])
    fix a m'
    assume o: "ports_ok (set (buffers a 8 (nat maxmsgs))) (snd (ptinit maxmsgs s)) (buffers a 8 (nat maxmsgs)) (\<lambda>_. [])"
    have "card (set (buffers a 8 (nat maxmsgs))) = nat maxmsgs"
      using distinct_card [OF ports_okD(4) [OF o]] by (simp add: buffers_def)
    then show ?thesis using o unfolding ports_inv_def by blast
  qed (use m in auto)
qed

theorem port_nodes_partitioned_witness:
  "\<exists>N. ports_inv N (snd (ptsend 0 7 ported)) \<and> ports_inv N (snd (ptreset 0 ported)) \<and> ports_inv N (snd (ptrecv 0 ported))"
proof -
  obtain N where n: "ports_inv N ported" "port_books N 0 ported" "currpid ported = 1" "ptnextid ported = 1" "pframe ported 1 = None" by (rule ported_books)
  then have "ports_inv N (snd (ptsend 0 7 ported)) \<and> ports_inv N (snd (ptreset 0 ported)) \<and> ports_inv N (snd (ptrecv 0 ported))"
    using port_nodes_partitioned [of N ported 0 0 7] by simp
  then show ?thesis by blast
qed

text \<open>C40: the semaphores of a port account for its messages and its room also while processes are blocked at the port, or have been released and not yet run. A new
  port has these books, unless one of its semaphores could not be created, provided that no process is suspended in an earlier use of the port with the same sequence number;
  \<^verbatim>\<open>ptrecv\<close> and \<^verbatim>\<open>ptsend\<close> keep them (the null process must not block), and so does the completion of both, if there is a message node left for a sender (else the
  machine stops). With them the port never holds more messages than its size, a receiver that comes back from the wait finds a message, the
  oldest, and a sender that comes back finds room and appends its message. A call completed after the port was cleared changes nothing.\<close>

theorem port_books_kept:
  shows "(kinv s L \<and> nextsem s \<in> {0..<NSEM} \<and> ports_inv N s \<and> ptnextid s \<in> {0..<NPORTS} \<and> count < 65536 \<and> ptcreate count s = (p, s') \<and> p \<noteq> SYSERR \<and>
       ptssem (porttab s' p) \<noteq> SYSERR \<and> ptrsem (porttab s' p) \<noteq> SYSERR \<and> receivers p s' = {} \<and> senders p s' = {} \<longrightarrow> port_books N p s') \<and>
    (port_books N p s \<longrightarrow>
       length (port_msgs p s) \<le> ptmaxcnt (porttab s p) \<and>
       (pframe s (currpid s) = None \<and> (currpid s \<noteq> NULLPROC \<or> 0 < semcount (ptrsem (porttab s p)) s) \<longrightarrow> port_books N p (snd (ptrecv p s))) \<and>
       (pframe s (currpid s) = None \<and> (currpid s \<noteq> NULLPROC \<or> 0 < semcount (ptssem (porttab s p)) s) \<longrightarrow>
          kstat (snd (ptsend p msg s)) = Halted \<or> port_books N p (snd (ptsend p msg s))) \<and>
       (pframe s (currpid s) = Some (F_ptrecv p seq) \<longrightarrow>
          port_books N p (snd (ptrecv_rest p seq (unframe s))) \<and>
          (if seq = ptseq (porttab s p)
           then port_msgs p s = fst (ptrecv_rest p seq (unframe s)) # port_msgs p (snd (ptrecv_rest p seq (unframe s)))
           else snd (ptrecv_rest p seq (unframe s)) = unframe s)) \<and>
       (pframe s (currpid s) = Some (F_ptsend p msg seq) \<and> ptfree s \<noteq> 0 \<longrightarrow>
          port_books N p (snd (ptsend_rest p msg seq (unframe s))) \<and>
          (if seq = ptseq (porttab s p)
           then length (port_msgs p s) < ptmaxcnt (porttab s p) \<and> port_msgs p (snd (ptsend_rest p msg seq (unframe s))) = port_msgs p s @ [msg]
           else snd (ptsend_rest p msg seq (unframe s)) = unframe s)))"
proof (intro conjI impI)
  assume b: "port_books N p s"
  then obtain L where B: "pbooks N p (receivers p s) (senders p s) s L" by (auto simp: port_books_def)
  show "length (port_msgs p s) \<le> ptmaxcnt (porttab s p)" by (rule port_bounded [OF B])
  have c: "semcount (ptrsem (porttab s p)) s = scount (semtab s (ptrsem (porttab s p)))"
    "semcount (ptssem (porttab s p)) s = scount (semtab s (ptssem (porttab s p)))"
    using pbooksD(5,6,8,9) [OF B] by (auto simp: semcount_def isbadsem_def)
  show "port_books N p (snd (ptrecv p s))"
    if "pframe s (currpid s) = None \<and> (currpid s \<noteq> NULLPROC \<or> 0 < semcount (ptrsem (porttab s p)) s)"
    using that ptrecv_books [OF b] by (simp add: c)
  show "kstat (snd (ptsend p msg s)) = Halted \<or> port_books N p (snd (ptsend p msg s))"
    if "pframe s (currpid s) = None \<and> (currpid s \<noteq> NULLPROC \<or> 0 < semcount (ptssem (porttab s p)) s)"
    using that ptsend_books [OF b] by (simp add: c)
  show "port_books N p (snd (ptrecv_rest p seq (unframe s)))" if f: "pframe s (currpid s) = Some (F_ptrecv p seq)"
    by (rule ptrecv_completes(1) [OF b f])
  show "if seq = ptseq (porttab s p)
      then port_msgs p s = fst (ptrecv_rest p seq (unframe s)) # port_msgs p (snd (ptrecv_rest p seq (unframe s)))
      else snd (ptrecv_rest p seq (unframe s)) = unframe s" if f: "pframe s (currpid s) = Some (F_ptrecv p seq)"
    using ptrecv_completes(2) [OF b f] by (auto simp: ptrecv_rest_def)
  show "port_books N p (snd (ptsend_rest p msg seq (unframe s)))" if f: "pframe s (currpid s) = Some (F_ptsend p msg seq) \<and> ptfree s \<noteq> 0"
    using ptsend_completes(1) [OF b] f by blast
  show "if seq = ptseq (porttab s p)
      then length (port_msgs p s) < ptmaxcnt (porttab s p) \<and> port_msgs p (snd (ptsend_rest p msg seq (unframe s))) = port_msgs p s @ [msg]
      else snd (ptsend_rest p msg seq (unframe s)) = unframe s" if f: "pframe s (currpid s) = Some (F_ptsend p msg seq) \<and> ptfree s \<noteq> 0"
    using ptsend_completes(2) [OF b] f by (auto simp: ptsend_rest_def)
qed (use ptcreate_books in blast)

theorem port_books_kept_witness:
  "\<exists>N. port_books N 0 ported \<and> port_books N 0 (snd (ptrecv 0 ported)) \<and> prstate (proctab (snd (ptrecv 0 ported)) 1) = PR_WAIT"
proof -
  obtain N where n: "port_books N 0 ported" "port_sync N 0 ported" "port_msgs 0 ported = []" "currpid ported = 1" "pframe ported 1 = None"
    by (rule ported_books)
  then show ?thesis using port_books_kept [of ported _ N _ 0 _ 7] port_blocks(2) [OF n(2) _ n(3)] by auto
qed

text \<open>deleting or resetting a port hands every message that is still in it to the disposal function, in the order in which they were sent,
  and returns their nodes to the free list.\<close>

theorem ptclear_disposes:
  assumes "ports_ok N s fl Q" "p \<in> {0..<NPORTS}" "ptstate (porttab s p) = PT_ALLOC"
  shows "\<exists>s'. ptclear_unlink p st s = Some s' \<and> devlog s' = devlog s @ map Dispose (port_msgs p s) \<and>
    ports_ok N s' (Q p @ fl) (Q(p := [])) \<and> ptstate (porttab s' p) = PT_LIMBO"
  by (rule ptclear_unlink_result [OF assms, of st]) blast

theorem ptclear_disposes_witness:
  "\<exists>s'. ptclear_unlink 0 PT_FREE (snd (ptsend 0 7 ported)) = Some s' \<and> devlog s' = devlog (snd (ptsend 0 7 ported)) @ [Dispose 7]"
proof -
  obtain N where n: "port_sync N 0 ported" "port_msgs 0 ported = []" "ptmaxcnt (porttab ported 0) = 3" "ptfree ported \<noteq> 0"
    by (rule ported_sync)
  note t = ptsend_sync [OF n(1), of 7, unfolded n(2,3)]
  have "port_inv N 0 (snd (ptsend 0 7 ported))" using t(2) n(4) by (simp add: port_sync_def)
  then obtain fl Q where "ports_ok N (snd (ptsend 0 7 ported)) fl Q" "ptstate (porttab (snd (ptsend 0 7 ported)) 0) = PT_ALLOC"
    by (auto simp: port_inv_def)
  from ptclear_disposes [OF this(1) _ this(2), of PT_FREE] show ?thesis using t(3) n(4) by auto
qed

section \<open>Memory marks\<close>

text \<open>with a free table entry and the semaphore available, \<^verbatim>\<open>mark\<close> marks the location and no other, whatever the memory held before,
  and marking it again changes nothing.\<close>

theorem mark_marks:
  assumes "kinv s L" "marks_ok s" "nmarks s < MAXMARK" "notmarked loc s"
    and "mkmutex s \<in> {0..<NSEM}" "sstate (semtab s (mkmutex s)) = S_USED" "0 < scount (semtab s (mkmutex s))"
  shows "fst (mark loc s) = Some OK \<and> marks_ok (snd (mark loc s)) \<and>
    (\<forall>loc'. notmarked loc' (snd (mark loc s)) \<longleftrightarrow> loc' \<noteq> loc \<and> notmarked loc' s) \<and>
    mark loc (snd (mark loc s)) = (Some OK, snd (mark loc s))"
  using mark_result [OF assms] by blast

theorem mark_marks_witness:
  "\<not> notmarked 4096 (snd (mark 4096 ((armed 1)\<lparr>nmarks := 0, mkmutex := 0\<rparr>)))"
proof -
  let ?s = "(armed 1)\<lparr>nmarks := 0, mkmutex := 0\<rparr>"
  have "marks_ok ?s" "notmarked 4096 ?s" by (auto simp: marks_ok_def notmarked_def Let_def)
  then show ?thesis using mark_marks [of ?s "(\<lambda>_. [])(300 := [0])" 4096] armed_facts [of 1] by simp
qed

end
