(* ===== verification/Clib_String.thy ===== *)
theory Clib_String
  imports Prelude "HOL-Library.Sublist"
begin

text \<open>
  The string and memory functions of \<^verbatim>\<open>lib/\<close>. Memory is a map from addresses to bytes; on this
  processor a plain \<^verbatim>\<open>char\<close> is unsigned, so that comparisons are those of \<^typ>\<open>8 word\<close>. A loop whose end
  depends on a null byte in memory is a \<^theory_text>\<open>partial_function\<close> with value \<^term>\<open>None\<close> when it never ends; a loop
  that counts is a total function. A null pointer is the address 0.

  \<open>cstr m p xs\<close> says that the null-terminated string \<open>xs\<close> is stored at \<open>p\<close>. Each function is shown to
  compute the corresponding operation on the strings, and the ones that write to leave all other
  bytes alone.
\<close>

type_synonym byte = "8 word"
type_synonym bmem = "nat \<Rightarrow> byte"

section \<open>Length and comparison\<close>

partial_function (option) strlen_loop :: "bmem \<Rightarrow> nat \<Rightarrow> int \<Rightarrow> int option" where
  "strlen_loop m str len = (if m str \<noteq> 0 then strlen_loop m (str + 1) (len + 1) else Some len)"

definition strlen :: "bmem \<Rightarrow> nat \<Rightarrow> int option" where
  "strlen m str = strlen_loop m str 0"

function strnlen_loop :: "bmem \<Rightarrow> nat \<Rightarrow> int \<Rightarrow> int \<Rightarrow> int" where
  "strnlen_loop m s n len = (if m s \<noteq> 0 \<and> n < len then strnlen_loop m (s + 1) (n + 1) len else n)"
  by pat_completeness auto
termination by (relation "measure (\<lambda>(m, s, n, len). nat (len - n))") auto

definition strnlen :: "bmem \<Rightarrow> nat \<Rightarrow> nat \<Rightarrow> int" where
  "strnlen m s len = strnlen_loop m s 0 (int len)"

partial_function (option) strcmp :: "bmem \<Rightarrow> nat \<Rightarrow> nat \<Rightarrow> int option" where
  "strcmp m str1 str2 =
     (if m str1 = m str2 then
        (if m str1 = 0 then Some 0 else strcmp m (str1 + 1) (str2 + 1))
      else if m str1 < m str2 then Some (- 1) else Some 1)"

function strncmp :: "bmem \<Rightarrow> nat \<Rightarrow> nat \<Rightarrow> int \<Rightarrow> int" where
  "strncmp m s1 s2 n0 =
     (let n = n0 - 1 in
      if n \<ge> 0 \<and> m s1 = m s2 then
        (if m s1 = 0 then 0 else strncmp m (s1 + 1) (s2 + 1) n)
      else if n < 0 then 0 else uint (m s1) - uint (m s2))"
  by pat_completeness auto
termination by (relation "measure (\<lambda>(m, s1, s2, n). nat n)") auto

function memcmp :: "bmem \<Rightarrow> nat \<Rightarrow> nat \<Rightarrow> int \<Rightarrow> int" where
  "memcmp m c1 c2 n =
     (if n > 0 then
        (if m c1 \<noteq> m c2 then uint (m c1) - uint (m c2) else memcmp m (c1 + 1) (c2 + 1) (n - 1))
      else 0)"
  by pat_completeness auto
termination by (relation "measure (\<lambda>(m, c1, c2, n). nat n)") auto

declare strnlen_loop.simps [simp del] strncmp.simps [simp del] memcmp.simps [simp del]

section \<open>Searching\<close>

partial_function (option) strchr_loop :: "bmem \<Rightarrow> nat \<Rightarrow> byte \<Rightarrow> nat option" where
  "strchr_loop m s c =
     (if m s \<noteq> 0 then (if m s = c then Some s else strchr_loop m (s + 1) c)
      else if c = m s then Some s else Some 0)"

definition strchr :: "bmem \<Rightarrow> nat \<Rightarrow> int \<Rightarrow> nat option" where
  "strchr m s c = strchr_loop m s (word_of_int c)"

partial_function (option) strrchr_loop :: "bmem \<Rightarrow> nat \<Rightarrow> byte \<Rightarrow> nat \<Rightarrow> nat option" where
  "strrchr_loop m s c r =
     (if m s \<noteq> 0 then strrchr_loop m (s + 1) c (if m s = c then s else r)
      else if c = m s then Some s else Some r)"

definition strrchr :: "bmem \<Rightarrow> nat \<Rightarrow> int \<Rightarrow> nat option" where
  "strrchr m s c = strrchr_loop m s (word_of_int c) 0"

text \<open>The inner loop of \<^verbatim>\<open>strstr\<close>, with the position it leaves in the substring.\<close>

partial_function (option) strstr_match :: "bmem \<Rightarrow> nat \<Rightarrow> nat \<Rightarrow> nat option" where
  "strstr_match m cq cr =
     (if m cq \<noteq> 0 \<and> m cr \<noteq> 0 then
        (if m cq \<noteq> m cr then Some cr else strstr_match m (cq + 1) (cr + 1))
      else Some cr)"

partial_function (option) strstr :: "bmem \<Rightarrow> nat \<Rightarrow> nat \<Rightarrow> nat option" where
  "strstr m cs ct =
     (if m cs \<noteq> 0 then
        (if m cs = m ct then
           (case strstr_match m cs ct of
              None \<Rightarrow> None
            | Some cr \<Rightarrow> if m cr = 0 then Some cs else strstr m (cs + 1) ct)
         else strstr m (cs + 1) ct)
      else Some 0)"

section \<open>Copying\<close>

partial_function (option) strcpy_loop :: "bmem \<Rightarrow> nat \<Rightarrow> nat \<Rightarrow> bmem option" where
  "strcpy_loop m tar src =
     (if m src \<noteq> 0 then strcpy_loop (m(tar := m src)) (tar + 1) (src + 1) else Some (m(tar := m src)))"

definition strcpy :: "bmem \<Rightarrow> nat \<Rightarrow> nat \<Rightarrow> (int \<times> bmem) option" where
  "strcpy m tar src = map_option (\<lambda>m'. (0, m')) (strcpy_loop m tar src)"

fun strncpy_pad :: "nat \<Rightarrow> bmem \<Rightarrow> nat \<Rightarrow> bmem" where
  "strncpy_pad 0 m s1 = m"
| "strncpy_pad (Suc k) m s1 = strncpy_pad k (m(s1 := 0)) (s1 + 1)"

fun strncpy_loop :: "nat \<Rightarrow> bmem \<Rightarrow> nat \<Rightarrow> nat \<Rightarrow> bmem" where
  "strncpy_loop 0 m s1 s2 = m"
| "strncpy_loop (Suc k) m s1 s2 =
     (let c = m s2; m' = m(s1 := c) in
      if c = 0 then strncpy_pad k m' (s1 + 1) else strncpy_loop k m' (s1 + 1) (s2 + 1))"

definition strncpy :: "bmem \<Rightarrow> nat \<Rightarrow> nat \<Rightarrow> int \<Rightarrow> nat \<times> bmem" where
  "strncpy m s1 s2 n = (s1, strncpy_loop (nat n) m s1 s2)"

partial_function (option) strncat_end :: "bmem \<Rightarrow> nat \<Rightarrow> nat option" where
  "strncat_end m s1 = (if m s1 \<noteq> 0 then strncat_end m (s1 + 1) else Some s1)"

function strncat_copy :: "bmem \<Rightarrow> nat \<Rightarrow> nat \<Rightarrow> int \<Rightarrow> bmem" where
  "strncat_copy m s1 s2 n =
     (let c = m s2; m' = m(s1 := c) in
      if c \<noteq> 0 then
        (if n - 1 < 0 then m'(s1 := 0) else strncat_copy m' (s1 + 1) (s2 + 1) (n - 1))
      else m')"
  by pat_completeness auto
termination by (relation "measure (\<lambda>(m, s1, s2, n). nat n)") auto

declare strncat_copy.simps [simp del]

definition strncat :: "bmem \<Rightarrow> nat \<Rightarrow> nat \<Rightarrow> int \<Rightarrow> (nat \<times> bmem) option" where
  "strncat m s1 s2 n = map_option (\<lambda>e. (s1, strncat_copy m e s2 n)) (strncat_end m s1)"

fun memcpy_loop :: "nat \<Rightarrow> bmem \<Rightarrow> nat \<Rightarrow> nat \<Rightarrow> bmem" where
  "memcpy_loop 0 m dst src = m"
| "memcpy_loop (Suc k) m dst src = memcpy_loop k (m(dst := m src)) (dst + 1) (src + 1)"

definition memcpy :: "bmem \<Rightarrow> nat \<Rightarrow> nat \<Rightarrow> int \<Rightarrow> nat \<times> bmem" where
  "memcpy m s ct n = (s, memcpy_loop (nat n) m s ct)"

fun memset_loop :: "nat \<Rightarrow> bmem \<Rightarrow> nat \<Rightarrow> byte \<Rightarrow> bmem" where
  "memset_loop 0 m cp c = m"
| "memset_loop (Suc k) m cp c = memset_loop k (m(cp := c)) (cp + 1) c"

definition memset :: "bmem \<Rightarrow> nat \<Rightarrow> int \<Rightarrow> int \<Rightarrow> nat \<times> bmem" where
  "memset m s c n = (s, memset_loop (nat n) m s (word_of_int c))"

text \<open>The body of the \<^verbatim>\<open>do ... while (--n)\<close> loop runs at least once; \<open>n\<close> is positive there.\<close>

fun bzero_loop :: "nat \<Rightarrow> bmem \<Rightarrow> nat \<Rightarrow> bmem" where
  "bzero_loop n m pch =
     (let m' = m(pch := 0) in if n - 1 \<noteq> 0 then bzero_loop (n - 1) m' (pch + 1) else m')"

declare bzero_loop.simps [simp del]

definition bzero :: "bmem \<Rightarrow> nat \<Rightarrow> int \<Rightarrow> bmem" where
  "bzero m p len = (if len \<le> 0 then m else bzero_loop (nat len) m p)"

section \<open>Strings in memory\<close>

text \<open>The bytes of a string literal, and an array that holds them and nulls behind.\<close>

definition str :: "string \<Rightarrow> byte list" where
  "str s = map of_char s"

definition arr :: "byte list \<Rightarrow> bmem" where
  "arr xs i = (if i < length xs then xs ! i else 0)"

fun cstr :: "bmem \<Rightarrow> nat \<Rightarrow> byte list \<Rightarrow> bool" where
  "cstr m p [] \<longleftrightarrow> m p = 0"
| "cstr m p (x # xs) \<longleftrightarrow> m p = x \<and> x \<noteq> 0 \<and> cstr m (Suc p) xs"

fun bytes_at :: "bmem \<Rightarrow> nat \<Rightarrow> byte list \<Rightarrow> bool" where
  "bytes_at m p [] \<longleftrightarrow> True"
| "bytes_at m p (x # xs) \<longleftrightarrow> m p = x \<and> bytes_at m (Suc p) xs"

lemma cstr_cong: "cstr m p xs \<Longrightarrow> \<forall>a \<in> {p..p + length xs}. m' a = m a \<Longrightarrow> cstr m' p xs"
  by (induction xs arbitrary: p) auto

lemma bytes_at_cong: "bytes_at m p xs \<Longrightarrow> \<forall>a \<in> {p..<p + length xs}. m' a = m a \<Longrightarrow> bytes_at m' p xs"
  by (induction xs arbitrary: p) auto

lemma bytes_at_append: "bytes_at m p (xs @ ys) \<longleftrightarrow> bytes_at m p xs \<and> bytes_at m (p + length xs) ys"
  by (induction xs arbitrary: p) auto

lemma cstr_bytes: "cstr m p xs \<longleftrightarrow> bytes_at m p (xs @ [0]) \<and> 0 \<notin> set xs"
  by (induction xs arbitrary: p) auto

lemma strlen_loop_ok: "cstr m p xs \<Longrightarrow> strlen_loop m p n = Some (n + int (length xs))"
  by (induction xs arbitrary: p n) (simp_all add: strlen_loop.simps [of m])

lemma strlen_ok: "cstr m p xs \<Longrightarrow> strlen m p = Some (int (length xs))"
  by (simp add: strlen_def strlen_loop_ok)

lemma strnlen_loop_ok:
  "cstr m p xs \<Longrightarrow> 0 \<le> n \<Longrightarrow> n \<le> len \<Longrightarrow> strnlen_loop m p n len = min len (n + int (length xs))"
  by (induction xs arbitrary: p n) (auto simp: strnlen_loop.simps [of m])

lemma strnlen_ok: "cstr m p xs \<Longrightarrow> strnlen m p len = int (min len (length xs))"
  by (simp add: strnlen_def strnlen_loop_ok)

section \<open>Comparisons are lexicographic\<close>

fun lex_sign :: "byte list \<Rightarrow> byte list \<Rightarrow> int" where
  "lex_sign [] [] = 0"
| "lex_sign [] (y # ys) = - 1"
| "lex_sign (x # xs) [] = 1"
| "lex_sign (x # xs) (y # ys) = (if x = y then lex_sign xs ys else if x < y then - 1 else 1)"

lemma strcmp_lex_sign: "cstr m a xs \<Longrightarrow> cstr m b ys \<Longrightarrow> strcmp m a b = Some (lex_sign xs ys)"
  by (induction xs ys arbitrary: a b rule: lex_sign.induct)
    (auto simp: strcmp.simps [of m] word_gt_0)

lemma lex_sign_zero [simp]: "lex_sign xs ys = 0 \<longleftrightarrow> xs = ys"
  by (induction xs ys rule: lex_sign.induct) auto

lemma lex_sign_less: "lex_sign xs ys < 0 \<longleftrightarrow> (xs, ys) \<in> lexord {(x, y). x < y}"
  by (induction xs ys rule: lex_sign.induct) auto

lemma lex_sign_flip: "lex_sign ys xs = - lex_sign xs ys"
  by (induction xs ys rule: lex_sign.induct) auto

lemma strncmp_0 [simp]: "strncmp m a b 0 = 0"
  by (subst strncmp.simps) simp

lemma strncmp_Suc [simp]:
  "strncmp m a b (1 + int n) =
     (if m a = m b then if m a = 0 then 0 else strncmp m (Suc a) (Suc b) (int n) else uint (m a) - uint (m b))"
  by (subst strncmp.simps) (simp add: Let_def)

lemma memcmp_0 [simp]: "memcmp m a b 0 = 0"
  by (subst memcmp.simps) simp

lemma memcmp_Suc [simp]:
  "memcmp m a b (1 + int n) =
     (if m a \<noteq> m b then uint (m a) - uint (m b) else memcmp m (Suc a) (Suc b) (int n))"
  by (subst memcmp.simps) simp

lemma sgn_uint_diff: "x \<noteq> y \<Longrightarrow> sgn (uint x - uint y) = (if x < y then - 1 else (1 :: int))" for x y :: byte
  by (auto simp: sgn_if word_less_def word_uint_eq_iff)

lemma strncmp_ok:
  "cstr m a xs \<Longrightarrow> cstr m b ys \<Longrightarrow> sgn (strncmp m a b (int n)) = lex_sign (take n xs) (take n ys)"
  by (induction xs ys arbitrary: a b n rule: lex_sign.induct)
    (case_tac [!] n, auto simp: sgn_uint_diff word_gt_0 simp flip: word_neq_0_conv)

lemma memcmp_ok:
  "length xs = n \<Longrightarrow> length ys = n \<Longrightarrow> bytes_at m a xs \<Longrightarrow> bytes_at m b ys \<Longrightarrow>
   sgn (memcmp m a b (int n)) = lex_sign xs ys"
proof (induction n arbitrary: a b xs ys)
  case (Suc n)
  then obtain x xs' y ys' where e: "xs = x # xs'" "ys = y # ys'" by (cases xs; cases ys) auto
  then show ?case using Suc by (auto simp: sgn_uint_diff)
qed simp

section \<open>Searching finds the first or last occurrence\<close>

lemma strchr_loop_ok:
  assumes "cstr m p xs" "c \<noteq> 0"
  shows "strchr_loop m p c = Some (if c \<in> set xs then p + length (takeWhile (\<lambda>x. x \<noteq> c) xs) else 0)"
  using assms by (induction xs arbitrary: p) (auto simp: strchr_loop.simps [of m])

lemma strchr_loop_end: "cstr m p xs \<Longrightarrow> strchr_loop m p 0 = Some (p + length xs)"
  by (induction xs arbitrary: p) (auto simp: strchr_loop.simps [of m])

lemma strrchr_loop_ok:
  assumes "cstr m p xs" "c \<noteq> 0"
  shows "strrchr_loop m p c r =
    Some (if c \<in> set xs then p + length xs - Suc (length (takeWhile (\<lambda>x. x \<noteq> c) (rev xs))) else r)"
  using assms
proof (induction xs arbitrary: p r)
  case (Cons x xs)
  then have "strrchr_loop m p c r = strrchr_loop m (Suc p) c (if x = c then p else r)"
    by (simp add: strrchr_loop.simps [of m p])
  also have "\<dots> = Some (if c \<in> set xs then Suc p + length xs - Suc (length (takeWhile (\<lambda>x. x \<noteq> c) (rev xs)))
      else if x = c then p else r)"
    using Cons by simp
  finally have e: "strrchr_loop m p c r = \<dots>" .
  show ?case
  proof (cases "c \<in> set xs")
    case True
    then show ?thesis unfolding e by (simp add: takeWhile_tail takeWhile_append1 [of c])
  next
    case False
    then have "takeWhile (\<lambda>x. x \<noteq> c) (rev xs @ [x]) = rev xs @ takeWhile (\<lambda>x. x \<noteq> c) [x]"
      by (intro takeWhile_append2) auto
    then show ?thesis unfolding e using False by auto
  qed
qed (simp add: strrchr_loop.simps)

lemma strstr_match_ok:
  "cstr m p xs \<Longrightarrow> cstr m q ys \<Longrightarrow> \<exists>r. strstr_match m p q = Some r \<and> (m r = 0 \<longleftrightarrow> prefix ys xs)"
proof (induction xs ys arbitrary: p q rule: lex_sign.induct)
  case (4 x xs y ys)
  then show ?case by (cases "x = y") (auto simp: strstr_match.simps [of m p])
qed (auto simp: strstr_match.simps)

text \<open>The first position at which \<open>ys\<close> occurs in \<open>xs\<close>.\<close>

fun first_occ :: "byte list \<Rightarrow> byte list \<Rightarrow> nat option" where
  "first_occ ys [] = None"
| "first_occ ys (x # xs) = (if prefix ys (x # xs) then Some 0 else map_option Suc (first_occ ys xs))"

lemma first_occ_Some:
  "first_occ ys xs = Some i \<Longrightarrow> i < length xs \<and> prefix ys (drop i xs) \<and> (\<forall>j < i. \<not> prefix ys (drop j xs))"
  by (induction xs arbitrary: i) (auto simp: less_Suc_eq_0_disj split: if_splits)

lemma first_occ_None: "first_occ ys xs = None \<Longrightarrow> i < length xs \<Longrightarrow> \<not> prefix ys (drop i xs)"
  by (induction xs arbitrary: i) (auto simp: less_Suc_eq_0_disj split: if_splits)

lemma strstr_first_occ:
  assumes "cstr m p xs" "cstr m q ys" "ys \<noteq> []"
  shows "strstr m p q = Some (case first_occ ys xs of None \<Rightarrow> 0 | Some i \<Rightarrow> p + i)"
  using assms(1)
proof (induction xs arbitrary: p)
  case Nil
  then show ?case by (simp add: strstr.simps [of m p])
next
  case (Cons x xs)
  obtain y ys' where ys: "ys = y # ys'" using assms(3) by (cases ys) auto
  obtain r where r: "strstr_match m p q = Some r" "m r = 0 \<longleftrightarrow> prefix ys (x # xs)"
    using strstr_match_ok [OF Cons.prems assms(2)] by blast
  have "m q = y" using assms(2) ys by simp
  then show ?case using Cons r ys by (auto simp: strstr.simps [of m p] split: option.splits)
qed

section \<open>Copying copies and nothing else\<close>

text \<open>\<open>writes m m' p n\<close>: only the \<open>n\<close> bytes from \<open>p\<close> may differ.\<close>

definition writes :: "bmem \<Rightarrow> bmem \<Rightarrow> nat \<Rightarrow> nat \<Rightarrow> bool" where
  "writes m m' p n \<longleftrightarrow> (\<forall>a. a \<notin> {p..<p + n} \<longrightarrow> m' a = m a)"

definition apart :: "nat \<Rightarrow> nat \<Rightarrow> nat \<Rightarrow> nat \<Rightarrow> bool" where
  "apart p n q k \<longleftrightarrow> p + n \<le> q \<or> q + k \<le> p"

lemma writes_step: "writes (m(p := c)) m' (Suc p) n \<Longrightarrow> writes m m' p (Suc n)"
  by (auto simp: writes_def)

lemma writes_at: "writes (m(p := c)) m' (Suc p) n \<Longrightarrow> m' p = c"
  by (auto simp: writes_def)

lemma writes_put:
  "bytes_at m' (Suc p) xs \<and> writes (m(p := c)) m' (Suc p) n \<Longrightarrow> bytes_at m' p (c # xs) \<and> writes m m' p (Suc n)"
  by (auto simp: writes_def)

lemma strcpy_loop_ok:
  assumes "cstr m src xs" "apart tar (length xs + 1) src (length xs + 1)"
  shows "\<exists>m'. strcpy_loop m tar src = Some m' \<and> cstr m' tar xs \<and> writes m m' tar (length xs + 1)"
  using assms
proof (induction xs arbitrary: m tar src)
  case Nil
  then show ?case by (simp add: strcpy_loop.simps [of m] writes_def)
next
  case (Cons x xs)
  let ?m = "m(tar := x)"
  have c: "cstr ?m (Suc src) xs"
    by (rule cstr_cong [of m]) (use Cons.prems in \<open>auto simp: apart_def\<close>)
  have a: "apart (Suc tar) (length xs + 1) (Suc src) (length xs + 1)" using Cons.prems(2) by (auto simp: apart_def)
  from Cons.IH [OF c a] obtain m' where m': "strcpy_loop ?m (Suc tar) (Suc src) = Some m'"
    "cstr m' (Suc tar) xs" "writes ?m m' (Suc tar) (length xs + 1)" by blast
  have "strcpy_loop m tar src = strcpy_loop ?m (Suc tar) (Suc src)"
    using Cons.prems(1) by (simp add: strcpy_loop.simps [of m tar])
  then show ?case using m' Cons.prems(1) writes_step [OF m'(3)] writes_at [OF m'(3)] by simp
qed

lemma strncpy_pad_ok: "bytes_at (strncpy_pad k m p) p (replicate k 0) \<and> writes m (strncpy_pad k m p) p k"
proof (induction k arbitrary: m p)
  case (Suc k)
  from writes_put [of "strncpy_pad k (m(p := 0)) (Suc p)" p "replicate k 0" m 0 k] Suc show ?case by simp
qed (simp add: writes_def)

lemma strncpy_loop_ok:
  assumes "cstr m src xs" "apart tar n src (length xs + 1)"
  shows "bytes_at (strncpy_loop n m tar src) tar (take n (xs @ replicate n 0)) \<and> writes m (strncpy_loop n m tar src) tar n"
  using assms
proof (induction n arbitrary: m tar src xs)
  case (Suc n)
  show ?case
  proof (cases xs)
    case Nil
    then show ?thesis using Suc.prems writes_put [of "strncpy_pad n (m(tar := 0)) (Suc tar)" tar "replicate n 0" m 0 n]
      strncpy_pad_ok by simp
  next
    case (Cons x xs')
    let ?m = "m(tar := x)"
    have c: "cstr ?m (Suc src) xs'"
      by (rule cstr_cong [of m]) (use Suc.prems Cons in \<open>auto simp: apart_def\<close>)
    have a: "apart (Suc tar) n (Suc src) (length xs' + 1)" using Suc.prems(2) Cons by (auto simp: apart_def)
    have t: "take n (xs' @ replicate (Suc n) 0) = take n (xs' @ replicate n 0)"
      by (simp add: replicate_append_same [symmetric] del: replicate_Suc)
    show ?thesis using writes_put [of "strncpy_loop n ?m (Suc tar) (Suc src)" tar _ m x n, OF Suc.IH [OF c a]] t Suc.prems(1) Cons by simp
  qed
qed (simp add: writes_def)

lemma memcpy_loop_ok:
  assumes "bytes_at m src xs" "apart dst (length xs) src (length xs)"
  shows "bytes_at (memcpy_loop (length xs) m dst src) dst xs \<and> writes m (memcpy_loop (length xs) m dst src) dst (length xs)"
  using assms
proof (induction xs arbitrary: m dst src)
  case (Cons x xs)
  let ?m = "m(dst := x)"
  have c: "bytes_at ?m (Suc src) xs"
    by (rule bytes_at_cong [of m]) (use Cons.prems in \<open>auto simp: apart_def\<close>)
  have a: "apart (Suc dst) (length xs) (Suc src) (length xs)" using Cons.prems(2) by (auto simp: apart_def)
  show ?case using writes_put [of "memcpy_loop (length xs) ?m (Suc dst) (Suc src)" dst xs m x "length xs", OF Cons.IH [OF c a]] Cons.prems(1) by simp
qed (simp add: writes_def)

lemma memset_loop_ok: "bytes_at (memset_loop k m p c) p (replicate k c) \<and> writes m (memset_loop k m p c) p k"
proof (induction k arbitrary: m p)
  case (Suc k)
  from writes_put [of "memset_loop k (m(p := c)) (Suc p) c" p "replicate k c" m c k] Suc show ?case by simp
qed (simp add: writes_def)

lemma bzero_loop_memset: "bzero_loop (Suc k) m p = memset_loop (Suc k) m p 0"
  by (induction k arbitrary: m p) (simp_all add: bzero_loop.simps)

text \<open>\<^verbatim>\<open>bzero\<close> is \<^verbatim>\<open>memset\<close> with 0.\<close>

lemma bzero_memset: "bzero m p n = snd (memset m p 0 n)"
  by (cases "nat n") (auto simp: bzero_def memset_def bzero_loop_memset simp del: memset_loop.simps(2))

lemma strncat_end_ok: "cstr m p xs \<Longrightarrow> strncat_end m p = Some (p + length xs)"
  by (induction xs arbitrary: p) (auto simp: strncat_end.simps [of m])

lemma strncat_copy_ok:
  assumes "cstr m src ys" "apart tar (min n (length ys) + 1) src (length ys + 1)"
  shows "cstr (strncat_copy m tar src (int n)) tar (take n ys) \<and>
    writes m (strncat_copy m tar src (int n)) tar (min n (length ys) + 1)"
  using assms
proof (induction ys arbitrary: m tar src n)
  case Nil
  then show ?case by (subst strncat_copy.simps, subst strncat_copy.simps) (simp add: writes_def Let_def)
next
  case (Cons y ys)
  show ?case
  proof (cases n)
    case 0
    have "strncat_copy m tar src 0 = m(tar := 0)" using Cons.prems(1) by (subst strncat_copy.simps) simp
    then show ?thesis using 0 by (simp add: writes_def)
  next
    case (Suc k)
    let ?m = "m(tar := y)"
    have c: "cstr ?m (Suc src) ys"
      by (rule cstr_cong [of m]) (use Cons.prems in \<open>auto simp: apart_def\<close>)
    have a: "apart (Suc tar) (min k (length ys) + 1) (Suc src) (length ys + 1)"
      using Cons.prems(2) Suc by (auto simp: apart_def)
    have e: "strncat_copy m tar src (int n) = strncat_copy ?m (Suc tar) (Suc src) (int k)"
      using Cons.prems(1) Suc by (subst strncat_copy.simps) simp
    have IH: "cstr (strncat_copy ?m (Suc tar) (Suc src) (int k)) (Suc tar) (take k ys) \<and>
      writes ?m (strncat_copy ?m (Suc tar) (Suc src) (int k)) (Suc tar) (min k (length ys) + 1)"
      by (rule Cons.IH [OF c a])
    show ?thesis
      using IH writes_step [OF conjunct2 [OF IH]] writes_at [OF conjunct2 [OF IH]] Cons.prems(1) Suc unfolding e by simp
  qed
qed

lemma cstr_append: "cstr m p (xs @ ys) \<longleftrightarrow> bytes_at m p xs \<and> 0 \<notin> set xs \<and> cstr m (p + length xs) ys"
  by (induction xs arbitrary: p) auto

lemma strncat_ok:
  assumes x: "cstr m s1 xs" and y: "cstr m s2 ys" and a: "apart (s1 + length xs) (min n (length ys) + 1) s2 (length ys + 1)"
  obtains m' where "strncat m s1 s2 (int n) = Some (s1, m')" "cstr m' s1 (xs @ take n ys)"
    "writes m m' (s1 + length xs) (min n (length ys) + 1)"
proof -
  let ?m' = "strncat_copy m (s1 + length xs) s2 (int n)"
  note c = strncat_copy_ok [OF y a]
  have "bytes_at m s1 xs \<and> 0 \<notin> set xs" using x by (simp add: cstr_bytes bytes_at_append)
  moreover have "bytes_at ?m' s1 xs" if "bytes_at m s1 xs"
    by (rule bytes_at_cong [OF that]) (use c in \<open>auto simp: writes_def\<close>)
  ultimately have "cstr ?m' s1 (xs @ take n ys)" using c by (simp add: cstr_append)
  then show thesis using that c strncat_end_ok [OF x] by (simp add: strncat_def)
qed

end
