(* ===== verification/Clib_Num.thy ===== *)
theory Clib_Num
  imports Clib_String
begin

text \<open>
  Numbers and character classes of \<^verbatim>\<open>lib/\<close>: \<^verbatim>\<open>abs\<close>, \<^verbatim>\<open>labs\<close>, \<^verbatim>\<open>atoi\<close>, \<^verbatim>\<open>atol\<close>, the random numbers of \<^verbatim>\<open>rand.c\<close>
  and the table of \<^verbatim>\<open>ctype_.c\<close>. \<^verbatim>\<open>int\<close> and \<^verbatim>\<open>long\<close> are 32 bits wide; arithmetic that leaves the range wraps.
\<close>

unbundle bit_operations_syntax

section \<open>Absolute value, conversion, random numbers\<close>

definition abs_c :: "int \<Rightarrow> int" where
  "abs_c arg = (if arg < 0 then s32 (- arg) else arg)"

definition labs_c :: "int \<Rightarrow> int" where
  "labs_c arg = (if arg < 0 then s32 (- arg) else arg)"

text \<open>The loop over blanks, with the sign flag it leaves.\<close>

partial_function (option) atoi_skip :: "bmem \<Rightarrow> nat \<Rightarrow> (nat \<times> int) option" where
  "atoi_skip m p =
     (if m p = 32 \<or> m p = 9 then atoi_skip m (p + 1)
      else if m p = 45 then Some (p + 1, 1)
      else if m p = 43 then Some (p + 1, 0)
      else Some (p, 0))"

partial_function (option) atoi_digits :: "bmem \<Rightarrow> nat \<Rightarrow> int \<Rightarrow> int option" where
  "atoi_digits m p n =
     (if m p \<ge> 48 \<and> m p \<le> 57 then atoi_digits m (p + 1) (s32 (n * 10 + uint (m p) - 48)) else Some n)"

definition atoi :: "bmem \<Rightarrow> nat \<Rightarrow> int option" where
  "atoi m p0 =
     (case atoi_skip m p0 of
        None \<Rightarrow> None
      | Some (p, f) \<Rightarrow> map_option (\<lambda>n. if f \<noteq> 0 then s32 (- n) else n) (atoi_digits m p 0))"

definition atol :: "bmem \<Rightarrow> nat \<Rightarrow> int option" where
  "atol m p0 =
     (case atoi_skip m p0 of
        None \<Rightarrow> None
      | Some (p, f) \<Rightarrow> map_option (\<lambda>n. if f \<noteq> 0 then s32 (- n) else n) (atoi_digits m p 0))"

abbreviation (input) RAND_MAX :: nat where "RAND_MAX \<equiv> 2147483646"

text \<open>The new seed is also the result. The multiplication is in 32 bits.\<close>

definition rand_r :: "nat \<Rightarrow> int \<times> nat" where
  "rand_r seed = (let seed' = u32 (16807 * seed) mod (RAND_MAX + 1) in (int seed', seed'))"

definition rand :: "nat \<Rightarrow> int \<times> nat" where
  "rand rand_seed = rand_r rand_seed"

definition srand :: "nat \<Rightarrow> nat \<Rightarrow> nat" where
  "srand rand_seed seed = seed"

section \<open>Character classes\<close>

abbreviation (input) ct_U :: int where "ct_U \<equiv> 1"
abbreviation (input) ct_L :: int where "ct_L \<equiv> 2"
abbreviation (input) ct_N :: int where "ct_N \<equiv> 4"
abbreviation (input) ct_S :: int where "ct_S \<equiv> 8"
abbreviation (input) ct_P :: int where "ct_P \<equiv> 16"
abbreviation (input) ct_C :: int where "ct_C \<equiv> 32"
abbreviation (input) ct_X :: int where "ct_X \<equiv> 64"

definition ctype_tab :: "int list" where
  "ctype_tab =
     [0,
      ct_C, ct_C, ct_C, ct_C, ct_C, ct_C, ct_C, ct_C,
      ct_C, ct_S, ct_S, ct_S, ct_S, ct_S, ct_C, ct_C,
      ct_C, ct_C, ct_C, ct_C, ct_C, ct_C, ct_C, ct_C,
      ct_C, ct_C, ct_C, ct_C, ct_C, ct_C, ct_C, ct_C,
      ct_S, ct_P, ct_P, ct_P, ct_P, ct_P, ct_P, ct_P,
      ct_P, ct_P, ct_P, ct_P, ct_P, ct_P, ct_P, ct_P,
      ct_N, ct_N, ct_N, ct_N, ct_N, ct_N, ct_N, ct_N,
      ct_N, ct_N, ct_P, ct_P, ct_P, ct_P, ct_P, ct_P,
      ct_P, ct_U OR ct_X, ct_U OR ct_X, ct_U OR ct_X, ct_U OR ct_X, ct_U OR ct_X, ct_U OR ct_X,
      ct_U,
      ct_U, ct_U, ct_U, ct_U, ct_U, ct_U, ct_U, ct_U,
      ct_U, ct_U, ct_U, ct_U, ct_U, ct_U, ct_U, ct_U,
      ct_U, ct_U, ct_U, ct_P, ct_P, ct_P, ct_P, ct_P,
      ct_P, ct_L OR ct_X, ct_L OR ct_X, ct_L OR ct_X, ct_L OR ct_X, ct_L OR ct_X, ct_L OR ct_X,
      ct_L,
      ct_L, ct_L, ct_L, ct_L, ct_L, ct_L, ct_L, ct_L,
      ct_L, ct_L, ct_L, ct_L, ct_L, ct_L, ct_L, ct_L,
      ct_L, ct_L, ct_L, ct_P, ct_P, ct_P, ct_P, ct_C]"

definition ctype_is :: "nat \<Rightarrow> int \<Rightarrow> bool" where
  "ctype_is c msk \<longleftrightarrow> (ctype_tab ! (1 + c)) AND msk \<noteq> 0"

definition isalpha :: "nat \<Rightarrow> bool" where "isalpha c = ctype_is c (ct_U OR ct_L)"
definition isupper :: "nat \<Rightarrow> bool" where "isupper c = ctype_is c ct_U"
definition islower :: "nat \<Rightarrow> bool" where "islower c = ctype_is c ct_L"
definition isdigit :: "nat \<Rightarrow> bool" where "isdigit c = ctype_is c ct_N"
definition isxdigit :: "nat \<Rightarrow> bool" where "isxdigit c = ctype_is c (ct_N OR ct_X)"
definition isspace :: "nat \<Rightarrow> bool" where "isspace c = ctype_is c ct_S"
definition ispunct :: "nat \<Rightarrow> bool" where "ispunct c = ctype_is c ct_P"
definition isalnum :: "nat \<Rightarrow> bool" where "isalnum c = ctype_is c (ct_U OR ct_L OR ct_N)"
definition isprint :: "nat \<Rightarrow> bool" where "isprint c = ctype_is c (ct_P OR ct_U OR ct_L OR ct_N OR ct_S)"
definition iscntrl :: "nat \<Rightarrow> bool" where "iscntrl c = ctype_is c ct_C"

definition toupper :: "int \<Rightarrow> int" where "toupper c = c - 97 + 65"
definition tolower :: "int \<Rightarrow> int" where "tolower c = c - 65 + 97"

lemmas ctype_defs = ctype_is_def isalpha_def isupper_def islower_def isdigit_def isxdigit_def isspace_def
  ispunct_def isalnum_def isprint_def iscntrl_def

text \<open>The table agrees with the ranges of the ASCII code.\<close>

lemma ctype_ranges:
  "\<forall>c \<in> set [0..<128]. (isdigit c \<longleftrightarrow> 48 \<le> c \<and> c \<le> 57) \<and> (isupper c \<longleftrightarrow> 65 \<le> c \<and> c \<le> 90) \<and>
     (islower c \<longleftrightarrow> 97 \<le> c \<and> c \<le> 122) \<and> (isspace c \<longleftrightarrow> c = 32 \<or> 9 \<le> c \<and> c \<le> 13) \<and>
     (isxdigit c \<longleftrightarrow> 48 \<le> c \<and> c \<le> 57 \<or> 65 \<le> c \<and> c \<le> 70 \<or> 97 \<le> c \<and> c \<le> 102) \<and>
     (iscntrl c \<longleftrightarrow> c < 9 \<or> 14 \<le> c \<and> c < 32 \<or> c = 127)"
  by code_simp

lemma ctype_classes:
  "\<forall>c \<in> set [0..<128]. (isalpha c \<longleftrightarrow> isupper c \<or> islower c) \<and> (isalnum c \<longleftrightarrow> isalpha c \<or> isdigit c) \<and>
     (isprint c \<longleftrightarrow> \<not> iscntrl c) \<and> (ispunct c \<longleftrightarrow> isprint c \<and> \<not> isalnum c \<and> \<not> isspace c)"
  by code_simp

section \<open>Conversion reads a decimal number\<close>

lemma s32_mod: "s32 x mod 4294967296 = x mod 4294967296"
proof -
  have "s32 x mod 4294967296 = (x + 2147483648 - 2147483648) mod 4294967296"
    unfolding s32_def by (rule mod_diff_left_eq)
  then show ?thesis by simp
qed

lemma s32_cong: "x mod 4294967296 = y mod 4294967296 \<Longrightarrow> s32 x = s32 y"
  unfolding s32_def by (metis mod_add_left_eq)

lemma s32_s32 [simp]: "s32 (s32 x) = s32 x"
  by (rule s32_cong) (rule s32_mod)

lemma s32_step: "s32 (s32 n * 10 + d - 48) = s32 (n * 10 + d - 48)"
  by (rule s32_cong) (intro mod_diff_cong mod_add_cong mod_mult_cong s32_mod refl)

lemma s32_neg: "s32 (- s32 n) = s32 (- n)"
  by (rule s32_cong) (metis mod_minus_eq s32_mod)

definition is_dec :: "byte \<Rightarrow> bool" where
  "is_dec c \<longleftrightarrow> c \<ge> 48 \<and> c \<le> 57"

definition dec_value :: "byte list \<Rightarrow> int" where
  "dec_value ds = foldl (\<lambda>n d. n * 10 + uint d - 48) 0 ds"

lemma atoi_digits_ok:
  assumes "cstr m p (ds @ rest)" "\<forall>d \<in> set ds. is_dec d" "rest = [] \<or> \<not> is_dec (hd rest)"
  shows "atoi_digits m p (s32 n) = Some (s32 (foldl (\<lambda>n d. n * 10 + uint d - 48) n ds))"
  using assms
proof (induction ds arbitrary: p n)
  case Nil
  then show ?case by (cases rest) (auto simp: atoi_digits.simps [of m p] is_dec_def)
next
  case (Cons d ds)
  then show ?case using Cons.IH [of "Suc p" "n * 10 + uint d - 48"]
    by (simp add: atoi_digits.simps [of m p] is_dec_def s32_step)
qed

lemma atoi_skip_ok:
  assumes "cstr m p (bs @ rest)" "set bs \<subseteq> {32, 9}" "rest = [] \<or> hd rest \<notin> {32, 9}"
  shows "atoi_skip m p = Some (if rest \<noteq> [] \<and> hd rest \<in> {45, 43} then Suc (p + length bs) else p + length bs,
    if rest \<noteq> [] \<and> hd rest = 45 then 1 else 0)"
  using assms
proof (induction bs arbitrary: p)
  case Nil
  then show ?case by (cases rest) (auto simp: atoi_skip.simps [of m p])
next
  case (Cons b bs)
  then show ?case by (auto simp: atoi_skip.simps [of m p])
qed

text \<open>Blanks, an optional sign, digits, and something that is no digit: \<^verbatim>\<open>atoi\<close> returns the number, reduced
  to 32 bits.\<close>

lemma atoi_value:
  assumes c: "cstr m p (bs @ sg @ ds @ rest)" and b: "set bs \<subseteq> {32, 9}" and s: "sg \<in> {[], [43], [45]}"
    and d: "\<forall>d \<in> set ds. is_dec d" "ds \<noteq> []" and r: "rest = [] \<or> \<not> is_dec (hd rest)"
  shows "atoi m p = Some (s32 (if sg = [45] then - dec_value ds else dec_value ds))"
proof -
  have h: "hd ds \<notin> {32, 9, 45, 43}" using d by (cases ds) (auto simp: is_dec_def)
  let ?q = "p + length bs + length sg"
  have "atoi_skip m p = Some (?q, if sg = [45] then 1 else 0)"
    using atoi_skip_ok [OF c b] s d(2) h by auto
  moreover have "cstr m ?q (ds @ rest)" using c by (simp add: cstr_append add.assoc)
  then have "atoi_digits m ?q 0 = Some (s32 (dec_value ds))"
    using atoi_digits_ok [of m ?q ds rest 0] d(1) r by (simp add: dec_value_def)
  ultimately show ?thesis by (simp add: atoi_def s32_neg)
qed

lemma atol_atoi: "atol m p = atoi m p"
  by (simp add: atol_def atoi_def)

section \<open>Bounds\<close>

lemma abs_c_nonneg: "- 2147483648 < x \<Longrightarrow> x \<le> 2147483647 \<Longrightarrow> abs_c x = \<bar>x\<bar>"
  by (simp add: abs_c_def)

lemma abs_c_min: "abs_c (- 2147483648) = - 2147483648"
  by (simp add: abs_c_def s32_def)

lemma rand_r_range: "0 \<le> fst (rand_r seed) \<and> fst (rand_r seed) \<le> int RAND_MAX"
proof -
  have "u32 (16807 * seed) mod 2147483647 < 2147483647" by simp
  then show ?thesis by (simp add: rand_r_def Let_def)
qed

lemma rand_r_zero: "rand_r 0 = (0, 0)"
  by (simp add: rand_r_def u32_def)

end
