(* ===== verification/Shell_Lexan.thy ===== *)
theory Shell_Lexan
  imports Clib_String
begin

text \<open>
  The lexical analyser of the shell, \<^verbatim>\<open>shell/lexan.c\<close>. It copies the tokens of a line, each followed by a null byte,
  into \<^verbatim>\<open>tokbuf\<close> and records where each starts and of which type it is. The record \<open>lex\<close> holds the local
  variables and the output arrays; the line and the arrays are separate objects of the caller.

  The reference is \<open>lex_spec\<close>, a tokeniser on lists. The main lemma says that \<^verbatim>\<open>lexan\<close> returns for every line, with the
  tokens of \<open>lex_spec\<close> or with \<^verbatim>\<open>SYSERR\<close> as \<open>lex_spec\<close> says, and that it stays inside the buffers of the shell.
\<close>

section \<open>Operations\<close>

abbreviation (input) NULLCH :: byte where "NULLCH \<equiv> 0"
abbreviation (input) SH_NEWLINE :: byte where "SH_NEWLINE \<equiv> 10"
abbreviation (input) SH_AMPER :: byte where "SH_AMPER \<equiv> 38"
abbreviation (input) SH_BLANK :: byte where "SH_BLANK \<equiv> 32"
abbreviation (input) SH_TAB :: byte where "SH_TAB \<equiv> 9"
abbreviation (input) SH_SQUOTE :: byte where "SH_SQUOTE \<equiv> 39"
abbreviation (input) SH_DQUOTE :: byte where "SH_DQUOTE \<equiv> 34"
abbreviation (input) SH_LESS :: byte where "SH_LESS \<equiv> 60"
abbreviation (input) SH_GREATER :: byte where "SH_GREATER \<equiv> 62"

abbreviation (input) SHELL_MAXTOK :: nat where "SHELL_MAXTOK \<equiv> 32"

datatype toktype = SH_TOK_AMPER | SH_TOK_LESS | SH_TOK_GREATER | SH_TOK_OTHER

record lex =
  lp :: nat
  tbindex :: nat
  tokbuf :: bmem
  ntok :: nat
  tok :: "nat \<Rightarrow> nat"
  toktyp :: "nat \<Rightarrow> toktype"
  tlen :: nat

definition put_ch :: "byte \<Rightarrow> lex \<Rightarrow> lex" where
  "put_ch ch x = x\<lparr>tokbuf := (tokbuf x)(tbindex x := ch), tbindex := tbindex x + 1\<rparr>"

partial_function (option) lex_skip :: "bmem \<Rightarrow> nat \<Rightarrow> nat option" where
  "lex_skip line p = (if line p = SH_BLANK \<or> line p = SH_TAB then lex_skip line (p + 1) else Some p)"

text \<open>A one-character token.\<close>

definition lex_op :: "toktype \<Rightarrow> byte \<Rightarrow> lex \<Rightarrow> lex" where
  "lex_op ty ch x =
     (let x1 = x\<lparr>toktyp := (toktyp x)(ntok x := ty)\<rparr>;
          x2 = put_ch NULLCH (put_ch ch x1)
      in x2\<lparr>ntok := ntok x2 + 1, lp := lp x2 + 1\<rparr>)"

text \<open>The loop over a quoted string, with the last character read.\<close>

partial_function (option) lex_quote :: "bmem \<Rightarrow> byte \<Rightarrow> lex \<Rightarrow> (byte \<times> lex) option" where
  "lex_quote line quote x =
     (let ch = line (lp x); x1 = x\<lparr>lp := lp x + 1\<rparr> in
      if ch \<noteq> quote \<and> ch \<noteq> SH_NEWLINE \<and> ch \<noteq> NULLCH then lex_quote line quote (put_ch ch x1)
      else Some (ch, x1))"

definition word_end :: "byte \<Rightarrow> bool" where
  "word_end ch \<longleftrightarrow>
     ch = SH_NEWLINE \<or> ch = NULLCH \<or> ch = SH_LESS \<or> ch = SH_GREATER \<or> ch = SH_BLANK \<or> ch = SH_TAB \<or>
     ch = SH_AMPER \<or> ch = SH_SQUOTE \<or> ch = SH_DQUOTE"

partial_function (option) lex_word :: "bmem \<Rightarrow> lex \<Rightarrow> lex option" where
  "lex_word line x =
     (let ch = line (lp x) in
      if \<not> word_end ch then lex_word line ((put_ch ch x)\<lparr>lp := lp x + 1\<rparr>) else Some x)"

partial_function (option) lexan_loop :: "bmem \<Rightarrow> lex \<Rightarrow> (int \<times> lex) option" where
  "lexan_loop line x =
     (if line (lp x) \<noteq> NULLCH \<and> line (lp x) \<noteq> SH_NEWLINE then
        if ntok x \<ge> SHELL_MAXTOK then Some (SYSERR, x)
        else case lex_skip line (lp x) of None \<Rightarrow> None | Some p \<Rightarrow>
          let ch = line p; x1 = x\<lparr>lp := p\<rparr> in
          if ch = SH_NEWLINE \<or> ch = NULLCH then Some (int (ntok x1), x1\<lparr>tlen := tbindex x1\<rparr>)
          else
            let x2 = x1\<lparr>tok := (tok x1)(ntok x1 := tbindex x1)\<rparr> in
            if ch = SH_AMPER then lexan_loop line (lex_op SH_TOK_AMPER ch x2)
            else if ch = SH_LESS then lexan_loop line (lex_op SH_TOK_LESS ch x2)
            else if ch = SH_GREATER then lexan_loop line (lex_op SH_TOK_GREATER ch x2)
            else
              let x3 = x2\<lparr>toktyp := (toktyp x2)(ntok x2 := SH_TOK_OTHER), lp := lp x2 + 1\<rparr> in
              if ch = SH_SQUOTE \<or> ch = SH_DQUOTE then
                (case lex_quote line ch x3 of None \<Rightarrow> None | Some (ch1, x4) \<Rightarrow>
                   if ch1 \<noteq> ch then Some (SYSERR, x4)
                   else lexan_loop line ((put_ch NULLCH x4)\<lparr>ntok := ntok x4 + 1\<rparr>))
              else
                (case lex_word line (put_ch ch x3) of None \<Rightarrow> None | Some x4 \<Rightarrow>
                   if line (lp x4) = SH_SQUOTE \<or> line (lp x4) = SH_DQUOTE \<or> line (lp x4) = SH_LESS
                      \<or> line (lp x4) = SH_GREATER then Some (SYSERR, x4)
                   else lexan_loop line ((put_ch NULLCH x4)\<lparr>ntok := ntok x4 + 1\<rparr>))
      else Some (int (ntok x), x\<lparr>tlen := tbindex x\<rparr>))"

definition lexan :: "bmem \<Rightarrow> lex \<Rightarrow> (int \<times> lex) option" where
  "lexan line x = lexan_loop line (x\<lparr>ntok := 0, lp := 0, tbindex := 0\<rparr>)"

section \<open>The reference tokeniser\<close>

definition is_blank :: "byte \<Rightarrow> bool" where
  "is_blank c \<longleftrightarrow> c = SH_BLANK \<or> c = SH_TAB"

definition op_type :: "byte \<Rightarrow> toktype option" where
  "op_type c = (if c = SH_AMPER then Some SH_TOK_AMPER else if c = SH_LESS then Some SH_TOK_LESS
     else if c = SH_GREATER then Some SH_TOK_GREATER else None)"

definition is_quote :: "byte \<Rightarrow> bool" where
  "is_quote c \<longleftrightarrow> c = SH_SQUOTE \<or> c = SH_DQUOTE"

lemma dropWhile_length: "dropWhile P xs = y # ys \<Longrightarrow> length ys < length xs"
  by (metis length_dropWhile_le length_Cons less_le_trans lessI)

function lex_spec :: "nat \<Rightarrow> byte list \<Rightarrow> (toktype \<times> byte list) list option" where
  "lex_spec k xs =
     (if xs = [] then Some []
      else if k \<ge> SHELL_MAXTOK then None
      else case dropWhile is_blank xs of
        [] \<Rightarrow> Some []
      | c # ys \<Rightarrow>
          (case op_type c of
             Some ty \<Rightarrow> map_option (Cons (ty, [c])) (lex_spec (Suc k) ys)
           | None \<Rightarrow>
               if is_quote c then
                 (case dropWhile (\<lambda>d. d \<noteq> c) ys of
                    [] \<Rightarrow> None
                  | _ # zs \<Rightarrow> map_option (Cons (SH_TOK_OTHER, takeWhile (\<lambda>d. d \<noteq> c) ys)) (lex_spec (Suc k) zs))
               else
                 let w = takeWhile (\<lambda>d. \<not> word_end d) ys; zs = dropWhile (\<lambda>d. \<not> word_end d) ys in
                 if zs \<noteq> [] \<and> (is_quote (hd zs) \<or> hd zs = SH_LESS \<or> hd zs = SH_GREATER) then None
                 else map_option (Cons (SH_TOK_OTHER, c # w)) (lex_spec (Suc k) zs)))"
  by pat_completeness auto
termination
  by (relation "measure (\<lambda>(k, xs). length xs)")
    (auto dest!: dropWhile_length intro: le_less_trans [OF length_dropWhile_le])

declare lex_spec.simps [simp del]

section \<open>Lines and token buffers\<close>

text \<open>A line of characters that ends with a newline or a null byte.\<close>

fun line_at :: "bmem \<Rightarrow> nat \<Rightarrow> byte list \<Rightarrow> bool" where
  "line_at line p [] \<longleftrightarrow> line p = NULLCH \<or> line p = SH_NEWLINE"
| "line_at line p (x # xs) \<longleftrightarrow> line p = x \<and> x \<noteq> NULLCH \<and> x \<noteq> SH_NEWLINE \<and> line_at line (Suc p) xs"

definition put_all :: "byte list \<Rightarrow> lex \<Rightarrow> lex" where
  "put_all ws x = fold put_ch ws x"

lemma put_all_simps [simp]: "put_all [] x = x" "put_all (w # ws) x = put_all ws (put_ch w x)"
  by (simp_all add: put_all_def)

lemma put_all_append: "put_all (vs @ ws) x = put_all ws (put_all vs x)"
  by (simp add: put_all_def)

lemma put_ch_upd [simp]:
  "put_ch c (x\<lparr>lp := p\<rparr>) = (put_ch c x)\<lparr>lp := p\<rparr>" "put_ch c (x\<lparr>tok := t\<rparr>) = (put_ch c x)\<lparr>tok := t\<rparr>"
  "put_ch c (x\<lparr>toktyp := y\<rparr>) = (put_ch c x)\<lparr>toktyp := y\<rparr>"
  by (simp_all add: put_ch_def)

lemma put_ch_fields [simp]:
  "lp (put_ch c x) = lp x" "ntok (put_ch c x) = ntok x" "tok (put_ch c x) = tok x" "toktyp (put_ch c x) = toktyp x"
  "tlen (put_ch c x) = tlen x" "tbindex (put_ch c x) = tbindex x + 1"
  by (simp_all add: put_ch_def)

lemma put_all_upd [simp]:
  "put_all ws (x\<lparr>lp := p\<rparr>) = (put_all ws x)\<lparr>lp := p\<rparr>" "put_all ws (x\<lparr>tok := t\<rparr>) = (put_all ws x)\<lparr>tok := t\<rparr>"
  "put_all ws (x\<lparr>toktyp := y\<rparr>) = (put_all ws x)\<lparr>toktyp := y\<rparr>"
  by (induction ws arbitrary: x) simp_all

lemma put_all_fields [simp]:
  "lp (put_all ws x) = lp x" "ntok (put_all ws x) = ntok x" "tok (put_all ws x) = tok x" "toktyp (put_all ws x) = toktyp x"
  "tlen (put_all ws x) = tlen x" "tbindex (put_all ws x) = tbindex x + length ws"
  by (induction ws arbitrary: x) (simp_all add: put_ch_def)

lemma put_all_buf:
  "bytes_at (tokbuf (put_all ws x)) (tbindex x) ws \<and> writes (tokbuf x) (tokbuf (put_all ws x)) (tbindex x) (length ws)"
proof (induction ws arbitrary: x)
  case (Cons w ws)
  from writes_put [of "tokbuf (put_all ws (put_ch w x))" "tbindex x" ws "tokbuf x" w "length ws"] Cons [of "put_ch w x"]
  show ?case by (simp add: put_ch_def fun_upd_def)
qed (simp add: writes_def)

lemma lex_skip_ok:
  "line_at line p xs \<Longrightarrow> lex_skip line p = Some (p + length (takeWhile is_blank xs)) \<and>
   line_at line (p + length (takeWhile is_blank xs)) (dropWhile is_blank xs)"
proof (induction xs arbitrary: p)
  case Nil
  then show ?case by (auto simp: lex_skip.simps [of line p])
next
  case (Cons x xs)
  then show ?case using Cons.IH [of "Suc p"] by (cases "is_blank x") (auto simp: lex_skip.simps [of line p] is_blank_def)
qed

lemma lex_quote_step:
  "line (lp x) = y \<Longrightarrow> y \<noteq> c \<Longrightarrow> y \<noteq> NULLCH \<Longrightarrow> y \<noteq> SH_NEWLINE \<Longrightarrow>
   lex_quote line c x = lex_quote line c ((put_ch y x)\<lparr>lp := Suc (lp x)\<rparr>)"
  by (simp add: lex_quote.simps [of line c x] Let_def)

lemma lex_quote_closed:
  assumes "line_at line (lp x) ys" "c \<in> set ys"
  shows "lex_quote line c x =
      Some (c, (put_all (takeWhile (\<lambda>d. d \<noteq> c) ys) x)\<lparr>lp := lp x + length (takeWhile (\<lambda>d. d \<noteq> c) ys) + 1\<rparr>) \<and>
      line_at line (lp x + length (takeWhile (\<lambda>d. d \<noteq> c) ys) + 1) (tl (dropWhile (\<lambda>d. d \<noteq> c) ys))"
  using assms
proof (induction ys arbitrary: x)
  case (Cons y ys)
  show ?case
  proof (cases "y = c")
    case True
    then show ?thesis using Cons.prems by (simp add: lex_quote.simps [of line c x] Let_def)
  next
    case False
    then show ?thesis
      using lex_quote_step [of line x y c] Cons.IH [of "(put_ch y x)\<lparr>lp := Suc (lp x)\<rparr>"] Cons.prems by simp
  qed
qed simp

lemma lex_quote_open:
  assumes "line_at line (lp x) ys" "c \<notin> set ys" "is_quote c"
  shows "\<exists>ch. ch \<noteq> c \<and> lex_quote line c x = Some (ch, (put_all ys x)\<lparr>lp := lp x + length ys + 1\<rparr>)"
  using assms
proof (induction ys arbitrary: x)
  case Nil
  then show ?case by (auto simp: lex_quote.simps [of line c x] is_quote_def Let_def)
next
  case (Cons y ys)
  then show ?case
    using lex_quote_step [of line x y c] Cons.IH [of "(put_ch y x)\<lparr>lp := Suc (lp x)\<rparr>"] by auto
qed

lemma lex_word_ok:
  "line_at line (lp x) ys \<Longrightarrow>
   lex_word line x = Some ((put_all (takeWhile (\<lambda>d. \<not> word_end d) ys) x)\<lparr>lp := lp x + length (takeWhile (\<lambda>d. \<not> word_end d) ys)\<rparr>) \<and>
   line_at line (lp x + length (takeWhile (\<lambda>d. \<not> word_end d) ys)) (dropWhile (\<lambda>d. \<not> word_end d) ys)"
proof (induction ys arbitrary: x)
  case Nil
  then show ?case by (auto simp: lex_word.simps [of line x] Let_def word_end_def)
next
  case (Cons y ys)
  show ?case
  proof (cases "word_end y")
    case True
    then show ?thesis using Cons.prems by (simp add: lex_word.simps [of line x] Let_def)
  next
    case False
    then have "lex_word line x = lex_word line ((put_ch y x)\<lparr>lp := lp x + 1\<rparr>)"
      using Cons.prems by (simp add: lex_word.simps [of line x] Let_def)
    then show ?thesis using False Cons.IH [of "(put_ch y x)\<lparr>lp := lp x + 1\<rparr>"] Cons.prems by simp
  qed
qed

section \<open>Adding a token\<close>

definition add_tok :: "toktype \<Rightarrow> byte list \<Rightarrow> nat \<Rightarrow> lex \<Rightarrow> lex" where
  "add_tok ty w p x =
     (put_all (w @ [NULLCH]) x)\<lparr>tok := (tok x)(ntok x := tbindex x), toktyp := (toktyp x)(ntok x := ty),
        ntok := ntok x + 1, lp := p\<rparr>"

definition tok_bytes :: "(toktype \<times> byte list) list \<Rightarrow> byte list" where
  "tok_bytes ts = concat (map (\<lambda>t. snd t @ [NULLCH]) ts)"

text \<open>The output arrays hold the tokens \<open>ts\<close>.\<close>

definition toks_at :: "lex \<Rightarrow> (toktype \<times> byte list) list \<Rightarrow> bool" where
  "toks_at x ts \<longleftrightarrow>
     ntok x = length ts \<and> tbindex x = length (tok_bytes ts) \<and> bytes_at (tokbuf x) 0 (tok_bytes ts) \<and>
     (\<forall>i < length ts. tok x i = length (tok_bytes (take i ts)) \<and> toktyp x i = fst (ts ! i))"

lemma tok_bytes_snoc [simp]: "tok_bytes (ts @ [t]) = tok_bytes ts @ snd t @ [NULLCH]"
  by (simp add: tok_bytes_def)

lemma toks_at_add:
  assumes "toks_at x ts"
  shows "toks_at (add_tok ty w p x) (ts @ [(ty, w)])"
proof -
  note b = put_all_buf [of "w @ [NULLCH]" x]
  have "bytes_at (tokbuf (put_all (w @ [NULLCH]) x)) 0 (tok_bytes ts)"
    by (rule bytes_at_cong) (use assms b in \<open>auto simp: toks_at_def writes_def\<close>)
  then show ?thesis using assms b
    by (auto simp: toks_at_def add_tok_def bytes_at_append nth_append less_Suc_eq)
qed

text \<open>Nothing is written at or beyond byte \<open>n\<close> of \<^verbatim>\<open>tokbuf\<close> and beyond the last entry of the other arrays.\<close>

definition within :: "lex \<Rightarrow> lex \<Rightarrow> nat \<Rightarrow> bool" where
  "within x x' n \<longleftrightarrow>
     (\<forall>a \<ge> n. tokbuf x' a = tokbuf x a) \<and> (\<forall>i \<ge> SHELL_MAXTOK. tok x' i = tok x i \<and> toktyp x' i = toktyp x i)"

lemma within_trans: "within x y n \<Longrightarrow> within y z k \<Longrightarrow> n \<le> j \<Longrightarrow> k \<le> j \<Longrightarrow> within x z j"
  by (auto simp: within_def)

lemma within_add:
  "ntok x < SHELL_MAXTOK \<Longrightarrow> within x (add_tok ty w p x) (tbindex x + length w + 1)"
  using put_all_buf [of "w @ [NULLCH]" x] by (auto simp: within_def add_tok_def writes_def)

lemma within_put:
  "ntok x < SHELL_MAXTOK \<Longrightarrow>
   within x ((put_all w x)\<lparr>tok := (tok x)(ntok x := t), toktyp := (toktyp x)(ntok x := ty), lp := p\<rparr>) (tbindex x + length w)"
  using put_all_buf [of w x] by (auto simp: within_def writes_def)

section \<open>The analyser computes the reference tokens\<close>

definition lex_result :: "bmem \<Rightarrow> lex \<Rightarrow> (toktype \<times> byte list) list \<Rightarrow> (toktype \<times> byte list) list option \<Rightarrow> nat \<Rightarrow> bool" where
  "lex_result line x ts r n \<longleftrightarrow>
     (\<exists>x'. within x x' n \<and>
        (case r of
           None \<Rightarrow> lexan_loop line x = Some (SYSERR, x')
         | Some us \<Rightarrow> lexan_loop line x = Some (int (length ts + length us), x') \<and> toks_at x' (ts @ us) \<and>
             tlen x' = length (tok_bytes (ts @ us))))"

lemma lex_result_step:
  assumes "lexan_loop line x = lexan_loop line y" "within x y k" "k \<le> n"
    "lex_result line y (ts @ [t]) r j" "j \<le> n"
  shows "lex_result line x ts (map_option (Cons t) r) n"
proof -
  obtain y' where y: "within y y' j" "case r of None \<Rightarrow> lexan_loop line y = Some (SYSERR, y')
     | Some us \<Rightarrow> lexan_loop line y = Some (int (length (ts @ [t]) + length us), y') \<and> toks_at y' ((ts @ [t]) @ us) \<and>
         tlen y' = length (tok_bytes ((ts @ [t]) @ us))"
    using assms(4) unfolding lex_result_def by blast
  have "within x y' n" using within_trans [OF assms(2) y(1)] assms(3,5) by blast
  then show ?thesis using y(2) assms(1) unfolding lex_result_def by (intro exI [of _ y']) (auto split: option.splits)
qed

text \<open>One iteration of the main loop, for each kind of token.\<close>

abbreviation (input) skipped :: "byte list \<Rightarrow> nat" where
  "skipped xs \<equiv> length (takeWhile is_blank xs)"

lemma lexan_stop: "line_at line (lp x) [] \<Longrightarrow> lexan_loop line x = Some (int (ntok x), x\<lparr>tlen := tbindex x\<rparr>)"
  by (auto simp: lexan_loop.simps [of line x])

lemma lexan_full:
  "line_at line (lp x) xs \<Longrightarrow> xs \<noteq> [] \<Longrightarrow> ntok x \<ge> SHELL_MAXTOK \<Longrightarrow> lexan_loop line x = Some (SYSERR, x)"
  by (cases xs) (auto simp: lexan_loop.simps [of line x])

lemma lexan_blanks:
  assumes "line_at line (lp x) xs" "xs \<noteq> []" "ntok x < SHELL_MAXTOK" "dropWhile is_blank xs = []"
  shows "lexan_loop line x = Some (int (ntok x), x\<lparr>lp := lp x + skipped xs, tlen := tbindex x\<rparr>)"
  using assms lex_skip_ok [OF assms(1)] by (cases xs) (auto simp: lexan_loop.simps [of line x] Let_def)

lemma lexan_op:
  assumes "line_at line (lp x) xs" "ntok x < SHELL_MAXTOK" "dropWhile is_blank xs = c # ys" "op_type c = Some ty"
  shows "lexan_loop line x = lexan_loop line (add_tok ty [c] (lp x + skipped xs + 1) x)"
proof -
  have c: "line (lp x + skipped xs) = c" "c \<noteq> NULLCH" "c \<noteq> SH_NEWLINE" "lex_skip line (lp x) = Some (lp x + skipped xs)"
    using lex_skip_ok [OF assms(1)] assms(3) by auto
  have "xs \<noteq> []" using assms(3) by auto
  then have h: "line (lp x) \<noteq> NULLCH" "line (lp x) \<noteq> SH_NEWLINE" using assms(1) by (cases xs; auto)+
  have "lex_op ty c (x\<lparr>lp := lp x + skipped xs, tok := (tok x)(ntok x := tbindex x)\<rparr>) =
      add_tok ty [c] (lp x + skipped xs + 1) x"
    by (simp add: lex_op_def add_tok_def put_ch_def Let_def)
  then show ?thesis using c h assms(2,4)
    by (auto simp: lexan_loop.simps [of line x] Let_def op_type_def split: if_splits)
qed

lemma lexan_token:
  assumes l: "line_at line (lp x) xs" and n: "ntok x < SHELL_MAXTOK" and d: "dropWhile is_blank xs = c # ys"
    and o: "op_type c = None"
  shows "lexan_loop line x =
    (let x3 = x\<lparr>tok := (tok x)(ntok x := tbindex x), toktyp := (toktyp x)(ntok x := SH_TOK_OTHER), lp := lp x + skipped xs + 1\<rparr> in
      if is_quote c then
        (case lex_quote line c x3 of None \<Rightarrow> None | Some (ch1, x4) \<Rightarrow>
           if ch1 \<noteq> c then Some (SYSERR, x4) else lexan_loop line ((put_ch NULLCH x4)\<lparr>ntok := ntok x4 + 1\<rparr>))
      else
        (case lex_word line (put_ch c x3) of None \<Rightarrow> None | Some x4 \<Rightarrow>
           if line (lp x4) = SH_SQUOTE \<or> line (lp x4) = SH_DQUOTE \<or> line (lp x4) = SH_LESS \<or> line (lp x4) = SH_GREATER
           then Some (SYSERR, x4)
           else lexan_loop line ((put_ch NULLCH x4)\<lparr>ntok := ntok x4 + 1\<rparr>)))"
    "line_at line (lp x + skipped xs + 1) ys"
proof -
  have c: "line (lp x + skipped xs) = c" "c \<noteq> NULLCH" "c \<noteq> SH_NEWLINE" "lex_skip line (lp x) = Some (lp x + skipped xs)"
    "line_at line (lp x + skipped xs + 1) ys"
    using lex_skip_ok [OF l] d by auto
  then show "line_at line (lp x + skipped xs + 1) ys" by simp
  have "xs \<noteq> []" using d by auto
  then have h: "line (lp x) \<noteq> NULLCH" "line (lp x) \<noteq> SH_NEWLINE" using l by (cases xs; auto)+
  have "c \<noteq> SH_AMPER" "c \<noteq> SH_LESS" "c \<noteq> SH_GREATER" using o by (auto simp: op_type_def split: if_splits)
  then show "lexan_loop line x =
    (let x3 = x\<lparr>tok := (tok x)(ntok x := tbindex x), toktyp := (toktyp x)(ntok x := SH_TOK_OTHER), lp := lp x + skipped xs + 1\<rparr> in
      if is_quote c then
        (case lex_quote line c x3 of None \<Rightarrow> None | Some (ch1, x4) \<Rightarrow>
           if ch1 \<noteq> c then Some (SYSERR, x4) else lexan_loop line ((put_ch NULLCH x4)\<lparr>ntok := ntok x4 + 1\<rparr>))
      else
        (case lex_word line (put_ch c x3) of None \<Rightarrow> None | Some x4 \<Rightarrow>
           if line (lp x4) = SH_SQUOTE \<or> line (lp x4) = SH_DQUOTE \<or> line (lp x4) = SH_LESS \<or> line (lp x4) = SH_GREATER
           then Some (SYSERR, x4)
           else lexan_loop line ((put_ch NULLCH x4)\<lparr>ntok := ntok x4 + 1\<rparr>)))"
    using c h n by (simp add: lexan_loop.simps [of line x] is_quote_def)
qed

lemma put_null_tok:
  "(put_ch NULLCH ((put_all w x)\<lparr>tok := (tok x)(ntok x := tbindex x), toktyp := (toktyp x)(ntok x := ty), lp := p\<rparr>))
     \<lparr>ntok := ntok x + 1\<rparr> = add_tok ty w p x"
  by (simp add: add_tok_def put_all_append)

lemma lexan_quote:
  assumes l: "line_at line (lp x) xs" and n: "ntok x < SHELL_MAXTOK" and d: "dropWhile is_blank xs = c # ys"
    and q: "is_quote c"
  shows "c \<in> set ys \<Longrightarrow> lexan_loop line x = lexan_loop line (add_tok SH_TOK_OTHER (takeWhile (\<lambda>d. d \<noteq> c) ys)
      (lp x + skipped xs + length (takeWhile (\<lambda>d. d \<noteq> c) ys) + 2) x) \<and>
      line_at line (lp x + skipped xs + length (takeWhile (\<lambda>d. d \<noteq> c) ys) + 2) (tl (dropWhile (\<lambda>d. d \<noteq> c) ys))"
    "c \<notin> set ys \<Longrightarrow> \<exists>x'. lexan_loop line x = Some (SYSERR, x') \<and> within x x' (tbindex x + length ys)"
proof -
  have o: "op_type c = None" using q by (auto simp: is_quote_def op_type_def)
  note t = lexan_token [OF l n d o]
  let ?x = "x\<lparr>tok := (tok x)(ntok x := tbindex x), toktyp := (toktyp x)(ntok x := SH_TOK_OTHER), lp := lp x + skipped xs + 1\<rparr>"
  have l3: "line_at line (lp ?x) ys" using t(2) by simp
  show "c \<in> set ys \<Longrightarrow> lexan_loop line x = lexan_loop line (add_tok SH_TOK_OTHER (takeWhile (\<lambda>d. d \<noteq> c) ys)
      (lp x + skipped xs + length (takeWhile (\<lambda>d. d \<noteq> c) ys) + 2) x) \<and>
      line_at line (lp x + skipped xs + length (takeWhile (\<lambda>d. d \<noteq> c) ys) + 2) (tl (dropWhile (\<lambda>d. d \<noteq> c) ys))"
    using lex_quote_closed [OF l3] t(1) q put_null_tok by simp
  show "c \<notin> set ys \<Longrightarrow> \<exists>x'. lexan_loop line x = Some (SYSERR, x') \<and> within x x' (tbindex x + length ys)"
    using lex_quote_open [OF l3 _ q] t(1) q within_put [OF n, where w = ys] by auto
qed

lemma lexan_word:
  assumes l: "line_at line (lp x) xs" and n: "ntok x < SHELL_MAXTOK" and d: "dropWhile is_blank xs = c # ys"
    and o: "op_type c = None" "\<not> is_quote c"
    and w: "w = takeWhile (\<lambda>d. \<not> word_end d) ys" and z: "zs = dropWhile (\<lambda>d. \<not> word_end d) ys"
  shows "zs \<noteq> [] \<and> (is_quote (hd zs) \<or> hd zs = SH_LESS \<or> hd zs = SH_GREATER) \<Longrightarrow>
      \<exists>x'. lexan_loop line x = Some (SYSERR, x') \<and> within x x' (tbindex x + length ys + 1)"
    "\<not> (zs \<noteq> [] \<and> (is_quote (hd zs) \<or> hd zs = SH_LESS \<or> hd zs = SH_GREATER)) \<Longrightarrow>
      lexan_loop line x = lexan_loop line (add_tok SH_TOK_OTHER (c # w) (lp x + skipped xs + length w + 1) x) \<and>
      line_at line (lp x + skipped xs + length w + 1) zs"
proof -
  note t = lexan_token [OF l n d o(1)]
  let ?x = "x\<lparr>tok := (tok x)(ntok x := tbindex x), toktyp := (toktyp x)(ntok x := SH_TOK_OTHER), lp := lp x + skipped xs + 1\<rparr>"
  have l3: "line_at line (lp (put_ch c ?x)) ys" using t(2) by simp
  let ?p = "lp x + skipped xs + length w + 1"
  let ?x4 = "(put_all (c # w) x)\<lparr>tok := (tok x)(ntok x := tbindex x), toktyp := (toktyp x)(ntok x := SH_TOK_OTHER), lp := ?p\<rparr>"
  have lw: "lex_word line (put_ch c ?x) = Some ?x4" "line_at line ?p zs"
    using lex_word_ok [OF l3] by (simp_all add: w z)
  have h: "zs \<noteq> [] \<Longrightarrow> line ?p = hd zs" "zs = [] \<Longrightarrow> line ?p = NULLCH \<or> line ?p = SH_NEWLINE"
    using lw(2) by (cases zs; simp)+
  have len: "length w \<le> length ys" unfolding w by (rule length_takeWhile_le)
  show "zs \<noteq> [] \<and> (is_quote (hd zs) \<or> hd zs = SH_LESS \<or> hd zs = SH_GREATER) \<Longrightarrow>
      \<exists>x'. lexan_loop line x = Some (SYSERR, x') \<and> within x x' (tbindex x + length ys + 1)"
    using t(1) o lw(1) h(1) len
      within_put [OF n, where w = "c # w" and t = "tbindex x" and ty = SH_TOK_OTHER and p = ?p] by (auto simp: within_def is_quote_def)
  show "\<not> (zs \<noteq> [] \<and> (is_quote (hd zs) \<or> hd zs = SH_LESS \<or> hd zs = SH_GREATER)) \<Longrightarrow>
      lexan_loop line x = lexan_loop line (add_tok SH_TOK_OTHER (c # w) ?p x) \<and> line_at line ?p zs"
    using t(1) o lw h put_null_tok [where w = "c # w" and x = x and ty = SH_TOK_OTHER and p = ?p] by (cases zs) (auto simp: is_quote_def)
qed

lemma within_refl [simp]: "within x (x\<lparr>lp := p, tlen := t\<rparr>) n" "within x x n" "within x (x\<lparr>tlen := t\<rparr>) n"
  by (simp_all add: within_def)

lemma toks_at_upd [simp]: "toks_at (x\<lparr>lp := p, tlen := t\<rparr>) ts = toks_at x ts" "toks_at (x\<lparr>tlen := t\<rparr>) ts = toks_at x ts"
  by (simp_all add: toks_at_def)

lemma add_tok_fields [simp]: "lp (add_tok ty w p x) = p" "tbindex (add_tok ty w p x) = tbindex x + length w + 1"
  by (simp_all add: add_tok_def)

lemma lex_result_none: "lexan_loop line x = Some (SYSERR, x') \<Longrightarrow> within x x' k \<Longrightarrow> k \<le> n \<Longrightarrow> lex_result line x ts None n"
  unfolding lex_result_def using within_trans [of x x' k x' k n] by (auto simp: within_def)

lemma lex_result_end:
  assumes "lexan_loop line x = Some (int (ntok x), x\<lparr>lp := p, tlen := tbindex x\<rparr>)" "toks_at x ts"
  shows "lex_result line x ts (Some []) n"
  unfolding lex_result_def
  by (rule exI [of _ "x\<lparr>lp := p, tlen := tbindex x\<rparr>"]) (use assms in \<open>simp add: toks_at_def\<close>)

lemma lexan_loop_result:
  assumes "line_at line (lp x) xs" "toks_at x ts"
  shows "lex_result line x ts (lex_spec (length ts) xs) (tbindex x + length xs + (SHELL_MAXTOK - length ts))"
  using assms
proof (induction xs arbitrary: x ts rule: length_induct)
  case (1 xs)
  let ?n = "tbindex x + length xs + (SHELL_MAXTOK - length ts)" and ?k = "length ts"
  have l: "line_at line (lp x) xs" and nt: "ntok x = ?k" "tbindex x = length (tok_bytes ts)"
    using "1.prems" by (simp_all add: toks_at_def)
  have step: "lex_result line x ts (map_option (Cons (ty, w)) (lex_spec (Suc ?k) zs)) ?n"
    if e: "lexan_loop line x = lexan_loop line (add_tok ty w p x)" and zs: "line_at line p zs"
      and len: "length zs + length w + 1 \<le> length xs + 1" "length zs < length xs" and k: "?k < SHELL_MAXTOK" for ty w p zs
  proof (rule lex_result_step [OF e within_add])
    show "lex_result line (add_tok ty w p x) (ts @ [(ty, w)]) (lex_spec (Suc ?k) zs)
      (tbindex (add_tok ty w p x) + length zs + (SHELL_MAXTOK - length (ts @ [(ty, w)])))"
      using "1.IH" len(2) zs toks_at_add [OF "1.prems"(2)] by (metis add_tok_fields(1) length_append_singleton)
  qed (use k len nt in simp_all)
  show ?case
  proof (cases "xs = [] \<or> ?k \<ge> SHELL_MAXTOK")
    case True
    then show ?thesis
    proof (cases "xs = []")
      case True
      then show ?thesis using lex_result_end [of line x "lp x", OF _ "1.prems"(2)] lexan_stop l by (simp add: lex_spec.simps)
    next
      case False
      then show ?thesis using lex_result_none [OF lexan_full [OF l], of ?n ?n ts] nt True by (simp add: lex_spec.simps)
    qed
  next
    case F: False
    then have n: "ntok x < SHELL_MAXTOK" and k: "?k < SHELL_MAXTOK" using nt by auto
    show ?thesis
    proof (cases "dropWhile is_blank xs")
      case Nil
      then show ?thesis using lex_result_end [OF lexan_blanks [OF l _ n Nil] "1.prems"(2)] F
        by (simp add: lex_spec.simps [of ?k xs] del: dropWhile_eq_Nil_conv)
    next
      case (Cons c ys)
      note d = Cons
      have ly: "line_at line (lp x + skipped xs + 1) ys" using lex_skip_ok [OF l] d by simp
      have lys: "length ys < length xs" by (rule dropWhile_length [OF d])
      show ?thesis
      proof (cases "op_type c")
        case (Some ty)
        then show ?thesis using step [OF lexan_op [OF l n d Some] _ _ lys k] ly lys F d
          by (simp add: lex_spec.simps [of ?k xs])
      next
        case o: None
        show ?thesis
        proof (cases "is_quote c")
          case q: True
          note lq = lexan_quote [OF l n d q]
          show ?thesis
          proof (cases "c \<in> set ys")
            case True
            then obtain zs where z: "dropWhile (\<lambda>d. d \<noteq> c) ys = c # zs"
              using hd_dropWhile [of "\<lambda>d. d \<noteq> c" ys] by (cases "dropWhile (\<lambda>d. d \<noteq> c) ys") (auto simp: dropWhile_eq_Nil_conv)
            have "length (takeWhile (\<lambda>d. d \<noteq> c) ys) + length (c # zs) = length ys"
              by (metis length_append takeWhile_dropWhile_id z)
            then show ?thesis using step lq(1) [OF True] z lys F d o q k by (simp add: lex_spec.simps [of ?k xs])
          next
            case False
            then obtain x' where "lexan_loop line x = Some (SYSERR, x')" "within x x' (tbindex x + length ys)"
              using lq(2) by blast
            moreover have "dropWhile (\<lambda>d. d \<noteq> c) ys = []" using False by (auto simp: dropWhile_eq_Nil_conv)
            ultimately show ?thesis using lex_result_none [of line x x' "tbindex x + length ys" ?n ts] lys F d o q
              by (simp add: lex_spec.simps [of ?k xs] del: dropWhile_eq_Nil_conv)
          qed
        next
          case nq: False
          let ?w = "takeWhile (\<lambda>d. \<not> word_end d) ys" and ?zs = "dropWhile (\<lambda>d. \<not> word_end d) ys"
          note lw = lexan_word [OF l n d o nq refl refl]
          have "length ?w + length ?zs = length ys" by (metis length_append takeWhile_dropWhile_id)
          then have len: "length ?zs + length (c # ?w) + 1 \<le> length xs + 1" "length ?zs < length xs" using lys by simp_all
          show ?thesis
          proof (cases "?zs \<noteq> [] \<and> (is_quote (hd ?zs) \<or> hd ?zs = SH_LESS \<or> hd ?zs = SH_GREATER)")
            case True
            then obtain x' where "lexan_loop line x = Some (SYSERR, x')" "within x x' (tbindex x + length ys + 1)"
              using lw(1) by blast
            then show ?thesis using lex_result_none [of line x x' "tbindex x + length ys + 1" ?n ts] lys F d o nq True
              by (simp add: lex_spec.simps [of ?k xs] Let_def)
          next
            case False
            show ?thesis using step [OF conjunct1 [OF lw(2) [OF False]] conjunct2 [OF lw(2) [OF False]] len k] False F d o nq
              by (auto simp: lex_spec.simps [of ?k xs] Let_def)
          qed
        qed
      qed
    qed
  qed
qed

lemma lex_spec_cases:
  assumes "lex_spec k xs = Some ts"
  obtains "ts = []"
  | ty w us zs where "k < SHELL_MAXTOK" "ts = (ty, w) # us" "lex_spec (Suc k) zs = Some us"
      "set w \<subseteq> set xs" "set zs \<subseteq> set xs" "length zs < length xs"
proof (cases "xs = [] \<or> k \<ge> SHELL_MAXTOK \<or> dropWhile is_blank xs = []")
  case True
  then have "ts = []" using assms
    by (subst (asm) lex_spec.simps) (auto simp del: dropWhile_eq_Nil_conv split: if_splits)
  then show thesis by (rule that(1))
next
  case False
  then obtain c ys where d: "dropWhile is_blank xs = c # ys" by (cases "dropWhile is_blank xs") auto
  have sub: "set (c # ys) \<subseteq> set xs" "length ys < length xs"
    using set_dropWhileD [of _ is_blank xs] dropWhile_length [OF d] by (auto simp: d [symmetric])
  have k: "k < SHELL_MAXTOK" "xs \<noteq> []" using False by auto
  note e = assms [unfolded lex_spec.simps [of k xs]]
  show thesis
  proof (cases "op_type c")
    case (Some ty)
    then show thesis using e d k sub that(2) [of ty "[c]" _ ys] by auto
  next
    case o: None
    show thesis
    proof (cases "is_quote c")
      case True
      then obtain b zs us where z: "dropWhile (\<lambda>d. d \<noteq> c) ys = b # zs" "lex_spec (Suc k) zs = Some us"
        "ts = (SH_TOK_OTHER, takeWhile (\<lambda>d. d \<noteq> c) ys) # us"
        using e d k o by (auto split: list.splits)
      have "set zs \<subseteq> set ys" "length zs < length ys"
        using set_dropWhileD [of _ "\<lambda>d. d \<noteq> c" ys, unfolded z(1)] dropWhile_length [OF z(1)] by auto
      then show thesis using that(2) [OF k(1) z(3,2)] sub set_takeWhileD by fastforce
    next
      case False
      let ?zs = "dropWhile (\<lambda>d. \<not> word_end d) ys"
      obtain us where z: "lex_spec (Suc k) ?zs = Some us" "ts = (SH_TOK_OTHER, c # takeWhile (\<lambda>d. \<not> word_end d) ys) # us"
        using e d k o False by (auto simp: Let_def split: if_splits)
      have "set ?zs \<subseteq> set ys" "length ?zs \<le> length ys" "set (takeWhile (\<lambda>d. \<not> word_end d) ys) \<subseteq> set ys"
        using set_dropWhileD [of _ "\<lambda>d. \<not> word_end d" ys] set_takeWhileD [of _ "\<lambda>d. \<not> word_end d" ys] length_dropWhile_le by auto
      then show thesis using that(2) [OF k(1) z(2,1)] sub by auto
    qed
  qed
qed

lemma lex_spec_tokens:
  "lex_spec k xs = Some ts \<Longrightarrow> NULLCH \<notin> set xs \<Longrightarrow> \<forall>t \<in> set ts. NULLCH \<notin> set (snd t)"
proof (induction xs arbitrary: k ts rule: length_induct)
  case (1 xs)
  from "1.prems"(1) show ?case
  proof (cases rule: lex_spec_cases)
    case (2 ty w us zs)
    then have "\<forall>t \<in> set us. NULLCH \<notin> set (snd t)" using "1.IH" "1.prems"(2) by blast
    then show ?thesis using 2(2,4) "1.prems"(2) by auto
  qed simp
qed

lemma lex_spec_length: "lex_spec k xs = Some ts \<Longrightarrow> k \<le> SHELL_MAXTOK \<Longrightarrow> k + length ts \<le> SHELL_MAXTOK"
proof (induction xs arbitrary: k ts rule: length_induct)
  case (1 xs)
  from "1.prems"(1) show ?case
  proof (cases rule: lex_spec_cases)
    case (2 ty w us zs)
    then have "Suc k + length us \<le> SHELL_MAXTOK" using "1.IH" by (metis Suc_leI)
    then show ?thesis using 2(2) by simp
  qed (use "1.prems"(2) in simp)
qed

lemma toks_at_cstr:
  assumes "toks_at x ts" "i < length ts" "NULLCH \<notin> set (snd (ts ! i))"
  shows "cstr (tokbuf x) (tok x i) (snd (ts ! i))" "toktyp x i = fst (ts ! i)"
proof -
  have "tok_bytes ts = tok_bytes (take i ts) @ (snd (ts ! i) @ [NULLCH]) @ tok_bytes (drop (Suc i) ts)"
    unfolding tok_bytes_def using id_take_nth_drop [OF assms(2)]
    by (metis (no_types, lifting) append.assoc concat.simps(2) concat_append list.simps(9) map_append)
  then show "cstr (tokbuf x) (tok x i) (snd (ts ! i))"
    using assms by (simp add: toks_at_def bytes_at_append cstr_bytes)
  show "toktyp x i = fst (ts ! i)" using assms by (simp add: toks_at_def)
qed

lemma line_at_nonzero: "line_at line p xs \<Longrightarrow> NULLCH \<notin> set xs"
  by (induction xs arbitrary: p) auto

theorem lexan_result:
  assumes "line_at line 0 xs"
  obtains x' where "within x x' (length xs + SHELL_MAXTOK)"
    "lex_spec 0 xs = None \<Longrightarrow> lexan line x = Some (SYSERR, x')"
    "\<And>ts. lex_spec 0 xs = Some ts \<Longrightarrow> lexan line x = Some (int (length ts), x') \<and> length ts \<le> SHELL_MAXTOK \<and>
       tlen x' = length (tok_bytes ts) \<and> toks_at x' ts \<and>
       (\<forall>i < length ts. toktyp x' i = fst (ts ! i) \<and> cstr (tokbuf x') (tok x' i) (snd (ts ! i)))"
proof -
  let ?x = "x\<lparr>ntok := 0, lp := 0, tbindex := 0\<rparr>"
  have "toks_at ?x []" by (simp add: toks_at_def tok_bytes_def)
  from lexan_loop_result [OF _ this, of line xs] assms
  obtain x' where x': "within ?x x' (length xs + SHELL_MAXTOK)"
    "case lex_spec 0 xs of None \<Rightarrow> lexan line x = Some (SYSERR, x')
     | Some us \<Rightarrow> lexan line x = Some (int (length us), x') \<and> toks_at x' us \<and> tlen x' = length (tok_bytes us)"
    by (force simp: lex_result_def lexan_def split: option.splits)
  have w: "within x x' (length xs + SHELL_MAXTOK)" using x'(1) by (simp add: within_def)
  show thesis
  proof (rule that [OF w])
    show "lexan line x = Some (SYSERR, x')" if "lex_spec 0 xs = None" using x'(2) that by simp
    show "lexan line x = Some (int (length ts), x') \<and> length ts \<le> SHELL_MAXTOK \<and> tlen x' = length (tok_bytes ts) \<and> toks_at x' ts \<and>
       (\<forall>i < length ts. toktyp x' i = fst (ts ! i) \<and> cstr (tokbuf x') (tok x' i) (snd (ts ! i)))"
      if "lex_spec 0 xs = Some ts" for ts
      using x'(2) that lex_spec_length [OF that] lex_spec_tokens [OF that line_at_nonzero [OF assms]] toks_at_cstr [of x' ts]
      by simp
  qed
qed

end
