(* ===== verification/Shell.thy ===== *)
theory Shell
  imports Shell_Lexan
begin

text \<open>
  The command interpreter of \<^verbatim>\<open>shell/shell.c\<close>, from a line that has been read to what is to be done with it:
  lexical analysis, background mark, redirection, look-up in the command table, and the checks for built-in
  commands. A pointer to a file name is the index in \<^verbatim>\<open>tokbuf\<close>, with \<^term>\<open>None\<close> for \<^verbatim>\<open>NULL\<close>. The functions of
  the table and the input and output of the shell are outside the model.
\<close>

section \<open>The command table\<close>

definition cmdtab :: "(string \<times> bool) list" where
  "cmdtab =
     [(''argecho'', True), (''arp'', False), (''cat'', False), (''clear'', True), (''date'', False), (''devdump'', False),
      (''echo'', False), (''exit'', True), (''help'', False), (''kill'', True), (''memdump'', False), (''memstat'', False),
      (''netinfo'', False), (''ping'', False), (''ps'', False), (''sleep'', False), (''udp'', False), (''udpecho'', False),
      (''udpeserver'', False), (''uptime'', False), (''?'', False)]"

definition ncmd :: nat where
  "ncmd = length cmdtab"

section \<open>Operations\<close>

record cmdline =
  c_ntok :: nat
  c_tlen :: nat
  backgnd :: bool
  inname :: "nat option"
  outname :: "nat option"

definition check_background :: "lex \<Rightarrow> nat \<Rightarrow> cmdline" where
  "check_background x n =
     (if toktyp x (n - 1) = SH_TOK_AMPER
      then \<lparr>c_ntok = n - 1, c_tlen = tlen x - 2, backgnd = True, inname = None, outname = None\<rparr>
      else \<lparr>c_ntok = n, c_tlen = tlen x, backgnd = False, inname = None, outname = None\<rparr>)"

definition is_redirect :: "lex \<Rightarrow> cmdline \<Rightarrow> bool" where
  "is_redirect x c \<longleftrightarrow>
     c_ntok c \<ge> 3 \<and> (toktyp x (c_ntok c - 2) = SH_TOK_LESS \<or> toktyp x (c_ntok c - 2) = SH_TOK_GREATER)"

definition drop_redirect :: "lex \<Rightarrow> cmdline \<Rightarrow> cmdline" where
  "drop_redirect x c = c\<lparr>c_ntok := c_ntok c - 2, c_tlen := tok x (c_ntok c - 2)\<rparr>"

definition redirect1 :: "lex \<Rightarrow> cmdline \<Rightarrow> cmdline option" where
  "redirect1 x c =
     (if is_redirect x c then
        if toktyp x (c_ntok c - 1) \<noteq> SH_TOK_OTHER then None
        else if toktyp x (c_ntok c - 2) = SH_TOK_LESS
        then Some (drop_redirect x (c\<lparr>inname := Some (tok x (c_ntok c - 1))\<rparr>))
        else Some (drop_redirect x (c\<lparr>outname := Some (tok x (c_ntok c - 1))\<rparr>))
      else Some c)"

definition redirect2 :: "lex \<Rightarrow> cmdline \<Rightarrow> cmdline option" where
  "redirect2 x c =
     (if is_redirect x c then
        if toktyp x (c_ntok c - 1) \<noteq> SH_TOK_OTHER then None
        else if toktyp x (c_ntok c - 2) = SH_TOK_LESS then
          (if inname c \<noteq> None then None
           else Some (drop_redirect x (c\<lparr>inname := Some (tok x (c_ntok c - 1))\<rparr>)))
        else
          (if outname c \<noteq> None then None
           else Some (drop_redirect x (c\<lparr>outname := Some (tok x (c_ntok c - 1))\<rparr>)))
      else Some c)"

definition all_other :: "lex \<Rightarrow> nat \<Rightarrow> bool" where
  "all_other x n \<longleftrightarrow> (\<forall>i \<in> set [0..<n]. toktyp x i = SH_TOK_OTHER)"

fun name_match :: "byte list \<Rightarrow> bmem \<Rightarrow> nat \<Rightarrow> bool" where
  "name_match [] m cmp \<longleftrightarrow> m cmp = NULLCH"
| "name_match (c # src) m cmp \<longleftrightarrow> m cmp = c \<and> name_match src m (cmp + 1)"

fun lookup_loop :: "(string \<times> bool) list \<Rightarrow> nat \<Rightarrow> bmem \<Rightarrow> nat" where
  "lookup_loop [] j m = j"
| "lookup_loop (e # es) j m = (if name_match (str (fst e)) m 0 then j else lookup_loop es (j + 1) m)"

datatype sh_action =
    Sh_blank
  | Sh_syntax
  | Sh_notfound
  | Sh_bgerr
  | Sh_builtin nat "nat list"
  | Sh_spawn nat cmdline

definition shell_line :: "bmem \<Rightarrow> lex \<Rightarrow> sh_action option" where
  "shell_line buf x0 =
     (case lexan buf x0 of
        None \<Rightarrow> None
      | Some (n, x) \<Rightarrow>
          if n = SYSERR then Some Sh_syntax
          else if n = 0 then Some Sh_blank
          else
            case redirect1 x (check_background x (nat n)) of
              None \<Rightarrow> Some Sh_syntax
            | Some c1 \<Rightarrow>
                (case redirect2 x c1 of
                   None \<Rightarrow> Some Sh_syntax
                 | Some c \<Rightarrow>
                     if c_ntok c = 0 \<or> \<not> all_other x (c_ntok c) then Some Sh_syntax
                     else
                       let j = lookup_loop cmdtab 0 (tokbuf x) in
                       if j \<ge> ncmd then Some Sh_notfound
                       else if snd (cmdtab ! j) then
                         (if inname c \<noteq> None \<or> outname c \<noteq> None \<or> backgnd c then Some Sh_bgerr
                          else Some (Sh_builtin j (map (tok x) [0..<c_ntok c])))
                       else Some (Sh_spawn j c)))"

section \<open>Look-up\<close>

lemma name_match_cstr: "cstr m p w \<Longrightarrow> NULLCH \<notin> set n \<Longrightarrow> name_match n m p \<longleftrightarrow> n = w"
proof (induction n arbitrary: p w)
  case Nil
  then show ?case by (cases w) auto
next
  case (Cons c n)
  then show ?case by (cases w) auto
qed

lemma cmdtab_names: "\<forall>e \<in> set cmdtab. NULLCH \<notin> set (str (fst e))"
  by code_simp

lemma lookup_loop_ok:
  assumes "cstr m 0 w" "\<forall>e \<in> set es. NULLCH \<notin> set (str (fst e))"
  shows "lookup_loop es j m = j + length (takeWhile (\<lambda>e. str (fst e) \<noteq> w) es)"
  using assms(2) by (induction es arbitrary: j) (auto simp: name_match_cstr [OF assms(1)])

section \<open>Commands with arguments, redirection and background mark\<close>

text \<open>\<open>command_tokens ws rl bg\<close>: the tokens of a line with the words \<open>ws\<close>, the redirections \<open>rl\<close> and a
  final \<^verbatim>\<open>&\<close> if \<open>bg\<close>. The documented syntax has at most one redirection of each kind.\<close>

definition redir_tokens :: "(toktype \<times> byte list) \<Rightarrow> (toktype \<times> byte list) list" where
  "redir_tokens = (\<lambda>(ty, f). [(ty, if ty = SH_TOK_LESS then [SH_LESS] else [SH_GREATER]), (SH_TOK_OTHER, f)])"

definition command_tokens :: "byte list list \<Rightarrow> (toktype \<times> byte list) list \<Rightarrow> bool \<Rightarrow> (toktype \<times> byte list) list" where
  "command_tokens ws rl bg =
     map (Pair SH_TOK_OTHER) ws @ concat (map redir_tokens rl) @ (if bg then [(SH_TOK_AMPER, [SH_AMPER])] else [])"

definition redirs_ok :: "(toktype \<times> byte list) list \<Rightarrow> bool" where
  "redirs_ok rl \<longleftrightarrow> distinct (map fst rl) \<and> fst ` set rl \<subseteq> {SH_TOK_LESS, SH_TOK_GREATER}"

lemma redirs_cases:
  assumes "redirs_ok rl"
  obtains "rl = []" | f where "rl = [(SH_TOK_LESS, f)]" | f where "rl = [(SH_TOK_GREATER, f)]"
  | f g where "rl = [(SH_TOK_LESS, f), (SH_TOK_GREATER, g)]" | f g where "rl = [(SH_TOK_GREATER, g), (SH_TOK_LESS, f)]"
proof -
  have "length rl \<le> 2"
    using assms card_mono [of "{SH_TOK_LESS, SH_TOK_GREATER}" "set (map fst rl)"] distinct_card [of "map fst rl"]
    by (auto simp: redirs_ok_def)
  then consider "rl = []" | a where "rl = [a]" | a b where "rl = [a, b]"
    by (cases rl; cases "tl rl"; cases "tl (tl rl)") auto
  then show thesis
    by cases (use assms that in \<open>auto simp: redirs_ok_def\<close>)
qed

text \<open>The file a redirection of kind \<open>ty\<close> names, as an index into the token buffer.\<close>

fun redir_index :: "nat \<Rightarrow> (toktype \<times> byte list) list \<Rightarrow> toktype \<Rightarrow> nat option" where
  "redir_index n [] ty = None"
| "redir_index n ((t, f) # rl) ty = (if t = ty then Some (n + 2) else redir_index (n + length f + 3) rl ty)"

lemma toks_nth:
  assumes "toks_at x (us @ t # vs)"
  shows "toktyp x (length us) = fst t" "tok x (length us) = length (tok_bytes us)"
  using assms by (simp_all add: toks_at_def nth_append)

lemma redir_step:
  assumes "toks_at x (us @ redir_tokens (ty, f) @ vs)" "us \<noteq> []" "ty \<in> {SH_TOK_LESS, SH_TOK_GREATER}" "c_ntok c = length us + 2"
  shows "is_redirect x c" "toktyp x (c_ntok c - 1) = SH_TOK_OTHER" "toktyp x (c_ntok c - 2) = ty"
    "tok x (c_ntok c - 1) = length (tok_bytes us) + 2" "tok x (c_ntok c - 2) = length (tok_bytes us)"
proof -
  let ?op = "(ty, if ty = SH_TOK_LESS then [SH_LESS] else [SH_GREATER])"
  have t: "toks_at x (us @ ?op # (SH_TOK_OTHER, f) # vs)" "toks_at x ((us @ [?op]) @ (SH_TOK_OTHER, f) # vs)"
    using assms(1) by (simp_all add: redir_tokens_def)
  have "c_ntok c \<ge> 3" using assms(2,4) by (cases us) auto
  then show "is_redirect x c" "toktyp x (c_ntok c - 1) = SH_TOK_OTHER" "toktyp x (c_ntok c - 2) = ty"
    "tok x (c_ntok c - 1) = length (tok_bytes us) + 2" "tok x (c_ntok c - 2) = length (tok_bytes us)"
    using toks_nth [OF t(1)] toks_nth [OF t(2)] assms(3,4) by (auto simp: is_redirect_def)
qed

lemma redir_none:
  assumes "toks_at x (map (Pair SH_TOK_OTHER) ws @ vs)" "c_ntok c = length ws"
  shows "\<not> is_redirect x c"
proof
  assume r: "is_redirect x c"
  then have "c_ntok c - 2 < length ws" using assms(2) by (auto simp: is_redirect_def)
  then have "toktyp x (c_ntok c - 2) = SH_TOK_OTHER" using assms(1) by (simp add: toks_at_def nth_append)
  then show False using r by (auto simp: is_redirect_def)
qed

lemma background_result:
  assumes "toks_at x (command_tokens ws rl bg)" "tlen x = length (tok_bytes (command_tokens ws rl bg))" "ws \<noteq> []" "redirs_ok rl"
  shows "check_background x (ntok x) = \<lparr>c_ntok = length ws + 2 * length rl,
    c_tlen = length (tok_bytes (command_tokens ws rl False)), backgnd = bg, inname = None, outname = None\<rparr>"
proof -
  have len: "length (concat (map redir_tokens rl)) = 2 * length rl"
    by (induction rl) (auto simp: redir_tokens_def)
  let ?us = "command_tokens ws rl False"
  have us: "length ?us = length ws + 2 * length rl" using len by (simp add: command_tokens_def)
  show ?thesis
  proof (cases bg)
    case True
    have e: "command_tokens ws rl bg = ?us @ [(SH_TOK_AMPER, [SH_AMPER])]" using True by (simp add: command_tokens_def)
    have "ntok x = Suc (length ?us)" using assms(1) unfolding e by (simp add: toks_at_def)
    then show ?thesis using toks_nth(1) [OF assms(1) [unfolded e]] assms(2) us True unfolding e by (simp add: check_background_def)
  next
    case False
    have n: "ntok x = length ?us" "?us \<noteq> []" using assms(1,3) False by (simp_all add: toks_at_def command_tokens_def)
    have "fst (last ?us) = SH_TOK_OTHER"
      using assms(3) by (cases rl rule: rev_cases) (auto simp: command_tokens_def last_map redir_tokens_def last_append)
    moreover have "toktyp x (ntok x - 1) = fst (last ?us)"
      using assms(1) n False by (simp add: toks_at_def last_conv_nth)
    ultimately show ?thesis using n(1) us assms(2) False by (simp add: check_background_def)
  qed
qed

lemma redir_result:
  assumes t: "toks_at x (command_tokens ws rl bg)" and l: "tlen x = length (tok_bytes (command_tokens ws rl bg))"
    and ws: "ws \<noteq> []" and rl: "redirs_ok rl"
  shows "\<exists>c1. redirect1 x (check_background x (ntok x)) = Some c1 \<and>
    redirect2 x c1 = Some \<lparr>c_ntok = length ws, c_tlen = length (tok_bytes (map (Pair SH_TOK_OTHER) ws)), backgnd = bg,
      inname = redir_index (length (tok_bytes (map (Pair SH_TOK_OTHER) ws))) rl SH_TOK_LESS,
      outname = redir_index (length (tok_bytes (map (Pair SH_TOK_OTHER) ws))) rl SH_TOK_GREATER\<rparr>"
proof -
  let ?W = "map (Pair SH_TOK_OTHER) ws"
  note bg = background_result [OF assms]
  have W: "?W \<noteq> []" using ws by simp
  have one: "(\<forall>c. c_ntok c = length ws + 2 \<longrightarrow> is_redirect x c) \<and> toktyp x (length ws + 1) = SH_TOK_OTHER \<and>
      toktyp x (length ws) = fst a \<and> tok x (length ws + 1) = length (tok_bytes ?W) + 2 \<and> tok x (length ws) = length (tok_bytes ?W)"
    if "toks_at x (?W @ redir_tokens a @ vs)" "fst a \<in> {SH_TOK_LESS, SH_TOK_GREATER}" for a vs
    using redir_step [of x ?W "fst a" "snd a" vs "\<lparr>c_ntok = length ws + 2, c_tlen = 0, backgnd = bg, inname = None, outname = None\<rparr>"]
      W that by (simp add: is_redirect_def)
  have two: "(\<forall>c. c_ntok c = length ws + 4 \<longrightarrow> is_redirect x c) \<and> toktyp x (length ws + 3) = SH_TOK_OTHER \<and>
      toktyp x (length ws + 2) = fst b \<and> tok x (length ws + 3) = length (tok_bytes ?W) + length (snd a) + 5 \<and>
      tok x (length ws + 2) = length (tok_bytes ?W) + length (snd a) + 3"
    if "toks_at x (?W @ redir_tokens a @ redir_tokens b @ vs)" "fst b \<in> {SH_TOK_LESS, SH_TOK_GREATER}" for a b vs
    using redir_step [of x "?W @ redir_tokens a" "fst b" "snd b" vs
        "\<lparr>c_ntok = length ws + 4, c_tlen = 0, backgnd = bg, inname = None, outname = None\<rparr>"] W that
    by (cases a) (simp add: redir_tokens_def tok_bytes_def is_redirect_def numeral_eq_Suc)
  have none: "\<not> is_redirect x c" if "c_ntok c = length ws" for c
    using redir_none [of x ws _ c] t that by (simp add: command_tokens_def)
  note cmds = redirect1_def redirect2_def drop_redirect_def bg
  let ?A = "if bg then [(SH_TOK_AMPER, [SH_AMPER])] else []"
  from rl show ?thesis
  proof (cases rule: redirs_cases)
    case 1
    then show ?thesis using none by (simp add: cmds command_tokens_def)
  next
    case (2 f)
    then show ?thesis using one [of "(SH_TOK_LESS, f)" ?A] t none by (simp add: cmds command_tokens_def)
  next
    case (3 f)
    then show ?thesis using one [of "(SH_TOK_GREATER, f)" ?A] t none by (simp add: cmds command_tokens_def)
  next
    case (4 f g)
    then show ?thesis
      using one [of "(SH_TOK_LESS, f)" "redir_tokens (SH_TOK_GREATER, g) @ ?A"] two [of "(SH_TOK_LESS, f)" "(SH_TOK_GREATER, g)" ?A] t
      by (simp add: cmds command_tokens_def numeral_eq_Suc)
  next
    case (5 f g)
    then show ?thesis
      using one [of "(SH_TOK_GREATER, g)" "redir_tokens (SH_TOK_LESS, f) @ ?A"] two [of "(SH_TOK_GREATER, g)" "(SH_TOK_LESS, f)" ?A] t
      by (simp add: cmds command_tokens_def numeral_eq_Suc)
  qed
qed

text \<open>What the documented syntax asks for: the command of that name, with its words as arguments.\<close>

definition run_command :: "byte list list \<Rightarrow> (toktype \<times> byte list) list \<Rightarrow> bool \<Rightarrow> sh_action" where
  "run_command ws rl bg =
     (let j = length (takeWhile (\<lambda>e. str (fst e) \<noteq> hd ws) cmdtab);
          n = length (tok_bytes (map (Pair SH_TOK_OTHER) ws))
      in if \<not> (\<exists>e \<in> set cmdtab. str (fst e) = hd ws) then Sh_notfound
         else if snd (cmdtab ! j) then
           if rl \<noteq> [] \<or> bg then Sh_bgerr
           else Sh_builtin j (map (\<lambda>i. length (tok_bytes (map (Pair SH_TOK_OTHER) (take i ws)))) [0..<length ws])
         else Sh_spawn j \<lparr>c_ntok = length ws, c_tlen = n, backgnd = bg,
                inname = redir_index n rl SH_TOK_LESS, outname = redir_index n rl SH_TOK_GREATER\<rparr>)"

lemma takeWhile_all_length: "length (takeWhile P xs) \<ge> length xs \<longleftrightarrow> (\<forall>x \<in> set xs. P x)"
  by (metis length_takeWhile_le le_antisym nth_length_takeWhile set_takeWhileD takeWhile_eq_all_conv linorder_not_le takeWhile_eq_take take_all_iff)

lemma redir_index_None:
  assumes "redirs_ok rl"
  shows "redir_index n rl SH_TOK_LESS = None \<and> redir_index n rl SH_TOK_GREATER = None \<longleftrightarrow> rl = []"
  using assms by (cases rule: redirs_cases) auto

theorem shell_line_command:
  assumes "line_at buf 0 xs" "lex_spec 0 xs = Some (command_tokens ws rl bg)" "ws \<noteq> []" "redirs_ok rl"
  shows "shell_line buf x = Some (run_command ws rl bg)"
proof -
  let ?ts = "command_tokens ws rl bg" and ?W = "map (Pair SH_TOK_OTHER) ws"
  obtain x' where x': "lexan buf x = Some (int (length ?ts), x')" "tlen x' = length (tok_bytes ?ts)" "toks_at x' ?ts"
    "\<forall>i < length ?ts. toktyp x' i = fst (?ts ! i) \<and> cstr (tokbuf x') (tok x' i) (snd (?ts ! i))"
    by (rule lexan_result [OF assms(1), of x]) (use assms(2) in blast)
  have n: "ntok x' = length ?ts" using x'(3) by (simp add: toks_at_def)
  obtain v vs where ws: "ws = v # vs" using assms(3) by (cases ws) auto
  have tok: "tok x' i = length (tok_bytes (map (Pair SH_TOK_OTHER) (take i ws)))" if "i < length ws" for i
    using x'(3) that by (simp add: toks_at_def command_tokens_def take_map)
  have c0: "cstr (tokbuf x') 0 (hd ws)" using x'(4) tok [of 0] ws by (auto simp: command_tokens_def tok_bytes_def)
  let ?j = "length (takeWhile (\<lambda>e. str (fst e) \<noteq> hd ws) cmdtab)"
  have j: "lookup_loop cmdtab 0 (tokbuf x') = ?j" using lookup_loop_ok [OF c0 cmdtab_names] by simp
  have found: "?j \<ge> ncmd \<longleftrightarrow> \<not> (\<exists>e \<in> set cmdtab. str (fst e) = hd ws)"
    unfolding ncmd_def takeWhile_all_length by blast
  obtain c1 where c1: "redirect1 x' (check_background x' (length ?ts)) = Some c1"
    "redirect2 x' c1 = Some \<lparr>c_ntok = length ws, c_tlen = length (tok_bytes ?W), backgnd = bg,
       inname = redir_index (length (tok_bytes ?W)) rl SH_TOK_LESS, outname = redir_index (length (tok_bytes ?W)) rl SH_TOK_GREATER\<rparr>"
    using redir_result [OF x'(3,2) assms(3,4)] n by auto
  have o: "all_other x' (length ws)" using x'(3) by (auto simp: all_other_def toks_at_def command_tokens_def nth_append)
  have m: "map (tok x') [0..<length ws] = map (\<lambda>i. length (tok_bytes (map (Pair SH_TOK_OTHER) (take i ws)))) [0..<length ws]"
    using tok by simp
  have ne: "length ?ts \<noteq> 0" "length ws \<noteq> 0" using ws by (simp_all add: command_tokens_def)
  have "shell_line buf x =
     (if ?j \<ge> ncmd then Some Sh_notfound
      else if snd (cmdtab ! ?j) then
        (if redir_index (length (tok_bytes ?W)) rl SH_TOK_LESS \<noteq> None \<or> redir_index (length (tok_bytes ?W)) rl SH_TOK_GREATER \<noteq> None \<or> bg
         then Some Sh_bgerr else Some (Sh_builtin ?j (map (tok x') [0..<length ws])))
      else Some (Sh_spawn ?j \<lparr>c_ntok = length ws, c_tlen = length (tok_bytes ?W), backgnd = bg,
       inname = redir_index (length (tok_bytes ?W)) rl SH_TOK_LESS, outname = redir_index (length (tok_bytes ?W)) rl SH_TOK_GREATER\<rparr>))"
    using x'(1) c1 o ne j by (simp add: shell_line_def Let_def)
  also have "\<dots> = Some (run_command ws rl bg)"
    unfolding found m run_command_def Let_def using redir_index_None [OF assms(4)] by auto
  finally show ?thesis .
qed

text \<open>A line that \<^verbatim>\<open>lexan\<close> rejects is a syntax error, one without tokens is skipped.\<close>

lemma shell_line_other:
  assumes "line_at buf 0 xs"
  shows "lex_spec 0 xs = None \<Longrightarrow> shell_line buf x = Some Sh_syntax" "lex_spec 0 xs = Some [] \<Longrightarrow> shell_line buf x = Some Sh_blank"
  by (rule lexan_result [OF assms, of x]; simp add: shell_line_def)+

end
