(* ===== verification/Clib_Props.thy ===== *)
theory Clib_Props
  imports Clib_Num Shell
begin

text \<open>
  What the C library and the shell promise: the main theorems on strings, numbers, tokens and commands, each
  followed by an application to concrete bytes.
\<close>

text \<open>A memory that holds the given bytes from address 1 on.\<close>

definition mem_of :: "byte list \<Rightarrow> bmem" where
  "mem_of xs a = (if 1 \<le> a \<and> a \<le> length xs then xs ! (a - 1) else 0)"

section \<open>Strings\<close>

text \<open>C18: \<^verbatim>\<open>strcmp\<close>, \<^verbatim>\<open>strncmp\<close> and \<^verbatim>\<open>memcmp\<close> end and compare lexicographically by unsigned bytes: the sign of
  the result is that of the lexicographic comparison (of the first \<open>n\<close> characters), and 0 exactly when these are equal.\<close>

theorem string_compare:
  assumes "cstr m a xs" "cstr m b ys" "bytes_at m c us" "bytes_at m d vs" "length us = k" "length vs = k"
  shows "strcmp m a b = Some (lex_sign xs ys) \<and>
    sgn (strncmp m a b (int n)) = lex_sign (take n xs) (take n ys) \<and>
    sgn (memcmp m c d (int k)) = lex_sign us vs \<and>
    (lex_sign xs ys = 0 \<longleftrightarrow> xs = ys) \<and> (lex_sign xs ys < 0 \<longleftrightarrow> (xs, ys) \<in> lexord {(x, y). x < y}) \<and>
    lex_sign ys xs = - lex_sign xs ys"
  using strcmp_lex_sign [OF assms(1,2)] strncmp_ok [OF assms(1,2)] memcmp_ok [OF assms(5,6,3,4)] lex_sign_flip [of ys xs]
  by (simp add: lex_sign_less)

theorem string_compare_witness:
  "strcmp (mem_of [97, 98, 0, 97, 200, 0]) 1 4 = Some (- 1) \<and> sgn (strncmp (mem_of [97, 98, 0, 97, 200, 0]) 1 4 1) = 0 \<and>
   sgn (memcmp (mem_of [97, 98, 0, 97, 200, 0]) 2 5 2) = - 1"
  using string_compare [of "mem_of [97, 98, 0, 97, 200, 0]" 1 "[97, 98]" 4 "[97, 200]" 2 "[98, 0]" 5 "[200, 0]" 2 1]
  by (simp add: mem_of_def)

text \<open>\<^verbatim>\<open>strchr\<close> finds the first and \<^verbatim>\<open>strrchr\<close> the last occurrence of a character, and \<^verbatim>\<open>strstr\<close> the
  first occurrence of a non-empty string; each returns the null pointer when there is none.\<close>

theorem string_search:
  assumes "cstr m p xs" "cstr m q ys" "ys \<noteq> []" "c mod 256 \<noteq> 0"
  shows "strchr m p c = Some (if word_of_int c \<in> set xs then p + length (takeWhile (\<lambda>x. x \<noteq> word_of_int c) xs) else 0) \<and>
    strrchr m p c = Some (if word_of_int c \<in> set xs
      then p + length xs - Suc (length (takeWhile (\<lambda>x. x \<noteq> word_of_int c) (rev xs))) else 0) \<and>
    strchr m p 0 = Some (p + length xs) \<and>
    (\<exists>r. strstr m p q = Some r \<and>
      (r = 0 \<and> (\<forall>i < length xs. \<not> prefix ys (drop i xs)) \<or>
       (\<exists>i < length xs. r = p + i \<and> prefix ys (drop i xs) \<and> (\<forall>j < i. \<not> prefix ys (drop j xs)))))"
proof (intro conjI impI)
  have c: "word_of_int c \<noteq> (0 :: byte)" using assms(4) by (simp add: word_of_int_eq_0_iff dvd_eq_mod_eq_0)
  show "strchr m p c = Some (if word_of_int c \<in> set xs then p + length (takeWhile (\<lambda>x. x \<noteq> word_of_int c) xs) else 0)"
    "strrchr m p c = Some (if word_of_int c \<in> set xs
      then p + length xs - Suc (length (takeWhile (\<lambda>x. x \<noteq> word_of_int c) (rev xs))) else 0)"
    "strchr m p 0 = Some (p + length xs)"
    using strchr_loop_ok [OF assms(1) c] strrchr_loop_ok [OF assms(1) c] strchr_loop_end [OF assms(1)]
    by (simp_all add: strchr_def strrchr_def)
  show "\<exists>r. strstr m p q = Some r \<and>
      (r = 0 \<and> (\<forall>i < length xs. \<not> prefix ys (drop i xs)) \<or>
       (\<exists>i < length xs. r = p + i \<and> prefix ys (drop i xs) \<and> (\<forall>j < i. \<not> prefix ys (drop j xs))))"
    using strstr_first_occ [OF assms(1-3)] first_occ_Some [of ys xs] first_occ_None [of ys xs]
    by (cases "first_occ ys xs") auto
qed

theorem string_search_witness:
  "strchr (mem_of [97, 98, 97, 0, 98, 97, 0]) 1 97 = Some 1 \<and> strrchr (mem_of [97, 98, 97, 0, 98, 97, 0]) 1 97 = Some 3 \<and>
   strchr (mem_of [97, 98, 97, 0, 98, 97, 0]) 1 0 = Some 4"
  using string_search [of "mem_of [97, 98, 97, 0, 98, 97, 0]" 1 "[97, 98, 97]" 5 "[98, 97]" 97]
  by (simp add: mem_of_def)

text \<open>C19: the copying functions copy what they are told to, when source and target do not overlap, and write no other byte: \<^verbatim>\<open>strcpy\<close> a string with its null byte,
  \<^verbatim>\<open>strncpy\<close> a string cut or padded with null bytes to \<open>n\<close>, \<^verbatim>\<open>strncat\<close> at most \<open>n\<close> characters of a string behind another, \<^verbatim>\<open>memcpy\<close> any bytes,
  null bytes among them, and \<^verbatim>\<open>memset\<close> and \<^verbatim>\<open>bzero\<close> a byte many times.\<close>

theorem string_copy:
  assumes "cstr m src xs" "apart tar (length xs + 1) src (length xs + 1)" "apart tar n src (length xs + 1)"
    and "cstr m s1 ys" "apart (s1 + length ys) (min n (length xs) + 1) src (length xs + 1)"
    and "bytes_at m ct zs" "apart tar (length zs) ct (length zs)"
  shows "(\<exists>m'. strcpy m tar src = Some (0, m') \<and> cstr m' tar xs \<and> writes m m' tar (length xs + 1)) \<and>
    (let m' = snd (strncpy m tar src (int n)) in
       bytes_at m' tar (take n (xs @ replicate n 0)) \<and> writes m m' tar n) \<and>
    (\<exists>m'. strncat m s1 src (int n) = Some (s1, m') \<and> cstr m' s1 (ys @ take n xs) \<and>
       writes m m' (s1 + length ys) (min n (length xs) + 1)) \<and>
    (let m' = snd (memcpy m tar ct (int (length zs))) in bytes_at m' tar zs \<and> writes m m' tar (length zs)) \<and>
    (let m' = snd (memset m tar c (int k)) in bytes_at m' tar (replicate k (word_of_int c)) \<and> writes m m' tar k) \<and>
    bzero m tar i = snd (memset m tar 0 i)"
proof (intro conjI impI)
  show "\<exists>m'. strcpy m tar src = Some (0, m') \<and> cstr m' tar xs \<and> writes m m' tar (length xs + 1)"
    using strcpy_loop_ok [OF assms(1,2)] by (auto simp: strcpy_def)
  show "let m' = snd (strncpy m tar src (int n)) in bytes_at m' tar (take n (xs @ replicate n 0)) \<and> writes m m' tar n"
    using strncpy_loop_ok [OF assms(1,3)] by (simp add: strncpy_def)
  show "\<exists>m'. strncat m s1 src (int n) = Some (s1, m') \<and> cstr m' s1 (ys @ take n xs) \<and>
       writes m m' (s1 + length ys) (min n (length xs) + 1)"
    by (rule strncat_ok [OF assms(4,1,5)]) blast
  show "let m' = snd (memcpy m tar ct (int (length zs))) in bytes_at m' tar zs \<and> writes m m' tar (length zs)"
    using memcpy_loop_ok [OF assms(6,7)] by (simp add: memcpy_def)
  show "let m' = snd (memset m tar c (int k)) in bytes_at m' tar (replicate k (word_of_int c)) \<and> writes m m' tar k"
    using memset_loop_ok [of k m tar "word_of_int c"] by (simp add: memset_def)
  show "bzero m tar i = snd (memset m tar 0 i)" by (rule bzero_memset)
qed

theorem string_copy_witness:
  "(\<exists>m'. strncat (mem_of [97, 98, 0, 99, 0, 0, 0]) 4 1 (int 1) = Some (4, m') \<and> cstr m' 4 [99, 97]) \<and>
   bytes_at (snd (memcpy (mem_of [97, 98, 0, 99, 0, 0, 0]) 20 1 4)) 20 [97, 98, 0, 99]"
  using string_copy [of "mem_of [97, 98, 0, 99, 0, 0, 0]" 1 "[97, 98]" 20 1 4 "[99]" 1 "[97, 98, 0, 99]" 0 0 0]
  by (auto simp: mem_of_def apart_def Let_def)

section \<open>Numbers and characters\<close>

text \<open>\<^verbatim>\<open>atoi\<close> and \<^verbatim>\<open>atol\<close> return the decimal number that follows blanks and an optional sign, reduced to 32 bits,
  whatever follows the digits.\<close>

theorem atoi_decimal:
  assumes "cstr m p (bs @ sg @ ds @ rest)" "set bs \<subseteq> {32, 9}" "sg \<in> {[], [43], [45]}"
    and "\<forall>d \<in> set ds. is_dec d" "ds \<noteq> []" "rest = [] \<or> \<not> is_dec (hd rest)"
  shows "atoi m p = Some (s32 (if sg = [45] then - dec_value ds else dec_value ds)) \<and> atol m p = atoi m p"
  using atoi_value [OF assms] by (simp add: atol_atoi)

theorem atoi_decimal_witness:
  "atoi (mem_of [32, 45, 52, 50, 32, 0]) 1 = Some (- 42) \<and> atol (mem_of [32, 45, 52, 50, 32, 0]) 1 = Some (- 42)"
  using atoi_decimal [of "mem_of [32, 45, 52, 50, 32, 0]" 1 "[32]" "[45]" "[52, 50]" "[32]"]
  by (simp add: mem_of_def is_dec_def dec_value_def s32_def)

text \<open>the character table classifies the ASCII characters as the C standard says, and the letter case
  conversions are inverse to each other on letters.\<close>

theorem ctype_ascii:
  assumes "c < 128"
  shows "(isdigit c \<longleftrightarrow> 48 \<le> c \<and> c \<le> 57) \<and> (isupper c \<longleftrightarrow> 65 \<le> c \<and> c \<le> 90) \<and>
     (islower c \<longleftrightarrow> 97 \<le> c \<and> c \<le> 122) \<and> (isspace c \<longleftrightarrow> c = 32 \<or> 9 \<le> c \<and> c \<le> 13) \<and>
     (isxdigit c \<longleftrightarrow> 48 \<le> c \<and> c \<le> 57 \<or> 65 \<le> c \<and> c \<le> 70 \<or> 97 \<le> c \<and> c \<le> 102) \<and>
     (iscntrl c \<longleftrightarrow> c < 9 \<or> 14 \<le> c \<and> c < 32 \<or> c = 127) \<and>
     (isalpha c \<longleftrightarrow> isupper c \<or> islower c) \<and> (isalnum c \<longleftrightarrow> isalpha c \<or> isdigit c) \<and>
     (isprint c \<longleftrightarrow> \<not> iscntrl c) \<and> (ispunct c \<longleftrightarrow> isprint c \<and> \<not> isalnum c \<and> \<not> isspace c) \<and>
     (islower c \<longrightarrow> (\<exists>u. toupper (int c) = int u \<and> isupper u \<and> tolower (int u) = int c))"
proof (intro conjI)
  have c: "c \<in> set [0..<128]" using assms by simp
  note r = bspec [OF ctype_ranges c] bspec [OF ctype_classes c]
  show "islower c \<longrightarrow> (\<exists>u. toupper (int c) = int u \<and> isupper u \<and> tolower (int u) = int c)"
  proof
    assume "islower c"
    then have l: "97 \<le> c" "c \<le> 122" using r(1) by auto
    then have "c - 32 \<in> set [0..<128]" "65 \<le> c - 32 \<and> c - 32 \<le> 90" by auto
    then have "isupper (c - 32)" using bspec [OF ctype_ranges, of "c - 32"] by blast
    then show "\<exists>u. toupper (int c) = int u \<and> isupper u \<and> tolower (int u) = int c"
      using l by (intro exI [of _ "c - 32"]) (simp add: toupper_def tolower_def)
  qed
qed (use bspec [OF ctype_ranges, of c] bspec [OF ctype_classes, of c] assms in simp_all)

theorem ctype_ascii_witness: "isdigit 53 \<and> isalpha 97 \<and> \<not> isalpha 53 \<and> isprint 32"
  using ctype_ascii [of 53] ctype_ascii [of 97] ctype_ascii [of 32] by simp

section \<open>The shell\<close>

text \<open>C20: \<^verbatim>\<open>lexan\<close> ends on every line and computes the tokens of the reference tokeniser, each stored as a
  null-terminated string, or returns \<^verbatim>\<open>SYSERR\<close> exactly when the reference rejects the line; it writes no byte beyond \<open>length xs + SHELL_MAXTOK\<close>
  of the token buffer and no entry beyond \<open>SHELL_MAXTOK\<close> of the arrays.\<close>

theorem lexan_refines:
  assumes "line_at line 0 xs"
  shows "\<exists>r x'. lexan line x = Some (r, x') \<and> within x x' (length xs + SHELL_MAXTOK) \<and>
    (case lex_spec 0 xs of
       None \<Rightarrow> r = SYSERR
     | Some ts \<Rightarrow> r = int (length ts) \<and> length ts \<le> SHELL_MAXTOK \<and> tlen x' = length (tok_bytes ts) \<and>
         (\<forall>i < length ts. toktyp x' i = fst (ts ! i) \<and> cstr (tokbuf x') (tok x' i) (snd (ts ! i))))"
  by (rule lexan_result [OF assms, of x]; cases "lex_spec 0 xs"; fastforce)

definition lex0 :: lex where
  "lex0 = \<lparr>lp = 0, tbindex = 0, tokbuf = (\<lambda>_. 0), ntok = 0, tok = (\<lambda>_. 0), toktyp = (\<lambda>_. SH_TOK_OTHER), tlen = 0\<rparr>"

definition line_of :: "string \<Rightarrow> bmem" where
  "line_of s a = (if a < length s then of_char (s ! a) else SH_NEWLINE)"

theorem lexan_refines_witness:
  "\<exists>x'. lexan (line_of ''ps > f'') lex0 = Some (3, x') \<and> toktyp x' 1 = SH_TOK_GREATER \<and> cstr (tokbuf x') (tok x' 0) (str ''ps'')"
proof -
  have l: "line_at (line_of ''ps > f'') 0 (str ''ps > f'')" by code_simp
  let ?ts = "[(SH_TOK_OTHER, str ''ps''), (SH_TOK_GREATER, str ''>''), (SH_TOK_OTHER, str ''f'')]"
  have t: "lex_spec 0 (str ''ps > f'') = Some ?ts" by code_simp
  obtain x' where x': "lexan (line_of ''ps > f'') lex0 = Some (3, x')"
    "\<forall>i < length ?ts. toktyp x' i = fst (?ts ! i) \<and> cstr (tokbuf x') (tok x' i) (snd (?ts ! i))"
    using lexan_refines [OF l, of lex0] unfolding t by auto
  show ?thesis using x'(1) spec [OF x'(2), of 0] spec [OF x'(2), of 1] by auto
qed

text \<open>C21: a line whose tokens form a command with at most one redirection of each kind and an optional final
  \<^verbatim>\<open>&\<close> selects the command of that name in the table, with its words as arguments, its redirections and background mark; an
  unknown name is reported, and so is a built-in command that is redirected or in the background.\<close>

theorem shell_command:
  assumes "line_at buf 0 xs" "lex_spec 0 xs = Some (command_tokens ws rl bg)" "ws \<noteq> []" "redirs_ok rl"
  shows "shell_line buf x = Some (run_command ws rl bg)"
  by (rule shell_line_command [OF assms])

theorem shell_command_witness:
  "shell_line (line_of ''echo a > f &'') lex0 =
     Some (Sh_spawn 6 \<lparr>c_ntok = 2, c_tlen = 7, backgnd = True, inname = None, outname = Some 9\<rparr>)"
proof -
  have l: "line_at (line_of ''echo a > f &'') 0 (str ''echo a > f &'')" by code_simp
  have t: "lex_spec 0 (str ''echo a > f &'') =
      Some (command_tokens [str ''echo'', str ''a''] [(SH_TOK_GREATER, str ''f'')] True)"
    by code_simp
  have "run_command [str ''echo'', str ''a''] [(SH_TOK_GREATER, str ''f'')] True =
      Sh_spawn 6 \<lparr>c_ntok = 2, c_tlen = 7, backgnd = True, inname = None, outname = Some 9\<rparr>"
    by code_simp
  then show ?thesis using shell_command [OF l t, of lex0] by (simp add: redirs_ok_def)
qed

end
