(* ===== verification/Ring.thy ===== *)
theory Ring
  imports Clib_String
begin

text \<open>
  Circular buffers as the drivers keep them: an array of \<open>n\<close> characters, the position of the next character to take and the position of the
  next free slot, each set back to 0 when it reaches the end. How many characters there are is counted elsewhere, by a semaphore.
  \<open>ring n b h t xs\<close>: the characters \<open>xs\<close> are in the buffer \<open>b\<close> from position \<open>h\<close> up to \<open>t\<close>.
\<close>

definition wrap :: "int \<Rightarrow> int \<Rightarrow> int" where
  "wrap n i = (if i \<ge> n then 0 else i)"

definition ring :: "int \<Rightarrow> (int \<Rightarrow> 'a) \<Rightarrow> int \<Rightarrow> int \<Rightarrow> 'a list \<Rightarrow> bool" where
  "ring n b h t xs \<longleftrightarrow>
     0 \<le> h \<and> h < n \<and> int (length xs) \<le> n \<and> t = (h + int (length xs)) mod n \<and>
     (\<forall>i < length xs. b ((h + int i) mod n) = xs ! i)"

lemma ring_bounds: "ring n b h t xs \<Longrightarrow> 0 \<le> t \<and> t < n \<and> 0 < n"
  by (auto simp: ring_def)

lemma wrap_mod: "0 \<le> i \<Longrightarrow> i < n \<Longrightarrow> wrap n (i + 1) = (i + 1) mod n"
  by (cases "i + 1 = n") (auto simp: wrap_def)

lemma mod_add_neq:
  fixes h n :: int
  assumes "i < k" "int k < n"
  shows "(h + int i) mod n \<noteq> (h + int k) mod n"
proof
  assume "(h + int i) mod n = (h + int k) mod n"
  then have "(h + int k) mod n = (h + int i) mod n" by (rule sym)
  then have "n dvd (h + int k) - (h + int i)" by (simp only: mod_eq_dvd_iff)
  then have "n dvd int k - int i" by simp
  then have "n \<le> int k - int i" using assms(1) by (intro zdvd_imp_le) auto
  then show False using assms by simp
qed

lemma ring_put:
  assumes "ring n b h t xs" "int (length xs) < n"
  shows "ring n (b(t := c)) h (wrap n (t + 1)) (xs @ [c])"
proof -
  note r = assms(1) [unfolded ring_def]
  have "(t + 1) mod n = (h + int (length xs) + 1) mod n" using r by (simp add: mod_add_left_eq)
  then have "wrap n (t + 1) = (h + int (length (xs @ [c]))) mod n"
    using wrap_mod [of t n] ring_bounds [OF assms(1)] by (simp add: algebra_simps)
  moreover have "(b(t := c)) ((h + int i) mod n) = (xs @ [c]) ! i" if "i < length (xs @ [c])" for i
    using that r mod_add_neq [of i "length xs" n h] assms(2) by (cases "i = length xs") (auto simp: nth_append)
  ultimately show ?thesis using r assms(2) by (simp add: ring_def)
qed

lemma ring_get:
  assumes "ring n b h t (x # xs)"
  shows "b h = x" "ring n b (wrap n (h + 1)) t xs"
proof -
  note r = assms [unfolded ring_def]
  show "b h = x" using r by (auto dest: spec [of _ 0])
  have w: "wrap n (h + 1) = (h + 1) mod n" using r by (simp add: wrap_mod)
  have "b (((h + 1) mod n + int i) mod n) = xs ! i" if "i < length xs" for i
    using r that by (auto simp: mod_add_left_eq add.assoc dest!: conjunct2 spec [of _ "Suc i"])
  then show "ring n b (wrap n (h + 1)) t xs"
    using r unfolding ring_def w by (auto simp: mod_add_left_eq add.assoc)
qed

text \<open>Taking back the last \<open>k\<close> characters.\<close>

lemma ring_unput:
  assumes "ring n b h t (xs @ ys)" "t' = (if t - int (length ys) < 0 then t - int (length ys) + n else t - int (length ys))"
  shows "ring n b h t' xs"
proof -
  note r = assms(1) [unfolded ring_def]
  have t: "0 \<le> t" "t < n" "int (length ys) \<le> n" using ring_bounds [OF assms(1)] r by auto
  have "t' = (t - int (length ys)) mod n"
  proof (cases "t - int (length ys) < 0")
    case True
    then have "(t - int (length ys)) mod n = (t - int (length ys) + n) mod n" by simp
    also have "\<dots> = t - int (length ys) + n" using True t by (intro mod_pos_pos_trivial) auto
    finally show ?thesis using True assms(2) by simp
  next
    case False
    then show ?thesis using t assms(2) by (simp add: mod_pos_pos_trivial)
  qed
  also have "\<dots> = (h + int (length xs)) mod n"
    using r by (simp add: mod_diff_left_eq)
  finally show ?thesis using r by (auto simp: ring_def nth_append dest: spec)
qed

lemma ring_last: "ring n b h t (xs @ [c]) \<Longrightarrow> b ((h + int (length xs)) mod n) = c"
  by (auto simp: ring_def dest: spec [of _ "length xs"])

end
