(* ===== verification/Tty.thy ===== *)
theory Tty
  imports Ring Frames
begin

text \<open>
  The terminal driver \<^verbatim>\<open>device/tty/\<close>. The record \<open>tty\<close> is the control block of \<^verbatim>\<open>include/tty.h\<close>, with pointers into its buffers as positions,
  together with the UART: the characters that have arrived and not been read, those that have been sent to it, the level of its
  transmit FIFO and the interrupt enable register. The semaphores are those of the kernel. A call of the upper half that blocks in
  \<^verbatim>\<open>wait\<close> has the result \<^term>\<open>None\<close>; what follows the wait is the function with the suffix \<open>_rest\<close>.
\<close>

unbundle bit_operations_syntax

abbreviation (input) TY_EBUFLEN :: int where "TY_EBUFLEN \<equiv> 20"
abbreviation (input) TY_IBUFLEN :: int where "TY_IBUFLEN \<equiv> 128"
abbreviation (input) TY_OBUFLEN :: int where "TY_OBUFLEN \<equiv> 64"
abbreviation (input) UART_FIFO_SIZE :: int where "UART_FIFO_SIZE \<equiv> 64"
abbreviation (input) TY_BACKSP :: byte where "TY_BACKSP \<equiv> 8"
abbreviation (input) TY_BACKSP2 :: byte where "TY_BACKSP2 \<equiv> 127"
abbreviation (input) TY_BELL :: byte where "TY_BELL \<equiv> 7"
abbreviation (input) TY_EOFCH :: byte where "TY_EOFCH \<equiv> 4"
abbreviation (input) TY_BLANK :: byte where "TY_BLANK \<equiv> 32"
abbreviation (input) TY_NEWLINE :: byte where "TY_NEWLINE \<equiv> 10"
abbreviation (input) TY_RETURN :: byte where "TY_RETURN \<equiv> 13"
abbreviation (input) TY_STOPCH :: byte where "TY_STOPCH \<equiv> 19"
abbreviation (input) TY_STRTCH :: byte where "TY_STRTCH \<equiv> 17"
abbreviation (input) TY_KILLCH :: byte where "TY_KILLCH \<equiv> 21"
abbreviation (input) TY_UPARROW :: byte where "TY_UPARROW \<equiv> 94"
abbreviation (input) UART_IER_ERBFI :: int where "UART_IER_ERBFI \<equiv> 1"
abbreviation (input) UART_IER_ETBEI :: int where "UART_IER_ETBEI \<equiv> 2"
abbreviation (input) EOF :: int where "EOF \<equiv> - 2"

datatype tymode = TY_IMRAW | TY_IMCOOKED | TY_IMCBREAK

record uart =
  rx_fifo :: "byte list"
  sent :: "byte list"
  txfifo_lvl :: int
  ier :: int

record tty =
  tyihead :: int
  tyitail :: int
  tyibuff :: "int \<Rightarrow> byte"
  tyisem :: int
  tyohead :: int
  tyotail :: int
  tyobuff :: "int \<Rightarrow> byte"
  tyosem :: int
  tyehead :: int
  tyetail :: int
  tyebuff :: "int \<Rightarrow> byte"
  tyimode :: tymode
  tyiecho :: bool
  tyieback :: bool
  tyevis :: bool
  tyecrlf :: bool
  tyicrlf :: bool
  tyierase :: bool
  tyierasec :: byte
  tyierasec2 :: byte
  tyeof :: bool
  tyeofch :: byte
  tyikill :: bool
  tyikillc :: byte
  tyicursor :: int
  tyoflow :: bool
  tyoheld :: bool
  tyostop :: byte
  tyostart :: byte
  tyocrlf :: bool
  tyifullc :: byte
  csr :: uart

section \<open>Echo\<close>

definition ttykickout :: "tty \<Rightarrow> tty" where
  "ttykickout t = t\<lparr>csr := (csr t)\<lparr>ier := UART_IER_ERBFI OR UART_IER_ETBEI\<rparr>\<rparr>"

definition eputc :: "byte \<Rightarrow> tty \<Rightarrow> tty" where
  "eputc ch t =
     (let t1 = t\<lparr>tyebuff := (tyebuff t)(tyetail t := ch), tyetail := wrap TY_EBUFLEN (tyetail t + 1)\<rparr>
      in ttykickout t1)"

definition echoch :: "byte \<Rightarrow> tty \<Rightarrow> tty" where
  "echoch ch t =
     (if (ch = TY_NEWLINE \<or> ch = TY_RETURN) \<and> tyecrlf t then eputc TY_NEWLINE (eputc TY_RETURN t)
      else if (ch < TY_BLANK \<or> ch = 127) \<and> tyevis t then eputc (ch + 64) (eputc TY_UPARROW t)
      else eputc ch t)"

definition erase_echo :: "tty \<Rightarrow> tty" where
  "erase_echo t =
     (let t1 = eputc TY_BACKSP t in if tyieback t1 then eputc TY_BACKSP (eputc TY_BLANK t1) else t1)"

definition erase1 :: "tty \<Rightarrow> tty" where
  "erase1 t =
     (let t1 = t\<lparr>tyitail := (if tyitail t - 1 < 0 then tyitail t - 1 + TY_IBUFLEN else tyitail t - 1)\<rparr>;
          ch = tyibuff t1 (tyitail t1)
      in if tyiecho t1 then
           if ch < TY_BLANK \<or> ch = 127
           then erase_echo (if tyevis t1 then erase_echo t1 else t1)
           else erase_echo t1
         else t1)"

section \<open>Input\<close>

text \<open>Storing a character in the input buffer, with and without wrapping the position.\<close>

definition store_in :: "byte \<Rightarrow> tty \<Rightarrow> tty" where
  "store_in ch t = t\<lparr>tyibuff := (tyibuff t)(tyitail t := ch), tyitail := wrap TY_IBUFLEN (tyitail t + 1)\<rparr>"

definition store_eof :: "byte \<Rightarrow> tty \<Rightarrow> tty" where
  "store_eof ch t = t\<lparr>tyibuff := (tyibuff t)(tyitail t := ch), tyitail := tyitail t + 1\<rparr>"

definition chars_avail :: "tty \<Rightarrow> kernel \<Rightarrow> int" where
  "chars_avail t s = (let avail = semcount (tyisem t) s in if avail < 0 then 0 else avail)"

definition ttyhandle_cooked :: "byte \<Rightarrow> tty \<Rightarrow> kernel \<Rightarrow> tty \<times> kernel" where
  "ttyhandle_cooked ch t s =
     (if ch = tyikillc t \<and> tyikill t then
        let p = tyitail t - tyicursor t;
            t1 = t\<lparr>tyitail := (if p < 0 then p + TY_IBUFLEN else p), tyicursor := 0\<rparr>
        in (eputc TY_NEWLINE (eputc TY_RETURN t1), s)
      else if (ch = tyierasec t \<or> ch = tyierasec2 t) \<and> tyierase t then
        (if tyicursor t > 0 then (erase1 (t\<lparr>tyicursor := tyicursor t - 1\<rparr>), s) else (t, s))
      else if ch = TY_NEWLINE \<or> ch = TY_RETURN then
        let t1 = (if tyiecho t then echoch ch t else t);
            t2 = store_in ch t1;
            s1 = snd (signaln (tyisem t2) (tyicursor t2 + 1) s)
        in (t2\<lparr>tyicursor := 0\<rparr>, s1)
      else if chars_avail t s + tyicursor t \<ge> TY_IBUFLEN - 1 then (eputc (tyifullc t) t, s)
      else if ch = tyeofch t \<and> tyeof t then
        let t1 = (if tyiecho t then echoch ch t else t)
        in if tyicursor t1 \<noteq> 0 then (t1, s)
           else let t2 = store_eof ch t1 in (t2, snd (signal (tyisem t2) s))
      else
        let t1 = (if tyiecho t then echoch ch t else t)
        in (store_in ch (t1\<lparr>tyicursor := tyicursor t1 + 1\<rparr>), s))"

definition ttyhandle_in :: "byte \<Rightarrow> tty \<Rightarrow> kernel \<Rightarrow> tty \<times> kernel" where
  "ttyhandle_in ch0 t s =
     (let avail = chars_avail t s in
      if tyimode t = TY_IMRAW then
        (if avail \<ge> TY_IBUFLEN then (t, s)
         else let t1 = store_in ch0 t in (t1, snd (signal (tyisem t1) s)))
      else
        let ch = (if ch0 = TY_RETURN \<and> tyicrlf t then TY_NEWLINE else ch0) in
        if tyoflow t \<and> ch = tyostart t then (ttykickout (t\<lparr>tyoheld := False\<rparr>), s)
        else if tyoflow t \<and> ch = tyostop t then (t\<lparr>tyoheld := True\<rparr>, s)
        else
          let t1 = t\<lparr>tyoheld := False\<rparr> in
          if tyimode t1 = TY_IMCBREAK then
            (if avail \<ge> TY_IBUFLEN then (eputc (tyifullc t1) t1, s)
             else
               let t2 = store_in ch t1;
                   t3 = (if tyiecho t2 then echoch ch t2 else t2)
               in (t3, snd (signal (tyisem t3) s)))
          else ttyhandle_cooked ch t1 s)"

section \<open>Output\<close>

definition out_idle :: "tty \<Rightarrow> kernel \<Rightarrow> bool" where
  "out_idle t s \<longleftrightarrow> tyehead t = tyetail t \<and> semcount (tyosem t) s \<ge> TY_OBUFLEN"

definition etbei_off :: "tty \<Rightarrow> tty" where
  "etbei_off t = t\<lparr>csr := (csr t)\<lparr>ier := ier (csr t) AND NOT UART_IER_ETBEI\<rparr>\<rparr>"

definition uart_put :: "byte \<Rightarrow> tty \<Rightarrow> tty" where
  "uart_put c t = t\<lparr>csr := (csr t)\<lparr>sent := sent (csr t) @ [c]\<rparr>\<rparr>"

fun echo_loop :: "nat \<Rightarrow> tty \<Rightarrow> int \<times> tty" where
  "echo_loop 0 t = (0, t)"
| "echo_loop (Suc uspace) t =
     (if tyehead t \<noteq> tyetail t then
        let t1 = uart_put (tyebuff t (tyehead t)) t
        in echo_loop uspace (t1\<lparr>tyehead := wrap TY_EBUFLEN (tyehead t1 + 1)\<rparr>)
      else (int (Suc uspace), t))"

text \<open>The loop ends when the FIFO is full or nothing is left: \<open>k\<close> is the smaller of the two numbers.\<close>

fun out_loop :: "nat \<Rightarrow> tty \<Rightarrow> tty" where
  "out_loop 0 t = t"
| "out_loop (Suc k) t =
     (let t1 = uart_put (tyobuff t (tyohead t)) t
      in out_loop k (t1\<lparr>tyohead := wrap TY_OBUFLEN (tyohead t1 + 1)\<rparr>))"

definition ttyhandle_out :: "tty \<Rightarrow> kernel \<Rightarrow> tty \<times> kernel" where
  "ttyhandle_out t s =
     (if tyoheld t then (t, s)
      else if out_idle t s then (etbei_off t, s)
      else
        let (uspace, t1) = echo_loop (nat (UART_FIFO_SIZE - txfifo_lvl (csr t))) t;
            avail = TY_OBUFLEN - semcount (tyosem t1) s;
            ochars = nat (min uspace avail);
            t2 = out_loop ochars t1;
            s1 = (if ochars > 0 then snd (signaln (tyosem t2) (int ochars) s) else s)
        in if out_idle t2 s1 then (etbei_off t2, s1) else (t2, s1))"

section \<open>Interrupts\<close>

text \<open>\<open>iir\<close> and \<open>lsr\<close> are the values read from the interrupt identification and line status registers.\<close>

fun rx_loop :: "byte list \<Rightarrow> tty \<Rightarrow> kernel \<Rightarrow> tty \<times> kernel" where
  "rx_loop [] t s = (t, s)"
| "rx_loop (c # cs) t s =
     (case ttyhandle_in c (t\<lparr>csr := (csr t)\<lparr>rx_fifo := cs\<rparr>\<rparr>) s of (t1, s1) \<Rightarrow> rx_loop cs t1 s1)"

definition ttyhandler :: "int \<Rightarrow> int \<Rightarrow> tty \<Rightarrow> kernel \<Rightarrow> tty \<times> kernel" where
  "ttyhandler iir lsr t s =
     (if iir AND 1 \<noteq> 0 then (t, s)
      else
        let id = iir AND 14 in
        if id = 6 then
          (if lsr AND 16 \<noteq> 0 then (t\<lparr>csr := (csr t)\<lparr>rx_fifo := tl (rx_fifo (csr t))\<rparr>\<rparr>, s) else (t, s))
        else if id = 4 \<or> id = 12 then
          (case rx_loop (rx_fifo (csr t)) t (snd (resched_cntl DEFER_START s)) of
             (t1, s1) \<Rightarrow> (t1, snd (resched_cntl DEFER_STOP s1)))
        else if id = 2 then ttyhandle_out t s
        else (t, s))"

section \<open>The upper half\<close>

definition ttygetc_rest :: "tty \<Rightarrow> int \<times> tty" where
  "ttygetc_rest t =
     (let ch = tyibuff t (tyihead t);
          t1 = t\<lparr>tyihead := wrap TY_IBUFLEN (tyihead t + 1)\<rparr>
      in if tyimode t1 = TY_IMCOOKED \<and> tyeof t1 \<and> ch = tyeofch t1 then (EOF, t1) else (uint ch, t1))"

definition ttygetc :: "tty \<Rightarrow> kernel \<Rightarrow> int option \<times> tty \<times> kernel" where
  "ttygetc t s =
     (let s1 = snd (wait (tyisem t) s)
      in if currpid s1 = currpid s then (case ttygetc_rest t of (r, t1) \<Rightarrow> (Some r, t1, s1)) else (None, t, s1))"

definition ttyputc_rest :: "byte \<Rightarrow> tty \<Rightarrow> tty" where
  "ttyputc_rest ch t =
     ttykickout (t\<lparr>tyobuff := (tyobuff t)(tyotail t := ch), tyotail := wrap TY_OBUFLEN (tyotail t + 1)\<rparr>)"

definition ttyputc1 :: "byte \<Rightarrow> tty \<Rightarrow> kernel \<Rightarrow> int option \<times> tty \<times> kernel" where
  "ttyputc1 ch t s =
     (let s1 = snd (wait (tyosem t) s)
      in if currpid s1 = currpid s then (Some OK, ttyputc_rest ch t, s1) else (None, t, s1))"

definition ttyputc :: "byte \<Rightarrow> tty \<Rightarrow> kernel \<Rightarrow> int option \<times> tty \<times> kernel" where
  "ttyputc ch t s =
     (if ch = TY_NEWLINE \<and> tyocrlf t then
        (case ttyputc1 TY_RETURN t s of
           (None, t1, s1) \<Rightarrow> (None, t1, s1)
         | (Some _, t1, s1) \<Rightarrow> ttyputc1 ch t1 s1)
      else ttyputc1 ch t s)"

fun ttywrite_loop :: "nat \<Rightarrow> bmem \<Rightarrow> nat \<Rightarrow> tty \<Rightarrow> kernel \<Rightarrow> int option \<times> tty \<times> kernel" where
  "ttywrite_loop 0 m buff t s = (Some OK, t, s)"
| "ttywrite_loop (Suc k) m buff t s =
     (case ttyputc (m buff) t s of
        (None, t1, s1) \<Rightarrow> (None, t1, s1)
      | (Some _, t1, s1) \<Rightarrow> ttywrite_loop k m (buff + 1) t1 s1)"

definition ttywrite :: "bmem \<Rightarrow> nat \<Rightarrow> int \<Rightarrow> tty \<Rightarrow> kernel \<Rightarrow> int option \<times> tty \<times> kernel" where
  "ttywrite m buff count t s =
     (if count < 0 then (Some SYSERR, t, s)
      else if count = 0 then (Some OK, t, s)
      else ttywrite_loop (nat count) m buff t s)"

text \<open>Reading: the number of characters and the memory they have been stored in.\<close>

fun ttyread_raw :: "nat \<Rightarrow> bmem \<Rightarrow> nat \<Rightarrow> tty \<Rightarrow> kernel \<Rightarrow> bmem option \<times> tty \<times> kernel" where
  "ttyread_raw 0 m buff t s = (Some m, t, s)"
| "ttyread_raw (Suc k) m buff t s =
     (case ttygetc t s of
        (None, t1, s1) \<Rightarrow> (None, t1, s1)
      | (Some c, t1, s1) \<Rightarrow> ttyread_raw k (m(buff := word_of_int c)) (buff + 1) t1 s1)"

fun ttyread_line :: "nat \<Rightarrow> int \<Rightarrow> byte \<Rightarrow> bmem \<Rightarrow> nat \<Rightarrow> tty \<Rightarrow> kernel \<Rightarrow> (int \<times> bmem) option \<times> tty \<times> kernel" where
  "ttyread_line 0 nread ch m buff t s = (Some (nread, m), t, s)"
| "ttyread_line (Suc k) nread ch m buff t s =
     (if ch \<noteq> TY_NEWLINE \<and> ch \<noteq> TY_RETURN then
        (case ttygetc t s of
           (None, t1, s1) \<Rightarrow> (None, t1, s1)
         | (Some c, t1, s1) \<Rightarrow> ttyread_line k (nread + 1) (word_of_int c) (m(buff := word_of_int c)) (buff + 1) t1 s1)
      else (Some (nread, m), t, s))"

definition ttyread :: "bmem \<Rightarrow> nat \<Rightarrow> int \<Rightarrow> tty \<Rightarrow> kernel \<Rightarrow> (int \<times> bmem) option \<times> tty \<times> kernel" where
  "ttyread m buff count t s =
     (if count < 0 then (Some (SYSERR, m), t, s)
      else if tyimode t \<noteq> TY_IMCOOKED then
        (let avail = semcount (tyisem t) s in
         if count = 0 \<and> avail = 0 then (Some (0, m), t, s)
         else
           let n = (if count = 0 then avail else count)
           in case ttyread_raw (nat n) m buff t s of
                (None, t1, s1) \<Rightarrow> (None, t1, s1)
              | (Some m1, t1, s1) \<Rightarrow> (Some (max 0 n, m1), t1, s1))
      else
        case ttygetc t s of
          (None, t1, s1) \<Rightarrow> (None, t1, s1)
        | (Some c, t1, s1) \<Rightarrow>
            if c = EOF then (Some (EOF, m), t1, s1)
            else ttyread_line (nat (count - 1)) 1 (word_of_int c) (m(buff := word_of_int c)) (buff + 1) t1 s1)"

definition ttycontrol :: "int \<Rightarrow> tty \<Rightarrow> kernel \<Rightarrow> int option \<times> tty \<times> kernel" where
  "ttycontrol func t s =
     (if func = 3 then
        (let s1 = snd (wait (tyisem t) s)
         in if currpid s1 = currpid s
            then (Some (uint (tyibuff t (tyitail t))), t, snd (signal (tyisem t) s1))
            else (None, t, s1))
      else if func = 4 then (Some OK, t\<lparr>tyimode := TY_IMRAW\<rparr>, s)
      else if func = 5 then (Some OK, t\<lparr>tyimode := TY_IMCOOKED\<rparr>, s)
      else if func = 6 then (Some OK, t\<lparr>tyimode := TY_IMCBREAK\<rparr>, s)
      else if func = 8 then (Some (semcount (tyisem t) s), t, s)
      else if func = 9 then (Some OK, t\<lparr>tyiecho := True\<rparr>, s)
      else if func = 10 then (Some OK, t\<lparr>tyiecho := False\<rparr>, s)
      else (Some SYSERR, t, s))"

text \<open>Initialisation. The baud rate, line control and FIFO registers are left out.\<close>

definition ttyinit :: "tty \<Rightarrow> kernel \<Rightarrow> tty \<times> kernel" where
  "ttyinit t s =
     (let (isem, s1) = semcreate 0 s;
          (osem, s2) = semcreate TY_OBUFLEN s1;
          t1 = t\<lparr>tyihead := 0, tyitail := 0, tyisem := isem, tyohead := 0, tyotail := 0, tyosem := osem,
                 tyehead := 0, tyetail := 0, tyimode := TY_IMCOOKED, tyiecho := True, tyieback := True, tyevis := True,
                 tyecrlf := True, tyicrlf := True, tyierase := True, tyierasec := TY_BACKSP, tyierasec2 := TY_BACKSP2,
                 tyeof := True, tyeofch := TY_EOFCH, tyikill := True, tyikillc := TY_KILLCH, tyicursor := 0,
                 tyoflow := True, tyoheld := False, tyostop := TY_STOPCH, tyostart := TY_STRTCH, tyocrlf := True,
                 tyifullc := TY_BELL\<rparr>
      in (ttykickout t1, s2))"

section \<open>Semaphore counts\<close>

text \<open>Scheduling leaves the semaphore table alone, in every state.\<close>

lemma semtab_queue [simp]:
  "semtab (snd (getitem p s)) = semtab s" "semtab (snd (enqueue p q s)) = semtab s" "semtab (snd (insert_q p q k s)) = semtab s"
  "semtab (set_state p st s) = semtab s" "semtab (upd_proc p f s) = semtab s"
  by (auto simp: getitem_def enqueue_def insert_q_def set_state_def upd_proc_def Let_def split: option.splits)

lemma semtab_take [simp]: "semtab (snd (getfirst q s)) = semtab s" "semtab (snd (dequeue q s)) = semtab s"
proof -
  show g: "semtab (snd (getfirst q s)) = semtab s" by (simp add: getfirst_def)
  show "semtab (snd (dequeue q s)) = semtab s"
    using g by (cases "getfirst q s") (auto simp: dequeue_def Let_def)
qed

lemma semtab_resched [simp]: "semtab (resched s) = semtab s" "semtab (snd (ready p s)) = semtab s" "semtab (snd (resched_cntl d s)) = semtab s"
proof -
  show r: "semtab (resched s) = semtab s" for s
  proof -
    have "semtab (case dequeue q u of (new, s2) \<Rightarrow> set_state new PR_CURR (s2\<lparr>currpid := new\<rparr>)\<lparr>preempt := QUANTUM\<rparr>) = semtab u" for q u
      using semtab_take(2) [of q u] by (cases "dequeue q u") (simp add: set_state_def upd_proc_def)
    then show ?thesis by (simp add: resched_def Let_def)
  qed
  then show "semtab (snd (ready p s)) = semtab s" "semtab (snd (resched_cntl d s)) = semtab s"
    by (simp_all add: ready_def resched_cntl_def Let_def)
qed

lemma semtab_signal_one: "semtab (signal_one i s) = (semtab s)(i := (semtab s i)\<lparr>scount := s32 (scount (semtab s i) + 1)\<rparr>)"
proof -
  let ?s = "upd_sem i (\<lambda>e. e\<lparr>scount := s32 (scount e + 1)\<rparr>) s"
  have "semtab (case dequeue q ?s of (pid, s2) \<Rightarrow> snd (ready pid s2)) = semtab ?s" for q
    using semtab_take(2) [of q ?s] by (cases "dequeue q ?s") simp
  then show ?thesis by (simp add: signal_one_def Let_def)
qed

definition good_sem :: "int \<Rightarrow> kernel \<Rightarrow> bool" where
  "good_sem i s \<longleftrightarrow> i \<in> {0..<NSEM} \<and> sstate (semtab s i) = S_USED \<and> - 1000 \<le> scount (semtab s i) \<and> scount (semtab s i) \<le> 1000"

lemma semcount_good: "good_sem i s \<Longrightarrow> semcount i s = scount (semtab s i)"
  by (simp add: good_sem_def semcount_def isbadsem_def)

lemma signal_good:
  assumes "good_sem i s"
  shows "semtab (snd (signal i s)) = (semtab s)(i := (semtab s i)\<lparr>scount := scount (semtab s i) + 1\<rparr>)"
  using assms by (simp add: good_sem_def signal_def isbadsem_def semtab_signal_one s32_id)

lemma signal_loop_good:
  assumes "i \<in> {0..<NSEM}" "- 1000 \<le> scount (semtab s i)" "scount (semtab s i) + int n \<le> 2000"
  shows "semtab (signal_loop n i s) = (semtab s)(i := (semtab s i)\<lparr>scount := scount (semtab s i) + int n\<rparr>)"
  using assms
proof (induction n arbitrary: s)
  case (Suc n)
  let ?s = "signal_one i s"
  have c: "semtab ?s = (semtab s)(i := (semtab s i)\<lparr>scount := scount (semtab s i) + 1\<rparr>)"
    using Suc.prems by (simp add: semtab_signal_one s32_id)
  have "semtab (signal_loop n i ?s) = (semtab ?s)(i := (semtab ?s i)\<lparr>scount := scount (semtab ?s i) + int n\<rparr>)"
    by (rule Suc.IH) (use Suc.prems c in auto)
  then show ?case by (simp add: c add.assoc)
qed simp

lemma signaln_good:
  assumes "good_sem i s" "0 \<le> n" "n \<le> 1000"
  shows "semtab (snd (signaln i n s)) = (semtab s)(i := (semtab s i)\<lparr>scount := scount (semtab s i) + n\<rparr>)"
  using assms signal_loop_good [of i "snd (resched_cntl DEFER_START s)" "nat n"]
  by (simp add: good_sem_def signaln_def isbadsem_def Let_def)

lemma wait_good:
  assumes "good_sem i s" "0 < scount (semtab s i)"
  shows "wait i s = (OK, upd_sem i (\<lambda>e. e\<lparr>scount := scount e - 1\<rparr>) s)"
  using assms by (auto simp: good_sem_def wait_def isbadsem_def Let_def s32_id upd_sem_def)

section \<open>Input: the line discipline\<close>

text \<open>Echoing touches only the echo queue and the UART.\<close>

lemma echo_keeps [simp]:
  "tyihead (eputc c t) = tyihead t" "tyitail (eputc c t) = tyitail t" "tyibuff (eputc c t) = tyibuff t" "tyisem (eputc c t) = tyisem t"
  "tyicursor (eputc c t) = tyicursor t" "tyihead (echoch c t) = tyihead t" "tyitail (echoch c t) = tyitail t"
  "tyibuff (echoch c t) = tyibuff t" "tyisem (echoch c t) = tyisem t" "tyicursor (echoch c t) = tyicursor t"
  "tyihead (erase_echo t) = tyihead t" "tyitail (erase_echo t) = tyitail t" "tyibuff (erase_echo t) = tyibuff t"
  "tyisem (erase_echo t) = tyisem t" "tyicursor (erase_echo t) = tyicursor t"
  by (simp_all add: echoch_def erase_echo_def eputc_def ttykickout_def Let_def)

text \<open>\<open>tty_in t s av line k\<close>: the input buffer holds the characters \<open>av\<close> that readers may take and the line
  \<open>line\<close> that is being typed; the semaphore counts the available ones, but for \<open>k\<close> that belong to readers which have been
  released and have not run yet.\<close>

definition tty_in :: "tty \<Rightarrow> kernel \<Rightarrow> byte list \<Rightarrow> byte list \<Rightarrow> nat \<Rightarrow> bool" where
  "tty_in t s av line k \<longleftrightarrow>
     ring TY_IBUFLEN (tyibuff t) (tyihead t) (tyitail t) (av @ line) \<and> tyicursor t = int (length line) \<and>
     good_sem (tyisem t) s \<and> int (length av) = max 0 (scount (semtab s (tyisem t))) + int k"

text \<open>The reference: what a key does to the available characters and the line.\<close>

fun line_edit :: "tty \<Rightarrow> bool \<Rightarrow> byte \<Rightarrow> byte list \<times> byte list \<Rightarrow> byte list \<times> byte list" where
  "line_edit t full c (av, line) =
     (if c = tyikillc t \<and> tyikill t then (av, [])
      else if (c = tyierasec t \<or> c = tyierasec2 t) \<and> tyierase t then (av, butlast line)
      else if c = TY_NEWLINE \<or> c = TY_RETURN then (av @ line @ [c], [])
      else if full then (av, line)
      else if c = tyeofch t \<and> tyeof t then (if line = [] then (av @ [c], []) else (av, line))
      else (av, line @ [c]))"

text \<open>The same with the books of the semaphore: it counts the available characters less the \<open>d\<close> readers that wait for one or have been released and have
  not taken theirs yet.\<close>

definition tty_acc :: "tty \<Rightarrow> kernel \<Rightarrow> byte list \<Rightarrow> byte list \<Rightarrow> int \<Rightarrow> bool" where
  "tty_acc t s av line d \<longleftrightarrow>
     ring TY_IBUFLEN (tyibuff t) (tyihead t) (tyitail t) (av @ line) \<and> tyicursor t = int (length line) \<and>
     good_sem (tyisem t) s \<and> 0 \<le> d \<and> scount (semtab s (tyisem t)) = int (length av) - d"

lemma tty_acc_in: "tty_acc t s av line d \<Longrightarrow> tty_in t s av line (nat (min d (int (length av))))"
  by (auto simp: tty_acc_def tty_in_def)

lemma tty_in_acc: "tty_in t s av line 0 \<Longrightarrow> scount (semtab s (tyisem t)) = int (length av) \<Longrightarrow> tty_acc t s av line 0"
  by (auto simp: tty_acc_def tty_in_def)

lemma tty_acc_release:
  assumes r: "ring TY_IBUFLEN (tyibuff t') (tyihead t') (tyitail t') (av @ ys)" "tyicursor t' = 0" "tyisem t' = tyisem t"
    and i: "tty_acc t s av line d" and s: "semtab s' = (semtab s)(tyisem t := (semtab s (tyisem t))\<lparr>scount := scount (semtab s (tyisem t)) + int (length ys)\<rparr>)"
  shows "tty_acc t' s' (av @ ys) [] d"
proof -
  note I = i [unfolded tty_acc_def]
  have "int (length av) + int (length ys) \<le> 128" using r(1) by (simp add: ring_def)
  then have "good_sem (tyisem t') s'" using I r(3) by (simp add: good_sem_def s)
  then show ?thesis using r I by (simp add: tty_acc_def s)
qed

lemma erase1_input:
  "tyihead (erase1 t) = tyihead t" "tyibuff (erase1 t) = tyibuff t" "tyisem (erase1 t) = tyisem t" "tyicursor (erase1 t) = tyicursor t"
  "tyitail (erase1 t) = (if tyitail t - 1 < 0 then tyitail t - 1 + TY_IBUFLEN else tyitail t - 1)"
  by (simp_all add: erase1_def Let_def)

theorem cooked_edit:
  assumes i: "tty_acc t s av line d" and room: "length av + length line < 128"
    and eof: "ch = tyeofch t \<and> tyeof t \<and> line = [] \<longrightarrow> tyitail t < 127"
    and h: "ttyhandle_cooked ch t s = (t', s')"
    and e: "line_edit t (chars_avail t s + tyicursor t \<ge> TY_IBUFLEN - 1) ch (av, line) = (av', line')"
  shows "tty_acc t' s' av' line' d"
proof -
  note I = i [unfolded tty_acc_def]
  have r: "ring 128 (tyibuff t) (tyihead t) (tyitail t) (av @ line)" and cur: "tyicursor t = int (length line)" and g: "good_sem (tyisem t) s"
    using I by auto
  let ?t1 = "if tyiecho t then echoch ch t else t"
  have t1: "tyihead ?t1 = tyihead t" "tyitail ?t1 = tyitail t" "tyibuff ?t1 = tyibuff t" "tyisem ?t1 = tyisem t" "tyicursor ?t1 = tyicursor t"
    by simp_all
  have put: "ring 128 ((tyibuff t)(tyitail t := ch)) (tyihead t) (wrap 128 (tyitail t + 1)) (av @ line @ [ch])"
    using ring_put [OF r] room by simp
  consider (kill) "ch = tyikillc t \<and> tyikill t"
    | (erase) "\<not> (ch = tyikillc t \<and> tyikill t)" "(ch = tyierasec t \<or> ch = tyierasec2 t) \<and> tyierase t"
    | (nl) "\<not> (ch = tyikillc t \<and> tyikill t)" "\<not> ((ch = tyierasec t \<or> ch = tyierasec2 t) \<and> tyierase t)" "ch = TY_NEWLINE \<or> ch = TY_RETURN"
    | (other) "\<not> (ch = tyikillc t \<and> tyikill t)" "\<not> ((ch = tyierasec t \<or> ch = tyierasec2 t) \<and> tyierase t)" "\<not> (ch = TY_NEWLINE \<or> ch = TY_RETURN)"
    by blast
  then show ?thesis
  proof cases
    case kill
    then have "tty_acc t' s' av [] d"
      using h I ring_unput [OF r refl] cur by (auto simp: ttyhandle_cooked_def Let_def tty_acc_def)
    then show ?thesis using e kill by auto
  next
    case erase
    have x: "av' = av" "line' = butlast line" using e erase by auto
    show ?thesis
    proof (cases "line = []")
      case True
      then show ?thesis using h erase i cur x by (auto simp: ttyhandle_cooked_def)
    next
      case False
      then have "ring 128 (tyibuff t) (tyihead t) (if tyitail t - 1 < 0 then tyitail t - 1 + 128 else tyitail t - 1) (av @ butlast line)"
        using ring_unput [of 128 "tyibuff t" "tyihead t" "tyitail t" "av @ butlast line" "[last line]", OF _ refl] r by (auto split: if_splits)
      moreover have "int (length line - Suc 0) = int (length line) - 1" using False by (cases line) auto
      ultimately have "tty_acc t' s' av (butlast line) d"
        using h erase False I cur by (auto simp: ttyhandle_cooked_def tty_acc_def erase1_input)
      then show ?thesis using x by simp
    qed
  next
    case nl
    then have x: "av' = av @ line @ [ch]" "line' = []" using e by auto
    have t': "t' = (store_in ch ?t1)\<lparr>tyicursor := 0\<rparr>" "s' = snd (signaln (tyisem t) (tyicursor t + 1) s)"
      using h nl t1 by (auto simp: ttyhandle_cooked_def Let_def store_in_def)
    have "tty_acc t' s' (av @ line @ [ch]) [] d"
      by (rule tty_acc_release [OF _ _ _ i])
        (use put t' t1 signaln_good [OF g, of "tyicursor t + 1"] cur room
          in \<open>simp_all add: store_in_def add.commute [of 1 "int (length line)"]\<close>)
    then show ?thesis using x by simp
  next
    case other
    show ?thesis
    proof (cases "chars_avail t s + tyicursor t \<ge> 127")
      case True
      then show ?thesis using h e other i by (auto simp: ttyhandle_cooked_def tty_acc_def)
    next
      case full: False
      show ?thesis
      proof (cases "ch = tyeofch t \<and> tyeof t")
        case True
        show ?thesis
        proof (cases "line = []")
          case line: True
          have x: "av' = av @ [ch]" "line' = []" using e other full True line by auto
          have w: "wrap 128 (tyitail t + 1) = tyitail t + 1" using eof True line by (simp add: wrap_def)
          have t': "t' = store_eof ch ?t1" "s' = snd (signal (tyisem t) s)"
            using h other full True line cur t1 by (auto simp: ttyhandle_cooked_def Let_def store_eof_def)
          have "tty_acc t' s' (av @ [ch]) [] d"
            by (rule tty_acc_release [OF _ _ _ i])
              (use put t' t1 signal_good [OF g] cur line w in \<open>simp_all add: store_eof_def\<close>)
          then show ?thesis using x by simp
        next
          case False
          then have "t' = ?t1" "s' = s" "av' = av" "line' = line"
            using h e other full True cur t1 by (auto simp: ttyhandle_cooked_def Let_def)
          then show ?thesis using i t1 by (auto simp: tty_acc_def)
        qed
      next
        case False
        have "t' = store_in ch (?t1\<lparr>tyicursor := tyicursor t + 1\<rparr>)" "s' = s" "av' = av" "line' = line @ [ch]"
          using h e other full False t1 by (auto simp: ttyhandle_cooked_def Let_def)
        then have "tty_acc t' s' av' line' d" using I put t1 by (simp add: tty_acc_def store_in_def)
        then show ?thesis .
      qed
    qed
  qed
qed

text \<open>The configuration of a terminal, which input does not change.\<close>

definition cfg :: "tty \<Rightarrow> tymode \<times> bool \<times> bool \<times> byte \<times> byte \<times> bool \<times> byte \<times> bool \<times> byte \<times> bool \<times> byte \<times> byte" where
  "cfg t = (tyimode t, tyicrlf t, tyierase t, tyierasec t, tyierasec2 t, tyeof t, tyeofch t, tyikill t, tyikillc t, tyoflow t,
     tyostop t, tyostart t)"

lemma cfg_keeps [simp]:
  "cfg (eputc c t) = cfg t" "cfg (echoch c t) = cfg t" "cfg (erase1 t) = cfg t" "cfg (ttykickout t) = cfg t"
  "cfg (t\<lparr>tyicursor := n\<rparr>) = cfg t" "cfg (t\<lparr>tyitail := n\<rparr>) = cfg t" "cfg (t\<lparr>tyoheld := b\<rparr>) = cfg t" "cfg (t\<lparr>csr := u\<rparr>) = cfg t"
  "cfg (store_in c t) = cfg t" "cfg (store_eof c t) = cfg t"
  by (simp_all add: cfg_def echoch_def erase1_def erase_echo_def eputc_def ttykickout_def store_in_def store_eof_def Let_def)

lemma cfg_cooked: "cfg (fst (ttyhandle_cooked c t s)) = cfg t"
  by (simp add: ttyhandle_cooked_def Let_def)

text \<open>What a key does while the buffer is not full.\<close>

definition cr_map :: "tty \<Rightarrow> byte \<Rightarrow> byte" where
  "cr_map t c = (if c = TY_RETURN \<and> tyicrlf t then TY_NEWLINE else c)"

definition line_key :: "tty \<Rightarrow> byte \<Rightarrow> byte list \<times> byte list \<Rightarrow> byte list \<times> byte list" where
  "line_key t c x =
     (let c' = cr_map t c in if tyoflow t \<and> (c' = tyostart t \<or> c' = tyostop t) then x else line_edit t False c' x)"

declare line_edit.simps [simp del]

lemma line_edit_cfg: "cfg t' = cfg t \<Longrightarrow> line_edit t' full c x = line_edit t full c x"
  by (cases x) (simp add: cfg_def line_edit.simps)

lemma line_key_cfg:
  assumes "cfg t' = cfg t"
  shows "line_key t' = line_key t" "cr_map t' = cr_map t"
proof -
  show c: "cr_map t' = cr_map t" using assms by (intro ext) (simp add: cfg_def cr_map_def)
  have o: "tyoflow t' = tyoflow t" "tyostart t' = tyostart t" "tyostop t' = tyostop t" using assms by (simp_all add: cfg_def)
  show "line_key t' = line_key t" by (intro ext) (auto simp: line_key_def c o line_edit_cfg [OF assms] Let_def)
qed

lemma line_key_length: "length (fst (line_key t c x)) + length (snd (line_key t c x)) \<le> length (fst x) + length (snd x) + 1"
  by (cases x) (auto simp: line_key_def line_edit.simps Let_def)

lemma chars_avail_le: "tty_acc t s av line d \<Longrightarrow> chars_avail t s \<le> int (length av)"
  by (auto simp: tty_acc_def chars_avail_def semcount_good Let_def)

lemma tty_in_cong:
  "tyibuff t' = tyibuff t \<Longrightarrow> tyihead t' = tyihead t \<Longrightarrow> tyitail t' = tyitail t \<Longrightarrow> tyisem t' = tyisem t \<Longrightarrow>
   tyicursor t' = tyicursor t \<Longrightarrow> tty_in t' s av line k = tty_in t s av line k"
  by (simp add: tty_in_def)

lemma ttyhandle_in_cooked:
  assumes "tyimode t = TY_IMCOOKED"
  shows "ttyhandle_in c t s =
    (if tyoflow t \<and> cr_map t c = tyostart t then (ttykickout (t\<lparr>tyoheld := False\<rparr>), s)
     else if tyoflow t \<and> cr_map t c = tyostop t then (t\<lparr>tyoheld := True\<rparr>, s)
     else ttyhandle_cooked (cr_map t c) (t\<lparr>tyoheld := False\<rparr>) s)"
  using assms by (simp add: ttyhandle_in_def cr_map_def Let_def)

lemma ttyhandle_in_key:
  assumes i: "tty_acc t s av line d" and m: "tyimode t = TY_IMCOOKED" and room: "length av + length line < 127"
    and eof: "\<not> (cr_map t c = tyeofch t \<and> tyeof t)"
  shows "tty_acc (fst (ttyhandle_in c t s)) (snd (ttyhandle_in c t s)) (fst (line_key t c (av, line))) (snd (line_key t c (av, line))) d"
    "cfg (fst (ttyhandle_in c t s)) = cfg t"
proof -
  let ?c = "cr_map t c" and ?t = "t\<lparr>tyoheld := False\<rparr>"
  show "cfg (fst (ttyhandle_in c t s)) = cfg t"
    using m cfg_cooked [of _ ?t s] by (simp add: ttyhandle_in_def Let_def)
  have it: "tty_acc ?t s av line d" using i by (simp add: tty_acc_def)
  have full: "\<not> chars_avail ?t s + tyicursor ?t \<ge> 127" using chars_avail_le [OF it] it room by (simp add: tty_acc_def)
  obtain t' s' av' line' where r: "ttyhandle_cooked ?c ?t s = (t', s')" "line_edit ?t False ?c (av, line) = (av', line')" by force
  have "tty_acc t' s' av' line' d"
    by (rule cooked_edit [OF it _ _ r(1)]) (use room eof r(2) full in auto)
  moreover have "line_edit t False ?c (av, line) = (av', line')" using r(2) line_edit_cfg [of ?t t] by simp
  ultimately have edit: "tty_acc (fst (ttyhandle_cooked ?c ?t s)) (snd (ttyhandle_cooked ?c ?t s))
      (fst (line_edit t False ?c (av, line))) (snd (line_edit t False ?c (av, line))) d" using r(1) by simp
  have flow: "tty_acc (ttykickout ?t) s av line d" "tty_acc (t\<lparr>tyoheld := True\<rparr>) s av line d"
    using i by (simp_all add: tty_acc_def ttykickout_def)
  show "tty_acc (fst (ttyhandle_in c t s)) (snd (ttyhandle_in c t s)) (fst (line_key t c (av, line))) (snd (line_key t c (av, line))) d"
    unfolding ttyhandle_in_cooked [OF m] line_key_def Let_def using edit flow by (auto split: if_splits)
qed

theorem rx_loop_edits:
  assumes "tty_acc t s av line d" "tyimode t = TY_IMCOOKED" "length av + length line + length cs < 128"
    and "\<forall>c \<in> set cs. \<not> (cr_map t c = tyeofch t \<and> tyeof t)"
  shows "tty_acc (fst (rx_loop cs t s)) (snd (rx_loop cs t s)) (fst (fold (line_key t) cs (av, line))) (snd (fold (line_key t) cs (av, line))) d"
  using assms
proof (induction cs arbitrary: t s av line)
  case (Cons c cs)
  let ?t = "t\<lparr>csr := (csr t)\<lparr>rx_fifo := cs\<rparr>\<rparr>"
  obtain t1 s1 where h: "ttyhandle_in c ?t s = (t1, s1)" by force
  obtain av1 line1 where l: "line_key t c (av, line) = (av1, line1)" by force
  have c: "cfg ?t = cfg t" by simp
  have i: "tty_acc ?t s av line d" using Cons.prems(1) by (simp add: tty_acc_def)
  have pre: "tyimode ?t = TY_IMCOOKED" "length av + length line < 127" "\<not> (cr_map ?t c = tyeofch ?t \<and> tyeof ?t)"
    using Cons.prems(2-4) by (simp_all add: line_key_cfg(2) [OF c])
  note k = ttyhandle_in_key [OF i pre]
  have k1: "tty_acc t1 s1 av1 line1 d" using k(1) h l by (auto simp: line_key_cfg(1) [OF c])
  have c1: "cfg t1 = cfg t" using k(2) h by simp
  have "tty_acc (fst (rx_loop cs t1 s1)) (snd (rx_loop cs t1 s1)) (fst (fold (line_key t1) cs (av1, line1))) (snd (fold (line_key t1) cs (av1, line1))) d"
  proof (rule Cons.IH [OF k1])
    show "tyimode t1 = TY_IMCOOKED" using c1 Cons.prems(2) by (simp add: cfg_def)
    show "length av1 + length line1 + length cs < 128" using line_key_length [of t c "(av, line)"] l Cons.prems(3) by simp
    show "\<forall>c \<in> set cs. \<not> (cr_map t1 c = tyeofch t1 \<and> tyeof t1)"
      using Cons.prems(4) c1 line_key_cfg(2) [OF c1] by (simp add: cfg_def)
  qed
  then show ?case using h l by (simp add: line_key_cfg(1) [OF c1])
qed auto

lemma line_key_extends: "line_key t c (av, line) = (av', line') \<Longrightarrow> \<exists>zs. av' = av @ zs"
  by (auto simp: line_key_def line_edit.simps Let_def split: if_splits)

lemma line_keys_extend: "fold (line_key t) cs (av, line) = (av', line') \<Longrightarrow> \<exists>zs. av' = av @ zs"
proof (induction cs arbitrary: av line)
  case (Cons c cs)
  obtain a l where k: "line_key t c (av, line) = (a, l)" by force
  show ?case using Cons.IH [of a l] Cons.prems k line_key_extends [OF k] by auto
qed simp

section \<open>Reading\<close>

lemma ttygetc_takes:
  assumes i: "tty_in t s (c # av) line 0" and pos: "0 < scount (semtab s (tyisem t))"
  shows "fst (ttygetc t s) = Some (if tyimode t = TY_IMCOOKED \<and> tyeof t \<and> c = tyeofch t then EOF else uint c)"
    "tty_in (fst (snd (ttygetc t s))) (snd (snd (ttygetc t s))) av line 0" "cfg (fst (snd (ttygetc t s))) = cfg t"
    "tyisem (fst (snd (ttygetc t s))) = tyisem t"
    "scount (semtab (snd (snd (ttygetc t s))) (tyisem t)) = scount (semtab s (tyisem t)) - 1"
proof -
  have g: "good_sem (tyisem t) s" and r: "ring 128 (tyibuff t) (tyihead t) (tyitail t) (c # av @ line)" using i by (auto simp: tty_in_def)
  note w = wait_good [OF g pos] and q = ring_get [OF r]
  let ?t = "t\<lparr>tyihead := wrap 128 (tyihead t + 1)\<rparr>" and ?s = "upd_sem (tyisem t) (\<lambda>e. e\<lparr>scount := scount e - 1\<rparr>) s"
  have e: "ttygetc t s = (Some (if tyimode t = TY_IMCOOKED \<and> tyeof t \<and> c = tyeofch t then EOF else uint c), ?t, ?s)"
    using w q(1) by (simp add: ttygetc_def ttygetc_rest_def Let_def)
  show "fst (ttygetc t s) = Some (if tyimode t = TY_IMCOOKED \<and> tyeof t \<and> c = tyeofch t then EOF else uint c)"
    "cfg (fst (snd (ttygetc t s))) = cfg t" "tyisem (fst (snd (ttygetc t s))) = tyisem t"
    "scount (semtab (snd (snd (ttygetc t s))) (tyisem t)) = scount (semtab s (tyisem t)) - 1"
    using e by (simp_all add: cfg_def)
  show "tty_in (fst (snd (ttygetc t s))) (snd (snd (ttygetc t s))) av line 0"
    using e q(2) i pos by (auto simp: tty_in_def good_sem_def)
qed

text \<open>A complete line is read as it was typed, however many lines are waiting behind it.\<close>

lemma ttyread_line_ok:
  assumes "tty_in t s (ws @ nl # rest) line 0" "int (length (ws @ nl # rest)) = scount (semtab s (tyisem t))"
    and "nl \<in> {TY_NEWLINE, TY_RETURN}" "ch \<notin> {TY_NEWLINE, TY_RETURN}" "\<forall>w \<in> set ws. w \<notin> {TY_NEWLINE, TY_RETURN}"
    and "\<forall>w \<in> insert nl (set ws). \<not> (tyeof t \<and> w = tyeofch t)" "length ws < n"
  shows "\<exists>m' t' s'. ttyread_line n nread ch m buff t s = (Some (nread + int (length ws) + 1, m'), t', s') \<and>
    bytes_at m' buff (ws @ [nl]) \<and> writes m m' buff (length ws + 1) \<and> tty_in t' s' rest line 0"
  using assms
proof (induction ws arbitrary: n nread ch m buff t s)
  case Nil
  obtain k where n: "n = Suc k" using Nil.prems(7) by (cases n) auto
  have pos: "0 < scount (semtab s (tyisem t))" using Nil.prems(2) by simp
  note g = ttygetc_takes [OF Nil.prems(1) [simplified] pos]
  obtain t1 s1 where t1: "ttygetc t s = (Some (uint nl), t1, s1)" "tty_in t1 s1 rest line 0"
    using g(1,2) Nil.prems(6) by (cases "ttygetc t s") (auto split: if_splits)
  have "ttyread_line k (nread + 1) nl (m(buff := nl)) (buff + 1) t1 s1 = (Some (nread + 1, m(buff := nl)), t1, s1)"
    using Nil.prems(3) by (cases k) auto
  then show ?case using t1 Nil.prems(4) n by (auto simp: writes_def)
next
  case (Cons w ws)
  obtain k where n: "n = Suc k" using Cons.prems(7) by (cases n) auto
  have pos: "0 < scount (semtab s (tyisem t))" using Cons.prems(2) by simp
  note g = ttygetc_takes [OF Cons.prems(1) [simplified] pos]
  obtain t1 s1 where t1: "ttygetc t s = (Some (uint w), t1, s1)" "tty_in t1 s1 (ws @ nl # rest) line 0" "cfg t1 = cfg t" "tyisem t1 = tyisem t"
    "scount (semtab s1 (tyisem t)) = scount (semtab s (tyisem t)) - 1"
    using g Cons.prems(6) by (cases "ttygetc t s") (auto split: if_splits)
  have "\<exists>m' t' s'. ttyread_line k (nread + 1) w (m(buff := w)) (buff + 1) t1 s1 = (Some (nread + 1 + int (length ws) + 1, m'), t', s') \<and>
    bytes_at m' (buff + 1) (ws @ [nl]) \<and> writes (m(buff := w)) m' (buff + 1) (length ws + 1) \<and> tty_in t' s' rest line 0"
    by (rule Cons.IH) (use Cons.prems t1 n in \<open>auto simp: cfg_def\<close>)
  then obtain m' t' s' where r: "ttyread_line k (nread + 1) w (m(buff := w)) (buff + 1) t1 s1 = (Some (nread + 1 + int (length ws) + 1, m'), t', s')"
    "bytes_at m' (Suc buff) (ws @ [nl]) \<and> writes (m(buff := w)) m' (Suc buff) (length ws + 1)" "tty_in t' s' rest line 0" by auto
  from writes_put [OF r(2)] have "bytes_at m' buff (w # ws @ [nl])" "writes m m' buff (length (w # ws) + 1)" by simp_all
  then show ?case using r t1 n Cons.prems(4) by (auto simp: algebra_simps)
qed

section \<open>Writing\<close>

text \<open>\<open>tty_out t s es os\<close>: the echo queue holds \<open>es\<close>, the output queue \<open>os\<close>, and the semaphore counts the free slots, so
  that no writer is waiting or has been released without having stored its character.\<close>

definition tty_out :: "tty \<Rightarrow> kernel \<Rightarrow> byte list \<Rightarrow> byte list \<Rightarrow> bool" where
  "tty_out t s es os \<longleftrightarrow>
     ring TY_EBUFLEN (tyebuff t) (tyehead t) (tyetail t) es \<and> int (length es) < TY_EBUFLEN \<and>
     ring TY_OBUFLEN (tyobuff t) (tyohead t) (tyotail t) os \<and> good_sem (tyosem t) s \<and>
     scount (semtab s (tyosem t)) = TY_OBUFLEN - int (length os)"

lemma ring_empty_iff: "ring n b h t xs \<Longrightarrow> int (length xs) < n \<Longrightarrow> h = t \<longleftrightarrow> xs = []"
proof
  assume r: "ring n b h t xs" "int (length xs) < n" and "h = t"
  show "xs = []"
  proof (rule ccontr)
    assume "xs \<noteq> []"
    then have "(h + int 0) mod n \<noteq> (h + int (length xs)) mod n" using r(2) by (intro mod_add_neq) auto
    then show False using r(1) \<open>h = t\<close> by (simp add: ring_def)
  qed
qed (auto simp: ring_def)

lemma echo_loop_sends:
  assumes "ring 20 (tyebuff t) (tyehead t) (tyetail t) es" "length es < 20"
  shows "\<exists>h. echo_loop u t = (int (u - length es), t\<lparr>csr := (csr t)\<lparr>sent := sent (csr t) @ take u es\<rparr>, tyehead := h\<rparr>) \<and>
    ring 20 (tyebuff t) h (tyetail t) (drop u es)"
  using assms
proof (induction u arbitrary: t es)
  case 0
  then show ?case by (auto intro!: exI [of _ "tyehead t"])
next
  case (Suc u)
  have e: "tyehead t = tyetail t \<longleftrightarrow> es = []" using ring_empty_iff [OF Suc.prems(1)] Suc.prems(2) by simp
  show ?case
  proof (cases es)
    case Nil
    then show ?thesis using e Suc.prems by (auto intro!: exI [of _ "tyehead t"])
  next
    case (Cons c cs)
    note q = ring_get [OF Suc.prems(1) [unfolded Cons]]
    let ?t = "(uart_put c t)\<lparr>tyehead := wrap 20 (tyehead t + 1)\<rparr>"
    have r: "ring 20 (tyebuff ?t) (tyehead ?t) (tyetail ?t) cs" "length cs < 20" using q(2) Suc.prems(2) Cons by (simp_all add: uart_put_def)
    obtain h where h: "echo_loop u ?t = (int (u - length cs), ?t\<lparr>csr := (csr ?t)\<lparr>sent := sent (csr ?t) @ take u cs\<rparr>, tyehead := h\<rparr>)"
      "ring 20 (tyebuff ?t) h (tyetail ?t) (drop u cs)" using Suc.IH [OF r] by blast
    have "echo_loop (Suc u) t = echo_loop u ?t" using e q(1) Cons by (simp add: uart_put_def Let_def)
    then show ?thesis using h Cons by (auto simp: uart_put_def)
  qed
qed

lemma out_loop_sends:
  assumes "ring 64 (tyobuff t) (tyohead t) (tyotail t) os" "k \<le> length os"
  shows "\<exists>h. out_loop k t = t\<lparr>csr := (csr t)\<lparr>sent := sent (csr t) @ take k os\<rparr>, tyohead := h\<rparr> \<and>
    ring 64 (tyobuff t) h (tyotail t) (drop k os)"
  using assms
proof (induction k arbitrary: t os)
  case 0
  then show ?case by (auto intro!: exI [of _ "tyohead t"])
next
  case (Suc k)
  then obtain c cs where os: "os = c # cs" by (cases os) auto
  note q = ring_get [OF Suc.prems(1) [unfolded os]]
  let ?t = "(uart_put c t)\<lparr>tyohead := wrap 64 (tyohead t + 1)\<rparr>"
  have r: "ring 64 (tyobuff ?t) (tyohead ?t) (tyotail ?t) cs" "k \<le> length cs" using q(2) Suc.prems(2) os by (simp_all add: uart_put_def)
  obtain h where h: "out_loop k ?t = ?t\<lparr>csr := (csr ?t)\<lparr>sent := sent (csr ?t) @ take k cs\<rparr>, tyohead := h\<rparr>"
    "ring 64 (tyobuff ?t) h (tyotail ?t) (drop k cs)" using Suc.IH [OF r] by blast
  have "out_loop (Suc k) t = out_loop k ?t" using q(1) by (simp add: uart_put_def Let_def)
  then show ?case using h os by (auto simp: uart_put_def)
qed

lemma out_idle_iff: "tty_out t s es os \<Longrightarrow> out_idle t s \<longleftrightarrow> es = [] \<and> os = []"
  using ring_empty_iff [of 20 "tyebuff t" "tyehead t" "tyetail t" es]
  by (auto simp: tty_out_def out_idle_def semcount_good)

lemma etbei_off_keeps [simp]: "tty_out (etbei_off t) s es os = tty_out t s es os" "sent (csr (etbei_off t)) = sent (csr t)"
  by (simp_all add: tty_out_def etbei_off_def)

lemma ttyhandle_out_steps:
  assumes "\<not> tyoheld t" "\<not> out_idle t s" "echo_loop (nat (64 - txfifo_lvl (csr t))) t = (us, t1)"
    "nat (min us (64 - semcount (tyosem t1) s)) = n" "out_loop n t1 = t2"
    "s2 = (if n > 0 then snd (signaln (tyosem t2) (int n) s) else s)"
  shows "ttyhandle_out t s = (if out_idle t2 s2 then (etbei_off t2, s2) else (t2, s2))"
  using assms(1,2) unfolding ttyhandle_out_def Let_def assms(3) prod.case assms(4,5) assms(6) [symmetric] by simp

lemma ttyhandle_out_sends:
  assumes o: "tty_out t s es os" and held: "\<not> tyoheld t" and u: "txfifo_lvl (csr t) = 64 - int u"
    and h: "ttyhandle_out t s = (t', s')"
  shows "sent (csr t') = sent (csr t) @ take u (es @ os)" "tty_out t' s' (drop u es) (drop (u - length es) os)"
proof -
  note O = o [unfolded tty_out_def]
  obtain eh where e: "echo_loop u t = (int (u - length es), t\<lparr>csr := (csr t)\<lparr>sent := sent (csr t) @ take u es\<rparr>, tyehead := eh\<rparr>)"
    "ring 20 (tyebuff t) eh (tyetail t) (drop u es)" using echo_loop_sends [of t es u] O by auto
  let ?t1 = "t\<lparr>csr := (csr t)\<lparr>sent := sent (csr t) @ take u es\<rparr>, tyehead := eh\<rparr>" and ?n = "min (u - length es) (length os)"
  obtain oh where l: "out_loop ?n ?t1 = ?t1\<lparr>csr := (csr ?t1)\<lparr>sent := sent (csr ?t1) @ take ?n os\<rparr>, tyohead := oh\<rparr>"
    "ring 64 (tyobuff t) oh (tyotail t) (drop ?n os)" using out_loop_sends [of ?t1 os ?n] O by auto
  let ?t2 = "?t1\<lparr>csr := (csr ?t1)\<lparr>sent := sent (csr ?t1) @ take ?n os\<rparr>, tyohead := oh\<rparr>"
    and ?s = "if ?n > 0 then snd (signaln (tyosem t) (int ?n) s) else s"
  have g: "good_sem (tyosem t) s" and c: "scount (semtab s (tyosem t)) = 64 - int (length os)" and len: "int (length os) \<le> 64"
    using O by (simp_all add: ring_def)
  have s: "semtab ?s = (semtab s)(tyosem t := (semtab s (tyosem t))\<lparr>scount := scount (semtab s (tyosem t)) + int ?n\<rparr>)"
    using signaln_good [OF g, of "int ?n"] len by (cases "?n = 0") auto
  have "min (int (u - length es)) (64 - (64 - int (length os))) = int ?n" by simp
  then have nat: "nat (min (int (u - length es)) (64 - semcount (tyosem t) s)) = ?n" by (simp only: semcount_good [OF g] c nat_int)
  have drop: "drop ?n os = drop (u - length es) os" "take ?n os = take (u - length es) os" by (simp_all add: min_def)
  have o2: "tty_out ?t2 ?s (drop u es) (drop (u - length es) os)"
  proof -
    have "good_sem (tyosem t) ?s" "scount (semtab ?s (tyosem t)) = 64 - int (length (drop (u - length es) os))"
      unfolding good_sem_def s using g c len by (auto simp: good_sem_def)
    moreover have "int (length (drop u es)) < 20" using O by auto
    ultimately show ?thesis using O e(2) l(2) unfolding drop(1) tty_out_def by (simp split del: if_split)
  qed
  have main: "(t', s') = (if out_idle ?t2 ?s then (etbei_off ?t2, ?s) else (?t2, ?s))" if "\<not> out_idle t s"
    unfolding h [symmetric] by (rule ttyhandle_out_steps [OF held that _ _ l(1)]) (use u e(1) nat in simp_all)
  have idle: "out_idle t s \<Longrightarrow> (t', s') = (etbei_off t, s)" using h held by (simp add: ttyhandle_out_def)
  show "sent (csr t') = sent (csr t) @ take u (es @ os)"
    using main idle out_idle_iff [OF o] drop(2) by (cases "out_idle t s"; cases "out_idle ?t2 ?s") auto
  show "tty_out t' s' (drop u es) (drop (u - length es) os)"
    using main idle out_idle_iff [OF o] o o2 by (cases "out_idle t s"; cases "out_idle ?t2 ?s") auto
qed

text \<open>What the terminal sends for a character.\<close>

definition out_bytes :: "tty \<Rightarrow> byte \<Rightarrow> byte list" where
  "out_bytes t c = (if c = TY_NEWLINE \<and> tyocrlf t then [TY_RETURN, c] else [c])"

lemma ttyputc1_appends:
  assumes o: "tty_out t s es os" and room: "length os < 64"
  shows "\<exists>b n i s'. ttyputc1 c t s = (Some OK, t\<lparr>tyobuff := b, tyotail := n, csr := (csr t)\<lparr>ier := i\<rparr>\<rparr>, s') \<and>
    tty_out (t\<lparr>tyobuff := b, tyotail := n, csr := (csr t)\<lparr>ier := i\<rparr>\<rparr>) s' es (os @ [c])"
proof -
  note O = o [unfolded tty_out_def]
  have g: "good_sem (tyosem t) s" and pos: "0 < scount (semtab s (tyosem t))" using O room by auto
  have put: "ring 64 ((tyobuff t)(tyotail t := c)) (tyohead t) (wrap 64 (tyotail t + 1)) (os @ [c])" using O room by (intro ring_put) auto
  let ?s = "upd_sem (tyosem t) (\<lambda>e. e\<lparr>scount := scount e - 1\<rparr>) s"
  have "ttyputc1 c t s = (Some OK, ttyputc_rest c t, ?s)" by (simp add: ttyputc1_def wait_good [OF g pos])
  moreover have "tty_out (ttyputc_rest c t) ?s es (os @ [c])"
    using O put pos by (simp add: tty_out_def ttyputc_rest_def ttykickout_def good_sem_def)
  ultimately show ?thesis unfolding ttyputc_rest_def ttykickout_def by fastforce
qed

lemma ttyputc_appends:
  assumes o: "tty_out t s es os" and room: "length os + length (out_bytes t c) \<le> 64"
  shows "\<exists>b n i s'. ttyputc c t s = (Some OK, t\<lparr>tyobuff := b, tyotail := n, csr := (csr t)\<lparr>ier := i\<rparr>\<rparr>, s') \<and>
    tty_out (t\<lparr>tyobuff := b, tyotail := n, csr := (csr t)\<lparr>ier := i\<rparr>\<rparr>) s' es (os @ out_bytes t c)"
proof (cases "c = TY_NEWLINE \<and> tyocrlf t")
  case True
  then have "length os < 64" "length (os @ [13]) < 64" using room by (simp_all add: out_bytes_def)
  obtain b n i s1 where 1: "ttyputc1 13 t s = (Some OK, t\<lparr>tyobuff := b, tyotail := n, csr := (csr t)\<lparr>ier := i\<rparr>\<rparr>, s1)"
    "tty_out (t\<lparr>tyobuff := b, tyotail := n, csr := (csr t)\<lparr>ier := i\<rparr>\<rparr>) s1 es (os @ [13])"
    using ttyputc1_appends [OF o \<open>length os < 64\<close>] by blast
  show ?thesis using ttyputc1_appends [OF 1(2) \<open>length (os @ [13]) < 64\<close>, of c] True by (auto simp: ttyputc_def 1(1) out_bytes_def)
next
  case False
  then have r: "length os < 64" using room by (auto simp: out_bytes_def split: if_splits)
  have "ttyputc c t s = ttyputc1 c t s" "out_bytes t c = [c]" using False by (auto simp: ttyputc_def out_bytes_def)
  then show ?thesis using ttyputc1_appends [OF o r, of c] by simp
qed

lemma ttywrite_loop_appends:
  assumes "tty_out t s es os" "length os + length (concat (map (out_bytes t) cs)) \<le> 64" "bytes_at m buff cs"
  shows "\<exists>b n i s'. ttywrite_loop (length cs) m buff t s = (Some OK, t\<lparr>tyobuff := b, tyotail := n, csr := (csr t)\<lparr>ier := i\<rparr>\<rparr>, s') \<and>
    tty_out (t\<lparr>tyobuff := b, tyotail := n, csr := (csr t)\<lparr>ier := i\<rparr>\<rparr>) s' es (os @ concat (map (out_bytes t) cs))"
  using assms
proof (induction cs arbitrary: buff t s os)
  case Nil
  show ?case
    by (rule exI [of _ "tyobuff t"], rule exI [of _ "tyotail t"], rule exI [of _ "ier (csr t)"]) (use Nil in simp)
next
  case (Cons c cs)
  have "length os + length (out_bytes t c) \<le> 64" using Cons.prems(2) by simp
  from ttyputc_appends [OF Cons.prems(1) this] obtain b n i s1 where
    1: "ttyputc c t s = (Some OK, t\<lparr>tyobuff := b, tyotail := n, csr := (csr t)\<lparr>ier := i\<rparr>\<rparr>, s1)"
      "tty_out (t\<lparr>tyobuff := b, tyotail := n, csr := (csr t)\<lparr>ier := i\<rparr>\<rparr>) s1 es (os @ out_bytes t c)" by blast
  let ?t = "t\<lparr>tyobuff := b, tyotail := n, csr := (csr t)\<lparr>ier := i\<rparr>\<rparr>"
  have same: "out_bytes ?t = out_bytes t" by (intro ext) (simp add: out_bytes_def)
  have "length (os @ out_bytes t c) + length (concat (map (out_bytes ?t) cs)) \<le> 64" "bytes_at m (buff + 1) cs" "m buff = c"
    using Cons.prems(2,3) same by simp_all
  from Cons.IH [OF 1(2) this(1,2)] this(3) show ?case using 1(1) same by auto
qed

end
