(* ===== verification/Tty_Props.thy ===== *)
theory Tty_Props
  imports Sample_States Tty
begin

text \<open>
  What the terminal promises its two sides: keys typed at it are edited into lines, lines are read as they were typed, and
  characters written leave in order. The sample terminal is the one \<^verbatim>\<open>ttyinit\<close> sets up on the idle system.
\<close>

section \<open>A terminal after its initialisation\<close>

lemma ttyinit_ready:
  assumes "nextsem s \<in> {0..<NSEM}" "i \<in> {0..<NSEM}" "j \<in> {0..<NSEM}" "i \<noteq> j" "sstate (semtab s i) = S_FREE" "sstate (semtab s j) = S_FREE"
    and "ttyinit t s = (t', s')"
  shows "tty_in t' s' [] [] 0" "scount (semtab s' (tyisem t')) = 0" "tty_out t' s' [] []" "csr t' = (csr t)\<lparr>ier := 3\<rparr>" "\<not> tyoheld t'"
    "tyimode t' = TY_IMCOOKED" "tyierase t'" "tyierasec t' = 8" "tyierasec2 t' = 127" "tyicrlf t'" "tyeofch t' = 4" "tyikillc t' = 21" "tyoflow t'"
    "tyostart t' = 17" "tyostop t' = 19" "tyocrlf t'"
proof -
  obtain a s1 where c1: "semcreate 0 s = (a, s1)" by force
  obtain b s2 where c2: "semcreate TY_OBUFLEN s1 = (b, s2)" by force
  note R1 = semcreate_result [OF assms(1) c1]
  have "a \<noteq> SYSERR" using R1(3) assms(2,5) by force
  note A = R1(4) [OF this]
  have m1: "semtab s1 = (semtab s)(a := (semtab s a)\<lparr>sstate := S_USED, scount := 0\<rparr>)"
    using arg_cong [OF conjunct2 [OF conjunct2 [OF A]], of semtab] by simp
  note R2 = semcreate_result [OF R1(1) c2]
  have "sstate (semtab s1 i) = S_FREE \<or> sstate (semtab s1 j) = S_FREE"
    using assms(4-6) by (auto simp: m1)
  then have "b \<noteq> SYSERR" using R2(3) assms(2,3) by force
  note B = R2(4) [OF this]
  have m2: "semtab s2 = (semtab s1)(b := (semtab s1 b)\<lparr>sstate := S_USED, scount := 64\<rparr>)"
    using arg_cong [OF conjunct2 [OF conjunct2 [OF B]], of semtab] by simp
  have ne: "a \<noteq> b" using B by (auto simp: m1)
  have s': "s' = s2" "tyisem t' = a" "tyosem t' = b" "tyihead t' = 0" "tyitail t' = 0" "tyohead t' = 0" "tyotail t' = 0" "tyehead t' = 0" "tyetail t' = 0"
      "tyicursor t' = 0" using assms(7) c1 c2 by (auto simp: ttyinit_def ttykickout_def Let_def)
  have fa: "sstate (semtab s' a) = S_USED" "scount (semtab s' a) = 0" and fb: "sstate (semtab s' b) = S_USED" "scount (semtab s' b) = 64"
    using ne by (simp_all add: s' m1 m2)
  show "tty_in t' s' [] [] 0"
    using fa conjunct1 [OF A] by (simp add: tty_in_def good_sem_def ring_def s' [unfolded s'(1)])
  show "scount (semtab s' (tyisem t')) = 0" using fa by (simp add: s'(2))
  show "tty_out t' s' [] []"
    using fb conjunct1 [OF B] by (simp add: tty_out_def good_sem_def ring_def s' [unfolded s'(1)])
qed (use assms(7) in \<open>auto simp: ttyinit_def ttykickout_def Let_def split: prod.splits\<close>)

definition con0 :: tty where
  "con0 = \<lparr>tyihead = 0, tyitail = 0, tyibuff = \<lambda>_. 0, tyisem = 0, tyohead = 0, tyotail = 0, tyobuff = \<lambda>_. 0, tyosem = 0, tyehead = 0, tyetail = 0,
     tyebuff = \<lambda>_. 0, tyimode = TY_IMRAW, tyiecho = False, tyieback = False, tyevis = False, tyecrlf = False, tyicrlf = False,
     tyierase = False, tyierasec = 0, tyierasec2 = 0, tyeof = False, tyeofch = 0, tyikill = False, tyikillc = 0, tyicursor = 0,
     tyoflow = False, tyoheld = False, tyostop = 0, tyostart = 0, tyocrlf = False, tyifullc = 0,
     csr = \<lparr>rx_fifo = [], sent = [], txfifo_lvl = 0, ier = 0\<rparr>\<rparr>"

definition con :: tty where "con = fst (ttyinit con0 idle)"

definition online :: kernel where "online = snd (ttyinit con0 idle)"

lemma con_count: "scount (semtab online (tyisem con)) = 0"
  using ttyinit_ready(2) [of idle 0 1 con0 con online] idle_facts(3) idle_facts(10) [of 0] idle_facts(10) [of 1] by (simp add: con_def online_def)

lemma con_ready: "tty_in con online [] [] 0" "tty_out con online [] []" "csr con = \<lparr>rx_fifo = [], sent = [], txfifo_lvl = 0, ier = 3\<rparr>"
    "\<not> tyoheld con" "tyimode con = TY_IMCOOKED" "tyierase con" "tyierasec con = 8" "tyierasec2 con = 127" "tyicrlf con" "tyeofch con = 4"
    "tyikillc con = 21" "tyoflow con" "tyostart con = 17" "tyostop con = 19" "tyocrlf con"
  using ttyinit_ready [of idle 0 1 con0 con online] idle_facts(3) idle_facts(10) [of 0] idle_facts(10) [of 1]
  by (simp_all add: con_def online_def con0_def)

section \<open>The line discipline\<close>

lemma tty_acc_semtab: "semtab s' = semtab s \<Longrightarrow> tty_acc t s' av line d = tty_acc t s av line d"
  by (simp add: tty_acc_def good_sem_def)

text \<open>C30: In cooked mode, for up to 127 characters in the buffer and no end-of-file character among those typed, a receive interrupt edits the typed
  characters as the line discipline says: a character is added to the line, erase takes the last one back, kill empties the line, and a newline appends
  the line to the characters available to readers, never touching what is already available. The semaphore of the readers is signalled once for
  every character that becomes available: its count rises by their number, the readers that wait or have been released staying accounted for.\<close>

theorem tty_line_discipline:
  assumes "tty_acc t s av line d" "tyimode t = TY_IMCOOKED" "length av + length line + length (rx_fifo (csr t)) < 128"
    and "\<forall>c \<in> set (rx_fifo (csr t)). \<not> (cr_map t c = tyeofch t \<and> tyeof t)"
    and "iir AND 1 = 0" "iir AND 14 = 4" "ttyhandler iir lsr t s = (t', s')" "fold (line_key t) (rx_fifo (csr t)) (av, line) = (av', line')"
  shows "tty_acc t' s' av' line' d \<and> (\<exists>zs. av' = av @ zs \<and> semcount (tyisem t') s' = semcount (tyisem t) s + int (length zs))"
proof -
  let ?s = "snd (resched_cntl DEFER_START s)"
  have i: "tty_acc t ?s av line d" using assms(1) by (simp add: tty_acc_semtab [of ?s s])
  obtain t1 s1 where r: "rx_loop (rx_fifo (csr t)) t ?s = (t1, s1)" by force
  have h: "t' = t1" "s' = snd (resched_cntl DEFER_STOP s1)" using assms(5-7) r by (simp_all add: ttyhandler_def)
  have acc: "tty_acc t' s' av' line' d"
    using rx_loop_edits [OF i assms(2-4)] r assms(8) by (simp add: h tty_acc_semtab [of "snd (resched_cntl DEFER_STOP s1)" s1])
  obtain zs where z: "av' = av @ zs" using line_keys_extend [OF assms(8)] by blast
  have "semcount (tyisem t') s' = int (length av') - d" "semcount (tyisem t) s = int (length av) - d"
    using acc assms(1) by (simp_all add: tty_acc_def semcount_good)
  then show ?thesis using acc z by simp
qed

lemma con_line: "fold (line_key (con\<lparr>csr := u\<rparr>)) [97, 99, 127, 98, 13, 100] ([], []) = ([97, 98, 10], [100])"
  by (simp add: line_key_def line_edit.simps cr_map_def con_ready Let_def)

theorem tty_line_discipline_witness:
  "\<exists>t s. ttyhandler 4 0 (con\<lparr>csr := (csr con)\<lparr>rx_fifo := [97, 99, 127, 98, 13, 100]\<rparr>\<rparr>) online = (t, s) \<and> tty_acc t s [97, 98, 10] [100] 0 \<and>
     semcount (tyisem t) s = 3"
proof -
  let ?t = "con\<lparr>csr := (csr con)\<lparr>rx_fifo := [97, 99, 127, 98, 13, 100]\<rparr>\<rparr>"
  obtain t s where h: "ttyhandler 4 0 ?t online = (t, s)" by force
  have i: "tty_acc ?t online [] [] 0" using con_ready(1) con_count by (simp add: tty_in_def tty_acc_def)
  have "semcount (tyisem ?t) online = 0" using i by (simp add: tty_acc_def semcount_good)
  then show ?thesis
    using tty_line_discipline [OF i _ _ _ _ _ h] con_line [of "csr ?t"] h by (simp add: con_ready cr_map_def)
qed

section \<open>Reading a line\<close>

lemma uint_not_EOF: "uint (c :: byte) \<noteq> EOF"
  using uint_ge_0 [of c] by linarith

text \<open>C31: In cooked mode \<^verbatim>\<open>ttyread\<close> returns the next available line, newline included, when the caller's buffer has room for
  it: as many characters as it says, in the order they were typed, and no other byte of memory changes. Later lines and the line being
  typed stay in the terminal.\<close>

theorem ttyread_line:
  assumes "tty_in t s (ws @ nl # rest) line 0" "tyimode t = TY_IMCOOKED" "nl \<in> {TY_NEWLINE, TY_RETURN}"
    and "\<forall>w \<in> set ws. w \<notin> {TY_NEWLINE, TY_RETURN}" "\<forall>w \<in> insert nl (set ws). \<not> (tyeof t \<and> w = tyeofch t)" "int (length ws) < count"
  shows "\<exists>m' t' s'. ttyread m buff count t s = (Some (int (length ws) + 1, m'), t', s') \<and>
    bytes_at m' buff (ws @ [nl]) \<and> writes m m' buff (length ws + 1) \<and> tty_in t' s' rest line 0"
proof -
  have n: "int (length (ws @ nl # rest)) = scount (semtab s (tyisem t))"
    using assms(1) by (auto simp: tty_in_def max_def split: if_splits)
  obtain c cs where c: "ws @ nl # rest = c # cs" by (cases ws) auto
  have "fst (ttygetc t s) = Some (uint c)"
    using ttygetc_takes(1) [of t s c cs line] assms(1,5) n c by (cases ws) auto
  then have "ttyread m buff count t s = ttyread_line (nat count) 0 0 m buff t s"
    using assms(2,6) uint_not_EOF [of c] by (cases "nat count") (auto simp: ttyread_def nat_diff_distrib split: prod.splits)
  then show ?thesis
    using ttyread_line_ok [OF assms(1) n assms(3) _ assms(4,5), of 0 "nat count" 0 m buff] assms(6) by simp
qed

definition typed :: tty where
  "typed = con\<lparr>tyibuff := \<lambda>i. if i = 126 then 104 else if i = 127 then 105 else 10, tyihead := 126, tyitail := 1\<rparr>"

lemma typed_in: "tty_in typed (upd_sem (tyisem con) (\<lambda>e. e\<lparr>scount := 3\<rparr>) online) [104, 105, 10] [] 0"
  using con_ready(1) by (auto simp: tty_in_def typed_def good_sem_def ring_def numeral_3_eq_3 less_Suc_eq)

theorem ttyread_line_witness:
  "\<exists>m' t' s'. ttyread (\<lambda>_. 0) 1000 80 typed (upd_sem (tyisem con) (\<lambda>e. e\<lparr>scount := 3\<rparr>) online) = (Some (3, m'), t', s') \<and>
     bytes_at m' 1000 [104, 105, 10] \<and> m' 1003 = 0 \<and> tty_in t' s' [] [] 0"
  using ttyread_line [of typed _ "[104, 105]" 10 "[]" "[]" 80 "\<lambda>_. 0" 1000] typed_in
  by (force simp: typed_def con_ready writes_def)

section \<open>Writing\<close>

lemma ttywrite_loop_eq: "ttywrite m buff (int (length cs)) t s = ttywrite_loop (length cs) m buff t s"
  by (simp add: ttywrite_def)

text \<open>C32: When the characters of a call of \<^verbatim>\<open>ttywrite\<close> fit, with the carriage returns added, into the free part of the 64-byte output queue, output is not
  held, and no writer is waiting for room or has been released from waiting without having run, the call returns without blocking and the
  characters leave the terminal in the order they were written, each newline preceded by a carriage return, behind the echo and behind what was written
  before; the next transmit interrupt sends as many of them as the transmitter has room for and the rest stays queued in order.\<close>

theorem tty_output_order:
  assumes "tty_out t s es os" "length os + length (concat (map (out_bytes t) cs)) \<le> 64" "bytes_at m buff cs"
    and "\<not> tyoheld t" "txfifo_lvl (csr t) = 64 - int u" "ttywrite m buff (int (length cs)) t s = (r, t1, s1)" "ttyhandle_out t1 s1 = (t2, s2)"
  shows "r = Some OK \<and> sent (csr t2) = sent (csr t) @ take u (es @ os @ concat (map (out_bytes t) cs)) \<and>
    tty_out t2 s2 (drop u es) (drop (u - length es) (os @ concat (map (out_bytes t) cs)))"
proof -
  let ?out = "concat (map (out_bytes t) cs)"
  obtain b n i where w: "r = Some OK" "t1 = t\<lparr>tyobuff := b, tyotail := n, csr := (csr t)\<lparr>ier := i\<rparr>\<rparr>" "tty_out t1 s1 es (os @ ?out)"
    using ttywrite_loop_appends [OF assms(1-3)] assms(6) unfolding ttywrite_loop_eq by auto
  note h = ttyhandle_out_sends [OF w(3) _ _ assms(7), of u]
  show ?thesis using h w(1,2) assms(4,5) by simp
qed

theorem tty_output_order_witness:
  "\<exists>t1 s1. ttywrite ((\<lambda>_. 0)(50 := 104, 51 := 10)) 50 2 con online = (Some OK, t1, s1) \<and>
     sent (csr (fst (ttyhandle_out t1 s1))) = [104, 13, 10]"
proof -
  let ?m = "(\<lambda>_. 0)(50 := 104, 51 := 10) :: bmem"
  obtain r t1 s1 t2 s2 where e: "ttywrite ?m 50 (int (length [104, 10 :: byte])) con online = (r, t1, s1)" "ttyhandle_out t1 s1 = (t2, s2)"
    by (metis prod_cases3 surj_pair)
  show ?thesis using tty_output_order [OF con_ready(2) _ _ _ _ e, of 64] e by (simp add: con_ready out_bytes_def)
qed

end
