(* ===== verification/Devtab.thy ===== *)
theory Devtab
  imports Clib_String
begin

text \<open>
  The device switch table of \<^verbatim>\<open>system/conf.c\<close> with the entry format of \<^verbatim>\<open>include/conf.h\<close>, the range check of
  \<^verbatim>\<open>include/device.h\<close>, and the search for a device by name, \<^verbatim>\<open>system/getdev.c\<close>. A function pointer is the name of the procedure
  it points to.
\<close>

datatype devproc =
    Ttyinit | Ionull | Ttyread | Ttywrite | Ioerr | Ttygetc | Ttyputc | Ttycontrol | Ttyhandler | Gpioinit |
    Gpioread | Gpiowrite | Gpiocontrol | Gpiohandler | Ethinit | Ethread | Ethwrite | Ethcontrol | Ethhandler |
    Naminit | Namopen | Rdsinit | Rdsopen | Rdsclose | Rdsread | Rdswrite | Rdscontrol | Raminit | Ramopen |
    Ramclose | Ramread | Ramwrite | Rfsinit | Rfsopen | Rfscontrol | Rflinit | Rflclose | Rflread | Rflwrite |
    Rflseek | Rflgetc | Rflputc | Lfsinit | Lfsopen | Lflinit | Lflclose | Lflread | Lflwrite | Lflseek | Lflgetc
    | Lflputc | Lflcontrol | Spiinit | Spicontrol

record dentry =
  dvnum :: int
  dvminor :: int
  dvname :: string
  dvinit :: devproc
  dvopen :: devproc
  dvclose :: devproc
  dvread :: devproc
  dvwrite :: devproc
  dvseek :: devproc
  dvgetc :: devproc
  dvputc :: devproc
  dvcntl :: devproc
  dvcsr :: int
  dvintr :: devproc
  dvirq :: int

abbreviation (input) NDEVS :: int where "NDEVS \<equiv> 30"
abbreviation (input) DEVNAMLEN :: int where "DEVNAMLEN \<equiv> 16"

definition isbaddev :: "int \<Rightarrow> bool" where
  "isbaddev f \<longleftrightarrow> f < 0 \<or> f \<ge> NDEVS"

definition devtab :: "dentry list" where
  "devtab =
   [
    dentry.make 0 0 ''CONSOLE'' Ttyinit Ionull Ionull Ttyread Ttywrite Ioerr Ttygetc Ttyputc Ttycontrol 0x44e09000 Ttyhandler 72,
    dentry.make 1 0 ''GPIO0'' Gpioinit Ionull Ionull Gpioread Gpiowrite Ioerr Ionull Ionull Gpiocontrol 0x44e07000 Gpiohandler 96,
    dentry.make 2 1 ''GPIO1'' Gpioinit Ionull Ionull Gpioread Gpiowrite Ioerr Ionull Ionull Gpiocontrol 0x4804c000 Gpiohandler 98,
    dentry.make 3 2 ''GPIO2'' Gpioinit Ionull Ionull Gpioread Gpiowrite Ioerr Ionull Ionull Gpiocontrol 0x481ac000 Gpiohandler 32,
    dentry.make 4 3 ''GPIO3'' Gpioinit Ionull Ionull Gpioread Gpiowrite Ioerr Ionull Ionull Gpiocontrol 0x481ae000 Gpiohandler 62,
    dentry.make 5 0 ''NULLDEV'' Ionull Ionull Ionull Ionull Ionull Ioerr Ionull Ionull Ioerr 0 Ioerr 0,
    dentry.make 6 0 ''ETHER0'' Ethinit Ioerr Ioerr Ethread Ethwrite Ioerr Ioerr Ioerr Ethcontrol 0 Ethhandler 0,
    dentry.make 7 0 ''NAMESPACE'' Naminit Namopen Ioerr Ioerr Ioerr Ioerr Ioerr Ioerr Ioerr 0 Ioerr 0,
    dentry.make 8 0 ''RDISK'' Rdsinit Rdsopen Rdsclose Rdsread Rdswrite Ioerr Ioerr Ioerr Rdscontrol 0 Ionull 0,
    dentry.make 9 0 ''RAM0'' Raminit Ramopen Ramclose Ramread Ramwrite Ioerr Ioerr Ioerr Ioerr 0 Ionull 0,
    dentry.make 10 0 ''RFILESYS'' Rfsinit Rfsopen Ioerr Ioerr Ioerr Ioerr Ioerr Ioerr Rfscontrol 0 Ionull 0,
    dentry.make 11 0 ''RFILE0'' Rflinit Ioerr Rflclose Rflread Rflwrite Rflseek Rflgetc Rflputc Ioerr 0 Ionull 0,
    dentry.make 12 1 ''RFILE1'' Rflinit Ioerr Rflclose Rflread Rflwrite Rflseek Rflgetc Rflputc Ioerr 0 Ionull 0,
    dentry.make 13 2 ''RFILE2'' Rflinit Ioerr Rflclose Rflread Rflwrite Rflseek Rflgetc Rflputc Ioerr 0 Ionull 0,
    dentry.make 14 3 ''RFILE3'' Rflinit Ioerr Rflclose Rflread Rflwrite Rflseek Rflgetc Rflputc Ioerr 0 Ionull 0,
    dentry.make 15 4 ''RFILE4'' Rflinit Ioerr Rflclose Rflread Rflwrite Rflseek Rflgetc Rflputc Ioerr 0 Ionull 0,
    dentry.make 16 5 ''RFILE5'' Rflinit Ioerr Rflclose Rflread Rflwrite Rflseek Rflgetc Rflputc Ioerr 0 Ionull 0,
    dentry.make 17 6 ''RFILE6'' Rflinit Ioerr Rflclose Rflread Rflwrite Rflseek Rflgetc Rflputc Ioerr 0 Ionull 0,
    dentry.make 18 7 ''RFILE7'' Rflinit Ioerr Rflclose Rflread Rflwrite Rflseek Rflgetc Rflputc Ioerr 0 Ionull 0,
    dentry.make 19 8 ''RFILE8'' Rflinit Ioerr Rflclose Rflread Rflwrite Rflseek Rflgetc Rflputc Ioerr 0 Ionull 0,
    dentry.make 20 9 ''RFILE9'' Rflinit Ioerr Rflclose Rflread Rflwrite Rflseek Rflgetc Rflputc Ioerr 0 Ionull 0,
    dentry.make 21 0 ''LFILESYS'' Lfsinit Lfsopen Ioerr Ioerr Ioerr Ioerr Ioerr Ioerr Ioerr 0 Ionull 0,
    dentry.make 22 0 ''LFILE0'' Lflinit Ioerr Lflclose Lflread Lflwrite Lflseek Lflgetc Lflputc Lflcontrol 0 Ionull 0,
    dentry.make 23 1 ''LFILE1'' Lflinit Ioerr Lflclose Lflread Lflwrite Lflseek Lflgetc Lflputc Lflcontrol 0 Ionull 0,
    dentry.make 24 2 ''LFILE2'' Lflinit Ioerr Lflclose Lflread Lflwrite Lflseek Lflgetc Lflputc Lflcontrol 0 Ionull 0,
    dentry.make 25 3 ''LFILE3'' Lflinit Ioerr Lflclose Lflread Lflwrite Lflseek Lflgetc Lflputc Lflcontrol 0 Ionull 0,
    dentry.make 26 4 ''LFILE4'' Lflinit Ioerr Lflclose Lflread Lflwrite Lflseek Lflgetc Lflputc Lflcontrol 0 Ionull 0,
    dentry.make 27 5 ''LFILE5'' Lflinit Ioerr Lflclose Lflread Lflwrite Lflseek Lflgetc Lflputc Lflcontrol 0 Ionull 0,
    dentry.make 28 0 ''SPI0'' Spiinit Ionull Ionull Ionull Ionull Ionull Ionull Ionull Spicontrol 0x48030000 Ionull 0,
    dentry.make 29 1 ''SPI1'' Spiinit Ionull Ionull Ionull Ionull Ionull Ionull Ionull Spicontrol 0x481a0000 Ionull 0]"


text \<open>\<open>lit\<close> gives the addresses at which the string literals of the table were placed.\<close>

fun getdev_loop :: "(string \<Rightarrow> nat) \<Rightarrow> bmem \<Rightarrow> nat \<Rightarrow> dentry list \<Rightarrow> int \<Rightarrow> int" where
  "getdev_loop lit m devname [] n = SYSERR"
| "getdev_loop lit m devname (d # ds) n =
     (if strncmp m devname (lit (dvname d)) DEVNAMLEN \<noteq> 0 then n else getdev_loop lit m devname ds (n + 1))"

definition getdev :: "(string \<Rightarrow> nat) \<Rightarrow> bmem \<Rightarrow> nat \<Rightarrow> int" where
  "getdev lit m devname = getdev_loop lit m devname devtab 0"

section \<open>The table is well formed\<close>

lemma devtab_length [simp]: "length devtab = 30"
  by (simp add: devtab_def)

lemma devtab_nums: "map dvnum devtab = map int [0..<30]"
  by (simp add: devtab_def dentry.defs upt_rec)

lemma devtab_num: "i < 30 \<Longrightarrow> dvnum (devtab ! i) = int i"
  using arg_cong [OF devtab_nums, of "\<lambda>xs. xs ! i"] by simp

lemma devtab_name_length: "\<forall>d \<in> set devtab. length (dvname d) < 16"
  by (simp add: devtab_def dentry.defs)

section \<open>Searching by name\<close>

text \<open>The test of \<^verbatim>\<open>getdev\<close> is inverted: it stops at the first device that has another name.\<close>

lemma getdev_other:
  assumes "cstr m devname xs" "cstr m (lit ''CONSOLE'') (str ''CONSOLE'')" "cstr m (lit ''GPIO0'') (str ''GPIO0'')"
  shows "getdev lit m devname = (if take 16 xs = str ''CONSOLE'' then 1 else 0)"
proof -
  have cmp: "strncmp m devname a 16 \<noteq> 0 \<longleftrightarrow> take 16 xs \<noteq> take 16 ys" if "cstr m a ys" for a ys
    using strncmp_ok [OF assms(1) that, of 16] by (metis lex_sign_zero of_nat_numeral sgn_0_0)
  have ds: "devtab = devtab ! 0 # devtab ! 1 # drop 2 devtab" "dvname (devtab ! 0) = ''CONSOLE''" "dvname (devtab ! Suc 0) = ''GPIO0''"
    by (simp_all add: devtab_def dentry.defs)
  show ?thesis
    unfolding getdev_def by (subst ds(1)) (simp add: cmp [OF assms(2)] cmp [OF assms(3)] ds(2,3) str_def)
qed

end
