(* ===== verification/Namespace.thy ===== *)
theory Namespace
  imports Devtab
begin

text \<open>
  The syntactic namespace \<^verbatim>\<open>device/nam/\<close>: a table of prefixes, each with a replacement and a device. Every character array is an object of its own,
  a map from indices to bytes, so that a store behind the end of an array would be seen as a changed index. \<^verbatim>\<open>olen\<close> in \<^verbatim>\<open>namrepl\<close> is a
  \<^verbatim>\<open>char\<close>, which is unsigned on this processor.

  The specification is a list of triples; a name is mapped by the first triple whose prefix it has.
\<close>

abbreviation (input) NM_PRELEN :: int where "NM_PRELEN \<equiv> 64"
abbreviation (input) NM_REPLLEN :: int where "NM_REPLLEN \<equiv> 96"
abbreviation (input) NM_MAXLEN :: int where "NM_MAXLEN \<equiv> 256"
abbreviation (input) NNAMES :: int where "NNAMES \<equiv> 40"
abbreviation (input) NULLDEV :: int where "NULLDEV \<equiv> 5"
abbreviation (input) NAMESPACE :: int where "NAMESPACE \<equiv> 7"
abbreviation (input) RFILESYS :: int where "RFILESYS \<equiv> 10"
abbreviation (input) LFILESYS :: int where "LFILESYS \<equiv> 21"

record nmentry =
  nprefix :: bmem
  nreplace :: bmem
  ndevice :: int

record names =
  nametab :: "int \<Rightarrow> nmentry"
  nnames :: int

section \<open>Adding a prefix\<close>

fun namlen_loop :: "nat \<Rightarrow> bmem \<Rightarrow> nat \<Rightarrow> int" where
  "namlen_loop 0 name i = SYSERR"
| "namlen_loop (Suc n) name i = (if name i = 0 then int i + 1 else namlen_loop n name (i + 1))"

definition namlen :: "bmem \<Rightarrow> int \<Rightarrow> int" where
  "namlen name maxlen = namlen_loop (nat maxlen) name 0"

fun copy_chars :: "nat \<Rightarrow> bmem \<Rightarrow> nat \<Rightarrow> bmem \<Rightarrow> nat \<Rightarrow> bmem" where
  "copy_chars 0 dst i src j = dst"
| "copy_chars (Suc n) dst i src j = copy_chars n (dst(i := src j)) (i + 1) src (j + 1)"

definition mount :: "bmem \<Rightarrow> bmem \<Rightarrow> int \<Rightarrow> names \<Rightarrow> int \<times> names" where
  "mount pre replace device ns =
     (let psiz = namlen pre NM_PRELEN; rsiz = namlen replace NM_REPLLEN in
      if psiz = SYSERR \<or> rsiz = SYSERR \<or> isbaddev device \<or> nnames ns \<ge> NNAMES then (SYSERR, ns)
      else
        let e = nametab ns (nnames ns);
            e1 = e\<lparr>nprefix := copy_chars (nat psiz) (nprefix e) 0 pre 0, nreplace := copy_chars (nat rsiz) (nreplace e) 0 replace 0,
                   ndevice := device\<rparr>
        in (OK, ns\<lparr>nametab := (nametab ns)(nnames ns := e1), nnames := nnames ns + 1\<rparr>))"

section \<open>Mapping a name\<close>

fun namcpy_loop :: "nat \<Rightarrow> bmem \<Rightarrow> bmem \<Rightarrow> nat \<Rightarrow> int \<times> bmem" where
  "namcpy_loop 0 newname oldname i = (SYSERR, newname)"
| "namcpy_loop (Suc n) newname oldname i =
     (let newname1 = newname(i := oldname i) in if oldname i = 0 then (OK, newname1) else namcpy_loop n newname1 oldname (i + 1))"

definition namcpy :: "bmem \<Rightarrow> bmem \<Rightarrow> int \<Rightarrow> int \<times> bmem" where
  "namcpy newname oldname buflen = namcpy_loop (nat buflen) newname oldname 0"

text \<open>The number of equal characters before the end of the prefix or the first difference.\<close>

partial_function (option) match_prefix :: "bmem \<Rightarrow> bmem \<Rightarrow> nat \<Rightarrow> nat option" where
  "match_prefix pre name plen =
     (if pre plen \<noteq> 0 then if pre plen \<noteq> name plen then Some plen else match_prefix pre name (plen + 1) else Some plen)"

definition namrepl_entry :: "nmentry \<Rightarrow> nat \<Rightarrow> bmem \<Rightarrow> bmem \<Rightarrow> int \<times> bmem" where
  "namrepl_entry e plen name newname =
     (let olen = namlen name NM_MAXLEN mod 256;
          rlen = namlen (nreplace e) NM_MAXLEN - 1;
          remain = olen - int plen
      in if rlen + remain > NM_MAXLEN then (SYSERR, newname)
         else (ndevice e, copy_chars (nat remain) (copy_chars (nat rlen) newname 0 (nreplace e) 0) (nat rlen) name plen))"

fun namrepl_loop :: "nat \<Rightarrow> int \<Rightarrow> names \<Rightarrow> bmem \<Rightarrow> bmem \<Rightarrow> (int \<times> bmem) option" where
  "namrepl_loop 0 i ns name newname = Some (SYSERR, newname)"
| "namrepl_loop (Suc n) i ns name newname =
     (case match_prefix (nprefix (nametab ns i)) name 0 of
        None \<Rightarrow> None
      | Some plen \<Rightarrow>
          if nprefix (nametab ns i) plen \<noteq> 0 then namrepl_loop n (i + 1) ns name newname
          else Some (namrepl_entry (nametab ns i) plen name newname))"

definition namrepl :: "names \<Rightarrow> bmem \<Rightarrow> bmem \<Rightarrow> (int \<times> bmem) option" where
  "namrepl ns name newname = namrepl_loop (nat (nnames ns)) 0 ns name newname"

fun nammap_loop :: "nat \<Rightarrow> names \<Rightarrow> bmem \<Rightarrow> bmem \<Rightarrow> int \<Rightarrow> (int \<times> bmem) option" where
  "nammap_loop 0 ns tmpname newname namdev = Some (SYSERR, newname)"
| "nammap_loop (Suc n) ns tmpname newname namdev =
     (case namrepl ns tmpname newname of
        None \<Rightarrow> None
      | Some (newdev, newname1) \<Rightarrow>
          if newdev \<noteq> namdev then Some (newdev, newname1)
          else nammap_loop n ns (snd (namcpy tmpname newname1 NM_MAXLEN)) newname1 namdev)"

text \<open>\<open>tmp0\<close> is what the local array \<^verbatim>\<open>tmpname\<close> holds at first.\<close>

definition nammap :: "names \<Rightarrow> bmem \<Rightarrow> bmem \<Rightarrow> bmem \<Rightarrow> int \<Rightarrow> (int \<times> bmem) option" where
  "nammap ns tmp0 name newname namdev =
     (let (r, tmpname) = namcpy tmp0 name NM_MAXLEN in
      if r = SYSERR then Some (SYSERR, newname) else nammap_loop (nat (nnames ns)) ns tmpname newname namdev)"

section \<open>Initialisation\<close>

definition to_lower :: "byte \<Rightarrow> byte" where
  "to_lower ch = (if 65 \<le> ch \<and> ch \<le> 90 then ch + 32 else ch)"

text \<open>The loop that appends a device name; \<open>n\<close> counts what is left of \<^verbatim>\<open>NM_MAXLEN\<close>.\<close>

fun append_lower :: "nat \<Rightarrow> bmem \<Rightarrow> nat \<Rightarrow> bmem \<Rightarrow> nat \<Rightarrow> bmem" where
  "append_lower 0 tmpstr t name i = tmpstr"
| "append_lower (Suc n) tmpstr t name i =
     (let ch = to_lower (name i); tmpstr1 = tmpstr(t := ch) in if ch = 0 then tmpstr1 else append_lower n tmpstr1 (t + 1) name (i + 1))"

definition dev_path :: "bmem \<Rightarrow> dentry \<Rightarrow> bmem" where
  "dev_path tmpstr d = append_lower (256 - 6) (copy_chars 6 tmpstr 0 (arr (str ''/dev/'')) 0) 5 (arr (str (dvname d))) 0"

fun mount_devices :: "dentry list \<Rightarrow> bmem \<Rightarrow> names \<Rightarrow> names" where
  "mount_devices [] tmpstr ns = ns"
| "mount_devices (d # ds) tmpstr ns =
     (let tmpstr1 = dev_path tmpstr d in mount_devices ds tmpstr1 (snd (mount tmpstr1 (arr []) (dvnum d) ns)))"

fun mount_all :: "(string \<times> string \<times> int) list \<Rightarrow> names \<Rightarrow> names" where
  "mount_all [] ns = ns"
| "mount_all ((p, r, d) # es) ns = mount_all es (snd (mount (arr (str p)) (arr (str r)) d ns))"

definition prefixes :: "(string \<times> string \<times> int) list" where
  "prefixes =
     [(''/dev/null'', '''', NULLDEV), (''/remote/'', ''remote:'', RFILESYS), (''/local/'', '''', LFILESYS), (''/dev/'', '''', SYSERR),
      (''~/'', '''', LFILESYS), (''/'', ''root:'', RFILESYS), ('''', '''', LFILESYS)]"

definition naminit :: "bmem \<Rightarrow> names \<Rightarrow> int \<times> names" where
  "naminit tmp0 ns = (OK, mount_all prefixes (mount_devices devtab tmp0 (ns\<lparr>nnames := 0\<rparr>)))"

section \<open>Strings in arrays\<close>

lemma namlen_loop_ok: "cstr name i xs \<Longrightarrow> namlen_loop n name i = (if length xs < n then int i + int (length xs) + 1 else SYSERR)"
proof (induction n arbitrary: i xs)
  case (Suc n)
  then show ?case by (cases xs) auto
qed simp

lemma namlen_ok: "cstr name 0 xs \<Longrightarrow> 0 \<le> n \<Longrightarrow> namlen name n = (if int (length xs) < n then int (length xs) + 1 else SYSERR)"
  using namlen_loop_ok [of name 0 xs "nat n"] by (auto simp: namlen_def)

lemma copy_chars_ok:
  "bytes_at src j xs \<Longrightarrow> bytes_at (copy_chars (length xs) dst i src j) i xs \<and> writes dst (copy_chars (length xs) dst i src j) i (length xs)"
proof (induction xs arbitrary: dst i j)
  case Nil
  show ?case by (simp add: writes_def)
next
  case (Cons x xs)
  then have s: "src j = x" "bytes_at src (Suc j) xs" by simp_all
  show ?case using writes_put [OF Cons.IH [OF s(2), of "dst(i := x)" "Suc i"]] s(1) by (simp add: fun_upd_def)
qed

lemma copy_string:
  assumes "cstr src 0 xs" "n = length xs + 1"
  shows "cstr (copy_chars n dst 0 src 0) 0 xs" "writes dst (copy_chars n dst 0 src 0) 0 n"
  using copy_chars_ok [of src 0 "xs @ [0]" dst 0] assms by (simp_all add: cstr_bytes)

lemma namcpy_loop_ok:
  "cstr oldname i xs \<Longrightarrow> length xs < n \<Longrightarrow>
   \<exists>m'. namcpy_loop n newname oldname i = (OK, m') \<and> bytes_at m' i (xs @ [0]) \<and> writes newname m' i (length xs + 1)"
proof (induction n arbitrary: i xs newname)
  case (Suc n)
  show ?case
  proof (cases xs)
    case Nil
    then show ?thesis using Suc.prems by (simp add: writes_def)
  next
    case (Cons x ys)
    then have "oldname i = x" "x \<noteq> 0" "cstr oldname (Suc i) ys" "length ys < n" using Suc.prems by auto
    moreover from this obtain m' where "namcpy_loop n (newname(i := x)) oldname (Suc i) = (OK, m')" "bytes_at m' (Suc i) (ys @ [0])"
      "writes (newname(i := x)) m' (Suc i) (length ys + 1)" using Suc.IH by blast
    ultimately show ?thesis using writes_put [of m' i "ys @ [0]" newname x "length ys + 1"] Cons by simp
  qed
qed simp

lemma namcpy_long: "cstr oldname i xs \<Longrightarrow> n \<le> length xs \<Longrightarrow> fst (namcpy_loop n newname oldname i) = SYSERR"
proof (induction n arbitrary: i xs newname)
  case (Suc n)
  then show ?case by (cases xs) auto
qed simp

lemma namcpy_ok:
  assumes "cstr oldname 0 xs" "length xs < 256"
  obtains m' where "namcpy newname oldname NM_MAXLEN = (OK, m')" "cstr m' 0 xs"
proof -
  have "0 \<notin> set xs" using assms(1) by (simp add: cstr_bytes)
  then show thesis using namcpy_loop_ok [OF assms(1), of 256 newname] assms(2) that by (auto simp: namcpy_def cstr_bytes)
qed

lemma match_prefix_ok:
  assumes "cstr pre i ps" "cstr name i xs"
  shows "\<exists>k. match_prefix pre name i = Some k \<and> (pre k = 0 \<longleftrightarrow> prefix ps xs) \<and> (prefix ps xs \<longrightarrow> k = i + length ps)"
  using assms
proof (induction ps arbitrary: i xs)
  case Nil
  then show ?case by (subst match_prefix.simps) simp
next
  case (Cons p ps)
  then have p: "pre i = p" "p \<noteq> 0" "cstr pre (Suc i) ps" by auto
  show ?case
  proof (cases xs)
    case Nil
    then show ?thesis using p Cons.prems(2) by (subst match_prefix.simps) simp
  next
    case x: (Cons x ys)
    then have n: "name i = x" "cstr name (Suc i) ys" using Cons.prems(2) by auto
    show ?thesis
    proof (cases "x = p")
      case True
      then show ?thesis using Cons.IH [OF p(3) n(2)] p n x by (subst match_prefix.simps) simp
    next
      case False
      then show ?thesis using p n x by (subst match_prefix.simps) auto
    qed
  qed
qed

section \<open>The name table as a list\<close>

type_synonym entry = "byte list \<times> byte list \<times> int"

fun entry_rep :: "nmentry \<Rightarrow> entry \<Rightarrow> bool" where
  "entry_rep e (p, r, d) \<longleftrightarrow> cstr (nprefix e) 0 p \<and> length p < 64 \<and> cstr (nreplace e) 0 r \<and> length r < 96 \<and> ndevice e = d \<and> \<not> isbaddev d"

definition names_rep :: "names \<Rightarrow> entry list \<Rightarrow> bool" where
  "names_rep ns tab \<longleftrightarrow> nnames ns = int (length tab) \<and> length tab \<le> 40 \<and> (\<forall>i < length tab. entry_rep (nametab ns (int i)) (tab ! i))"

lemma mount_rep:
  assumes "names_rep ns tab" "cstr pre 0 p" "cstr replace 0 r"
  shows "if length p < 64 \<and> length r < 96 \<and> \<not> isbaddev d \<and> length tab < 40
    then fst (mount pre replace d ns) = OK \<and> names_rep (snd (mount pre replace d ns)) (tab @ [(p, r, d)])
    else mount pre replace d ns = (SYSERR, ns)"
proof -
  have l: "namlen pre 64 = (if length p < 64 then int (length p) + 1 else SYSERR)" "namlen replace 96 = (if length r < 96 then int (length r) + 1 else SYSERR)"
    using namlen_ok [OF assms(2), of 64] namlen_ok [OF assms(3), of 96] by simp_all
  have n: "nnames ns = int (length tab)" using assms(1) by (simp add: names_rep_def)
  show ?thesis
  proof (cases "length p < 64 \<and> length r < 96 \<and> \<not> isbaddev d \<and> length tab < 40")
    case True
    moreover have "nat (int (length p) + 1) = Suc (length p)" "nat (int (length r) + 1) = Suc (length r)" by simp_all
    moreover note copy_string(1) [OF assms(2), of "Suc (length p)"] copy_string(1) [OF assms(3), of "Suc (length r)"]
    ultimately show ?thesis
      using assms(1) by (auto simp: mount_def Let_def l n names_rep_def nth_append less_Suc_eq simp del: copy_chars.simps)
  next
    case False
    then show ?thesis by (auto simp: mount_def l n)
  qed
qed

section \<open>Mapping refines the list of triples\<close>

fun ns_find :: "entry list \<Rightarrow> byte list \<Rightarrow> entry option" where
  "ns_find [] xs = None"
| "ns_find ((p, r, d) # tab) xs = (if prefix p xs then Some (p, r, d) else ns_find tab xs)"

definition ns_repl :: "entry list \<Rightarrow> byte list \<Rightarrow> (int \<times> byte list) option" where
  "ns_repl tab xs =
     (case ns_find tab xs of
        None \<Rightarrow> None
      | Some (p, r, d) \<Rightarrow> if length r + (length xs - length p) < 256 then Some (d, r @ drop (length p) xs) else None)"

fun ns_map :: "nat \<Rightarrow> entry list \<Rightarrow> int \<Rightarrow> byte list \<Rightarrow> (int \<times> byte list) option" where
  "ns_map 0 tab namdev xs = None"
| "ns_map (Suc n) tab namdev xs =
     (case ns_repl tab xs of None \<Rightarrow> None | Some (d, ys) \<Rightarrow> if d \<noteq> namdev then Some (d, ys) else ns_map n tab namdev ys)"

text \<open>No name on the way has 255 characters, the length for which \<^verbatim>\<open>olen\<close> wraps around to 0.\<close>

fun ns_short :: "nat \<Rightarrow> entry list \<Rightarrow> int \<Rightarrow> byte list \<Rightarrow> bool" where
  "ns_short 0 tab namdev xs \<longleftrightarrow> True"
| "ns_short (Suc n) tab namdev xs \<longleftrightarrow>
     length xs < 255 \<and> (case ns_repl tab xs of None \<Rightarrow> True | Some (d, ys) \<Rightarrow> d = namdev \<longrightarrow> ns_short n tab namdev ys)"

text \<open>What a call that maps \<open>xs\<close> leaves in the name buffer.\<close>

definition mapped :: "(int \<times> byte list) option \<Rightarrow> bmem \<Rightarrow> (int \<times> bmem) option \<Rightarrow> bool" where
  "mapped v m r \<longleftrightarrow>
     (\<exists>m'. r = Some (case v of None \<Rightarrow> SYSERR | Some (d, ys) \<Rightarrow> d, m') \<and> writes m m' 0 256 \<and>
           (\<forall>d ys. v = Some (d, ys) \<longrightarrow> cstr m' 0 ys \<and> length ys < 256 \<and> \<not> isbaddev d))"

lemma bytes_cstr_drop: "cstr m i xs \<Longrightarrow> n \<le> length xs \<Longrightarrow> bytes_at m (i + n) (drop n xs @ [0])"
  using bytes_at_append [of m i "take n xs" "drop n xs @ [0]"] by (simp add: cstr_bytes flip: append_assoc)

lemma writes_trans: "writes m m' p n \<Longrightarrow> writes m' m'' q k \<Longrightarrow> {p..<p + n} \<subseteq> {a..<a + l} \<Longrightarrow> {q..<q + k} \<subseteq> {a..<a + l} \<Longrightarrow> writes m m'' a l"
  unfolding writes_def by (metis subsetD)

lemma namrepl_entry_ok:
  assumes e: "entry_rep e (p, r, d)" and x: "cstr name 0 xs" "length xs < 255" "prefix p xs"
  shows "mapped (if length r + (length xs - length p) < 256 then Some (d, r @ drop (length p) xs) else None) newname
    (Some (namrepl_entry e (length p) name newname))"
proof -
  have r: "cstr (nreplace e) 0 r" "length r < 96" "\<not> isbaddev d" "ndevice e = d" using e by simp_all
  have l: "length p \<le> length xs" using x(3) by (rule prefix_length_le)
  have len: "namlen name 256 mod 256 = int (length xs) + 1" "namlen (nreplace e) 256 = int (length r) + 1"
    using namlen_ok [OF x(1), of 256] namlen_ok [OF r(1), of 256] x(2) r(2) by simp_all
  let ?k = "length xs - length p"
  have k: "nat (int (length xs) + 1 - int (length p)) = Suc ?k" using l by simp
  show ?thesis
  proof (cases "length r + ?k < 256")
    case True
    then have t: "\<not> 255 < int (length r) + (int (length xs) - int (length p))" using l by linarith
    let ?m1 = "copy_chars (length r) newname 0 (nreplace e) 0" and ?ys = "drop (length p) xs @ [0]"
    have b1: "bytes_at ?m1 0 r" "writes newname ?m1 0 (length r)"
      using copy_chars_ok [of "nreplace e" 0 r newname 0] r(1) by (simp_all add: cstr_bytes bytes_at_append)
    let ?m2 = "copy_chars (Suc ?k) ?m1 (length r) name (length p)"
    have b2: "bytes_at ?m2 (length r) ?ys" "writes ?m1 ?m2 (length r) (Suc ?k)"
      using copy_chars_ok [of name "length p" ?ys ?m1 "length r"] bytes_cstr_drop [OF x(1) l] by (simp_all del: copy_chars.simps)
    have "bytes_at ?m2 0 r" by (rule bytes_at_cong [OF b1(1)]) (use b2(2) in \<open>simp add: writes_def\<close>)
    moreover have "0 \<notin> set (r @ drop (length p) xs)" using r(1) x(1) by (auto simp: cstr_bytes dest: in_set_dropD)
    ultimately have "cstr ?m2 0 (r @ drop (length p) xs)" using b2(1) by (simp add: cstr_bytes bytes_at_append del: copy_chars.simps)
    moreover have "writes newname ?m2 0 256" by (rule writes_trans [OF b1(2) b2(2)]) (use True in auto)
    moreover have "namrepl_entry e (length p) name newname = (d, ?m2)"
      using t by (simp add: namrepl_entry_def Let_def len k r(4) del: copy_chars.simps)
    ultimately show ?thesis using True r(3) l unfolding mapped_def by (intro exI [of _ ?m2]) (simp del: copy_chars.simps)
  next
    case False
    then have t: "255 < int (length r) + (int (length xs) - int (length p))" using l by linarith
    then have "namrepl_entry e (length p) name newname = (SYSERR, newname)" by (simp add: namrepl_entry_def Let_def len)
    then show ?thesis using False by (simp add: mapped_def writes_def)
  qed
qed

lemma namrepl_loop_ok:
  assumes "cstr name 0 xs" "length xs < 255" "\<forall>j < length tab. entry_rep (nametab ns (i + int j)) (tab ! j)"
  shows "mapped (ns_repl tab xs) newname (namrepl_loop (length tab) i ns name newname)"
  using assms(3)
proof (induction tab arbitrary: i)
  case Nil
  show ?case by (simp add: ns_repl_def mapped_def writes_def)
next
  case (Cons t tab)
  obtain p r d where t: "t = (p, r, d)" by (cases t)
  let ?e = "nametab ns i"
  have e: "entry_rep ?e (p, r, d)" using Cons.prems [rule_format, of 0] t by simp
  then obtain k where k: "match_prefix (nprefix ?e) name 0 = Some k" "nprefix ?e k = 0 \<longleftrightarrow> prefix p xs" "prefix p xs \<longrightarrow> k = length p"
    using match_prefix_ok [of "nprefix ?e" 0 p name xs] assms(1) by auto
  show ?case
  proof (cases "prefix p xs")
    case True
    then show ?thesis using namrepl_entry_ok [OF e assms(1,2) True, of newname] k t by (simp add: ns_repl_def)
  next
    case False
    have "entry_rep (nametab ns (i + 1 + int j)) (tab ! j)" if "j < length tab" for j
      using Cons.prems [rule_format, of "Suc j"] that by (simp add: ac_simps)
    then show ?thesis using Cons.IH [of "i + 1"] False k t by (simp add: ns_repl_def)
  qed
qed

lemma namrepl_ok:
  "names_rep ns tab \<Longrightarrow> cstr name 0 xs \<Longrightarrow> length xs < 255 \<Longrightarrow> mapped (ns_repl tab xs) newname (namrepl ns name newname)"
  using namrepl_loop_ok [of name xs tab ns 0 newname] by (simp add: names_rep_def namrepl_def)

lemma nammap_loop_ok:
  assumes "names_rep ns tab" "cstr tmpname 0 xs" "ns_short n tab namdev xs" "0 \<le> namdev"
  shows "mapped (ns_map n tab namdev xs) newname (nammap_loop n ns tmpname newname namdev)"
  using assms(2,3)
proof (induction n arbitrary: tmpname newname xs)
  case (Suc n)
  have m: "mapped (ns_repl tab xs) newname (namrepl ns tmpname newname)" using namrepl_ok [OF assms(1) Suc.prems(1)] Suc.prems(2) by simp
  show ?case
  proof (cases "ns_repl tab xs")
    case None
    then show ?thesis using m assms(4) by (auto simp: mapped_def)
  next
    case (Some v)
    obtain d ys where v: "v = (d, ys)" by (cases v)
    obtain m' where n: "namrepl ns tmpname newname = Some (d, m')" "writes newname m' 0 256" "cstr m' 0 ys" "length ys < 256" "\<not> isbaddev d"
      using m Some v by (auto simp: mapped_def)
    show ?thesis
    proof (cases "d = namdev")
      case False
      then show ?thesis using n Some v by (simp add: mapped_def)
    next
      case True
      obtain m2 where c: "namcpy tmpname m' NM_MAXLEN = (OK, m2)" "cstr m2 0 ys" by (rule namcpy_ok [OF n(3,4)])
      have "mapped (ns_map n tab namdev ys) m' (nammap_loop n ns m2 m' namdev)"
        by (rule Suc.IH [OF c(2)]) (use Suc.prems(2) Some v True in simp)
      then have "mapped (ns_map n tab namdev ys) newname (nammap_loop n ns m2 m' namdev)"
        using writes_trans [OF n(2), of _ 0 256 0 256] by (fastforce simp: mapped_def)
      then show ?thesis using n(1) Some v True c(1) by simp
    qed
  qed
qed (simp add: mapped_def writes_def)

lemma nammap_ok:
  assumes "names_rep ns tab" "cstr name 0 xs" "ns_short (length tab) tab namdev xs" "0 \<le> namdev" "tab \<noteq> []"
  shows "mapped (ns_map (length tab) tab namdev xs) newname (nammap ns tmp0 name newname namdev)"
proof -
  have "length xs < 256" using assms(3,5) by (cases tab) auto
  then obtain m' where "namcpy tmp0 name NM_MAXLEN = (OK, m')" "cstr m' 0 xs" by (rule namcpy_ok [OF assms(2)])
  then show ?thesis using nammap_loop_ok [OF assms(1) _ assms(3,4)] assms(1) by (simp add: nammap_def names_rep_def)
qed

lemma nammap_too_long:
  assumes "cstr name 0 xs" "256 \<le> length xs"
  shows "nammap ns tmp0 name newname namdev = Some (SYSERR, newname)"
  using namcpy_long [OF assms(1), of 256 tmp0] assms(2) by (cases "namcpy_loop 256 tmp0 name 0") (simp add: nammap_def namcpy_def)

section \<open>The initial name table\<close>

lemma to_lower_0 [simp]: "to_lower ch = 0 \<longleftrightarrow> ch = 0"
proof -
  have "ch + 32 \<noteq> 0" if "65 \<le> ch" "ch \<le> 90"
    using that by (auto simp: word_le_nat_alt unat_arith_simps)
  then show ?thesis by (auto simp: to_lower_def)
qed

lemma arr_cstr: "0 \<notin> set xs \<Longrightarrow> cstr (arr xs) 0 xs"
proof -
  have "bytes_at (arr (us @ ys)) (length us) (ys @ [0])" for us ys
  proof (induction ys arbitrary: us)
    case (Cons y ys)
    then show ?case using Cons.IH [of "us @ [y]"] by (simp add: arr_def nth_append)
  qed (simp add: arr_def)
  from this [of "[]" xs] show "0 \<notin> set xs \<Longrightarrow> ?thesis" by (simp add: cstr_bytes)
qed

lemma append_lower_ok:
  "cstr name i xs \<Longrightarrow> length xs < n \<Longrightarrow>
   bytes_at (append_lower n tmpstr t name i) t (map to_lower xs @ [0]) \<and> writes tmpstr (append_lower n tmpstr t name i) t (length xs + 1)"
proof (induction n arbitrary: xs tmpstr t i)
  case (Suc n)
  show ?case
  proof (cases xs)
    case Nil
    then show ?thesis using Suc.prems by (simp add: writes_def)
  next
    case (Cons x ys)
    then have x: "name i = x" "x \<noteq> 0" "cstr name (Suc i) ys" "length ys < n" using Suc.prems by auto
    show ?thesis using writes_put [OF Suc.IH [OF x(3,4), of "tmpstr(t := to_lower x)" "Suc t"]] x Cons by (simp add: fun_upd_def)
  qed
qed simp

definition dev_name :: "dentry \<Rightarrow> byte list" where
  "dev_name d = str ''/dev/'' @ map to_lower (str (dvname d))"

lemma dev_path_ok:
  assumes "length (dvname d) < 16" "0 \<notin> set (str (dvname d))"
  shows "cstr (dev_path tmpstr d) 0 (dev_name d)" "length (dev_name d) < 64"
proof -
  have z: "0 \<notin> set (str ''/dev/'')" and l5: "length (str ''/dev/'') = 5" by (simp_all add: str_def)
  have "bytes_at (arr (str ''/dev/'')) 0 (str ''/dev/'' @ [0])" using arr_cstr [OF z] by (simp add: cstr_bytes)
  from copy_chars_ok [OF this, of tmpstr 0] have b: "bytes_at (copy_chars 6 tmpstr 0 (arr (str ''/dev/'')) 0) 0 (str ''/dev/'')"
    by (simp add: str_def eval_nat_numeral)
  let ?m = "copy_chars 6 tmpstr 0 (arr (str ''/dev/'')) 0"
  have a: "bytes_at (dev_path tmpstr d) 5 (map to_lower (str (dvname d)) @ [0])" "writes ?m (dev_path tmpstr d) 5 (length (dvname d) + 1)"
    using append_lower_ok [OF arr_cstr [OF assms(2)], of 250 ?m 5] assms(1) by (simp_all add: dev_path_def str_def)
  have "bytes_at (dev_path tmpstr d) 0 (str ''/dev/'')"
    by (rule bytes_at_cong [OF b]) (use a(2) in \<open>simp add: writes_def str_def\<close>)
  then show "cstr (dev_path tmpstr d) 0 (dev_name d)"
    using a(1) assms(2) z l5 by (auto simp: dev_name_def cstr_bytes bytes_at_append)
  show "length (dev_name d) < 64" using assms(1) by (simp add: dev_name_def str_def)
qed

lemma mount_devices_ok:
  assumes "names_rep ns tab" "length tab + length ds \<le> 40"
    and "\<forall>d \<in> set ds. length (dvname d) < 16 \<and> 0 \<notin> set (str (dvname d)) \<and> \<not> isbaddev (dvnum d)"
  shows "names_rep (mount_devices ds tmpstr ns) (tab @ map (\<lambda>d. (dev_name d, [], dvnum d)) ds)"
  using assms
proof (induction ds arbitrary: ns tab tmpstr)
  case (Cons d ds)
  have d: "cstr (dev_path tmpstr d) 0 (dev_name d)" "length (dev_name d) < 64" using dev_path_ok [of d] Cons.prems(3) by simp_all
  have "names_rep (snd (mount (dev_path tmpstr d) (arr []) (dvnum d) ns)) (tab @ [(dev_name d, [], dvnum d)])"
    using mount_rep [OF Cons.prems(1) d(1) arr_cstr [of "[]"], of "dvnum d"] d(2) Cons.prems(2,3) by simp
  then show ?case using Cons.IH [of _ "tab @ [(dev_name d, [], dvnum d)]"] Cons.prems(2,3) by (simp add: Let_def)
qed simp

text \<open>\<^verbatim>\<open>"/dev/"\<close> is mapped to \<^verbatim>\<open>SYSERR\<close> in the source, which \<^verbatim>\<open>mount\<close> refuses.\<close>

definition default_names :: "entry list" where
  "default_names = map (\<lambda>d. (dev_name d, [], dvnum d)) devtab @
     [(str ''/dev/null'', [], NULLDEV), (str ''/remote/'', str ''remote:'', RFILESYS), (str ''/local/'', [], LFILESYS),
      (str ''~/'', [], LFILESYS), (str ''/'', str ''root:'', RFILESYS), ([], [], LFILESYS)]"

lemma devtab_chars: "\<forall>d \<in> set devtab. 0 \<notin> set (str (dvname d))"
  by (simp add: devtab_def dentry.defs str_def)

lemma devtab_good: "\<forall>d \<in> set devtab. \<not> isbaddev (dvnum d)"
  by (simp add: devtab_def dentry.defs isbaddev_def)

lemma mount_all_ok:
  assumes "names_rep ns tab" "length tab + length es \<le> 40" "\<forall>(p, r, d) \<in> set es. 0 \<notin> set (str p) \<and> 0 \<notin> set (str r) \<and> length p < 64 \<and> length r < 96"
  shows "names_rep (mount_all es ns) (tab @ map (\<lambda>(p, r, d). (str p, str r, d)) (filter (\<lambda>(p, r, d). \<not> isbaddev d) es))"
  using assms
proof (induction es arbitrary: ns tab)
  case (Cons t es)
  obtain p r d where t: "t = (p, r, d)" by (cases t)
  have z: "cstr (arr (str p)) 0 (str p)" "cstr (arr (str r)) 0 (str r)" using Cons.prems(3) t by (simp_all add: arr_cstr)
  show ?case
  proof (cases "isbaddev d")
    case True
    then have "snd (mount (arr (str p)) (arr (str r)) d ns) = ns" using mount_rep [OF Cons.prems(1) z, of d] by simp
    then show ?thesis using Cons.IH [of ns tab] Cons.prems t True by simp
  next
    case False
    then have "names_rep (snd (mount (arr (str p)) (arr (str r)) d ns)) (tab @ [(str p, str r, d)])"
      using mount_rep [OF Cons.prems(1) z, of d] Cons.prems(2,3) t by (simp add: str_def)
    then show ?thesis using Cons.IH [of _ "tab @ [(str p, str r, d)]"] Cons.prems(2,3) t False by simp
  qed
qed simp

lemma naminit_ok: "names_rep (snd (naminit tmp0 ns)) default_names"
proof -
  have "names_rep (ns\<lparr>nnames := 0\<rparr>) []" by (simp add: names_rep_def)
  from mount_devices_ok [OF this, of devtab tmp0]
  have "names_rep (mount_devices devtab tmp0 (ns\<lparr>nnames := 0\<rparr>)) (map (\<lambda>d. (dev_name d, [], dvnum d)) devtab)"
    using devtab_chars devtab_good devtab_name_length by simp
  from mount_all_ok [OF this, of prefixes]
  show ?thesis by (simp add: naminit_def default_names_def prefixes_def isbaddev_def str_def)
qed

section \<open>Where names lead at first\<close>

lemmas default_eval = default_names_def dev_name_def devtab_def dentry.defs str_def to_lower_def

lemma find_devices: "\<forall>d \<in> set devtab. ns_find default_names (dev_name d) = Some (dev_name d, [], dvnum d)"
  by (simp add: default_eval)

lemma find_local: "ns_find default_names (str ''/local/'' @ x) = Some (str ''/local/'', [], LFILESYS)"
  by (simp add: default_eval)

lemma find_remote: "ns_find default_names (str ''/remote/'' @ x) = Some (str ''/remote/'', str ''remote:'', RFILESYS)"
  by (simp add: default_eval)

lemma find_plain: "\<not> prefix (str ''/'') x \<Longrightarrow> \<not> prefix (str ''~/'') x \<Longrightarrow> ns_find default_names x = Some ([], [], LFILESYS)"
  by (cases x) (simp_all add: default_eval)

text \<open>A name below \<^verbatim>\<open>/dev/\<close> that is no device goes to the remote file system, as \<^verbatim>\<open>"/dev/"\<close> could not be mounted.\<close>

lemma find_unknown_dev:
  assumes "\<forall>d \<in> set devtab. \<not> prefix (dev_name d) (str ''/dev/'' @ x)" "\<not> prefix (str ''/dev/null'') (str ''/dev/'' @ x)"
  shows "ns_find default_names (str ''/dev/'' @ x) = Some (str ''/'', str ''root:'', RFILESYS)"
proof -
  have skip: "\<forall>d \<in> set ds. \<not> prefix (dev_name d) y \<Longrightarrow> ns_find (map (\<lambda>d. (dev_name d, [], dvnum d)) ds @ tab) y = ns_find tab y" for ds y tab
    by (induction ds) auto
  show ?thesis unfolding default_names_def skip [OF assms(1)] using assms(2) by (simp add: str_def)
qed

lemma map_once:
  assumes "ns_find tab xs = Some (p, r, d)" "d \<noteq> namdev" "length r + (length xs - length p) < 256" "tab \<noteq> []"
  shows "ns_map (length tab) tab namdev xs = Some (d, r @ drop (length p) xs)" "length xs < 255 \<Longrightarrow> ns_short (length tab) tab namdev xs"
proof -
  obtain n where n: "length tab = Suc n" using assms(4) by (cases tab) auto
  show "ns_map (length tab) tab namdev xs = Some (d, r @ drop (length p) xs)" "length xs < 255 \<Longrightarrow> ns_short (length tab) tab namdev xs"
    using assms by (simp_all add: n ns_repl_def)
qed

end
