(* ===== verification/Ramdisk.thy ===== *)
theory Ramdisk
  imports Clib_String
begin

text \<open>
  The RAM disk \<^verbatim>\<open>device/ram/\<close>, the block device under the local file system, and the interface a client of such a device relies on.
  \<^verbatim>\<open>Ram.disk\<close> is a map from byte positions to bytes; a buffer is the list of its bytes. Block numbers are the 32-bit
  words the callers pass.
\<close>

type_synonym word32 = "32 word"
type_synonym ram = "int \<Rightarrow> byte"

abbreviation (input) RM_BLKSIZ :: int where "RM_BLKSIZ \<equiv> 512"
abbreviation (input) RM_BLKS :: int where "RM_BLKS \<equiv> 200"

definition bpos :: "word32 \<Rightarrow> int" where
  "bpos blk = sint (512 * blk)"

definition ramread :: "word32 \<Rightarrow> ram \<Rightarrow> byte list" where
  "ramread blk d = map (\<lambda>i. d (bpos blk + int i)) [0..<512]"

definition ramwrite :: "word32 \<Rightarrow> byte list \<Rightarrow> ram \<Rightarrow> ram" where
  "ramwrite blk buff d = (\<lambda>a. if bpos blk \<le> a \<and> a < bpos blk + RM_BLKSIZ then buff ! nat (a - bpos blk) else d a)"

text \<open>\<^verbatim>\<open>raminit\<close> copies the disk over itself, eight bytes on: the copy runs forwards, byte by byte.\<close>

definition raminit :: "bmem \<Rightarrow> bmem" where
  "raminit m =
     (let m1 = snd (memcpy (\<lambda>a. if 102400 \<le> a \<and> a < 102408 then [104, 111, 112, 101, 108, 101, 115, 115] ! (a - 102400) else m a) 0 102400 8)
      in snd (memcpy m1 8 0 (RM_BLKSIZ * RM_BLKS - 8)))"

section \<open>Stores\<close>

text \<open>
  A store keeps a value at each address. The laws are those of an array; \<open>ok\<close> are the addresses in use and \<open>fit\<close> the
  values that can be stored.
\<close>

locale store =
  fixes get :: "'a \<Rightarrow> 'd \<Rightarrow> 'v"
    and put :: "'a \<Rightarrow> 'v \<Rightarrow> 'd \<Rightarrow> 'd"
    and ok :: "'a \<Rightarrow> bool"
    and fit :: "'v \<Rightarrow> bool"
  assumes get_put: "ok a \<Longrightarrow> fit v \<Longrightarrow> get a (put a v d) = v"
    and get_other: "ok a \<Longrightarrow> ok b \<Longrightarrow> a \<noteq> b \<Longrightarrow> fit v \<Longrightarrow> get b (put a v d) = get b d"
    and get_fit: "fit (get a d)"
begin

lemma get_put_if: "ok a \<Longrightarrow> ok b \<Longrightarrow> fit v \<Longrightarrow> get b (put a v d) = (if b = a then v else get b d)"
  by (simp add: get_put get_other)

end

text \<open>
  A list linked through the values of a store: \<open>lseg d p xs q\<close> holds if the addresses \<open>xs\<close> are reached from \<open>p\<close> in this order
  and the link of the last one is \<open>q\<close>. With \<open>q\<close> the null link it is the shape of the free lists of a file system.
\<close>

locale linked_store = store get put ok fit
  for get :: "'a \<Rightarrow> 'd \<Rightarrow> 'v" and put :: "'a \<Rightarrow> 'v \<Rightarrow> 'd \<Rightarrow> 'd" and ok :: "'a \<Rightarrow> bool" and fit :: "'v \<Rightarrow> bool" +
  fixes nxt :: "'v \<Rightarrow> 'a" and null :: 'a
  assumes null_not_ok: "\<not> ok null"
begin

fun lseg :: "'d \<Rightarrow> 'a \<Rightarrow> 'a list \<Rightarrow> 'a \<Rightarrow> bool" where
  "lseg d p [] q \<longleftrightarrow> p = q"
| "lseg d p (x # xs) q \<longleftrightarrow> p = x \<and> ok x \<and> lseg d (nxt (get x d)) xs q"

lemma lseg_ok: "lseg d p xs q \<Longrightarrow> x \<in> set xs \<Longrightarrow> ok x"
  by (induction xs arbitrary: p) auto

lemma lseg_cong: "lseg d p xs q \<Longrightarrow> (\<And>x. x \<in> set xs \<Longrightarrow> get x d' = get x d) \<Longrightarrow> lseg d' p xs q"
  by (induction xs arbitrary: p) auto

lemma lseg_put: "lseg d p xs q \<Longrightarrow> ok a \<Longrightarrow> a \<notin> set xs \<Longrightarrow> fit v \<Longrightarrow> lseg (put a v d) p xs q"
  by (induction xs arbitrary: p) (auto simp: get_other)

lemma lseg_append: "lseg d p (xs @ ys) q \<longleftrightarrow> (\<exists>r. lseg d p xs r \<and> lseg d r ys q)"
  by (induction xs arbitrary: p) auto

lemma lseg_null: "lseg d p xs null \<Longrightarrow> p = null \<longleftrightarrow> xs = []"
  using null_not_ok by (cases xs) auto

lemma lseg_unique: "lseg d p xs null \<Longrightarrow> lseg d p ys null \<Longrightarrow> xs = ys"
proof (induction xs arbitrary: p ys)
  case (Cons x xs)
  then show ?case using null_not_ok by (cases ys) auto
qed (use lseg_null in auto)

text \<open>Taking the first element, putting one in front, and redirecting the last link.\<close>

lemma lseg_pop: "lseg d p xs null \<Longrightarrow> p \<noteq> null \<Longrightarrow> \<exists>ys. xs = p # ys \<and> ok p \<and> lseg d (nxt (get p d)) ys null"
  by (cases xs) auto

lemma lseg_push: "lseg d p xs q \<Longrightarrow> ok a \<Longrightarrow> a \<notin> set xs \<Longrightarrow> fit v \<Longrightarrow> nxt v = p \<Longrightarrow> lseg (put a v d) a (a # xs) q"
  by (simp add: get_put lseg_put)

lemma lseg_snoc: "lseg d p xs a \<Longrightarrow> ok a \<Longrightarrow> a \<notin> set xs \<Longrightarrow> fit v \<Longrightarrow> lseg (put a v d) p (xs @ [a]) (nxt v)"
  by (simp add: lseg_append get_put lseg_put)

end

section \<open>The RAM disk as a store\<close>

definition on_disk :: "word32 \<Rightarrow> bool" where
  "on_disk blk \<longleftrightarrow> uint blk < RM_BLKS"

lemma length_ramread [simp]: "length (ramread blk d) = 512"
  by (simp add: ramread_def)

lemma sint_small: "uint (w :: word32) < 2147483648 \<Longrightarrow> sint w = uint w"
  using order_trans [OF _ uint_ge_0, of "- 2147483648" w] by (simp add: sint_uint signed_take_bit_int_eq_self)

lemma bpos_on_disk:
  assumes "on_disk blk"
  shows "bpos blk = 512 * uint blk"
proof -
  have "uint (512 * blk) = 512 * uint blk" using assms by (subst uint_mult_lem [THEN iffD1]) (simp_all add: on_disk_def)
  then show ?thesis using assms sint_small [of "512 * blk"] by (simp add: bpos_def on_disk_def)
qed

lemma ramread_same: "length v = 512 \<Longrightarrow> ramread a (ramwrite a v d) = v"
  by (intro nth_equalityI) (auto simp: ramread_def ramwrite_def)

lemma ramread_other:
  assumes "on_disk a" "on_disk b" "a \<noteq> b"
  shows "ramread b (ramwrite a v d) = ramread b d"
proof -
  have "uint a < uint b \<or> uint b < uint a" using assms(3) by (metis linorder_neqE word_uint_eq_iff)
  then have "bpos b + int i < bpos a \<or> bpos a + 512 \<le> bpos b + int i" if "i < 512" for i
    using that bpos_on_disk [OF assms(1)] bpos_on_disk [OF assms(2)] by auto
  then show ?thesis by (force simp: ramread_def ramwrite_def)
qed

interpretation ramdisk: store ramread ramwrite on_disk "\<lambda>v. length v = 512"
  by unfold_locales (simp_all add: ramread_same ramread_other)

section \<open>Initialisation\<close>

text \<open>A forward copy to a position \<open>k\<close> bytes on repeats the first \<open>k\<close> bytes.\<close>

lemma memcpy_loop_shift:
  "0 < k \<Longrightarrow> memcpy_loop n m (p + k) p a = (if p \<le> a \<and> a < p + k + n then m (p + (a - p) mod k) else m a)"
proof (induction n arbitrary: m p)
  case (Suc n)
  let ?m = "m(p + k := m p)"
  have "memcpy_loop (Suc n) m (p + k) p a = memcpy_loop n ?m (Suc p + k) (Suc p) a" by simp
  also have "\<dots> = (if Suc p \<le> a \<and> a < Suc p + k + n then ?m (Suc p + (a - Suc p) mod k) else ?m a)" by (rule Suc.IH [OF Suc.prems])
  also have "\<dots> = (if p \<le> a \<and> a < p + k + Suc n then m (p + (a - p) mod k) else m a)"
  proof (cases "p < a")
    case True
    then have "a - p = Suc (a - Suc p)" by simp
    then have "(a - p) mod k = (if Suc ((a - Suc p) mod k) = k then 0 else Suc ((a - Suc p) mod k))" by (simp add: mod_Suc)
    moreover have "(a - Suc p) mod k < k" using Suc.prems by simp
    ultimately show ?thesis using True by auto
  qed (use Suc.prems in auto)
  finally show ?case .
qed auto


lemma memcpy_loop_away:
  "dst + n \<le> src \<Longrightarrow> memcpy_loop n m dst src a = (if dst \<le> a \<and> a < dst + n then m (src + (a - dst)) else m a)"
proof (induction n arbitrary: m dst src)
  case (Suc n)
  then show ?case using Suc.IH [of "Suc dst" "Suc src" "m(dst := m src)"] by (auto simp: Suc_diff_Suc)
qed auto

definition hopeless :: "byte list" where "hopeless = [104, 111, 112, 101, 108, 101, 115, 115]"

lemma raminit_pattern:
  assumes "a < 102400"
  shows "raminit m a = hopeless ! (a mod 8)"
proof -
  let ?m = "\<lambda>a. if 102400 \<le> a \<and> a < 102408 then [104, 111, 112, 101, 108, 101, 115, 115] ! (a - 102400) else m a"
  have first: "memcpy_loop 8 ?m 0 102400 b = hopeless ! b" if "b < 8" for b
    using that by (simp add: memcpy_loop_away hopeless_def)
  have "raminit m a = memcpy_loop 102392 (memcpy_loop 8 ?m 0 102400) (0 + 8) 0 a"
    by (simp add: raminit_def memcpy_def Let_def)
  also have "\<dots> = memcpy_loop 8 ?m 0 102400 (a mod 8)" using assms by (subst memcpy_loop_shift) auto
  also have "\<dots> = hopeless ! (a mod 8)" by (rule first) simp
  finally show ?thesis .
qed

end
