(* ===== verification/Lfs.thy ===== *)
theory Lfs
  imports Ramdisk Frames "HOL-Library.Signed_Division"
begin

text \<open>
  The local file system \<^verbatim>\<open>device/lfs/\<close> on the RAM disk. The record \<open>lfs\<close> is the disk, the variables of \<^verbatim>\<open>Lf_data\<close> and the table
  \<^verbatim>\<open>lfltab\<close> of open files. On disk, structures are bytes: \<open>ib_encode\<close> and \<open>dir_encode\<close> give the layout of an index block
  and of the directory, \<open>ib_decode\<close> and \<open>dir_decode\<close> what the code reads back through the C structures. A pointer to a
  directory entry is its index, and 20, one behind the last, is the null pointer; \<^verbatim>\<open>lfbyte\<close> is a position in \<^verbatim>\<open>lfdblock\<close>. A C string is the list of its
  characters.

  An operation has the value \<^term>\<open>None\<close> if it never returns, because it calls \<^verbatim>\<open>panic\<close> or follows a corrupt list for ever. If it waits for
  a semaphore that another process holds, its result is \<^term>\<open>Some (None, f, k)\<close> with the state in which it blocks.
\<close>

unbundle bit_operations_syntax

abbreviation (input) LF_INULL :: word32 where "LF_INULL \<equiv> - 1"
abbreviation (input) LF_DNULL :: word32 where "LF_DNULL \<equiv> - 1"
abbreviation (input) LF_IMASK :: word32 where "LF_IMASK \<equiv> 0x1fff"
abbreviation (input) LF_DMASK :: word32 where "LF_DMASK \<equiv> 0x1ff"
abbreviation (input) LF_IDATA :: word32 where "LF_IDATA \<equiv> 8192"
abbreviation (input) LF_BLKSIZ :: nat where "LF_BLKSIZ \<equiv> 512"
abbreviation (input) LF_NAME_LEN :: nat where "LF_NAME_LEN \<equiv> 16"
abbreviation (input) LF_NUM_DIR_ENT :: nat where "LF_NUM_DIR_ENT \<equiv> 20"
abbreviation (input) LF_AREA_DIR :: word32 where "LF_AREA_DIR \<equiv> 0"
abbreviation (input) LF_AREA_IB :: int where "LF_AREA_IB \<equiv> 1"
abbreviation (input) LFS_ID :: word32 where "LFS_ID \<equiv> 0x58696E75"
abbreviation (input) Nlfl :: nat where "Nlfl \<equiv> 6"
abbreviation (input) LF_MODE_R :: int where "LF_MODE_R \<equiv> 1"
abbreviation (input) LF_MODE_W :: int where "LF_MODE_W \<equiv> 2"
abbreviation (input) LF_MODE_RW :: int where "LF_MODE_RW \<equiv> 3"
abbreviation (input) LF_MODE_N :: int where "LF_MODE_N \<equiv> 4"
abbreviation (input) LF_MODE_O :: int where "LF_MODE_O \<equiv> 8"
abbreviation (input) LF_CTL_TRUNC :: int where "LF_CTL_TRUNC \<equiv> 2"
abbreviation (input) LF_DISK_DEV :: int where "LF_DISK_DEV \<equiv> 9"
abbreviation (input) DFILL :: byte where "DFILL \<equiv> 43"
abbreviation (input) EOF :: int where "EOF \<equiv> - 2"

record lfiblk =
  ib_next :: word32
  ib_offset :: word32
  ib_dba :: "word32 list"

record ldentry =
  ld_size :: word32
  ld_ilist :: word32
  ld_name :: "byte list"

record lfdir =
  lfd_fsysid :: word32
  lfd_vers :: "16 word"
  lfd_subvers :: "16 word"
  lfd_allzeros :: word32
  lfd_allones :: word32
  lfd_dfree :: word32
  lfd_ifree :: word32
  lfd_nfiles :: word32
  lfd_files :: "ldentry list"
  lfd_revid :: word32

datatype lfst = LF_FREE | LF_USED

record lflcblk =
  lfstate :: lfst
  lfdev :: int
  lfmutex :: int
  lfdirptr :: nat
  lfmode :: int
  lfpos :: word32
  lfname :: "byte list"
  lfinum :: word32
  lfiblock :: lfiblk
  lfdnum :: word32
  lfdblock :: "byte list"
  lfbyte :: nat
  lfibdirty :: bool
  lfdbdirty :: bool

record lfs =
  disk :: ram
  lf_dskdev :: int
  lf_mutex :: int
  lf_dir :: lfdir
  lf_dirpresent :: bool
  lf_dirdirty :: bool
  lfltab :: "nat \<Rightarrow> lflcblk"

section \<open>The layout on disk\<close>

definition le32 :: "word32 \<Rightarrow> byte list" where
  "le32 w = [ucast w, ucast (drop_bit 8 w), ucast (drop_bit 16 w), ucast (drop_bit 24 w)]"

definition de32 :: "byte list \<Rightarrow> word32" where
  "de32 b = ucast (b ! 0) OR push_bit 8 (ucast (b ! 1)) OR push_bit 16 (ucast (b ! 2)) OR push_bit 24 (ucast (b ! 3))"

definition le16 :: "16 word \<Rightarrow> byte list" where
  "le16 w = [ucast w, ucast (drop_bit 8 w)]"

definition de16 :: "byte list \<Rightarrow> 16 word" where
  "de16 b = ucast (b ! 0) OR push_bit 8 (ucast (b ! 1))"

definition ib_encode :: "lfiblk \<Rightarrow> byte list" where
  "ib_encode ib = le32 (ib_next ib) @ le32 (ib_offset ib) @ concat (map le32 (ib_dba ib))"

definition ib_decode :: "byte list \<Rightarrow> lfiblk" where
  "ib_decode b = \<lparr>ib_next = de32 b, ib_offset = de32 (drop 4 b), ib_dba = map (\<lambda>i. de32 (drop (8 + 4 * i) b)) [0..<16]\<rparr>"

definition ld_encode :: "ldentry \<Rightarrow> byte list" where
  "ld_encode e = le32 (ld_size e) @ le32 (ld_ilist e) @ ld_name e"

definition ld_decode :: "byte list \<Rightarrow> ldentry" where
  "ld_decode b = \<lparr>ld_size = de32 b, ld_ilist = de32 (drop 4 b), ld_name = take LF_NAME_LEN (drop 8 b)\<rparr>"

definition dir_encode :: "lfdir \<Rightarrow> byte list" where
  "dir_encode d =
     le32 (lfd_fsysid d) @ le16 (lfd_vers d) @ le16 (lfd_subvers d) @ le32 (lfd_allzeros d) @ le32 (lfd_allones d) @
     le32 (lfd_dfree d) @ le32 (lfd_ifree d) @ le32 (lfd_nfiles d) @ concat (map ld_encode (lfd_files d)) @ le32 (lfd_revid d)"

definition dir_decode :: "byte list \<Rightarrow> lfdir" where
  "dir_decode b =
     \<lparr>lfd_fsysid = de32 b, lfd_vers = de16 (drop 4 b), lfd_subvers = de16 (drop 6 b), lfd_allzeros = de32 (drop 8 b),
      lfd_allones = de32 (drop 12 b), lfd_dfree = de32 (drop 16 b), lfd_ifree = de32 (drop 20 b), lfd_nfiles = de32 (drop 24 b),
      lfd_files = map (\<lambda>i. ld_decode (drop (28 + 24 * i) b)) [0..<LF_NUM_DIR_ENT], lfd_revid = de32 (drop 508 b)\<rparr>"

section \<open>Index blocks\<close>

definition ib2sect :: "word32 \<Rightarrow> word32" where
  "ib2sect ib = word_of_int (sint ib sdiv 7 + LF_AREA_IB)"

definition ib2disp :: "word32 \<Rightarrow> int" where
  "ib2disp ib = (sint ib smod 7) * 72"

definition lfibclear :: "word32 \<Rightarrow> lfiblk" where
  "lfibclear offset = \<lparr>ib_next = LF_INULL, ib_offset = offset, ib_dba = replicate 16 LF_DNULL\<rparr>"

definition lfibget :: "word32 \<Rightarrow> ram \<Rightarrow> lfiblk" where
  "lfibget inum d = ib_decode (take 72 (drop (nat (ib2disp inum)) (ramread (ib2sect inum) d)))"

definition lfibput :: "word32 \<Rightarrow> lfiblk \<Rightarrow> ram \<Rightarrow> ram" where
  "lfibput inum ib d =
     (let dbuff = ramread (ib2sect inum) d; at = nat (ib2disp inum)
      in ramwrite (ib2sect inum) (take at dbuff @ ib_encode ib @ drop (at + 72) dbuff) d)"

definition put_disk :: "word32 \<Rightarrow> byte list \<Rightarrow> lfs \<Rightarrow> lfs" where
  "put_disk blk b f = f\<lparr>disk := ramwrite blk b (disk f)\<rparr>"

definition put_dir :: "lfs \<Rightarrow> lfs" where
  "put_dir f = put_disk LF_AREA_DIR (dir_encode (lf_dir f)) f"

definition upd_file :: "nat \<Rightarrow> (lflcblk \<Rightarrow> lflcblk) \<Rightarrow> lfs \<Rightarrow> lfs" where
  "upd_file i g f = f\<lparr>lfltab := (lfltab f)(i := g (lfltab f i))\<rparr>"

definition upd_dir :: "(lfdir \<Rightarrow> lfdir) \<Rightarrow> lfs \<Rightarrow> lfs" where
  "upd_dir g f = f\<lparr>lf_dir := g (lf_dir f)\<rparr>"

definition dirent :: "lfs \<Rightarrow> nat \<Rightarrow> ldentry" where
  "dirent f e = lfd_files (lf_dir f) ! e"

definition upd_ent :: "nat \<Rightarrow> (ldentry \<Rightarrow> ldentry) \<Rightarrow> lfs \<Rightarrow> lfs" where
  "upd_ent e g = upd_dir (\<lambda>d. d\<lparr>lfd_files := (lfd_files d)[e := g (lfd_files d ! e)]\<rparr>)"

section \<open>Allocation\<close>

definition lfiballoc :: "lfs \<Rightarrow> (word32 \<times> lfs) option" where
  "lfiballoc f =
     (let ibnum = lfd_ifree (lf_dir f) in
      if ibnum = LF_INULL then None
      else
        let iblock = lfibget ibnum (disk f);
            f1 = put_dir (upd_dir (\<lambda>d. d\<lparr>lfd_ifree := ib_next iblock\<rparr>) f)
        in Some (ibnum, f1\<lparr>lf_dirdirty := False\<rparr>))"

definition lfdballoc :: "lfs \<Rightarrow> (word32 \<times> byte list \<times> lfs) option" where
  "lfdballoc f =
     (let dnum = lfd_dfree (lf_dir f) in
      if dnum = LF_DNULL then None
      else
        let dbuff = ramread dnum (disk f);
            f1 = put_dir (upd_dir (\<lambda>d. d\<lparr>lfd_dfree := de32 dbuff\<rparr>) f)
        in Some (dnum, replicate LF_BLKSIZ DFILL, f1\<lparr>lf_dirdirty := False\<rparr>))"

text \<open>\<open>junk\<close> is what the uninitialised part of the local buffer of \<^verbatim>\<open>lfdbfree\<close> holds.\<close>

definition lfdbfree :: "byte list \<Rightarrow> word32 \<Rightarrow> lfs \<Rightarrow> lfs" where
  "lfdbfree junk dnum f =
     (let buf = le32 (lfd_dfree (lf_dir f)) @ junk;
          f1 = upd_dir (\<lambda>d. d\<lparr>lfd_dfree := dnum\<rparr>) f
      in put_dir (put_disk dnum buf f1))"

section \<open>Moving blocks between memory and disk\<close>

definition lfflush :: "nat \<Rightarrow> lfs \<Rightarrow> int \<times> lfs" where
  "lfflush i f =
     (if lfstate (lfltab f i) = LF_FREE then (SYSERR, f)
      else
        let f1 = (if lf_dirdirty f then (put_dir f)\<lparr>lf_dirdirty := False\<rparr> else f);
            l = lfltab f1 i;
            f2 = (if lfdbdirty l then upd_file i (\<lambda>l. l\<lparr>lfdbdirty := False\<rparr>) (put_disk (lfdnum l) (lfdblock l) f1) else f1);
            f3 = (if lfibdirty l then upd_file i (\<lambda>l. l\<lparr>lfibdirty := False\<rparr>) (f2\<lparr>disk := lfibput (lfinum l) (lfiblock l) (disk f2)\<rparr>) else f2)
        in (OK, f3))"

text \<open>\<^verbatim>\<open>lfsetup\<close> in three parts: an index block in memory, the walk to the one that covers the position, the data block.\<close>

definition lfsetup_first :: "nat \<Rightarrow> lfs \<Rightarrow> lfs option" where
  "lfsetup_first i f0 =
     (let l0 = lfltab f0 i;
          f = (if lfibdirty l0 \<or> lfdbdirty l0 then snd (lfflush i f0) else f0);
          l = lfltab f i; e = lfdirptr l
      in if lfinum l = LF_INULL then
           (let ibnum = ld_ilist (dirent f e) in
            if ibnum = LF_INULL then
              (case lfiballoc f of
                 None \<Rightarrow> None
               | Some (n, f1) \<Rightarrow>
                   Some (upd_file i (\<lambda>l. l\<lparr>lfiblock := lfibclear 0, lfibdirty := True, lfinum := n\<rparr>)
                           (upd_ent e (\<lambda>d. d\<lparr>ld_ilist := n\<rparr>) f1)))
            else Some (upd_file i (\<lambda>l. l\<lparr>lfiblock := lfibget ibnum (disk f), lfinum := ibnum\<rparr>) f))
         else if lfpos l < ib_offset (lfiblock l) then
           (let ibnum = ld_ilist (dirent f e)
            in Some (upd_file i (\<lambda>l. l\<lparr>lfiblock := lfibget ibnum (disk f), lfinum := ibnum\<rparr>) f))
         else Some f)"

partial_function (option) lfsetup_walk :: "nat \<Rightarrow> lfs \<Rightarrow> lfs option" where
  "lfsetup_walk i f =
     (let l = lfltab f i; ib = lfiblock l in
      if (lfpos l AND NOT LF_IMASK) > ib_offset ib then
        (if ib_next ib = LF_INULL then
           (case lfiballoc f of
              None \<Rightarrow> None
            | Some (n, f1) \<Rightarrow>
                lfsetup_walk i
                  (upd_file i (\<lambda>l. l\<lparr>lfinum := n, lfiblock := lfibclear (ib_offset ib + LF_IDATA), lfibdirty := True, lfdnum := LF_DNULL\<rparr>)
                     (f1\<lparr>disk := lfibput (lfinum l) (ib\<lparr>ib_next := n\<rparr>) (disk f1)\<rparr>)))
         else
           lfsetup_walk i
             (upd_file i (\<lambda>l. l\<lparr>lfiblock := lfibget (ib_next ib) (disk f), lfinum := ib_next ib, lfdnum := LF_DNULL\<rparr>) f))
      else Some f)"

definition lfsetup_data :: "nat \<Rightarrow> lfs \<Rightarrow> lfs option" where
  "lfsetup_data i f =
     (let l = lfltab f i;
          dindex = unat (drop_bit 9 (lfpos l AND LF_IMASK));
          dnum = ib_dba (lfiblock l) ! dindex;
          at = unat (lfpos l AND LF_DMASK)
      in if dnum = LF_DNULL then
           (case lfdballoc f of
              None \<Rightarrow> None
            | Some (n, b, f1) \<Rightarrow>
                Some (upd_file i (\<lambda>l. l\<lparr>lfdblock := b, lfiblock := (lfiblock l)\<lparr>ib_dba := (ib_dba (lfiblock l))[dindex := n]\<rparr>,
                                        lfibdirty := True, lfdnum := n, lfbyte := at\<rparr>) f1))
         else if dnum \<noteq> lfdnum l then
           Some (upd_file i (\<lambda>l. l\<lparr>lfdblock := ramread dnum (disk f), lfdbdirty := False, lfdnum := dnum, lfbyte := at\<rparr>) f)
         else Some (upd_file i (\<lambda>l. l\<lparr>lfdnum := dnum, lfbyte := at\<rparr>) f))"

definition lfsetup_body :: "nat \<Rightarrow> lfs \<Rightarrow> lfs option" where
  "lfsetup_body i f = Option.bind (Option.bind (lfsetup_first i f) (lfsetup_walk i)) (lfsetup_data i)"

text \<open>Waiting for a mutual exclusion semaphore: whether the caller still runs afterwards.\<close>

definition lock :: "int \<Rightarrow> kernel \<Rightarrow> bool \<times> kernel" where
  "lock sem k = (let k1 = snd (wait sem k) in (currpid k1 = currpid k, k1))"

definition unlock :: "int \<Rightarrow> kernel \<Rightarrow> kernel" where
  "unlock sem k = snd (signal sem k)"

type_synonym 'a outcome = "('a option \<times> lfs \<times> kernel) option"

definition lfsetup :: "nat \<Rightarrow> lfs \<Rightarrow> kernel \<Rightarrow> int outcome" where
  "lfsetup i f k =
     (let (go, k1) = lock (lf_mutex f) k in
      if \<not> go then Some (None, f, k1)
      else case lfsetup_body i f of None \<Rightarrow> None | Some f1 \<Rightarrow> Some (Some OK, f1, unlock (lf_mutex f1) k1))"

text \<open>The block for the current position, if it is not there already.\<close>

definition lfready :: "nat \<Rightarrow> lfs \<Rightarrow> kernel \<Rightarrow> int outcome" where
  "lfready i f k = (if lfbyte (lfltab f i) \<ge> LF_BLKSIZ then lfsetup i f k else Some (Some OK, f, k))"

section \<open>Files\<close>

definition lflseek :: "nat \<Rightarrow> word32 \<Rightarrow> lfs \<Rightarrow> kernel \<Rightarrow> int outcome" where
  "lflseek i offset f k =
     (let m = lfmutex (lfltab f i); (go, k1) = lock m k in
      if \<not> go then Some (None, f, k1)
      else if lfstate (lfltab f i) \<noteq> LF_USED then Some (Some SYSERR, f, unlock m k1)
      else if offset > ld_size (dirent f (lfdirptr (lfltab f i))) then Some (Some SYSERR, f, unlock m k1)
      else Some (Some OK, upd_file i (\<lambda>l. l\<lparr>lfpos := offset, lfbyte := LF_BLKSIZ\<rparr>) f, unlock m k1))"

definition lflgetc :: "nat \<Rightarrow> lfs \<Rightarrow> kernel \<Rightarrow> int outcome" where
  "lflgetc i f k =
     (let m = lfmutex (lfltab f i); (go, k1) = lock m k in
      if \<not> go then Some (None, f, k1)
      else if lfstate (lfltab f i) \<noteq> LF_USED then Some (Some SYSERR, f, unlock m k1)
      else if lfpos (lfltab f i) \<ge> ld_size (dirent f (lfdirptr (lfltab f i))) then Some (Some EOF, f, unlock m k1)
      else case lfready i f k1 of
             None \<Rightarrow> None
           | Some (None, f1, k2) \<Rightarrow> Some (None, f1, k2)
           | Some (Some _, f1, k2) \<Rightarrow>
               let l = lfltab f1 i; onebyte = uint (lfdblock l ! lfbyte l)
               in Some (Some onebyte, upd_file i (\<lambda>l. l\<lparr>lfbyte := lfbyte l + 1, lfpos := lfpos l + 1\<rparr>) f1, unlock m k2))"

definition lflputc :: "nat \<Rightarrow> byte \<Rightarrow> lfs \<Rightarrow> kernel \<Rightarrow> int outcome" where
  "lflputc i ch f k =
     (let m = lfmutex (lfltab f i); e = lfdirptr (lfltab f i); (go, k1) = lock m k in
      if \<not> go then Some (None, f, k1)
      else if lfstate (lfltab f i) \<noteq> LF_USED then Some (Some SYSERR, f, unlock m k1)
      else if lfpos (lfltab f i) > ld_size (dirent f e) then Some (Some SYSERR, f, unlock m k1)
      else case lfready i f k1 of
             None \<Rightarrow> None
           | Some (None, f1, k2) \<Rightarrow> Some (None, f1, k2)
           | Some (Some _, f1, k2) \<Rightarrow>
               let f2 = (if lfpos (lfltab f1 i) \<ge> ld_size (dirent f1 e)
                         then (upd_ent e (\<lambda>d. d\<lparr>ld_size := ld_size d + 1\<rparr>) f1)\<lparr>lf_dirdirty := True\<rparr> else f1);
                   f3 = upd_file i (\<lambda>l. l\<lparr>lfdblock := (lfdblock l)[lfbyte l := ch], lfbyte := lfbyte l + 1, lfpos := lfpos l + 1,
                                           lfdbdirty := True\<rparr>) f2
               in Some (Some OK, f3, unlock m k2))"

fun lflread_loop :: "nat \<Rightarrow> int \<Rightarrow> bmem \<Rightarrow> nat \<Rightarrow> nat \<Rightarrow> lfs \<Rightarrow> kernel \<Rightarrow> (int \<times> bmem) outcome" where
  "lflread_loop 0 numread m buff i f k = Some (Some (numread, m), f, k)"
| "lflread_loop (Suc n) numread m buff i f k =
     (case lflgetc i f k of
        None \<Rightarrow> None
      | Some (None, f1, k1) \<Rightarrow> Some (None, f1, k1)
      | Some (Some nxtbyte, f1, k1) \<Rightarrow>
          if nxtbyte = SYSERR then Some (Some (SYSERR, m), f1, k1)
          else if nxtbyte = EOF then Some (Some (if numread = 0 then EOF else numread, m), f1, k1)
          else lflread_loop n (numread + 1) (m(buff := word_of_int nxtbyte)) (buff + 1) i f1 k1)"

definition lflread :: "nat \<Rightarrow> bmem \<Rightarrow> nat \<Rightarrow> int \<Rightarrow> lfs \<Rightarrow> kernel \<Rightarrow> (int \<times> bmem) outcome" where
  "lflread i m buff count f k =
     (if count < 0 then Some (Some (SYSERR, m), f, k) else lflread_loop (nat count) 0 m buff i f k)"

fun lflwrite_loop :: "nat \<Rightarrow> int \<Rightarrow> bmem \<Rightarrow> nat \<Rightarrow> nat \<Rightarrow> lfs \<Rightarrow> kernel \<Rightarrow> int outcome" where
  "lflwrite_loop 0 count m buff i f k = Some (Some count, f, k)"
| "lflwrite_loop (Suc n) count m buff i f k =
     (case lflputc i (m buff) f k of
        None \<Rightarrow> None
      | Some (None, f1, k1) \<Rightarrow> Some (None, f1, k1)
      | Some (Some r, f1, k1) \<Rightarrow>
          if r = SYSERR then Some (Some SYSERR, f1, k1) else lflwrite_loop n count m (buff + 1) i f1 k1)"

definition lflwrite :: "nat \<Rightarrow> bmem \<Rightarrow> nat \<Rightarrow> int \<Rightarrow> lfs \<Rightarrow> kernel \<Rightarrow> int outcome" where
  "lflwrite i m buff count f k =
     (if count < 0 then Some (Some SYSERR, f, k) else lflwrite_loop (nat count) count m buff i f k)"

definition lflclose :: "nat \<Rightarrow> lfs \<Rightarrow> kernel \<Rightarrow> int outcome" where
  "lflclose i f k =
     (let l = lfltab f i; m = lfmutex l; (go, k1) = lock m k in
      if \<not> go then Some (None, f, k1)
      else if lfstate l \<noteq> LF_USED then Some (Some SYSERR, f, unlock m k1)
      else
        let f1 = (if lf_dirdirty f \<or> lfdbdirty l \<or> lfibdirty l then snd (lfflush i f) else f)
        in Some (Some OK, upd_file i (\<lambda>l. l\<lparr>lfstate := LF_FREE\<rparr>) f1, unlock m k1))"

text \<open>\<^verbatim>\<open>lftruncate\<close>: the inner loop frees the data blocks of one index block, the outer one walks the index blocks.\<close>

fun free_dblocks :: "(word32 \<Rightarrow> byte list) \<Rightarrow> word32 list \<Rightarrow> lfs \<Rightarrow> lfs" where
  "free_dblocks junk [] f = f"
| "free_dblocks junk (d # ds) f = free_dblocks junk ds (if d \<noteq> LF_DNULL then lfdbfree (junk d) d f else f)"

partial_function (option) lftruncate_loop :: "(word32 \<Rightarrow> byte list) \<Rightarrow> word32 \<Rightarrow> word32 \<Rightarrow> lfs \<Rightarrow> lfs option" where
  "lftruncate_loop junk ifree nextib f =
     (if nextib \<noteq> ifree then
        let ib = lfibget nextib (disk f);
            f1 = free_dblocks junk (ib_dba ib) f;
            ib1 = \<lparr>ib_next = (if ib_next ib = LF_INULL then ifree else ib_next ib), ib_offset = 0, ib_dba = replicate 16 LF_DNULL\<rparr>
        in lftruncate_loop junk ifree (ib_next ib1) (f1\<lparr>disk := lfibput nextib ib1 (disk f1)\<rparr>)
      else Some f)"

definition lftruncate :: "(word32 \<Rightarrow> byte list) \<Rightarrow> nat \<Rightarrow> lfs \<Rightarrow> (int \<times> lfs) option" where
  "lftruncate junk i f =
     (let e = lfdirptr (lfltab f i) in
      if ld_size (dirent f e) = 0 then Some (OK, f)
      else
        let f1 = (if lfibdirty (lfltab f i) \<or> lfdbdirty (lfltab f i) then snd (lfflush i f) else f);
            f2 = upd_file i (\<lambda>l. l\<lparr>lfpos := 0, lfinum := LF_INULL, lfdnum := LF_DNULL, lfbyte := LF_BLKSIZ\<rparr>) f1;
            ifree = lfd_ifree (lf_dir f2);
            firstib = ld_ilist (dirent f2 e);
            f3 = (upd_ent e (\<lambda>d. d\<lparr>ld_ilist := LF_INULL, ld_size := 0\<rparr>) f2)\<lparr>lf_dirdirty := True\<rparr>
        in case lftruncate_loop junk ifree firstib f3 of
             None \<Rightarrow> None
           | Some f4 \<Rightarrow> Some (OK, (upd_dir (\<lambda>d. d\<lparr>lfd_ifree := firstib\<rparr>) f4)\<lparr>lf_dirdirty := True\<rparr>))"

definition lflcontrol :: "(word32 \<Rightarrow> byte list) \<Rightarrow> nat \<Rightarrow> int \<Rightarrow> lfs \<Rightarrow> kernel \<Rightarrow> int outcome" where
  "lflcontrol junk i func f k =
     (let m = lfmutex (lfltab f i); (go, k1) = lock m k in
      if \<not> go then Some (None, f, k1)
      else if lfstate (lfltab f i) \<noteq> LF_USED then Some (Some SYSERR, f, unlock m k1)
      else if func = LF_CTL_TRUNC then
        (let (go2, k2) = lock (lf_mutex f) k1 in
         if \<not> go2 then Some (None, f, k2)
         else case lftruncate junk i f of
                None \<Rightarrow> None
              | Some (r, f1) \<Rightarrow> Some (Some r, f1, unlock m (unlock (lf_mutex f1) k2)))
      else Some (Some SYSERR, f, unlock m k1))"

section \<open>Opening a file\<close>

fun lfgetmode_loop :: "string \<Rightarrow> int \<Rightarrow> int" where
  "lfgetmode_loop [] mbits = (if mbits AND LF_MODE_RW = 0 then mbits OR LF_MODE_RW else mbits)"
| "lfgetmode_loop (ch # mode) mbits =
     (if ch = CHR ''r'' then (if mbits AND LF_MODE_R \<noteq> 0 then SYSERR else lfgetmode_loop mode (mbits OR LF_MODE_R))
      else if ch = CHR ''w'' then (if mbits AND LF_MODE_W \<noteq> 0 then SYSERR else lfgetmode_loop mode (mbits OR LF_MODE_W))
      else if ch = CHR ''o'' then
        (if mbits AND LF_MODE_O \<noteq> 0 \<or> mbits AND LF_MODE_N \<noteq> 0 then SYSERR else lfgetmode_loop mode (mbits OR LF_MODE_O))
      else if ch = CHR ''n'' then
        (if mbits AND LF_MODE_O \<noteq> 0 \<or> mbits AND LF_MODE_N \<noteq> 0 then SYSERR else lfgetmode_loop mode (mbits OR LF_MODE_N))
      else SYSERR)"

definition lfgetmode :: "string \<Rightarrow> int" where
  "lfgetmode mode = lfgetmode_loop mode 0"

definition revid :: word32 where
  "revid = (drop_bit 24 LFS_ID AND 0xff) OR (drop_bit 8 LFS_ID AND 0xff00) OR (push_bit 8 LFS_ID AND 0xff0000) OR (push_bit 24 LFS_ID AND 0xff000000)"

definition lfscheck :: "lfdir \<Rightarrow> int" where
  "lfscheck d =
     (if lfd_fsysid d \<noteq> LFS_ID \<or> lfd_allzeros d \<noteq> 0 \<or> lfd_allones d \<noteq> 0xffffffff then SYSERR
      else if lfd_revid d \<noteq> revid then SYSERR
      else if sint (lfd_nfiles d) < 0 then SYSERR
      else OK)"

text \<open>Comparison of a string with a null-terminated name in an array, and copying a string into one.\<close>

fun name_eq :: "byte list \<Rightarrow> byte list \<Rightarrow> bool" where
  "name_eq [] (c # cs) \<longleftrightarrow> c = 0"
| "name_eq (n # ns) (c # cs) \<longleftrightarrow> n = c \<and> name_eq ns cs"
| "name_eq _ [] \<longleftrightarrow> False"

definition name_copy :: "byte list \<Rightarrow> byte list \<Rightarrow> byte list" where
  "name_copy name old = name @ [0] @ drop (length name + 1) old"

text \<open>The search for a free pseudo-device: \<^term>\<open>None\<close> if the file is open, else the first free entry if there is one.\<close>

fun find_slave :: "nat list \<Rightarrow> byte list \<Rightarrow> lfs \<Rightarrow> nat option \<Rightarrow> nat option option" where
  "find_slave [] name f lfnext = Some lfnext"
| "find_slave (i # is) name f lfnext =
     (if lfstate (lfltab f i) = LF_FREE then find_slave is name f (if lfnext = None then Some i else lfnext)
      else if name_eq name (lfname (lfltab f i)) then None
      else find_slave is name f lfnext)"

fun find_name :: "nat \<Rightarrow> nat \<Rightarrow> byte list \<Rightarrow> lfdir \<Rightarrow> nat option" where
  "find_name 0 i name d = None"
| "find_name (Suc n) i name d = (if name_eq name (ld_name (lfd_files d ! i)) then Some i else find_name n (i + 1) name d)"

definition lfs_init_file :: "nat \<Rightarrow> nat \<Rightarrow> int \<Rightarrow> byte list \<Rightarrow> lfs \<Rightarrow> lfs" where
  "lfs_init_file i e mbits name =
     upd_file i (\<lambda>l. l\<lparr>lfstate := LF_USED, lfdirptr := e, lfmode := mbits AND LF_MODE_RW, lfpos := 0, lfname := name_copy name (lfname l),
                       lfinum := LF_INULL, lfdnum := LF_DNULL, lfbyte := LF_BLKSIZ, lfibdirty := False, lfdbdirty := False\<rparr>)"

definition lfs_present :: "lfs \<Rightarrow> int \<times> lfs" where
  "lfs_present f =
     (if \<not> lf_dirpresent f then
        let f1 = f\<lparr>lf_dir := dir_decode (ramread LF_AREA_DIR (disk f))\<rparr>
        in if lfscheck (lf_dir f1) = SYSERR then (SYSERR, f1) else (OK, f1\<lparr>lf_dirpresent := True\<rparr>)
      else (OK, f))"

definition lfsopen :: "byte list \<Rightarrow> string \<Rightarrow> lfs \<Rightarrow> kernel \<Rightarrow> int outcome" where
  "lfsopen name mode f k =
     (if length name \<ge> LF_NAME_LEN then Some (Some SYSERR, f, k)
      else
        let mbits = lfgetmode mode in
        if mbits = SYSERR then Some (Some SYSERR, f, k)
        else case find_slave [0..<Nlfl] name f None of
               None \<Rightarrow> Some (Some SYSERR, f, k)
             | Some None \<Rightarrow> Some (Some SYSERR, f, k)
             | Some (Some i) \<Rightarrow>
                 let m = lf_mutex f; (go, k1) = lock m k in
                 if \<not> go then Some (None, f, k1)
                 else
                   let (r, f1) = lfs_present f; d = lf_dir f1; n = nat (sint (lfd_nfiles d)) in
                   if r = SYSERR then Some (Some SYSERR, f1, unlock m k1)
                   else case find_name n 0 name d of
                          None \<Rightarrow>
                            if mbits AND LF_MODE_O \<noteq> 0 then Some (Some SYSERR, f1, unlock m k1)
                            else if n \<ge> LF_NUM_DIR_ENT then Some (Some SYSERR, f1, unlock m k1)
                            else
                              let f2 = upd_dir (\<lambda>d. d\<lparr>lfd_nfiles := lfd_nfiles d + 1\<rparr>) f1;
                                  f3 = upd_ent n (\<lambda>e. e\<lparr>ld_size := 0, ld_name := name_copy name (ld_name e), ld_ilist := LF_INULL\<rparr>) f2;
                                  f4 = lfs_init_file i n mbits name f3
                              in Some (Some (lfdev (lfltab f4 i)), f4, unlock m k1)
                        | Some e \<Rightarrow>
                            if mbits AND LF_MODE_N \<noteq> 0 then Some (Some SYSERR, f1, unlock m k1)
                            else let f4 = lfs_init_file i e mbits name f1 in Some (Some (lfdev (lfltab f4 i)), f4, unlock m k1))"

section \<open>Initialisation and formatting\<close>

definition zero_dir :: lfdir where
  "zero_dir = dir_decode (replicate LF_BLKSIZ 0)"

definition lfsinit :: "lfs \<Rightarrow> kernel \<Rightarrow> lfs \<times> kernel" where
  "lfsinit f k =
     (let (sem, k1) = semcreate 1 k
      in (f\<lparr>lf_dskdev := LF_DISK_DEV, lf_mutex := sem, lf_dir := zero_dir, lf_dirpresent := False, lf_dirdirty := False\<rparr>, k1))"

definition lflinit :: "nat \<Rightarrow> int \<Rightarrow> lfs \<Rightarrow> kernel \<Rightarrow> lfs \<times> kernel" where
  "lflinit i dvnum f k =
     (let (sem, k1) = semcreate 1 k
      in (upd_file i (\<lambda>l. l\<lparr>lfstate := LF_FREE, lfdev := dvnum, lfmutex := sem, lfdirptr := LF_NUM_DIR_ENT, lfpos := 0, lfname := replicate LF_NAME_LEN 0,
                           lfinum := LF_INULL, lfiblock := ib_decode (replicate 72 0), lfdnum := 0, lfdblock := replicate LF_BLKSIZ 0,
                           lfbyte := LF_BLKSIZ, lfibdirty := False, lfdbdirty := False\<rparr>) f, k1))"

text \<open>The two loops of \<^verbatim>\<open>lfscreate\<close>; the last turn, after the loop, is the case where one block is left.\<close>

fun link_iblocks :: "nat \<Rightarrow> word32 \<Rightarrow> lfiblk \<Rightarrow> ram \<Rightarrow> ram" where
  "link_iblocks 0 i ib d = lfibput i (ib\<lparr>ib_next := LF_INULL\<rparr>) d"
| "link_iblocks (Suc n) i ib d = link_iblocks n (i + 1) ib (lfibput i (ib\<lparr>ib_next := i + 1\<rparr>) d)"

fun link_dblocks :: "nat \<Rightarrow> word32 \<Rightarrow> ram \<Rightarrow> ram" where
  "link_dblocks 0 b d = ramwrite b (le32 LF_DNULL @ replicate 508 0) d"
| "link_dblocks (Suc n) b d = link_dblocks n (b + 1) (ramwrite b (le32 (b + 1) @ replicate 508 0) d)"

definition lfscreate :: "word32 \<Rightarrow> word32 \<Rightarrow> ram \<Rightarrow> int \<times> ram" where
  "lfscreate lfiblks0 dsiz d =
     (let sectors = dsiz div 512;
          ibsectors = (lfiblks0 + 6) div 7;
          lfiblks = ibsectors * 7
      in if ibsectors > sectors div 2 then (SYSERR, d)
         else
           let dir = zero_dir\<lparr>lfd_fsysid := LFS_ID, lfd_nfiles := 0, lfd_allzeros := 0, lfd_allones := 0xffffffff, lfd_revid := revid,
                              lfd_dfree := ibsectors + 1\<rparr>;
               dblks = sectors - ibsectors - 1;
               d1 = ramwrite LF_AREA_DIR (dir_encode dir) d;
               d2 = link_iblocks (nat (sint lfiblks - 1)) 0 (lfibclear 0) d1;
               d3 = link_dblocks (unat (dblks - 1)) (ibsectors + 1) d2
           in (OK, d3))"

text \<open>\<^verbatim>\<open>lfsckfmt\<close> follows the free lists and reports how many index blocks, index sectors and data blocks it found.\<close>

partial_function (option) count_iblocks :: "word32 \<Rightarrow> word32 \<Rightarrow> ram \<Rightarrow> word32 option" where
  "count_iblocks nextib n d = (if nextib \<noteq> LF_INULL then count_iblocks (ib_next (lfibget nextib d)) (n + 1) d else Some n)"

partial_function (option) count_dblocks :: "word32 \<Rightarrow> word32 \<Rightarrow> ram \<Rightarrow> word32 option" where
  "count_dblocks nextdb n d = (if nextdb \<noteq> LF_DNULL then count_dblocks (de32 (ramread nextdb d)) (n + 1) d else Some n)"

definition lfsckfmt :: "ram \<Rightarrow> (int \<times> word32 \<times> word32 \<times> word32) option" where
  "lfsckfmt d =
     (let dir = dir_decode (ramread LF_AREA_DIR d) in
      if lfscheck dir = SYSERR then None
      else case count_iblocks (lfd_ifree dir) 0 d of
             None \<Rightarrow> None
           | Some lfiblks \<Rightarrow>
               case count_dblocks (lfd_dfree dir) 0 d of
                 None \<Rightarrow> None
               | Some dblks \<Rightarrow> Some (OK, lfiblks, word_of_int ((sint lfiblks + 6) sdiv 7), dblks))"

end
