(* ===== verification/Lfs_Disk.thy ===== *)
theory Lfs_Disk
  imports Lfs
begin

text \<open>
  The disk as the file system uses it: what is written as a structure is read back as the same structure, index blocks and data
  blocks are stores of their own, and a write to one area does not disturb the others.
\<close>

section \<open>Encoding\<close>

lemma length_le [simp]: "length (le32 w) = 4" "length (le16 v) = 2"
  by (simp_all add: le32_def le16_def)

lemma de32_le32 [simp]: "de32 (le32 w @ r) = w"
proof (rule bit_word_eqI)
  fix n
  assume "n < LENGTH(32)"
  then show "bit (de32 (le32 w @ r)) n \<longleftrightarrow> bit w n" by (cases "n < 16"; cases "n < 24") (auto simp: de32_def le32_def bit_simps)
qed

lemma de32_le32' [simp]: "de32 (le32 w) = w"
  using de32_le32 [of w "[]"] by simp

lemma de16_le16 [simp]: "de16 (le16 w @ r) = w"
  by (rule bit_word_eqI) (auto simp: de16_def le16_def bit_simps)

lemma concat_chunks:
  assumes "\<forall>x \<in> set xs. length (f x) = n" "i < length xs"
  shows "drop (n * i) (concat (map f xs) @ r) = f (xs ! i) @ concat (map f (drop (Suc i) xs)) @ r"
  using assms
proof (induction xs arbitrary: i)
  case (Cons x xs)
  then show ?case by (cases i) auto
qed simp

lemma length_chunks: "\<forall>x \<in> set xs. length (f x) = n \<Longrightarrow> length (concat (map f xs)) = n * length xs"
  by (induction xs) auto

lemma ib_roundtrip [simp]:
  assumes "length (ib_dba ib) = 16"
  shows "ib_decode (ib_encode ib @ r) = ib"
proof -
  let ?c = "concat (map le32 (ib_dba ib))"
  have "de32 (drop (4 * i) (?c @ r)) = ib_dba ib ! i" if "i < 16" for i
    using that assms concat_chunks [of "ib_dba ib" le32 4 i r] by (simp del: drop_append)
  then have "map (\<lambda>i. de32 (drop (4 * i) (?c @ r))) [0..<16] = ib_dba ib"
    using assms by (intro nth_equalityI) auto
  moreover have "drop (8 + 4 * i) (ib_encode ib @ r) = drop (4 * i) (?c @ r)" for i
    by (simp add: ib_encode_def)
  ultimately show ?thesis by (simp add: ib_decode_def, simp add: ib_encode_def)
qed

lemma length_ib_encode: "length (ib_dba ib) = 16 \<Longrightarrow> length (ib_encode ib) = 72"
  using length_chunks [of "ib_dba ib" le32 4] by (simp add: ib_encode_def)

lemma length_ib_decode [simp]: "length (ib_dba (ib_decode b)) = 16"
  by (simp add: ib_decode_def)

lemma ld_roundtrip: "length (ld_name e) = 16 \<Longrightarrow> ld_decode (ld_encode e @ r) = e"
  by (simp add: ld_decode_def ld_encode_def)

definition dir_fit :: "lfdir \<Rightarrow> bool" where
  "dir_fit d \<longleftrightarrow> length (lfd_files d) = 20 \<and> (\<forall>e \<in> set (lfd_files d). length (ld_name e) = 16)"

lemma length_dir_encode:
  assumes "dir_fit d"
  shows "length (dir_encode d) = 512"
proof -
  have "length (concat (map ld_encode (lfd_files d))) = 24 * length (lfd_files d)"
    using assms by (intro length_chunks) (simp add: dir_fit_def ld_encode_def)
  then show ?thesis using assms by (simp add: dir_encode_def dir_fit_def)
qed

lemma dir_roundtrip:
  assumes "dir_fit d"
  shows "dir_decode (dir_encode d) = d"
proof -
  let ?c = "concat (map ld_encode (lfd_files d))"
  have len: "\<forall>e \<in> set (lfd_files d). length (ld_encode e) = 24" "length (lfd_files d) = 20"
    using assms by (auto simp: dir_fit_def ld_encode_def)
  have "ld_decode (drop (24 * i) (?c @ r)) = lfd_files d ! i" if "i < 20" for i r
    using that assms len concat_chunks [OF len(1)] by (simp add: dir_fit_def ld_roundtrip)
  then have "map (\<lambda>i. ld_decode (drop (24 * i) (?c @ le32 (lfd_revid d)))) [0..<20] = lfd_files d"
    using len by (intro nth_equalityI) auto
  moreover have "drop (28 + 24 * i) (dir_encode d) = drop (24 * i) (?c @ le32 (lfd_revid d))" for i
    by (simp add: dir_encode_def)
  moreover have "drop 508 (dir_encode d) = le32 (lfd_revid d)"
    using length_chunks [OF len(1)] len(2) by (simp add: dir_encode_def)
  ultimately show ?thesis by (simp add: dir_decode_def, simp add: dir_encode_def)
qed

section \<open>Index blocks\<close>

definition iok :: "word32 \<Rightarrow> bool" where
  "iok inum \<longleftrightarrow> uint inum < 1393"

lemma sdiv7: "0 \<le> (x :: int) \<Longrightarrow> x sdiv 7 = x div 7 \<and> x smod 7 = x mod 7"
  by (cases "x = 0") (simp_all add: signed_divide_int_def signed_modulo_int_def)

lemma ib_place:
  assumes "iok a"
  shows "uint (ib2sect a) = uint a div 7 + 1" "ib2disp a = (uint a mod 7) * 72" "on_disk (ib2sect a)"
proof -
  have s: "sint a = uint a" using assms by (simp add: iok_def sint_small)
  have r: "0 \<le> uint a div 7" "uint a div 7 + 1 < 200" using assms pos_imp_zdiv_nonneg_iff [of 7 "uint a"] by (auto simp: iok_def)
  have e: "sint a sdiv 7 + 1 = uint a div 7 + 1" by (simp add: s sdiv7)
  have "uint (ib2sect a) = take_bit LENGTH(32) (uint a div 7 + 1)" unfolding ib2sect_def e uint_word_of_int_eq by simp
  then show u: "uint (ib2sect a) = uint a div 7 + 1" using r by (simp add: take_bit_int_eq_self)
  show "ib2disp a = (uint a mod 7) * 72" by (simp add: ib2disp_def s sdiv7)
  show "on_disk (ib2sect a)" using u r by (simp add: on_disk_def)
qed

text \<open>Bytes \<open>o\<close> to \<open>o + n - 1\<close> of a buffer, and replacing them.\<close>

lemma patch_same: "length v = n \<Longrightarrow> at + n \<le> length b \<Longrightarrow> take n (drop at (take at b @ v @ drop (at + n) b)) = v"
  by simp

lemma patch_other:
  assumes "length v = n" "at + n \<le> length b" "at' + n \<le> at \<or> at + n \<le> at'"
  shows "take n (drop at' (take at b @ v @ drop (at + n) b)) = take n (drop at' b)"
  using assms by (auto simp: take_drop min_def not_le intro!: nth_equalityI simp: nth_append)

lemma slot_apart: "0 \<le> x \<Longrightarrow> x < y \<Longrightarrow> nat (x * 72) + 72 \<le> nat (y * 72)"
  by linarith

lemma disp_bound: "iok a \<Longrightarrow> nat (ib2disp a) + 72 \<le> 512"
  using pos_mod_bound [of 7 "uint a"] by (simp add: ib_place)

lemma lfibget_same:
  assumes "iok a" "length (ib_dba ib) = 16"
  shows "lfibget a (lfibput a ib d) = ib"
proof -
  let ?b = "ramread (ib2sect a) d" and ?at = "nat (ib2disp a)"
  have l: "length (ib_encode ib) = 72" using assms(2) by (rule length_ib_encode)
  have "length (take ?at ?b @ ib_encode ib @ drop (?at + 72) ?b) = 512" using l disp_bound [OF assms(1)] by simp
  then have "ramread (ib2sect a) (lfibput a ib d) = take ?at ?b @ ib_encode ib @ drop (?at + 72) ?b"
    by (simp add: lfibput_def ramread_same Let_def)
  then show ?thesis
    using patch_same [OF l, of ?at ?b] disp_bound [OF assms(1)] ib_roundtrip [OF assms(2), of "[]"] by (simp add: lfibget_def)
qed

lemma lfibget_other:
  assumes "iok a" "iok c" "a \<noteq> c" "length (ib_dba ib) = 16"
  shows "lfibget c (lfibput a ib d) = lfibget c d"
proof (cases "ib2sect c = ib2sect a")
  case True
  let ?b = "ramread (ib2sect a) d" and ?at = "nat (ib2disp a)"
  have l: "length (ib_encode ib) = 72" using assms(4) by (rule length_ib_encode)
  have "length (take ?at ?b @ ib_encode ib @ drop (?at + 72) ?b) = 512" using l disp_bound [OF assms(1)] by simp
  then have r: "ramread (ib2sect a) (lfibput a ib d) = take ?at ?b @ ib_encode ib @ drop (?at + 72) ?b"
    by (simp add: lfibput_def ramread_same Let_def)
  have "uint a div 7 = uint c div 7" using True ib_place(1) [OF assms(1)] ib_place(1) [OF assms(2)] by simp
  then have "uint a mod 7 \<noteq> uint c mod 7" using assms(3) by (metis div_mult_mod_eq word_uint_eq_iff)
  then have "nat (ib2disp c) + 72 \<le> ?at \<or> ?at + 72 \<le> nat (ib2disp c)"
    using ib_place(2) [OF assms(1)] ib_place(2) [OF assms(2)] slot_apart [of "uint a mod 7" "uint c mod 7"] slot_apart [of "uint c mod 7" "uint a mod 7"]
    by (auto simp: neq_iff)
  then show ?thesis
    using patch_other [OF l, of ?at ?b "nat (ib2disp c)"] disp_bound [OF assms(1)] True r by (simp add: lfibget_def)
next
  case False
  then show ?thesis using assms ib_place(3) by (simp add: lfibget_def lfibput_def ramread_other Let_def)
qed

lemma null_off_disk: "\<not> iok LF_INULL" "\<not> on_disk LF_DNULL"
  by (simp_all add: iok_def on_disk_def unsigned_minus_1_eq_mask mask_eq_exp_minus_1)

lemma length_lfibget [simp]: "length (ib_dba (lfibget a d)) = 16"
  by (simp add: lfibget_def)

interpretation ist: linked_store lfibget lfibput iok "\<lambda>ib. length (ib_dba ib) = 16" ib_next LF_INULL
  by unfold_locales (simp_all add: lfibget_same lfibget_other null_off_disk)

interpretation dst: linked_store ramread ramwrite on_disk "\<lambda>b. length b = 512" de32 LF_DNULL
  by unfold_locales (simp add: null_off_disk)

end
