(* ===== verification/Lfs_Inv.thy ===== *)
theory Lfs_Inv
  imports Lfs_Disk
begin

text \<open>
  An open file as a byte sequence with a position. \<open>file_inv K f i ibs ds xs p\<close>: the file open at table entry \<open>i\<close> is stored in the
  index blocks \<open>ibs\<close> and the data blocks \<open>ds\<close>, its content is \<open>xs\<close> and its position \<open>p\<close>; the current index and data block may be
  newer in memory than on disk. \<open>free_inv K f fi fd\<close>: the free index and data blocks. \<open>K\<close> is the number of sectors of
  index blocks.
\<close>

section \<open>Areas of the disk\<close>

definition islot :: "nat \<Rightarrow> word32 \<Rightarrow> bool" where
  "islot K a \<longleftrightarrow> K \<le> 199 \<and> unat a < 7 * K"

definition dslot :: "nat \<Rightarrow> word32 \<Rightarrow> bool" where
  "dslot K b \<longleftrightarrow> K < unat b \<and> unat b < 200"

lemma uint_unat: "uint (w :: word32) = int (unat w)"
  by simp

lemma islotD:
  assumes "islot K a"
  shows "iok a" "on_disk (ib2sect a)" "unat (ib2sect a) \<le> K" "ib2sect a \<noteq> 0" "a \<noteq> LF_INULL"
proof -
  show i: "iok a" using assms uint_unat [of a] unfolding iok_def islot_def by linarith
  then show "on_disk (ib2sect a)" by (rule ib_place)
  have "int (unat (ib2sect a)) = int (unat a div 7 + 1)"
    using ib_place(1) [OF i] unfolding uint_unat by (simp only: zdiv_int of_nat_add of_nat_numeral of_nat_1)
  then have u: "unat (ib2sect a) = unat a div 7 + 1" by (simp only: of_nat_eq_iff)
  then show "unat (ib2sect a) \<le> K" using assms by (auto simp: islot_def)
  show "ib2sect a \<noteq> 0" using u by (auto simp: unat_eq_0)
  show "a \<noteq> LF_INULL" using i null_off_disk(1) by auto
qed

lemma dslotD:
  assumes "dslot K b"
  shows "on_disk b" "b \<noteq> 0" "b \<noteq> LF_DNULL"
proof -
  show d: "on_disk b" using assms uint_unat [of b] unfolding dslot_def on_disk_def by linarith
  show "b \<noteq> 0" using assms by (auto simp: dslot_def)
  show "b \<noteq> LF_DNULL" using d null_off_disk(2) by auto
qed

lemma on_disk_0: "on_disk 0"
  by (simp add: on_disk_def)

lemma areas_apart: "islot K a \<Longrightarrow> dslot K b \<Longrightarrow> ib2sect a \<noteq> b"
  using islotD(3) [of K a] by (auto simp: dslot_def)

lemma area_laws:
  assumes "length b = 512"
  shows "islot K a \<Longrightarrow> lfibget a (ramwrite 0 b d) = lfibget a d"
    "dslot K c \<Longrightarrow> ramread c (ramwrite 0 b d) = ramread c d"
    "islot K a \<Longrightarrow> dslot K c \<Longrightarrow> lfibget a (ramwrite c b d) = lfibget a d"
    "dslot K c \<Longrightarrow> dslot K c' \<Longrightarrow> ramread c' (ramwrite c b d) = (if c' = c then b else ramread c' d)"
proof -
  show "lfibget a (ramwrite 0 b d) = lfibget a d" if "islot K a"
    using islotD(2,4) [OF that] on_disk_0 by (simp add: lfibget_def ramread_other)
  show "ramread c (ramwrite 0 b d) = ramread c d" if "dslot K c"
    using dslotD(1,2) [OF that] on_disk_0 by (metis ramread_other)
  show "lfibget a (ramwrite c b d) = lfibget a d" if "islot K a" "dslot K c"
    using islotD(2) [OF that(1)] dslotD(1) [OF that(2)] areas_apart [OF that] by (simp add: lfibget_def ramread_other)
  show "ramread c' (ramwrite c b d) = (if c' = c then b else ramread c' d)" if "dslot K c" "dslot K c'"
    using dslotD(1) [OF that(1)] dslotD(1) [OF that(2)] assms by (simp add: ramread_same ramread_other)
qed

lemma index_laws:
  assumes "length (ib_dba ib) = 16" "islot K a"
  shows "islot K c \<Longrightarrow> lfibget c (lfibput a ib d) = (if c = a then ib else lfibget c d)"
    "dslot K b \<Longrightarrow> ramread b (lfibput a ib d) = ramread b d"
proof -
  show "lfibget c (lfibput a ib d) = (if c = a then ib else lfibget c d)" if "islot K c"
    using islotD(1) [OF assms(2)] islotD(1) [OF that] assms(1) by (simp add: lfibget_same lfibget_other)
  show "ramread b (lfibput a ib d) = ramread b d" if "dslot K b"
    using islotD(2) [OF assms(2)] dslotD(1) [OF that] areas_apart [OF assms(2) that] by (simp add: lfibput_def Let_def ramread_other)
qed

section \<open>The state of a file\<close>

definition nth_null :: "word32 list \<Rightarrow> nat \<Rightarrow> word32" where
  "nth_null xs n = (if n < length xs then xs ! n else - 1)"

text \<open>What the \<open>j\<close>-th index block of a file has to hold.\<close>

definition ib_of :: "word32 list \<Rightarrow> word32 list \<Rightarrow> nat \<Rightarrow> lfiblk" where
  "ib_of ibs ds j =
     \<lparr>ib_next = nth_null ibs (Suc j), ib_offset = of_nat (8192 * j), ib_dba = map (\<lambda>m. nth_null ds (16 * j + m)) [0..<16]\<rparr>"

definition cur_ib :: "lflcblk \<Rightarrow> ram \<Rightarrow> word32 \<Rightarrow> lfiblk" where
  "cur_ib l d a = (if a = lfinum l then lfiblock l else lfibget a d)"

definition cur_db :: "lflcblk \<Rightarrow> ram \<Rightarrow> word32 \<Rightarrow> byte list" where
  "cur_db l d b = (if b = lfdnum l then lfdblock l else ramread b d)"

definition file_shape :: "nat \<Rightarrow> word32 list \<Rightarrow> word32 list \<Rightarrow> byte list \<Rightarrow> nat \<Rightarrow> bool" where
  "file_shape K ibs ds xs p \<longleftrightarrow>
     distinct ibs \<and> distinct ds \<and> (\<forall>a \<in> set ibs. islot K a) \<and> (\<forall>b \<in> set ds. dslot K b) \<and>
     length ds \<le> 16 * length ibs \<and> length xs \<le> 512 * length ds \<and> p \<le> length xs"

definition file_blocks :: "lflcblk \<Rightarrow> ram \<Rightarrow> word32 list \<Rightarrow> word32 list \<Rightarrow> byte list \<Rightarrow> bool" where
  "file_blocks l d ibs ds xs \<longleftrightarrow>
     (\<forall>j < length ibs. cur_ib l d (ibs ! j) = ib_of ibs ds j) \<and>
     (\<forall>n < length xs. cur_db l d (ds ! (n div 512)) ! (n mod 512) = xs ! n)"

definition file_cache :: "lflcblk \<Rightarrow> ram \<Rightarrow> word32 list \<Rightarrow> word32 list \<Rightarrow> byte list \<Rightarrow> bool" where
  "file_cache l d ibs ds xs \<longleftrightarrow>
     (if lfinum l = LF_INULL then \<not> lfibdirty l
      else lfinum l \<in> set ibs \<and> (\<not> lfibdirty l \<longrightarrow> lfiblock l = lfibget (lfinum l) d)) \<and>
     (if lfdnum l = LF_DNULL then \<not> lfdbdirty l
      else lfdnum l \<in> set ds \<and> length (lfdblock l) = 512 \<and>
        (\<not> lfdbdirty l \<longrightarrow> (\<forall>n < length ds. ds ! n = lfdnum l \<and> 512 * n < length xs \<longrightarrow> lfdblock l = ramread (lfdnum l) d)))"

definition file_pos :: "lflcblk \<Rightarrow> word32 list \<Rightarrow> nat \<Rightarrow> bool" where
  "file_pos l ds p \<longleftrightarrow> lfpos l = of_nat p \<and> lfbyte l \<le> 512 \<and>
     (lfbyte l < 512 \<longrightarrow> p div 512 < length ds \<and> lfdnum l = ds ! (p div 512) \<and> lfbyte l = p mod 512)"

definition file_entry :: "ldentry \<Rightarrow> word32 list \<Rightarrow> byte list \<Rightarrow> bool" where
  "file_entry e ibs xs \<longleftrightarrow> ld_ilist e = nth_null ibs 0 \<and> ld_size e = of_nat (length xs)"

definition file_inv :: "nat \<Rightarrow> lfs \<Rightarrow> nat \<Rightarrow> word32 list \<Rightarrow> word32 list \<Rightarrow> byte list \<Rightarrow> nat \<Rightarrow> bool" where
  "file_inv K f i ibs ds xs p \<longleftrightarrow>
     (let l = lfltab f i in
      lfstate l = LF_USED \<and> lfdirptr l < 20 \<and> file_shape K ibs ds xs p \<and> file_blocks l (disk f) ibs ds xs \<and>
      file_cache l (disk f) ibs ds xs \<and> file_pos l ds p \<and> file_entry (dirent f (lfdirptr l)) ibs xs)"

definition free_inv :: "nat \<Rightarrow> lfs \<Rightarrow> word32 list \<Rightarrow> word32 list \<Rightarrow> bool" where
  "free_inv K f fi fd \<longleftrightarrow>
     dir_fit (lf_dir f) \<and> distinct fi \<and> distinct fd \<and> (\<forall>a \<in> set fi. islot K a) \<and> (\<forall>b \<in> set fd. dslot K b) \<and>
     ist.lseg (disk f) (lfd_ifree (lf_dir f)) fi LF_INULL \<and> dst.lseg (disk f) (lfd_dfree (lf_dir f)) fd LF_DNULL"

lemma shape_bound:
  assumes "file_shape K ibs ds xs p"
  shows "length ds < 200" "length xs < 102400" "length ibs \<le> 1393"
proof -
  have "unat ` set ibs \<subseteq> {..<1393}" using assms by (auto simp: file_shape_def islot_def)
  moreover have "inj_on unat (set ibs)" by (auto simp: inj_on_def word_unat_eq_iff)
  ultimately have "card (set ibs) \<le> card {..<1393 :: nat}" by (intro card_inj_on_le) auto
  then show "length ibs \<le> 1393" using assms by (simp add: file_shape_def distinct_card)
  have "unat ` set ds \<subseteq> {1..<200}" using assms by (auto simp: file_shape_def dslot_def)
  moreover have "inj_on unat (set ds)" by (auto simp: inj_on_def word_unat_eq_iff)
  ultimately have "card (set ds) \<le> card {1..<200 :: nat}" by (intro card_inj_on_le) auto
  then show l: "length ds < 200" using assms by (simp add: file_shape_def distinct_card)
  then show "length xs < 102400" using assms by (simp add: file_shape_def)
qed

lemma nth_div_512: "file_shape K ibs ds xs p \<Longrightarrow> n < length xs \<Longrightarrow> n div 512 < length ds"
  by (auto simp: file_shape_def)

lemma shape_blocks:
  "file_shape K ibs ds xs p \<Longrightarrow> j < length ibs \<Longrightarrow> islot K (ibs ! j) \<and> ibs ! j \<noteq> LF_INULL"
  "file_shape K ibs ds xs p \<Longrightarrow> n < length ds \<Longrightarrow> dslot K (ds ! n) \<and> ds ! n \<noteq> LF_DNULL"
  using islotD(5) [of K "ibs ! j"] dslotD(3) [of K "ds ! n"] by (auto simp: file_shape_def)

lemma file_inv_cong:
  assumes "file_inv K f i ibs ds xs p" "lfltab f' i = lfltab f i" "dirent f' (lfdirptr (lfltab f i)) = dirent f (lfdirptr (lfltab f i))"
    and a: "\<And>a. a \<in> set ibs \<Longrightarrow> lfibget a (disk f') = lfibget a (disk f)" and b: "\<And>b. b \<in> set ds \<Longrightarrow> ramread b (disk f') = ramread b (disk f)"
  shows "file_inv K f' i ibs ds xs p"
proof -
  let ?l = "lfltab f i"
  note I = assms(1) [unfolded file_inv_def Let_def]
  have ci: "cur_ib ?l (disk f') c = cur_ib ?l (disk f) c" if "c \<in> set ibs" for c using a [OF that] by (simp add: cur_ib_def)
  have cd: "cur_db ?l (disk f') c = cur_db ?l (disk f) c" if "c \<in> set ds" for c using b [OF that] by (simp add: cur_db_def)
  have "file_blocks ?l (disk f') ibs ds xs"
    using I ci cd nth_div_512 [of K ibs ds xs p] by (simp add: file_blocks_def)
  moreover have "file_cache ?l (disk f') ibs ds xs" using I a b by (auto simp: file_cache_def)
  ultimately show ?thesis using I assms(2,3) by (simp add: file_inv_def)
qed

lemma free_inv_cong:
  assumes "free_inv K f fi fd" "lf_dir f' = lf_dir f" "\<And>a. a \<in> set fi \<Longrightarrow> lfibget a (disk f') = lfibget a (disk f)"
    and "\<And>b. b \<in> set fd \<Longrightarrow> ramread b (disk f') = ramread b (disk f)"
  shows "free_inv K f' fi fd"
  using assms ist.lseg_cong [of "disk f" _ fi _ "disk f'"] dst.lseg_cong [of "disk f" _ fd _ "disk f'"] by (auto simp: free_inv_def)

text \<open>\<open>only K i A B f f'\<close>: between \<open>f\<close> and \<open>f'\<close> nothing has changed but the index blocks \<open>A\<close>, the data blocks \<open>B\<close>, the open file \<open>i\<close> and its
  directory entry.\<close>

definition only :: "nat \<Rightarrow> nat \<Rightarrow> word32 set \<Rightarrow> word32 set \<Rightarrow> lfs \<Rightarrow> lfs \<Rightarrow> bool" where
  "only K i A B f f' \<longleftrightarrow>
     (\<forall>a. islot K a \<and> a \<notin> A \<longrightarrow> lfibget a (disk f') = lfibget a (disk f)) \<and>
     (\<forall>b. dslot K b \<and> b \<notin> B \<longrightarrow> ramread b (disk f') = ramread b (disk f)) \<and>
     (\<forall>j. j \<noteq> i \<longrightarrow> lfltab f' j = lfltab f j) \<and> (\<forall>e. e \<noteq> lfdirptr (lfltab f i) \<longrightarrow> dirent f' e = dirent f e) \<and>
     lf_mutex f' = lf_mutex f \<and> lfmutex (lfltab f' i) = lfmutex (lfltab f i) \<and> lfdirptr (lfltab f' i) = lfdirptr (lfltab f i)"

lemma only_refl [simp]: "only K i A B f f"
  by (simp add: only_def)

lemma only_trans: "only K i A B f f' \<Longrightarrow> only K i A B f' f'' \<Longrightarrow> only K i A B f f''"
  by (simp add: only_def)

lemma only_mono: "only K i A B f f' \<Longrightarrow> A \<subseteq> A' \<Longrightarrow> B \<subseteq> B' \<Longrightarrow> only K i A' B' f f'"
  by (auto simp: only_def)

lemma only_other_file:
  assumes "only K i A B f f'" "file_inv K f j ibs ds xs p" "j \<noteq> i" "lfdirptr (lfltab f j) \<noteq> lfdirptr (lfltab f i)"
    and "set ibs \<inter> A = {}" "set ds \<inter> B = {}"
  shows "file_inv K f' j ibs ds xs p"
proof (rule file_inv_cong [OF assms(2)])
  have s: "\<forall>a \<in> set ibs. islot K a" "\<forall>b \<in> set ds. dslot K b" using assms(2) by (auto simp: file_inv_def file_shape_def Let_def)
  show "lfibget a (disk f') = lfibget a (disk f)" if "a \<in> set ibs" for a using that s assms(1,5) by (auto simp: only_def)
  show "ramread b (disk f') = ramread b (disk f)" if "b \<in> set ds" for b using that s assms(1,6) by (auto simp: only_def)
qed (use assms(1,3,4) in \<open>auto simp: only_def\<close>)

lemma put_dir_laws:
  assumes "dir_fit (lf_dir f)"
  shows "islot K a \<Longrightarrow> lfibget a (disk (put_dir f)) = lfibget a (disk f)" "dslot K b \<Longrightarrow> ramread b (disk (put_dir f)) = ramread b (disk f)"
    "lf_dir (put_dir f) = lf_dir f" "lfltab (put_dir f) = lfltab f" "lf_mutex (put_dir f) = lf_mutex f" "lf_dirpresent (put_dir f) = lf_dirpresent f"
  using area_laws(1,2) [OF length_dir_encode [OF assms]] by (simp_all add: put_dir_def put_disk_def)

lemma upd_laws [simp]:
  "disk (upd_file i g f) = disk f" "lf_dir (upd_file i g f) = lf_dir f" "lf_mutex (upd_file i g f) = lf_mutex f"
  "lfltab (upd_file i g f) = (lfltab f)(i := g (lfltab f i))" "dirent (upd_file i g f) = dirent f" "lf_dirdirty (upd_file i g f) = lf_dirdirty f"
  "disk (upd_dir h f) = disk f" "lf_dir (upd_dir h f) = h (lf_dir f)" "lf_mutex (upd_dir h f) = lf_mutex f" "lfltab (upd_dir h f) = lfltab f"
  "disk (upd_ent e k f) = disk f" "lf_mutex (upd_ent e k f) = lf_mutex f" "lfltab (upd_ent e k f) = lfltab f"
  by (simp_all add: upd_file_def upd_dir_def upd_ent_def dirent_def fun_eq_iff)

lemma upd_ent_fit:
  assumes "dir_fit (lf_dir f)" "\<And>e. length (ld_name e) = 16 \<Longrightarrow> length (ld_name (g e)) = 16"
  shows "dir_fit (lf_dir (upd_ent e g f))"
proof (cases "e < 20")
  case True
  then have "length (ld_name (g (lfd_files (lf_dir f) ! e))) = 16" using assms by (simp add: dir_fit_def)
  then show ?thesis using assms(1) set_update_subset_insert by (fastforce simp: dir_fit_def upd_ent_def)
qed (use assms in \<open>simp add: dir_fit_def upd_ent_def list_update_beyond\<close>)

lemma dirent_upd_ent: "dir_fit (lf_dir f) \<Longrightarrow> e < 20 \<Longrightarrow> dirent (upd_ent e g f) e' = (if e' = e then g (dirent f e) else dirent f e')"
  by (auto simp: dir_fit_def dirent_def upd_ent_def)

lemma upd_ent_free [simp]: "lfd_ifree (lf_dir (upd_ent e g f)) = lfd_ifree (lf_dir f)" "lfd_dfree (lf_dir (upd_ent e g f)) = lfd_dfree (lf_dir f)"
  by (simp_all add: upd_ent_def)

section \<open>Writing the changed blocks back\<close>

lemma lfflush_inv:
  assumes inv: "file_inv K f i ibs ds xs p" and fit: "dir_fit (lf_dir f)" and f': "f' = snd (lfflush i f)"
  shows "file_inv K f' i ibs ds xs p" "lfltab f' = (lfltab f)(i := (lfltab f i)\<lparr>lfibdirty := False, lfdbdirty := False\<rparr>)"
    "lf_dir f' = lf_dir f" "only K i (set ibs) (set ds) f f'"
proof -
  let ?l = "lfltab f i"
  note I = inv [unfolded file_inv_def Let_def]
  have sh: "\<forall>a \<in> set ibs. islot K a" "\<forall>b \<in> set ds. dslot K b" using I by (auto simp: file_shape_def)
  define d1 where "d1 = (if lf_dirdirty f then ramwrite 0 (dir_encode (lf_dir f)) (disk f) else disk f)"
  define d2 where "d2 = (if lfdbdirty ?l then ramwrite (lfdnum ?l) (lfdblock ?l) d1 else d1)"
  define d3 where "d3 = (if lfibdirty ?l then lfibput (lfinum ?l) (lfiblock ?l) d2 else d2)"
  have f3: "lfltab f' = (lfltab f)(i := ?l\<lparr>lfibdirty := False, lfdbdirty := False\<rparr>)" "lf_dir f' = lf_dir f" "disk f' = d3" "lf_mutex f' = lf_mutex f"
    using I by (auto simp: f' lfflush_def d1_def d2_def d3_def put_dir_def put_disk_def Let_def)
  show "lfltab f' = (lfltab f)(i := ?l\<lparr>lfibdirty := False, lfdbdirty := False\<rparr>)" "lf_dir f' = lf_dir f" by (rule f3)+
  have db: "lfdnum ?l \<in> set ds \<and> length (lfdblock ?l) = 512" if "lfdbdirty ?l" using I that by (auto simp: file_cache_def split: if_splits)
  have ib: "lfinum ?l \<in> set ibs \<and> length (ib_dba (lfiblock ?l)) = 16" if "lfibdirty ?l"
  proof -
    have m: "lfinum ?l \<in> set ibs" using I that by (auto simp: file_cache_def split: if_splits)
    then obtain j where j: "j < length ibs" "ibs ! j = lfinum ?l" by (auto simp: in_set_conv_nth)
    then have "lfiblock ?l = ib_of ibs ds j" using I by (auto simp: file_blocks_def cur_ib_def)
    then show ?thesis using m by (simp add: ib_of_def)
  qed
  have di: "lfibget a d3 = (if lfibdirty ?l \<and> a = lfinum ?l then lfiblock ?l else lfibget a (disk f))" if "islot K a" for a
  proof -
    have "lfibget a d1 = lfibget a (disk f)" using area_laws(1) [OF length_dir_encode [OF fit] that] by (simp add: d1_def)
    moreover have "lfibget a d2 = lfibget a d1" using db sh area_laws(3) [OF _ that, of "lfdblock ?l" "lfdnum ?l" d1] by (auto simp: d2_def)
    moreover have "lfibget a d3 = (if lfibdirty ?l \<and> a = lfinum ?l then lfiblock ?l else lfibget a d2)"
      using ib sh index_laws(1) [OF _ _ that, of "lfiblock ?l" "lfinum ?l" d2] by (auto simp: d3_def)
    ultimately show ?thesis by simp
  qed
  have dd: "ramread b d3 = (if lfdbdirty ?l \<and> b = lfdnum ?l then lfdblock ?l else ramread b (disk f))" if "dslot K b" for b
  proof -
    have "ramread b d1 = ramread b (disk f)" using area_laws(2) [OF length_dir_encode [OF fit] that] by (simp add: d1_def)
    moreover have "ramread b d2 = (if lfdbdirty ?l \<and> b = lfdnum ?l then lfdblock ?l else ramread b d1)"
      using db sh area_laws(4) [OF _ _ that, of "lfdblock ?l" "lfdnum ?l" d1] by (auto simp: d2_def)
    moreover have "ramread b d3 = ramread b d2" using ib sh index_laws(2) [OF _ _ that, of "lfiblock ?l" "lfinum ?l" d2] by (auto simp: d3_def)
    ultimately show ?thesis by simp
  qed
  show "only K i (set ibs) (set ds) f f'" using di dd db ib f3 by (auto simp: only_def dirent_def)
  let ?l' = "?l\<lparr>lfibdirty := False, lfdbdirty := False\<rparr>"
  have c: "cur_ib ?l' d3 a = cur_ib ?l (disk f) a" if "a \<in> set ibs" for a using di that sh by (auto simp: cur_ib_def)
  have e: "cur_db ?l' d3 b = cur_db ?l (disk f) b" if "b \<in> set ds" for b using dd that sh by (auto simp: cur_db_def)
  have "file_blocks ?l' d3 ibs ds xs" using I c e nth_div_512 [of K ibs ds xs p] by (simp add: file_blocks_def)
  moreover have "file_cache ?l' d3 ibs ds xs" using I di dd sh by (auto simp: file_cache_def split: if_splits)
  moreover have "file_pos ?l' ds p" using I by (simp add: file_pos_def)
  ultimately show "file_inv K f' i ibs ds xs p" using I f3 by (simp add: file_inv_def dirent_def)
qed

section \<open>Positions as words\<close>

lemma unat_w32: "p < 4294967296 \<Longrightarrow> unat (of_nat p :: word32) = p"
  by (simp add: unsigned_of_nat take_bit_nat_eq_self)

lemma w32_order:
  assumes "p < 4294967296" "q < 4294967296"
  shows "(of_nat p :: word32) < of_nat q \<longleftrightarrow> p < q" "(of_nat p :: word32) \<le> of_nat q \<longleftrightarrow> p \<le> q"
  using assms by (simp_all add: word_less_nat_alt word_le_nat_alt unat_w32)

lemma mask_words: "(0x1fff :: word32) = mask 13" "(0x1ff :: word32) = mask 9"
  by (simp_all add: mask_eq_exp_minus_1)

lemma pos_words:
  assumes "p < 4294967296"
  shows "(of_nat p :: word32) AND NOT 0x1fff = of_nat (8192 * (p div 8192))"
    "unat (drop_bit 9 ((of_nat p :: word32) AND 0x1fff)) = p mod 8192 div 512"
    "unat ((of_nat p :: word32) AND 0x1ff) = p mod 512"
proof -
  have u: "unat (of_nat p :: word32) = p" using assms by (simp add: unat_w32)
  have "(of_nat p :: word32) AND NOT (mask 13) = of_nat (push_bit 13 (drop_bit 13 p))"
    by (rule bit_word_eqI) (auto simp: bit_simps)
  then show "(of_nat p :: word32) AND NOT 0x1fff = of_nat (8192 * (p div 8192))"
    unfolding mask_words by (simp add: push_bit_eq_mult drop_bit_eq_div mult.commute)
  have m: "unat ((of_nat p :: word32) AND mask n) = p mod 2 ^ n" for n
    unfolding take_bit_eq_mask [symmetric] unsigned_take_bit_eq u by (rule take_bit_eq_mod)
  show "unat ((of_nat p :: word32) AND 0x1ff) = p mod 512" unfolding mask_words m by simp
  have "unat (drop_bit 9 ((of_nat p :: word32) AND mask 13)) = (p mod 2 ^ 13) div 2 ^ 9"
    unfolding unsigned_drop_bit_eq using m [of 13] assms less_le_trans [OF mod_less_divisor [of 8192 p], of "2 ^ 32"]
    by (simp add: drop_bit_eq_div take_bit_nat_eq_self)
  then show "unat (drop_bit 9 ((of_nat p :: word32) AND 0x1fff)) = p mod 8192 div 512" unfolding mask_words by simp
qed

section \<open>Allocation\<close>

lemma lfiballoc_none: "free_inv K f [] fd \<Longrightarrow> lfiballoc f = None"
  by (simp add: free_inv_def lfiballoc_def)

lemma lfdballoc_none: "free_inv K f fi [] \<Longrightarrow> lfdballoc f = None"
  by (simp add: free_inv_def lfdballoc_def)

lemma lfiballoc_some:
  assumes "free_inv K f (a # fi) fd"
  obtains f' where "lfiballoc f = Some (a, f')" "free_inv K f' fi fd" "lfltab f' = lfltab f" "dirent f' = dirent f" "lf_mutex f' = lf_mutex f"
    "\<And>c. islot K c \<Longrightarrow> lfibget c (disk f') = lfibget c (disk f)" "\<And>b. dslot K b \<Longrightarrow> ramread b (disk f') = ramread b (disk f)"
proof -
  note F = assms [unfolded free_inv_def]
  define g where "g = upd_dir (\<lambda>d. d\<lparr>lfd_ifree := ib_next (lfibget a (disk f))\<rparr>) f"
  have a: "lfd_ifree (lf_dir f) = a" "a \<noteq> LF_INULL" using F islotD(5) by auto
  have fit: "dir_fit (lf_dir g)" using F by (simp add: g_def dir_fit_def)
  note p = put_dir_laws [OF fit]
  show thesis
  proof (rule that [of "(put_dir g)\<lparr>lf_dirdirty := False\<rparr>"])
    show "lfiballoc f = Some (a, (put_dir g)\<lparr>lf_dirdirty := False\<rparr>)" using a by (simp add: lfiballoc_def g_def)
    have "free_inv K g fi fd" using F by (simp add: free_inv_def g_def dir_fit_def)
    then show "free_inv K ((put_dir g)\<lparr>lf_dirdirty := False\<rparr>) fi fd"
      by (rule free_inv_cong) (use p F in auto)
  qed (use p in \<open>auto simp: g_def dirent_def fun_eq_iff\<close>)
qed

lemma lfdballoc_some:
  assumes "free_inv K f fi (b # fd)"
  obtains f' where "lfdballoc f = Some (b, replicate 512 DFILL, f')" "free_inv K f' fi fd" "lfltab f' = lfltab f" "dirent f' = dirent f" "lf_mutex f' = lf_mutex f"
    "\<And>c. islot K c \<Longrightarrow> lfibget c (disk f') = lfibget c (disk f)" "\<And>b. dslot K b \<Longrightarrow> ramread b (disk f') = ramread b (disk f)"
proof -
  note F = assms [unfolded free_inv_def]
  define g where "g = upd_dir (\<lambda>d. d\<lparr>lfd_dfree := de32 (ramread b (disk f))\<rparr>) f"
  have b: "lfd_dfree (lf_dir f) = b" "b \<noteq> LF_DNULL" using F dslotD(3) by auto
  have fit: "dir_fit (lf_dir g)" using F by (simp add: g_def dir_fit_def)
  note p = put_dir_laws [OF fit]
  show thesis
  proof (rule that [of "(put_dir g)\<lparr>lf_dirdirty := False\<rparr>"])
    show "lfdballoc f = Some (b, replicate 512 DFILL, (put_dir g)\<lparr>lf_dirdirty := False\<rparr>)" using b by (simp add: lfdballoc_def g_def)
    have "free_inv K g fi fd" using F by (simp add: free_inv_def g_def dir_fit_def)
    then show "free_inv K ((put_dir g)\<lparr>lf_dirdirty := False\<rparr>) fi fd"
      by (rule free_inv_cong) (use p F in auto)
  qed (use p in \<open>auto simp: g_def dirent_def fun_eq_iff\<close>)
qed

section \<open>Setting up the block for a position\<close>

definition lfs_inv :: "nat \<Rightarrow> lfs \<Rightarrow> nat \<Rightarrow> word32 list \<Rightarrow> word32 list \<Rightarrow> word32 list \<Rightarrow> word32 list \<Rightarrow> byte list \<Rightarrow> nat \<Rightarrow> bool" where
  "lfs_inv K f i ibs ds fi fd xs p \<longleftrightarrow>
     file_inv K f i ibs ds xs p \<and> free_inv K f fi fd \<and> set ibs \<inter> set fi = {} \<and> set ds \<inter> set fd = {}"

lemma only_free:
  assumes "only K i A B f f'" "lf_dir f' = lf_dir f" "free_inv K f fi fd" "set fi \<inter> A = {}" "set fd \<inter> B = {}"
  shows "free_inv K f' fi fd"
proof (rule free_inv_cong [OF assms(3,2)])
  have s: "\<forall>a \<in> set fi. islot K a" "\<forall>b \<in> set fd. dslot K b" using assms(3) by (auto simp: free_inv_def)
  show "lfibget a (disk f') = lfibget a (disk f)" if "a \<in> set fi" for a using that s assms(1,4) by (auto simp: only_def)
  show "ramread b (disk f') = ramread b (disk f)" if "b \<in> set fd" for b using that s assms(1,5) by (auto simp: only_def)
qed

lemma ib_of_next:
  "j < length ibs \<Longrightarrow> ib_of (ibs @ [a]) ds j = (if Suc j = length ibs then (ib_of ibs ds j)\<lparr>ib_next := a\<rparr> else ib_of ibs ds j)"
  by (auto simp: ib_of_def nth_null_def nth_append)

lemma ib_of_new: "length ds \<le> 16 * length ibs \<Longrightarrow> ib_of (ibs @ [a]) ds (length ibs) = lfibclear (of_nat (8192 * length ibs))"
  by (auto simp: ib_of_def nth_null_def lfibclear_def intro!: nth_equalityI)

lemma nth_null_snoc: "nth_null (ds @ [b]) n = (if n = length ds then b else nth_null ds n)"
  by (auto simp: nth_null_def nth_append)

lemma ib_of_data:
  "ib_of ibs (ds @ [b]) j =
     (if j = length ds div 16 then (ib_of ibs ds j)\<lparr>ib_dba := (ib_dba (ib_of ibs ds j))[length ds mod 16 := b]\<rparr> else ib_of ibs ds j)"
proof -
  have "16 * j + m = length ds \<longleftrightarrow> j = length ds div 16 \<and> m = length ds mod 16" if "m < 16" for m
  proof -
    have "(16 * j + m) div 16 = j" "(16 * j + m) mod 16 = m" using that by simp_all
    then show ?thesis using div_mult_mod_eq [of "length ds" 16] by (metis mult.commute)
  qed
  then have "map (\<lambda>m. nth_null (ds @ [b]) (16 * j + m)) [0..<16] =
      (if j = length ds div 16 then (map (\<lambda>m. nth_null ds (16 * j + m)) [0..<16])[length ds mod 16 := b] else map (\<lambda>m. nth_null ds (16 * j + m)) [0..<16])"
    by (intro nth_equalityI) (auto simp: nth_null_snoc nth_list_update)
  then show ?thesis by (simp add: ib_of_def)
qed

lemma ib_of_simps [simp]: "ib_next (ib_of ibs ds j) = nth_null ibs (Suc j)" "ib_offset (ib_of ibs ds j) = of_nat (8192 * j)"
  "length (ib_dba (ib_of ibs ds j)) = 16" "m < 16 \<Longrightarrow> ib_dba (ib_of ibs ds j) ! m = nth_null ds (16 * j + m)"
  by (simp_all add: ib_of_def)

text \<open>Another index block of the file is loaded while the one in memory is not dirty, and the data block is dropped.\<close>

lemma load_ib:
  assumes inv: "file_inv K f i ibs ds xs p" and clean: "\<not> lfibdirty (lfltab f i)" "j < length ibs"
  shows "file_inv K (upd_file i (\<lambda>l. l\<lparr>lfiblock := lfibget (ibs ! j) (disk f), lfinum := ibs ! j\<rparr>) f) i ibs ds xs p"
    "lfibget (ibs ! j) (disk f) = ib_of ibs ds j"
proof -
  let ?l = "lfltab f i" and ?d = "disk f"
  let ?l' = "?l\<lparr>lfiblock := lfibget (ibs ! j) ?d, lfinum := ibs ! j\<rparr>"
  note I = inv [unfolded file_inv_def Let_def]
  have n: "ibs ! j \<noteq> LF_INULL" using I clean(2) shape_blocks(1) by blast
  have mem: "lfiblock ?l = lfibget (lfinum ?l) ?d" if "lfinum ?l \<noteq> LF_INULL" using I clean(1) that by (simp add: file_cache_def)
  have same: "cur_ib ?l' ?d c = cur_ib ?l ?d c" if "c \<noteq> LF_INULL" for c using mem that by (auto simp: cur_ib_def)
  have cd: "cur_db ?l' ?d = cur_db ?l ?d" by (simp add: cur_db_def fun_eq_iff)
  have "file_blocks ?l' ?d ibs ds xs" using I same cd shape_blocks(1) [of K ibs ds xs p] by (simp add: file_blocks_def)
  moreover have "file_cache ?l' ?d ibs ds xs" using I n clean by (simp add: file_cache_def)
  moreover have "file_pos ?l' ds p" using I by (simp add: file_pos_def)
  ultimately show "file_inv K (upd_file i (\<lambda>l. l\<lparr>lfiblock := lfibget (ibs ! j) ?d, lfinum := ibs ! j\<rparr>) f) i ibs ds xs p"
    using I by (simp add: file_inv_def)
  have "cur_ib ?l ?d (ibs ! j) = ib_of ibs ds j" using I clean(2) by (simp add: file_blocks_def)
  then show "lfibget (ibs ! j) ?d = ib_of ibs ds j" using same [OF n] by (simp add: cur_ib_def)
qed

lemma drop_db:
  assumes inv: "file_inv K f i ibs ds xs p" and clean: "\<not> lfdbdirty (lfltab f i)" "lfbyte (lfltab f i) = 512"
  shows "file_inv K (upd_file i (\<lambda>l. l\<lparr>lfdnum := LF_DNULL\<rparr>) f) i ibs ds xs p"
proof -
  let ?l = "lfltab f i" and ?d = "disk f"
  let ?l' = "?l\<lparr>lfdnum := LF_DNULL\<rparr>"
  note I = inv [unfolded file_inv_def Let_def]
  have "cur_db ?l' ?d (ds ! (n div 512)) = cur_db ?l ?d (ds ! (n div 512))" if "n < length xs" for n
  proof -
    have m: "n div 512 < length ds" using nth_div_512 [of K ibs ds xs p] I that by simp
    then have "ds ! (n div 512) \<noteq> LF_DNULL" using I shape_blocks(2) by blast
    moreover have "lfdblock ?l = ramread (lfdnum ?l) ?d" if "lfdnum ?l = ds ! (n div 512)" "lfdnum ?l \<noteq> LF_DNULL"
      using I clean(1) that m \<open>n < length xs\<close> by (fastforce simp: file_cache_def split: if_splits)
    ultimately show ?thesis by (auto simp: cur_db_def)
  qed
  moreover have "cur_ib ?l' ?d = cur_ib ?l ?d" by (simp add: cur_ib_def fun_eq_iff)
  ultimately have "file_blocks ?l' ?d ibs ds xs" using I by (simp add: file_blocks_def)
  moreover have "file_cache ?l' ?d ibs ds xs" using I clean by (simp add: file_cache_def)
  moreover have "file_pos ?l' ds p" using I clean by (simp add: file_pos_def)
  ultimately show ?thesis using I by (simp add: file_inv_def)
qed

lemma extend_inv:
  assumes inv: "file_inv K f i ibs ds xs p" and clean: "\<not> lfibdirty (lfltab f i)" "\<not> lfdbdirty (lfltab f i)" "lfbyte (lfltab f i) = 512"
    and a: "islot K a" "a \<notin> set ibs"
    and l': "lfltab f' i = (lfltab f i)\<lparr>lfinum := a, lfiblock := lfibclear (of_nat (8192 * length ibs)), lfibdirty := True, lfdnum := LF_DNULL\<rparr>"
    and ci: "\<And>c. c \<in> set ibs \<Longrightarrow> lfibget c (disk f') = (if c = last ibs then (lfibget c (disk f))\<lparr>ib_next := a\<rparr> else lfibget c (disk f))"
    and cd: "\<And>b. b \<in> set ds \<Longrightarrow> ramread b (disk f') = ramread b (disk f)"
    and e: "file_entry (dirent f' (lfdirptr (lfltab f i))) (ibs @ [a]) xs"
  shows "file_inv K f' i (ibs @ [a]) ds xs p"
proof -
  have "file_inv K (upd_file i (\<lambda>l. l\<lparr>lfdnum := LF_DNULL\<rparr>) f) i ibs ds xs p" using drop_db [OF inv clean(2,3)] .
  note I = inv [unfolded file_inv_def Let_def] and D = this [unfolded file_inv_def Let_def]
  have len: "length ds \<le> 16 * length ibs" and dis: "distinct ibs" using I by (auto simp: file_shape_def)
  let ?l' = "lfltab f' i"
  have g: "lfibget (ibs ! j) (disk f) = ib_of ibs ds j" if "j < length ibs" for j by (rule load_ib(2) [OF inv clean(1) that])
  have "cur_ib ?l' (disk f') ((ibs @ [a]) ! j) = ib_of (ibs @ [a]) ds j" if "j < length (ibs @ [a])" for j
  proof (cases "j = length ibs")
    case True
    then show ?thesis using l' ib_of_new [OF len] by (simp add: cur_ib_def)
  next
    case False
    then have j: "j < length ibs" using that by simp
    have "last ibs = ibs ! (length ibs - 1)" using j by (intro last_conv_nth) auto
    then have "ibs ! j = last ibs \<longleftrightarrow> Suc j = length ibs" using j nth_eq_iff_index_eq [OF dis j, of "length ibs - 1"] by auto
    moreover have "ibs ! j \<noteq> a" using j a(2) by auto
    ultimately show ?thesis using j l' ci [of "ibs ! j"] g [OF j] ib_of_next [OF j] by (auto simp: cur_ib_def nth_append)
  qed
  moreover have "cur_db ?l' (disk f') (ds ! (n div 512)) ! (n mod 512) = xs ! n" if "n < length xs" for n
  proof -
    have m: "n div 512 < length ds" using nth_div_512 [of K ibs ds xs p] I that by simp
    then have ne: "ds ! (n div 512) \<noteq> LF_DNULL" using I shape_blocks(2) by blast
    then have "ramread (ds ! (n div 512)) (disk f) ! (n mod 512) = xs ! n" using D that by (auto simp: file_blocks_def cur_db_def)
    then show ?thesis using cd m ne l' by (simp add: cur_db_def)
  qed
  ultimately have "file_blocks ?l' (disk f') (ibs @ [a]) ds xs" by (simp add: file_blocks_def)
  moreover have "file_cache ?l' (disk f') (ibs @ [a]) ds xs" using l' clean islotD(5) [OF a(1)] by (simp add: file_cache_def)
  moreover have "file_shape K (ibs @ [a]) ds xs p" using I a by (auto simp: file_shape_def)
  moreover have "file_pos ?l' ds p" using I l' clean by (simp add: file_pos_def)
  ultimately show ?thesis using I e l' by (simp add: file_inv_def)
qed

text \<open>An index block that covers the position or an earlier one is in memory.\<close>

definition walkable :: "lfs \<Rightarrow> nat \<Rightarrow> word32 list \<Rightarrow> nat \<Rightarrow> bool" where
  "walkable f i ibs p \<longleftrightarrow>
     (let l = lfltab f i in
      \<not> lfdbdirty l \<and> lfbyte l = 512 \<and> (\<exists>j < length ibs. lfinum l = ibs ! j \<and> 8192 * j \<le> p \<and> (lfibdirty l \<longrightarrow> j = p div 8192)))"

lemma flushed:
  assumes inv: "lfs_inv K f0 i ibs ds fi fd xs p" and f: "f = (if lfibdirty (lfltab f0 i) \<or> lfdbdirty (lfltab f0 i) then snd (lfflush i f0) else f0)"
  shows "lfs_inv K f i ibs ds fi fd xs p" "\<not> lfibdirty (lfltab f i)" "\<not> lfdbdirty (lfltab f i)" "lfbyte (lfltab f i) = lfbyte (lfltab f0 i)"
    "only K i (set ibs) (set ds) f0 f"
proof -
  note I = inv [unfolded lfs_inv_def]
  have fit: "dir_fit (lf_dir f0)" using I by (simp add: free_inv_def)
  note F = lfflush_inv [OF conjunct1 [OF I] fit refl]
  have o: "only K i (set ibs) (set ds) f0 f" using F(4) by (simp add: f)
  have "lf_dir f = lf_dir f0" using F(3) by (simp add: f)
  then have "free_inv K f fi fd" using only_free [OF o, of fi fd] I by auto
  moreover have "file_inv K f i ibs ds xs p" using F(1) I by (simp add: f)
  ultimately show "lfs_inv K f i ibs ds fi fd xs p" using I by (simp add: lfs_inv_def)
  show "\<not> lfibdirty (lfltab f i)" "\<not> lfdbdirty (lfltab f i)" "lfbyte (lfltab f i) = lfbyte (lfltab f0 i)"
    using F(2) by (auto simp: f)
  show "only K i (set ibs) (set ds) f0 f" by (rule o)
qed

lemma first_alloc:
  assumes inv: "lfs_inv K f i [] ds (a # fi) fd xs p" and c: "\<not> lfibdirty (lfltab f i)" "\<not> lfdbdirty (lfltab f i)" "lfbyte (lfltab f i) = 512"
    and f1: "lfiballoc f = Some (a, f1)" and f': "f' = upd_file i (\<lambda>l. l\<lparr>lfiblock := lfibclear 0, lfibdirty := True, lfinum := a\<rparr>)
      (upd_ent (lfdirptr (lfltab f i)) (\<lambda>d. d\<lparr>ld_ilist := a\<rparr>) f1)"
  shows "lfs_inv K f' i [a] ds fi fd xs p" "walkable f' i [a] p" "only K i (set (a # fi)) (set ds) f f'"
proof -
  let ?e = "lfdirptr (lfltab f i)"
  note I = inv [unfolded lfs_inv_def]
  note J = conjunct1 [OF I, unfolded file_inv_def Let_def]
  obtain f2 where al: "lfiballoc f = Some (a, f2)" "free_inv K f2 fi fd" "lfltab f2 = lfltab f" "dirent f2 = dirent f" "lf_mutex f2 = lf_mutex f"
    "\<And>c. islot K c \<Longrightarrow> lfibget c (disk f2) = lfibget c (disk f)" "\<And>b. dslot K b \<Longrightarrow> ramread b (disk f2) = ramread b (disk f)"
    by (rule lfiballoc_some [of K f a fi fd]) (use I in auto)
  have [simp]: "f2 = f1" using al(1) f1 by simp
  have z: "ds = []" "xs = []" "p = 0" using J by (auto simp: file_shape_def)
  have dn: "lfdnum (lfltab f i) = LF_DNULL" using J z by (auto simp: file_cache_def split: if_splits)
  have fit: "dir_fit (lf_dir f1)" "?e < 20" using al(2) J by (auto simp: free_inv_def)
  have ent: "dirent f' e = (if e = ?e then (dirent f e)\<lparr>ld_ilist := a\<rparr> else dirent f e)" for e
    using dirent_upd_ent [OF fit] al(4) by (simp add: f')
  have "file_inv K f' i ([] @ [a]) ds xs p"
  proof (rule extend_inv [OF conjunct1 [OF I] c])
    show "lfltab f' i = (lfltab f i)\<lparr>lfinum := a, lfiblock := lfibclear (of_nat (8192 * length [])), lfibdirty := True, lfdnum := - 1\<rparr>"
      using al(3) dn by (simp add: f')
    show "file_entry (dirent f' ?e) ([] @ [a]) xs" using J by (simp add: ent file_entry_def nth_null_def)
  qed (use I al(7) z in \<open>auto simp: free_inv_def\<close>)
  moreover have "free_inv K f' fi fd"
    using al(2) upd_ent_fit [OF fit(1)] by (simp add: free_inv_def f')
  ultimately show "lfs_inv K f' i [a] ds fi fd xs p" using I by (auto simp: lfs_inv_def free_inv_def)
  show "walkable f' i [a] p" using al(3) c z by (simp add: walkable_def f')
  show "only K i (set (a # fi)) (set ds) f f'" using al ent by (simp add: only_def f')
qed

lemma first_load:
  assumes inv: "lfs_inv K f i ibs ds fi fd xs p" and c: "\<not> lfibdirty (lfltab f i)" "\<not> lfdbdirty (lfltab f i)" "lfbyte (lfltab f i) = 512"
    and n: "0 < length ibs" and f': "f' = upd_file i (\<lambda>l. l\<lparr>lfiblock := lfibget (ibs ! 0) (disk f), lfinum := ibs ! 0\<rparr>) f"
  shows "lfs_inv K f' i ibs ds fi fd xs p" "walkable f' i ibs p" "only K i A B f f'"
proof -
  note I = inv [unfolded lfs_inv_def]
  have "free_inv K f' fi fd" using I by (simp add: free_inv_def f')
  then show "lfs_inv K f' i ibs ds fi fd xs p" using load_ib(1) [OF conjunct1 [OF I] c(1) n] I by (simp add: lfs_inv_def f')
  show "walkable f' i ibs p" using c n by (auto simp: walkable_def f')
  show "only K i A B f f'" by (simp add: only_def f')
qed

lemma first_ok:
  assumes inv: "lfs_inv K f0 i ibs ds fi fd xs p" and b: "lfbyte (lfltab f0 i) = 512" and room: "p div 8192 < length ibs \<or> fi \<noteq> []"
  shows "\<exists>f ibs' fi'. lfsetup_first i f0 = Some f \<and> lfs_inv K f i ibs' ds fi' fd xs p \<and> ibs' @ fi' = ibs @ fi \<and> walkable f i ibs' p \<and>
    (p div 8192 < length ibs' \<or> fi' \<noteq> []) \<and> only K i (set (ibs @ fi)) (set ds) f0 f"
proof -
  define f where "f = (if lfibdirty (lfltab f0 i) \<or> lfdbdirty (lfltab f0 i) then snd (lfflush i f0) else f0)"
  note F = flushed [OF inv f_def]
  let ?l = "lfltab f i" and ?e = "lfdirptr (lfltab f i)"
  have c: "\<not> lfibdirty ?l" "\<not> lfdbdirty ?l" "lfbyte ?l = 512" using F b by auto
  note I = F(1) [unfolded lfs_inv_def]
  note J = conjunct1 [OF I, unfolded file_inv_def Let_def]
  have o: "only K i (set (ibs @ fi)) (set ds) f0 f" using only_mono [OF F(5)] by auto
  have e: "ld_ilist (dirent f ?e) = nth_null ibs 0" using J by (simp add: file_entry_def)
  note step = lfsetup_first_def [of i f0, folded f_def, unfolded Let_def, folded f_def]
  show ?thesis
  proof (cases "ibs = []")
    case True
    then have n: "lfinum ?l = LF_INULL" using J by (auto simp: file_cache_def split: if_splits)
    obtain a fi' where fi: "fi = a # fi'" using room True by (cases fi) auto
    obtain f1 where f1: "lfiballoc f = Some (a, f1)" by (rule lfiballoc_some [of K f a fi' fd]) (use I fi in auto)
    note A = first_alloc [OF F(1) [unfolded True fi] c f1 refl]
    have p: "p div 8192 < length [a]" using J True by (auto simp: file_shape_def)
    show ?thesis
      using A n e True fi f1 only_trans [OF o [unfolded True fi] only_mono [OF A(3), of "set ([] @ fi)" "set ds", unfolded fi]] p
      by (intro exI [of _ "[a]"] exI [of _ fi'] exI) (auto simp: step nth_null_def)
  next
    case False
    then have ne: "ld_ilist (dirent f ?e) = ibs ! 0" "ibs ! 0 \<noteq> LF_INULL" "0 < length ibs" using e J shape_blocks(1) [of K ibs ds xs p 0] by (auto simp: nth_null_def)
    note L = first_load [OF F(1) c ne(3) refl]
    have lo: "lfinum ?l = LF_INULL \<or> lfpos ?l < ib_offset (lfiblock ?l) \<Longrightarrow> lfsetup_first i f0 =
        Some (upd_file i (\<lambda>l. l\<lparr>lfiblock := lfibget (ibs ! 0) (disk f), lfinum := ibs ! 0\<rparr>) f)"
      using ne by (auto simp: step)
    show ?thesis
    proof (cases "lfinum ?l = LF_INULL \<or> lfpos ?l < ib_offset (lfiblock ?l)")
      case True
      then show ?thesis using lo L(1,2) only_trans [OF o L(3)] room by (intro exI [of _ ibs] exI [of _ fi] exI) auto
    next
      case no: False
      then have "lfsetup_first i f0 = Some f" by (simp add: step)
      moreover have "lfinum ?l \<in> set ibs" using no J by (simp add: file_cache_def)
      then obtain j where j: "j < length ibs" "lfinum ?l = ibs ! j" by (metis in_set_conv_nth)
      then have "lfiblock ?l = ib_of ibs ds j" using J by (auto simp: file_blocks_def cur_ib_def)
      then have "8192 * j \<le> p"
        using no J shape_bound(2,3) [of K ibs ds xs p] w32_order(1) [of p "8192 * j"] j by (auto simp: file_pos_def file_shape_def)
      ultimately show ?thesis using F(1) o c j room by (intro exI [of _ ibs] exI [of _ fi] exI) (auto simp: walkable_def)
    qed
  qed
qed

text \<open>One turn of the walk: the next index block of the file, or a new one behind the last.\<close>

lemma walk_load:
  assumes inv: "lfs_inv K f i ibs ds fi fd xs p" and c: "\<not> lfibdirty (lfltab f i)" "\<not> lfdbdirty (lfltab f i)" "lfbyte (lfltab f i) = 512"
    and j: "j < length ibs" and f': "f' = upd_file i (\<lambda>l. l\<lparr>lfiblock := lfibget (ibs ! j) (disk f), lfinum := ibs ! j, lfdnum := LF_DNULL\<rparr>) f"
  shows "lfs_inv K f' i ibs ds fi fd xs p" "only K i A B f f'"
proof -
  note I = inv [unfolded lfs_inv_def]
  let ?g = "upd_file i (\<lambda>l. l\<lparr>lfiblock := lfibget (ibs ! j) (disk f), lfinum := ibs ! j\<rparr>) f"
  have "file_inv K (upd_file i (\<lambda>l. l\<lparr>lfdnum := LF_DNULL\<rparr>) ?g) i ibs ds xs p"
    by (rule drop_db [OF load_ib(1) [OF conjunct1 [OF I] c(1) j]]) (use c in simp_all)
  moreover have "upd_file i (\<lambda>l. l\<lparr>lfdnum := LF_DNULL\<rparr>) ?g = f'" by (simp add: f' upd_file_def)
  moreover have "free_inv K f' fi fd" using I by (simp add: free_inv_def f')
  ultimately show "lfs_inv K f' i ibs ds fi fd xs p" using I by (simp add: lfs_inv_def)
  show "only K i A B f f'" by (simp add: only_def f')
qed

lemma walk_alloc:
  assumes inv: "lfs_inv K f i ibs ds (a # fi) fd xs p" and c: "\<not> lfibdirty (lfltab f i)" "\<not> lfdbdirty (lfltab f i)" "lfbyte (lfltab f i) = 512"
    and ne: "ibs \<noteq> []" "lfinum (lfltab f i) = last ibs" and f1: "lfiballoc f = Some (a, f1)"
    and f': "f' = upd_file i (\<lambda>l. l\<lparr>lfinum := a, lfiblock := lfibclear (ib_offset (lfiblock (lfltab f i)) + LF_IDATA), lfibdirty := True, lfdnum := LF_DNULL\<rparr>)
      (f1\<lparr>disk := lfibput (last ibs) ((lfiblock (lfltab f i))\<lparr>ib_next := a\<rparr>) (disk f1)\<rparr>)"
  shows "lfs_inv K f' i (ibs @ [a]) ds fi fd xs p" "only K i (set (ibs @ a # fi)) (set ds) f f'"
proof -
  let ?l = "lfltab f i" and ?j = "length ibs - 1"
  note I = inv [unfolded lfs_inv_def]
  note J = conjunct1 [OF I, unfolded file_inv_def Let_def]
  obtain f2 where al: "lfiballoc f = Some (a, f2)" "free_inv K f2 fi fd" "lfltab f2 = lfltab f" "dirent f2 = dirent f" "lf_mutex f2 = lf_mutex f"
    "\<And>c. islot K c \<Longrightarrow> lfibget c (disk f2) = lfibget c (disk f)" "\<And>b. dslot K b \<Longrightarrow> ramread b (disk f2) = ramread b (disk f)"
    by (rule lfiballoc_some [of K f a fi fd]) (use I in auto)
  have [simp]: "f2 = f1" using al(1) f1 by simp
  have a: "islot K a" "a \<notin> set ibs" "islot K (last ibs)" and sh: "\<forall>c \<in> set ibs. islot K c" "\<forall>b \<in> set ds. dslot K b"
    using I J ne(1) by (auto simp: free_inv_def file_shape_def)
  have j: "?j < length ibs" "last ibs = ibs ! ?j" using ne(1) by (simp_all add: last_conv_nth)
  have ib: "lfiblock ?l = ib_of ibs ds ?j" using J j ne(2) by (auto simp: file_blocks_def cur_ib_def)
  have g: "lfibget (last ibs) (disk f) = lfiblock ?l" using load_ib(2) [OF conjunct1 [OF I] c(1) j(1)] ib j(2) by simp
  have off: "ib_offset (lfiblock ?l) + 8192 = of_nat (8192 * length ibs)" using ib ne(1) by (cases ibs) simp_all
  let ?d = "lfibput (last ibs) ((lfiblock ?l)\<lparr>ib_next := a\<rparr>) (disk f1)"
  have ci: "lfibget c ?d = (if c = last ibs then (lfiblock ?l)\<lparr>ib_next := a\<rparr> else lfibget c (disk f))" if "islot K c" for c
    using index_laws(1) [OF _ a(3) that, of "(lfiblock ?l)\<lparr>ib_next := a\<rparr>" "disk f1"] ib al(6) [OF that] by simp
  have cd: "ramread b ?d = ramread b (disk f)" if "dslot K b" for b
    using index_laws(2) [OF _ a(3) that, of "(lfiblock ?l)\<lparr>ib_next := a\<rparr>" "disk f1"] ib al(7) [OF that] by simp
  have f'': "lfltab f' = (lfltab f)(i := ?l\<lparr>lfinum := a, lfiblock := lfibclear (of_nat (8192 * length ibs)), lfibdirty := True, lfdnum := - 1\<rparr>)"
    "disk f' = ?d" "lf_dir f' = lf_dir f1" "dirent f' = dirent f" "lf_mutex f' = lf_mutex f"
    using al(3-5) off by (simp_all add: f' dirent_def fun_eq_iff)
  have "file_inv K f' i (ibs @ [a]) ds xs p"
  proof (rule extend_inv [OF conjunct1 [OF I] c a(1,2)])
    show "file_entry (dirent f' (lfdirptr ?l)) (ibs @ [a]) xs" using J ne(1) by (simp add: f'' file_entry_def nth_null_def nth_append)
  qed (use f'' ci cd sh g in auto)
  moreover have "free_inv K f' fi fd"
  proof (rule free_inv_cong [OF al(2)])
    have fs: "\<forall>c \<in> set fi. islot K c \<and> c \<noteq> last ibs" "\<forall>b \<in> set fd. dslot K b"
      using I last_in_set [OF ne(1)] by (auto simp: free_inv_def)
    show "lfibget c (disk f') = lfibget c (disk f2)" if "c \<in> set fi" for c using that fs ci al(6) f''(2) by simp
    show "ramread b (disk f') = ramread b (disk f2)" if "b \<in> set fd" for b using that fs cd al(7) f''(2) by simp
  qed (simp add: f''(3))
  ultimately show "lfs_inv K f' i (ibs @ [a]) ds fi fd xs p" using I by (auto simp: lfs_inv_def free_inv_def)
  show "only K i (set (ibs @ a # fi)) (set ds) f f'" using f'' ci cd ne(1) by (auto simp: only_def)
qed

lemma walk_cond:
  assumes "file_inv K f i ibs ds xs p" "j < length ibs" "lfinum (lfltab f i) = ibs ! j"
  shows "(lfpos (lfltab f i) AND NOT LF_IMASK) > ib_offset (lfiblock (lfltab f i)) \<longleftrightarrow> j < p div 8192"
    "lfiblock (lfltab f i) = ib_of ibs ds j"
proof -
  note J = assms(1) [unfolded file_inv_def Let_def]
  show b: "lfiblock (lfltab f i) = ib_of ibs ds j" using J assms(2,3) by (auto simp: file_blocks_def cur_ib_def)
  have n: "p < 102400" "j < 1393" using J shape_bound(2,3) [of K ibs ds xs p] assms(2) by (auto simp: file_shape_def)
  have "8192 * (p div 8192) \<le> p" by simp
  then have "8192 * j < 4294967296" "8192 * (p div 8192) < 4294967296" using n by linarith+
  then show "(lfpos (lfltab f i) AND NOT LF_IMASK) > ib_offset (lfiblock (lfltab f i)) \<longleftrightarrow> j < p div 8192"
    using J b pos_words(1) [of p] n w32_order(1) [of "8192 * j" "8192 * (p div 8192)"] by (simp add: file_pos_def)
qed

definition walked :: "lfs \<Rightarrow> nat \<Rightarrow> word32 list \<Rightarrow> nat \<Rightarrow> bool" where
  "walked f i ibs p \<longleftrightarrow>
     (let l = lfltab f i in \<not> lfdbdirty l \<and> lfbyte l = 512 \<and> p div 8192 < length ibs \<and> lfinum l = ibs ! (p div 8192))"

lemma walk_ok:
  assumes "lfs_inv K f i ibs ds fi fd xs p" "walkable f i ibs p" "p div 8192 < length ibs \<or> fi \<noteq> []"
  shows "\<exists>f' ibs' fi'. lfsetup_walk i f = Some f' \<and> lfs_inv K f' i ibs' ds fi' fd xs p \<and> ibs' @ fi' = ibs @ fi \<and> walked f' i ibs' p \<and>
    only K i (set (ibs @ fi)) (set ds) f f'"
proof -
  obtain j where "j < length ibs" "lfinum (lfltab f i) = ibs ! j" "8192 * j \<le> p" "lfibdirty (lfltab f i) \<longrightarrow> j = p div 8192"
    "\<not> lfdbdirty (lfltab f i)" "lfbyte (lfltab f i) = 512" using assms(2) by (auto simp: walkable_def Let_def)
  with assms(1,3) show ?thesis
  proof (induction "p div 8192 - j" arbitrary: j f ibs fi)
    case 0
    note I = 0(2) [unfolded lfs_inv_def]
    have "j = p div 8192" using 0(1,6) by auto
    then have "lfsetup_walk i f = Some f" using walk_cond(1) [OF conjunct1 [OF I] 0(4,5)] by (subst lfsetup_walk.simps) (simp add: Let_def)
    then show ?case using 0 \<open>j = p div 8192\<close> by (intro exI [of _ ibs] exI [of _ fi] exI) (auto simp: walked_def)
  next
    case (Suc n)
    note I = Suc(3) [unfolded lfs_inv_def]
    note J = conjunct1 [OF I, unfolded file_inv_def Let_def]
    have lt: "j < p div 8192" and c: "\<not> lfibdirty (lfltab f i)" using Suc(2,8) by auto
    note w = walk_cond [OF conjunct1 [OF I] Suc(5,6)]
    show ?case
    proof (cases "Suc j < length ibs")
      case True
      define f' where "f' = upd_file i (\<lambda>l. l\<lparr>lfiblock := lfibget (ibs ! Suc j) (disk f), lfinum := ibs ! Suc j, lfdnum := LF_DNULL\<rparr>) f"
      note L = walk_load [OF Suc(3) c Suc(9,10) True f'_def]
      have ne: "ibs ! Suc j \<noteq> LF_INULL" using J shape_blocks(1) True by blast
      have "lfsetup_walk i f = lfsetup_walk i f'"
        using w lt True ne by (subst lfsetup_walk.simps) (simp add: Let_def f'_def nth_null_def)
      moreover have "\<exists>f'' ibs' fi'. lfsetup_walk i f' = Some f'' \<and> lfs_inv K f'' i ibs' ds fi' fd xs p \<and> ibs' @ fi' = ibs @ fi \<and> walked f'' i ibs' p \<and>
          only K i (set (ibs @ fi)) (set ds) f' f''"
        by (rule Suc(1) [of "Suc j" f' ibs fi]) (use Suc L(1) True lt c in \<open>auto simp: f'_def\<close>)
      ultimately show ?thesis using only_trans [OF L(2)] by metis
    next
      case False
      then have len: "Suc j = length ibs" using Suc(5) by simp
      have "p \<le> 8192 * length ibs" using J by (auto simp: file_shape_def)
      then have pj: "p div 8192 = Suc j" using lt len by (auto simp: less_eq_div_iff_mult_less_eq)
      obtain a fi' where fi: "fi = a # fi'" using Suc(4) pj len by (cases fi) auto
      obtain f1 where f1: "lfiballoc f = Some (a, f1)" by (rule lfiballoc_some [of K f a fi' fd]) (use I fi in auto)
      have "ibs \<noteq> []" "length ibs - 1 = j" using len by auto
      then have la: "ibs \<noteq> []" "lfinum (lfltab f i) = last ibs" using Suc(6) by (simp_all add: last_conv_nth)
      define f' where "f' = upd_file i (\<lambda>l. l\<lparr>lfinum := a, lfiblock := lfibclear (ib_offset (lfiblock (lfltab f i)) + LF_IDATA), lfibdirty := True, lfdnum := LF_DNULL\<rparr>)
        (f1\<lparr>disk := lfibput (last ibs) ((lfiblock (lfltab f i))\<lparr>ib_next := a\<rparr>) (disk f1)\<rparr>)"
      note L = walk_alloc [OF Suc(3) [unfolded fi] c Suc(9,10) la f1 f'_def]
      have l': "lfltab f1 = lfltab f" by (rule lfiballoc_some [of K f a fi' fd]) (use I fi f1 in auto)
      have "lfsetup_walk i f = lfsetup_walk i f'"
        using w lt len f1 la by (subst lfsetup_walk.simps) (simp add: Let_def f'_def nth_null_def)
      moreover have "lfsetup_walk i f' = Some f'"
        using walk_cond(1) [OF conjunct1 [OF L(1) [unfolded lfs_inv_def]], of "Suc j"] len pj l'
        by (subst lfsetup_walk.simps) (simp add: Let_def f'_def nth_append)
      ultimately show ?thesis using L fi pj len l' Suc(9,10)
        by (intro exI [of _ f'] exI [of _ "ibs @ [a]"] exI [of _ fi']) (auto simp: walked_def f'_def nth_append)
    qed
  qed
qed

text \<open>The data block: a block of the file, read from disk unless it is in memory, or a new one at the end.\<close>

lemma block_index: "16 * (p div 8192) + p mod 8192 div 512 = p div 512" "p mod 8192 div 512 = p div 512 mod 16" "p mod 8192 div 512 < (16 :: nat)"
  "p div 512 div 16 = p div 8192"
proof -
  show m: "p mod 8192 div 512 = p div 512 mod 16" using mod_mult2_eq [of p 512 16] by simp
  show d: "p div 512 div 16 = p div 8192" by (simp flip: div_mult2_eq)
  show "16 * (p div 8192) + p mod 8192 div 512 = p div 512"
    using mult_div_mod_eq [of 16 "p div 512"] unfolding m d by simp
  show "p mod 8192 div 512 < 16" unfolding m by simp
qed

lemma data_cond:
  assumes "file_inv K f i ibs ds xs p" "walked f i ibs p"
  shows "lfsetup_data i f =
      (let l = lfltab f i; dnum = nth_null ds (p div 512) in
       if dnum = LF_DNULL then
         (case lfdballoc f of
            None \<Rightarrow> None
          | Some (n, b, f1) \<Rightarrow>
              Some (upd_file i (\<lambda>l. l\<lparr>lfdblock := b, lfiblock := (lfiblock l)\<lparr>ib_dba := (ib_dba (lfiblock l))[p div 512 mod 16 := n]\<rparr>,
                                      lfibdirty := True, lfdnum := n, lfbyte := p mod 512\<rparr>) f1))
       else if dnum \<noteq> lfdnum l then
         Some (upd_file i (\<lambda>l. l\<lparr>lfdblock := ramread dnum (disk f), lfdbdirty := False, lfdnum := dnum, lfbyte := p mod 512\<rparr>) f)
       else Some (upd_file i (\<lambda>l. l\<lparr>lfdnum := dnum, lfbyte := p mod 512\<rparr>) f))"
    "lfiblock (lfltab f i) = ib_of ibs ds (p div 8192)"
proof -
  note J = assms(1) [unfolded file_inv_def Let_def] and W = assms(2) [unfolded walked_def Let_def]
  show ib: "lfiblock (lfltab f i) = ib_of ibs ds (p div 8192)" using walk_cond(2) [OF assms(1)] W by simp
  have p: "lfpos (lfltab f i) = of_nat p" "p < 4294967296"
    using J shape_bound(2) [of K ibs ds xs p] by (auto simp: file_pos_def file_shape_def)
  have dn: "ib_dba (lfiblock (lfltab f i)) ! (p mod 8192 div 512) = nth_null ds (p div 512)"
    using ib_of_simps(4) [OF block_index(3) [of p], of ibs ds "p div 8192"] unfolding ib block_index(1) .
  show "lfsetup_data i f =
      (let l = lfltab f i; dnum = nth_null ds (p div 512) in
       if dnum = LF_DNULL then
         (case lfdballoc f of
            None \<Rightarrow> None
          | Some (n, b, f1) \<Rightarrow>
              Some (upd_file i (\<lambda>l. l\<lparr>lfdblock := b, lfiblock := (lfiblock l)\<lparr>ib_dba := (ib_dba (lfiblock l))[p div 512 mod 16 := n]\<rparr>,
                                      lfibdirty := True, lfdnum := n, lfbyte := p mod 512\<rparr>) f1))
       else if dnum \<noteq> lfdnum l then
         Some (upd_file i (\<lambda>l. l\<lparr>lfdblock := ramread dnum (disk f), lfdbdirty := False, lfdnum := dnum, lfbyte := p mod 512\<rparr>) f)
       else Some (upd_file i (\<lambda>l. l\<lparr>lfdnum := dnum, lfbyte := p mod 512\<rparr>) f))"
    unfolding lfsetup_data_def Let_def p(1) pos_words(2,3) [OF p(2)] dn unfolding block_index(2) by (rule refl)
qed

lemma data_load:
  assumes inv: "lfs_inv K f i ibs ds fi fd xs p" and w: "walked f i ibs p" and n: "p div 512 < length ds"
  shows "\<exists>f'. lfsetup_data i f = Some f' \<and> lfs_inv K f' i ibs ds fi fd xs p \<and> lfbyte (lfltab f' i) < 512 \<and> only K i A B f f'"
proof -
  let ?l = "lfltab f i" and ?d = "disk f" and ?b = "ds ! (p div 512)"
  note I = inv [unfolded lfs_inv_def] and W = w [unfolded walked_def Let_def]
  note J = conjunct1 [OF I, unfolded file_inv_def Let_def]
  have b: "?b \<noteq> LF_DNULL" "nth_null ds (p div 512) = ?b" using J shape_blocks(2) n by (auto simp: nth_null_def)
  define f' where "f' = (if ?b \<noteq> lfdnum ?l
      then upd_file i (\<lambda>l. l\<lparr>lfdblock := ramread ?b ?d, lfdbdirty := False, lfdnum := ?b, lfbyte := p mod 512\<rparr>) f
      else upd_file i (\<lambda>l. l\<lparr>lfdnum := ?b, lfbyte := p mod 512\<rparr>) f)"
  have e: "lfsetup_data i f = Some f'" using data_cond(1) [OF conjunct1 [OF I] w] b by (simp add: Let_def f'_def)
  have D: "file_blocks (?l\<lparr>lfdnum := LF_DNULL\<rparr>) ?d ibs ds xs" using drop_db [OF conjunct1 [OF I]] W by (simp add: file_inv_def Let_def)
  let ?l' = "lfltab f' i"
  have bl: "file_blocks ?l' ?d ibs ds xs"
  proof (cases "?b = lfdnum ?l")
    case True
    then show ?thesis using J by (auto simp: f'_def file_blocks_def cur_ib_def cur_db_def)
  next
    case False
    have ds: "ds ! (m div 512) \<noteq> LF_DNULL" if "m < length xs" for m
      using shape_blocks(2) nth_div_512 J that by blast
    show ?thesis using D ds False by (auto simp: f'_def file_blocks_def cur_ib_def cur_db_def)
  qed
  moreover have "file_cache ?l' ?d ibs ds xs"
    using J W b n by (auto simp: f'_def file_cache_def split: if_splits)
  moreover have "file_pos ?l' ds p" using J n by (auto simp: f'_def file_pos_def)
  moreover have "lfstate ?l' = lfstate ?l" "lfdirptr ?l' = lfdirptr ?l" "lfmutex ?l' = lfmutex ?l" "disk f' = ?d" "lf_dir f' = lf_dir f" "lf_mutex f' = lf_mutex f"
    by (simp_all add: f'_def)
  moreover have "\<And>j. j \<noteq> i \<Longrightarrow> lfltab f' j = lfltab f j" by (simp add: f'_def)
  ultimately have "lfs_inv K f' i ibs ds fi fd xs p" "only K i A B f f'"
    using I J by (auto simp: lfs_inv_def file_inv_def free_inv_def dirent_def only_def)
  moreover have "lfbyte ?l' < 512" by (simp add: f'_def)
  ultimately show ?thesis using e by blast
qed

lemma data_alloc:
  assumes inv: "lfs_inv K f i ibs ds fi (b # fd) xs p" and w: "walked f i ibs p" and n: "p div 512 = length ds"
  shows "\<exists>f'. lfsetup_data i f = Some f' \<and> lfs_inv K f' i ibs (ds @ [b]) fi fd xs p \<and> lfbyte (lfltab f' i) < 512 \<and> only K i A B f f'"
proof -
  let ?l = "lfltab f i"
  note I = inv [unfolded lfs_inv_def] and W = w [unfolded walked_def Let_def]
  note J = conjunct1 [OF I, unfolded file_inv_def Let_def]
  obtain f1 where al: "lfdballoc f = Some (b, replicate 512 DFILL, f1)" "free_inv K f1 fi fd" "lfltab f1 = lfltab f" "dirent f1 = dirent f" "lf_mutex f1 = lf_mutex f"
    "\<And>c. islot K c \<Longrightarrow> lfibget c (disk f1) = lfibget c (disk f)" "\<And>b. dslot K b \<Longrightarrow> ramread b (disk f1) = ramread b (disk f)"
    by (rule lfdballoc_some [of K f fi b fd]) (use I in auto)
  have b: "dslot K b" "b \<notin> set ds" "b \<noteq> LF_DNULL" using I dslotD(3) by (auto simp: free_inv_def)
  have j: "length ds div 16 = p div 8192" using block_index(4) [of p] by (simp add: n)
  let ?l' = "?l\<lparr>lfdblock := replicate 512 DFILL, lfiblock := (lfiblock ?l)\<lparr>ib_dba := (ib_dba (lfiblock ?l))[length ds mod 16 := b]\<rparr>,
     lfibdirty := True, lfdnum := b, lfbyte := p mod 512\<rparr>"
  define f' where "f' = upd_file i (\<lambda>l. l\<lparr>lfdblock := replicate 512 DFILL, lfiblock := (lfiblock l)\<lparr>ib_dba := (ib_dba (lfiblock l))[length ds mod 16 := b]\<rparr>,
     lfibdirty := True, lfdnum := b, lfbyte := p mod 512\<rparr>) f1"
  have e: "lfsetup_data i f = Some f'"
    using data_cond(1) [OF conjunct1 [OF I] w] al(1) n by (simp add: Let_def f'_def nth_null_def)
  have l': "lfltab f' = (lfltab f)(i := ?l')" "lf_dir f' = lf_dir f1" "disk f' = disk f1" "dirent f' = dirent f" "lf_mutex f' = lf_mutex f"
    using al(3-5) by (simp_all add: f'_def)
  have ib: "lfiblock ?l' = ib_of ibs (ds @ [b]) (p div 8192)" using data_cond(2) [OF conjunct1 [OF I] w] ib_of_data [of ibs ds b "p div 8192"] j by simp
  have "cur_ib ?l' (disk f') (ibs ! k) = ib_of ibs (ds @ [b]) k" if "k < length ibs" for k
  proof (cases "k = p div 8192")
    case True
    then show ?thesis using ib W by (simp add: cur_ib_def)
  next
    case False
    then have "ibs ! k \<noteq> lfinum ?l" using W that J nth_eq_iff_index_eq [of ibs k "p div 8192"] by (auto simp: file_shape_def)
    moreover have "islot K (ibs ! k)" using J that shape_blocks(1) by blast
    moreover have "ib_of ibs (ds @ [b]) k = cur_ib ?l (disk f) (ibs ! k)" using J that False j by (simp add: ib_of_data file_blocks_def)
    ultimately show ?thesis using al(6) by (simp add: cur_ib_def l'(3))
  qed
  moreover have "cur_db ?l' (disk f') ((ds @ [b]) ! (m div 512)) ! (m mod 512) = xs ! m" if "m < length xs" for m
  proof -
    have d: "m div 512 < length ds" using nth_div_512 [of K ibs ds xs p] J that by simp
    have s: "dslot K (ds ! (m div 512))" "ds ! (m div 512) \<noteq> LF_DNULL" using J d shape_blocks(2) by blast+
    have "ds ! (m div 512) \<noteq> b" using b(2) d by auto
    moreover have "ramread (ds ! (m div 512)) (disk f) ! (m mod 512) = xs ! m"
      using drop_db [OF conjunct1 [OF I]] W that s(2) by (auto simp: file_inv_def file_blocks_def cur_db_def Let_def)
    ultimately show ?thesis using d al(7) [OF s(1)] by (simp add: cur_db_def l'(3) nth_append)
  qed
  ultimately have "file_blocks ?l' (disk f') ibs (ds @ [b]) xs" by (simp add: file_blocks_def)
  moreover have "lfinum ?l \<in> set ibs" "lfinum ?l \<noteq> LF_INULL" using W J shape_blocks(1) [of K ibs ds xs p] by auto
  then have "file_cache ?l' (disk f') ibs (ds @ [b]) xs"
    using b J W by (auto simp: file_cache_def file_shape_def nth_append)
  moreover have "length ds < 16 * length ibs" using W n block_index(1,3) [of p] by linarith
  then have "file_shape K ibs (ds @ [b]) xs p" using J b by (auto simp: file_shape_def)
  moreover have "file_pos ?l' (ds @ [b]) p" using J n by (simp add: file_pos_def)
  ultimately have "file_inv K f' i ibs (ds @ [b]) xs p" using J l' by (simp add: file_inv_def)
  moreover have "free_inv K f' fi fd" using al(2) l' by (simp add: free_inv_def)
  ultimately have "lfs_inv K f' i ibs (ds @ [b]) fi fd xs p" using I b by (auto simp: lfs_inv_def free_inv_def)
  moreover have "only K i A B f f'" using l' al(6,7) by (auto simp: only_def)
  ultimately show ?thesis using e l' by (intro exI [of _ f']) auto
qed

text \<open>There is a block for position \<open>p\<close>, in the file or free.\<close>

definition room :: "nat \<Rightarrow> word32 list \<Rightarrow> word32 list \<Rightarrow> word32 list \<Rightarrow> word32 list \<Rightarrow> bool" where
  "room p ibs ds fi fd \<longleftrightarrow> p < 512 * length (ds @ fd) \<and> p < 8192 * length (ibs @ fi)"

lemma setup_ok:
  assumes inv: "lfs_inv K f i ibs ds fi fd xs p" and b: "lfbyte (lfltab f i) = 512" and room: "room p ibs ds fi fd"
  shows "\<exists>f' ibs' ds' fi' fd'. lfsetup_body i f = Some f' \<and> lfs_inv K f' i ibs' ds' fi' fd' xs p \<and> ibs' @ fi' = ibs @ fi \<and> ds' @ fd' = ds @ fd \<and>
    lfbyte (lfltab f' i) < 512 \<and> only K i (set (ibs @ fi)) (set (ds @ fd)) f f'"
proof -
  have sh: "length ds \<le> 16 * length ibs" "p \<le> 512 * length ds" using inv by (auto simp: lfs_inv_def file_inv_def file_shape_def Let_def)
  have "p div 8192 < length ibs \<or> fi \<noteq> []" and dr: "p div 512 < length ds \<or> fd \<noteq> []" using room by (auto simp: room_def)
  from first_ok [OF inv b this(1)] obtain f1 ibs1 fi1 where 1: "lfsetup_first i f = Some f1" "lfs_inv K f1 i ibs1 ds fi1 fd xs p" "ibs1 @ fi1 = ibs @ fi"
    "walkable f1 i ibs1 p" "p div 8192 < length ibs1 \<or> fi1 \<noteq> []" "only K i (set (ibs @ fi)) (set ds) f f1" by blast
  from walk_ok [OF 1(2,4,5)] obtain f2 ibs2 fi2 where 2: "lfsetup_walk i f1 = Some f2" "lfs_inv K f2 i ibs2 ds fi2 fd xs p" "ibs2 @ fi2 = ibs1 @ fi1"
    "walked f2 i ibs2 p" "only K i (set (ibs1 @ fi1)) (set ds) f1 f2" by blast
  have "\<exists>f' ds' fd'. lfsetup_data i f2 = Some f' \<and> lfs_inv K f' i ibs2 ds' fi2 fd' xs p \<and> ds' @ fd' = ds @ fd \<and> lfbyte (lfltab f' i) < 512 \<and>
    only K i (set (ibs @ fi)) (set (ds @ fd)) f2 f'"
  proof (cases "p div 512 < length ds")
    case True
    then show ?thesis using data_load [OF 2(2,4) True] by blast
  next
    case False
    then have n: "p div 512 = length ds" using sh(2) by auto
    obtain b fd' where fd: "fd = b # fd'" using dr False by (cases fd) auto
    show ?thesis using data_alloc [OF 2(2) [unfolded fd] 2(4) n, of "set (ibs @ fi)" "set (ds @ fd)"] unfolding fd
      by (metis append.assoc append_Cons append_Nil)
  qed
  then obtain f' ds' fd' where 3: "lfsetup_data i f2 = Some f'" "lfs_inv K f' i ibs2 ds' fi2 fd' xs p" "ds' @ fd' = ds @ fd" "lfbyte (lfltab f' i) < 512"
    "only K i (set (ibs @ fi)) (set (ds @ fd)) f2 f'" by blast
  have "only K i (set (ibs @ fi)) (set (ds @ fd)) f f'"
    using only_trans [OF only_trans [OF only_mono [OF 1(6)] only_mono [OF 2(5)]] 3(5)] 1(3) by auto
  moreover have "lfsetup_body i f = Some f'" using 1(1) 2(1) 3(1) by (simp add: lfsetup_body_def)
  ultimately show ?thesis using 1(3) 2(3) 3(2-4) by (intro exI [of _ f'] exI [of _ ibs2] exI [of _ ds'] exI [of _ fi2] exI [of _ fd']) simp
qed

end
