(* ===== verification/Lfs_File.thy ===== *)
theory Lfs_File
  imports Lfs_Inv
begin

text \<open>
  The operations on an open file, when no other process holds the mutual exclusion semaphores: each does to the byte sequence and
  the position what its name says, gives the semaphores back, and leaves everything else alone.
\<close>

section \<open>Mutual exclusion\<close>

definition mutex_free :: "int \<Rightarrow> kernel \<Rightarrow> bool" where
  "mutex_free m k \<longleftrightarrow> m \<in> {0..<NSEM} \<and> sstate (semtab k m) = S_USED \<and> scount (semtab k m) = 1"

definition held :: "int \<Rightarrow> kernel \<Rightarrow> kernel" where
  "held m = upd_sem m (\<lambda>e. e\<lparr>scount := 0\<rparr>)"

lemma lock_free: "mutex_free m k \<Longrightarrow> lock m k = (True, held m k)"
  by (simp add: mutex_free_def lock_def wait_def isbadsem_def held_def upd_sem_def Let_def s32_def)

lemma unlock_held:
  assumes "mutex_free m k"
  shows "unlock m (held m k) = k"
proof -
  have e: "(semtab k m)\<lparr>scount := 1\<rparr> = semtab k m" using assms by (cases "semtab k m") (simp add: mutex_free_def)
  show ?thesis
    using assms by (simp add: mutex_free_def unlock_def signal_def isbadsem_def held_def signal_one_def upd_sem_def Let_def s32_def e)
qed

lemma mutex_other: "m \<noteq> n \<Longrightarrow> mutex_free m (held n k) = mutex_free m k"
  by (simp add: mutex_free_def held_def)

definition mutexes_free :: "nat \<Rightarrow> lfs \<Rightarrow> kernel \<Rightarrow> bool" where
  "mutexes_free i f k \<longleftrightarrow> mutex_free (lfmutex (lfltab f i)) k \<and> mutex_free (lf_mutex f) k \<and> lfmutex (lfltab f i) \<noteq> lf_mutex f"

lemma only_mutexes: "only K i A B f f' \<Longrightarrow> mutexes_free i f k \<Longrightarrow> mutexes_free i f' k"
  by (simp add: only_def mutexes_free_def)

section \<open>Single bytes\<close>

lemma ready_ok:
  assumes inv: "lfs_inv K f i ibs ds fi fd xs p" and room: "room p ibs ds fi fd" and m: "mutexes_free i f k"
  obtains f' ibs' ds' fi' fd' where "lfready i f (held (lfmutex (lfltab f i)) k) = Some (Some OK, f', held (lfmutex (lfltab f i)) k)"
    "lfs_inv K f' i ibs' ds' fi' fd' xs p" "ibs' @ fi' = ibs @ fi" "ds' @ fd' = ds @ fd" "lfbyte (lfltab f' i) < 512"
    "only K i (set (ibs @ fi)) (set (ds @ fd)) f f'"
proof (cases "lfbyte (lfltab f i) < 512")
  case True
  then show thesis using that [of f ibs ds fi fd] inv by (simp add: lfready_def)
next
  case False
  then have b: "lfbyte (lfltab f i) = 512" using inv by (simp add: lfs_inv_def file_inv_def file_pos_def Let_def)
  obtain f' ibs' ds' fi' fd' where r: "lfsetup_body i f = Some f'" "lfs_inv K f' i ibs' ds' fi' fd' xs p" "ibs' @ fi' = ibs @ fi" "ds' @ fd' = ds @ fd"
    "lfbyte (lfltab f' i) < 512" "only K i (set (ibs @ fi)) (set (ds @ fd)) f f'" using setup_ok [OF inv b room] by blast
  have mf: "mutex_free (lf_mutex f) (held (lfmutex (lfltab f i)) k)" using m by (simp add: mutexes_free_def mutex_other)
  have "lf_mutex f' = lf_mutex f" using r(6) by (simp add: only_def)
  then have "lfready i f (held (lfmutex (lfltab f i)) k) = Some (Some OK, f', held (lfmutex (lfltab f i)) k)"
    using b r(1) lock_free [OF mf] unlock_held [OF mf] by (simp add: lfready_def lfsetup_def)
  then show thesis using that r by blast
qed

lemma inv_facts:
  assumes "lfs_inv K f i ibs ds fi fd xs p"
  shows "lfstate (lfltab f i) = LF_USED" "lfpos (lfltab f i) = of_nat p" "ld_size (dirent f (lfdirptr (lfltab f i))) = of_nat (length xs)"
    "p \<le> length xs" "length xs < 102400" "lfdirptr (lfltab f i) < 20" "dir_fit (lf_dir f)"
  using assms shape_bound(2) [of K ibs ds xs p]
  by (auto simp: lfs_inv_def file_inv_def file_pos_def file_entry_def file_shape_def free_inv_def Let_def)

lemma pos_size:
  assumes "lfs_inv K f i ibs ds fi fd xs p"
  shows "lfpos (lfltab f i) < ld_size (dirent f (lfdirptr (lfltab f i))) \<longleftrightarrow> p < length xs"
    "\<not> ld_size (dirent f (lfdirptr (lfltab f i))) < lfpos (lfltab f i)"
  using inv_facts [OF assms] w32_order(1) [of p "length xs"] w32_order(1) [of "length xs" p] by auto

text \<open>The byte under the position, and the position moved on behind it.\<close>

lemma next_pos:
  assumes "lfbyte l < 512" "file_pos l ds p" "lfpos l' = lfpos l + 1" "lfbyte l' = lfbyte l + 1" "lfdnum l' = lfdnum l"
  shows "file_pos l' ds (p + 1)"
proof -
  have p: "lfpos l = of_nat p" "p div 512 < length ds" "lfdnum l = ds ! (p div 512)" "lfbyte l = p mod 512" using assms(1,2) by (auto simp: file_pos_def)
  have "(p + 1) div 512 = p div 512 \<and> (p + 1) mod 512 = p mod 512 + 1" if "p mod 512 + 1 < 512"
    using that by (simp add: div_Suc mod_Suc)
  then show ?thesis using p assms(3-5) by (auto simp: file_pos_def)
qed

lemma lflgetc_ok:
  assumes inv: "lfs_inv K f i ibs ds fi fd xs p" and m: "mutexes_free i f k" and lt: "p < length xs"
  obtains f' ibs' ds' fi' fd' where "lflgetc i f k = Some (Some (uint (xs ! p)), f', k)" "lfs_inv K f' i ibs' ds' fi' fd' xs (p + 1)"
    "ibs' @ fi' = ibs @ fi" "ds' @ fd' = ds @ fd" "only K i (set (ibs @ fi)) (set (ds @ fd)) f f'"
proof -
  have d: "room p ibs ds fi fd" using inv lt by (auto simp: lfs_inv_def file_inv_def file_shape_def room_def Let_def)
  obtain f1 ibs' ds' fi' fd' where r: "lfready i f (held (lfmutex (lfltab f i)) k) = Some (Some OK, f1, held (lfmutex (lfltab f i)) k)"
    "lfs_inv K f1 i ibs' ds' fi' fd' xs p" "ibs' @ fi' = ibs @ fi" "ds' @ fd' = ds @ fd" "lfbyte (lfltab f1 i) < 512"
    "only K i (set (ibs @ fi)) (set (ds @ fd)) f f1" by (rule ready_ok [OF inv d m])
  note I = r(2) [unfolded lfs_inv_def]
  note J = conjunct1 [OF I, unfolded file_inv_def Let_def]
  let ?l = "lfltab f1 i" and ?m = "lfmutex (lfltab f i)"
  have pos: "lfdnum ?l = ds' ! (p div 512)" "lfbyte ?l = p mod 512" using J r(5) by (auto simp: file_pos_def)
  have byte: "lfdblock ?l ! lfbyte ?l = xs ! p" using J lt pos by (auto simp: file_blocks_def cur_db_def)
  let ?f = "upd_file i (\<lambda>l. l\<lparr>lfbyte := lfbyte l + 1, lfpos := lfpos l + 1\<rparr>) f1"
  have mu: "mutex_free ?m k" using m by (simp add: mutexes_free_def)
  have "\<not> ld_size (dirent f (lfdirptr (lfltab f i))) \<le> lfpos (lfltab f i)" using pos_size(1) [OF inv] lt by (simp only: not_le)
  then have "lflgetc i f k = Some (Some (uint (xs ! p)), ?f, k)"
    using lock_free [OF mu] unlock_held [OF mu] inv_facts(1) [OF inv] r(1) byte by (simp add: lflgetc_def Let_def)
  moreover have "lfs_inv K ?f i ibs' ds' fi' fd' xs (p + 1)"
  proof -
    have "file_pos (lfltab ?f i) ds' (p + 1)" by (rule next_pos [of ?l]) (use r(5) J in auto)
    then show ?thesis
      using I J lt by (auto simp: lfs_inv_def file_inv_def file_shape_def file_blocks_def file_cache_def cur_ib_def cur_db_def free_inv_def)
  qed
  moreover have "only K i (set (ibs @ fi)) (set (ds @ fd)) f ?f" using r(6) by (simp add: only_def)
  ultimately show thesis using that r(3,4) by blast
qed

lemma lflgetc_eof:
  assumes "lfs_inv K f i ibs ds fi fd xs p" "mutexes_free i f k" "p = length xs"
  shows "lflgetc i f k = Some (Some EOF, f, k)"
  using assms lock_free [of "lfmutex (lfltab f i)" k] unlock_held [of "lfmutex (lfltab f i)" k] inv_facts(1) [OF assms(1)] pos_size(1) [OF assms(1)]
  by (simp add: lflgetc_def mutexes_free_def not_less)

text \<open>Writing a byte at the position: over an old one, or behind the last.\<close>

definition write_at :: "nat \<Rightarrow> byte \<Rightarrow> byte list \<Rightarrow> byte list" where
  "write_at p c xs = (if p < length xs then xs[p := c] else xs @ [c])"

lemma length_write_at: "p \<le> length xs \<Longrightarrow> length (write_at p c xs) = max (length xs) (p + 1)"
  by (auto simp: write_at_def)

lemma nth_write_at: "p \<le> length xs \<Longrightarrow> n < length (write_at p c xs) \<Longrightarrow> write_at p c xs ! n = (if n = p then c else xs ! n)"
  by (auto simp: write_at_def nth_append)

text \<open>The block in memory holds the position; the byte is stored in it.\<close>

lemma store_byte:
  assumes J: "file_inv K f i ibs ds xs p" and b: "lfbyte (lfltab f i) < 512"
    and l': "lfltab f' i = (lfltab f i)\<lparr>lfdblock := (lfdblock (lfltab f i))[lfbyte (lfltab f i) := c], lfbyte := lfbyte (lfltab f i) + 1,
      lfpos := lfpos (lfltab f i) + 1, lfdbdirty := True\<rparr>"
    and d: "disk f' = disk f" and e: "file_entry (dirent f' (lfdirptr (lfltab f i))) ibs (write_at p c xs)"
  shows "file_inv K f' i ibs ds (write_at p c xs) (p + 1)"
proof -
  note J = J [unfolded file_inv_def Let_def]
  let ?l = "lfltab f i" and ?l' = "lfltab f' i" and ?ys = "write_at p c xs"
  have p: "p div 512 < length ds" "lfdnum ?l = ds ! (p div 512)" "lfbyte ?l = p mod 512" "p \<le> length xs"
    using J b by (auto simp: file_pos_def file_shape_def)
  have ne: "lfdnum ?l \<noteq> LF_DNULL" using p(1,2) J shape_blocks(2) by metis
  have len: "length (lfdblock ?l) = 512" using J ne by (simp add: file_cache_def)
  have ys: "length ?ys \<le> 512 * length ds" using J p(1) length_write_at [OF p(4)] by (auto simp: file_shape_def max_def)
  have "cur_db ?l' (disk f') (ds ! (n div 512)) ! (n mod 512) = ?ys ! n" if n: "n < length ?ys" for n
  proof (cases "n = p")
    case True
    then show ?thesis using p len l' n by (simp add: cur_db_def nth_write_at)
  next
    case False
    have "cur_db ?l (disk f) (ds ! (n div 512)) ! (n mod 512) = ?ys ! n"
      using J n False p(4) length_write_at [OF p(4)] by (auto simp: nth_write_at file_blocks_def split: if_splits)
    moreover have "n div 512 < length ds" using n ys by (simp add: div_less_iff_less_mult mult.commute)
    then have "n mod 512 \<noteq> p mod 512" if "ds ! (n div 512) = ds ! (p div 512)"
      using that False J p(1) by (metis div_mult_mod_eq file_shape_def nth_eq_iff_index_eq)
    ultimately show ?thesis using l' d p(2,3) by (auto simp: cur_db_def)
  qed
  moreover have "cur_ib ?l' (disk f') = cur_ib ?l (disk f)" using l' d by (intro ext) (simp add: cur_ib_def)
  ultimately have "file_blocks ?l' (disk f') ibs ds ?ys" using J by (simp add: file_blocks_def)
  moreover have "file_cache ?l' (disk f') ibs ds ?ys" using J l' d ne len by (simp add: file_cache_def)
  moreover have "file_pos ?l' ds (p + 1)" by (rule next_pos [OF b]) (use J l' in auto)
  moreover have "file_shape K ibs ds ?ys (p + 1)" using J ys length_write_at [OF p(4)] by (simp add: file_shape_def)
  ultimately show ?thesis using J e l' by (simp add: file_inv_def)
qed

lemma lflputc_ok:
  assumes inv: "lfs_inv K f i ibs ds fi fd xs p" and m: "mutexes_free i f k" and room: "room p ibs ds fi fd"
  obtains f' ibs' ds' fi' fd' where "lflputc i c f k = Some (Some OK, f', k)" "lfs_inv K f' i ibs' ds' fi' fd' (write_at p c xs) (p + 1)"
    "ibs' @ fi' = ibs @ fi" "ds' @ fd' = ds @ fd" "only K i (set (ibs @ fi)) (set (ds @ fd)) f f'"
proof -
  obtain f1 ibs' ds' fi' fd' where r: "lfready i f (held (lfmutex (lfltab f i)) k) = Some (Some OK, f1, held (lfmutex (lfltab f i)) k)"
    "lfs_inv K f1 i ibs' ds' fi' fd' xs p" "ibs' @ fi' = ibs @ fi" "ds' @ fd' = ds @ fd" "lfbyte (lfltab f1 i) < 512"
    "only K i (set (ibs @ fi)) (set (ds @ fd)) f f1" by (rule ready_ok [OF inv room m])
  note I = r(2) [unfolded lfs_inv_def] and facts = inv_facts [OF r(2)]
  let ?l = "lfltab f1 i" and ?m = "lfmutex (lfltab f i)" and ?e = "lfdirptr (lfltab f1 i)" and ?ys = "write_at p c xs"
  have e: "lfdirptr (lfltab f i) = ?e" using r(6) by (simp add: only_def)
  define f2 where "f2 = (if lfpos ?l \<ge> ld_size (dirent f1 ?e) then (upd_ent ?e (\<lambda>d. d\<lparr>ld_size := ld_size d + 1\<rparr>) f1)\<lparr>lf_dirdirty := True\<rparr> else f1)"
  define f3 where "f3 = upd_file i (\<lambda>l. l\<lparr>lfdblock := (lfdblock l)[lfbyte l := c], lfbyte := lfbyte l + 1, lfpos := lfpos l + 1, lfdbdirty := True\<rparr>) f2"
  have mu: "mutex_free ?m k" using m by (simp add: mutexes_free_def)
  have put: "lflputc i c f k = Some (Some OK, f3, k)"
    using lock_free [OF mu] unlock_held [OF mu] inv_facts(1) [OF inv] pos_size(2) [OF inv] r(1) e
    by (simp add: lflputc_def Let_def f2_def f3_def)
  have same: "lfltab f2 = lfltab f1" "disk f2 = disk f1" "lf_mutex f2 = lf_mutex f1" "dir_fit (lf_dir f2)"
    "lfd_ifree (lf_dir f2) = lfd_ifree (lf_dir f1)" "lfd_dfree (lf_dir f2) = lfd_dfree (lf_dir f1)"
    using upd_ent_fit [OF facts(7)] facts(7) by (simp_all add: f2_def)
  have de: "dirent (f\<lparr>lf_dirdirty := b\<rparr>) = dirent f" for f b by (simp add: dirent_def fun_eq_iff)
  have ent: "dirent f3 e' = (if e' = ?e then (dirent f1 ?e)\<lparr>ld_size := of_nat (length ?ys)\<rparr> else dirent f1 e')" for e'
    using dirent_upd_ent [OF facts(7,6)] pos_size(1) [OF r(2)] facts(3,4) by (auto simp: f3_def f2_def de write_at_def not_less)
  have "file_inv K f3 i ibs' ds' ?ys (p + 1)"
  proof (rule store_byte [OF conjunct1 [OF I] r(5)])
    show "file_entry (dirent f3 ?e) ibs' ?ys" using I ent by (simp add: file_inv_def file_entry_def Let_def)
  qed (use same in \<open>simp_all add: f3_def\<close>)
  moreover have "free_inv K f3 fi' fd'" using I same by (simp add: free_inv_def f3_def)
  ultimately have "lfs_inv K f3 i ibs' ds' fi' fd' ?ys (p + 1)" using I by (simp add: lfs_inv_def)
  moreover have "only K i (set (ibs @ fi)) (set (ds @ fd)) f1 f3" using ent same by (simp add: only_def f3_def)
  then have "only K i (set (ibs @ fi)) (set (ds @ fd)) f f3" by (rule only_trans [OF r(6)])
  ultimately show thesis using that put r(3,4) by blast
qed

lemma lflseek_ok:
  assumes inv: "lfs_inv K f i ibs ds fi fd xs p" and m: "mutexes_free i f k" and q: "unat q \<le> length xs"
  obtains f' where "lflseek i q f k = Some (Some OK, f', k)" "lfs_inv K f' i ibs ds fi fd xs (unat q)" "only K i {} {} f f'"
proof -
  have mu: "mutex_free (lfmutex (lfltab f i)) k" using m by (simp add: mutexes_free_def)
  note F = inv_facts [OF inv]
  let ?f = "upd_file i (\<lambda>l. l\<lparr>lfpos := q, lfbyte := 512\<rparr>) f"
  have "\<not> of_nat (length xs) < (of_nat (unat q) :: word32)" using w32_order(1) [of "length xs" "unat q"] q F(5) by simp
  then have "\<not> ld_size (dirent f (lfdirptr (lfltab f i))) < q" using F(3) by simp
  then have "lflseek i q f k = Some (Some OK, ?f, k)"
    using lock_free [OF mu] unlock_held [OF mu] F(1) by (simp add: lflseek_def)
  moreover have "lfs_inv K ?f i ibs ds fi fd xs (unat q)"
    using inv q by (auto simp: lfs_inv_def file_inv_def file_shape_def file_blocks_def file_cache_def file_pos_def cur_ib_def cur_db_def free_inv_def Let_def)
  moreover have "only K i {} {} f ?f" by (simp add: only_def)
  ultimately show thesis using that by blast
qed

section \<open>Many bytes\<close>

definition write_list :: "nat \<Rightarrow> byte list \<Rightarrow> byte list \<Rightarrow> byte list" where
  "write_list p cs xs = take p xs @ cs @ drop (p + length cs) xs"

lemma write_list_Cons: "p \<le> length xs \<Longrightarrow> write_list (p + 1) cs (write_at p c xs) = write_list p (c # cs) xs"
proof (cases "p < length xs")
  case True
  then have "take (p + 1) (xs[p := c]) = take p xs @ [c]" by (simp add: take_Suc_conv_app_nth)
  then show ?thesis using True by (simp add: write_list_def write_at_def)
qed (simp add: write_list_def write_at_def)

lemma write_list_Nil [simp]: "p \<le> length xs \<Longrightarrow> write_list p [] xs = xs"
  by (simp add: write_list_def)

lemma lflwrite_loop_ok:
  assumes "lfs_inv K f i ibs ds fi fd xs p" "mutexes_free i f k" "bytes_at m buff cs" "cs \<noteq> [] \<Longrightarrow> room (p + length cs - 1) ibs ds fi fd"
  shows "\<exists>f' ibs' ds' fi' fd'. lflwrite_loop (length cs) n m buff i f k = Some (Some n, f', k) \<and>
    lfs_inv K f' i ibs' ds' fi' fd' (write_list p cs xs) (p + length cs) \<and> ibs' @ fi' = ibs @ fi \<and> ds' @ fd' = ds @ fd \<and>
    only K i (set (ibs @ fi)) (set (ds @ fd)) f f'"
  using assms
proof (induction cs arbitrary: f ibs ds fi fd xs p buff)
  case Nil
  then have "p \<le> length xs" using inv_facts(4) by blast
  then show ?case using Nil(1) by (intro exI [of _ f] exI [of _ ibs] exI [of _ ds] exI [of _ fi] exI [of _ fd]) simp
next
  case (Cons c cs)
  have r: "room p ibs ds fi fd" using Cons.prems(4) by (simp add: room_def)
  obtain f1 ibs1 ds1 fi1 fd1 where 1: "lflputc i c f k = Some (Some OK, f1, k)" "lfs_inv K f1 i ibs1 ds1 fi1 fd1 (write_at p c xs) (p + 1)"
    "ibs1 @ fi1 = ibs @ fi" "ds1 @ fd1 = ds @ fd" "only K i (set (ibs @ fi)) (set (ds @ fd)) f f1" by (rule lflputc_ok [OF Cons.prems(1,2) r])
  have "room (p + 1 + length cs - 1) ibs1 ds1 fi1 fd1" using Cons.prems(4) 1(3,4) by (simp add: room_def)
  then obtain f' ibs' ds' fi' fd' where 2: "lflwrite_loop (length cs) n m (Suc buff) i f1 k = Some (Some n, f', k)"
    "lfs_inv K f' i ibs' ds' fi' fd' (write_list (p + 1) cs (write_at p c xs)) (p + 1 + length cs)" "ibs' @ fi' = ibs1 @ fi1" "ds' @ fd' = ds1 @ fd1"
    "only K i (set (ibs1 @ fi1)) (set (ds1 @ fd1)) f1 f'"
    using Cons.IH [OF 1(2) only_mutexes [OF 1(5) Cons.prems(2)], of "Suc buff"] Cons.prems(3) by auto
  have "write_list (p + 1) cs (write_at p c xs) = write_list p (c # cs) xs" by (rule write_list_Cons [OF inv_facts(4) [OF Cons.prems(1)]])
  moreover have "only K i (set (ibs @ fi)) (set (ds @ fd)) f f'" using only_trans [OF 1(5)] 2(5) 1(3,4) by simp
  moreover have "lflwrite_loop (length (c # cs)) n m buff i f k = Some (Some n, f', k)" using 1(1) 2(1) Cons.prems(3) by simp
  ultimately show ?case using 2(2-4) 1(3,4)
    by (intro exI [of _ f'] exI [of _ ibs'] exI [of _ ds'] exI [of _ fi'] exI [of _ fd']) simp
qed

lemma lflread_loop_ok:
  assumes "lfs_inv K f i ibs ds fi fd xs p" "mutexes_free i f k" "0 < nread \<or> 0 < n \<longrightarrow> p < length xs \<or> 0 < nread" "0 \<le> nread"
  shows "\<exists>f' ibs' ds' fi' fd' m'. lflread_loop n nread m buff i f k = Some (Some (nread + int (length (take n (drop p xs))), m'), f', k) \<and>
    bytes_at m' buff (take n (drop p xs)) \<and> writes m m' buff (length (take n (drop p xs))) \<and>
    lfs_inv K f' i ibs' ds' fi' fd' xs (p + length (take n (drop p xs))) \<and> ibs' @ fi' = ibs @ fi \<and> ds' @ fd' = ds @ fd \<and>
    only K i (set (ibs @ fi)) (set (ds @ fd)) f f'"
  using assms
proof (induction n arbitrary: f ibs ds fi fd p nread m buff)
  case 0
  show ?case
    by (intro exI [of _ f] exI [of _ ibs] exI [of _ ds] exI [of _ fi] exI [of _ fd] exI [of _ m]) (use 0 in \<open>simp add: writes_def\<close>)
next
  case (Suc n)
  show ?case
  proof (cases "p < length xs")
    case True
    obtain f1 ibs1 ds1 fi1 fd1 where 1: "lflgetc i f k = Some (Some (uint (xs ! p)), f1, k)" "lfs_inv K f1 i ibs1 ds1 fi1 fd1 xs (p + 1)"
      "ibs1 @ fi1 = ibs @ fi" "ds1 @ fd1 = ds @ fd" "only K i (set (ibs @ fi)) (set (ds @ fd)) f f1" by (rule lflgetc_ok [OF Suc.prems(1,2) True])
    have u: "uint (xs ! p) \<noteq> SYSERR" "uint (xs ! p) \<noteq> EOF" using uint_ge_0 [of "xs ! p"] by linarith+
    let ?m = "m(buff := xs ! p)" and ?t = "take n (drop (p + 1) xs)"
    have "\<exists>f' ibs' ds' fi' fd' m'. lflread_loop n (nread + 1) ?m (Suc buff) i f1 k = Some (Some (nread + 1 + int (length ?t), m'), f', k) \<and>
        bytes_at m' (Suc buff) ?t \<and> writes ?m m' (Suc buff) (length ?t) \<and> lfs_inv K f' i ibs' ds' fi' fd' xs (p + 1 + length ?t) \<and>
        ibs' @ fi' = ibs1 @ fi1 \<and> ds' @ fd' = ds1 @ fd1 \<and> only K i (set (ibs1 @ fi1)) (set (ds1 @ fd1)) f1 f'"
      by (rule Suc.IH [OF 1(2) only_mutexes [OF 1(5) Suc.prems(2)]]) (use Suc.prems(4) in simp_all)
    then obtain f' ibs' ds' fi' fd' m' where 2: "lflread_loop n (nread + 1) ?m (Suc buff) i f1 k = Some (Some (nread + 1 + int (length ?t), m'), f', k)"
      "bytes_at m' (Suc buff) ?t \<and> writes ?m m' (Suc buff) (length ?t)" "lfs_inv K f' i ibs' ds' fi' fd' xs (p + 1 + length ?t)"
      "ibs' @ fi' = ibs1 @ fi1" "ds' @ fd' = ds1 @ fd1" "only K i (set (ibs1 @ fi1)) (set (ds1 @ fd1)) f1 f'"
      by blast
    have t: "take (Suc n) (drop p xs) = xs ! p # ?t" using True by (simp add: Cons_nth_drop_Suc [symmetric])
    have "only K i (set (ibs @ fi)) (set (ds @ fd)) f f'" using only_trans [OF 1(5)] 2(6) 1(3,4) by simp
    moreover have "lflread_loop (Suc n) nread m buff i f k = Some (Some (nread + 1 + int (length ?t), m'), f', k)" using 1(1) u 2(1) by simp
    moreover have "bytes_at m' buff (xs ! p # ?t)" "writes m m' buff (Suc (length ?t))" using writes_put [OF 2(2)] by simp_all
    ultimately show ?thesis unfolding t using 2(3-5) 1(3,4)
      by (intro exI [of _ f'] exI [of _ ibs'] exI [of _ ds'] exI [of _ fi'] exI [of _ fd'] exI [of _ m']) (simp add: algebra_simps)
  next
    case False
    then have p: "p = length xs" using inv_facts(4) [OF Suc.prems(1)] by simp
    have "0 < nread" using Suc.prems(3) False by simp
    then show ?thesis using lflgetc_eof [OF Suc.prems(1,2) p] Suc.prems(1) p
      by (intro exI [of _ f] exI [of _ ibs] exI [of _ ds] exI [of _ fi] exI [of _ fd] exI [of _ m]) (simp add: writes_def)
  qed
qed

end
