(* ===== verification/Lfs_Admin.thy ===== *)
theory Lfs_Admin
  imports Lfs_File
begin

text \<open>
  Operations on whole files and on the disk: truncation, closing and opening, formatting and checking. A file that is not open is
  described by \<open>stored_file\<close>.
\<close>

section \<open>Freeing blocks\<close>

lemma lfdbfree_ok:
  assumes free: "free_inv K f fi fd" and b: "dslot K b" "b \<notin> set fd" "length junk = 508" and f': "f' = lfdbfree junk b f"
  shows "free_inv K f' fi (b # fd)" "lfltab f' = lfltab f" "dirent f' = dirent f" "lf_mutex f' = lf_mutex f"
    "lfd_ifree (lf_dir f') = lfd_ifree (lf_dir f)"
    "\<And>c. islot K c \<Longrightarrow> lfibget c (disk f') = lfibget c (disk f)" "\<And>c. dslot K c \<Longrightarrow> c \<noteq> b \<Longrightarrow> ramread c (disk f') = ramread c (disk f)"
proof -
  note F = free [unfolded free_inv_def]
  define buf where "buf = le32 (lfd_dfree (lf_dir f)) @ junk"
  define g where "g = put_disk b buf (upd_dir (\<lambda>d. d\<lparr>lfd_dfree := b\<rparr>) f)"
  have len: "length buf = 512" using b(3) by (simp add: buf_def)
  have fit: "dir_fit (lf_dir g)" using F by (simp add: g_def put_disk_def dir_fit_def)
  note P = put_dir_laws [OF fit]
  have e: "f' = put_dir g" by (simp add: f' lfdbfree_def g_def buf_def Let_def)
  show i: "lfibget c (disk f') = lfibget c (disk f)" if "islot K c" for c
    using P(1) [OF that] area_laws(3) [OF len that b(1)] by (simp add: e g_def put_disk_def)
  have r: "ramread c (disk f') = (if c = b then buf else ramread c (disk f))" if "dslot K c" for c
    using P(2) [OF that] area_laws(4) [OF len b(1) that] by (simp add: e g_def put_disk_def)
  then show "ramread c (disk f') = ramread c (disk f)" if "dslot K c" "c \<noteq> b" for c using that by simp
  show l: "lfltab f' = lfltab f" "dirent f' = dirent f" "lf_mutex f' = lf_mutex f" "lfd_ifree (lf_dir f') = lfd_ifree (lf_dir f)"
    using P(3-5) by (simp_all add: e g_def put_disk_def dirent_def fun_eq_iff)
  have "ist.lseg (disk f') (lfd_ifree (lf_dir f')) fi LF_INULL" using ist.lseg_cong [of "disk f" _ fi _ "disk f'"] F i l(4) by auto
  moreover have "dst.lseg (disk f') (lfd_dfree (lf_dir f)) fd LF_DNULL"
  proof (rule dst.lseg_cong [of "disk f"])
    show "ramread c (disk f') = ramread c (disk f)" if "c \<in> set fd" for c using that r F b(2) by auto
  qed (use F in simp)
  then have "dst.lseg (disk f') (lfd_dfree (lf_dir f')) (b # fd) LF_DNULL"
    using r [OF b(1)] dslotD(1) [OF b(1)] P(3) by (simp add: e g_def put_disk_def buf_def)
  moreover have "dir_fit (lf_dir f')" using P(3) fit by (simp add: e)
  ultimately show "free_inv K f' fi (b # fd)" using F b by (simp add: free_inv_def)
qed

lemma free_dblocks_ok:
  assumes "free_inv K f fi fd" "distinct (filter (\<lambda>b. b \<noteq> LF_DNULL) bs @ fd)" "\<forall>b \<in> set bs. b \<noteq> LF_DNULL \<longrightarrow> dslot K b" "\<forall>b. length (junk b) = 508"
    and "f' = free_dblocks junk bs f"
  shows "free_inv K f' fi (rev (filter (\<lambda>b. b \<noteq> LF_DNULL) bs) @ fd) \<and> lfltab f' = lfltab f \<and> dirent f' = dirent f \<and> lf_mutex f' = lf_mutex f \<and>
    lfd_ifree (lf_dir f') = lfd_ifree (lf_dir f) \<and> (\<forall>c. islot K c \<longrightarrow> lfibget c (disk f') = lfibget c (disk f)) \<and>
    (\<forall>c. dslot K c \<and> c \<notin> set bs \<longrightarrow> ramread c (disk f') = ramread c (disk f))"
  using assms
proof (induction bs arbitrary: f fd)
  case (Cons b bs)
  show ?case
  proof (cases "b = LF_DNULL")
    case True
    then show ?thesis using Cons.IH [of f fd] Cons.prems by simp
  next
    case False
    let ?g = "lfdbfree (junk b) b f"
    have "dslot K b" "b \<notin> set fd" "length (junk b) = 508" using Cons.prems False by auto
    note S = lfdbfree_ok [OF Cons.prems(1) this refl]
    have "distinct (filter (\<lambda>b. b \<noteq> LF_DNULL) bs @ b # fd)" using Cons.prems(2) False by auto
    note R = Cons.IH [OF S(1) this _ Cons.prems(4)]
    have "f' = free_dblocks junk bs ?g" using Cons.prems(5) False by simp
    then show ?thesis using R S(2-7) Cons.prems(3) False by simp
  qed
qed simp

section \<open>Truncation\<close>

lemma trunc_loop_ok:
  assumes "free_inv K f fi fd" "lfd_ifree (lf_dir f) = ifree" "distinct (as @ fi)" "\<forall>a \<in> set as. islot K a" "\<forall>b. length (junk b) = 508" "length D = length as"
    and "\<forall>n < length as. ib_next (lfibget (as ! n) (disk f)) = nth_null as (Suc n) \<and> ib_dba (lfibget (as ! n) (disk f)) = D ! n"
    and "distinct (filter (\<lambda>b. b \<noteq> LF_DNULL) (concat D) @ fd)" "\<forall>b \<in> set (concat D). b \<noteq> LF_DNULL \<longrightarrow> dslot K b"
  shows "\<exists>f'. lftruncate_loop junk ifree (if as = [] then ifree else hd as) f = Some f' \<and>
    free_inv K f' fi (rev (filter (\<lambda>b. b \<noteq> LF_DNULL) (concat D)) @ fd) \<and> lfd_ifree (lf_dir f') = ifree \<and>
    ist.lseg (disk f') (if as = [] then ifree else hd as) as ifree \<and> lfltab f' = lfltab f \<and> dirent f' = dirent f \<and> lf_mutex f' = lf_mutex f \<and>
    (\<forall>c. islot K c \<and> c \<notin> set as \<longrightarrow> lfibget c (disk f') = lfibget c (disk f)) \<and>
    (\<forall>c. dslot K c \<and> c \<notin> set (concat D) \<longrightarrow> ramread c (disk f') = ramread c (disk f))"
  using assms
proof (induction as arbitrary: f fd D)
  case Nil
  then show ?case by (subst lftruncate_loop.simps) auto
next
  case (Cons a as)
  obtain B D' where D: "D = B # D'" using Cons.prems(6) by (cases D) auto
  let ?ib = "lfibget a (disk f)" and ?f1 = "free_dblocks junk B f"
  have ib: "ib_next ?ib = nth_null as 0" "ib_dba ?ib = B" using Cons.prems(7) D by (auto simp: nth_null_def)
  have sa: "islot K a" "a \<notin> set as" "a \<notin> set fi" using Cons.prems(3,4) by auto
  have ia: "a \<noteq> ifree" using Cons.prems(1,2) sa islotD(5) [OF sa(1)] by (cases fi) (auto simp: free_inv_def)
  have "distinct (filter (\<lambda>b. b \<noteq> LF_DNULL) B @ fd)" "\<forall>b \<in> set B. b \<noteq> LF_DNULL \<longrightarrow> dslot K b" using Cons.prems(8,9) D by auto
  note F1 = free_dblocks_ok [OF Cons.prems(1) this Cons.prems(5) refl]
  let ?next = "if as = [] then ifree else hd as"
  define ib1 where "ib1 = \<lparr>ib_next = (if ib_next ?ib = LF_INULL then ifree else ib_next ?ib), ib_offset = 0 :: word32, ib_dba = replicate 16 LF_DNULL\<rparr>"
  define f2 where "f2 = ?f1\<lparr>disk := lfibput a ib1 (disk ?f1)\<rparr>"
  have len: "length (ib_dba ib1) = 16" by (simp add: ib1_def)
  have nx: "(if nth_null as 0 = LF_INULL then ifree else nth_null as 0) = ?next"
    using Cons.prems(4) islotD(5) by (cases as) (auto simp: nth_null_def)
  then have nx1: "ib_next ib1 = ?next" using ib(1) by (simp only: ib1_def lfiblk.select_convs)
  have unf: "lftruncate_loop junk ifree a f = lftruncate_loop junk ifree ?next f2"
  proof -
    have "lftruncate_loop junk ifree a f = lftruncate_loop junk ifree (ib_next ib1) f2"
      using ia ib(2) by (subst lftruncate_loop.simps) (simp add: Let_def f2_def ib1_def)
    then show ?thesis unfolding nx1 .
  qed
  have i2: "lfibget c (disk f2) = (if c = a then ib1 else lfibget c (disk f))" if "islot K c" for c
    using index_laws(1) [OF len sa(1) that] F1 that by (simp add: f2_def)
  have d2: "ramread c (disk f2) = ramread c (disk ?f1)" if "dslot K c" for c
    using index_laws(2) [OF len sa(1) that] by (simp add: f2_def)
  let ?fd = "rev (filter (\<lambda>b. b \<noteq> LF_DNULL) B) @ fd"
  have fr: "free_inv K f2 fi ?fd"
  proof (rule free_inv_cong [OF conjunct1 [OF F1]])
    have s: "\<forall>c \<in> set fi. islot K c" "\<forall>c \<in> set ?fd. dslot K c" using conjunct1 [OF F1] by (auto simp: free_inv_def)
    show "lfibget c (disk f2) = lfibget c (disk ?f1)" if "c \<in> set fi" for c using that s(1) i2 sa(3) F1 by auto
    show "ramread c (disk f2) = ramread c (disk ?f1)" if "c \<in> set ?fd" for c using that s(2) d2 by blast
  qed (simp add: f2_def)
  have D2: "\<forall>n < length as. ib_next (lfibget (as ! n) (disk f2)) = nth_null as (Suc n) \<and> ib_dba (lfibget (as ! n) (disk f2)) = D' ! n"
  proof (intro allI impI)
    fix n assume n: "n < length as"
    then have "as ! n \<noteq> a" "islot K (as ! n)" using sa(2) Cons.prems(4) by auto
    then show "ib_next (lfibget (as ! n) (disk f2)) = nth_null as (Suc n) \<and> ib_dba (lfibget (as ! n) (disk f2)) = D' ! n"
      using i2 [of "as ! n"] Cons.prems(7) [rule_format, of "Suc n"] n D by (simp add: nth_null_def)
  qed
  have "\<exists>f'. lftruncate_loop junk ifree ?next f2 = Some f' \<and>
    free_inv K f' fi (rev (filter (\<lambda>b. b \<noteq> LF_DNULL) (concat D')) @ ?fd) \<and> lfd_ifree (lf_dir f') = ifree \<and>
    ist.lseg (disk f') ?next as ifree \<and> lfltab f' = lfltab f2 \<and> dirent f' = dirent f2 \<and> lf_mutex f' = lf_mutex f2 \<and>
    (\<forall>c. islot K c \<and> c \<notin> set as \<longrightarrow> lfibget c (disk f') = lfibget c (disk f2)) \<and>
    (\<forall>c. dslot K c \<and> c \<notin> set (concat D') \<longrightarrow> ramread c (disk f') = ramread c (disk f2))"
    by (rule Cons.IH [OF fr]) (use Cons.prems D F1 D2 in \<open>auto simp: f2_def\<close>)
  then obtain f' where R: "lftruncate_loop junk ifree ?next f2 = Some f'" "free_inv K f' fi (rev (filter (\<lambda>b. b \<noteq> LF_DNULL) (concat D')) @ ?fd)"
    "lfd_ifree (lf_dir f') = ifree" "ist.lseg (disk f') ?next as ifree" "lfltab f' = lfltab f2" "dirent f' = dirent f2" "lf_mutex f' = lf_mutex f2"
    "\<And>c. islot K c \<Longrightarrow> c \<notin> set as \<Longrightarrow> lfibget c (disk f') = lfibget c (disk f2)"
    "\<And>c. dslot K c \<Longrightarrow> c \<notin> set (concat D') \<Longrightarrow> ramread c (disk f') = ramread c (disk f2)" by blast
  have "ist.lseg (disk f') a (a # as) ifree" using R(4) R(8) [OF sa(1,2)] i2 [OF sa(1)] islotD(1) [OF sa(1)] nx1 by simp
  moreover have "\<forall>c. islot K c \<and> c \<notin> set (a # as) \<longrightarrow> lfibget c (disk f') = lfibget c (disk f)" using R(8) i2 by simp
  moreover have "\<forall>c. dslot K c \<and> c \<notin> set (concat D) \<longrightarrow> ramread c (disk f') = ramread c (disk f)" using R(9) d2 F1 D by simp
  moreover have "lfltab f' = lfltab f" "dirent f' = dirent f" "lf_mutex f' = lf_mutex f" using R(5-7) F1 by (simp_all add: f2_def dirent_def fun_eq_iff)
  ultimately show ?case using R(1-3) unf D by (intro exI [of _ f']) simp
qed

lemma concat_dba: "concat (map (\<lambda>j. ib_dba (ib_of ibs ds j)) [0..<n]) = map (nth_null ds) [0..<16 * n]"
proof (induction n)
  case (Suc n)
  have "[0..<16 * Suc n] = [0..<16 * n] @ map (\<lambda>m. 16 * n + m) [0..<16]"
    using upt_add_eq_append [of 0 "16 * n" 16] by (simp add: map_add_upt add.commute)
  then show ?case using Suc by (simp add: ib_of_def comp_def)
qed simp

lemma dba_blocks:
  assumes "length ds \<le> N" "\<forall>b \<in> set ds. b \<noteq> LF_DNULL"
  shows "filter (\<lambda>b. b \<noteq> LF_DNULL) (map (nth_null ds) [0..<N]) = ds"
proof -
  have "[0..<N] = [0..<length ds] @ [length ds..<N]" using assms(1) upt_add_eq_append [of 0 "length ds" "N - length ds"] by simp
  moreover have "map (nth_null ds) [0..<length ds] = ds" by (intro nth_equalityI) (simp_all add: nth_null_def)
  moreover have "filter (\<lambda>b. b \<noteq> LF_DNULL) (map (nth_null ds) [length ds..<N]) = []" by (simp add: filter_empty_conv nth_null_def)
  ultimately show ?thesis using assms(2) by (simp add: filter_True)
qed

lemma lftruncate_ok:
  assumes inv: "lfs_inv K f i ibs ds fi fd xs p" and ne: "xs \<noteq> []" and junk: "\<forall>b. length (junk b) = 508"
  shows "\<exists>f'. lftruncate junk i f = Some (OK, f') \<and> lfs_inv K f' i [] [] (ibs @ fi) (rev ds @ fd) [] 0 \<and> only K i (set ibs) (set ds) f f'"
proof -
  let ?e = "lfdirptr (lfltab f i)"
  define f1 where "f1 = (if lfibdirty (lfltab f i) \<or> lfdbdirty (lfltab f i) then snd (lfflush i f) else f)"
  note F = flushed [OF inv f1_def]
  note I = F(1) [unfolded lfs_inv_def]
  note J = conjunct1 [OF I, unfolded file_inv_def Let_def] and Q = conjunct1 [OF conjunct2 [OF I]]
  have e: "lfdirptr (lfltab f1 i) = ?e" using F(5) by (simp add: only_def)
  note facts = inv_facts [OF F(1), unfolded e]
  define f2 where "f2 = upd_file i (\<lambda>l. l\<lparr>lfpos := 0, lfinum := LF_INULL, lfdnum := LF_DNULL, lfbyte := LF_BLKSIZ\<rparr>) f1"
  define f3 where "f3 = (upd_ent ?e (\<lambda>d. d\<lparr>ld_ilist := LF_INULL, ld_size := 0\<rparr>) f2)\<lparr>lf_dirdirty := True\<rparr>"
  let ?ifree = "lfd_ifree (lf_dir f1)" and ?D = "map (\<lambda>j. ib_dba (ib_of ibs ds j)) [0..<length ibs]"
  have ibs: "ibs \<noteq> []" using J ne by (auto simp: file_shape_def)
  have f3: "disk f3 = disk f1" "lfd_ifree (lf_dir f3) = ?ifree" "lfltab f3 = lfltab f2" "lf_mutex f3 = lf_mutex f" "free_inv K f3 fi fd"
    using upd_ent_fit [of f2 "\<lambda>d. d\<lparr>ld_ilist := LF_INULL, ld_size := 0\<rparr>" ?e] facts(7) Q F(5) by (simp_all add: f3_def f2_def free_inv_def only_def)
  have de: "dirent (f\<lparr>lf_dirdirty := b\<rparr>) = dirent f" for f b by (simp add: dirent_def fun_eq_iff)
  have ent: "dirent f3 e' = (if e' = ?e then (dirent f1 ?e)\<lparr>ld_ilist := LF_INULL, ld_size := 0\<rparr> else dirent f1 e')" for e'
    using dirent_upd_ent [of f2 ?e] facts(6,7) by (simp add: f3_def f2_def de)
  have D: "filter (\<lambda>b. b \<noteq> LF_DNULL) (concat ?D) = ds" "\<forall>b \<in> set (concat ?D). b \<noteq> LF_DNULL \<longrightarrow> b \<in> set ds"
  proof -
    have "\<forall>b \<in> set ds. b \<noteq> LF_DNULL" using J dslotD(3) by (auto simp: file_shape_def)
    then show "filter (\<lambda>b. b \<noteq> LF_DNULL) (concat ?D) = ds" unfolding concat_dba using J by (intro dba_blocks) (simp_all add: file_shape_def)
    then have "set (filter (\<lambda>b. b \<noteq> LF_DNULL) (concat ?D)) = set ds" by (simp only:)
    then show "\<forall>b \<in> set (concat ?D). b \<noteq> LF_DNULL \<longrightarrow> b \<in> set ds" unfolding set_filter by blast
  qed
  have blk: "lfibget (ibs ! n) (disk f3) = ib_of ibs ds n" if "n < length ibs" for n
    using load_ib(2) [OF conjunct1 [OF I] F(2) that] f3(1) by simp
  have "\<exists>f4. lftruncate_loop junk ?ifree (if ibs = [] then ?ifree else hd ibs) f3 = Some f4 \<and>
    free_inv K f4 fi (rev (filter (\<lambda>b. b \<noteq> LF_DNULL) (concat ?D)) @ fd) \<and> lfd_ifree (lf_dir f4) = ?ifree \<and>
    ist.lseg (disk f4) (if ibs = [] then ?ifree else hd ibs) ibs ?ifree \<and> lfltab f4 = lfltab f3 \<and> dirent f4 = dirent f3 \<and> lf_mutex f4 = lf_mutex f3 \<and>
    (\<forall>c. islot K c \<and> c \<notin> set ibs \<longrightarrow> lfibget c (disk f4) = lfibget c (disk f3)) \<and>
    (\<forall>c. dslot K c \<and> c \<notin> set (concat ?D) \<longrightarrow> ramread c (disk f4) = ramread c (disk f3))"
  proof (rule trunc_loop_ok [OF f3(5,2) _ _ junk])
    show "distinct (ibs @ fi)" "\<forall>a \<in> set ibs. islot K a" using I J by (auto simp: free_inv_def file_shape_def)
    show "distinct (filter (\<lambda>b. b \<noteq> LF_DNULL) (concat ?D) @ fd)" using I J D by (simp add: free_inv_def file_shape_def)
    show "\<forall>b \<in> set (concat ?D). b \<noteq> LF_DNULL \<longrightarrow> dslot K b" using J D(2) by (auto simp: file_shape_def)
  qed (use blk in simp_all)
  then obtain f4 where L: "lftruncate_loop junk ?ifree (hd ibs) f3 = Some f4" "free_inv K f4 fi (rev ds @ fd)" "lfd_ifree (lf_dir f4) = ?ifree"
    "ist.lseg (disk f4) (hd ibs) ibs ?ifree" "lfltab f4 = lfltab f3" "dirent f4 = dirent f3" "lf_mutex f4 = lf_mutex f3"
    "\<And>c. islot K c \<Longrightarrow> c \<notin> set ibs \<Longrightarrow> lfibget c (disk f4) = lfibget c (disk f3)"
    "\<And>c. dslot K c \<Longrightarrow> c \<notin> set (concat ?D) \<Longrightarrow> ramread c (disk f4) = ramread c (disk f3)" using ibs unfolding D(1) by auto
  define f5 where "f5 = (upd_dir (\<lambda>d. d\<lparr>lfd_ifree := hd ibs\<rparr>) f4)\<lparr>lf_dirdirty := True\<rparr>"
  have f5: "disk f5 = disk f4" "lfltab f5 = lfltab f2" "dirent f5 = dirent f3" "lf_mutex f5 = lf_mutex f" "lf_dir f5 = (lf_dir f4)\<lparr>lfd_ifree := hd ibs\<rparr>"
    using L(5-7) f3(3,4) by (simp_all add: f5_def dirent_def fun_eq_iff)
  have hd: "ld_ilist (dirent f1 ?e) = hd ibs" using J ibs e by (simp add: file_entry_def nth_null_def hd_conv_nth)
  have "ld_size (dirent f ?e) \<noteq> 0"
    using inv_facts(3,5) [OF inv] ne w32_order(1) [of 0 "length xs"] by auto
  then have run: "lftruncate junk i f = Some (OK, f5)"
    using L(1) hd by (simp add: lftruncate_def Let_def f1_def [symmetric] f2_def [symmetric] f3_def [symmetric] f5_def, simp add: f2_def f5_def)
  have "free_inv K f5 (ibs @ fi) (rev ds @ fd)"
  proof -
    have "ist.lseg (disk f4) (hd ibs) (ibs @ fi) LF_INULL" using L(2-4) by (auto simp: ist.lseg_append free_inv_def)
    then show ?thesis using L(2) I J f5 by (auto simp: free_inv_def file_shape_def dir_fit_def)
  qed
  moreover have "file_inv K f5 i [] [] [] 0"
    using J F(2,3) f5(2,3) ent e
    by (simp add: file_inv_def file_shape_def file_blocks_def file_cache_def file_pos_def file_entry_def f2_def nth_null_def)
  ultimately have "lfs_inv K f5 i [] [] (ibs @ fi) (rev ds @ fd) [] 0" by (simp add: lfs_inv_def)
  moreover have "only K i (set ibs) (set ds) f1 f5"
  proof -
    have "c \<notin> set (concat ?D)" if "c \<notin> set ds" "dslot K c" for c using that D(2) dslotD(3) by blast
    moreover have "lf_mutex f1 = lf_mutex f" using F(5) by (simp add: only_def)
    ultimately show ?thesis using f5 f3 L(8,9) ent e by (simp add: only_def f2_def)
  qed
  then have "only K i (set ibs) (set ds) f f5" by (rule only_trans [OF F(5)])
  ultimately show ?thesis using run by blast
qed

section \<open>Closing and opening\<close>

definition stored_file :: "nat \<Rightarrow> lfs \<Rightarrow> nat \<Rightarrow> word32 list \<Rightarrow> word32 list \<Rightarrow> byte list \<Rightarrow> bool" where
  "stored_file K f e ibs ds xs \<longleftrightarrow>
     e < 20 \<and> file_shape K ibs ds xs 0 \<and> file_entry (dirent f e) ibs xs \<and>
     (\<forall>j < length ibs. lfibget (ibs ! j) (disk f) = ib_of ibs ds j) \<and>
     (\<forall>n < length xs. ramread (ds ! (n div 512)) (disk f) ! (n mod 512) = xs ! n)"

lemma file_on_disk:
  assumes inv: "file_inv K f i ibs ds xs p" and c: "\<not> lfibdirty (lfltab f i)" "\<not> lfdbdirty (lfltab f i)"
  shows "stored_file K f (lfdirptr (lfltab f i)) ibs ds xs"
proof -
  note J = inv [unfolded file_inv_def Let_def]
  have "ramread (ds ! (n div 512)) (disk f) ! (n mod 512) = xs ! n" if n: "n < length xs" for n
  proof -
    have m: "n div 512 < length ds" using J n nth_div_512 by blast
    have "lfdblock (lfltab f i) = ramread (lfdnum (lfltab f i)) (disk f)" if "ds ! (n div 512) = lfdnum (lfltab f i)"
      using that J c(2) m n shape_blocks(2) [of K ibs ds xs p "n div 512"] by (fastforce simp: file_cache_def split: if_splits)
    then have "cur_db (lfltab f i) (disk f) (ds ! (n div 512)) = ramread (ds ! (n div 512)) (disk f)" by (auto simp: cur_db_def)
    moreover have "cur_db (lfltab f i) (disk f) (ds ! (n div 512)) ! (n mod 512) = xs ! n" using J n by (simp add: file_blocks_def)
    ultimately show ?thesis by simp
  qed
  then show ?thesis using J load_ib(2) [OF inv c(1)] by (simp add: stored_file_def file_shape_def)
qed

lemma lflclose_ok:
  assumes inv: "lfs_inv K f i ibs ds fi fd xs p" and m: "mutexes_free i f k"
  obtains f' where "lflclose i f k = Some (Some OK, f', k)" "stored_file K f' (lfdirptr (lfltab f i)) ibs ds xs" "free_inv K f' fi fd"
    "lfstate (lfltab f' i) = LF_FREE" "only K i (set ibs) (set ds) f f'" "lf_dir f' = lf_dir f"
    "lf_dirpresent f' = lf_dirpresent f"
proof -
  let ?l = "lfltab f i"
  define f1 where "f1 = (if lf_dirdirty f \<or> lfdbdirty ?l \<or> lfibdirty ?l then snd (lfflush i f) else f)"
  note I = inv [unfolded lfs_inv_def] and facts = inv_facts [OF inv]
  note F = lfflush_inv [OF conjunct1 [OF I] facts(7) refl]
  have J: "file_inv K f1 i ibs ds xs p" "\<not> lfibdirty (lfltab f1 i)" "\<not> lfdbdirty (lfltab f1 i)" "lf_dir f1 = lf_dir f" "only K i (set ibs) (set ds) f f1"
    using F I by (auto simp: f1_def)
  have pr: "lf_dirpresent f1 = lf_dirpresent f" by (simp add: f1_def lfflush_def put_dir_def put_disk_def upd_file_def Let_def)
  have st: "stored_file K f1 (lfdirptr ?l) ibs ds xs" using file_on_disk [OF J(1-3)] J(5) by (simp add: only_def)
  have fr: "free_inv K f1 fi fd" using only_free [OF J(5,4)] I by blast
  have mu: "mutex_free (lfmutex ?l) k" using m by (simp add: mutexes_free_def)
  let ?f = "upd_file i (\<lambda>l. l\<lparr>lfstate := LF_FREE\<rparr>) f1"
  have "lflclose i f k = Some (Some OK, ?f, k)"
    using lock_free [OF mu] unlock_held [OF mu] facts(1) by (simp add: lflclose_def Let_def f1_def)
  then show thesis
    by (rule that) (use st fr J(4,5) pr in \<open>simp_all add: stored_file_def free_inv_def only_def upd_file_def dirent_def\<close>)
qed

text \<open>Opening a stored file at a free table entry.\<close>

lemma init_file_ok:
  assumes "stored_file K f e ibs ds xs" "free_inv K f fi fd" "set ibs \<inter> set fi = {}" "set ds \<inter> set fd = {}"
    and f': "f' = lfs_init_file i e mbits name f"
  shows "lfs_inv K f' i ibs ds fi fd xs 0" "lfdirptr (lfltab f' i) = e" "lfmutex (lfltab f' i) = lfmutex (lfltab f i)" "lf_mutex f' = lf_mutex f"
    "lfdev (lfltab f' i) = lfdev (lfltab f i)" "lf_dir f' = lf_dir f" "disk f' = disk f" "\<And>j. j \<noteq> i \<Longrightarrow> lfltab f' j = lfltab f j"
proof -
  have ne: "ibs ! j \<noteq> LF_INULL" if "j < length ibs" for j using assms(1) shape_blocks(1) that by (auto simp: stored_file_def)
  have nd: "ds ! (n div 512) \<noteq> LF_DNULL" if "n < length xs" for n
    using assms(1) that shape_blocks(2) nth_div_512 unfolding stored_file_def by blast
  have "file_inv K f' i ibs ds xs 0"
    using assms(1) ne nd
    by (simp add: file_inv_def stored_file_def f' lfs_init_file_def file_blocks_def cur_ib_def cur_db_def file_cache_def file_pos_def file_shape_def)
  moreover have "free_inv K f' fi fd" using assms(2) by (simp add: free_inv_def f' lfs_init_file_def)
  ultimately show "lfs_inv K f' i ibs ds fi fd xs 0" using assms(3,4) by (simp add: lfs_inv_def)
qed (simp_all add: f' lfs_init_file_def)

text \<open>A name that was copied into a directory entry is found again, and no other name of up to 15 characters is.\<close>

lemma name_eq_copy:
  assumes "0 \<notin> set a" "0 \<notin> set b"
  shows "name_eq a (name_copy b old) \<longleftrightarrow> a = b"
  using assms
proof (induction a arbitrary: b old)
  case Nil
  then show ?case by (cases b) (auto simp: name_copy_def)
next
  case (Cons c a)
  show ?case
  proof (cases b)
    case (Cons d b')
    have "name_copy (d # b') old = d # name_copy b' (tl old)" by (cases old) (simp_all add: name_copy_def)
    then show ?thesis using Cons.IH [of b' "tl old"] Cons.prems Cons by auto
  qed (use Cons.prems in \<open>auto simp: name_copy_def\<close>)
qed

lemma find_name_iff:
  "find_name n i name d = Some e \<longleftrightarrow> i \<le> e \<and> e < i + n \<and> name_eq name (ld_name (lfd_files d ! e)) \<and>
     (\<forall>k. i \<le> k \<and> k < e \<longrightarrow> \<not> name_eq name (ld_name (lfd_files d ! k)))"
proof (induction n arbitrary: i)
  case (Suc n)
  show ?case
  proof (cases "name_eq name (ld_name (lfd_files d ! i))")
    case True
    then show ?thesis by (auto simp: not_le [symmetric])
  next
    case False
    have "(\<forall>k. i \<le> k \<and> k < e \<longrightarrow> \<not> name_eq name (ld_name (lfd_files d ! k))) \<longleftrightarrow> (\<forall>k. Suc i \<le> k \<and> k < e \<longrightarrow> \<not> name_eq name (ld_name (lfd_files d ! k)))"
      using False by (metis Suc_le_eq le_eq_less_or_eq)
    moreover have "i \<le> e \<and> name_eq name (ld_name (lfd_files d ! e)) \<longleftrightarrow> Suc i \<le> e \<and> name_eq name (ld_name (lfd_files d ! e))"
      using False by (metis Suc_le_eq le_eq_less_or_eq)
    ultimately show ?thesis using False Suc [of "Suc i"] by auto
  qed
qed auto

lemma find_slave_free: "find_slave is name f (Some j) = Some r \<Longrightarrow> r = Some j"
  by (induction "is") (auto split: if_splits)

lemma find_slave_remembered:
  assumes "\<forall>j \<in> set is. lfstate (lfltab f j) = LF_USED \<longrightarrow> \<not> name_eq name (lfname (lfltab f j))"
  shows "find_slave is name f (Some b) = Some (Some b)"
  using assms
proof (induction "is")
  case (Cons a as)
  then show ?case by (cases "lfstate (lfltab f a)") simp_all
qed simp

lemma find_slave_found:
  assumes "i \<in> set is" "lfstate (lfltab f i) = LF_FREE" "\<forall>j \<in> set is. lfstate (lfltab f j) = LF_USED \<longrightarrow> \<not> name_eq name (lfname (lfltab f j))"
  shows "\<exists>j. find_slave is name f lfnext = Some (Some j)"
  using assms(1,3)
proof (induction "is" arbitrary: lfnext)
  case (Cons a as)
  show ?case
  proof (cases "lfstate (lfltab f a)")
    case LF_FREE
    then show ?thesis using find_slave_remembered [of as f name] Cons.prems(2) by (cases lfnext) auto
  next
    case LF_USED
    then have "i \<in> set as" using Cons.prems(1) assms(2) by auto
    then show ?thesis using LF_USED Cons by simp
  qed
qed simp

lemma lfsopen_old:
  assumes "length name < 16" "lfgetmode mode = mbits" "mbits \<noteq> SYSERR" "mbits AND LF_MODE_N = 0" "find_slave [0..<6] name f None = Some (Some i)"
    and "mutex_free (lf_mutex f) k" "lf_dirpresent f" "find_name (nat (sint (lfd_nfiles (lf_dir f)))) 0 name (lf_dir f) = Some e"
  shows "lfsopen name mode f k = Some (Some (lfdev (lfltab f i)), lfs_init_file i e mbits name f, k)"
  using assms lock_free [of "lf_mutex f" k] unlock_held [of "lf_mutex f" k]
  by (simp add: lfsopen_def lfs_present_def Let_def lfs_init_file_def)

lemma lfsopen_new:
  assumes "length name < 16" "lfgetmode mode = mbits" "mbits \<noteq> SYSERR" "mbits AND LF_MODE_O = 0" "find_slave [0..<6] name f None = Some (Some i)"
    and m: "mutex_free (lf_mutex f) k" and pr: "lfs_present f = (OK, f1)" and n: "n = nat (sint (lfd_nfiles (lf_dir f1)))" "n < 20"
    and no: "find_name n 0 name (lf_dir f1) = None" and fr: "free_inv K f1 fi fd"
  obtains f' where "lfsopen name mode f k = Some (Some (lfdev (lfltab f i)), f', k)" "lfs_inv K f' i [] [] fi fd [] 0" "lfdirptr (lfltab f' i) = n"
    "name_copy name (ld_name (dirent f1 n)) = ld_name (dirent f' n)" "lfmutex (lfltab f' i) = lfmutex (lfltab f i)" "lf_mutex f' = lf_mutex f"
    "\<And>e. e \<noteq> n \<Longrightarrow> dirent f' e = dirent f1 e" "\<And>j. j \<noteq> i \<Longrightarrow> lfltab f' j = lfltab f j" "disk f' = disk f"
    "lf_dirpresent f'" "lfd_nfiles (lf_dir f') = lfd_nfiles (lf_dir f1) + 1"
proof -
  define f2 where "f2 = upd_dir (\<lambda>d. d\<lparr>lfd_nfiles := lfd_nfiles d + 1\<rparr>) f1"
  define f3 where "f3 = upd_ent n (\<lambda>e. e\<lparr>ld_size := 0, ld_name := name_copy name (ld_name e), ld_ilist := LF_INULL\<rparr>) f2"
  have p: "lfltab f1 = lfltab f" "lf_mutex f1 = lf_mutex f" "disk f1 = disk f" "lf_dirpresent f1"
    using pr by (auto simp: lfs_present_def Let_def split: if_splits)
  have fit: "dir_fit (lf_dir f2)" using fr by (simp add: free_inv_def f2_def dir_fit_def)
  have nm: "length (name_copy name old) = 16" if "length old = 16" for old using that assms(1) by (simp add: name_copy_def)
  have fit3: "dir_fit (lf_dir f3)" unfolding f3_def by (rule upd_ent_fit [OF fit]) (simp add: nm)
  have de2: "dirent f2 = dirent f1" by (simp add: f2_def dirent_def fun_eq_iff)
  note ent = dirent_upd_ent [OF fit n(2), of "\<lambda>e. e\<lparr>ld_size := 0, ld_name := name_copy name (ld_name e), ld_ilist := LF_INULL\<rparr>", folded f3_def, unfolded de2]
  have fr3: "free_inv K f3 fi fd" using fr fit3 by (simp add: free_inv_def f3_def f2_def)
  have st: "stored_file K f3 n [] [] []" using n(2) ent by (simp add: stored_file_def file_shape_def file_entry_def nth_null_def)
  note S = init_file_ok [where i = i and mbits = mbits and name = name, OF st fr3 _ _ refl]
  have g: "lfltab f3 = lfltab f" "lf_mutex f3 = lf_mutex f" "disk f3 = disk f" "lf_dirpresent f3" "lfd_nfiles (lf_dir f3) = lfd_nfiles (lf_dir f1) + 1"
    using p by (simp_all add: f3_def f2_def upd_ent_def upd_dir_def)
  have run: "lfsopen name mode f k = Some (Some (lfdev (lfltab f i)), lfs_init_file i n mbits name f3, k)"
    using assms(1-5) lock_free [OF m] unlock_held [OF m] pr no n g(1)
    by (simp add: lfsopen_def Let_def f2_def f3_def) (simp add: lfs_init_file_def)
  have pres: "lf_dirpresent (lfs_init_file i n mbits name f3)" using g(4) by (simp add: lfs_init_file_def upd_file_def)
  have de: "dirent (lfs_init_file i n mbits name f3) = dirent f3" by (simp add: lfs_init_file_def)
  show thesis
    by (rule that [OF run]) (use S g ent de pres in \<open>simp_all\<close>)
qed

section \<open>Formatting\<close>

lemma w32_small: "a < 4294967296 \<Longrightarrow> unat (of_nat a :: word32) = a" "Suc a < 4294967296 \<Longrightarrow> of_nat a + 1 = (of_nat (Suc a) :: word32)"
  by (simp_all add: unat_w32 add.commute)

lemma link_iblocks_ok:
  assumes "a + n < 7 * K" "K \<le> 199" "length (ib_dba ib) = 16"
  shows "ist.lseg (link_iblocks n (of_nat a) ib d) (of_nat a) (map of_nat [a..<Suc (a + n)]) LF_INULL \<and>
    (\<forall>c. islot K c \<and> unat c < a \<longrightarrow> lfibget c (link_iblocks n (of_nat a) ib d) = lfibget c d) \<and>
    (\<forall>b. on_disk b \<and> (b = 0 \<or> K < unat b) \<longrightarrow> ramread b (link_iblocks n (of_nat a) ib d) = ramread b d)"
  using assms
proof (induction n arbitrary: a d)
  case 0
  have s: "islot K (of_nat a)" using 0 by (simp add: islot_def unat_w32)
  have r: "ramread b (lfibput (of_nat a) v d) = ramread b d" if "on_disk b" "b = 0 \<or> K < unat b" for b v
    using that islotD(2-4) [OF s] by (auto simp: lfibput_def Let_def intro!: ramread_other)
  have "lfibget c (lfibput (of_nat a) (ib\<lparr>ib_next := - 1\<rparr>) d) = lfibget c d" if "islot K c" "unat c < a" for c
    using index_laws(1) [OF _ s that(1), of "ib\<lparr>ib_next := - 1\<rparr>" d] 0 that(2) w32_small(1) [of a] by auto
  then show ?case using index_laws(1) [OF _ s s, of "ib\<lparr>ib_next := - 1\<rparr>" d] 0 islotD(1) [OF s] r by simp
next
  case (Suc n)
  have s: "islot K (of_nat a)" using Suc.prems by (simp add: islot_def unat_w32)
  have w: "of_nat a + 1 = (of_nat (Suc a) :: word32)" using Suc.prems by (intro w32_small) simp
  define d1 where "d1 = lfibput (of_nat a) (ib\<lparr>ib_next := of_nat (Suc a)\<rparr>) d"
  have l: "length (ib_dba (ib\<lparr>ib_next := of_nat (Suc a)\<rparr>)) = 16" using Suc.prems(3) by simp
  have r: "ramread b d1 = ramread b d" if "on_disk b" "b = 0 \<or> K < unat b" for b
    using that islotD(2-4) [OF s] by (auto simp: d1_def lfibput_def Let_def intro!: ramread_other)
  have g: "lfibget c d1 = (if c = of_nat a then ib\<lparr>ib_next := of_nat (Suc a)\<rparr> else lfibget c d)" if "islot K c" for c
    unfolding d1_def by (rule index_laws(1) [OF l s that])
  have e: "link_iblocks (Suc n) (of_nat a) ib d = link_iblocks n (of_nat (Suc a)) ib d1" unfolding d1_def link_iblocks.simps w ..
  have IH: "ist.lseg (link_iblocks n (of_nat (Suc a)) ib d1) (of_nat (Suc a)) (map of_nat [Suc a..<Suc (Suc a + n)]) LF_INULL"
    "\<And>c. islot K c \<Longrightarrow> unat c < Suc a \<Longrightarrow> lfibget c (link_iblocks n (of_nat (Suc a)) ib d1) = lfibget c d1"
    "\<And>b. on_disk b \<Longrightarrow> b = 0 \<or> K < unat b \<Longrightarrow> ramread b (link_iblocks n (of_nat (Suc a)) ib d1) = ramread b d1"
    using Suc.IH [of "Suc a" d1] Suc.prems by auto
  have ua: "unat (of_nat a :: word32) = a" using Suc.prems by (intro unat_w32) simp
  have "[a..<Suc (a + Suc n)] = a # [Suc a..<Suc (Suc a + n)]" by (simp add: upt_conv_Cons)
  moreover have "lfibget (of_nat a) (link_iblocks n (of_nat (Suc a)) ib d1) = ib\<lparr>ib_next := of_nat (Suc a)\<rparr>" using IH(2) [OF s] g [OF s] ua by simp
  ultimately have "ist.lseg (link_iblocks (Suc n) (of_nat a) ib d) (of_nat a) (map of_nat [a..<Suc (a + Suc n)]) LF_INULL"
    using IH(1) islotD(1) [OF s] unfolding e by simp
  moreover have "lfibget c (link_iblocks (Suc n) (of_nat a) ib d) = lfibget c d" if "islot K c" "unat c < a" for c
    using IH(2) [OF that(1)] g [OF that(1)] that(2) ua unfolding e by auto
  moreover have "ramread b (link_iblocks (Suc n) (of_nat a) ib d) = ramread b d" if "on_disk b" "b = 0 \<or> K < unat b" for b
    using IH(3) [OF that] r [OF that] unfolding e by simp
  ultimately show ?case by blast
qed

lemma link_dblocks_ok:
  assumes "K < a" "a + n < 200"
  shows "dst.lseg (link_dblocks n (of_nat a) d) (of_nat a) (map of_nat [a..<Suc (a + n)]) LF_DNULL \<and>
    (\<forall>b. on_disk b \<and> unat b < a \<longrightarrow> ramread b (link_dblocks n (of_nat a) d) = ramread b d)"
  using assms
proof (induction n arbitrary: a d)
  case 0
  have ua: "unat (of_nat a :: word32) = a" using 0 by (intro unat_w32) simp
  then have o: "on_disk (of_nat a)" using 0 dslotD(1) [of K "of_nat a"] by (simp add: dslot_def)
  have "ramread b (ramwrite (of_nat a) v d) = ramread b d" if "on_disk b" "unat b < a" for b v
    by (rule ramread_other [OF o that(1)]) (use that(2) ua in auto)
  then show ?case using o by (simp add: ramread_same)
next
  case (Suc n)
  have ua: "unat (of_nat a :: word32) = a" using Suc.prems by (intro unat_w32) simp
  then have o: "on_disk (of_nat a)" using Suc.prems dslotD(1) [of K "of_nat a"] by (simp add: dslot_def)
  have w: "of_nat a + 1 = (of_nat (Suc a) :: word32)" using Suc.prems by (intro w32_small) simp
  define d1 where "d1 = ramwrite (of_nat a) (le32 (of_nat (Suc a)) @ replicate 508 0) d"
  have e: "link_dblocks (Suc n) (of_nat a) d = link_dblocks n (of_nat (Suc a)) d1" unfolding d1_def link_dblocks.simps w ..
  have r: "ramread b d1 = ramread b d" if "on_disk b" "unat b < a" for b
    unfolding d1_def by (rule ramread_other [OF o that(1)]) (use that(2) ua in auto)
  have IH: "dst.lseg (link_dblocks n (of_nat (Suc a)) d1) (of_nat (Suc a)) (map of_nat [Suc a..<Suc (Suc a + n)]) LF_DNULL"
    "\<And>b. on_disk b \<Longrightarrow> unat b < Suc a \<Longrightarrow> ramread b (link_dblocks n (of_nat (Suc a)) d1) = ramread b d1"
    using Suc.IH [of "Suc a" d1] Suc.prems by auto
  have "[a..<Suc (a + Suc n)] = a # [Suc a..<Suc (Suc a + n)]" by (simp add: upt_conv_Cons)
  moreover have "ramread (of_nat a) (link_dblocks n (of_nat (Suc a)) d1) = le32 (of_nat (Suc a)) @ replicate 508 0"
    using IH(2) [OF o] ua by (simp add: d1_def ramread_same)
  ultimately have "dst.lseg (link_dblocks (Suc n) (of_nat a) d) (of_nat a) (map of_nat [a..<Suc (a + Suc n)]) LF_DNULL"
    using IH(1) o unfolding e by simp
  moreover have "ramread b (link_dblocks (Suc n) (of_nat a) d) = ramread b d" if "on_disk b" "unat b < a" for b
    using IH(2) [OF that(1)] r [OF that] that(2) unfolding e by simp
  ultimately show ?case by blast
qed

definition fresh_dir :: "nat \<Rightarrow> lfdir" where
  "fresh_dir K = zero_dir\<lparr>lfd_fsysid := LFS_ID, lfd_nfiles := 0, lfd_allzeros := 0, lfd_allones := 0xffffffff, lfd_revid := revid, lfd_dfree := of_nat K + 1\<rparr>"

lemma de_zero: "n \<ge> 4 \<Longrightarrow> de32 (replicate n 0) = 0"
  by (simp add: de32_def)

lemma fresh_dir_facts: "dir_fit (fresh_dir K)" "lfd_ifree (fresh_dir K) = 0" "lfscheck (fresh_dir K) = OK" "lfd_nfiles (fresh_dir K) = 0"
proof -
  show "dir_fit (fresh_dir K)" by (auto simp: dir_fit_def fresh_dir_def zero_dir_def dir_decode_def ld_decode_def)
  show "lfd_ifree (fresh_dir K) = 0" by (simp add: fresh_dir_def zero_dir_def dir_decode_def de_zero)
qed (simp_all add: lfscheck_def fresh_dir_def)

text \<open>The blocks of a formatted disk of \<open>S\<close> sectors with \<open>K\<close> sectors of index blocks.\<close>

abbreviation (input) all_iblocks :: "nat \<Rightarrow> word32 list" where "all_iblocks K \<equiv> map of_nat [0..<7 * K]"
abbreviation (input) all_dblocks :: "nat \<Rightarrow> nat \<Rightarrow> word32 list" where "all_dblocks K S \<equiv> map of_nat [Suc K..<S]"

lemma blocks_distinct: "b \<le> 4294967296 \<Longrightarrow> distinct (map (of_nat :: nat \<Rightarrow> word32) [a..<b])"
  by (auto simp: distinct_map inj_on_def) (metis unat_w32 less_le_trans)

lemma lfscreate_ok:
  assumes S: "S = unat dsiz div 512" "3 \<le> S" "S \<le> 200" and K: "K = (unat lfiblks + 6) div 7" "0 < unat lfiblks" "K \<le> S div 2"
  obtains d' where "lfscreate lfiblks dsiz d = (OK, d')" "dir_decode (ramread 0 d') = fresh_dir K"
    "ist.lseg d' 0 (all_iblocks K) LF_INULL" "dst.lseg d' (of_nat (Suc K)) (all_dblocks K S) LF_DNULL"
proof -
  have k: "1 \<le> K" "K \<le> 100" "7 * K < 4294967296" using K S by auto
  have lb: "unat lfiblks \<le> 7 * K" using K(1) by linarith
  have sec: "dsiz div 512 = of_nat S" using S(3) by (simp add: word_unat_eq_iff unat_div S(1) [symmetric] unat_w32)
  have "unat (lfiblks + 6) = unat lfiblks + 6" using lb k by (simp add: unat_word_ariths)
  then have ibs: "(lfiblks + 6) div 7 = of_nat K" using k by (simp add: word_unat_eq_iff unat_div K(1) [symmetric] unat_w32)
  have si: "nat (sint (of_nat K * 7 :: word32) - 1) = 7 * K - 1"
  proof -
    have "of_nat K * 7 = (of_nat (7 * K) :: word32)" by (simp add: mult.commute)
    moreover have "uint (of_nat (7 * K) :: word32) = int (7 * K)" using unat_w32 [of "7 * K"] k uint_unat by metis
    ultimately have "uint (of_nat K * 7 :: word32) = int (7 * K)" by (simp only:)
    then have "sint (of_nat K * 7 :: word32) = int (7 * K)" using k sint_small [of "of_nat K * 7"] by simp
    then show ?thesis by simp
  qed
  have "of_nat S - of_nat K - 1 - 1 = (of_nat (S - K - 2) :: word32)" using K(3) S(2) by (simp add: of_nat_diff)
  moreover have "S - K - 2 < 4294967296" using S by simp
  ultimately have du: "unat (of_nat S - of_nat K - 1 - 1 :: word32) = S - K - 2" by (simp only: unat_w32)
  have half: "\<not> of_nat S div 2 < (of_nat K :: word32)"
    using K(3) S(3) k by (simp add: word_less_nat_alt unat_div unat_w32)
  define d1 where "d1 = ramwrite 0 (dir_encode (fresh_dir K)) d"
  define d2 where "d2 = link_iblocks (7 * K - 1) (of_nat 0) (lfibclear 0) d1"
  define d3 where "d3 = link_dblocks (S - K - 2) (of_nat (Suc K)) d2"
  have run: "lfscreate lfiblks dsiz d = (OK, d3)"
    unfolding lfscreate_def Let_def sec ibs si du using half
    by (simp add: d1_def d2_def d3_def fresh_dir_def add.commute)
  have L2: "ist.lseg d2 (of_nat 0) (map of_nat [0..<Suc (0 + (7 * K - 1))]) LF_INULL"
    "\<And>b. on_disk b \<Longrightarrow> b = 0 \<or> K < unat b \<Longrightarrow> ramread b d2 = ramread b d1"
    using link_iblocks_ok [of 0 "7 * K - 1" K "lfibclear 0" d1] k by (simp_all add: d2_def lfibclear_def)
  have L3: "dst.lseg d3 (of_nat (Suc K)) (map of_nat [Suc K..<Suc (Suc K + (S - K - 2))]) LF_DNULL"
    "\<And>b. on_disk b \<Longrightarrow> unat b < Suc K \<Longrightarrow> ramread b d3 = ramread b d2"
    using link_dblocks_ok [of K "Suc K" "S - K - 2" d2] K(3) S by (simp_all add: d3_def)
  have dir: "ramread 0 d3 = dir_encode (fresh_dir K)"
    using L3(2) [OF on_disk_0] L2(2) [OF on_disk_0] length_dir_encode [OF fresh_dir_facts(1)] by (simp add: d1_def ramread_same)
  have idx: "Suc (0 + (7 * K - 1)) = 7 * K" "Suc (Suc K + (S - K - 2)) = S" using k K(3) S by auto
  have "ist.lseg d3 (of_nat 0) (map of_nat [0..<7 * K]) LF_INULL"
  proof (rule ist.lseg_cong [OF L2(1) [unfolded idx]])
    fix c assume "c \<in> set (map of_nat [0..<7 * K] :: word32 list)"
    then have s: "islot K c" using k by (auto simp: islot_def unat_w32)
    show "lfibget c d3 = lfibget c d2" using L3(2) [OF islotD(2) [OF s]] islotD(3) [OF s] by (simp add: lfibget_def)
  qed
  then show thesis using that [OF run] dir dir_roundtrip [OF fresh_dir_facts(1)] L3(1) [unfolded idx] by simp
qed

lemma formatted_free:
  assumes "ist.lseg (disk f) 0 (all_iblocks K) LF_INULL" "dst.lseg (disk f) (of_nat (Suc K)) (all_dblocks K S) LF_DNULL" "lf_dir f = fresh_dir K" "K \<le> 100" "S \<le> 200"
  shows "free_inv K f (all_iblocks K) (all_dblocks K S)"
proof -
  have "lfd_dfree (fresh_dir K) = of_nat (Suc K)" by (simp add: fresh_dir_def add.commute)
  moreover have "islot K a" if "a \<in> set (all_iblocks K)" for a using that assms(4) by (auto simp: islot_def unat_w32)
  moreover have "dslot K b" if "b \<in> set (all_dblocks K S)" for b using that assms(5) by (auto simp: dslot_def unat_w32)
  ultimately show ?thesis
    using assms fresh_dir_facts(1,2) blocks_distinct [of "7 * K" 0] blocks_distinct [of S "Suc K"] unfolding free_inv_def by auto
qed

lemma count_iblocks_ok: "ist.lseg d p xs LF_INULL \<Longrightarrow> count_iblocks p n d = Some (n + of_nat (length xs))"
proof (induction xs arbitrary: p n)
  case Nil
  then show ?case by (subst count_iblocks.simps) simp
next
  case (Cons x xs)
  then have "p \<noteq> LF_INULL" using null_off_disk(1) by auto
  then show ?case using Cons by (subst count_iblocks.simps) (simp add: add.assoc)
qed

lemma count_dblocks_ok: "dst.lseg d p xs LF_DNULL \<Longrightarrow> count_dblocks p n d = Some (n + of_nat (length xs))"
proof (induction xs arbitrary: p n)
  case Nil
  then show ?case by (subst count_dblocks.simps) simp
next
  case (Cons x xs)
  then have "p \<noteq> LF_DNULL" using null_off_disk(2) by auto
  then show ?case using Cons by (subst count_dblocks.simps) (simp add: add.assoc)
qed

end
