(* ===== verification/Devices.thy ===== *)
theory Devices
  imports Namespace Lfs_Admin Tty
begin

text \<open>
  The device-independent operations \<^verbatim>\<open>open\<close>, \<^verbatim>\<open>close\<close>, \<^verbatim>\<open>read\<close>, \<^verbatim>\<open>write\<close>, \<^verbatim>\<open>getc\<close>, \<^verbatim>\<open>putc\<close>, \<^verbatim>\<open>seek\<close>, \<^verbatim>\<open>control\<close> and
  \<^verbatim>\<open>init\<close> of \<^verbatim>\<open>system/\<close>, which check the descriptor and call the procedure in the device table, and the procedures of the terminal, the RAM
  disk, the namespace and the local file system behind them. The procedures of the other devices are the argument \<open>drv\<close>, which is given
  the procedure, the table entry and the remaining arguments.

  The state holds what these devices work on. A result of \<^term>\<open>None\<close> is a call that does not return because the system panics or
  the fuel of nested opens is used up; \<^term>\<open>Some (None, s)\<close> is a caller that is blocked.
\<close>

record sysst =
  sy_mem :: bmem
  sy_kern :: kernel
  sy_tty :: tty
  sy_fs :: lfs
  sy_names :: names

type_synonym io = "(int option \<times> sysst) option"
type_synonym driver = "devproc \<Rightarrow> dentry \<Rightarrow> int list \<Rightarrow> sysst \<Rightarrow> io"
type_synonym opener = "devproc \<Rightarrow> dentry \<Rightarrow> bmem \<Rightarrow> string \<Rightarrow> sysst \<Rightarrow> io"

definition ionull :: "sysst \<Rightarrow> io" where
  "ionull s = Some (Some OK, s)"

definition ioerr :: "sysst \<Rightarrow> io" where
  "ioerr s = Some (Some SYSERR, s)"

definition ramopen :: "dentry \<Rightarrow> sysst \<Rightarrow> io" where
  "ramopen d s = Some (Some (dvnum d), s)"

definition ramclose :: "sysst \<Rightarrow> io" where
  "ramclose s = Some (Some OK, s)"

text \<open>The results of the drivers, put into the state.\<close>

fun of_tty :: "sysst \<Rightarrow> int option \<times> tty \<times> kernel \<Rightarrow> io" where
  "of_tty s (r, t, k) = Some (r, s\<lparr>sy_tty := t, sy_kern := k\<rparr>)"

fun of_tty_mem :: "sysst \<Rightarrow> (int \<times> bmem) option \<times> tty \<times> kernel \<Rightarrow> io" where
  "of_tty_mem s (None, t, k) = Some (None, s\<lparr>sy_tty := t, sy_kern := k\<rparr>)"
| "of_tty_mem s (Some (r, m), t, k) = Some (Some r, s\<lparr>sy_tty := t, sy_kern := k, sy_mem := m\<rparr>)"

fun of_lfs :: "sysst \<Rightarrow> int outcome \<Rightarrow> io" where
  "of_lfs s None = None"
| "of_lfs s (Some (r, f, k)) = Some (r, s\<lparr>sy_fs := f, sy_kern := k\<rparr>)"

fun of_lfs_mem :: "sysst \<Rightarrow> (int \<times> bmem) outcome \<Rightarrow> io" where
  "of_lfs_mem s None = None"
| "of_lfs_mem s (Some (None, f, k)) = Some (None, s\<lparr>sy_fs := f, sy_kern := k\<rparr>)"
| "of_lfs_mem s (Some (Some (r, m), f, k)) = Some (Some r, s\<lparr>sy_fs := f, sy_kern := k, sy_mem := m\<rparr>)"

abbreviation (input) entry_of :: "int \<Rightarrow> dentry" where "entry_of descrp \<equiv> devtab ! nat descrp"
abbreviation (input) minor :: "dentry \<Rightarrow> nat" where "minor d \<equiv> nat (dvminor d)"

section \<open>Opening\<close>

text \<open>\<open>tmp0\<close> and \<open>new0\<close> are what the local arrays of \<^verbatim>\<open>nammap\<close> and \<^verbatim>\<open>namopen\<close> hold at first; \<open>opn\<close> is \<^verbatim>\<open>open\<close>.\<close>

definition namopen :: "(int \<Rightarrow> bmem \<Rightarrow> string \<Rightarrow> sysst \<Rightarrow> io) \<Rightarrow> bmem \<Rightarrow> bmem \<Rightarrow> dentry \<Rightarrow> bmem \<Rightarrow> string \<Rightarrow> sysst \<Rightarrow> io" where
  "namopen opn tmp0 new0 d name mode s =
     (case nammap (sy_names s) tmp0 name new0 (dvnum d) of
        None \<Rightarrow> None
      | Some (newdev, newname) \<Rightarrow> if newdev = SYSERR then Some (Some SYSERR, s) else opn newdev newname mode s)"

text \<open>\<^verbatim>\<open>lfsopen\<close> looks at no more than the first \<^verbatim>\<open>LF_NAME_LEN\<close> characters of a name.\<close>

definition name_chars :: "bmem \<Rightarrow> byte list" where
  "name_chars name = takeWhile (\<lambda>c. c \<noteq> 0) (map name [0..<16])"

text \<open>Opening a name in the namespace opens another device; \<open>n\<close> bounds how deep this nests.\<close>

fun open_dev :: "nat \<Rightarrow> opener \<Rightarrow> bmem \<Rightarrow> bmem \<Rightarrow> int \<Rightarrow> bmem \<Rightarrow> string \<Rightarrow> sysst \<Rightarrow> io" where
  "open_dev 0 drv tmp0 new0 descrp name mode s = None"
| "open_dev (Suc n) drv tmp0 new0 descrp name mode s =
     (if isbaddev descrp then Some (Some SYSERR, s)
      else
        let d = entry_of descrp in
        case dvopen d of
          Ionull \<Rightarrow> ionull s
        | Ioerr \<Rightarrow> ioerr s
        | Ramopen \<Rightarrow> ramopen d s
        | Lfsopen \<Rightarrow> of_lfs s (lfsopen (name_chars name) mode (sy_fs s) (sy_kern s))
        | Namopen \<Rightarrow> namopen (open_dev n drv tmp0 new0) tmp0 new0 d name mode s
        | p \<Rightarrow> drv p d name mode s)"

section \<open>The other operations\<close>

definition close_dev :: "driver \<Rightarrow> int \<Rightarrow> sysst \<Rightarrow> io" where
  "close_dev drv descrp s =
     (if isbaddev descrp then Some (Some SYSERR, s)
      else
        let d = entry_of descrp in
        case dvclose d of
          Ionull \<Rightarrow> ionull s
        | Ioerr \<Rightarrow> ioerr s
        | Ramclose \<Rightarrow> ramclose s
        | Lflclose \<Rightarrow> of_lfs s (lflclose (minor d) (sy_fs s) (sy_kern s))
        | p \<Rightarrow> drv p d [] s)"

definition read_dev :: "driver \<Rightarrow> int \<Rightarrow> nat \<Rightarrow> word32 \<Rightarrow> sysst \<Rightarrow> io" where
  "read_dev drv descrp buffer count s =
     (if isbaddev descrp then Some (Some SYSERR, s)
      else
        let d = entry_of descrp in
        case dvread d of
          Ionull \<Rightarrow> ionull s
        | Ioerr \<Rightarrow> ioerr s
        | Ttyread \<Rightarrow> of_tty_mem s (ttyread (sy_mem s) buffer (sint count) (sy_tty s) (sy_kern s))
        | Ramread \<Rightarrow> Some (Some OK, s\<lparr>sy_mem := (\<lambda>a. if buffer \<le> a \<and> a < buffer + 512 then ramread count (disk (sy_fs s)) ! (a - buffer) else sy_mem s a)\<rparr>)
        | Lflread \<Rightarrow> of_lfs_mem s (lflread (minor d) (sy_mem s) buffer (sint count) (sy_fs s) (sy_kern s))
        | p \<Rightarrow> drv p d [int buffer, uint count] s)"

definition write_dev :: "driver \<Rightarrow> int \<Rightarrow> nat \<Rightarrow> word32 \<Rightarrow> sysst \<Rightarrow> io" where
  "write_dev drv descrp buffer count s =
     (if isbaddev descrp then Some (Some SYSERR, s)
      else
        let d = entry_of descrp in
        case dvwrite d of
          Ionull \<Rightarrow> ionull s
        | Ioerr \<Rightarrow> ioerr s
        | Ttywrite \<Rightarrow> of_tty s (ttywrite (sy_mem s) buffer (sint count) (sy_tty s) (sy_kern s))
        | Ramwrite \<Rightarrow> Some (Some OK, s\<lparr>sy_fs := (sy_fs s)\<lparr>disk := ramwrite count (map (sy_mem s) [buffer..<buffer + 512]) (disk (sy_fs s))\<rparr>\<rparr>)
        | Lflwrite \<Rightarrow> of_lfs s (lflwrite (minor d) (sy_mem s) buffer (sint count) (sy_fs s) (sy_kern s))
        | p \<Rightarrow> drv p d [int buffer, uint count] s)"

definition getc_dev :: "driver \<Rightarrow> int \<Rightarrow> sysst \<Rightarrow> io" where
  "getc_dev drv descrp s =
     (if isbaddev descrp then Some (Some SYSERR, s)
      else
        let d = entry_of descrp in
        case dvgetc d of
          Ionull \<Rightarrow> ionull s
        | Ioerr \<Rightarrow> ioerr s
        | Ttygetc \<Rightarrow> of_tty s (ttygetc (sy_tty s) (sy_kern s))
        | Lflgetc \<Rightarrow> of_lfs s (lflgetc (minor d) (sy_fs s) (sy_kern s))
        | p \<Rightarrow> drv p d [] s)"

definition putc_dev :: "driver \<Rightarrow> int \<Rightarrow> byte \<Rightarrow> sysst \<Rightarrow> io" where
  "putc_dev drv descrp ch s =
     (if isbaddev descrp then Some (Some SYSERR, s)
      else
        let d = entry_of descrp in
        case dvputc d of
          Ionull \<Rightarrow> ionull s
        | Ioerr \<Rightarrow> ioerr s
        | Ttyputc \<Rightarrow> of_tty s (ttyputc ch (sy_tty s) (sy_kern s))
        | Lflputc \<Rightarrow> of_lfs s (lflputc (minor d) ch (sy_fs s) (sy_kern s))
        | p \<Rightarrow> drv p d [uint ch] s)"

definition seek_dev :: "driver \<Rightarrow> int \<Rightarrow> word32 \<Rightarrow> sysst \<Rightarrow> io" where
  "seek_dev drv descrp pos s =
     (if isbaddev descrp then Some (Some SYSERR, s)
      else
        let d = entry_of descrp in
        case dvseek d of
          Ionull \<Rightarrow> ionull s
        | Ioerr \<Rightarrow> ioerr s
        | Lflseek \<Rightarrow> of_lfs s (lflseek (minor d) pos (sy_fs s) (sy_kern s))
        | p \<Rightarrow> drv p d [uint pos] s)"

definition control_dev :: "driver \<Rightarrow> (word32 \<Rightarrow> byte list) \<Rightarrow> int \<Rightarrow> int \<Rightarrow> int \<Rightarrow> int \<Rightarrow> sysst \<Rightarrow> io" where
  "control_dev drv junk descrp func arg1 arg2 s =
     (if isbaddev descrp then Some (Some SYSERR, s)
      else
        let d = entry_of descrp in
        case dvcntl d of
          Ionull \<Rightarrow> ionull s
        | Ioerr \<Rightarrow> ioerr s
        | Ttycontrol \<Rightarrow> of_tty s (ttycontrol func (sy_tty s) (sy_kern s))
        | Lflcontrol \<Rightarrow> of_lfs s (lflcontrol junk (minor d) func (sy_fs s) (sy_kern s))
        | p \<Rightarrow> drv p d [func, arg1, arg2] s)"

definition init_dev :: "driver \<Rightarrow> bmem \<Rightarrow> int \<Rightarrow> sysst \<Rightarrow> io" where
  "init_dev drv tmp0 descrp s =
     (if isbaddev descrp then Some (Some SYSERR, s)
      else
        let d = entry_of descrp in
        case dvinit d of
          Ionull \<Rightarrow> ionull s
        | Ttyinit \<Rightarrow> (let (t, k) = ttyinit (sy_tty s) (sy_kern s) in Some (Some OK, s\<lparr>sy_tty := t, sy_kern := k\<rparr>))
        | Raminit \<Rightarrow>
            (let f = sy_fs s; m = raminit (\<lambda>a. disk f (int a))
             in Some (Some OK, s\<lparr>sy_fs := f\<lparr>disk := (\<lambda>a. if 0 \<le> a \<and> a < 102400 then m (nat a) else disk f a)\<rparr>\<rparr>))
        | Lfsinit \<Rightarrow> (let (f, k) = lfsinit (sy_fs s) (sy_kern s) in Some (Some OK, s\<lparr>sy_fs := f, sy_kern := k\<rparr>))
        | Lflinit \<Rightarrow> (let (f, k) = lflinit (minor d) (dvnum d) (sy_fs s) (sy_kern s) in Some (Some OK, s\<lparr>sy_fs := f, sy_kern := k\<rparr>))
        | Naminit \<Rightarrow> (let (r, ns) = naminit tmp0 (sy_names s) in Some (Some r, s\<lparr>sy_names := ns\<rparr>))
        | p \<Rightarrow> drv p d [] s)"

section \<open>Which procedure a descriptor leads to\<close>

lemma lfile_entry:
  assumes "i < 6"
  shows "dvminor (devtab ! (22 + i)) = int i" "dvclose (devtab ! (22 + i)) = Lflclose" "dvread (devtab ! (22 + i)) = Lflread"
    "dvwrite (devtab ! (22 + i)) = Lflwrite" "dvseek (devtab ! (22 + i)) = Lflseek" "dvgetc (devtab ! (22 + i)) = Lflgetc"
    "dvputc (devtab ! (22 + i)) = Lflputc" "dvcntl (devtab ! (22 + i)) = Lflcontrol" "dvinit (devtab ! (22 + i)) = Lflinit"
proof -
  have "i = 0 \<or> i = 1 \<or> i = 2 \<or> i = 3 \<or> i = 4 \<or> i = 5" using assms by auto
  then show "dvminor (devtab ! (22 + i)) = int i" "dvclose (devtab ! (22 + i)) = Lflclose" "dvread (devtab ! (22 + i)) = Lflread"
    "dvwrite (devtab ! (22 + i)) = Lflwrite" "dvseek (devtab ! (22 + i)) = Lflseek" "dvgetc (devtab ! (22 + i)) = Lflgetc"
    "dvputc (devtab ! (22 + i)) = Lflputc" "dvcntl (devtab ! (22 + i)) = Lflcontrol" "dvinit (devtab ! (22 + i)) = Lflinit"
    by (auto simp: devtab_def dentry.defs)
qed

lemma lfile_dev: "i < 6 \<Longrightarrow> \<not> isbaddev (22 + int i) \<and> nat (22 + int i) = 22 + i"
  by (simp add: isbaddev_def nat_add_distrib)

lemma lfile_ops:
  assumes "i < 6"
  shows "close_dev drv (22 + int i) s = of_lfs s (lflclose i (sy_fs s) (sy_kern s))"
    "read_dev drv (22 + int i) b c s = of_lfs_mem s (lflread i (sy_mem s) b (sint c) (sy_fs s) (sy_kern s))"
    "write_dev drv (22 + int i) b c s = of_lfs s (lflwrite i (sy_mem s) b (sint c) (sy_fs s) (sy_kern s))"
    "seek_dev drv (22 + int i) q s = of_lfs s (lflseek i q (sy_fs s) (sy_kern s))"
    "getc_dev drv (22 + int i) s = of_lfs s (lflgetc i (sy_fs s) (sy_kern s))"
    "putc_dev drv (22 + int i) ch s = of_lfs s (lflputc i ch (sy_fs s) (sy_kern s))"
    "control_dev drv junk (22 + int i) func a1 a2 s = of_lfs s (lflcontrol junk i func (sy_fs s) (sy_kern s))"
  using lfile_entry [OF assms] lfile_dev [OF assms]
  by (simp_all add: close_dev_def read_dev_def write_dev_def seek_dev_def getc_dev_def putc_dev_def control_dev_def)

section \<open>Nested opens end\<close>

lemma namopen_only: "\<forall>d \<in> set devtab. dvopen d = Namopen \<longrightarrow> dvnum d = NAMESPACE"
  by (simp add: devtab_def dentry.defs)

lemma entry_num: "\<not> isbaddev d \<Longrightarrow> entry_of d \<in> set devtab \<and> dvnum (entry_of d) = d"
  using devtab_num [of "nat d"] by (auto simp: isbaddev_def)

lemma nammap_loop_other: "nammap_loop n ns tmpname newname namdev = Some (d, m) \<Longrightarrow> 0 \<le> namdev \<Longrightarrow> d \<noteq> namdev"
proof (induction n arbitrary: tmpname newname)
  case (Suc n)
  then show ?case by (auto split: option.splits prod.splits if_splits)
qed auto

lemma nammap_other: "nammap ns tmp0 name newname namdev = Some (d, m) \<Longrightarrow> 0 \<le> namdev \<Longrightarrow> d \<noteq> namdev"
  using nammap_loop_other by (auto simp: nammap_def split: prod.splits if_splits)

lemma open_other_fuel:
  assumes "d \<noteq> NAMESPACE"
  shows "open_dev (Suc n) drv tmp0 new0 d name mode s = open_dev 1 drv tmp0 new0 d name mode s"
proof (cases "isbaddev d")
  case False
  then have "dvopen (entry_of d) \<noteq> Namopen" using namopen_only entry_num [OF False] assms by auto
  then show ?thesis using False by (simp add: Let_def split: devproc.splits)
qed simp

lemma open_fuel: "open_dev (Suc (Suc n)) drv tmp0 new0 d name mode s = open_dev 2 drv tmp0 new0 d name mode s"
proof (cases "d = NAMESPACE")
  case True
  have e: "dvopen (devtab ! 7) = Namopen" "dvnum (devtab ! 7) = NAMESPACE" by (simp_all add: devtab_def dentry.defs)
  have "namopen (open_dev (Suc n) drv tmp0 new0) tmp0 new0 (devtab ! 7) name mode s =
      namopen (open_dev 1 drv tmp0 new0) tmp0 new0 (devtab ! 7) name mode s"
  proof (cases "nammap (sy_names s) tmp0 name new0 NAMESPACE")
    case (Some v)
    then obtain nd nm where v: "nammap (sy_names s) tmp0 name new0 NAMESPACE = Some (nd, nm)" by (cases v) auto
    then have "nd \<noteq> NAMESPACE" using nammap_other by fastforce
    then show ?thesis using v open_other_fuel [of nd n] by (simp add: namopen_def e(2) del: open_dev.simps)
  qed (simp add: namopen_def e(2))
  then show ?thesis using True e(1) by (simp add: isbaddev_def Let_def numeral_2_eq_2)
next
  case False
  then show ?thesis using open_other_fuel [OF False, of "Suc n"] open_other_fuel [OF False, of 1] by (simp only: numeral_2_eq_2 One_nat_def)
qed

section \<open>Opening by name\<close>

lemma bytes_at_map: "bytes_at m p ys \<Longrightarrow> map m [p..<p + length ys] = ys"
proof (induction ys arbitrary: p)
  case (Cons y ys)
  then show ?case using Cons.IH [of "Suc p"] upt_conv_Cons [of p "p + length (y # ys)"] by (simp del: upt_Suc)
qed simp

lemma name_chars_ok: "cstr name 0 xs \<Longrightarrow> length xs < 16 \<Longrightarrow> name_chars name = xs"
proof -
  assume c: "cstr name 0 xs" and l: "length xs < 16"
  have z: "0 \<notin> set xs" and m: "map name [0..<Suc (length xs)] = xs @ [0]"
    using c bytes_at_map [of name 0 "xs @ [0]"] by (simp_all add: cstr_bytes)
  have "[0..<16] = [0..<Suc (length xs)] @ [Suc (length xs)..<16]" using l by (metis Suc_leI le_add_diff_inverse upt_add_eq_append zero_le)
  then have "map name [0..<16] = xs @ 0 # map name [Suc (length xs)..<16]" using m by simp
  moreover have "takeWhile (\<lambda>c. c \<noteq> 0) (xs @ 0 # ys) = xs" for ys using z by (induction xs) auto
  ultimately show ?thesis by (simp add: name_chars_def)
qed

lemma name_chars_long: "cstr name 0 xs \<Longrightarrow> 16 \<le> length xs \<Longrightarrow> name_chars name = take 16 xs"
proof -
  assume c: "cstr name 0 xs" and l: "16 \<le> length xs"
  have "bytes_at name 0 (take 16 xs @ drop 16 xs @ [0])" using c by (simp add: cstr_bytes flip: append_assoc)
  then have "map name [0..<16] = take 16 xs" using bytes_at_map [of name 0 "take 16 xs"] l by (simp add: bytes_at_append)
  moreover have "0 \<notin> set (take 16 xs)" using c by (auto simp: cstr_bytes dest: in_set_takeD)
  ultimately show ?thesis by (auto simp: name_chars_def takeWhile_eq_all_conv)
qed

text \<open>A name that the table maps to the local file system is opened there.\<close>

lemma open_mapped_local:
  assumes "names_rep (sy_names s) tab" "cstr name 0 xs" "ns_find tab xs = Some (p, r, LFILESYS)" "length xs < 255"
    and "length r + (length xs - length p) < 16"
  shows "open_dev (Suc (Suc n)) drv tmp0 new0 NAMESPACE name mode s =
    of_lfs s (lfsopen (r @ drop (length p) xs) mode (sy_fs s) (sy_kern s))"
proof -
  have ne: "tab \<noteq> []" using assms(3) by auto
  have "mapped (Some (LFILESYS, r @ drop (length p) xs)) new0 (nammap (sy_names s) tmp0 name new0 NAMESPACE)"
    using nammap_ok [OF assms(1,2), of NAMESPACE new0 tmp0] map_once [OF assms(3), of NAMESPACE] assms(4,5) ne by simp
  then obtain m' where m: "nammap (sy_names s) tmp0 name new0 NAMESPACE = Some (LFILESYS, m')" "cstr m' 0 (r @ drop (length p) xs)"
    by (auto simp: mapped_def)
  have e: "dvopen (devtab ! 7) = Namopen" "dvnum (devtab ! 7) = NAMESPACE" "dvopen (devtab ! 21) = Lfsopen" by (simp_all add: devtab_def dentry.defs)
  have "open_dev (Suc n) drv tmp0 new0 LFILESYS m' mode s = of_lfs s (lfsopen (r @ drop (length p) xs) mode (sy_fs s) (sy_kern s))"
    using name_chars_ok [OF m(2)] assms(5) e(3) by (simp add: isbaddev_def Let_def)
  then show ?thesis using m(1) e by (simp add: isbaddev_def Let_def namopen_def del: open_dev.simps add: open_dev.simps(2) [of "Suc n"])
qed

end
