(* ===== verification/Lfs_Props.thy ===== *)
theory Lfs_Props
  imports Sample_States Lfs_Admin
begin

text \<open>
  What the local file system promises, applied to a RAM disk of 200 sectors formatted with 14 index blocks and to a new file on it.
\<close>

section \<open>A formatted disk and a new file\<close>

definition disk0 :: ram where "disk0 = snd (lfscreate 14 102400 (\<lambda>_. 0))"

definition slot0 :: lflcblk where
  "slot0 = \<lparr>lfstate = LF_FREE, lfdev = 0, lfmutex = 1, lfdirptr = 20, lfmode = 0, lfpos = 0, lfname = replicate 16 0, lfinum = - 1,
     lfiblock = ib_decode (replicate 72 0), lfdnum = 0, lfdblock = replicate 512 0, lfbyte = 512, lfibdirty = False, lfdbdirty = False\<rparr>"

definition fs0 :: lfs where
  "fs0 = \<lparr>disk = disk0, lf_dskdev = 9, lf_mutex = 0, lf_dir = zero_dir, lf_dirpresent = False, lf_dirdirty = False,
     lfltab = \<lambda>i. slot0\<lparr>lfdev := 22 + int i\<rparr>\<rparr>"

definition kern0 :: kernel where
  "kern0 = upd_sem 1 (\<lambda>e. e\<lparr>sstate := S_USED, scount := 1\<rparr>) (upd_sem 0 (\<lambda>e. e\<lparr>sstate := S_USED, scount := 1\<rparr>) idle)"

lemma kern0_mutexes: "mutex_free 0 kern0" "mutex_free 1 kern0"
  by (simp_all add: mutex_free_def kern0_def)

lemma disk0_formatted:
  "lfscreate 14 102400 (\<lambda>_. 0) = (OK, disk0)" "dir_decode (ramread 0 disk0) = fresh_dir 2"
  "ist.lseg disk0 0 (all_iblocks 2) LF_INULL" "dst.lseg disk0 (of_nat (Suc 2)) (all_dblocks 2 200) LF_DNULL"
proof -
  obtain d' where "lfscreate 14 102400 (\<lambda>_. 0) = (OK, d')" "dir_decode (ramread 0 d') = fresh_dir 2"
    "ist.lseg d' 0 (all_iblocks 2) LF_INULL" "dst.lseg d' (of_nat (Suc 2)) (all_dblocks 2 200) LF_DNULL"
    by (rule lfscreate_ok [of 200 102400 2 14 "\<lambda>_. 0"]) simp_all
  then show "lfscreate 14 102400 (\<lambda>_. 0) = (OK, disk0)" "dir_decode (ramread 0 disk0) = fresh_dir 2"
    "ist.lseg disk0 0 (all_iblocks 2) LF_INULL" "dst.lseg disk0 (of_nat (Suc 2)) (all_dblocks 2 200) LF_DNULL"
    by (simp_all add: disk0_def)
qed

definition file0 :: lfs where "file0 = fst (snd (the (lfsopen [97] ''rwn'' fs0 kern0)))"

lemma file0_open:
  "lfsopen [97] ''rwn'' fs0 kern0 = Some (Some 22, file0, kern0)" "lfs_inv 2 file0 0 [] [] (all_iblocks 2) (all_dblocks 2 200) [] 0"
  "mutexes_free 0 file0 kern0" "find_name (nat (sint (lfd_nfiles (lf_dir file0)))) 0 [97] (lf_dir file0) = Some 0" "lfdirptr (lfltab file0 0) = 0"
  "\<And>j. j \<noteq> 0 \<Longrightarrow> lfltab file0 j = slot0\<lparr>lfdev := 22 + int j\<rparr>" "lf_dirpresent file0" "lf_mutex file0 = 0"
proof -
  define f1 where "f1 = fs0\<lparr>lf_dir := fresh_dir 2, lf_dirpresent := True\<rparr>"
  have pr: "lfs_present fs0 = (OK, f1)" using disk0_formatted(2) fresh_dir_facts(3) [of 2] by (simp add: lfs_present_def fs0_def f1_def Let_def)
  have fr: "free_inv 2 f1 (all_iblocks 2) (all_dblocks 2 200)"
    by (rule formatted_free) (use disk0_formatted in \<open>simp_all add: f1_def fs0_def\<close>)
  have md: "lfgetmode ''rwn'' = 7" by (simp add: lfgetmode_def)
  have sl: "find_slave [0..<6] [97] fs0 None = Some (Some 0)" by (simp add: fs0_def slot0_def upt_rec)
  have nf: "lfd_nfiles (lf_dir f1) = 0" using fresh_dir_facts(4) by (simp add: f1_def)
  obtain f' where o: "lfsopen [97] ''rwn'' fs0 kern0 = Some (Some (lfdev (lfltab fs0 0)), f', kern0)" "lfs_inv 2 f' 0 [] [] (all_iblocks 2) (all_dblocks 2 200) [] 0"
    "lfdirptr (lfltab f' 0) = 0" "name_copy [97] (ld_name (dirent f1 0)) = ld_name (dirent f' 0)" "lfmutex (lfltab f' 0) = lfmutex (lfltab fs0 0)"
    "lf_mutex f' = lf_mutex fs0" "\<And>e. e \<noteq> 0 \<Longrightarrow> dirent f' e = dirent f1 e" "\<And>j. j \<noteq> 0 \<Longrightarrow> lfltab f' j = lfltab fs0 j" "disk f' = disk fs0"
    "lf_dirpresent f'" "lfd_nfiles (lf_dir f') = lfd_nfiles (lf_dir f1) + 1"
    by (rule lfsopen_new [of "[97]" "''rwn''" 7 fs0 0 kern0 f1 0 2]) (use md sl pr fr nf kern0_mutexes in \<open>simp_all add: fs0_def\<close>)
  have [simp]: "file0 = f'" using o(1) by (simp add: file0_def)
  show "lfsopen [97] ''rwn'' fs0 kern0 = Some (Some 22, file0, kern0)" using o(1) by (simp add: fs0_def)
  show "lfs_inv 2 file0 0 [] [] (all_iblocks 2) (all_dblocks 2 200) [] 0" "lfdirptr (lfltab file0 0) = 0" using o by simp_all
  show "mutexes_free 0 file0 kern0" using o(5,6) kern0_mutexes by (simp add: mutexes_free_def fs0_def slot0_def)
  show "\<And>j. j \<noteq> 0 \<Longrightarrow> lfltab file0 j = slot0\<lparr>lfdev := 22 + int j\<rparr>" "lf_dirpresent file0" "lf_mutex file0 = 0" using o(6,8,10) by (simp_all add: fs0_def)
  have "name_eq [97] (ld_name (lfd_files (lf_dir f') ! 0))" using o(4) name_eq_copy [of "[97]" "[97]" "ld_name (dirent f1 0)"] by (simp add: dirent_def)
  then show "find_name (nat (sint (lfd_nfiles (lf_dir file0)))) 0 [97] (lf_dir file0) = Some 0" using o(11) nf by simp
qed

section \<open>Reading and writing\<close>

text \<open>C33: An open file is a byte sequence with a position. Writing puts the bytes at the position, over old ones and beyond the end; after
  moving the position, reading returns the bytes that are there then, as many as asked for or as there are, and changes no
  other memory. The calls return as long as there are blocks for the new bytes, whatever block boundaries they cross.\<close>

theorem lfs_write_read:
  assumes "lfs_inv K f i ibs ds fi fd xs p" "mutexes_free i f k" "bytes_at m buff cs" "cs \<noteq> []" "room (p + length cs - 1) ibs ds fi fd"
    and "ys = write_list p cs xs" "unat q < length ys" "zs = take (Suc n) (drop (unat q) ys)"
  shows "\<exists>f1 f2 f3 m'. lflwrite i m buff (int (length cs)) f k = Some (Some (int (length cs)), f1, k) \<and> lflseek i q f1 k = Some (Some OK, f2, k) \<and>
    lflread i m buff' (int (Suc n)) f2 k = Some (Some (int (length zs), m'), f3, k) \<and> bytes_at m' buff' zs \<and> writes m m' buff' (length zs)"
proof -
  obtain f1 ibs1 ds1 fi1 fd1 where w: "lflwrite_loop (length cs) (int (length cs)) m buff i f k = Some (Some (int (length cs)), f1, k)"
    "lfs_inv K f1 i ibs1 ds1 fi1 fd1 ys (p + length cs)" "only K i (set (ibs @ fi)) (set (ds @ fd)) f f1"
    using lflwrite_loop_ok [OF assms(1-3), of "int (length cs)"] assms(5,6) by blast
  note m1 = only_mutexes [OF w(3) assms(2)]
  obtain f2 where s: "lflseek i q f1 k = Some (Some OK, f2, k)" "lfs_inv K f2 i ibs1 ds1 fi1 fd1 ys (unat q)" "only K i {} {} f1 f2"
    by (rule lflseek_ok [OF w(2) m1 less_imp_le [OF assms(7)]])
  note m2 = only_mutexes [OF s(3) m1]
  obtain f3 m' where r: "lflread_loop (Suc n) 0 m buff' i f2 k = Some (Some (0 + int (length zs), m'), f3, k)" "bytes_at m' buff' zs" "writes m m' buff' (length zs)"
    using lflread_loop_ok [OF s(2) m2, of 0 "Suc n" m buff'] assms(7,8) by blast
  show ?thesis using w(1) s(1) r by (intro exI [of _ f1] exI [of _ f2] exI [of _ f3] exI [of _ m']) (simp add: lflwrite_def lflread_def nat_add_distrib del: lflread_loop.simps)
qed

theorem lfs_write_read_witness:
  "\<exists>f1 f2 f3 m'. lflwrite 0 ((\<lambda>_. 0)(10 := 104, 11 := 105)) 10 2 file0 kern0 = Some (Some 2, f1, kern0) \<and> lflseek 0 1 f1 kern0 = Some (Some OK, f2, kern0) \<and>
     lflread 0 ((\<lambda>_. 0)(10 := 104, 11 := 105)) 50 5 f2 kern0 = Some (Some (1, m'), f3, kern0) \<and> m' 50 = 105 \<and> m' 51 = 0"
proof -
  let ?m = "(\<lambda>_. 0)(10 := 104, 11 := 105) :: bmem"
  have "\<exists>f1 f2 f3 m'. lflwrite 0 ?m 10 (int (length [104, 105 :: byte])) file0 kern0 = Some (Some (int (length [104, 105 :: byte])), f1, kern0) \<and>
    lflseek 0 1 f1 kern0 = Some (Some OK, f2, kern0) \<and>
    lflread 0 ?m 50 (int (Suc 4)) f2 kern0 = Some (Some (int (length [105 :: byte]), m'), f3, kern0) \<and> bytes_at m' 50 [105] \<and> writes ?m m' 50 (length [105 :: byte])"
    by (rule lfs_write_read [where ys = "[104, 105]", OF file0_open(2,3)]) (simp_all add: room_def write_list_def)
  then show ?thesis by (fastforce simp: writes_def)
qed

text \<open>C34: Writing to one file does not change another: the content, the position and the blocks of every other open file stay the same.\<close>

theorem lfs_files_isolated:
  assumes "lfs_inv K f i ibs ds fi fd xs p" "mutexes_free i f k" "bytes_at m buff cs" "cs \<noteq> []" "room (p + length cs - 1) ibs ds fi fd"
    and "file_inv K f j ibs' ds' ys q" "j \<noteq> i" "lfdirptr (lfltab f j) \<noteq> lfdirptr (lfltab f i)"
    and "set ibs' \<inter> set (ibs @ fi) = {}" "set ds' \<inter> set (ds @ fd) = {}" "lflwrite i m buff (int (length cs)) f k = Some (r, f1, k1)"
  shows "file_inv K f1 j ibs' ds' ys q"
proof -
  have "only K i (set (ibs @ fi)) (set (ds @ fd)) f f1"
    using lflwrite_loop_ok [OF assms(1-3), of "int (length cs)"] assms(5,11) by (auto simp: lflwrite_def)
  then show ?thesis by (rule only_other_file [OF _ assms(6-10)])
qed

lemma free_inv_same:
  "free_inv K f fi fd \<Longrightarrow> disk f' = disk f \<Longrightarrow> dir_fit (lf_dir f') \<Longrightarrow> lfd_ifree (lf_dir f') = lfd_ifree (lf_dir f) \<Longrightarrow>
   lfd_dfree (lf_dir f') = lfd_dfree (lf_dir f) \<Longrightarrow> free_inv K f' fi fd"
  by (simp add: free_inv_def)

definition file01 :: lfs where
  "file01 = upd_file 1 (\<lambda>l. l\<lparr>lfstate := LF_USED, lfdirptr := 1, lfdnum := - 1\<rparr>) (upd_ent 1 (\<lambda>e. e\<lparr>ld_ilist := - 1, ld_size := 0\<rparr>) file0)"

lemma file01_facts:
  "lfs_inv 2 file01 0 [] [] (all_iblocks 2) (all_dblocks 2 200) [] 0" "mutexes_free 0 file01 kern0" "file_inv 2 file01 1 [] [] [] 0"
  "lfdirptr (lfltab file01 1) = 1" "lfdirptr (lfltab file01 0) = 0"
proof -
  note I = file0_open(2) [unfolded lfs_inv_def]
  have fit: "dir_fit (lf_dir file0)" by (rule inv_facts(7) [OF file0_open(2)])
  have ent: "dirent file01 e = (if e = 1 then (dirent file0 1)\<lparr>ld_ilist := - 1, ld_size := 0\<rparr> else dirent file0 e)" for e
    using dirent_upd_ent [OF fit, of 1 "\<lambda>e. e\<lparr>ld_ilist := - 1, ld_size := 0\<rparr>" e] by (simp add: file01_def)
  have l: "lfltab file01 0 = lfltab file0 0" "lfltab file01 1 = slot0\<lparr>lfdev := 23, lfstate := LF_USED, lfdirptr := 1, lfdnum := - 1\<rparr>" "disk file01 = disk file0"
    using file0_open(6) [of 1] by (simp_all add: file01_def)
  have "file_inv 2 file01 0 [] [] [] 0" by (rule file_inv_cong [OF conjunct1 [OF I]]) (use l ent file0_open(5) in simp_all)
  moreover have "free_inv 2 file01 (all_iblocks 2) (all_dblocks 2 200)"
    by (rule free_inv_same [OF conjunct1 [OF conjunct2 [OF I]] l(3)]) (use upd_ent_fit [OF fit] in \<open>simp_all add: file01_def\<close>)
  ultimately show "lfs_inv 2 file01 0 [] [] (all_iblocks 2) (all_dblocks 2 200) [] 0" by (simp add: lfs_inv_def)
  show "mutexes_free 0 file01 kern0" using file0_open(3) l by (simp add: mutexes_free_def file01_def)
  show "file_inv 2 file01 1 [] [] [] 0"
    unfolding file_inv_def l Let_def by (simp add: ent slot0_def file_shape_def file_blocks_def file_cache_def file_pos_def file_entry_def nth_null_def)
  show "lfdirptr (lfltab file01 1) = 1" "lfdirptr (lfltab file01 0) = 0" using l file0_open(5) by simp_all
qed

theorem lfs_files_isolated_witness:
  "\<exists>r f1 k1. lflwrite 0 (\<lambda>_. 7) 10 (int (length [7 :: byte])) file01 kern0 = Some (r, f1, k1) \<and> file_inv 2 f1 1 [] [] [] 0"
proof -
  have b: "bytes_at (\<lambda>_. 7) 10 [7]" and r: "room (0 + length [7 :: byte] - 1) [] [] (all_iblocks 2) (all_dblocks 2 200)" by (simp_all add: room_def)
  obtain f1 where w: "lflwrite 0 (\<lambda>_. 7) 10 (int (length [7 :: byte])) file01 kern0 = Some (Some 1, f1, kern0)"
    using lflwrite_loop_ok [OF file01_facts(1,2) b, of 1] r by (auto simp: lflwrite_def simp del: lflwrite_loop.simps)
  show ?thesis
    using lfs_files_isolated [OF file01_facts(1,2) b _ r file01_facts(3) _ _ _ _ w] w file01_facts(4,5) by auto
qed

section \<open>Whole files\<close>

text \<open>C35: Closing a file and opening it again by its name gives the same content, read from the disk, with the position at the beginning.\<close>

theorem lfs_close_reopen:
  assumes "lfs_inv K f i ibs ds fi fd xs p" "mutexes_free i f k" "lf_dirpresent f" "i < 6" "length name < 16"
    and "find_name (nat (sint (lfd_nfiles (lf_dir f)))) 0 name (lf_dir f) = Some (lfdirptr (lfltab f i))"
    and "\<forall>j < 6. j \<noteq> i \<longrightarrow> lfstate (lfltab f j) = LF_USED \<longrightarrow> \<not> name_eq name (lfname (lfltab f j))"
    and "lfgetmode mode = mbits" "mbits \<noteq> SYSERR" "mbits AND LF_MODE_N = 0"
  shows "\<exists>f1 j f2 dev. lflclose i f k = Some (Some OK, f1, k) \<and> lfsopen name mode f1 k = Some (Some dev, f2, k) \<and> dev = lfdev (lfltab f2 j) \<and>
    lfs_inv K f2 j ibs ds fi fd xs 0"
proof -
  obtain f1 where c: "lflclose i f k = Some (Some OK, f1, k)" "stored_file K f1 (lfdirptr (lfltab f i)) ibs ds xs" "free_inv K f1 fi fd"
    "lfstate (lfltab f1 i) = LF_FREE" "only K i (set ibs) (set ds) f f1" "lf_dir f1 = lf_dir f" "lf_dirpresent f1 = lf_dirpresent f"
    by (rule lflclose_ok [OF assms(1,2)])
  have other: "\<forall>j < 6. lfstate (lfltab f1 j) = LF_USED \<longrightarrow> \<not> name_eq name (lfname (lfltab f1 j))"
    using assms(7) c(4,5) by (metis lfst.distinct(1) only_def)
  have "\<exists>j. find_slave [0..<6] name f1 None = Some (Some j)"
    by (rule find_slave_found [of i]) (use other c(4) assms(4) in auto)
  then obtain j where j: "find_slave [0..<6] name f1 None = Some (Some j)" by blast
  have mu: "mutex_free (lf_mutex f1) k" using assms(2) c(5) by (simp add: mutexes_free_def only_def)
  let ?f2 = "lfs_init_file j (lfdirptr (lfltab f i)) mbits name f1"
  have o: "lfsopen name mode f1 k = Some (Some (lfdev (lfltab f1 j)), ?f2, k)"
    by (rule lfsopen_old [OF assms(5,8-10) j mu]) (use c(6,7) assms(3,6) in simp_all)
  have "set ibs \<inter> set fi = {}" "set ds \<inter> set fd = {}" using assms(1) by (auto simp: lfs_inv_def)
  note R = init_file_ok [OF c(2,3) this refl [of ?f2]]
  show ?thesis using c(1) o R(1,5) by (intro exI [of _ f1] exI [of _ j] exI [of _ ?f2] exI [of _ "lfdev (lfltab f1 j)"]) simp
qed

theorem lfs_close_reopen_witness:
  "\<exists>f1 j f2 dev. lflclose 0 file0 kern0 = Some (Some OK, f1, kern0) \<and> lfsopen [97] ''ro'' f1 kern0 = Some (Some dev, f2, kern0) \<and> dev = lfdev (lfltab f2 j) \<and>
     lfs_inv 2 f2 j [] [] (all_iblocks 2) (all_dblocks 2 200) [] 0"
  by (rule lfs_close_reopen [where mbits = 9, OF file0_open(2,3,7)]) (use file0_open(4-6) in \<open>simp_all add: slot0_def lfgetmode_def\<close>)

text \<open>Truncating a file ends, leaves it empty, and puts exactly its index and data blocks in front of the free lists, whatever garbage the
  freed data blocks are filled with.\<close>

theorem lfs_truncate_frees:
  assumes "lfs_inv K f i ibs ds fi fd xs p" "mutexes_free i f k" "xs \<noteq> []" "\<forall>b. length (junk b) = 508"
  shows "\<exists>f'. lflcontrol junk i LF_CTL_TRUNC f k = Some (Some OK, f', k) \<and> lfs_inv K f' i [] [] (ibs @ fi) (rev ds @ fd) [] 0"
proof -
  obtain f' where t: "lftruncate junk i f = Some (OK, f')" "lfs_inv K f' i [] [] (ibs @ fi) (rev ds @ fd) [] 0" "only K i (set ibs) (set ds) f f'"
    using lftruncate_ok [OF assms(1,3,4)] by blast
  have m: "mutex_free (lfmutex (lfltab f i)) k" "mutex_free (lf_mutex f) (held (lfmutex (lfltab f i)) k)" "lf_mutex f' = lf_mutex f"
    using assms(2) t(3) by (simp_all add: mutexes_free_def mutex_other only_def)
  have "lflcontrol junk i LF_CTL_TRUNC f k = Some (Some OK, f', k)"
    using lock_free [OF m(1)] unlock_held [OF m(1)] lock_free [OF m(2)] unlock_held [OF m(2)] t(1) inv_facts(1) [OF assms(1)] m(3)
    by (simp add: lflcontrol_def)
  then show ?thesis using t(2) by blast
qed

lemma file0_written:
  obtains f1 ibs ds fi fd where "lfs_inv 2 f1 0 ibs ds fi fd [9] 1" "mutexes_free 0 f1 kern0" "lflputc 0 9 file0 kern0 = Some (Some OK, f1, kern0)"
proof -
  have r: "room 0 [] [] (all_iblocks 2) (all_dblocks 2 200)" by (simp add: room_def)
  obtain f1 ibs ds fi fd where w: "lflputc 0 9 file0 kern0 = Some (Some OK, f1, kern0)" "lfs_inv 2 f1 0 ibs ds fi fd (write_at 0 9 []) (0 + 1)"
    "ibs @ fi = [] @ all_iblocks 2" "ds @ fd = [] @ all_dblocks 2 200" "only 2 0 (set ([] @ all_iblocks 2)) (set ([] @ all_dblocks 2 200)) file0 f1"
    by (rule lflputc_ok [OF file0_open(2,3) r])
  then show thesis using that [OF _ only_mutexes [OF w(5) file0_open(3)]] by (simp add: write_at_def)
qed

theorem lfs_truncate_frees_witness:
  "\<exists>f1 f2 fi fd. lflputc 0 9 file0 kern0 = Some (Some OK, f1, kern0) \<and> lflcontrol (\<lambda>_. replicate 508 0) 0 2 f1 kern0 = Some (Some OK, f2, kern0) \<and>
     lfs_inv 2 f2 0 [] [] fi fd [] 0"
proof -
  obtain f1 ibs ds fi fd where w: "lfs_inv 2 f1 0 ibs ds fi fd [9] 1" "mutexes_free 0 f1 kern0" "lflputc 0 9 file0 kern0 = Some (Some OK, f1, kern0)"
    by (rule file0_written)
  show ?thesis using lfs_truncate_frees [OF w(1,2), of "\<lambda>_. replicate 508 0"] w(3) by auto
qed

section \<open>Formatting\<close>

text \<open>C36: After \<^verbatim>\<open>lfscreate\<close> the disk holds a valid directory without files, and all index blocks and all data blocks are on the
  free lists; \<^verbatim>\<open>lfsckfmt\<close> ends and counts them.\<close>

theorem lfscreate_formats:
  assumes "S = unat dsiz div 512" "3 \<le> S" "S \<le> 200" "K = (unat lfiblks + 6) div 7" "0 < unat lfiblks" "K \<le> S div 2"
  shows "\<exists>d'. lfscreate lfiblks dsiz d = (OK, d') \<and>
    lfsckfmt d' = Some (OK, of_nat (7 * K), of_nat K, of_nat (S - Suc K)) \<and>
    (\<forall>f. disk f = d' \<and> \<not> lf_dirpresent f \<longrightarrow> fst (lfs_present f) = OK \<and> lfd_nfiles (lf_dir (snd (lfs_present f))) = 0 \<and>
       free_inv K (snd (lfs_present f)) (all_iblocks K) (all_dblocks K S))"
proof -
  obtain d' where c: "lfscreate lfiblks dsiz d = (OK, d')" "dir_decode (ramread 0 d') = fresh_dir K" "ist.lseg d' 0 (all_iblocks K) LF_INULL"
    "dst.lseg d' (of_nat (Suc K)) (all_dblocks K S) LF_DNULL" by (rule lfscreate_ok [OF assms])
  have k: "K \<le> 100" using assms by simp
  have u: "uint (of_nat (7 * K) :: word32) = int (7 * K)" using unat_w32 [of "7 * K"] k uint_unat [of "of_nat (7 * K)"] by simp
  have s: "sint (of_nat (7 * K) :: word32) = int (7 * K)" using u k sint_small [of "of_nat (7 * K)"] by simp
  have dv: "(int (7 * K) + 6) sdiv 7 = int K" by (simp add: sdiv7)
  have "lfd_dfree (fresh_dir K) = of_nat (Suc K)" by (simp add: fresh_dir_def add.commute)
  then have "count_dblocks (lfd_dfree (fresh_dir K)) 0 d' = Some (of_nat (S - Suc K))" using count_dblocks_ok [OF c(4), of 0] by simp
  moreover have "count_iblocks (lfd_ifree (fresh_dir K)) 0 d' = Some (of_nat (7 * K))" using count_iblocks_ok [OF c(3), of 0] fresh_dir_facts(2) by simp
  ultimately have "lfsckfmt d' = Some (OK, of_nat (7 * K), of_nat K, of_nat (S - Suc K))"
    unfolding lfsckfmt_def Let_def c(2) using fresh_dir_facts(3) by (simp only: s dv option.case) simp
  moreover have "fst (lfs_present f) = OK \<and> lfd_nfiles (lf_dir (snd (lfs_present f))) = 0 \<and> free_inv K (snd (lfs_present f)) (all_iblocks K) (all_dblocks K S)"
    if "disk f = d'" "\<not> lf_dirpresent f" for f
  proof -
    have e: "lfs_present f = (OK, f\<lparr>lf_dir := fresh_dir K, lf_dirpresent := True\<rparr>)"
      using that c(2) fresh_dir_facts(3) [of K] by (simp add: lfs_present_def Let_def)
    have "free_inv K (f\<lparr>lf_dir := fresh_dir K, lf_dirpresent := True\<rparr>) (all_iblocks K) (all_dblocks K S)"
      by (rule formatted_free) (use c(3,4) that k assms(3) in simp_all)
    then show ?thesis using e fresh_dir_facts(4) by simp
  qed
  ultimately show ?thesis using c(1) by blast
qed

theorem lfscreate_formats_witness:
  "\<exists>d'. lfscreate 14 102400 (\<lambda>_. 0) = (OK, d') \<and> lfsckfmt d' = Some (OK, 14, 2, 197)"
proof -
  obtain d' where "lfscreate 14 102400 (\<lambda>_. 0) = (OK, d')" "lfsckfmt d' = Some (OK, of_nat (7 * 2), of_nat 2, of_nat (200 - Suc 2))"
    using lfscreate_formats [of 200 102400 2 14 "\<lambda>_. 0"] by fastforce
  then show ?thesis by (intro exI [of _ d']) simp
qed

end
