(* ===== verification/Dev_Props.thy ===== *)
theory Dev_Props
  imports Devices Lfs_Props
begin

text \<open>What the device switch and the namespace promise, with the local file system behind them.\<close>

section \<open>Names\<close>

definition name_a :: bmem where "name_a = arr (str ''/local/a'')"

lemma name_a_cstr: "cstr name_a 0 (str ''/local/'' @ [97])"
  using arr_cstr [of "str ''/local/a''"] by (simp add: name_a_def str_def)

definition names0 :: names where
  "names0 = snd (naminit (\<lambda>_. 0) \<lparr>nametab = \<lambda>_. \<lparr>nprefix = \<lambda>_. 0, nreplace = \<lambda>_. 0, ndevice = 0\<rparr>, nnames = 0\<rparr>)"

lemma names0_rep: "names_rep names0 default_names"
  by (simp add: names0_def naminit_ok)

lemma default_not_Nil [simp]: "default_names \<noteq> []"
  by (simp add: default_names_def)

lemma local_a_maps:
  "ns_map (length default_names) default_names NAMESPACE (str ''/local/'' @ [97]) = Some (LFILESYS, [97])"
  "ns_short (length default_names) default_names NAMESPACE (str ''/local/'' @ [97])"
  using map_once [OF find_local [of "[97]"], of NAMESPACE] by (simp_all add: str_def)

text \<open>C37: Mapping a name follows the list of prefixes: the first prefix that the name has is replaced, again and again as long as the result belongs to
  the namespace itself. The mapping ends, the new name is in the caller's buffer, and nothing is stored beyond the end of that buffer.\<close>

theorem nammap_refines:
  assumes "names_rep ns tab" "cstr name 0 xs" "ns_short (length tab) tab namdev xs" "0 \<le> namdev" "tab \<noteq> []"
  shows "\<exists>newname'. nammap ns tmp0 name newname namdev =
      Some (case ns_map (length tab) tab namdev xs of None \<Rightarrow> SYSERR | Some (d, ys) \<Rightarrow> d, newname') \<and> writes newname newname' 0 256 \<and>
    (case ns_map (length tab) tab namdev xs of None \<Rightarrow> True | Some (d, ys) \<Rightarrow> cstr newname' 0 ys \<and> length ys < 256)"
  using nammap_ok [OF assms, of newname tmp0] by (auto simp: mapped_def split: option.splits)

theorem nammap_refines_witness: "\<exists>m'. nammap names0 (\<lambda>_. 0) name_a (\<lambda>_. 0) NAMESPACE = Some (LFILESYS, m') \<and> m' 0 = 97 \<and> m' 1 = 0"
proof -
  from nammap_refines [OF names0_rep name_a_cstr local_a_maps(2), of "\<lambda>_. 0" "\<lambda>_. 0"] obtain m'
    where "nammap names0 (\<lambda>_. 0) name_a (\<lambda>_. 0) NAMESPACE = Some (LFILESYS, m')" "cstr m' 0 [97]" by (auto simp: local_a_maps(1))
  then show ?thesis by (intro exI [of _ m']) simp
qed

text \<open>\<open>leads ns xs d ys\<close>: the name \<open>xs\<close> is mapped to the name \<open>ys\<close> on device \<open>d\<close>.\<close>

definition leads :: "names \<Rightarrow> byte list \<Rightarrow> int \<Rightarrow> byte list \<Rightarrow> bool" where
  "leads ns xs d ys \<longleftrightarrow>
     (\<forall>tmp0 name newname. cstr name 0 xs \<longrightarrow> (\<exists>m'. nammap ns tmp0 name newname NAMESPACE = Some (d, m') \<and> cstr m' 0 ys))"

lemma leads_first:
  assumes "names_rep ns tab" "ns_find tab xs = Some (p, r, d)" "d \<noteq> NAMESPACE" "length xs < 255" "length r + (length xs - length p) < 256"
  shows "leads ns xs d (r @ drop (length p) xs)"
proof -
  have "tab \<noteq> []" using assms(2) by auto
  then show ?thesis
    using nammap_ok [OF assms(1), of _ xs NAMESPACE] map_once [OF assms(2,3)] assms(4,5) by (fastforce simp: leads_def mapped_def)
qed

text \<open>C38: After \<^verbatim>\<open>naminit\<close>, the lower-case path of a device leads to that device; names below \<^verbatim>\<open>/local/\<close> and names without a slash lead
  to the local file system; names below \<^verbatim>\<open>/remote/\<close> to the remote one; and so does a name below \<^verbatim>\<open>/dev/\<close> that is no device, because
  the entry meant to refuse it could not be mounted.\<close>

theorem naminit_names:
  assumes "ns = snd (naminit tmp0 ns0)" "length x < 200"
  shows "(d \<in> set devtab \<and> dvnum d \<noteq> NAMESPACE \<longrightarrow> leads ns (dev_name d) (dvnum d) []) \<and>
    leads ns (str ''/local/'' @ x) LFILESYS x \<and> leads ns (str ''/remote/'' @ x) RFILESYS (str ''remote:'' @ x) \<and>
    (\<not> prefix (str ''/'') x \<and> \<not> prefix (str ''~/'') x \<longrightarrow> leads ns x LFILESYS x) \<and>
    (list_all (\<lambda>d. \<not> prefix (dev_name d) (str ''/dev/'' @ x)) devtab \<and> \<not> prefix (str ''/dev/null'') (str ''/dev/'' @ x) \<longrightarrow>
       leads ns (str ''/dev/'' @ x) RFILESYS (str ''root:dev/'' @ x))"
proof (intro conjI impI)
  have N: "names_rep ns default_names" unfolding assms(1) by (rule naminit_ok)
  note L = leads_first [OF N]
  show "leads ns (dev_name d) (dvnum d) []" if "d \<in> set devtab \<and> dvnum d \<noteq> NAMESPACE"
    using L [OF find_devices [rule_format, of d]] that dev_path_ok(2) [of d] devtab_name_length devtab_chars by simp
  show "leads ns (str ''/local/'' @ x) LFILESYS x" "leads ns (str ''/remote/'' @ x) RFILESYS (str ''remote:'' @ x)"
    using L [OF find_local [of x]] L [OF find_remote [of x]] assms(2) by (simp_all add: str_def)
  show "leads ns x LFILESYS x" if "\<not> prefix (str ''/'') x \<and> \<not> prefix (str ''~/'') x"
    using L [OF find_plain [of x]] that assms(2) by simp
  show "leads ns (str ''/dev/'' @ x) RFILESYS (str ''root:dev/'' @ x)"
    if "list_all (\<lambda>d. \<not> prefix (dev_name d) (str ''/dev/'' @ x)) devtab \<and> \<not> prefix (str ''/dev/null'') (str ''/dev/'' @ x)"
    using L [OF find_unknown_dev [of x]] that assms(2) by (simp add: list_all_iff str_def)
qed

theorem naminit_names_witness: "leads names0 (str ''/local/a'') LFILESYS [97] \<and> leads names0 (str ''/dev/console'') 0 []"
proof -
  have c: "devtab ! 0 \<in> set devtab" "dvnum (devtab ! 0) = 0" "dev_name (devtab ! 0) = str ''/dev/console''" by (simp_all add: devtab_def dentry.defs dev_name_def str_def to_lower_def)
  have e: "str ''/local/'' @ [97] = str ''/local/a''" by (simp add: str_def)
  show ?thesis using naminit_names [OF names0_def, of "[97]" "devtab ! 0"] c e by simp
qed

section \<open>Files through the switch\<close>

text \<open>C39: Opening a name in the namespace that leads to the local file system opens the file of the mapped name there: the nesting of \<^verbatim>\<open>open\<close> through
  \<^verbatim>\<open>namopen\<close> ends after the second call.\<close>

theorem open_local_name:
  assumes "names_rep (sy_names s) tab" "cstr name 0 xs" "ns_find tab xs = Some (p, r, LFILESYS)" "length xs < 255"
    and "length r + (length xs - length p) < 16" "2 \<le> n"
  shows "open_dev n drv tmp0 new0 NAMESPACE name mode s = of_lfs s (lfsopen (r @ drop (length p) xs) mode (sy_fs s) (sy_kern s))"
proof -
  obtain k where "n = Suc (Suc k)" using assms(6) by (metis Suc_le_D numeral_2_eq_2 Suc_le_mono)
  then show ?thesis using open_mapped_local [OF assms(1-5)] by simp
qed

definition sys0 :: "tty \<Rightarrow> sysst" where
  "sys0 t = \<lparr>sy_mem = \<lambda>_. 0, sy_kern = kern0, sy_tty = t, sy_fs = fs0, sy_names = names0\<rparr>"

theorem open_local_name_witness:
  "\<forall>t drv. open_dev 2 drv (\<lambda>_. 0) (\<lambda>_. 0) NAMESPACE name_a ''rwn'' (sys0 t) = Some (Some 22, (sys0 t)\<lparr>sy_fs := file0, sy_kern := kern0\<rparr>)"
proof (intro allI)
  fix t drv
  have l: "length (str ''/local/'' @ [97]) < 255" "length ([] :: byte list) + (length (str ''/local/'' @ [97]) - length (str ''/local/'')) < 16"
    by (simp_all add: str_def)
  have "open_dev 2 drv (\<lambda>_. 0) (\<lambda>_. 0) NAMESPACE name_a ''rwn'' (sys0 t) =
      of_lfs (sys0 t) (lfsopen ([] @ drop (length (str ''/local/'')) (str ''/local/'' @ [97])) ''rwn'' (sy_fs (sys0 t)) (sy_kern (sys0 t)))"
    by (rule open_local_name [OF _ name_a_cstr find_local l]) (simp_all add: sys0_def names0_rep)
  then show "open_dev 2 drv (\<lambda>_. 0) (\<lambda>_. 0) NAMESPACE name_a ''rwn'' (sys0 t) = Some (Some 22, (sys0 t)\<lparr>sy_fs := file0, sy_kern := kern0\<rparr>)"
    using file0_open(1) by (simp add: sys0_def)
qed

end
