(* ===== verification/Net_Packet.thy ===== *)
theory Net_Packet
  imports Clib_String
begin

unbundle bit_operations_syntax

text \<open>
  Packets as \<^verbatim>\<open>include/net.h\<close> and \<^verbatim>\<open>include/arp.h\<close> lay them out, the byte order macros of \<^verbatim>\<open>include/prototypes.h\<close>, the conversions and
  checksums of \<^verbatim>\<open>net/ip.c\<close>, \<^verbatim>\<open>net/icmp.c\<close>, \<^verbatim>\<open>net/udp.c\<close>, \<^verbatim>\<open>net/arp.c\<close> and \<^verbatim>\<open>net/net.c\<close>, and \<^verbatim>\<open>net/dot2ip.c\<close>.

  A field is the word the processor loads, low byte first. The union of the UDP and the ICMP part of a packet is given by the UDP fields; the ICMP
  fields, and the view of a buffer as an ARP packet, are functions of the same bytes.
\<close>

type_synonym u16 = "16 word"
type_synonym u32w = "32 word"

abbreviation (input) ETH_ARP :: u16 where "ETH_ARP \<equiv> 0x0806"
abbreviation (input) ETH_IP :: u16 where "ETH_IP \<equiv> 0x0800"
abbreviation (input) IP_BCAST :: u32w where "IP_BCAST \<equiv> 0xffffffff"
abbreviation (input) IP_ICMP :: byte where "IP_ICMP \<equiv> 1"
abbreviation (input) IP_UDP :: byte where "IP_UDP \<equiv> 17"
abbreviation (input) IP_HDR_LEN :: int where "IP_HDR_LEN \<equiv> 20"
abbreviation (input) UDP_HDR_LEN :: int where "UDP_HDR_LEN \<equiv> 8"
abbreviation (input) ICMP_HDR_LEN :: int where "ICMP_HDR_LEN \<equiv> 8"
abbreviation (input) ETH_HDR_LEN :: int where "ETH_HDR_LEN \<equiv> 14"

record netpacket =
  net_ethdst :: "byte list"
  net_ethsrc :: "byte list"
  net_ethtype :: u16
  net_ipvh :: byte
  net_iptos :: byte
  net_iplen :: u16
  net_ipid :: u16
  net_ipfrag :: u16
  net_ipttl :: byte
  net_ipproto :: byte
  net_ipcksum :: u16
  net_ipsrc :: u32w
  net_ipdst :: u32w
  net_udpsport :: u16
  net_udpdport :: u16
  net_udplen :: u16
  net_udpcksum :: u16
  net_udpdata :: bmem

record arppacket =
  arp_ethdst :: "byte list"
  arp_ethsrc :: "byte list"
  arp_ethtype :: u16
  arp_htype :: u16
  arp_ptype :: u16
  arp_hlen :: byte
  arp_plen :: byte
  arp_op :: u16
  arp_sndha :: "byte list"
  arp_sndpa :: u32w
  arp_tarha :: "byte list"
  arp_tarpa :: u32w

section \<open>Bytes of words\<close>

definition lo :: "u16 \<Rightarrow> byte" where "lo w = ucast w"
definition hi :: "u16 \<Rightarrow> byte" where "hi w = ucast (drop_bit 8 w)"
definition pair :: "byte \<Rightarrow> byte \<Rightarrow> u16" where "pair a b = ucast a OR push_bit 8 (ucast b)"
definition lo16 :: "u32w \<Rightarrow> u16" where "lo16 w = ucast w"
definition hi16 :: "u32w \<Rightarrow> u16" where "hi16 w = ucast (drop_bit 16 w)"
definition pair32 :: "u16 \<Rightarrow> u16 \<Rightarrow> u32w" where "pair32 a b = ucast a OR push_bit 16 (ucast b)"

section \<open>Byte order\<close>

definition htons :: "u16 \<Rightarrow> u16" where
  "htons x = (0xff AND drop_bit 8 x) OR push_bit 8 (0xff AND x)"

definition htonl :: "u32w \<Rightarrow> u32w" where
  "htonl x = (drop_bit 24 x AND 0x000000ff) OR (drop_bit 8 x AND 0x0000ff00) OR (push_bit 8 x AND 0x00ff0000) OR (push_bit 24 x AND 0xff000000)"

abbreviation (input) ntohs :: "u16 \<Rightarrow> u16" where "ntohs \<equiv> htons"
abbreviation (input) ntohl :: "u32w \<Rightarrow> u32w" where "ntohl \<equiv> htonl"

definition ip_hton :: "netpacket \<Rightarrow> netpacket" where
  "ip_hton p = p\<lparr>net_iplen := htons (net_iplen p), net_ipid := htons (net_ipid p), net_ipfrag := htons (net_ipfrag p),
     net_ipsrc := htonl (net_ipsrc p), net_ipdst := htonl (net_ipdst p)\<rparr>"

definition ip_ntoh :: "netpacket \<Rightarrow> netpacket" where
  "ip_ntoh p = p\<lparr>net_iplen := ntohs (net_iplen p), net_ipid := ntohs (net_ipid p), net_ipfrag := ntohs (net_ipfrag p),
     net_ipsrc := ntohl (net_ipsrc p), net_ipdst := ntohl (net_ipdst p)\<rparr>"

definition udp_hton :: "netpacket \<Rightarrow> netpacket" where
  "udp_hton p = p\<lparr>net_udpsport := htons (net_udpsport p), net_udpdport := htons (net_udpdport p), net_udplen := htons (net_udplen p)\<rparr>"

definition udp_ntoh :: "netpacket \<Rightarrow> netpacket" where
  "udp_ntoh p = p\<lparr>net_udpsport := ntohs (net_udpsport p), net_udpdport := ntohs (net_udpdport p), net_udplen := ntohs (net_udplen p)\<rparr>"

definition eth_hton :: "netpacket \<Rightarrow> netpacket" where
  "eth_hton p = p\<lparr>net_ethtype := htons (net_ethtype p)\<rparr>"

definition eth_ntoh :: "netpacket \<Rightarrow> netpacket" where
  "eth_ntoh p = p\<lparr>net_ethtype := ntohs (net_ethtype p)\<rparr>"

definition arp_hton :: "arppacket \<Rightarrow> arppacket" where
  "arp_hton p = p\<lparr>arp_htype := htons (arp_htype p), arp_ptype := htons (arp_ptype p), arp_op := htons (arp_op p),
     arp_sndpa := htonl (arp_sndpa p), arp_tarpa := htonl (arp_tarpa p)\<rparr>"

definition arp_ntoh :: "arppacket \<Rightarrow> arppacket" where
  "arp_ntoh p = p\<lparr>arp_htype := ntohs (arp_htype p), arp_ptype := ntohs (arp_ptype p), arp_op := ntohs (arp_op p),
     arp_sndpa := ntohl (arp_sndpa p), arp_tarpa := ntohl (arp_tarpa p)\<rparr>"

text \<open>The ICMP fields of the union, and the buffer as an ARP packet.\<close>

definition net_ictype :: "netpacket \<Rightarrow> byte" where "net_ictype p = lo (net_udpsport p)"
abbreviation (input) net_iccksum :: "netpacket \<Rightarrow> u16" where "net_iccksum \<equiv> net_udpdport"
abbreviation (input) net_icident :: "netpacket \<Rightarrow> u16" where "net_icident \<equiv> net_udplen"
abbreviation (input) net_icseq :: "netpacket \<Rightarrow> u16" where "net_icseq \<equiv> net_udpcksum"

definition icmp_hton :: "netpacket \<Rightarrow> netpacket" where
  "icmp_hton p = p\<lparr>net_udpdport := htons (net_iccksum p), net_udplen := htons (net_icident p), net_udpcksum := htons (net_icseq p)\<rparr>"

definition icmp_ntoh :: "netpacket \<Rightarrow> netpacket" where
  "icmp_ntoh p = p\<lparr>net_udpdport := ntohs (net_iccksum p), net_udplen := ntohs (net_icident p), net_udpcksum := ntohs (net_icseq p)\<rparr>"

definition as_arp :: "netpacket \<Rightarrow> arppacket" where
  "as_arp p =
     \<lparr>arp_ethdst = net_ethdst p, arp_ethsrc = net_ethsrc p, arp_ethtype = net_ethtype p, arp_htype = pair (net_ipvh p) (net_iptos p),
      arp_ptype = net_iplen p, arp_hlen = lo (net_ipid p), arp_plen = hi (net_ipid p), arp_op = net_ipfrag p,
      arp_sndha = [net_ipttl p, net_ipproto p, lo (net_ipcksum p), hi (net_ipcksum p), lo (lo16 (net_ipsrc p)), hi (lo16 (net_ipsrc p))],
      arp_sndpa = pair32 (hi16 (net_ipsrc p)) (lo16 (net_ipdst p)),
      arp_tarha = [lo (hi16 (net_ipdst p)), hi (hi16 (net_ipdst p)), lo (net_udpsport p), hi (net_udpsport p), lo (net_udpdport p), hi (net_udpdport p)],
      arp_tarpa = pair32 (net_udplen p) (net_udpcksum p)\<rparr>"

section \<open>Checksums\<close>

text \<open>The ten 16-bit words of the IP header.\<close>

definition hdr_words :: "netpacket \<Rightarrow> u16 list" where
  "hdr_words p =
     [pair (net_ipvh p) (net_iptos p), net_iplen p, net_ipid p, net_ipfrag p, pair (net_ipttl p) (net_ipproto p), net_ipcksum p,
      lo16 (net_ipsrc p), hi16 (net_ipsrc p), lo16 (net_ipdst p), hi16 (net_ipdst p)]"

fun cksum_loop :: "u16 list \<Rightarrow> u32w \<Rightarrow> u32w" where
  "cksum_loop [] cksum = cksum"
| "cksum_loop (w # ws) cksum = cksum_loop ws (cksum + ucast (htons w))"

definition ipcksum :: "netpacket \<Rightarrow> u16" where
  "ipcksum p =
     (let c = cksum_loop (hdr_words p) 0;
          c1 = c + drop_bit 16 c;
          c2 = 0xffff AND NOT c1;
          c3 = (if c2 = 0xffff then 0 else c2)
      in ucast (0xffff AND c3))"

fun icmp_sum :: "nat \<Rightarrow> bmem \<Rightarrow> nat \<Rightarrow> u32w \<Rightarrow> u32w" where
  "icmp_sum 0 buf i cksum = cksum"
| "icmp_sum (Suc n) buf i cksum = icmp_sum n buf (i + 2) (cksum + ucast (ntohs (pair (buf i) (buf (i + 1)))))"

definition icmp_cksum :: "bmem \<Rightarrow> int \<Rightarrow> u16" where
  "icmp_cksum buf buflen =
     (let c = icmp_sum (nat (buflen div 2)) buf 0 0;
          c1 = (if odd buflen then c + (0xFFFF AND push_bit 8 (ucast (buf (2 * nat (buflen div 2))))) else c);
          c2 = c1 + drop_bit 16 c1
      in ucast (0xffff AND (0xffff AND NOT c2)))"

text \<open>The bytes from \<^verbatim>\<open>net_ictype\<close> on.\<close>

definition icmp_bytes :: "netpacket \<Rightarrow> bmem" where
  "icmp_bytes p i =
     (if i < 8 then [lo (net_udpsport p), hi (net_udpsport p), lo (net_udpdport p), hi (net_udpdport p), lo (net_udplen p), hi (net_udplen p),
        lo (net_udpcksum p), hi (net_udpcksum p)] ! i else net_udpdata p (i - 8))"

section \<open>Dotted decimal addresses\<close>

text \<open>The inner loop reads up to four characters of a segment: the value, the last character, and where the next one is.\<close>

fun dot_segment :: "nat \<Rightarrow> nat \<Rightarrow> byte \<Rightarrow> bmem \<Rightarrow> nat \<Rightarrow> int \<Rightarrow> (int \<times> byte \<times> nat) option" where
  "dot_segment 0 nch ch m p val = Some (val, ch, p)"
| "dot_segment (Suc n) nch ch0 m p val =
     (let ch = m p in
      if ch = 0 \<or> ch = 46 then (if nch = 0 then None else Some (val, ch, p + 1))
      else if ch < 48 \<or> ch > 57 then None
      else dot_segment n (nch + 1) ch m (p + 1) (10 * val + (uint ch - 48)))"

fun dot_loop :: "nat \<Rightarrow> nat \<Rightarrow> byte \<Rightarrow> bmem \<Rightarrow> nat \<Rightarrow> u32w \<Rightarrow> (nat \<times> byte \<times> u32w) option" where
  "dot_loop 0 seg ch m p ipaddr = Some (seg, ch, ipaddr)"
| "dot_loop (Suc n) seg ch0 m p ipaddr =
     (case dot_segment 4 0 ch0 m p 0 of
        None \<Rightarrow> None
      | Some (val, ch, p1) \<Rightarrow>
          if val > 255 then None
          else
            let ipaddr1 = push_bit 8 ipaddr OR word_of_int val
            in if ch = 0 then Some (seg, ch, ipaddr1) else dot_loop n (seg + 1) ch m p1 ipaddr1)"

text \<open>\<open>r0\<close> is what the result location holds before.\<close>

definition dot2ip :: "bmem \<Rightarrow> nat \<Rightarrow> u32w \<Rightarrow> int \<times> u32w" where
  "dot2ip m dotted r0 =
     (case dot_loop 4 0 0 m dotted 0 of
        None \<Rightarrow> (SYSERR, r0)
      | Some (seg, ch, ipaddr) \<Rightarrow> if seg \<noteq> 3 \<or> ch \<noteq> 0 then (SYSERR, r0) else (OK, ipaddr))"

section \<open>Converting twice\<close>

lemma htons_htons [simp]: "htons (htons x) = x"
proof -
  have ff: "0xff = (mask 8 :: u16)" by (simp add: mask_eq_exp_minus_1)
  show ?thesis unfolding htons_def ff by (rule bit_word_eqI) (auto simp: bit_simps)
qed

lemma bit_htonl:
  assumes "n < 32"
  shows "bit (htonl x) n \<longleftrightarrow> bit x (if n < 8 then n + 24 else if n < 16 then n + 8 else if n < 24 then n - 8 else n - 24)"
proof -
  have ff: "0x000000ff = (mask 8 :: u32w)" "0x0000ff00 = (push_bit 8 (mask 8) :: u32w)" "0x00ff0000 = (push_bit 16 (mask 8) :: u32w)"
    "0xff000000 = (push_bit 24 (mask 8) :: u32w)" by (simp_all add: mask_eq_exp_minus_1 push_bit_eq_mult)
  show ?thesis unfolding htonl_def ff using assms by (auto simp: bit_simps add.commute)
qed

lemma htonl_htonl [simp]: "htonl (htonl x) = x"
proof (rule bit_word_eqI)
  fix n assume "n < LENGTH(32)"
  then consider "n < 8" | "8 \<le> n" "n < 16" | "16 \<le> n" "n < 24" | "24 \<le> n" "n < 32" by force
  then show "bit (htonl (htonl x)) n = bit x n" by cases (auto simp: bit_htonl)
qed

lemma convert_twice:
  "ip_ntoh (ip_hton p) = p" "udp_ntoh (udp_hton p) = p" "icmp_ntoh (icmp_hton p) = p" "eth_ntoh (eth_hton p) = p" "arp_ntoh (arp_hton q) = q"
  by (simp_all add: ip_ntoh_def ip_hton_def udp_ntoh_def udp_hton_def icmp_ntoh_def icmp_hton_def eth_ntoh_def eth_hton_def arp_ntoh_def arp_hton_def)

section \<open>The checksum in numbers\<close>

definition word_sum :: "u16 list \<Rightarrow> nat" where
  "word_sum ws = sum_list (map (\<lambda>w. unat (htons w)) ws)"

lemma unat_u16: "unat (w :: u16) < 65536"
proof -
  have "unat w < 2 ^ LENGTH(16)" by (rule unsigned_less)
  then show ?thesis by simp
qed

lemma word_sum_le: "word_sum ws \<le> length ws * 65535"
proof (induction ws)
  case (Cons w ws)
  then show ?case using unat_u16 [of "htons w"] by (simp add: word_sum_def)
qed (simp add: word_sum_def)

lemma unat_add32: "unat a + unat b < 4294967296 \<Longrightarrow> unat (a + b) = unat a + unat b" for a b :: u32w
  by (simp add: unat_add_lem [THEN iffD1])

lemma unat_ucast32: "unat (ucast w :: u32w) = unat w" for w :: u16
  using unat_u16 [of w] by (simp add: unsigned_ucast_eq take_bit_eq_mod)

lemma cksum_loop_sum: "unat c + word_sum ws < 4294967296 \<Longrightarrow> unat (cksum_loop ws c) = unat c + word_sum ws"
proof (induction ws arbitrary: c)
  case (Cons w ws)
  then have "unat (c + ucast (htons w)) = unat c + unat (htons w)" using unat_add32 [of c "ucast (htons w)"] by (simp add: unat_ucast32 word_sum_def)
  then show ?case using Cons.IH [of "c + ucast (htons w)"] Cons.prems by (simp add: word_sum_def)
qed (simp add: word_sum_def)

text \<open>The carries are added once: \<open>fold1\<close>. The checksum of RFC 1071 adds them until there are none.\<close>

definition fold1 :: "nat \<Rightarrow> nat" where
  "fold1 S = (S + S div 65536) mod 65536"

lemma complement16:
  assumes "unat c = S" "S < 4294836225"
  shows "unat (0xffff AND NOT (c + drop_bit 16 c) :: u32w) = 65535 - fold1 S"
proof -
  have ff: "0xffff = (mask 16 :: u32w)" by (simp add: mask_eq_exp_minus_1)
  have h: "unat (drop_bit 16 c) = S div 65536" using assms(1) by (simp add: drop_bit_eq_div unat_div)
  have "S div 65536 \<le> 65535" using assms(2) by simp
  then have s: "unat (c + drop_bit 16 c) = S + S div 65536" using unat_add32 [of c "drop_bit 16 c"] h assms by simp
  let ?t = "take_bit 16 (c + drop_bit 16 c)"
  have "unat ?t = fold1 S" unfolding unsigned_take_bit_eq s fold1_def by (simp add: take_bit_eq_mod)
  moreover have "0xffff AND NOT (c + drop_bit 16 c) = mask 16 - ?t"
    unfolding ff by (metis and.commute take_bit_eq_mask take_bit_not_eq_mask_diff)
  moreover have "?t \<le> mask 16" by (simp add: take_bit_eq_mask word_and_le1)
  ultimately show ?thesis by (simp add: unat_sub flip: ff)
qed

lemma unat_ucast16: "unat w < 65536 \<Longrightarrow> unat (ucast w :: u16) = unat w" for w :: u32w
proof -
  assume "unat w < 65536"
  then have "take_bit 16 (unat w) = unat w" by (simp add: take_bit_eq_mod)
  then show ?thesis by (simp add: unsigned_ucast_eq unsigned_take_bit_eq)
qed

lemma ipcksum_nat: "unat (ipcksum p) = (let c = 65535 - fold1 (word_sum (hdr_words p)) in if c = 65535 then 0 else c)"
proof -
  let ?S = "word_sum (hdr_words p)"
  have b: "?S \<le> 655350" using word_sum_le [of "hdr_words p"] by (simp add: hdr_words_def)
  then have c: "unat (cksum_loop (hdr_words p) 0) = ?S" using cksum_loop_sum [of 0 "hdr_words p"] by simp
  let ?c2 = "0xffff AND NOT (cksum_loop (hdr_words p) 0 + drop_bit 16 (cksum_loop (hdr_words p) 0)) :: u32w"
  have c2: "unat ?c2 = 65535 - fold1 ?S" using complement16 [OF c] b by simp
  have ff: "0xffff AND w = w" if "unat w < 65536" for w :: u32w
  proof -
    have "take_bit 16 (unat w) = unat w" using that by (simp add: take_bit_eq_mod)
    then have "take_bit 16 w = w" by (simp add: word_unat_eq_iff unsigned_take_bit_eq)
    then show ?thesis by (simp add: take_bit_eq_mask and.commute mask_eq_exp_minus_1)
  qed
  have lt: "unat ?c2 < 65536" unfolding c2 by linarith
  have e: "?c2 = 0xffff \<longleftrightarrow> unat ?c2 = 65535" by (simp add: word_unat_eq_iff)
  have "unat (ipcksum p) = unat (if ?c2 = 0xffff then 0 else ?c2)"
    unfolding ipcksum_def Let_def using lt by (subst ff) (simp_all add: unat_ucast16)
  then show ?thesis using c2 e by (simp add: Let_def)
qed

section \<open>What the checksum is good for\<close>

definition ones_sum :: "nat \<Rightarrow> nat" where
  "ones_sum S = (if S = 0 then 0 else (S - 1) mod 65535 + 1)"

text \<open>The one's complement sum is reached by adding the carries once unless that carries again.\<close>

lemma fold1_ones:
  assumes "S < 4294836225" "S mod 65536 + S div 65536 < 65536"
  shows "fold1 S = ones_sum S"
proof (cases "S = 0")
  case False
  let ?l = "S mod 65536" and ?h = "S div 65536"
  have S: "S = 65535 * ?h + (?l + ?h)" using div_mult_mod_eq [of S 65536] by linarith
  have f: "fold1 S = ?l + ?h"
  proof -
    have "S + ?h = 65536 * ?h + (?l + ?h)" using div_mult_mod_eq [of S 65536] by linarith
    then show ?thesis using assms(2) unfolding fold1_def by (metis mod_less mod_mult_self2 mult.commute add.commute)
  qed
  have p: "0 < ?l + ?h" using False S by (metis add_is_0 gr0I mult_0_right)
  have "S - 1 = 65535 * ?h + (?l + ?h - 1)" using S p by linarith
  then have "(S - 1) mod 65535 = (?l + ?h - 1) mod 65535" by (metis mod_mult_self4)
  also have "\<dots> = ?l + ?h - 1" using assms(2) by simp
  finally show ?thesis using f p False by (simp add: ones_sum_def)
qed (simp add: fold1_def ones_sum_def)

lemma word_sum_cksum:
  "word_sum (hdr_words (p\<lparr>net_ipcksum := htons c\<rparr>)) = word_sum (hdr_words (p\<lparr>net_ipcksum := 0\<rparr>)) + unat c"
proof -
  have "htons 0 = 0" by (simp add: htons_def)
  then show ?thesis by (simp add: word_sum_def hdr_words_def)
qed

text \<open>Adding the complement of the folded sum gives a sum that folds to all ones, or to zero when adding the carries had carried again.\<close>

lemma fold1_complement:
  assumes "S \<le> 589815" "c = (if fold1 S = 0 then 0 else 65535 - fold1 S)" "0 < S"
  shows "fold1 (S + c) = 65535 \<or> fold1 (S + c) = 0"
proof -
  define h l where "h = S div 65536" and "l = S mod 65536"
  have S: "S = 65536 * h + l" "l < 65536" "h \<le> 8" using assms(1) by (simp_all add: h_def l_def)
  have f: "fold1 S = (l + h) mod 65536"
  proof -
    have "S + S div 65536 = 65536 * h + (l + h)" using S(1) by (simp add: h_def)
    then show ?thesis by (simp only: fold1_def mod_mult_self4)
  qed
  show ?thesis
  proof (cases "l + h < 65536")
    case True
    then have F: "fold1 S = l + h" "0 < l + h" using f S assms(3) by auto
    have "S + c = 65536 * h + (65535 - h)" using assms(2) F S True by simp
    then have "(S + c) div 65536 = h" "S + c + h = 65536 * h + 65535" using S(3) by simp_all
    then show ?thesis by (simp add: fold1_def)
  next
    case False
    define e where "e = l + h - 65536"
    have lh: "l + h = 65536 + e" "e \<le> 7" using False S by (simp_all add: e_def)
    then have F: "fold1 S = e" "e \<le> 7" using f by simp_all
    show ?thesis
    proof (cases "e = 0")
      case True
      then show ?thesis using F assms(2) by simp
    next
      case ne: False
      have "S + c = 65536 * (h + 1) + (65535 - h)" using assms(2) F S False ne by (simp add: e_def)
      then have "(S + c) div 65536 = h + 1" "S + c + (h + 1) = 65536 * (h + 2)" using S(3) by simp_all
      then show ?thesis by (simp add: fold1_def)
    qed
  qed
qed

text \<open>A header that was sent is accepted: its checksum, stored in network byte order, makes the check of \<^verbatim>\<open>ip_in\<close> succeed.\<close>

lemma ipcksum_verifies:
  "ipcksum (p\<lparr>net_ipcksum := htons (ipcksum (p\<lparr>net_ipcksum := 0\<rparr>))\<rparr>) = 0"
proof -
  let ?q = "p\<lparr>net_ipcksum := 0\<rparr>"
  let ?S = "word_sum (hdr_words ?q)" and ?c = "unat (ipcksum ?q)"
  have "word_sum (hdr_words ?q) = word_sum (remove1 0 (hdr_words ?q))"
    by (simp add: hdr_words_def word_sum_def htons_def)
  moreover have "length (remove1 0 (hdr_words ?q)) = 9" by (simp add: hdr_words_def length_remove1)
  ultimately have b: "?S \<le> 589815" using word_sum_le [of "remove1 0 (hdr_words ?q)"] by simp
  have f: "fold1 ?S \<le> 65535" by (simp add: fold1_def)
  have c: "?c = (if fold1 ?S = 0 then 0 else 65535 - fold1 ?S)" using f by (auto simp: ipcksum_nat Let_def)
  have "fold1 (?S + ?c) = 65535 \<or> fold1 (?S + ?c) = 0"
  proof (cases "?S = 0")
    case True
    then show ?thesis using c by (simp add: fold1_def)
  next
    case False
    then show ?thesis using fold1_complement [OF b c] by simp
  qed
  then have "unat (ipcksum (p\<lparr>net_ipcksum := htons (ipcksum ?q)\<rparr>)) = 0"
    unfolding ipcksum_nat [of "p\<lparr>net_ipcksum := htons (ipcksum ?q)\<rparr>"] word_sum_cksum by (auto simp: Let_def)
  then show ?thesis by (simp add: unat_eq_0)
qed

text \<open>The checksum is that of RFC 1071 when the sum of the words carries only once.\<close>

lemma ipcksum_rfc:
  assumes "S = word_sum (hdr_words p)" "0 < S" "S mod 65536 + S div 65536 < 65536"
  shows "unat (ipcksum p) = 65535 - ones_sum S"
proof -
  have "S < 4294836225" using word_sum_le [of "hdr_words p"] assms(1) by (simp add: hdr_words_def)
  then have f: "fold1 S = ones_sum S" using fold1_ones assms(3) by blast
  have "0 < ones_sum S" using assms(2) by (simp add: ones_sum_def)
  then have "\<not> 65535 - ones_sum S = 65535" by linarith
  then show ?thesis unfolding ipcksum_nat assms(1) [symmetric] f Let_def by simp
qed

section \<open>Addresses in dotted decimal\<close>

definition dec :: "nat \<Rightarrow> byte list" where
  "dec n = map (\<lambda>d. of_nat (48 + d)) (if n < 10 then [n] else if n < 100 then [n div 10, n mod 10] else [n div 100, n div 10 mod 10, n mod 10])"

definition dotted :: "nat \<Rightarrow> nat \<Rightarrow> nat \<Rightarrow> nat \<Rightarrow> byte list" where
  "dotted a b c d = dec a @ 46 # dec b @ 46 # dec c @ 46 # dec d"

lemma digit_byte:
  assumes "d < 10"
  shows "uint (of_nat (48 + d) :: byte) = 48 + int d" "(of_nat (48 + d) :: byte) \<noteq> 0" "(of_nat (48 + d) :: byte) \<noteq> 46"
    "\<not> (of_nat (48 + d) :: byte) < 48" "\<not> 57 < (of_nat (48 + d) :: byte)"
proof -
  have "d = 0 \<or> d = 1 \<or> d = 2 \<or> d = 3 \<or> d = 4 \<or> d = 5 \<or> d = 6 \<or> d = 7 \<or> d = 8 \<or> d = 9" using assms by auto
  then show "uint (of_nat (48 + d) :: byte) = 48 + int d" "(of_nat (48 + d) :: byte) \<noteq> 0" "(of_nat (48 + d) :: byte) \<noteq> 46"
    "\<not> (of_nat (48 + d) :: byte) < 48" "\<not> 57 < (of_nat (48 + d) :: byte)" by auto
qed

lemma dot_digit:
  assumes "d < 10" "m p = of_nat (48 + d)"
  shows "dot_segment (Suc n) nch ch0 m p val = dot_segment n (nch + 1) (of_nat (48 + d)) m (p + 1) (10 * val + int d)"
proof -
  note D = digit_byte [OF assms(1)]
  have "uint (of_nat (48 + d) :: byte) - 48 = int d" using D(1) by simp
  then show ?thesis using D(2-5) assms(2) by (simp add: Let_def del: of_nat_add)
qed

lemma dot_stop: "m p = e \<Longrightarrow> e = 0 \<or> e = 46 \<Longrightarrow> dot_segment (Suc n) (Suc k) ch0 m p val = Some (val, e, p + 1)"
  by auto

lemma dot_segment_dec:
  assumes "n < 256" "bytes_at m p (dec n @ [e])" "e = 0 \<or> e = 46"
  shows "dot_segment 4 0 ch0 m p 0 = Some (int n, e, p + length (dec n) + 1)"
proof -
  have n4: "(4 :: nat) = Suc (Suc (Suc (Suc 0)))" by simp
  note step = dot_digit [of _ m p] dot_digit [of _ m "Suc p"] dot_digit [of _ m "Suc (Suc p)"] and stop = dot_stop [OF _ assms(3), of m]
  consider "n < 10" | "10 \<le> n" "n < 100" | "100 \<le> n" by linarith
  then show ?thesis
  proof cases
    case 1
    then have b: "m p = of_nat (48 + n)" "m (Suc p) = e" using assms(2) by (simp_all add: dec_def del: of_nat_add)
    show ?thesis unfolding n4 by (simp only: step(1) [OF 1 b(1)]) (simp add: stop [OF b(2)] 1 dec_def del: of_nat_add dot_segment.simps)
  next
    case 2
    then have b: "m p = of_nat (48 + n div 10)" "m (Suc p) = of_nat (48 + n mod 10)" "m (Suc (Suc p)) = e" and d: "n div 10 < 10"
      using assms(2) by (simp_all add: dec_def del: of_nat_add)
    have v: "10 * int (n div 10) + int (n mod 10) = int n" by presburger
    have d2: "n mod 10 < 10" by simp
    show ?thesis unfolding n4
      by (simp only: step(1) [OF d b(1)] step(2) [OF d2 b(2)] Suc_eq_plus1 [symmetric]) (use 2 v in \<open>simp add: stop [OF b(3)] dec_def del: of_nat_add dot_segment.simps\<close>)
  next
    case 3
    then have b: "m p = of_nat (48 + n div 100)" "m (Suc p) = of_nat (48 + n div 10 mod 10)" "m (Suc (Suc p)) = of_nat (48 + n mod 10)"
      "m (Suc (Suc (Suc p))) = e" and d: "n div 100 < 10" using assms(1,2) by (simp_all add: dec_def del: of_nat_add)
    have "n div 100 = n div 10 div 10" by (simp add: div_mult2_eq [symmetric])
    then have "10 * (10 * (n div 100) + n div 10 mod 10) + n mod 10 = n" using mult_div_mod_eq [of 10 "n div 10"] mult_div_mod_eq [of 10 n] by simp
    from arg_cong [OF this, of int] have v: "10 * (10 * int (n div 100) + int (n div 10 mod 10)) + int (n mod 10) = int n"
      by (simp only: of_nat_add of_nat_mult of_nat_numeral)
    have d2: "n div 10 mod 10 < 10" "n mod 10 < 10" by simp_all
    show ?thesis unfolding n4
      by (simp only: step(1) [OF d b(1)] step(2) [OF d2(1) b(2)] step(3) [OF d2(2) b(3)] Suc_eq_plus1 [symmetric])
        (use 3 v in \<open>simp add: stop [OF b(4)] dec_def del: of_nat_add dot_segment.simps\<close>)
  qed
qed

lemma bytes_at_split: "bytes_at m p (xs @ y # ys) \<Longrightarrow> bytes_at m p (xs @ [y]) \<and> bytes_at m (p + length xs + 1) ys"
  by (simp add: bytes_at_append)

lemma octet:
  assumes "k < 256"
  shows "push_bit 8 (of_nat j) OR word_of_int (int k) = (of_nat (j * 256 + k) :: u32w)"
proof -
  have "push_bit 8 (of_nat j) OR of_nat k = push_bit 8 (of_nat j) + (of_nat k :: u32w)"
  proof (rule disjunctive_add [symmetric])
    fix n show "\<not> bit (push_bit 8 (of_nat j) :: u32w) n \<or> \<not> bit (of_nat k :: u32w) n"
    proof (cases "n < 8")
      case False
      have "k = take_bit 8 k" using assms by (simp add: take_bit_eq_mod)
      then have "\<not> bit k n" using False by (metis bit_take_bit_iff)
      then show ?thesis by (simp add: bit_of_nat_iff)
    qed (simp add: bit_simps)
  qed
  then show ?thesis by (simp add: push_bit_eq_mult)
qed

lemma dot_loop_step:
  assumes "dot_segment 4 0 ch m p 0 = Some (int k, e, p1)" "k < 256"
  shows "dot_loop (Suc n) seg ch m p (of_nat j) =
    (if e = 0 then Some (seg, e, of_nat (j * 256 + k)) else dot_loop n (seg + 1) e m p1 (of_nat (j * 256 + k)))"
  using assms octet [OF assms(2), of j] by (simp del: dot_segment.simps of_nat_add of_nat_mult)

lemma dot2ip_dotted:
  assumes "a < 256" "b < 256" "c < 256" "d < 256" "cstr m p (dotted a b c d)"
  shows "dot2ip m p r0 = (OK, of_nat (((a * 256 + b) * 256 + c) * 256 + d))"
proof -
  have all: "bytes_at m p (dec a @ 46 # dec b @ 46 # dec c @ 46 # dec d @ [0])" using assms(5) by (simp add: cstr_bytes dotted_def)
  let ?p2 = "p + length (dec a) + 1" let ?p3 = "?p2 + length (dec b) + 1" let ?p4 = "?p3 + length (dec c) + 1"
  note s1 = bytes_at_split [OF all]
  note s2 = bytes_at_split [OF s1 [THEN conjunct2]]
  note s3 = bytes_at_split [OF s2 [THEN conjunct2]]
  have seg: "dot_segment 4 0 ch m p 0 = Some (int a, 46, ?p2)" "dot_segment 4 0 ch m ?p2 0 = Some (int b, 46, ?p3)"
    "dot_segment 4 0 ch m ?p3 0 = Some (int c, 46, ?p4)" "dot_segment 4 0 ch m ?p4 0 = Some (int d, 0, ?p4 + length (dec d) + 1)" for ch
    using dot_segment_dec [OF assms(1) s1 [THEN conjunct1]] dot_segment_dec [OF assms(2) s2 [THEN conjunct1]]
      dot_segment_dec [OF assms(3) s3 [THEN conjunct1]] dot_segment_dec [OF assms(4) s3 [THEN conjunct2]] by simp_all
  have n4: "(4 :: nat) = Suc (Suc (Suc (Suc 0)))" by simp
  note step = dot_loop_step [OF seg(1) assms(1), of _ _ _ 0] dot_loop_step [OF seg(2) assms(2)] dot_loop_step [OF seg(3) assms(3)] dot_loop_step [OF seg(4) assms(4)]
  have "dot_loop (Suc (Suc (Suc (Suc 0)))) 0 0 m p (of_nat 0) = Some (Suc (Suc (Suc 0)), 0, of_nat (((a * 256 + b) * 256 + c) * 256 + d))"
    by (simp only: step) (simp add: step del: dot_loop.simps of_nat_add of_nat_mult)
  then show ?thesis by (simp add: dot2ip_def n4 del: dot_loop.simps)
qed

end
