(* ===== verification/Net_State.thy ===== *)
theory Net_State
  imports Net_Packet Ring Bufpool
begin

text \<open>
  The data of the network stack: \<^verbatim>\<open>NetData\<close> of \<^verbatim>\<open>include/net.h\<close>, the tables of \<^verbatim>\<open>include/udp.h\<close>, \<^verbatim>\<open>icmp.h\<close>, \<^verbatim>\<open>arp.h\<close> and \<^verbatim>\<open>ip.h\<close>, and the static
  variables of the functions that number datagrams. \<open>pkts\<close> gives the contents of the packet buffers by their addresses; the buffers are allocated from
  the buffer pool \<^verbatim>\<open>netbufpool\<close> of the kernel. \<open>ethout\<close> are the frames written to the device \<^verbatim>\<open>ETHER0\<close>, oldest first, with the lengths given.

  A call that blocks has the result \<^term>\<open>None\<close>, and what follows the blocking call is a function of its own.
\<close>

datatype udst = UDP_FREE | UDP_USED | UDP_RECV
datatype icst = ICMP_FREE | ICMP_USED | ICMP_RECV
datatype arst = AR_FREE | AR_PENDING | AR_RESOLVED

abbreviation (input) UDP_SLOTS :: int where "UDP_SLOTS \<equiv> 6"
abbreviation (input) UDP_QSIZ :: int where "UDP_QSIZ \<equiv> 8"
abbreviation (input) ICMP_SLOTS :: int where "ICMP_SLOTS \<equiv> 10"
abbreviation (input) ICMP_QSIZ :: int where "ICMP_QSIZ \<equiv> 8"
abbreviation (input) IP_OQSIZ :: int where "IP_OQSIZ \<equiv> 8"
abbreviation (input) ARP_SIZ :: int where "ARP_SIZ \<equiv> 16"

record udpentry =
  udstate :: udst
  udremip :: u32w
  udremport :: u16
  udlocport :: u16
  udhead :: int
  udtail :: int
  udcount :: int
  udpid :: int
  udqueue :: "int \<Rightarrow> nat"

record icmpentry =
  icstate :: icst
  icremip :: u32w
  ichead :: int
  ictail :: int
  iccount :: int
  icpid :: int
  icqueue :: "int \<Rightarrow> nat"

record arpentry =
  arstate :: arst
  arpaddr :: u32w
  arpid :: int
  arhaddr :: "byte list"

record iqentry =
  iqhead :: int
  iqtail :: int
  iqsem :: int
  iqbuf :: "int \<Rightarrow> nat"

record network =
  ipucast :: u32w
  ipbcast :: u32w
  ipmask :: u32w
  ipprefix :: u32w
  iprouter :: u32w
  bootserver :: u32w
  dnsserver :: u32w
  ntpserver :: u32w
  ipvalid :: bool
  ethucast :: "byte list"
  ethbcast :: "byte list"

datatype frame_out = IpFrame netpacket | ArpFrame arppacket

record netst =
  nkern :: kernel
  pkts :: "nat \<Rightarrow> netpacket"
  netdata :: network
  netbufpool :: int
  udptab :: "int \<Rightarrow> udpentry"
  icmptab :: "int \<Rightarrow> icmpentry"
  arpcache :: "int \<Rightarrow> arpentry"
  ipoqueue :: iqentry
  udp_ident :: u16
  udpto_ident :: u16
  icmp_ipident :: u32w
  netportseed :: u32w
  ethout :: "(frame_out \<times> int) list"

definition upd_udp :: "int \<Rightarrow> (udpentry \<Rightarrow> udpentry) \<Rightarrow> netst \<Rightarrow> netst" where
  "upd_udp i g s = s\<lparr>udptab := (udptab s)(i := g (udptab s i))\<rparr>"

definition upd_icmp :: "int \<Rightarrow> (icmpentry \<Rightarrow> icmpentry) \<Rightarrow> netst \<Rightarrow> netst" where
  "upd_icmp i g s = s\<lparr>icmptab := (icmptab s)(i := g (icmptab s i))\<rparr>"

definition upd_arp :: "int \<Rightarrow> (arpentry \<Rightarrow> arpentry) \<Rightarrow> netst \<Rightarrow> netst" where
  "upd_arp i g s = s\<lparr>arpcache := (arpcache s)(i := g (arpcache s i))\<rparr>"

definition upd_kern :: "(kernel \<Rightarrow> kernel) \<Rightarrow> netst \<Rightarrow> netst" where
  "upd_kern g s = s\<lparr>nkern := g (nkern s)\<rparr>"

definition free_pkt :: "nat \<Rightarrow> netst \<Rightarrow> netst" where
  "free_pkt a = upd_kern (\<lambda>k. snd (freebuf a k))"

lemma net_updates [simp]:
  "nkern (upd_udp i g s) = nkern s" "udptab (upd_udp i g s) = (udptab s)(i := g (udptab s i))" "pkts (upd_udp i g s) = pkts s"
  "nkern (upd_icmp i h s) = nkern s" "icmptab (upd_icmp i h s) = (icmptab s)(i := h (icmptab s i))" "pkts (upd_icmp i h s) = pkts s"
  "nkern (upd_arp i r s) = nkern s" "arpcache (upd_arp i r s) = (arpcache s)(i := r (arpcache s i))" "netdata (upd_arp i r s) = netdata s"
  "nkern (upd_kern q s) = q (nkern s)" "udptab (upd_kern q s) = udptab s" "icmptab (upd_kern q s) = icmptab s" "arpcache (upd_kern q s) = arpcache s"
  "pkts (upd_kern q s) = pkts s" "netdata (upd_kern q s) = netdata s" "ethout (upd_kern q s) = ethout s" "ethout (upd_arp i r s) = ethout s"
  "pkts (upd_arp i r s) = pkts s"
  by (simp_all add: upd_udp_def upd_icmp_def upd_arp_def upd_kern_def)

lemma free_pkt_keeps [simp]:
  "udptab (free_pkt a s) = udptab s" "icmptab (free_pkt a s) = icmptab s" "arpcache (free_pkt a s) = arpcache s" "pkts (free_pkt a s) = pkts s"
  "netdata (free_pkt a s) = netdata s" "ethout (free_pkt a s) = ethout s" "nkern (free_pkt a s) = snd (freebuf a (nkern s))"
  by (simp_all add: free_pkt_def)

end
