(* ===== verification/Udp.thy ===== *)
theory Udp
  imports Net_State
begin

text \<open>
  UDP endpoints, \<^verbatim>\<open>net/udp.c\<close> without the functions that send: registration, delivery of incoming packets, receiving and release. Each endpoint has a
  circular queue of eight packets.
\<close>

section \<open>Operations\<close>

definition udp_init :: "netst \<Rightarrow> netst" where
  "udp_init s = s\<lparr>udptab := \<lambda>i. if 0 \<le> i \<and> i < UDP_SLOTS then (udptab s i)\<lparr>udstate := UDP_FREE\<rparr> else udptab s i\<rparr>"

definition udp_match :: "udpentry \<Rightarrow> netpacket \<Rightarrow> bool" where
  "udp_match e p \<longleftrightarrow> net_udpdport p = udlocport e \<and> (udremport e = 0 \<or> net_udpsport p = udremport e) \<and> (udremip e = 0 \<or> net_ipsrc p = udremip e)"

definition udp_put :: "nat \<Rightarrow> udpentry \<Rightarrow> udpentry" where
  "udp_put a e = e\<lparr>udcount := udcount e + 1, udqueue := (udqueue e)(udtail e := a), udtail := wrap UDP_QSIZ (udtail e + 1)\<rparr>"

fun udp_in_loop :: "nat \<Rightarrow> int \<Rightarrow> nat \<Rightarrow> netst \<Rightarrow> netst" where
  "udp_in_loop 0 i a s = free_pkt a s"
| "udp_in_loop (Suc n) i a s =
     (if udstate (udptab s i) = UDP_FREE then udp_in_loop n (i + 1) a s
      else if udp_match (udptab s i) (pkts s a) \<and> udcount (udptab s i) < UDP_QSIZ then
        let s1 = upd_udp i (udp_put a) s in
        if udstate (udptab s1 i) = UDP_RECV then
          let s2 = upd_udp i (\<lambda>e. e\<lparr>udstate := UDP_USED\<rparr>) s1
          in upd_kern (\<lambda>k. snd (send (udpid (udptab s2 i)) 1 k)) s2
        else s1
      else udp_in_loop n (i + 1) a s)"

definition udp_in :: "nat \<Rightarrow> netst \<Rightarrow> netst" where
  "udp_in a s = udp_in_loop 6 0 a s"

fun udp_registered :: "nat \<Rightarrow> int \<Rightarrow> u32w \<Rightarrow> u16 \<Rightarrow> u16 \<Rightarrow> netst \<Rightarrow> bool" where
  "udp_registered 0 slot remip remport locport s = False"
| "udp_registered (Suc n) slot remip remport locport s =
     (let e = udptab s slot in
      if udstate e = UDP_FREE then udp_registered n (slot + 1) remip remport locport s
      else if remport = udremport e \<and> locport = udlocport e \<and> remip = udremip e then True
      else udp_registered n (slot + 1) remip remport locport s)"

fun udp_alloc :: "nat \<Rightarrow> int \<Rightarrow> u32w \<Rightarrow> u16 \<Rightarrow> u16 \<Rightarrow> netst \<Rightarrow> int \<times> netst" where
  "udp_alloc 0 slot remip remport locport s = (SYSERR, s)"
| "udp_alloc (Suc n) slot remip remport locport s =
     (if udstate (udptab s slot) \<noteq> UDP_FREE then udp_alloc n (slot + 1) remip remport locport s
      else (slot, upd_udp slot (\<lambda>e. e\<lparr>udlocport := locport, udremport := remport, udremip := remip, udcount := 0, udhead := 0, udtail := 0,
                                       udpid := - 1, udstate := UDP_USED\<rparr>) s))"

definition udp_register :: "u32w \<Rightarrow> u16 \<Rightarrow> u16 \<Rightarrow> netst \<Rightarrow> int \<times> netst" where
  "udp_register remip remport locport s =
     (if udp_registered 6 0 remip remport locport s then (SYSERR, s) else udp_alloc 6 0 remip remport locport s)"

text \<open>Taking the next packet from the queue of an endpoint.\<close>

definition udp_get :: "udpentry \<Rightarrow> nat \<times> udpentry" where
  "udp_get e = (udqueue e (udhead e), e\<lparr>udhead := wrap UDP_QSIZ (udhead e + 1), udcount := udcount e - 1\<rparr>)"

fun copy_data :: "nat \<Rightarrow> bmem \<Rightarrow> nat \<Rightarrow> bmem \<Rightarrow> nat \<Rightarrow> bmem" where
  "copy_data 0 m buff d i = m"
| "copy_data (Suc n) m buff d i = copy_data n (m(buff := d i)) (buff + 1) d (i + 1)"

definition udp_msglen :: "netpacket \<Rightarrow> int \<Rightarrow> int" where
  "udp_msglen p len = (let msglen = uint (net_udplen p) - UDP_HDR_LEN in if len < msglen then len else msglen)"

definition udp_take :: "int \<Rightarrow> bmem \<Rightarrow> nat \<Rightarrow> int \<Rightarrow> netst \<Rightarrow> (int \<times> bmem) \<times> netst" where
  "udp_take slot m buff len s =
     (let (a, e) = udp_get (udptab s slot);
          s1 = upd_udp slot (\<lambda>_. e) s;
          msglen = udp_msglen (pkts s a) len
      in ((msglen, copy_data (nat msglen) m buff (net_udpdata (pkts s a)) 0), free_pkt a s1))"

text \<open>What \<^verbatim>\<open>udp_recv\<close> does with the message that \<^verbatim>\<open>recvtime\<close> returned.\<close>

definition udp_recv_msg :: "umsg32 \<Rightarrow> int \<Rightarrow> bmem \<Rightarrow> nat \<Rightarrow> int \<Rightarrow> netst \<Rightarrow> (int \<times> bmem) \<times> netst" where
  "udp_recv_msg msg slot m buff len s =
     (let s1 = upd_udp slot (\<lambda>e. e\<lparr>udstate := UDP_USED\<rparr>) s in
      if msg = - 3 then ((TIMEOUT, m), s1) else if msg \<noteq> 1 then ((SYSERR, m), s1) else udp_take slot m buff len s1)"

text \<open>The first part of waiting: the endpoint is marked and \<^verbatim>\<open>recvtime\<close> called.\<close>

definition udp_wait :: "int \<Rightarrow> u32w \<Rightarrow> netst \<Rightarrow> umsg32 option \<times> netst" where
  "udp_wait slot timeout s =
     (let s1 = upd_udp slot (\<lambda>e. e\<lparr>udstate := UDP_RECV, udpid := currpid (nkern s)\<rparr>) s;
          s2 = upd_kern (\<lambda>k. snd (recvclr k)) s1;
          (r, k) = recvtime (sint timeout) (nkern s2)
      in (r, s2\<lparr>nkern := k\<rparr>))"

definition udp_recv :: "int \<Rightarrow> bmem \<Rightarrow> nat \<Rightarrow> int \<Rightarrow> u32w \<Rightarrow> netst \<Rightarrow> (int \<times> bmem) option \<times> netst" where
  "udp_recv slot m buff len timeout s =
     (if slot < 0 \<or> slot \<ge> UDP_SLOTS then (Some (SYSERR, m), s)
      else if udstate (udptab s slot) \<noteq> UDP_USED then (Some (SYSERR, m), s)
      else if udcount (udptab s slot) = 0 then
        (case udp_wait slot timeout s of
           (None, s1) \<Rightarrow> (None, s1)
         | (Some msg, s1) \<Rightarrow> (let (r, s2) = udp_recv_msg msg slot m buff len s1 in (Some r, s2)))
      else let (r, s1) = udp_take slot m buff len s in (Some r, s1))"

text \<open>\<^verbatim>\<open>udp_recvaddr\<close> also stores the sender's address and port; \<open>ra\<close> is what these locations hold before.\<close>

definition udp_sender :: "int \<Rightarrow> netst \<Rightarrow> u32w \<times> u16" where
  "udp_sender slot s = (let p = pkts s (udqueue (udptab s slot) (udhead (udptab s slot))) in (net_ipsrc p, net_udpsport p))"

definition udp_recvaddr :: "int \<Rightarrow> u32w \<times> u16 \<Rightarrow> bmem \<Rightarrow> nat \<Rightarrow> int \<Rightarrow> u32w \<Rightarrow> netst \<Rightarrow> (int \<times> (u32w \<times> u16) \<times> bmem) option \<times> netst" where
  "udp_recvaddr slot ra m buff len timeout s =
     (if slot < 0 \<or> slot \<ge> UDP_SLOTS then (Some (SYSERR, ra, m), s)
      else if udstate (udptab s slot) \<noteq> UDP_USED then (Some (SYSERR, ra, m), s)
      else if udcount (udptab s slot) = 0 then
        (case udp_wait slot timeout s of
           (None, s1) \<Rightarrow> (None, s1)
         | (Some msg, s1) \<Rightarrow>
             let s2 = upd_udp slot (\<lambda>e. e\<lparr>udstate := UDP_USED\<rparr>) s1 in
             if msg = - 3 then (Some (TIMEOUT, ra, m), s2)
             else if msg \<noteq> 1 then (Some (SYSERR, ra, m), s2)
             else let ((r, m1), s3) = udp_take slot m buff len s2 in (Some (r, udp_sender slot s2, m1), s3))
      else let ((r, m1), s1) = udp_take slot m buff len s in (Some (r, udp_sender slot s, m1), s1))"

function udp_release_loop :: "int \<Rightarrow> netst \<Rightarrow> netst" where
  "udp_release_loop slot s =
     (if udcount (udptab s slot) > 0 then
        let (a, e) = udp_get (udptab s slot)
        in udp_release_loop slot (free_pkt a (upd_udp slot (\<lambda>_. e) s))
      else s)"
  by pat_completeness auto
termination
  by (relation "measure (\<lambda>(slot, s). nat (udcount (udptab s slot)))") (auto simp: udp_get_def)

definition udp_release :: "int \<Rightarrow> netst \<Rightarrow> int \<times> netst" where
  "udp_release slot s =
     (if slot < 0 \<or> slot \<ge> UDP_SLOTS then (SYSERR, s)
      else if udstate (udptab s slot) = UDP_FREE then (SYSERR, s)
      else
        let s1 = upd_kern (\<lambda>k. snd (resched_cntl DEFER_START k)) s;
            s2 = udp_release_loop slot s1;
            s3 = upd_udp slot (\<lambda>e. e\<lparr>udstate := UDP_FREE\<rparr>) s2
        in (OK, upd_kern (\<lambda>k. snd (resched_cntl DEFER_STOP k)) s3))"

section \<open>The queue of an endpoint\<close>

definition udp_packets :: "udpentry \<Rightarrow> nat list" where
  "udp_packets e = map (\<lambda>i. udqueue e ((udhead e + int i) mod UDP_QSIZ)) [0..<nat (udcount e)]"

definition queue_ok :: "udpentry \<Rightarrow> bool" where
  "queue_ok e \<longleftrightarrow> 0 \<le> udcount e \<and> ring UDP_QSIZ (udqueue e) (udhead e) (udtail e) (udp_packets e)"

lemma ring_unique:
  assumes "ring n b h t xs" "0 \<le> c" "c = int (length xs)"
  shows "map (\<lambda>i. b ((h + int i) mod n)) [0..<nat c] = xs"
  using assms by (intro nth_equalityI) (auto simp: ring_def)

lemma queue_okI:
  assumes "ring UDP_QSIZ (udqueue e) (udhead e) (udtail e) xs" "udcount e = int (length xs)"
  shows "queue_ok e \<and> udp_packets e = xs"
  using ring_unique [OF assms(1), of "udcount e"] assms by (simp add: queue_ok_def udp_packets_def)

lemma queue_ok_length: "queue_ok e \<Longrightarrow> udcount e = int (length (udp_packets e))"
  by (simp add: queue_ok_def udp_packets_def)

interpretation uq: fifo queue_ok udp_packets "\<lambda>a e. udcount e < UDP_QSIZ" udp_put udp_get
proof unfold_locales
  fix e a assume q: "queue_ok e" and r: "udcount e < UDP_QSIZ"
  then have "ring UDP_QSIZ ((udqueue e)(udtail e := a)) (udhead e) (wrap UDP_QSIZ (udtail e + 1)) (udp_packets e @ [a])"
    using queue_ok_length [OF q] by (intro ring_put) (simp_all add: queue_ok_def)
  then show "queue_ok (udp_put a e) \<and> udp_packets (udp_put a e) = udp_packets e @ [a]"
    using queue_ok_length [OF q] by (intro queue_okI) (simp_all add: udp_put_def)
next
  fix e a as assume q: "queue_ok e" and c: "udp_packets e = a # as"
  then have r: "ring UDP_QSIZ (udqueue e) (udhead e) (udtail e) (a # as)" by (simp add: queue_ok_def)
  have "queue_ok (snd (udp_get e)) \<and> udp_packets (snd (udp_get e)) = as"
    using ring_get(2) [OF r] queue_ok_length [OF q] c by (intro queue_okI) (simp_all add: udp_get_def)
  then show "fst (udp_get e) = a \<and> queue_ok (snd (udp_get e)) \<and> udp_packets (snd (udp_get e)) = as"
    using ring_get(1) [OF r] by (simp add: udp_get_def)
qed

section \<open>The table of endpoints\<close>

definition endpoint :: "udpentry \<Rightarrow> u32w \<times> u16 \<times> u16" where
  "endpoint e = (udremip e, udremport e, udlocport e)"

definition in_use :: "netst \<Rightarrow> int \<Rightarrow> bool" where
  "in_use s i \<longleftrightarrow> 0 \<le> i \<and> i < UDP_SLOTS \<and> udstate (udptab s i) \<noteq> UDP_FREE"

definition udp_ok :: "netst \<Rightarrow> bool" where
  "udp_ok s \<longleftrightarrow> (\<forall>i. in_use s i \<longrightarrow> queue_ok (udptab s i)) \<and>
     (\<forall>i j. in_use s i \<longrightarrow> in_use s j \<longrightarrow> endpoint (udptab s i) = endpoint (udptab s j) \<longrightarrow> i = j)"

lemma udp_ok_cong: "udptab s' = udptab s \<Longrightarrow> udp_ok s' = udp_ok s"
  by (simp add: udp_ok_def in_use_def)

text \<open>An update that keeps the endpoint and the state of being in use.\<close>

lemma udp_ok_upd:
  assumes "udp_ok s" "udptab s' = (udptab s)(i := e)" "endpoint e = endpoint (udptab s i)" "udstate e \<noteq> UDP_FREE \<longrightarrow> in_use s i \<and> queue_ok e"
  shows "udp_ok s'"
proof -
  have u: "in_use s' j \<Longrightarrow> in_use s j" for j using assms(2,4) by (auto simp: in_use_def split: if_splits)
  have "queue_ok (udptab s' j)" if "in_use s' j" for j
    using assms(1,2,4) u [OF that] that by (auto simp: udp_ok_def in_use_def)
  moreover have "endpoint (udptab s' j) = endpoint (udptab s j)" for j using assms(2,3) by simp
  ultimately show ?thesis using assms(1) u unfolding udp_ok_def by metis
qed

lemma udp_init_ok: "udp_ok (udp_init s)"
  by (auto simp add: udp_ok_def in_use_def udp_init_def)

section \<open>Delivery\<close>

definition accepts :: "netst \<Rightarrow> nat \<Rightarrow> int \<Rightarrow> bool" where
  "accepts s a i \<longleftrightarrow> udstate (udptab s i) \<noteq> UDP_FREE \<and> udp_match (udptab s i) (pkts s a) \<and> udcount (udptab s i) < UDP_QSIZ"

definition udp_deliver :: "int \<Rightarrow> nat \<Rightarrow> netst \<Rightarrow> netst" where
  "udp_deliver i a s =
     (let s1 = upd_udp i (\<lambda>e. (udp_put a e)\<lparr>udstate := UDP_USED\<rparr>) s
      in if udstate (udptab s i) = UDP_RECV then upd_kern (\<lambda>k. snd (send (udpid (udptab s i)) 1 k)) s1 else s1)"

lemma udp_put_fields [simp]: "udstate (udp_put a e) = udstate e" "udpid (udp_put a e) = udpid e" "endpoint (udp_put a e) = endpoint e"
  by (simp_all add: udp_put_def endpoint_def)

lemma upd_udp_twice: "upd_udp i g (upd_udp i h s) = upd_udp i (\<lambda>e. g (h e)) s"
  by (simp add: upd_udp_def)

lemma upd_udp_cong: "g (udptab s i) = h (udptab s i) \<Longrightarrow> upd_udp i g s = upd_udp i h s"
  by (simp add: upd_udp_def)

lemma udp_in_loop_spec:
  "udp_in_loop n i a s = (case find (accepts s a) (map (\<lambda>j. i + int j) [0..<n]) of None \<Rightarrow> free_pkt a s | Some j \<Rightarrow> udp_deliver j a s)"
proof (induction n arbitrary: i)
  case (Suc n)
  have m: "map (\<lambda>j. i + int j) [0..<Suc n] = i # map (\<lambda>j. (i + 1) + int j) [0..<n]"
    by (simp add: upt_conv_Cons map_Suc_upt [symmetric] del: upt_Suc map_Suc_upt)
  show ?case
  proof (cases "accepts s a i")
    case True
    then have "udp_in_loop (Suc n) i a s = udp_deliver i a s"
    proof (cases "udstate (udptab s i)")
      case UDP_USED
      then have "udp_put a (udptab s i) = (udp_put a (udptab s i))\<lparr>udstate := UDP_USED\<rparr>" by (simp add: udp_put_def)
      then show ?thesis using True UDP_USED upd_udp_cong [of "udp_put a" s i "\<lambda>e. (udp_put a e)\<lparr>udstate := UDP_USED\<rparr>"]
        by (simp add: accepts_def udp_deliver_def)
    qed (simp_all add: accepts_def udp_deliver_def upd_udp_twice)
    then show ?thesis using True m by simp
  next
    case False
    then show ?thesis using Suc.IH [of "i + 1"] m by (auto simp: accepts_def)
  qed
qed simp

lemma udp_in_spec: "udp_in a s = (case find (accepts s a) [0, 1, 2, 3, 4, 5] of None \<Rightarrow> free_pkt a s | Some i \<Rightarrow> udp_deliver i a s)"
  unfolding udp_in_def udp_in_loop_spec by (simp add: upt_rec)

lemma state_upd [simp]:
  "queue_ok (e\<lparr>udstate := st\<rparr>) = queue_ok e" "udp_packets (e\<lparr>udstate := st\<rparr>) = udp_packets e" "endpoint (e\<lparr>udstate := st\<rparr>) = endpoint e"
  "queue_ok (e\<lparr>udpid := i\<rparr>) = queue_ok e" "udp_packets (e\<lparr>udpid := i\<rparr>) = udp_packets e" "endpoint (e\<lparr>udpid := i\<rparr>) = endpoint e"
  by (simp_all add: queue_ok_def udp_packets_def endpoint_def)

lemma find_slot: "find P [0, 1, 2, 3, 4, 5 :: int] = Some i \<Longrightarrow> P i \<and> 0 \<le> i \<and> i < UDP_SLOTS"
  by (auto split: if_splits)

lemma udp_in_delivers:
  assumes "udp_ok s" "find (accepts s a) [0, 1, 2, 3, 4, 5] = Some i"
  shows "udp_in a s = udp_deliver i a s" "udp_packets (udptab (udp_deliver i a s) i) = udp_packets (udptab s i) @ [a]"
    "j \<noteq> i \<Longrightarrow> udptab (udp_deliver i a s) j = udptab s j" "udstate (udptab (udp_deliver i a s) i) = UDP_USED" "udp_ok (udp_deliver i a s)"
proof -
  have i: "accepts s a i" "in_use s i" using find_slot [OF assms(2)] by (auto simp: in_use_def accepts_def)
  have t: "udptab (udp_deliver i a s) = (udptab s)(i := (udp_put a (udptab s i))\<lparr>udstate := UDP_USED\<rparr>)" by (simp add: udp_deliver_def Let_def)
  have q: "queue_ok (udp_put a (udptab s i)) \<and> udp_packets (udp_put a (udptab s i)) = udp_packets (udptab s i) @ [a]"
    by (rule uq.put_law) (use i assms(1) in \<open>simp_all add: udp_ok_def accepts_def\<close>)
  show "udp_in a s = udp_deliver i a s" using assms(2) by (simp add: udp_in_spec)
  show "udp_packets (udptab (udp_deliver i a s) i) = udp_packets (udptab s i) @ [a]" "j \<noteq> i \<Longrightarrow> udptab (udp_deliver i a s) j = udptab s j"
    "udstate (udptab (udp_deliver i a s) i) = UDP_USED" using t q by simp_all
  show "udp_ok (udp_deliver i a s)" by (rule udp_ok_upd [OF assms(1) t]) (use i q in simp_all)
qed

section \<open>Registration\<close>

lemma udp_registered_iff:
  "udp_registered n slot remip remport locport s \<longleftrightarrow>
   (\<exists>j. slot \<le> j \<and> j < slot + int n \<and> udstate (udptab s j) \<noteq> UDP_FREE \<and> endpoint (udptab s j) = (remip, remport, locport))"
proof (induction n arbitrary: slot)
  case (Suc n)
  have "(\<exists>j. slot \<le> j \<and> j < slot + int (Suc n) \<and> P j) \<longleftrightarrow> P slot \<or> (\<exists>j. slot + 1 \<le> j \<and> j < slot + 1 + int n \<and> P j)" for P
  proof -
    have "slot \<le> j \<and> j < slot + int (Suc n) \<longleftrightarrow> j = slot \<or> slot + 1 \<le> j \<and> j < slot + 1 + int n" for j by auto
    then show ?thesis by (metis (no_types, lifting))
  qed
  then show ?case using Suc.IH [of "slot + 1"] by (auto simp: endpoint_def Let_def)
qed auto

lemma udp_alloc_spec:
  "udp_alloc n slot remip remport locport s =
   (case find (\<lambda>j. udstate (udptab s j) = UDP_FREE) (map (\<lambda>j. slot + int j) [0..<n]) of
      None \<Rightarrow> (SYSERR, s)
    | Some i \<Rightarrow> (i, upd_udp i (\<lambda>e. e\<lparr>udlocport := locport, udremport := remport, udremip := remip, udcount := 0, udhead := 0, udtail := 0,
                                       udpid := - 1, udstate := UDP_USED\<rparr>) s))"
proof (induction n arbitrary: slot)
  case (Suc n)
  have m: "map (\<lambda>j. slot + int j) [0..<Suc n] = slot # map (\<lambda>j. (slot + 1) + int j) [0..<n]"
    by (simp add: upt_conv_Cons map_Suc_upt [symmetric] del: upt_Suc map_Suc_upt)
  show ?case using Suc.IH [of "slot + 1"] unfolding m by auto
qed simp

text \<open>The entry a new registration gets.\<close>

definition fresh :: "u32w \<Rightarrow> u16 \<Rightarrow> u16 \<Rightarrow> udpentry \<Rightarrow> udpentry" where
  "fresh remip remport locport e = e\<lparr>udlocport := locport, udremport := remport, udremip := remip, udcount := 0, udhead := 0, udtail := 0,
     udpid := - 1, udstate := UDP_USED\<rparr>"

lemma fresh_facts: "endpoint (fresh a b c e) = (a, b, c)" "udp_packets (fresh a b c e) = []" "queue_ok (fresh a b c e)" "udstate (fresh a b c e) = UDP_USED"
  by (simp_all add: fresh_def endpoint_def udp_packets_def queue_ok_def ring_def)

lemma udp_register_cases:
  "udp_register remip remport locport s =
     (if \<exists>i. in_use s i \<and> endpoint (udptab s i) = (remip, remport, locport) then (SYSERR, s)
      else case find (\<lambda>j. udstate (udptab s j) = UDP_FREE) [0, 1, 2, 3, 4, 5] of
             None \<Rightarrow> (SYSERR, s)
           | Some i \<Rightarrow> (i, upd_udp i (fresh remip remport locport) s))"
proof -
  have "udp_registered 6 0 remip remport locport s \<longleftrightarrow> (\<exists>i. in_use s i \<and> endpoint (udptab s i) = (remip, remport, locport))"
    by (auto simp: udp_registered_iff in_use_def)
  moreover have "map (\<lambda>j. 0 + int j) [0..<6] = [0, 1, 2, 3, 4, 5]" by (simp add: upt_rec)
  ultimately show ?thesis unfolding udp_register_def udp_alloc_spec fresh_def by (simp only:)
qed

lemma slots_full: "find (\<lambda>j. udstate (udptab s j) = UDP_FREE) [0, 1, 2, 3, 4, 5] = None \<Longrightarrow> 0 \<le> i \<Longrightarrow> i < UDP_SLOTS \<Longrightarrow> in_use s i"
proof -
  assume n: "find (\<lambda>j. udstate (udptab s j) = UDP_FREE) [0, 1, 2, 3, 4, 5] = None" and i: "0 \<le> i" "i < UDP_SLOTS"
  have "i \<in> set [0, 1, 2, 3, 4, 5]" using i by auto
  then show ?thesis using n i unfolding find_None_iff by (auto simp: in_use_def)
qed

lemma fresh_ok:
  assumes "udp_ok s" "udstate (udptab s i) = UDP_FREE" "0 \<le> i" "i < UDP_SLOTS" "\<nexists>j. in_use s j \<and> endpoint (udptab s j) = (a, b, c)"
  shows "udp_ok (upd_udp i (fresh a b c) s)"
proof -
  let ?s = "upd_udp i (fresh a b c) s"
  have u: "in_use ?s j \<longleftrightarrow> j = i \<or> in_use s j" for j using assms(2-4) by (auto simp: in_use_def fresh_facts)
  have e: "endpoint (udptab ?s j) = (if j = i then (a, b, c) else endpoint (udptab s j))" for j by (simp add: fresh_facts)
  have n: "\<not> in_use s i" using assms(2) by (simp add: in_use_def)
  have "queue_ok (udptab ?s j)" if "in_use ?s j" for j using that assms(1) by (auto simp: u fresh_facts udp_ok_def)
  moreover have "j = k" if "in_use ?s j" "in_use ?s k" "endpoint (udptab ?s j) = endpoint (udptab ?s k)" for j k
    using that assms(1,5) n unfolding u e udp_ok_def by (metis (no_types, opaque_lifting))
  ultimately show ?thesis by (simp add: udp_ok_def)
qed

section \<open>Receiving and releasing\<close>

lemma copy_data_ok:
  "bytes_at (copy_data n m buff d i) buff (map (\<lambda>j. d (i + j)) [0..<n]) \<and> writes m (copy_data n m buff d i) buff n"
proof (induction n arbitrary: m buff i)
  case (Suc n)
  have "map (\<lambda>j. d (i + j)) [0..<Suc n] = d i # map (\<lambda>j. d (Suc i + j)) [0..<n]"
    by (simp add: upt_conv_Cons map_Suc_upt [symmetric] del: upt_Suc map_Suc_upt)
  then show ?case using writes_put [OF Suc.IH [of "m(buff := d i)" "Suc buff" "Suc i"]] by (simp add: fun_upd_def)
qed (simp add: writes_def)

lemma udp_take_ok:
  assumes "udp_ok s" "in_use s slot" "udp_packets (udptab s slot) = a # as"
  obtains s' m' where "udp_take slot m buff len s = ((udp_msglen (pkts s a) len, m'), s')"
    "bytes_at m' buff (map (net_udpdata (pkts s a)) [0..<nat (udp_msglen (pkts s a) len)])" "writes m m' buff (nat (udp_msglen (pkts s a) len))"
    "udp_packets (udptab s' slot) = as" "\<And>j. j \<noteq> slot \<Longrightarrow> udptab s' j = udptab s j" "udp_ok s'" "nkern s' = snd (freebuf a (nkern s))"
    "udstate (udptab s' slot) = udstate (udptab s slot)"
proof -
  obtain b e where g: "udp_get (udptab s slot) = (b, e)" by (cases "udp_get (udptab s slot)")
  have "queue_ok (udptab s slot)" using assms(1,2) by (simp add: udp_ok_def)
  from uq.get_law [OF this assms(3)] have l: "b = a" "queue_ok e" "udp_packets e = as" using g by simp_all
  have e: "endpoint e = endpoint (udptab s slot)" "udstate e = udstate (udptab s slot)" using g by (auto simp: udp_get_def endpoint_def)
  let ?n = "udp_msglen (pkts s a) len"
  let ?m = "copy_data (nat ?n) m buff (net_udpdata (pkts s a)) 0" and ?s = "free_pkt a (upd_udp slot (\<lambda>_. e) s)"
  have "udp_take slot m buff len s = ((?n, ?m), ?s)" using g l(1) by (simp add: udp_take_def Let_def)
  moreover have "udp_ok ?s" by (rule udp_ok_upd [OF assms(1), of _ slot e]) (use e l assms(2) in simp_all)
  moreover note copy_data_ok [of "nat ?n" m buff "net_udpdata (pkts s a)" 0]
  ultimately show thesis using that [of ?m ?s] l(3) e(2) by simp
qed

lemma udp_release_loop_ok:
  assumes "udp_ok s" "in_use s slot"
  shows "udp_ok (udp_release_loop slot s) \<and> udp_packets (udptab (udp_release_loop slot s) slot) = [] \<and>
    (\<forall>j. j \<noteq> slot \<longrightarrow> udptab (udp_release_loop slot s) j = udptab s j) \<and>
    nkern (udp_release_loop slot s) = fold (\<lambda>a k. snd (freebuf a k)) (udp_packets (udptab s slot)) (nkern s) \<and>
    udstate (udptab (udp_release_loop slot s) slot) = udstate (udptab s slot)"
  using assms
proof (induction slot s rule: udp_release_loop.induct)
  case (1 slot s)
  have q: "queue_ok (udptab s slot)" using 1(2,3) by (simp add: udp_ok_def)
  show ?case
  proof (cases "udp_packets (udptab s slot)")
    case Nil
    then have "\<not> udcount (udptab s slot) > 0" using queue_ok_length [OF q] by simp
    then show ?thesis using Nil 1(2) by (subst (1 2 3 4 5) udp_release_loop.simps) simp
  next
    case (Cons a as)
    obtain b e where g: "udp_get (udptab s slot) = (b, e)" by (cases "udp_get (udptab s slot)")
    from uq.get_law [OF q Cons] have l: "b = a" "queue_ok e" "udp_packets e = as" using g by simp_all
    have e: "endpoint e = endpoint (udptab s slot)" "udstate e = udstate (udptab s slot)" using g by (auto simp: udp_get_def endpoint_def)
    let ?s = "free_pkt a (upd_udp slot (\<lambda>_. e) s)"
    have c: "udcount (udptab s slot) > 0" using queue_ok_length [OF q] Cons by simp
    have ok: "udp_ok ?s" by (rule udp_ok_upd [OF 1(2), of _ slot e]) (use e l 1(3) in simp_all)
    have us: "in_use ?s slot" using 1(3) e(2) by (simp add: in_use_def)
    have r: "udp_release_loop slot s = udp_release_loop slot ?s" using c g l(1) by (subst udp_release_loop.simps) simp
    have IH: "udp_ok (udp_release_loop slot ?s) \<and> udp_packets (udptab (udp_release_loop slot ?s) slot) = [] \<and>
      (\<forall>j. j \<noteq> slot \<longrightarrow> udptab (udp_release_loop slot ?s) j = udptab ?s j) \<and>
      nkern (udp_release_loop slot ?s) = fold (\<lambda>a k. snd (freebuf a k)) (udp_packets (udptab ?s slot)) (nkern ?s) \<and>
      udstate (udptab (udp_release_loop slot ?s) slot) = udstate (udptab ?s slot)"
      using 1(1) [OF c g [symmetric] refl] ok us l(1) by simp
    then show ?thesis unfolding r using e l Cons by simp
  qed
qed

end
