(* ===== verification/Icmp.thy ===== *)
theory Icmp
  imports Udp
begin

text \<open>
  Ping, \<^verbatim>\<open>net/icmp.c\<close> without \<^verbatim>\<open>icmp_send\<close>: the table of processes that wait for echo replies and the answer to echo requests, and the output queue
  of IP that the answers are put on, \<^verbatim>\<open>ip_enqueue\<close> of \<^verbatim>\<open>net/ip.c\<close>.

  The data of a packet is given by a function on the offsets; an operation that copies more than the 1472 bytes that a packet buffer has
  writes past the buffer, which the model does not show. The head index of an ICMP queue runs to \<^verbatim>\<open>ICMP_SLOTS\<close> and the tail index to
  \<^verbatim>\<open>ICMP_QSIZ\<close>, as in the code: the words at the indices 8 and 9, which lie behind the array, are what \<^term>\<open>icqueue\<close> gives there.
\<close>

abbreviation (input) ICMP_ECHOREPLY :: byte where "ICMP_ECHOREPLY \<equiv> 0"
abbreviation (input) ICMP_ECHOREQST :: byte where "ICMP_ECHOREQST \<equiv> 8"

section \<open>The output queue of IP\<close>

definition iq_put :: "nat \<Rightarrow> iqentry \<Rightarrow> iqentry" where
  "iq_put a q = q\<lparr>iqbuf := (iqbuf q)(iqtail q := a), iqtail := wrap IP_OQSIZ (iqtail q + 1)\<rparr>"

definition ip_enqueue :: "nat \<Rightarrow> netst \<Rightarrow> int \<times> netst" where
  "ip_enqueue a s =
     (if semcount (iqsem (ipoqueue s)) (nkern s) \<ge> IP_OQSIZ then (SYSERR, free_pkt a s)
      else
        let s1 = s\<lparr>ipoqueue := iq_put a (ipoqueue s)\<rparr>
        in (OK, upd_kern (\<lambda>k. snd (signal (iqsem (ipoqueue s1)) k)) s1))"

definition iq_get :: "iqentry \<Rightarrow> nat \<times> iqentry" where
  "iq_get q = (iqbuf q (iqhead q), q\<lparr>iqhead := wrap IP_OQSIZ (iqhead q + 1)\<rparr>)"

section \<open>Operations\<close>

definition icmp_init :: "netst \<Rightarrow> netst" where
  "icmp_init s = s\<lparr>icmptab := \<lambda>i. if 0 \<le> i \<and> i < ICMP_SLOTS then (icmptab s i)\<lparr>icstate := ICMP_FREE\<rparr> else icmptab s i\<rparr>"

text \<open>What \<^verbatim>\<open>icmp_mkpkt\<close> stores in the buffer \<open>a\<close>; the address to send to is filled in by the caller of \<^verbatim>\<open>ip_out\<close>.\<close>

definition icmp_fill :: "nat \<Rightarrow> u32w \<Rightarrow> u16 \<Rightarrow> u16 \<Rightarrow> u16 \<Rightarrow> bmem \<Rightarrow> int \<Rightarrow> netst \<Rightarrow> netst" where
  "icmp_fill a remip type ident seq buf len s =
     (let p = pkts s a in
      s\<lparr>pkts := (pkts s)(a := p\<lparr>net_ethsrc := ethucast (netdata s), net_ethtype := ETH_IP, net_ipvh := 0x45, net_iptos := 0,
           net_iplen := word_of_int (IP_HDR_LEN + ICMP_HDR_LEN + len), net_ipid := ucast (icmp_ipident s), net_ipfrag := 0,
           net_ipttl := 0xff, net_ipproto := IP_ICMP, net_ipcksum := 0, net_ipsrc := ipucast (netdata s), net_ipdst := remip,
           net_udpsport := pair (ucast type) 0, net_udpdport := 0, net_udplen := ident, net_udpcksum := seq,
           net_udpdata := copy_data (nat len) (net_udpdata p) 0 buf 0\<rparr>),
        icmp_ipident := icmp_ipident s + 1\<rparr>)"

definition icmp_mkpkt :: "u32w \<Rightarrow> u16 \<Rightarrow> u16 \<Rightarrow> u16 \<Rightarrow> bmem \<Rightarrow> int \<Rightarrow> netst \<Rightarrow> nat option \<times> netst" where
  "icmp_mkpkt remip type ident seq buf len s =
     (case getbuf (netbufpool s) (nkern s) of
        (None, k) \<Rightarrow> (None, s\<lparr>nkern := k\<rparr>)
      | (Some pkt, k) \<Rightarrow>
          if pkt = SYSERRP then (None, s\<lparr>nkern := k\<lparr>kstat := Hung\<rparr>\<rparr>)
          else (Some pkt, icmp_fill pkt remip type ident seq buf len (s\<lparr>nkern := k\<rparr>)))"

definition icmp_put :: "nat \<Rightarrow> icmpentry \<Rightarrow> icmpentry" where
  "icmp_put a e = e\<lparr>iccount := iccount e + 1, icqueue := (icqueue e)(ictail e := a), ictail := wrap ICMP_QSIZ (ictail e + 1)\<rparr>"

text \<open>The first component of the result is \<^term>\<open>None\<close> when the call does not return: it waits for a buffer for the answer.\<close>

definition icmp_in :: "nat \<Rightarrow> netst \<Rightarrow> unit option \<times> netst" where
  "icmp_in pkt s =
     (let p = pkts s pkt in
      if net_ictype p \<noteq> ICMP_ECHOREPLY \<and> net_ictype p \<noteq> ICMP_ECHOREQST then (Some (), free_pkt pkt s)
      else if net_ictype p = ICMP_ECHOREQST then
        (case icmp_mkpkt (net_ipsrc p) 0 (net_icident p) (net_icseq p) (net_udpdata p) (uint (net_iplen p) - IP_HDR_LEN - ICMP_HDR_LEN) s of
           (None, s1) \<Rightarrow> (None, s1)
         | (Some replypkt, s1) \<Rightarrow> (Some (), free_pkt pkt (snd (ip_enqueue replypkt s1))))
      else
        let slot = uint (net_icident p) in
        if slot < 0 \<or> slot \<ge> ICMP_SLOTS then (Some (), free_pkt pkt s)
        else if icstate (icmptab s slot) = ICMP_FREE \<or> net_ipsrc p \<noteq> icremip (icmptab s slot) then (Some (), free_pkt pkt s)
        else
          let s1 = upd_icmp slot (icmp_put pkt) s in
          if icstate (icmptab s1 slot) = ICMP_RECV then
            let s2 = upd_icmp slot (\<lambda>e. e\<lparr>icstate := ICMP_USED\<rparr>) s1
            in (Some (), upd_kern (\<lambda>k. snd (send (icpid (icmptab s2 slot)) 1 k)) s2)
          else (Some (), s1))"

text \<open>The search of \<^verbatim>\<open>icmp_register\<close>: \<^term>\<open>None\<close> when the address is registered, otherwise the free slot or -1.\<close>

fun icmp_search :: "nat \<Rightarrow> int \<Rightarrow> int \<Rightarrow> u32w \<Rightarrow> netst \<Rightarrow> int option" where
  "icmp_search 0 i freeslot remip s = Some freeslot"
| "icmp_search (Suc n) i freeslot remip s =
     (if icstate (icmptab s i) = ICMP_FREE then icmp_search n (i + 1) (if freeslot = - 1 then i else freeslot) remip s
      else if icremip (icmptab s i) = remip then None
      else icmp_search n (i + 1) freeslot remip s)"

definition icmp_register :: "u32w \<Rightarrow> netst \<Rightarrow> int \<times> netst" where
  "icmp_register remip s =
     (case icmp_search 10 0 (- 1) remip s of
        None \<Rightarrow> (SYSERR, s)
      | Some freeslot \<Rightarrow>
          if freeslot = - 1 then (SYSERR, s)
          else (freeslot, upd_icmp freeslot (\<lambda>e. e\<lparr>icstate := ICMP_USED, icremip := remip, iccount := 0, ichead := 0, ictail := 0, icpid := - 1\<rparr>) s))"

definition icmp_get :: "icmpentry \<Rightarrow> nat \<times> icmpentry" where
  "icmp_get e = (icqueue e (ichead e), e\<lparr>ichead := wrap ICMP_SLOTS (ichead e + 1), iccount := iccount e - 1\<rparr>)"

definition icmp_datalen :: "netpacket \<Rightarrow> int \<Rightarrow> int" where
  "icmp_datalen p len = (let datalen = uint (net_iplen p) - IP_HDR_LEN - ICMP_HDR_LEN in max 0 (min datalen len))"

definition icmp_take :: "int \<Rightarrow> bmem \<Rightarrow> nat \<Rightarrow> int \<Rightarrow> netst \<Rightarrow> (int \<times> bmem) \<times> netst" where
  "icmp_take icmpid m buff len s =
     (let (a, e) = icmp_get (icmptab s icmpid);
          s1 = upd_icmp icmpid (\<lambda>_. e) s;
          i = icmp_datalen (pkts s a) len
      in ((i, copy_data (nat i) m buff (net_udpdata (pkts s a)) 0), free_pkt a s1))"

definition icmp_recv_msg :: "umsg32 \<Rightarrow> int \<Rightarrow> bmem \<Rightarrow> nat \<Rightarrow> int \<Rightarrow> netst \<Rightarrow> (int \<times> bmem) \<times> netst" where
  "icmp_recv_msg msg icmpid m buff len s =
     (let s1 = upd_icmp icmpid (\<lambda>e. e\<lparr>icstate := ICMP_USED\<rparr>) s in
      if msg = - 3 then ((TIMEOUT, m), s1) else if msg \<noteq> 1 then ((SYSERR, m), s1) else icmp_take icmpid m buff len s1)"

definition icmp_wait :: "int \<Rightarrow> u32w \<Rightarrow> netst \<Rightarrow> umsg32 option \<times> netst" where
  "icmp_wait icmpid timeout s =
     (let s1 = upd_icmp icmpid (\<lambda>e. e\<lparr>icstate := ICMP_RECV, icpid := currpid (nkern s)\<rparr>) s;
          s2 = upd_kern (\<lambda>k. snd (recvclr k)) s1;
          (r, k) = recvtime (sint timeout) (nkern s2)
      in (r, s2\<lparr>nkern := k\<rparr>))"

definition icmp_recv :: "int \<Rightarrow> bmem \<Rightarrow> nat \<Rightarrow> int \<Rightarrow> u32w \<Rightarrow> netst \<Rightarrow> (int \<times> bmem) option \<times> netst" where
  "icmp_recv icmpid m buff len timeout s =
     (if icmpid < 0 \<or> icmpid \<ge> ICMP_SLOTS then (Some (SYSERR, m), s)
      else if icstate (icmptab s icmpid) \<noteq> ICMP_USED then (Some (SYSERR, m), s)
      else if iccount (icmptab s icmpid) = 0 then
        (case icmp_wait icmpid timeout s of
           (None, s1) \<Rightarrow> (None, s1)
         | (Some msg, s1) \<Rightarrow> (let (r, s2) = icmp_recv_msg msg icmpid m buff len s1 in (Some r, s2)))
      else let (r, s1) = icmp_take icmpid m buff len s in (Some r, s1))"

function icmp_release_loop :: "int \<Rightarrow> netst \<Rightarrow> netst" where
  "icmp_release_loop icmpid s =
     (if iccount (icmptab s icmpid) > 0 then
        let (a, e) = icmp_get (icmptab s icmpid)
        in icmp_release_loop icmpid (free_pkt a (upd_icmp icmpid (\<lambda>_. e) s))
      else s)"
  by pat_completeness auto
termination
  by (relation "measure (\<lambda>(icmpid, s). nat (iccount (icmptab s icmpid)))") (auto simp: icmp_get_def)

definition icmp_release :: "int \<Rightarrow> netst \<Rightarrow> int \<times> netst" where
  "icmp_release icmpid s =
     (if icmpid < 0 \<or> icmpid \<ge> ICMP_SLOTS then (SYSERR, s)
      else if icstate (icmptab s icmpid) \<noteq> ICMP_USED then (SYSERR, s)
      else
        let s1 = upd_kern (\<lambda>k. snd (resched_cntl DEFER_START k)) s;
            s2 = icmp_release_loop icmpid s1;
            s3 = upd_icmp icmpid (\<lambda>e. e\<lparr>icstate := ICMP_FREE\<rparr>) s2
        in (OK, upd_kern (\<lambda>k. snd (resched_cntl DEFER_STOP k)) s3))"

section \<open>Registration\<close>

definition pinging :: "netst \<Rightarrow> int \<Rightarrow> bool" where
  "pinging s i \<longleftrightarrow> 0 \<le> i \<and> i < ICMP_SLOTS \<and> icstate (icmptab s i) \<noteq> ICMP_FREE"

text \<open>No two slots are registered for the same address.\<close>

definition icmp_ok :: "netst \<Rightarrow> bool" where
  "icmp_ok s \<longleftrightarrow> (\<forall>i j. pinging s i \<longrightarrow> pinging s j \<longrightarrow> icremip (icmptab s i) = icremip (icmptab s j) \<longrightarrow> i = j)"

lemma icmp_search_None:
  "icmp_search n i freeslot remip s = None \<longleftrightarrow> (\<exists>j. i \<le> j \<and> j < i + int n \<and> icstate (icmptab s j) \<noteq> ICMP_FREE \<and> icremip (icmptab s j) = remip)"
proof (induction n arbitrary: i freeslot)
  case (Suc n)
  have "(\<exists>j. i \<le> j \<and> j < i + int (Suc n) \<and> P j) \<longleftrightarrow> P i \<or> (\<exists>j. i + 1 \<le> j \<and> j < i + 1 + int n \<and> P j)" for P
  proof -
    have "i \<le> j \<and> j < i + int (Suc n) \<longleftrightarrow> j = i \<or> i + 1 \<le> j \<and> j < i + 1 + int n" for j by auto
    then show ?thesis by (metis (no_types, lifting))
  qed
  then show ?case using Suc.IH [of "i + 1"] by auto
qed auto

lemma icmp_search_Some:
  assumes "icmp_search n i freeslot remip s = Some k" "0 \<le> i" "freeslot = - 1 \<or> 0 \<le> freeslot"
  shows "if freeslot \<noteq> - 1 then k = freeslot
    else if k = - 1 then \<forall>j. i \<le> j \<longrightarrow> j < i + int n \<longrightarrow> icstate (icmptab s j) \<noteq> ICMP_FREE
    else i \<le> k \<and> k < i + int n \<and> icstate (icmptab s k) = ICMP_FREE"
  using assms
proof (induction n arbitrary: i freeslot)
  case (Suc n)
  show ?case
  proof (cases "icstate (icmptab s i) = ICMP_FREE")
    case True
    then show ?thesis using Suc.prems Suc.IH [of "i + 1" "if freeslot = - 1 then i else freeslot"] by (auto split: if_splits)
  next
    case False
    then have r: "icmp_search n (i + 1) freeslot remip s = Some k" using Suc.prems by (auto split: if_splits)
    have j: "j = i \<or> i + 1 \<le> j \<and> j < i + 1 + int n" if "i \<le> j" "j < i + int (Suc n)" for j using that by linarith
    then have all: "(\<forall>j. i \<le> j \<longrightarrow> j < i + int (Suc n) \<longrightarrow> P j) \<longleftrightarrow> P i \<and> (\<forall>j. i + 1 \<le> j \<longrightarrow> j < i + 1 + int n \<longrightarrow> P j)" for P by force
    show ?thesis using Suc.IH [OF r] Suc.prems(2,3) False unfolding all by (simp split: if_splits)
  qed
qed (auto split: if_splits)

lemma icmp_register_new:
  assumes "icmp_ok s" "icmp_register remip s = (i, s')" "i \<noteq> SYSERR"
  shows "0 \<le> i" "i < ICMP_SLOTS" "icstate (icmptab s i) = ICMP_FREE" "icstate (icmptab s' i) = ICMP_USED" "icremip (icmptab s' i) = remip"
    "iccount (icmptab s' i) = 0" "\<And>j. j \<noteq> i \<Longrightarrow> icmptab s' j = icmptab s j" "icmp_ok s'"
proof -
  obtain f where r: "icmp_search 10 0 (- 1) remip s = Some f" "f = i" "f \<noteq> - 1"
    and s': "s' = upd_icmp i (\<lambda>e. e\<lparr>icstate := ICMP_USED, icremip := remip, iccount := 0, ichead := 0, ictail := 0, icpid := - 1\<rparr>) s"
    using assms(2,3) by (auto simp: icmp_register_def split: option.splits if_splits)
  have f: "0 \<le> i \<and> i < ICMP_SLOTS \<and> icstate (icmptab s i) = ICMP_FREE" using icmp_search_Some [OF r(1)] r(2,3) by simp
  have n: "\<not> (pinging s j \<and> icremip (icmptab s j) = remip)" for j
    using icmp_search_None [of 10 0 "- 1" remip s] r(1) by (auto simp: pinging_def)
  show "0 \<le> i" "i < ICMP_SLOTS" "icstate (icmptab s i) = ICMP_FREE" using f by simp_all
  show "icstate (icmptab s' i) = ICMP_USED" "icremip (icmptab s' i) = remip" "iccount (icmptab s' i) = 0" "\<And>j. j \<noteq> i \<Longrightarrow> icmptab s' j = icmptab s j"
    by (simp_all add: s')
  have u: "pinging s' j \<longleftrightarrow> j = i \<or> pinging s j" for j using f by (auto simp: pinging_def s')
  have e: "icremip (icmptab s' j) = (if j = i then remip else icremip (icmptab s j))" for j by (simp add: s')
  show "icmp_ok s'" using assms(1) n unfolding icmp_ok_def u e by metis
qed

section \<open>Answering a request\<close>

lemma copy_data_eq: "copy_data n m b d j = (\<lambda>x. if b \<le> x \<and> x < b + n then d (j + (x - b)) else m x)"
proof (induction n arbitrary: m b j)
  case (Suc n)
  show ?case by (rule ext) (auto simp: Suc.IH Suc_diff_le Suc_diff_Suc not_less_eq_eq)
qed (auto simp: fun_eq_iff)

lemma lo_pair: "lo (pair a b) = a"
  by (rule bit_word_eqI) (simp add: lo_def pair_def bit_simps)

lemma icmp_in_echo:
  assumes "pkts s a = p" "net_ictype p = ICMP_ECHOREQST" "getbuf (netbufpool s) (nkern s) = (Some r, k)" "r \<noteq> SYSERRP"
    and "semcount (iqsem (ipoqueue s)) k < IP_OQSIZ" "icmp_in a s = (x, s')"
  shows "x = Some ()" "ipoqueue s' = iq_put r (ipoqueue s)" "net_ipdst (pkts s' r) = net_ipsrc p" "net_ipsrc (pkts s' r) = ipucast (netdata s)"
    "net_ipproto (pkts s' r) = IP_ICMP" "net_ictype (pkts s' r) = ICMP_ECHOREPLY" "net_icident (pkts s' r) = net_icident p" "net_icseq (pkts s' r) = net_icseq p"
    "net_iplen (pkts s' r) = net_iplen p" "\<And>i. int i < uint (net_iplen p) - 28 \<Longrightarrow> net_udpdata (pkts s' r) i = net_udpdata p i"
    "nkern s' = snd (freebuf a (snd (signal (iqsem (ipoqueue s)) k)))"
proof -
  let ?len = "uint (net_iplen p) - IP_HDR_LEN - ICMP_HDR_LEN"
  let ?s1 = "icmp_fill r (net_ipsrc p) 0 (net_icident p) (net_icseq p) (net_udpdata p) ?len (s\<lparr>nkern := k\<rparr>)"
  have q: "ipoqueue ?s1 = ipoqueue s" "nkern ?s1 = k" by (simp_all add: icmp_fill_def Let_def)
  have m: "icmp_mkpkt (net_ipsrc p) 0 (net_icident p) (net_icseq p) (net_udpdata p) ?len s = (Some r, ?s1)" using assms(3,4) by (simp add: icmp_mkpkt_def)
  have "icmp_in a s = (Some (), free_pkt a (snd (ip_enqueue r ?s1)))"
    using assms(1,2) m by (simp add: icmp_in_def Let_def)
  moreover have e: "ip_enqueue r ?s1 = (OK, upd_kern (\<lambda>k. snd (signal (iqsem (ipoqueue s)) k)) (?s1\<lparr>ipoqueue := iq_put r (ipoqueue s)\<rparr>))"
    using assms(5) q by (simp add: ip_enqueue_def Let_def iq_put_def)
  ultimately have s': "x = Some ()" "s' = free_pkt a (upd_kern (\<lambda>k. snd (signal (iqsem (ipoqueue s)) k)) (?s1\<lparr>ipoqueue := iq_put r (ipoqueue s)\<rparr>))"
    using assms(6) by simp_all
  have pk: "pkts s' = pkts ?s1" by (simp add: s'(2))
  show "x = Some ()" by (rule s'(1))
  show "ipoqueue s' = iq_put r (ipoqueue s)" by (simp add: s'(2) free_pkt_def upd_kern_def)
  show "nkern s' = snd (freebuf a (snd (signal (iqsem (ipoqueue s)) k)))" using q(2) by (simp add: s'(2))
  show "net_ipdst (pkts s' r) = net_ipsrc p" "net_ipsrc (pkts s' r) = ipucast (netdata s)" "net_ipproto (pkts s' r) = IP_ICMP"
    "net_icident (pkts s' r) = net_icident p" "net_icseq (pkts s' r) = net_icseq p" "net_iplen (pkts s' r) = net_iplen p"
    "net_ictype (pkts s' r) = ICMP_ECHOREPLY"
    unfolding pk by (simp_all add: icmp_fill_def Let_def net_ictype_def lo_pair)
  show "net_udpdata (pkts s' r) i = net_udpdata p i" if "int i < uint (net_iplen p) - 28" for i
    unfolding pk using that by (simp add: icmp_fill_def Let_def copy_data_eq zless_nat_eq_int_zless)
qed

section \<open>Replies that are waited for\<close>

text \<open>As long as fewer than eight packets have gone through a queue since its registration, it is first in, first out.\<close>

lemma icmp_first_packets:
  assumes "0 \<le> ichead e" "ichead e \<le> ictail e" "ictail e < ICMP_QSIZ" "iccount e = ictail e - ichead e"
  shows "iccount (icmp_put a e) = iccount e + 1" "icqueue (icmp_put a e) (ictail e) = a"
    "0 < iccount e \<Longrightarrow> icmp_get e = (icqueue e (ichead e), e\<lparr>ichead := ichead e + 1, iccount := iccount e - 1\<rparr>)"
  using assms by (simp_all add: icmp_put_def icmp_get_def wrap_def)

text \<open>
  The ninth reply to a process that reads every reply at once: the tail has gone back to 0 and the head has not, so \<^verbatim>\<open>icmp_recv\<close> takes the word
  behind the array in place of the packet.
\<close>

definition icmp_round :: "nat \<Rightarrow> icmpentry \<Rightarrow> nat \<times> icmpentry" where
  "icmp_round a e = icmp_get (icmp_put a e)"

lemma icmp_rounds:
  assumes "ichead e = 0" "ictail e = 0" "n \<le> 7"
  shows "let e' = ((\<lambda>e. snd (icmp_round a e)) ^^ n) e in ichead e' = int n \<and> ictail e' = int n \<and> icqueue e' 8 = icqueue e 8"
  using assms(3)
proof (induction n)
  case (Suc n)
  then show ?case by (simp add: Let_def icmp_round_def icmp_get_def icmp_put_def wrap_def)
qed (simp add: assms)

lemma icmp_ninth_lost:
  assumes "ichead e = 0" "ictail e = 0"
  shows "fst (icmp_round b (((\<lambda>e. snd (icmp_round a e)) ^^ 8) e)) = icqueue e 8"
proof -
  have "(8 :: nat) = Suc 7" by simp
  then show ?thesis using icmp_rounds [OF assms, of 7 a] by (simp only: funpow.simps comp_def) (simp add: Let_def icmp_round_def icmp_get_def icmp_put_def wrap_def)
qed

end
