(* ===== verification/Arp.thy ===== *)
theory Arp
  imports Net_State
begin

text \<open>
  Address resolution, \<^verbatim>\<open>net/arp.c\<close>: a cache of sixteen entries that are free, pending with a process waiting for the answer, or resolved.

  \<^verbatim>\<open>arp_resolve\<close> sends a request and waits, up to three times; where it blocks, the result is \<open>AWait\<close> with the number of tries that are left and the cache
  entry, and \<open>arp_continue\<close> is what it does with the message that ends the wait. \<^verbatim>\<open>arp_in\<close> runs in the network input process, whose
  priority is above that of the processes it wakes, and is one step.
\<close>

abbreviation (input) ARP_HTYPE :: u16 where "ARP_HTYPE \<equiv> 1"
abbreviation (input) ARP_PTYPE :: u16 where "ARP_PTYPE \<equiv> 0x0800"
abbreviation (input) ARP_OP_REQ :: u16 where "ARP_OP_REQ \<equiv> 1"
abbreviation (input) ARP_OP_RPLY :: u16 where "ARP_OP_RPLY \<equiv> 2"
abbreviation (input) ARP_TIMEOUT :: int where "ARP_TIMEOUT \<equiv> 300"

section \<open>The cache\<close>

definition arp_init :: "netst \<Rightarrow> netst" where
  "arp_init s = s\<lparr>arpcache := \<lambda>i. if 1 \<le> i \<and> i < ARP_SIZ then (arpcache s i)\<lparr>arstate := AR_FREE\<rparr> else arpcache s i\<rparr>"

fun arp_find :: "nat \<Rightarrow> int \<Rightarrow> u32w \<Rightarrow> netst \<Rightarrow> int option" where
  "arp_find 0 i addr s = None"
| "arp_find (Suc n) i addr s =
     (if arstate (arpcache s i) = AR_FREE then arp_find n (i + 1) addr s
      else if arpaddr (arpcache s i) = addr then Some i
      else arp_find n (i + 1) addr s)"

fun arp_slot :: "nat \<Rightarrow> int \<Rightarrow> arst \<Rightarrow> netst \<Rightarrow> int option" where
  "arp_slot 0 i st s = None"
| "arp_slot (Suc n) i st s = (if arstate (arpcache s i) = st then Some i else arp_slot n (i + 1) st s)"

definition arp_zero :: arpentry where
  "arp_zero = \<lparr>arstate = AR_FREE, arpaddr = 0, arpid = 0, arhaddr = replicate 6 0\<rparr>"

definition arp_alloc :: "netst \<Rightarrow> int option \<times> netst" where
  "arp_alloc s =
     (case arp_slot 16 0 AR_FREE s of
        Some i \<Rightarrow> (Some i, upd_arp i (\<lambda>_. arp_zero) s)
      | None \<Rightarrow>
          (case arp_slot 16 0 AR_RESOLVED s of
             Some i \<Rightarrow> (Some i, upd_arp i (\<lambda>_. arp_zero) s)
           | None \<Rightarrow> (None, s)))"

section \<open>Resolving an address\<close>

datatype arp_out = ADone int "byte list option" | AWait nat int

text \<open>The request, in network byte order.\<close>

definition arp_request :: "network \<Rightarrow> u32w \<Rightarrow> arppacket" where
  "arp_request nd nxthop =
     (let p = arp_hton \<lparr>arp_ethdst = ethbcast nd, arp_ethsrc = ethucast nd, arp_ethtype = ETH_ARP, arp_htype = ARP_HTYPE, arp_ptype = ARP_PTYPE,
                arp_hlen = 6, arp_plen = 4, arp_op = ARP_OP_REQ, arp_sndha = ethucast nd, arp_sndpa = ipucast nd, arp_tarha = replicate 6 0,
                arp_tarpa = nxthop\<rparr>
      in p\<lparr>arp_ethtype := htons (arp_ethtype p)\<rparr>)"

definition arp_write :: "arppacket \<Rightarrow> netst \<Rightarrow> netst" where
  "arp_write p s = s\<lparr>ethout := ethout s @ [(ArpFrame p, 42)]\<rparr>"

definition arp_try :: "u32w \<Rightarrow> netst \<Rightarrow> umsg32 option \<times> netst" where
  "arp_try nxthop s =
     (let s1 = arp_write (arp_request (netdata s) nxthop) s; (r, k) = recvtime ARP_TIMEOUT (nkern s1) in (r, s1\<lparr>nkern := k\<rparr>))"

fun arp_continue :: "nat \<Rightarrow> umsg32 \<Rightarrow> int \<Rightarrow> u32w \<Rightarrow> netst \<Rightarrow> arp_out \<times> netst" where
  "arp_continue n msg slot nxthop s =
     (if msg = - 3 then
        (case n of
           0 \<Rightarrow> (ADone TIMEOUT None, upd_arp slot (\<lambda>e. e\<lparr>arstate := AR_FREE\<rparr>) s)
         | Suc n1 \<Rightarrow> (case arp_try nxthop s of
                        (None, s1) \<Rightarrow> (AWait n1 slot, s1)
                      | (Some msg1, s1) \<Rightarrow> arp_continue n1 msg1 slot nxthop s1))
      else if msg = - 1 then (ADone SYSERR None, s)
      else (ADone OK (Some (arhaddr (arpcache s slot))), s))"

definition arp_pending :: "u32w \<Rightarrow> netst \<Rightarrow> int option \<times> netst" where
  "arp_pending nxthop s =
     (case arp_alloc s of
        (None, s1) \<Rightarrow> (None, s1)
      | (Some slot, s1) \<Rightarrow>
          (Some slot, upd_arp slot (\<lambda>e. e\<lparr>arstate := AR_PENDING, arpaddr := nxthop, arpid := currpid (nkern s1)\<rparr>) s1))"

definition arp_resolve :: "u32w \<Rightarrow> netst \<Rightarrow> arp_out \<times> netst" where
  "arp_resolve nxthop s =
     (if nxthop = IP_BCAST \<or> nxthop = ipbcast (netdata s) then (ADone OK (Some (ethbcast (netdata s))), s)
      else case arp_find 16 0 nxthop s of
             Some i \<Rightarrow>
               if arstate (arpcache s i) = AR_RESOLVED then (ADone OK (Some (arhaddr (arpcache s i))), s) else (ADone SYSERR None, s)
           | None \<Rightarrow>
               (case arp_pending nxthop s of
                  (None, s1) \<Rightarrow> (ADone SYSERR None, s1)
                | (Some slot, s1) \<Rightarrow>
                    (case arp_try nxthop (upd_kern (\<lambda>k. snd (recvclr k)) s1) of
                       (None, s2) \<Rightarrow> (AWait 2 slot, s2)
                     | (Some msg, s2) \<Rightarrow> arp_continue 2 msg slot nxthop s2)))"

section \<open>Incoming packets\<close>

definition arp_reply :: "network \<Rightarrow> arppacket \<Rightarrow> arppacket" where
  "arp_reply nd q =
     (let p = arp_hton \<lparr>arp_ethdst = arp_sndha q, arp_ethsrc = ethucast nd, arp_ethtype = ETH_ARP, arp_htype = ARP_HTYPE, arp_ptype = ARP_PTYPE,
                arp_hlen = 6, arp_plen = 4, arp_op = ARP_OP_RPLY, arp_sndha = ethucast nd, arp_sndpa = ipucast nd, arp_tarha = arp_sndha q,
                arp_tarpa = arp_sndpa q\<rparr>
      in p\<lparr>arp_ethtype := htons (arp_ethtype p)\<rparr>)"

definition arp_learn :: "arppacket \<Rightarrow> int \<Rightarrow> netst \<Rightarrow> netst" where
  "arp_learn p i s =
     (let s1 = upd_arp i (\<lambda>e. e\<lparr>arhaddr := arp_sndha p\<rparr>) s in
      if arstate (arpcache s1 i) = AR_PENDING
      then upd_kern (\<lambda>k. snd (send (arpid (arpcache s1 i)) 1 k)) (upd_arp i (\<lambda>e. e\<lparr>arstate := AR_RESOLVED\<rparr>) s1)
      else s1)"

definition arp_in :: "nat \<Rightarrow> netst \<Rightarrow> netst" where
  "arp_in a s =
     (let p = arp_ntoh (as_arp (pkts s a)) in
      if arp_htype p \<noteq> ARP_HTYPE \<or> arp_ptype p \<noteq> ARP_PTYPE then free_pkt a s
      else
        let found = arp_find 16 0 (arp_sndpa p) s;
            s1 = (case found of Some i \<Rightarrow> arp_learn p i s | None \<Rightarrow> s)
        in if arp_op p = ARP_OP_RPLY then free_pkt a s1
           else if \<not> ipvalid (netdata s1) \<or> arp_tarpa p \<noteq> ipucast (netdata s1) then free_pkt a s1
           else
             case (if found = None then arp_alloc s1 else (found, s1)) of
               (None, s2) \<Rightarrow> free_pkt a s2
             | (Some slot, s2) \<Rightarrow>
                 let s3 = (if found = None
                           then upd_arp slot (\<lambda>e. e\<lparr>arpaddr := arp_sndpa p, arhaddr := arp_sndha p, arstate := AR_RESOLVED\<rparr>) s2 else s2)
                 in free_pkt a (arp_write (arp_reply (netdata s3) p) s3))"

section \<open>The invariant of the cache\<close>

definition cached :: "netst \<Rightarrow> int \<Rightarrow> bool" where
  "cached s i \<longleftrightarrow> 0 \<le> i \<and> i < ARP_SIZ \<and> arstate (arpcache s i) \<noteq> AR_FREE"

text \<open>No address is in the cache twice.\<close>

definition arp_ok :: "netst \<Rightarrow> bool" where
  "arp_ok s \<longleftrightarrow> (\<forall>i j. cached s i \<longrightarrow> cached s j \<longrightarrow> arpaddr (arpcache s i) = arpaddr (arpcache s j) \<longrightarrow> i = j)"

lemma arp_ok_cong: "arpcache s' = arpcache s \<Longrightarrow> arp_ok s' = arp_ok s"
  by (simp add: arp_ok_def cached_def)

lemma arp_find_Some:
  assumes "arp_find n i addr s = Some j"
  shows "i \<le> j \<and> j < i + int n \<and> arstate (arpcache s j) \<noteq> AR_FREE \<and> arpaddr (arpcache s j) = addr"
  using assms
proof (induction n arbitrary: i)
  case (Suc n)
  show ?case
  proof (cases "arstate (arpcache s i) \<noteq> AR_FREE \<and> arpaddr (arpcache s i) = addr")
    case True
    then show ?thesis using Suc.prems by auto
  next
    case False
    then have "arp_find n (i + 1) addr s = Some j" using Suc.prems by (auto split: if_splits)
    from Suc.IH [OF this] show ?thesis by auto
  qed
qed simp

lemma arp_find_None: "arp_find n i addr s = None \<Longrightarrow> i \<le> j \<Longrightarrow> j < i + int n \<Longrightarrow> arstate (arpcache s j) = AR_FREE \<or> arpaddr (arpcache s j) \<noteq> addr"
proof (induction n arbitrary: i)
  case (Suc n)
  then show ?case by (cases "j = i") (auto split: if_splits)
qed simp

lemma arp_find_cached: "arp_ok s \<Longrightarrow> cached s i \<Longrightarrow> arp_find 16 0 (arpaddr (arpcache s i)) s = Some i"
proof -
  assume k: "arp_ok s" "cached s i"
  show ?thesis
  proof (cases "arp_find 16 0 (arpaddr (arpcache s i)) s")
    case None
    then show ?thesis using arp_find_None [OF None, of i] k(2) by (simp add: cached_def)
  next
    case (Some j)
    then have "cached s j" "arpaddr (arpcache s j) = arpaddr (arpcache s i)" using arp_find_Some [OF Some] by (auto simp: cached_def)
    then show ?thesis using k Some unfolding arp_ok_def by blast
  qed
qed

lemma arp_slot_Some: "arp_slot n i st s = Some j \<Longrightarrow> i \<le> j \<and> j < i + int n \<and> arstate (arpcache s j) = st"
proof (induction n arbitrary: i)
  case (Suc n)
  show ?case
  proof (cases "arstate (arpcache s i) = st")
    case True
    then show ?thesis using Suc.prems by simp
  next
    case False
    then show ?thesis using Suc.IH [of "i + 1"] Suc.prems by auto
  qed
qed simp

lemma arp_ok_upd:
  assumes "arp_ok s" "arpcache s' = (arpcache s)(i := e)"
    and "arstate e \<noteq> AR_FREE \<Longrightarrow> 0 \<le> i \<and> i < ARP_SIZ \<and> (cached s i \<and> arpaddr e = arpaddr (arpcache s i) \<or> arp_find 16 0 (arpaddr e) s = None)"
  shows "arp_ok s'"
proof (unfold arp_ok_def, intro allI impI)
  fix j k assume a: "cached s' j" "cached s' k" "arpaddr (arpcache s' j) = arpaddr (arpcache s' k)"
  have new: "j' = i" if "cached s' i" "cached s' j'" "arpaddr (arpcache s' i) = arpaddr (arpcache s' j')" for j'
  proof (rule ccontr)
    assume n: "j' \<noteq> i"
    then have c: "cached s j'" "arpaddr (arpcache s j') = arpaddr e" using that assms(2) by (auto simp: cached_def)
    have "arstate e \<noteq> AR_FREE" using that(1) assms(2) by (simp add: cached_def)
    then consider "cached s i" "arpaddr e = arpaddr (arpcache s i)" | "arp_find 16 0 (arpaddr e) s = None" using assms(3) by auto
    then show False
    proof cases
      case 1
      then show ?thesis using assms(1) c n unfolding arp_ok_def by metis
    next
      case 2
      then show ?thesis using arp_find_cached [OF assms(1) c(1)] c(2) by simp
    qed
  qed
  show "j = k"
  proof (cases "j = i \<or> k = i")
    case True
    then show ?thesis using new a by metis
  next
    case False
    then show ?thesis using a assms(1,2) by (auto simp: arp_ok_def cached_def)
  qed
qed

section \<open>Every operation keeps the invariant\<close>

lemma arp_alloc_spec:
  assumes "arp_alloc s = (Some i, s')"
  shows "s' = upd_arp i (\<lambda>_. arp_zero) s" "0 \<le> i" "i < ARP_SIZ" "arstate (arpcache s i) \<noteq> AR_PENDING"
proof -
  have "s' = upd_arp i (\<lambda>_. arp_zero) s \<and> (arp_slot 16 0 AR_FREE s = Some i \<or> arp_slot 16 0 AR_RESOLVED s = Some i)"
    using assms by (auto simp: arp_alloc_def split: option.splits)
  then show "s' = upd_arp i (\<lambda>_. arp_zero) s" "0 \<le> i" "i < ARP_SIZ" "arstate (arpcache s i) \<noteq> AR_PENDING"
    by (auto dest: arp_slot_Some)
qed

lemma arp_alloc_None: "arp_alloc s = (None, s') \<Longrightarrow> s' = s"
  by (auto simp: arp_alloc_def split: option.splits)

text \<open>The cache without one entry, and with an entry for an address that was not there.\<close>

lemma arp_ok_zero: "arp_ok s \<Longrightarrow> arp_ok (upd_arp i (\<lambda>_. arp_zero) s)"
  by (rule arp_ok_upd [of s _ i arp_zero]) (auto simp: arp_zero_def)

lemma arp_find_zero: "arp_find n k addr s = None \<Longrightarrow> arp_find n k addr (upd_arp i (\<lambda>_. arp_zero) s) = None"
proof (induction n arbitrary: k)
  case (Suc n)
  have "arp_find n (k + 1) addr s = None" using Suc.prems by (simp split: if_splits)
  from Suc.IH [OF this] show ?case using Suc.prems by (auto simp: arp_zero_def split: if_splits)
qed simp

lemma arp_ok_new:
  assumes "arp_ok s" "arp_alloc s = (Some i, s')" "arp_find 16 0 (arpaddr (g arp_zero)) s = None"
  shows "arp_ok (upd_arp i g s')"
proof -
  note a = arp_alloc_spec [OF assms(2)]
  show ?thesis unfolding a(1)
    by (rule arp_ok_upd [OF arp_ok_zero [OF assms(1), of i], of _ i "g arp_zero"]) (use a(2,3) arp_find_zero [OF assms(3), of i] in auto)
qed

text \<open>A change of other fields than the address, in an entry that is in use.\<close>

lemma arp_ok_same:
  assumes "arp_ok s" "cached s i" "arpaddr (g (arpcache s i)) = arpaddr (arpcache s i)"
  shows "arp_ok (upd_arp i g s)"
  by (rule arp_ok_upd [OF assms(1), of _ i "g (arpcache s i)"]) (use assms(2,3) in \<open>auto simp: cached_def\<close>)

lemma arp_kern [simp]: "arp_ok (upd_kern g s) = arp_ok s" "arp_ok (free_pkt a s) = arp_ok s" "arp_ok (arp_write p s) = arp_ok s" "arp_ok (s\<lparr>nkern := k\<rparr>) = arp_ok s"
  "arpcache (arp_write p s) = arpcache s" "netdata (arp_write p s) = netdata s" "nkern (arp_write p s) = nkern s"
  "ethout (arp_write p s) = ethout s @ [(ArpFrame p, 42)]" "pkts (arp_write p s) = pkts s"
  by (auto intro!: arp_ok_cong simp: arp_write_def)

lemma arp_learn_ok:
  assumes "arp_ok s" "cached s i"
  shows "arp_ok (arp_learn p i s)"
proof -
  have 1: "arp_ok (upd_arp i (\<lambda>e. e\<lparr>arhaddr := arp_sndha p\<rparr>) s)" by (rule arp_ok_same [OF assms]) simp
  have "arp_ok (upd_arp i (\<lambda>e. e\<lparr>arhaddr := arp_sndha p, arstate := AR_RESOLVED\<rparr>) s)" by (rule arp_ok_same [OF assms]) simp
  moreover have "upd_arp i (\<lambda>e. e\<lparr>arstate := AR_RESOLVED\<rparr>) (upd_arp i (\<lambda>e. e\<lparr>arhaddr := arp_sndha p\<rparr>) s) =
    upd_arp i (\<lambda>e. e\<lparr>arhaddr := arp_sndha p, arstate := AR_RESOLVED\<rparr>) s" by (simp add: upd_arp_def)
  ultimately show ?thesis using 1 unfolding arp_learn_def Let_def by (simp only: arp_kern if_split) simp
qed

lemma arp_found: "arp_find 16 0 addr s = Some i \<Longrightarrow> cached s i \<and> arpaddr (arpcache s i) = addr"
  by (auto dest: arp_find_Some simp: cached_def)

lemma arp_in_ok: "arp_ok s \<Longrightarrow> arp_ok (arp_in a s)"
proof -
  assume k: "arp_ok s"
  show ?thesis
  proof (cases "arp_find 16 0 (arp_sndpa (arp_ntoh (as_arp (pkts s a)))) s")
    case (Some i)
    then show ?thesis using arp_learn_ok [OF k] arp_found [OF Some] k by (simp add: arp_in_def Let_def)
  next
    case None
    then show ?thesis using k arp_ok_new [OF k]
      by (auto simp: arp_in_def Let_def split: prod.splits option.splits dest: arp_alloc_None)
  qed
qed

lemma arp_try_keeps:
  assumes "arp_try nxthop s = (r, s')"
  shows "arpcache s' = arpcache s" "netdata s' = netdata s" "ethout s' = ethout s @ [(ArpFrame (arp_request (netdata s) nxthop), 42)]"
    "recvtime ARP_TIMEOUT (nkern s) = (r, nkern s')"
  using assms by (auto simp: arp_try_def Let_def split: prod.splits)

lemma arp_continue_ok: "arp_ok s \<Longrightarrow> arp_ok (snd (arp_continue n msg slot nxthop s))"
proof (induction n arbitrary: msg s)
  case 0
  have "arp_ok (upd_arp slot (\<lambda>e. e\<lparr>arstate := AR_FREE\<rparr>) s)" by (rule arp_ok_upd [OF 0, of _ slot "(arpcache s slot)\<lparr>arstate := AR_FREE\<rparr>"]) simp_all
  then show ?case using 0 by simp
next
  case (Suc n)
  obtain r s1 where t: "arp_try nxthop s = (r, s1)" by (cases "arp_try nxthop s")
  have "arp_ok s1" using Suc.prems arp_ok_cong [OF arp_try_keeps(1) [OF t]] by simp
  then show ?case using Suc.prems Suc.IH t by (auto split: option.splits)
qed

lemma arp_pending_ok:
  assumes "arp_ok s" "arp_find 16 0 nxthop s = None" "arp_pending nxthop s = (r, s')"
  shows "arp_ok s'"
  using assms(3) assms(1) arp_ok_new [OF assms(1)] assms(2)
  by (auto simp: arp_pending_def split: prod.splits option.splits dest: arp_alloc_None)

lemma arp_resolve_ok: "arp_ok s \<Longrightarrow> arp_ok (snd (arp_resolve nxthop s))"
proof -
  assume k: "arp_ok s"
  show ?thesis
  proof (cases "arp_find 16 0 nxthop s")
    case None
    obtain r s1 where p: "arp_pending nxthop s = (r, s1)" by (cases "arp_pending nxthop s")
    obtain q s2 where t: "arp_try nxthop (upd_kern (\<lambda>k. snd (recvclr k)) s1) = (q, s2)" by (cases "arp_try nxthop (upd_kern (\<lambda>k. snd (recvclr k)) s1)")
    have "arp_ok s1" by (rule arp_pending_ok [OF k None p])
    moreover then have "arp_ok s2" using arp_ok_cong [OF arp_try_keeps(1) [OF t]] by simp
    ultimately show ?thesis using k None p t arp_continue_ok [of s2] by (auto simp: arp_resolve_def simp del: arp_continue.simps split: option.splits)
  qed (use k in \<open>simp add: arp_resolve_def\<close>)
qed

section \<open>A request and its answer\<close>

text \<open>A request for the own address is answered, and the sender of any packet that is waited for becomes known.\<close>

lemma arp_in_answers:
  assumes "arp_ntoh (as_arp (pkts s a)) = p" "arp_htype p = ARP_HTYPE" "arp_ptype p = ARP_PTYPE" "arp_op p \<noteq> ARP_OP_RPLY"
    and "ipvalid (netdata s)" "arp_tarpa p = ipucast (netdata s)" "fst (arp_alloc s) \<noteq> None"
  shows "ethout (arp_in a s) = ethout s @ [(ArpFrame (arp_reply (netdata s) p), 42)]"
proof (cases "arp_find 16 0 (arp_sndpa p) s")
  case (Some i)
  then show ?thesis using assms by (simp add: arp_in_def arp_learn_def Let_def)
next
  case None
  obtain i s1 where "arp_alloc s = (Some i, s1)" using assms(7) by (cases "arp_alloc s") auto
  with arp_alloc_spec(1) [OF this] None assms show ?thesis by (simp add: arp_in_def Let_def)
qed

lemma arp_in_resolves:
  assumes "arp_ntoh (as_arp (pkts s a)) = p" "arp_htype p = ARP_HTYPE" "arp_ptype p = ARP_PTYPE" "arp_op p = ARP_OP_RPLY"
    and "arp_find 16 0 (arp_sndpa p) s = Some i" "arstate (arpcache s i) = AR_PENDING"
  shows "arp_in a s = free_pkt a (upd_kern (\<lambda>k. snd (send (arpid (arpcache s i)) 1 k))
    (upd_arp i (\<lambda>e. e\<lparr>arhaddr := arp_sndha p, arstate := AR_RESOLVED\<rparr>) s))"
  using assms by (simp add: arp_in_def arp_learn_def Let_def upd_arp_def)

lemma arp_request_fields:
  "arp_ntoh (arp_request nd h) = \<lparr>arp_ethdst = ethbcast nd, arp_ethsrc = ethucast nd, arp_ethtype = htons ETH_ARP, arp_htype = ARP_HTYPE,
     arp_ptype = ARP_PTYPE, arp_hlen = 6, arp_plen = 4, arp_op = ARP_OP_REQ, arp_sndha = ethucast nd, arp_sndpa = ipucast nd,
     arp_tarha = replicate 6 0, arp_tarpa = h\<rparr>"
  by (simp add: arp_request_def arp_hton_def arp_ntoh_def Let_def)

lemma arp_reply_fields:
  "arp_ntoh (arp_reply nd q) = \<lparr>arp_ethdst = arp_sndha q, arp_ethsrc = ethucast nd, arp_ethtype = htons ETH_ARP, arp_htype = ARP_HTYPE,
     arp_ptype = ARP_PTYPE, arp_hlen = 6, arp_plen = 4, arp_op = ARP_OP_RPLY, arp_sndha = ethucast nd, arp_sndpa = ipucast nd,
     arp_tarha = arp_sndha q, arp_tarpa = arp_sndpa q\<rparr>"
  by (simp add: arp_reply_def arp_hton_def arp_ntoh_def Let_def)

text \<open>What \<^verbatim>\<open>arp_resolve\<close> has done when it blocks for the first time.\<close>

lemma arp_resolve_waits:
  assumes "arp_find 16 0 nxthop s = None" "nxthop \<noteq> IP_BCAST" "nxthop \<noteq> ipbcast (netdata s)" "arp_pending nxthop s = (Some slot, s1)"
    and "arp_try nxthop (upd_kern (\<lambda>k. snd (recvclr k)) s1) = (None, s2)"
  shows "arp_resolve nxthop s = (AWait 2 slot, s2)" "arstate (arpcache s2 slot) = AR_PENDING" "arpaddr (arpcache s2 slot) = nxthop"
    "arpid (arpcache s2 slot) = currpid (nkern s)" "cached s2 slot" "ethout s2 = ethout s @ [(ArpFrame (arp_request (netdata s) nxthop), 42)]"
proof -
  obtain s0 where al: "arp_alloc s = (Some slot, s0)"
    and s1: "s1 = upd_arp slot (\<lambda>e. e\<lparr>arstate := AR_PENDING, arpaddr := nxthop, arpid := currpid (nkern s0)\<rparr>) s0"
    using assms(4) by (auto simp: arp_pending_def split: prod.splits option.splits)
  note a = arp_alloc_spec [OF al] and t = arp_try_keeps [OF assms(5)]
  show "arp_resolve nxthop s = (AWait 2 slot, s2)" using assms by (simp add: arp_resolve_def)
  show "arstate (arpcache s2 slot) = AR_PENDING" "arpaddr (arpcache s2 slot) = nxthop" "arpid (arpcache s2 slot) = currpid (nkern s)" "cached s2 slot"
    "ethout s2 = ethout s @ [(ArpFrame (arp_request (netdata s) nxthop), 42)]"
    using t a s1 by (simp_all add: cached_def)
qed

end
