(* ===== verification/Ip.thy ===== *)
theory Ip
  imports Icmp Arp
begin

text \<open>
  The IP layer and what calls it: \<^verbatim>\<open>net/ip.c\<close>, the functions of \<^verbatim>\<open>net/udp.c\<close> and \<^verbatim>\<open>net/icmp.c\<close> that send, and \<^verbatim>\<open>net/net.c\<close>.

  Sending may have to wait for address resolution: the result is then \<open>SWait\<close> with the state of that wait, and \<open>ip_send_continue\<close> is what follows. \<open>SBlock\<close> is
  a wait for a buffer or for a packet to send. The Ethernet device takes every frame: \<^verbatim>\<open>ethwrite\<close> returns the number of bytes, at most the
  size of a packet. The interrupt mask is not part of the state.
\<close>

datatype send_out = SDone int | SWait nat int | SBlock

abbreviation (input) PACKLEN :: int where "PACKLEN \<equiv> 1514"
abbreviation (input) ETH_IPv6 :: u16 where "ETH_IPv6 \<equiv> 0x86DD"

definition upd_pkt :: "nat \<Rightarrow> (netpacket \<Rightarrow> netpacket) \<Rightarrow> netst \<Rightarrow> netst" where
  "upd_pkt a g s = s\<lparr>pkts := (pkts s)(a := g (pkts s a))\<rparr>"

definition eth_write :: "netpacket \<Rightarrow> int \<Rightarrow> netst \<Rightarrow> int \<times> netst" where
  "eth_write p count s = (if count > PACKLEN then PACKLEN else count, s\<lparr>ethout := ethout s @ [(IpFrame p, count)]\<rparr>)"

section \<open>Input\<close>

definition ip_local :: "nat \<Rightarrow> netst \<Rightarrow> unit option \<times> netst" where
  "ip_local a s =
     (if net_ipproto (pkts s a) = IP_UDP then (Some (), udp_in a s)
      else if net_ipproto (pkts s a) = IP_ICMP then icmp_in a s
      else (Some (), free_pkt a s))"

text \<open>From the check of the addresses on.\<close>

definition ip_accept :: "nat \<Rightarrow> netst \<Rightarrow> unit option \<times> netst" where
  "ip_accept a s =
     (let p = pkts s a; nd = netdata s in
      if net_ipdst p = IP_BCAST then ip_local a s
      else if \<not> ipvalid nd then (if net_ipproto p = IP_UDP then ip_local a s else (Some (), free_pkt a s))
      else if net_ipdst p = ipucast nd \<or> net_ipdst p = ipbcast nd \<or> net_ipdst p = IP_BCAST then ip_local a s
      else (Some (), free_pkt a s))"

definition ip_in :: "nat \<Rightarrow> netst \<Rightarrow> unit option \<times> netst" where
  "ip_in a s =
     (if ipcksum (pkts s a) \<noteq> 0 then (Some (), free_pkt a s)
      else
        let s1 = upd_pkt a ip_ntoh s; p = pkts s1 a in
        if net_ipvh p \<noteq> 0x45 then (Some (), free_pkt a s1)
        else if net_ipproto p = IP_UDP then ip_accept a (upd_pkt a udp_ntoh s1)
        else if net_ipproto p = IP_ICMP then
          (if icmp_cksum (icmp_bytes p) (uint (net_iplen p) - IP_HDR_LEN) \<noteq> 0 then (Some (), free_pkt a s1)
           else ip_accept a (upd_pkt a icmp_ntoh s1))
        else ip_accept a s1)"

section \<open>Output\<close>

text \<open>The headers as \<^verbatim>\<open>ip_out\<close> leaves them, and the frame.\<close>

definition out_proto :: "netpacket \<Rightarrow> netpacket" where
  "out_proto p =
     (if net_ipproto p = IP_UDP then udp_hton (p\<lparr>net_udpcksum := 0\<rparr>)
      else if net_ipproto p = IP_ICMP then
        let q = (icmp_hton p)\<lparr>net_udpdport := 0\<rparr>
        in q\<lparr>net_udpdport := htons (icmp_cksum (icmp_bytes q) (uint (net_iplen q) - IP_HDR_LEN))\<rparr>
      else p)"

definition out_ip :: "netpacket \<Rightarrow> netpacket" where
  "out_ip p = (let q = (ip_hton p)\<lparr>net_ipcksum := 0\<rparr> in q\<lparr>net_ipcksum := htons (ipcksum q)\<rparr>)"

definition ip_out :: "nat \<Rightarrow> netst \<Rightarrow> int \<times> netst" where
  "ip_out a s =
     (let pktlen = uint (net_iplen (pkts s a)) + ETH_HDR_LEN;
          s1 = upd_pkt a out_proto s;
          s2 = upd_pkt a out_ip s1;
          s3 = upd_pkt a eth_hton s2;
          (retval, s4) = eth_write (pkts s3 a) pktlen s3;
          s5 = free_pkt a s4
      in (if retval = SYSERR then SYSERR else OK, s5))"

definition ip_nxthop :: "network \<Rightarrow> u32w \<Rightarrow> u32w" where
  "ip_nxthop nd dest = (if dest AND ipmask nd = ipprefix nd then dest else iprouter nd)"

text \<open>The packet is sent when \<^verbatim>\<open>arp_resolve\<close> has stored the address, and dropped when it failed.\<close>

definition ip_send_arp :: "nat \<Rightarrow> arp_out \<times> netst \<Rightarrow> send_out \<times> netst" where
  "ip_send_arp a rs =
     (case rs of
        (AWait n slot, s) \<Rightarrow> (SWait n slot, s)
      | (ADone retval mac, s) \<Rightarrow>
          let s1 = (case mac of None \<Rightarrow> s | Some h \<Rightarrow> upd_pkt a (\<lambda>p. p\<lparr>net_ethdst := h\<rparr>) s) in
          if retval \<noteq> OK then (SDone SYSERR, free_pkt a s1)
          else let (r, s2) = ip_out a s1 in (SDone r, s2))"

definition ip_send_continue :: "nat \<Rightarrow> umsg32 \<Rightarrow> int \<Rightarrow> u32w \<Rightarrow> nat \<Rightarrow> netst \<Rightarrow> send_out \<times> netst" where
  "ip_send_continue n msg slot nxthop a s = ip_send_arp a (arp_continue n msg slot nxthop s)"

definition ip_send_local :: "nat \<Rightarrow> netst \<Rightarrow> send_out \<times> netst" where
  "ip_send_local a s = (case ip_local a s of (None, s1) \<Rightarrow> (SBlock, s1) | (Some _, s1) \<Rightarrow> (SDone OK, s1))"

definition ip_send :: "nat \<Rightarrow> netst \<Rightarrow> send_out \<times> netst" where
  "ip_send a s =
     (let dest = net_ipdst (pkts s a); nd = netdata s in
      if dest AND 0xff000000 = 0x7f000000 then ip_send_local a s
      else if dest = ipucast nd then ip_send_local a s
      else if dest = IP_BCAST \<or> dest = ipbcast nd then
        let (r, s1) = ip_out a (upd_pkt a (\<lambda>p. p\<lparr>net_ethdst := ethbcast nd\<rparr>) s) in (SDone r, s1)
      else
        let nxthop = ip_nxthop nd dest in
        if nxthop = 0 then (SDone SYSERR, free_pkt a s)
        else ip_send_arp a (arp_resolve nxthop s))"

text \<open>One turn of the process \<^verbatim>\<open>ipout\<close>: from its wait for a packet to the next.\<close>

definition ipout_packet :: "netst \<Rightarrow> send_out \<times> netst" where
  "ipout_packet s =
     (let (a, q) = iq_get (ipoqueue s);
          s1 = upd_pkt a (\<lambda>p. p\<lparr>net_ethsrc := ethucast (netdata s)\<rparr>) (s\<lparr>ipoqueue := q\<rparr>);
          destip = net_ipdst (pkts s1 a); nd = netdata s1
      in if destip = IP_BCAST \<or> destip = ipbcast nd then (SDone OK, free_pkt a s1)
         else if destip = ipucast nd then ip_send_local a s1
         else
           let nxthop = ip_nxthop nd destip in
           if nxthop = 0 then (SDone OK, free_pkt a s1)
           else ip_send_arp a (arp_resolve nxthop s1))"

definition ipout :: "netst \<Rightarrow> send_out \<times> netst" where
  "ipout s =
     (let s1 = upd_kern (\<lambda>k. snd (wait (iqsem (ipoqueue s)) k)) s in
      if currpid (nkern s1) \<noteq> currpid (nkern s) then (SBlock, s1) else ipout_packet s1)"

section \<open>Sending UDP and ICMP\<close>

definition udp_fill :: "nat \<Rightarrow> u16 \<Rightarrow> u32w \<Rightarrow> u16 \<Rightarrow> u16 \<Rightarrow> bmem \<Rightarrow> nat \<Rightarrow> int \<Rightarrow> netst \<Rightarrow> netst" where
  "udp_fill a ident remip remport locport m buff len s =
     upd_pkt a (\<lambda>p. p\<lparr>net_ethsrc := ethucast (netdata s), net_ethtype := ETH_IP, net_ipvh := 0x45, net_iptos := 0,
        net_iplen := word_of_int (ETH_HDR_LEN + IP_HDR_LEN + UDP_HDR_LEN + len - ETH_HDR_LEN), net_ipid := ident, net_ipfrag := 0, net_ipttl := 0xff,
        net_ipproto := IP_UDP, net_ipcksum := 0, net_ipsrc := ipucast (netdata s), net_ipdst := remip, net_udpsport := locport,
        net_udpdport := remport, net_udplen := word_of_int (UDP_HDR_LEN + len), net_udpcksum := 0,
        net_udpdata := copy_data (nat len) (net_udpdata p) 0 m buff\<rparr>) s"

text \<open>\<^verbatim>\<open>udp_send\<close> and \<^verbatim>\<open>udp_sendto\<close> return \<^verbatim>\<open>OK\<close> whatever \<^verbatim>\<open>ip_send\<close> returns.\<close>

definition udp_sent :: "send_out \<times> netst \<Rightarrow> send_out \<times> netst" where
  "udp_sent rs = (case rs of (SDone _, s) \<Rightarrow> (SDone OK, s) | (SWait n slot, s) \<Rightarrow> (SWait n slot, s) | (SBlock, s) \<Rightarrow> (SBlock, s))"

definition udp_send :: "int \<Rightarrow> bmem \<Rightarrow> nat \<Rightarrow> int \<Rightarrow> netst \<Rightarrow> send_out \<times> netst" where
  "udp_send slot m buff len s =
     (if slot < 0 \<or> slot \<ge> UDP_SLOTS then (SDone SYSERR, s)
      else
        let e = udptab s slot in
        if udstate e = UDP_FREE then (SDone SYSERR, s)
        else if udremip e = 0 then (SDone SYSERR, s)
        else
          (case getbuf (netbufpool s) (nkern s) of
             (None, k) \<Rightarrow> (SBlock, s\<lparr>nkern := k\<rparr>)
           | (Some pkt, k) \<Rightarrow>
               if pkt = SYSERRP then (SDone SYSERR, s\<lparr>nkern := k\<rparr>)
               else
                 udp_sent (ip_send pkt
                   (udp_fill pkt (udp_ident s) (udremip e) (udremport e) (udlocport e) m buff len (s\<lparr>nkern := k, udp_ident := udp_ident s + 1\<rparr>)))))"

definition udp_sendto :: "int \<Rightarrow> u32w \<Rightarrow> u16 \<Rightarrow> bmem \<Rightarrow> nat \<Rightarrow> int \<Rightarrow> netst \<Rightarrow> send_out \<times> netst" where
  "udp_sendto slot remip remport m buff len s =
     (if slot < 0 \<or> slot \<ge> UDP_SLOTS then (SDone SYSERR, s)
      else if udstate (udptab s slot) = UDP_FREE then (SDone SYSERR, s)
      else
        (case getbuf (netbufpool s) (nkern s) of
           (None, k) \<Rightarrow> (SBlock, s\<lparr>nkern := k\<rparr>)
         | (Some pkt, k) \<Rightarrow>
             if pkt = SYSERRP then (SDone SYSERR, s\<lparr>nkern := k\<rparr>)
             else
               udp_sent (ip_send pkt
                 (udp_fill pkt (udpto_ident s) remip remport (udlocport (udptab s slot)) m buff len
                   (s\<lparr>nkern := k, udpto_ident := udpto_ident s + 1\<rparr>)))))"

definition icmp_send :: "u32w \<Rightarrow> u16 \<Rightarrow> u16 \<Rightarrow> u16 \<Rightarrow> bmem \<Rightarrow> nat \<Rightarrow> int \<Rightarrow> netst \<Rightarrow> send_out \<times> netst" where
  "icmp_send remip type ident seq m buf len s =
     (case icmp_mkpkt remip type ident seq (\<lambda>i. m (buf + i)) len s of
        (None, s1) \<Rightarrow> (SBlock, s1)
      | (Some pkt, s1) \<Rightarrow> ip_send pkt s1)"

section \<open>The network input process\<close>

text \<open>What \<^verbatim>\<open>netin\<close> does with a packet that it has read into the buffer \<open>a\<close>.\<close>

definition netin :: "nat \<Rightarrow> netst \<Rightarrow> unit option \<times> netst" where
  "netin a s =
     (let s1 = upd_pkt a eth_ntoh s; t = net_ethtype (pkts s1 a) in
      if t = ETH_ARP then (Some (), arp_in a s1)
      else if t = ETH_IP then ip_in a s1
      else if t = ETH_IPv6 then (Some (), free_pkt a s1)
      else (Some (), free_pkt a s1))"

definition getport :: "netst \<Rightarrow> u16 \<times> netst" where
  "getport s =
     (let seed = 1103515245 * netportseed s + 12345
      in (word_of_int (50000 + uint (ucast (drop_bit 16 seed) :: u16) mod 15535), s\<lparr>netportseed := seed\<rparr>))"

text \<open>
  \<^verbatim>\<open>net_init\<close> up to the first call of \<^verbatim>\<open>resume\<close>, which runs the process \<^verbatim>\<open>ipout\<close>, and the rest. The address of the device and the clock are read from the
  hardware and are arguments, as are the addresses of the code.
\<close>

definition net_zero :: network where
  "net_zero = \<lparr>ipucast = 0, ipbcast = 0, ipmask = 0, ipprefix = 0, iprouter = 0, bootserver = 0, dnsserver = 0, ntpserver = 0, ipvalid = False,
     ethucast = replicate 6 0, ethbcast = replicate 6 0\<rparr>"

definition start_net :: "nat \<Rightarrow> string \<Rightarrow> nat \<Rightarrow> kernel \<Rightarrow> kernel" where
  "start_net procaddr name initret k = (let (pid, k1) = create procaddr 8192 500 name [] initret k in snd (resume pid k1))"

definition net_init :: "byte list \<Rightarrow> u32w \<Rightarrow> nat \<Rightarrow> nat \<Rightarrow> netst \<Rightarrow> netst" where
  "net_init mac ticks ipout_code initret s =
     (let s1 = s\<lparr>netdata := net_zero\<lparr>ethucast := mac, ethbcast := replicate 6 0xff\<rparr>, netportseed := ticks\<rparr>;
          (pool, k) = mkbufpool PACKLEN (UDP_SLOTS * UDP_QSIZ + ICMP_SLOTS * ICMP_QSIZ + 1) (nkern s1);
          s2 = icmp_init (udp_init (arp_init (s1\<lparr>nkern := k, netbufpool := pool\<rparr>)));
          (sem, k2) = semcreate 0 (nkern s2);
          s3 = s2\<lparr>nkern := k2, ipoqueue := (ipoqueue s2)\<lparr>iqhead := 0, iqtail := 0, iqsem := sem\<rparr>\<rparr>
      in if sem = SYSERR then upd_kern (\<lambda>k. k\<lparr>kstat := Hung\<rparr>) s3 else upd_kern (start_net ipout_code ''ipout'' initret) s3)"

definition net_init_rest :: "nat \<Rightarrow> nat \<Rightarrow> netst \<Rightarrow> netst" where
  "net_init_rest netin_code initret = upd_kern (start_net netin_code ''netin'' initret)"

section \<open>A datagram over the wire\<close>

lemma upd_pkt_simps [simp]:
  "pkts (upd_pkt a g s) = (pkts s)(a := g (pkts s a))" "nkern (upd_pkt a g s) = nkern s" "netdata (upd_pkt a g s) = netdata s"
  "udptab (upd_pkt a g s) = udptab s" "icmptab (upd_pkt a g s) = icmptab s" "arpcache (upd_pkt a g s) = arpcache s" "ethout (upd_pkt a g s) = ethout s"
  "netbufpool (upd_pkt a g s) = netbufpool s" "upd_pkt a h (upd_pkt a g s) = upd_pkt a (\<lambda>p. h (g p)) s"
  by (simp_all add: upd_pkt_def)

lemma upd_pkt_cong: "g (pkts s a) = h (pkts s a) \<Longrightarrow> upd_pkt a g s = upd_pkt a h s"
  by (simp add: upd_pkt_def)

lemma out_ip_cksum: "ipcksum (out_ip p) = 0"
  using ipcksum_verifies [of "ip_hton p"] by (simp add: out_ip_def Let_def)

lemma out_ip_back: "ip_ntoh (out_ip p) = p\<lparr>net_ipcksum := net_ipcksum (out_ip p)\<rparr>"
  by (simp add: out_ip_def ip_ntoh_def ip_hton_def Let_def)

definition ip_wire :: "netpacket \<Rightarrow> netpacket" where
  "ip_wire p = eth_hton (out_ip (out_proto p))"

definition udp_arrived :: "netpacket \<Rightarrow> netpacket" where
  "udp_arrived p = p\<lparr>net_udpcksum := 0, net_ipcksum := net_ipcksum (ip_wire p)\<rparr>"

lemma out_fields:
  "net_ipproto (out_ip p) = net_ipproto p" "net_ipvh (out_ip p) = net_ipvh p" "net_ethtype (out_ip p) = net_ethtype p" "net_ethdst (out_ip p) = net_ethdst p"
  "net_ipproto (out_proto p) = net_ipproto p" "net_ipvh (out_proto p) = net_ipvh p" "net_ethtype (out_proto p) = net_ethtype p"
  "net_ethdst (out_proto p) = net_ethdst p" "net_iplen (out_proto p) = net_iplen p"
  by (simp_all add: out_ip_def out_proto_def Let_def ip_hton_def udp_hton_def icmp_hton_def)

lemma ip_in_udp:
  assumes "net_ipproto p = IP_UDP" "net_ipvh p = 0x45" "pkts t b = out_ip (out_proto p)"
  shows "ip_in b t = ip_accept b (upd_pkt b (\<lambda>_. udp_arrived p) t)"
proof -
  let ?c = "net_ipcksum (out_ip (out_proto p))"
  have c: "ipcksum (pkts t b) = 0" by (simp add: assms(3) out_ip_cksum)
  have i: "ip_ntoh (pkts t b) = (out_proto p)\<lparr>net_ipcksum := ?c\<rparr>" by (simp add: assms(3) out_ip_back)
  have "udp_ntoh (ip_ntoh (pkts t b)) = udp_arrived p"
    unfolding i using assms(1) by (simp add: udp_arrived_def ip_wire_def eth_hton_def out_proto_def udp_ntoh_def udp_hton_def)
  then have "upd_pkt b (\<lambda>p. udp_ntoh (ip_ntoh p)) t = upd_pkt b (\<lambda>_. udp_arrived p) t" by (rule upd_pkt_cong)
  then show ?thesis using assms(1,2) i c by (simp add: ip_in_def Let_def out_fields)
qed

lemma netin_udp:
  assumes "net_ipproto p = IP_UDP" "net_ipvh p = 0x45" "net_ethtype p = ETH_IP" "pkts t b = ip_wire p"
    and "ipvalid (netdata t)" "net_ipdst p = ipucast (netdata t)"
  shows "netin b t = (Some (), udp_in b (upd_pkt b (\<lambda>_. udp_arrived p) t))"
proof -
  let ?t = "upd_pkt b eth_ntoh t"
  have e: "pkts ?t b = out_ip (out_proto p)" using assms(4) by (simp add: ip_wire_def convert_twice)
  have "net_ethtype (pkts ?t b) = ETH_IP" unfolding e by (simp add: out_fields assms(3))
  then have "netin b t = ip_in b ?t" by (simp add: netin_def Let_def)
  also have "\<dots> = ip_accept b (upd_pkt b (\<lambda>_. udp_arrived p) t)"
    using ip_in_udp [OF assms(1,2) e] by simp
  also have "\<dots> = (Some (), udp_in b (upd_pkt b (\<lambda>_. udp_arrived p) t))"
    using assms(1,5,6) by (simp add: ip_accept_def ip_local_def Let_def udp_arrived_def)
  finally show ?thesis .
qed

lemma ip_out_frame:
  assumes "pkts s a = p"
  shows "ip_out a s = (OK, free_pkt a ((upd_pkt a (\<lambda>_. ip_wire p) s)\<lparr>ethout := ethout s @ [(IpFrame (ip_wire p), uint (net_iplen p) + 14)]\<rparr>))"
proof -
  have "upd_pkt a (\<lambda>p. eth_hton (out_ip (out_proto p))) s = upd_pkt a (\<lambda>_. ip_wire p) s"
    by (rule upd_pkt_cong) (simp add: assms ip_wire_def)
  moreover have "15 + uint (net_iplen p) \<noteq> 0" using uint_ge_0 [of "net_iplen p"] by linarith
  ultimately show ?thesis using assms by (simp add: ip_out_def Let_def eth_write_def ip_wire_def)
qed

end
