(* ===== verification/Net_Props.thy ===== *)
theory Net_Props
  imports Ip Sample_States
begin

text \<open>
  The properties of the network stack: checksums and addresses, the tables of UDP and ARP, and what two machines do together: a datagram that one sends
  and the other receives, a request for an address and its answer, an echo request and the echo reply.
\<close>

section \<open>The tables keep their invariants\<close>

lemma udp_in_ok: "udp_ok s \<Longrightarrow> udp_ok (udp_in a s)"
proof -
  assume k: "udp_ok s"
  show ?thesis
  proof (cases "find (accepts s a) [0, 1, 2, 3, 4, 5]")
    case None
    then show ?thesis using k udp_ok_cong [of "free_pkt a s" s] by (simp add: udp_in_spec)
  next
    case (Some i)
    then show ?thesis using udp_in_delivers(1,5) [OF k Some] by simp
  qed
qed

lemma udp_register_ok: "udp_ok s \<Longrightarrow> udp_ok (snd (udp_register remip remport locport s))"
proof -
  assume k: "udp_ok s"
  show ?thesis
  proof (cases "\<exists>i. in_use s i \<and> endpoint (udptab s i) = (remip, remport, locport)")
    case False
    then show ?thesis using k fresh_ok [OF k, of _ remip remport locport] find_slot [of "\<lambda>j. udstate (udptab s j) = UDP_FREE"]
      unfolding udp_register_cases by (auto split: option.split simp del: find.simps)
  qed (use k in \<open>simp add: udp_register_cases\<close>)
qed

lemma udp_release_ok: "udp_ok s \<Longrightarrow> udp_ok (snd (udp_release slot s))"
proof -
  assume k: "udp_ok s"
  show ?thesis
  proof (cases "in_use s slot")
    case True
    let ?s1 = "upd_kern (\<lambda>k. snd (resched_cntl DEFER_START k)) s"
    let ?s2 = "udp_release_loop slot ?s1"
    let ?s3 = "upd_udp slot (\<lambda>e. e\<lparr>udstate := UDP_FREE\<rparr>) ?s2"
    have "udp_ok ?s1" "in_use ?s1 slot" using k True udp_ok_cong [of ?s1 s] by (simp_all add: in_use_def)
    then have "udp_ok ?s2" using udp_release_loop_ok by blast
    then have "udp_ok ?s3" by (rule udp_ok_upd [of _ _ slot "(udptab ?s2 slot)\<lparr>udstate := UDP_FREE\<rparr>"]) (simp_all del: udp_release_loop.simps)
    moreover have "snd (udp_release slot s) = upd_kern (\<lambda>k. snd (resched_cntl DEFER_STOP k)) ?s3"
      using True by (simp add: udp_release_def in_use_def Let_def del: udp_release_loop.simps)
    ultimately show ?thesis using udp_ok_cong [of "snd (udp_release slot s)" ?s3] by (simp del: udp_release_loop.simps)
  qed (use k in \<open>auto simp: udp_release_def in_use_def\<close>)
qed

lemma udp_wait_tab: "udptab (snd (udp_wait slot timeout s)) = (udptab s)(slot := (udptab s slot)\<lparr>udstate := UDP_RECV, udpid := currpid (nkern s)\<rparr>)"
  by (simp add: udp_wait_def Let_def split: prod.split)

lemma udp_wait_ok:
  assumes "udp_ok s" "in_use s slot"
  shows "udp_ok (snd (udp_wait slot timeout s))"
proof -
  have q: "queue_ok (udptab s slot)" using assms by (simp add: udp_ok_def)
  show ?thesis by (rule udp_ok_upd [OF assms(1) udp_wait_tab]) (simp_all add: q assms(2))
qed

text \<open>A call of \<^verbatim>\<open>udp_recv\<close> that finds a packet, and the part of one that waits.\<close>

lemma udp_recv_ok:
  assumes "udp_ok s" "0 < udcount (udptab s slot) \<or> fst (udp_recv slot m buff len timeout s) = None"
  shows "udp_ok (snd (udp_recv slot m buff len timeout s))"
proof (cases "0 \<le> slot \<and> slot < UDP_SLOTS \<and> udstate (udptab s slot) = UDP_USED")
  case True
  then have u: "in_use s slot" by (simp add: in_use_def)
  then have q: "queue_ok (udptab s slot)" using assms(1) by (simp add: udp_ok_def)
  show ?thesis
  proof (cases "udcount (udptab s slot) = 0")
    case z: True
    obtain r s1 where w: "udp_wait slot timeout s = (r, s1)" by (cases "udp_wait slot timeout s")
    have "r = None" using assms(2) z True w by (auto simp: udp_recv_def Let_def split: option.splits prod.splits)
    then show ?thesis using udp_wait_ok [OF assms(1) u, of timeout] z True w by (simp add: udp_recv_def)
  next
    case False
    then obtain a as where p: "udp_packets (udptab s slot) = a # as" using queue_ok_length [OF q] by (cases "udp_packets (udptab s slot)") auto
    obtain s' m' where "udp_take slot m buff len s = ((udp_msglen (pkts s a) len, m'), s')" "udp_ok s'" by (rule udp_take_ok [OF assms(1) u p])
    then show ?thesis using False True by (simp add: udp_recv_def Let_def)
  qed
qed (use assms(1) in \<open>auto simp: udp_recv_def\<close>)

text \<open>What follows the wait in \<^verbatim>\<open>udp_recv\<close> and \<^verbatim>\<open>udp_recvaddr\<close>: it is safe when the endpoint is still in use and, if the message says that a packet has come, there is one.\<close>

definition udp_recvaddr_msg :: "umsg32 \<Rightarrow> int \<Rightarrow> u32w \<times> u16 \<Rightarrow> bmem \<Rightarrow> nat \<Rightarrow> int \<Rightarrow> netst \<Rightarrow> (int \<times> (u32w \<times> u16) \<times> bmem) \<times> netst" where
  "udp_recvaddr_msg msg slot ra m buff len s =
     (let s1 = upd_udp slot (\<lambda>e. e\<lparr>udstate := UDP_USED\<rparr>) s in
      if msg = - 3 then ((TIMEOUT, ra, m), s1)
      else if msg \<noteq> 1 then ((SYSERR, ra, m), s1)
      else let ((r, m1), s2) = udp_take slot m buff len s1 in ((r, udp_sender slot s1, m1), s2))"

lemma udp_take_keeps:
  assumes "udp_ok s" "in_use s slot" "0 < udcount (udptab s slot)"
  shows "udp_ok (snd (udp_take slot m buff len s))"
proof -
  have q: "queue_ok (udptab s slot)" using assms(1,2) by (simp add: udp_ok_def)
  then obtain a as where p: "udp_packets (udptab s slot) = a # as"
    using queue_ok_length [OF q] assms(3) by (cases "udp_packets (udptab s slot)") auto
  show ?thesis by (rule udp_take_ok [OF assms(1,2) p, of m buff len]) simp
qed

lemma udp_used_ok:
  assumes "udp_ok s" "in_use s slot"
  shows "udp_ok (upd_udp slot (\<lambda>e. e\<lparr>udstate := UDP_USED\<rparr>) s)" "in_use (upd_udp slot (\<lambda>e. e\<lparr>udstate := UDP_USED\<rparr>) s) slot"
proof -
  have q: "queue_ok (udptab s slot)" using assms by (simp add: udp_ok_def)
  show "udp_ok (upd_udp slot (\<lambda>e. e\<lparr>udstate := UDP_USED\<rparr>) s)"
    by (rule udp_ok_upd [OF assms(1), of _ slot "(udptab s slot)\<lparr>udstate := UDP_USED\<rparr>"]) (use q assms(2) in simp_all)
  show "in_use (upd_udp slot (\<lambda>e. e\<lparr>udstate := UDP_USED\<rparr>) s) slot" using assms(2) by (simp add: in_use_def)
qed

lemma udp_msg_ok:
  assumes "udp_ok s" "in_use s slot" "msg = 1 \<longrightarrow> 0 < udcount (udptab s slot)"
  shows "udp_ok (snd (udp_recv_msg msg slot m buff len s))" "udp_ok (snd (udp_recvaddr_msg msg slot ra m buff len s))"
proof -
  let ?s = "upd_udp slot (\<lambda>e. e\<lparr>udstate := UDP_USED\<rparr>) s"
  note u = udp_used_ok [OF assms(1,2)]
  have "msg = 1 \<Longrightarrow> udp_ok (snd (udp_take slot m buff len ?s))" using udp_take_keeps [OF u] assms(3) by simp
  then show "udp_ok (snd (udp_recv_msg msg slot m buff len s))" "udp_ok (snd (udp_recvaddr_msg msg slot ra m buff len s))"
    using u(1) by (auto simp: udp_recv_msg_def udp_recvaddr_msg_def Let_def split: prod.split)
qed

lemma udp_recvaddr_ok:
  assumes "udp_ok s" "0 < udcount (udptab s slot) \<or> fst (udp_recvaddr slot ra m buff len timeout s) = None"
  shows "udp_ok (snd (udp_recvaddr slot ra m buff len timeout s))"
proof (cases "0 \<le> slot \<and> slot < UDP_SLOTS \<and> udstate (udptab s slot) = UDP_USED")
  case True
  then have u: "in_use s slot" by (simp add: in_use_def)
  show ?thesis
  proof (cases "udcount (udptab s slot) = 0")
    case z: True
    obtain r s1 where w: "udp_wait slot timeout s = (r, s1)" by (cases "udp_wait slot timeout s")
    have "r = None" using assms(2) z True w by (auto simp: udp_recvaddr_def Let_def split: option.splits prod.splits if_splits)
    then show ?thesis using udp_wait_ok [OF assms(1) u, of timeout] z True w by (simp add: udp_recvaddr_def)
  next
    case False
    have q: "queue_ok (udptab s slot)" using assms(1) u by (simp add: udp_ok_def)
    have "0 < udcount (udptab s slot)" using False q by (simp add: queue_ok_def)
    then show ?thesis using udp_take_keeps [OF assms(1) u, of m buff len] False True by (auto simp: udp_recvaddr_def Let_def split: prod.split)
  qed
qed (use assms(1) in \<open>auto simp: udp_recvaddr_def\<close>)

lemma udp_recvaddr_waits:
  assumes "0 \<le> slot" "slot < UDP_SLOTS" "udstate (udptab s slot) = UDP_USED" "udcount (udptab s slot) = 0" "udp_wait slot timeout s = (Some msg, s1)"
  shows "udp_recvaddr slot ra m buff len timeout s = (Some (fst (udp_recvaddr_msg msg slot ra m buff len s1)), snd (udp_recvaddr_msg msg slot ra m buff len s1))"
  using assms by (simp add: udp_recvaddr_def udp_recvaddr_msg_def Let_def split: prod.split)

text \<open>An endpoint that was released during the wait comes back to life when the wait ends, beside one that has been registered for the same peer since.\<close>

lemma udp_recv_revives:
  assumes "udstate (udptab s i) = UDP_FREE" "0 \<le> i" "i < UDP_SLOTS" "in_use s j" "endpoint (udptab s j) = endpoint (udptab s i)" "i \<noteq> j"
  shows "\<not> udp_ok (snd (udp_recv_msg (- 3) i m buff len s))"
proof
  let ?s = "snd (udp_recv_msg (- 3) i m buff len s)"
  assume k: "udp_ok ?s"
  have t: "udptab ?s = (udptab s)(i := (udptab s i)\<lparr>udstate := UDP_USED\<rparr>)" by (simp add: udp_recv_msg_def Let_def)
  have "in_use ?s i" "in_use ?s j" "endpoint (udptab ?s i) = endpoint (udptab ?s j)" using assms by (simp_all add: t in_use_def)
  then show False using k assms(6) unfolding udp_ok_def by blast
qed

lemma arp_init_ok: "arp_ok (arp_init s)"
  by (auto simp: arp_ok_def cached_def arp_init_def split: if_splits)

text \<open>C26: the tables of UDP and ARP. After initialisation no UDP endpoint is in use. No two endpoints in use have the same remote address, remote port and
  local port, and the packets queued at each lie in its circular buffer between head and tail, as many as its count says. Arriving packets,
  registration and release keep this; so do \<^verbatim>\<open>udp_recv\<close> and \<^verbatim>\<open>udp_recvaddr\<close> when a packet is queued or when they wait, and the rest of them after
  a wait when the endpoint has not been released meanwhile and a packet has come if the message says so. No address is in the ARP cache twice after its
  initialisation, and whatever ARP packet arrives, whichever address is resolved and however the wait for the answer ends, that stays so.\<close>

theorem net_tables_invariant:
  "udp_ok (udp_init s) \<and> arp_ok (arp_init s) \<and>
   (udp_ok s \<longrightarrow>
      udp_ok (udp_in a s) \<and> udp_ok (snd (udp_register remip remport locport s)) \<and> udp_ok (snd (udp_release slot s)) \<and>
      (0 < udcount (udptab s slot) \<or> fst (udp_recv slot m buff len timeout s) = None \<longrightarrow> udp_ok (snd (udp_recv slot m buff len timeout s))) \<and>
      (0 < udcount (udptab s slot) \<or> fst (udp_recvaddr slot ra m buff len timeout s) = None \<longrightarrow> udp_ok (snd (udp_recvaddr slot ra m buff len timeout s))) \<and>
      (in_use s slot \<and> (msg = 1 \<longrightarrow> 0 < udcount (udptab s slot)) \<longrightarrow>
         udp_ok (snd (udp_recv_msg msg slot m buff len s)) \<and> udp_ok (snd (udp_recvaddr_msg msg slot ra m buff len s)))) \<and>
   (arp_ok s \<longrightarrow> arp_ok (arp_in a s) \<and> arp_ok (snd (arp_resolve nxthop s)) \<and> arp_ok (snd (arp_continue n msg i nxthop s)))"
proof (intro conjI impI)
  assume k: "udp_ok s" and i: "in_use s slot \<and> (msg = 1 \<longrightarrow> 0 < udcount (udptab s slot))"
  show "udp_ok (snd (udp_recv_msg msg slot m buff len s))" "udp_ok (snd (udp_recvaddr_msg msg slot ra m buff len s))"
    using udp_msg_ok [OF k conjunct1 [OF i] conjunct2 [OF i]] by simp_all
qed (rule udp_init_ok udp_in_ok udp_register_ok udp_release_ok udp_recv_ok udp_recvaddr_ok arp_init_ok arp_in_ok arp_resolve_ok arp_continue_ok; assumption)+

text \<open>A machine of the network 10.0.0.0/24 with nothing in its tables, a pool of packet buffers and the semaphore of the output queue.\<close>

definition node_kernel :: kernel where
  "node_kernel = busy\<lparr>nbpools := 1, buftab := (\<lambda>_. \<lparr>bpnext = 4096, bpsem = 0, bpsize = 1516\<rparr>),
     semtab := (semtab busy)(0 := \<lparr>sstate = S_USED, scount = 5, squeue = 100\<rparr>, 1 := \<lparr>sstate = S_USED, scount = 0, squeue = 102\<rparr>)\<rparr>"

definition blank :: netpacket where
  "blank = \<lparr>net_ethdst = replicate 6 0, net_ethsrc = replicate 6 0, net_ethtype = 0, net_ipvh = 0, net_iptos = 0, net_iplen = 0, net_ipid = 0, net_ipfrag = 0,
     net_ipttl = 0, net_ipproto = 0, net_ipcksum = 0, net_ipsrc = 0, net_ipdst = 0, net_udpsport = 0, net_udpdport = 0, net_udplen = 0, net_udpcksum = 0,
     net_udpdata = (\<lambda>_. 0)\<rparr>"

definition node :: "u32w \<Rightarrow> byte \<Rightarrow> kernel \<Rightarrow> netst" where
  "node ip h k = \<lparr>nkern = k, pkts = (\<lambda>_. blank),
     netdata = net_zero\<lparr>ipucast := ip, ipbcast := 0x0a0000ff, ipmask := 0xffffff00, ipprefix := 0x0a000000, iprouter := 0x0a0000fe, ipvalid := True,
       ethucast := replicate 6 h, ethbcast := replicate 6 0xff\<rparr>,
     netbufpool = 0, udptab = (\<lambda>_. \<lparr>udstate = UDP_FREE, udremip = 0, udremport = 0, udlocport = 0, udhead = 0, udtail = 0, udcount = 0, udpid = 0, udqueue = (\<lambda>_. 0)\<rparr>),
     icmptab = (\<lambda>_. \<lparr>icstate = ICMP_FREE, icremip = 0, ichead = 0, ictail = 0, iccount = 0, icpid = 0, icqueue = (\<lambda>_. 0)\<rparr>),
     arpcache = (\<lambda>_. arp_zero), ipoqueue = \<lparr>iqhead = 0, iqtail = 0, iqsem = 1, iqbuf = (\<lambda>_. 0)\<rparr>, udp_ident = 1, udpto_ident = 1, icmp_ipident = 32767,
     netportseed = 0, ethout = []\<rparr>"

lemma node_ok: "udp_ok (node ip h k)" "arp_ok (node ip h k)"
  by (simp_all add: udp_ok_def in_use_def arp_ok_def cached_def node_def arp_zero_def)

lemma node_getbuf: "\<exists>k. getbuf 0 node_kernel = (Some 4100, k) \<and> semcount 1 k = 0"
  by (simp add: getbuf_def wait_def isbadsem_def node_kernel_def Let_def upd_sem_def resume_point_def getbuf_rest_def set_word_def upd_pool_def semcount_def u32_def s32_def)

lemma no_address: "arp_find n i addr (node ip h k) = None"
  by (induction n arbitrary: i) (simp_all add: node_def arp_zero_def)

theorem net_tables_invariant_witness:
  "udp_ok (snd (udp_register 0 0 7 (node 1 2 busy))) \<and> arp_ok (snd (arp_resolve 5 (node 1 2 busy)))"
  using net_tables_invariant [of "node 1 2 busy" 0 0 0 7] node_ok [of 1 2 busy] by blast

section \<open>A datagram from one machine to another\<close>

text \<open>The destination is reached through the Ethernet, and the address of the next hop is in the cache.\<close>

definition route_known :: "netst \<Rightarrow> u32w \<Rightarrow> int \<Rightarrow> bool" where
  "route_known s dest i \<longleftrightarrow>
     (let nd = netdata s; h = ip_nxthop nd dest in
      dest AND 0xff000000 \<noteq> 0x7f000000 \<and> dest \<noteq> ipucast nd \<and> dest \<noteq> IP_BCAST \<and> dest \<noteq> ipbcast nd \<and> h \<noteq> 0 \<and> h \<noteq> IP_BCAST \<and> h \<noteq> ipbcast nd \<and>
      arp_find 16 0 h s = Some i \<and> arstate (arpcache s i) = AR_RESOLVED)"

lemma arp_find_cong: "arpcache s' = arpcache s \<Longrightarrow> arp_find n i addr s' = arp_find n i addr s"
  by (induction n arbitrary: i) simp_all

lemma ip_send_frame:
  assumes "route_known s dest i" "net_ipdst (pkts s a) = dest"
  shows "ip_send a s = (SDone OK, snd (ip_out a (upd_pkt a (\<lambda>p. p\<lparr>net_ethdst := arhaddr (arpcache s i)\<rparr>) s)))"
proof -
  let ?h = "ip_nxthop (netdata s) dest"
  have "arp_resolve ?h s = (ADone OK (Some (arhaddr (arpcache s i))), s)" using assms(1) by (simp add: route_known_def arp_resolve_def Let_def)
  then have "ip_send a s = ip_send_arp a (ADone OK (Some (arhaddr (arpcache s i))), s)" using assms by (simp add: route_known_def ip_send_def Let_def)
  then show ?thesis by (simp add: ip_send_arp_def ip_out_frame [OF refl])
qed

text \<open>The packet that \<^verbatim>\<open>udp_send\<close> makes, in the byte order of the machine.\<close>

definition datagram :: "network \<Rightarrow> byte list \<Rightarrow> u32w \<Rightarrow> u16 \<Rightarrow> u16 \<Rightarrow> bmem \<Rightarrow> nat \<Rightarrow> int \<Rightarrow> netpacket \<Rightarrow> bool" where
  "datagram nd mac remip remport locport m buff len p \<longleftrightarrow>
     net_ethdst p = mac \<and> net_ethsrc p = ethucast nd \<and> net_ethtype p = ETH_IP \<and> net_ipvh p = 0x45 \<and> net_ipproto p = IP_UDP \<and>
     net_ipsrc p = ipucast nd \<and> net_ipdst p = remip \<and> net_udpsport p = locport \<and> net_udpdport p = remport \<and>
     uint (net_udplen p) = len + 8 \<and> uint (net_iplen p) = len + 28 \<and> map (net_udpdata p) [0..<nat len] = map (\<lambda>i. m (buff + i)) [0..<nat len]"

lemma uint_small: "0 \<le> k \<Longrightarrow> k < 65536 \<Longrightarrow> uint (word_of_int k :: u16) = k"
  by (simp add: uint_word_of_int)

lemma udp_fill_datagram:
  assumes "0 \<le> len" "len \<le> 1472" "s1 = udp_fill a ident remip remport locport m buff len s"
  shows "datagram (netdata s) mac remip remport locport m buff len ((pkts s1 a)\<lparr>net_ethdst := mac\<rparr>)"
  using assms uint_small [of "len + 28"] uint_small [of "len + 8"] by (auto simp: datagram_def udp_fill_def copy_data_eq add.commute)

lemma udp_send_frame:
  assumes "0 \<le> slot" "slot < UDP_SLOTS" "udstate (udptab s slot) \<noteq> UDP_FREE" "udremip (udptab s slot) \<noteq> 0"
    and "getbuf (netbufpool s) (nkern s) = (Some a, k)" "a \<noteq> SYSERRP" "route_known s (udremip (udptab s slot)) i" "0 \<le> len" "len \<le> 1472"
    and "udp_send slot m buff len s = (r, s')"
  shows "r = SDone OK" "\<exists>p. datagram (netdata s) (arhaddr (arpcache s i)) (udremip (udptab s slot)) (udremport (udptab s slot)) (udlocport (udptab s slot)) m buff len p \<and>
    ethout s' = ethout s @ [(IpFrame (ip_wire p), len + 42)]"
proof -
  let ?e = "udptab s slot" and ?mac = "arhaddr (arpcache s i)"
  let ?s0 = "s\<lparr>nkern := k, udp_ident := udp_ident s + 1\<rparr>"
  define s1 where "s1 = udp_fill a (udp_ident s) (udremip ?e) (udremport ?e) (udlocport ?e) m buff len ?s0"
  let ?p = "(pkts s1 a)\<lparr>net_ethdst := ?mac\<rparr>"
  have keep: "netdata s1 = netdata s" "arpcache s1 = arpcache s" "ethout s1 = ethout s" "net_ipdst (pkts s1 a) = udremip ?e"
    by (simp_all add: s1_def udp_fill_def)
  have "route_known s1 (udremip ?e) i" using assms(7) arp_find_cong [OF keep(2)] keep by (simp add: route_known_def Let_def)
  from ip_send_frame [OF this keep(4)] have send: "ip_send a s1 = (SDone OK, snd (ip_out a (upd_pkt a (\<lambda>p. p\<lparr>net_ethdst := ?mac\<rparr>) s1)))"
    using keep(2) by simp
  have "udp_send slot m buff len s = udp_sent (ip_send a s1)" using assms(1-6) by (simp add: udp_send_def s1_def Let_def)
  then have u: "r = SDone OK" "s' = snd (ip_out a (upd_pkt a (\<lambda>p. p\<lparr>net_ethdst := ?mac\<rparr>) s1))" using assms(10) send by (simp_all add: udp_sent_def)
  have d: "datagram (netdata s) ?mac (udremip ?e) (udremport ?e) (udlocport ?e) m buff len ?p"
    using udp_fill_datagram [OF assms(8,9) s1_def, of ?mac] by simp
  have "ethout s' = ethout s @ [(IpFrame (ip_wire ?p), uint (net_iplen ?p) + 14)]"
    unfolding u(2) using keep(3) by (simp add: ip_out_frame [OF refl])
  moreover have "uint (net_iplen ?p) + 14 = len + 42" using d unfolding datagram_def by linarith
  ultimately show "r = SDone OK" "\<exists>p. datagram (netdata s) ?mac (udremip ?e) (udremport ?e) (udlocport ?e) m buff len p \<and>
    ethout s' = ethout s @ [(IpFrame (ip_wire p), len + 42)]" using d u(1) by auto
qed

text \<open>The endpoint \<open>j\<close> is the only one at its port, and it takes packets from the sender.\<close>

definition listens :: "netst \<Rightarrow> int \<Rightarrow> u32w \<Rightarrow> u16 \<Rightarrow> u16 \<Rightarrow> bool" where
  "listens t j remip remport locport \<longleftrightarrow> in_use t j \<and> endpoint (udptab t j) = (remip, remport, locport) \<and> udcount (udptab t j) = 0 \<and>
     list_all (\<lambda>i. i = j \<or> udstate (udptab t i) = UDP_FREE \<or> udlocport (udptab t i) \<noteq> locport) [0, 1, 2, 3, 4, 5]"

lemma find_unique: "x \<in> set xs \<Longrightarrow> P x \<Longrightarrow> list_all (\<lambda>y. y = x \<or> \<not> P y) xs \<Longrightarrow> find P xs = Some x"
  by (induction xs) auto

lemma netin_datagram:
  assumes "datagram nd mac remip remport locport m buff len p" "pkts t b = ip_wire p" "ipvalid (netdata t)" "ipucast (netdata t) = remip"
    and "udp_ok t" "listens t j (ipucast nd) locport remport" "netin b t = (x, t1)"
  shows "x = Some ()" "udp_ok t1" "in_use t1 j" "udstate (udptab t1 j) = UDP_USED" "udp_packets (udptab t1 j) = [b]" "pkts t1 b = udp_arrived p"
proof -
  let ?t = "upd_pkt b (\<lambda>_. udp_arrived p) t"
  have d: "net_ipproto p = IP_UDP" "net_ipvh p = 0x45" "net_ethtype p = ETH_IP" "net_ipdst p = ipucast (netdata t)"
    using assms(1,4) by (simp_all add: datagram_def)
  have n: "x = Some ()" "t1 = udp_in b ?t" using netin_udp [OF d(1-3) assms(2,3) d(4)] assms(7) by simp_all
  have ok: "udp_ok ?t" using assms(5) udp_ok_cong [of ?t t] by simp
  have l: "in_use t j" "endpoint (udptab t j) = (ipucast nd, locport, remport)" "udcount (udptab t j) = 0" using assms(6) by (simp_all add: listens_def)
  have "accepts ?t b j" using l assms(1) by (auto simp: accepts_def udp_match_def endpoint_def in_use_def udp_arrived_def datagram_def)
  moreover have "i = j \<or> \<not> accepts ?t b i" if "i = j \<or> udstate (udptab t i) = UDP_FREE \<or> udlocport (udptab t i) \<noteq> remport" for i
    using that assms(1) by (auto simp: accepts_def udp_match_def udp_arrived_def datagram_def)
  then have "list_all (\<lambda>i. i = j \<or> \<not> accepts ?t b i) [0, 1, 2, 3, 4, 5]"
    using assms(6) unfolding listens_def by (blast intro: list.pred_mono_strong)
  moreover have "j \<in> set [0, 1, 2, 3, 4, 5]" using l(1) by (auto simp: in_use_def)
  ultimately have f: "find (accepts ?t b) [0, 1, 2, 3, 4, 5] = Some j" by (intro find_unique)
  note dl = udp_in_delivers [OF ok f]
  have e: "udp_packets (udptab t j) = []" using l(3) by (simp add: udp_packets_def)
  show "x = Some ()" by (rule n(1))
  show "udp_ok t1" "udstate (udptab t1 j) = UDP_USED" "udp_packets (udptab t1 j) = [b]" unfolding n(2) dl(1) using dl(2,4,5) e by simp_all
  then show "in_use t1 j" using l(1) by (simp add: in_use_def)
  show "pkts t1 b = udp_arrived p" unfolding n(2) dl(1) by (simp add: udp_deliver_def Let_def)
qed

lemma udp_recv_queued:
  assumes "udp_ok t" "in_use t j" "udstate (udptab t j) = UDP_USED" "udp_packets (udptab t j) = [b]" "uint (net_udplen (pkts t b)) = len + 8" "0 \<le> len" "0 \<le> len2"
    and "udp_recv j m2 buf2 len2 timeout t = (y, t2)"
  shows "\<exists>m'. y = Some (min len len2, m') \<and> bytes_at m' buf2 (map (net_udpdata (pkts t b)) [0..<nat (min len len2)]) \<and> writes m2 m' buf2 (nat (min len len2))"
    "udp_packets (udptab t2 j) = []"
proof -
  have l: "udp_msglen (pkts t b) len2 = min len len2" using assms(5) by (simp add: udp_msglen_def)
  have c: "udcount (udptab t j) = 1" using queue_ok_length [of "udptab t j"] assms(1,2,4) by (simp add: udp_ok_def)
  obtain t' m' where k: "udp_take j m2 buf2 len2 t = ((udp_msglen (pkts t b) len2, m'), t')"
    "bytes_at m' buf2 (map (net_udpdata (pkts t b)) [0..<nat (udp_msglen (pkts t b) len2)])" "writes m2 m' buf2 (nat (udp_msglen (pkts t b) len2))"
    "udp_packets (udptab t' j) = []" by (rule udp_take_ok [OF assms(1,2,4)])
  have "y = Some (min len len2, m')" "t2 = t'" using k(1) c assms(2,3,8) by (simp_all add: udp_recv_def in_use_def l)
  then show "\<exists>m'. y = Some (min len len2, m') \<and> bytes_at m' buf2 (map (net_udpdata (pkts t b)) [0..<nat (min len len2)]) \<and> writes m2 m' buf2 (nat (min len len2))"
    "udp_packets (udptab t2 j) = []" using k l by auto
qed

text \<open>C24: UDP over two machines. Machine \<open>s\<close> sends \<open>len\<close> bytes from an endpoint whose peer is reached through a next hop in the ARP cache; machine \<open>t\<close>, which has the
  destination address and an endpoint for the sender with an empty queue, gets the frame. \<^verbatim>\<open>udp_send\<close> writes one frame, to the next hop's hardware
  address; on arrival the checksum is right and the frame goes through \<^verbatim>\<open>netin\<close> and \<^verbatim>\<open>ip_in\<close> to that endpoint; and \<^verbatim>\<open>udp_recv\<close> there returns at once with the
  bytes that were sent, as many as its buffer takes, and writes nothing else.\<close>

theorem udp_end_to_end:
  assumes "0 \<le> slot" "slot < UDP_SLOTS" "udstate (udptab s slot) \<noteq> UDP_FREE" "endpoint (udptab s slot) = (remip, remport, locport)" "remip \<noteq> 0"
    and "getbuf (netbufpool s) (nkern s) = (Some a, k)" "a \<noteq> SYSERRP" "route_known s remip i" "0 \<le> len" "len \<le> 1472"
    and "udp_send slot m buff len s = (r, s')" "last (ethout s') = (IpFrame q, n)"
    and "pkts t b = q" "ipvalid (netdata t)" "ipucast (netdata t) = remip" "udp_ok t" "listens t j (ipucast (netdata s)) locport remport"
    and "netin b t = (x, t1)" "0 \<le> len2" "udp_recv j m2 buf2 len2 timeout t1 = (y, t2)"
  shows "r = SDone OK \<and> ethout s' = ethout s @ [(IpFrame q, len + 42)] \<and> net_ethdst q = arhaddr (arpcache s i) \<and> x = Some () \<and>
    (\<exists>m'. y = Some (min len len2, m') \<and> bytes_at m' buf2 (map (\<lambda>i. m (buff + i)) [0..<nat (min len len2)]) \<and> writes m2 m' buf2 (nat (min len len2)))"
proof -
  have ep: "udremip (udptab s slot) = remip" "udremport (udptab s slot) = remport" "udlocport (udptab s slot) = locport" using assms(4) by (simp_all add: endpoint_def)
  obtain p where r: "r = SDone OK" and d: "datagram (netdata s) (arhaddr (arpcache s i)) remip remport locport m buff len p"
    and o: "ethout s' = ethout s @ [(IpFrame (ip_wire p), len + 42)]"
    using udp_send_frame [OF assms(1-3) _ assms(6,7) _ assms(9-11), of i] assms(5,8) unfolding ep by blast
  have q: "q = ip_wire p" "n = len + 42" using assms(12) o by simp_all
  note N = netin_datagram [OF d assms(13) [unfolded q] assms(14-18)]
  have u: "uint (net_udplen (pkts t1 b)) = len + 8" "net_udpdata (pkts t1 b) = net_udpdata p" using d by (simp_all add: N(6) udp_arrived_def datagram_def)
  have "net_ethdst q = net_ethdst p" by (simp add: q ip_wire_def eth_hton_def out_fields)
  moreover have "net_ethdst p = arhaddr (arpcache s i)" using d by (simp add: datagram_def)
  moreover have "map (net_udpdata p) [0..<nat (min len len2)] = map (\<lambda>i. m (buff + i)) [0..<nat (min len len2)]"
    using d by (auto simp: datagram_def)
  ultimately show ?thesis using r o q N(1) udp_recv_queued(1) [OF N(2-5) u(1) assms(9,19,20)] unfolding u(2) by (simp only: refl simp_thms)
qed

text \<open>A machine 10.0.0.1 with an endpoint for 10.0.0.2 whose hardware address it knows, and that machine with the frame in its buffer 8.\<close>

definition sender :: netst where
  "sender = (node 0x0a000001 1 node_kernel)\<lparr>udptab := (\<lambda>_. \<lparr>udstate = UDP_USED, udremip = 0x0a000002, udremport = 7, udlocport = 5000, udhead = 0, udtail = 0, udcount = 0,
       udpid = - 1, udqueue = (\<lambda>_. 0)\<rparr>),
     arpcache := (\<lambda>_. arp_zero)(0 := \<lparr>arstate = AR_RESOLVED, arpaddr = 0x0a000002, arpid = 0, arhaddr = replicate 6 2\<rparr>)\<rparr>"

definition receiver :: "netpacket \<Rightarrow> netst" where
  "receiver q = (upd_udp 3 (fresh 0x0a000001 5000 7) (node 0x0a000002 2 busy))\<lparr>pkts := \<lambda>_. q\<rparr>"

lemma first_entry: "arstate (arpcache s 0) \<noteq> AR_FREE \<Longrightarrow> arpaddr (arpcache s 0) = addr \<Longrightarrow> arp_find 16 0 addr s = Some 0"
  using arp_find.simps(2) [of 15 0 addr s] by simp

lemma sender_route: "route_known sender 0x0a000002 0"
proof -
  have h: "ip_nxthop (netdata sender) 0x0a000002 = 0x0a000002" by (simp add: ip_nxthop_def sender_def node_def net_zero_def)
  show ?thesis unfolding route_known_def Let_def h by (simp add: first_entry sender_def) (simp add: node_def net_zero_def)
qed

lemma receiver_facts:
  "udp_ok (receiver q)" "listens (receiver q) 3 0x0a000001 5000 7" "pkts (receiver q) b = q" "ipvalid (netdata (receiver q))" "ipucast (netdata (receiver q)) = 0x0a000002"
proof -
  let ?n = "node 0x0a000002 2 busy"
  have "udp_ok (upd_udp 3 (fresh 0x0a000001 5000 7) ?n)" by (rule fresh_ok [OF node_ok(1)]) (simp_all add: node_def in_use_def)
  then show "udp_ok (receiver q)" using udp_ok_cong [of "receiver q" "upd_udp 3 (fresh 0x0a000001 5000 7) ?n"] by (simp add: receiver_def)
  show "listens (receiver q) 3 0x0a000001 5000 7" "pkts (receiver q) b = q" "ipvalid (netdata (receiver q))" "ipucast (netdata (receiver q)) = 0x0a000002"
    by (simp_all add: listens_def receiver_def in_use_def node_def upd_udp_def fresh_def endpoint_def)
qed

theorem udp_end_to_end_witness:
  "\<exists>s' q t1 t2 m'. udp_send 0 (\<lambda>i. of_nat i) 65 3 sender = (SDone OK, s') \<and> ethout s' = [(IpFrame q, 45)] \<and> net_ethdst q = [2, 2, 2, 2, 2, 2] \<and>
     netin 8 (receiver q) = (Some (), t1) \<and> udp_recv 3 (\<lambda>_. 0) 20 100 50 t1 = (Some (3, m'), t2) \<and> bytes_at m' 20 [65, 66, 67]"
proof -
  obtain k where g: "getbuf (netbufpool sender) (nkern sender) = (Some 4100, k)" using node_getbuf by (auto simp: sender_def node_def)
  obtain r s' where u: "udp_send 0 (\<lambda>i. of_nat i) 65 3 sender = (r, s')" by (cases "udp_send 0 (\<lambda>i. of_nat i) 65 3 sender")
  have e: "udstate (udptab sender 0) \<noteq> UDP_FREE" "endpoint (udptab sender 0) = (0x0a000002, 7, 5000)" "udremip (udptab sender 0) = 0x0a000002"
    "ethout sender = []" "ipucast (netdata sender) = 0x0a000001" "arhaddr (arpcache sender 0) = [2, 2, 2, 2, 2, 2]"
    by (simp_all add: sender_def endpoint_def node_def net_zero_def eval_nat_numeral)
  obtain p where "ethout s' = ethout sender @ [(IpFrame (ip_wire p), 3 + 42)]" using udp_send_frame(2) [OF _ _ e(1) _ g _ _ _ _ u, of 0] sender_route e(3) by auto
  then obtain q n where l: "last (ethout s') = (IpFrame q, n)" by simp
  obtain x t1 where n: "netin 8 (receiver q) = (x, t1)" by (cases "netin 8 (receiver q)")
  obtain y t2 where v: "udp_recv 3 (\<lambda>_. 0) 20 100 50 t1 = (y, t2)" by (cases "udp_recv 3 (\<lambda>_. 0) 20 100 50 t1")
  have "listens (receiver q) 3 (ipucast (netdata sender)) 5000 7" using receiver_facts(2) by (simp add: e(5))
  from udp_end_to_end [OF _ _ e(1,2) _ g _ sender_route _ _ u l receiver_facts(3-5,1) this n _ v]
  have "r = SDone OK \<and> ethout s' = ethout sender @ [(IpFrame q, 45)] \<and> net_ethdst q = [2, 2, 2, 2, 2, 2] \<and> x = Some () \<and>
    (\<exists>m'. y = Some (3, m') \<and> bytes_at m' 20 (map (\<lambda>i. of_nat (65 + i)) [0..<3]))" by (auto simp: e(6))
  moreover have "map (\<lambda>i. of_nat (65 + i)) [0..<3] = [65, 66, 67 :: byte]" by (simp add: upt_rec)
  ultimately show ?thesis using u n v e(4) by auto
qed

section \<open>Resolving an address\<close>

text \<open>A process that has no message blocks in \<^verbatim>\<open>recvtime\<close>.\<close>

lemma recvtime_waits:
  assumes k: "kinv s L" and c: "currpid s \<noteq> NULLPROC" and m: "\<not> prhasmsg (proctab s (currpid s))" and n: "0 \<le> n"
  shows "fst (recvtime n s) = None"
proof -
  obtain us vs r where d: "delta_scan (ky (queuetab s)) n (L (sleepq s)) = (us, vs, r)"
    by (cases "delta_scan (ky (queuetab s)) n (L (sleepq s))") auto
  from insertd_sleep [OF k c disjI2 [OF refl] d] obtain qt where
    o: "insertd (currpid s) (sleepq s) n s = (OK, s\<lparr>queuetab := qt\<rparr>)"
    and kk: "kcore (set_state (currpid s) PR_RECTIM (s\<lparr>queuetab := qt\<rparr>)) (L(sleepq s := us @ currpid s # vs)) {}" .
  let ?s = "set_state (currpid s) PR_RECTIM (s\<lparr>queuetab := qt\<rparr>)"
  have "sems_ok (s\<lparr>queuetab := qt\<rparr>) (L(sleepq s := us @ currpid s # vs))"
    using sems_ok_other_queue [OF kinvD(1) [OF k] _ _ kinvD(2) [OF k]] by simp
  with resched_kinv [OF kk] kinvD(3) [OF k] obtain L' where
    b: "kinv (resched ?s) L'" and f: "switch_frame ?s (resched ?s)" by auto
  define t where "t = s\<lparr>queuetab := qt\<rparr>"
  have t: "currpid t = currpid s" "ndefers t = ndefers s" by (simp_all add: t_def)
  note B = blocked_state(1) [of t PR_RECTIM, unfolded t, folded t_def]
  have "prstate (proctab (resched ?s) (currpid s)) = PR_RECTIM"
    unfolding t_def [symmetric] by (rule B [OF kk [folded t_def] kinvD(3,5) [OF k] _ _ f [folded t_def] refl]) simp_all
  then have "currpid (resched ?s) \<noteq> currpid s" using kinvD(4) [OF b] by auto
  then show ?thesis using m n o by (simp add: recvtime_def resume_point_def)
qed

lemma arp_continue_again:
  "arp_continue 0 msg slot nxthop s \<noteq> (AWait n' slot', s')"
  "arp_continue (Suc n) msg slot nxthop s = (AWait n' slot', s') \<Longrightarrow>
     arp_try nxthop s = (None, s') \<and> slot' = slot \<or> (\<exists>msg1 s1. arp_try nxthop s = (Some msg1, s1) \<and> arp_continue n msg1 slot nxthop s1 = (AWait n' slot', s'))"
  by (subst arp_continue.simps, simp) (subst (asm) arp_continue.simps, auto simp del: arp_continue.simps split: if_splits option.splits prod.splits)

lemma arp_continue_waits:
  assumes "arp_continue n msg slot nxthop s = (AWait n' slot', s')"
  shows "slot' = slot \<and> arpcache s' = arpcache s \<and> netdata s' = netdata s \<and> last (ethout s') = (ArpFrame (arp_request (netdata s) nxthop), 42)"
  using assms
proof (induction n arbitrary: msg s)
  case (Suc n)
  from arp_continue_again(2) [OF Suc.prems] consider "arp_try nxthop s = (None, s')" "slot' = slot"
    | msg1 s1 where "arp_try nxthop s = (Some msg1, s1)" "arp_continue n msg1 slot nxthop s1 = (AWait n' slot', s')" by blast
  then show ?case
  proof cases
    case 1
    then show ?thesis using arp_try_keeps [OF 1(1)] by simp
  next
    case 2
    then show ?thesis using arp_try_keeps [OF 2(1)] Suc.IH [OF 2(2)] by simp
  qed
qed (use arp_continue_again(1) in blast)

lemma arp_pending_entry:
  assumes "arp_pending nxthop s = (Some slot, s')"
  shows "arstate (arpcache s' slot) = AR_PENDING" "arpaddr (arpcache s' slot) = nxthop" "arpid (arpcache s' slot) = currpid (nkern s)" "cached s' slot" "netdata s' = netdata s"
proof -
  obtain s0 where al: "arp_alloc s = (Some slot, s0)"
    and s': "s' = upd_arp slot (\<lambda>e. e\<lparr>arstate := AR_PENDING, arpaddr := nxthop, arpid := currpid (nkern s0)\<rparr>) s0"
    using assms by (auto simp: arp_pending_def split: prod.splits option.splits)
  note a = arp_alloc_spec [OF al]
  show "arstate (arpcache s' slot) = AR_PENDING" "arpaddr (arpcache s' slot) = nxthop" "arpid (arpcache s' slot) = currpid (nkern s)" "cached s' slot" "netdata s' = netdata s"
    using a by (simp_all add: cached_def s')
qed

lemma arp_resolve_request:
  assumes "arp_resolve nxthop s = (AWait n slot, s')"
  shows "arstate (arpcache s' slot) = AR_PENDING \<and> arpaddr (arpcache s' slot) = nxthop \<and> arpid (arpcache s' slot) = currpid (nkern s) \<and> cached s' slot \<and>
    last (ethout s') = (ArpFrame (arp_request (netdata s) nxthop), 42)"
proof -
  obtain slot0 s1 where p: "arp_pending nxthop s = (Some slot0, s1)"
    and r: "(case arp_try nxthop (upd_kern (\<lambda>k. snd (recvclr k)) s1) of (None, s2) \<Rightarrow> (AWait 2 slot0, s2) | (Some msg, s2) \<Rightarrow> arp_continue 2 msg slot0 nxthop s2) = (AWait n slot, s')"
    using assms by (auto simp: arp_resolve_def simp del: arp_continue.simps split: if_splits option.splits prod.splits)
  note E = arp_pending_entry [OF p]
  obtain q s2 where t: "arp_try nxthop (upd_kern (\<lambda>k. snd (recvclr k)) s1) = (q, s2)" by (cases "arp_try nxthop (upd_kern (\<lambda>k. snd (recvclr k)) s1)")
  note T = arp_try_keeps [OF t]
  have "slot = slot0 \<and> arpcache s' = arpcache s1 \<and> last (ethout s') = (ArpFrame (arp_request (netdata s) nxthop), 42)"
  proof (cases q)
    case None
    then show ?thesis using r t T E(5) by simp
  next
    case (Some msg)
    then show ?thesis using r t T E(5) arp_continue_waits [of 2 msg slot0 nxthop s2 n slot s'] by (simp del: arp_continue.simps)
  qed
  then show ?thesis using E by (simp add: cached_def)
qed

lemma arp_frame_in:
  assumes "as_arp (pkts t b) = q" "arp_ethtype q = htons ETH_ARP"
  shows "netin b t = (Some (), arp_in b (upd_pkt b eth_ntoh t))" "arp_ntoh (as_arp (eth_ntoh (pkts t b))) = (arp_ntoh q)\<lparr>arp_ethtype := ETH_ARP\<rparr>"
proof -
  have "net_ethtype (pkts t b) = htons ETH_ARP" using assms by (auto simp: as_arp_def)
  then show "netin b t = (Some (), arp_in b (upd_pkt b eth_ntoh t))" by (simp add: netin_def eth_ntoh_def Let_def)
  show "arp_ntoh (as_arp (eth_ntoh (pkts t b))) = (arp_ntoh q)\<lparr>arp_ethtype := ETH_ARP\<rparr>"
    using assms(2) unfolding assms(1) [symmetric] by (simp add: as_arp_def eth_ntoh_def arp_ntoh_def)
qed

lemma arp_alloc_fst: "arpcache s' = arpcache s \<Longrightarrow> fst (arp_alloc s') = fst (arp_alloc s)"
proof -
  assume c: "arpcache s' = arpcache s"
  have "arp_slot n i st s' = arp_slot n i st s" for n i st by (induction n arbitrary: i) (simp_all add: c)
  then show ?thesis by (simp add: arp_alloc_def split: option.split)
qed

text \<open>C25: address resolution between two machines. When \<^verbatim>\<open>arp_resolve\<close> waits, the last frame it wrote asks for the address. The machine \<open>t\<close> that has the address and an entry of
  its cache to spare answers that frame with one of its own; and when the answer arrives while the entry is still pending, the process that waits
  gets the message 1, the entry is resolved, and \<^verbatim>\<open>arp_resolve\<close> returns \<^verbatim>\<open>OK\<close> with the hardware address of \<open>t\<close>.\<close>

theorem arp_exchange:
  assumes "arp_resolve nxthop s = (AWait n slot, s1)" "last (ethout s1) = (ArpFrame q, l)"
    and "as_arp (pkts t b) = q" "ipvalid (netdata t)" "ipucast (netdata t) = nxthop" "fst (arp_alloc t) \<noteq> None"
    and "netin b t = (x, t1)" "last (ethout t1) = (ArpFrame r, l')"
    and "arp_ok s2" "arpcache s2 slot = arpcache s1 slot" "as_arp (pkts s2 a) = r" "netin a s2 = (y, s3)"
  shows "ethout t1 = ethout t @ [(ArpFrame r, 42)] \<and> arstate (arpcache s3 slot) = AR_RESOLVED \<and>
    nkern s3 = snd (freebuf a (snd (send (currpid (nkern s)) 1 (nkern s2)))) \<and>
    arp_continue n 1 slot nxthop s3 = (ADone OK (Some (ethucast (netdata t))), s3)"
proof -
  note R = arp_resolve_request [OF assms(1)]
  have q: "q = arp_request (netdata s) nxthop" using R assms(2) by simp
  let ?p = "(arp_ntoh q)\<lparr>arp_ethtype := ETH_ARP\<rparr>"
  have qe: "arp_ethtype q = htons ETH_ARP" by (simp add: q arp_request_def arp_hton_def Let_def)
  note N = arp_frame_in [OF assms(3) qe]
  let ?t = "upd_pkt b eth_ntoh t"
  have "t1 = arp_in b ?t" using N(1) assms(7) by simp
  moreover have "ethout (arp_in b ?t) = ethout ?t @ [(ArpFrame (arp_reply (netdata ?t) ?p), 42)]"
    by (rule arp_in_answers) (use N(2) assms(4-6) arp_alloc_fst [of ?t t] in \<open>simp_all add: q arp_request_fields\<close>)
  ultimately have r: "ethout t1 = ethout t @ [(ArpFrame r, 42)]" "r = arp_reply (netdata t) ?p" using assms(8) by simp_all
  have re: "arp_ethtype r = htons ETH_ARP" by (simp add: r(2) arp_reply_def arp_hton_def Let_def)
  note M = arp_frame_in [OF assms(11) re]
  let ?u = "upd_pkt a eth_ntoh s2" and ?e = "\<lambda>e. e\<lparr>arhaddr := ethucast (netdata t), arstate := AR_RESOLVED\<rparr>"
  have u: "arp_ok ?u" using assms(9) arp_ok_cong [of ?u s2] by simp
  have c: "cached ?u slot" "arpaddr (arpcache ?u slot) = nxthop" "arstate (arpcache ?u slot) = AR_PENDING" "arpid (arpcache ?u slot) = currpid (nkern s)"
    using R assms(10) by (simp_all add: cached_def)
  have "arp_find 16 0 nxthop ?u = Some slot" using arp_find_cached [OF u c(1)] c(2) by simp
  then have "arp_in a ?u = free_pkt a (upd_kern (\<lambda>k. snd (send (arpid (arpcache ?u slot)) 1 k))
      (upd_arp slot (\<lambda>e. e\<lparr>arhaddr := arp_sndha ((arp_ntoh r)\<lparr>arp_ethtype := ETH_ARP\<rparr>), arstate := AR_RESOLVED\<rparr>) ?u))"
    by (intro arp_in_resolves) (use M(2) c(3) assms(5) in \<open>simp_all add: r(2) arp_reply_fields\<close>)
  then have s3: "s3 = free_pkt a (upd_kern (\<lambda>k. snd (send (currpid (nkern s)) 1 k)) (upd_arp slot ?e ?u))"
    using M(1) assms(12) c(4) by (simp add: r(2) arp_reply_fields)
  then show ?thesis using r(1) by simp
qed

text \<open>The machine 10.0.0.1 resolves the address of 10.0.0.2, whose buffer 8 holds the frame; the answer comes in the buffer 9.\<close>

abbreviation (input) asker :: netst where "asker \<equiv> node 0x0a000001 1 busy"

lemma busy_recvtime: "fst (recvtime 300 (snd (recvclr busy))) = None"
proof -
  have "snd (recvclr busy) = busy" using busy_facts(4) by (simp add: recvclr_def)
  then show ?thesis using recvtime_waits [OF busy_facts(1), of 300] busy_facts(2,4) by simp
qed

lemma asker_waits: "\<exists>s1. arp_resolve 0x0a000002 asker = (AWait 2 0, s1)"
proof -
  have "arp_alloc asker = (Some 0, upd_arp 0 (\<lambda>_. arp_zero) asker)" using arp_slot.simps(2) [of 15 0 AR_FREE asker] by (simp add: arp_alloc_def node_def arp_zero_def)
  then obtain s1 where p: "arp_pending 0x0a000002 asker = (Some 0, s1)" "nkern s1 = busy" by (simp add: arp_pending_def) (simp add: node_def)
  have "fst (arp_try 0x0a000002 (upd_kern (\<lambda>k. snd (recvclr k)) s1)) = None" using busy_recvtime p(2) by (auto simp: arp_try_def Let_def split: prod.split)
  then obtain s2 where t: "arp_try 0x0a000002 (upd_kern (\<lambda>k. snd (recvclr k)) s1) = (None, s2)" by (metis prod.collapse)
  show ?thesis using arp_resolve_waits(1) [OF no_address _ _ p(1) t] by (auto simp: node_def net_zero_def)
qed

text \<open>The buffer that holds an ARP packet.\<close>

definition of_arp :: "arppacket \<Rightarrow> netpacket" where
  "of_arp q = blank\<lparr>net_ethdst := arp_ethdst q, net_ethsrc := arp_ethsrc q, net_ethtype := arp_ethtype q, net_ipvh := lo (arp_htype q), net_iptos := hi (arp_htype q),
     net_iplen := arp_ptype q, net_ipid := pair (arp_hlen q) (arp_plen q), net_ipfrag := arp_op q, net_ipttl := arp_sndha q ! 0, net_ipproto := arp_sndha q ! 1,
     net_ipcksum := pair (arp_sndha q ! 2) (arp_sndha q ! 3), net_ipsrc := pair32 (pair (arp_sndha q ! 4) (arp_sndha q ! 5)) (lo16 (arp_sndpa q)),
     net_ipdst := pair32 (hi16 (arp_sndpa q)) (pair (arp_tarha q ! 0) (arp_tarha q ! 1)), net_udpsport := pair (arp_tarha q ! 2) (arp_tarha q ! 3),
     net_udpdport := pair (arp_tarha q ! 4) (arp_tarha q ! 5), net_udplen := lo16 (arp_tarpa q), net_udpcksum := hi16 (arp_tarpa q)\<rparr>"

lemma pairs: "hi (pair a b) = b" "pair (lo w) (hi w) = w" "lo16 (pair32 c d) = c" "hi16 (pair32 c d) = d" "pair32 (lo16 v) (hi16 v) = v"
  unfolding hi_def lo_def pair_def lo16_def hi16_def pair32_def by (rule bit_word_eqI; auto simp: bit_simps dest: bit_imp_le_length)+

lemma six_bytes: "length h = 6 \<Longrightarrow> [h ! 0, h ! Suc 0, h ! 2, h ! 3, h ! 4, h ! 5] = h"
  by (rule nth_equalityI) (auto simp: less_Suc_eq eval_nat_numeral)

lemma as_arp_of_arp: "length (arp_sndha q) = 6 \<Longrightarrow> length (arp_tarha q) = 6 \<Longrightarrow> as_arp (of_arp q) = q"
  by (rule arppacket.equality) (simp_all add: as_arp_def of_arp_def lo_pair pairs six_bytes)

theorem arp_exchange_witness:
  "\<exists>s1 q r t1 s3. arp_resolve 0x0a000002 asker = (AWait 2 0, s1) \<and> last (ethout s1) = (ArpFrame q, 42) \<and>
     netin 8 ((node 0x0a000002 2 busy)\<lparr>pkts := \<lambda>_. of_arp q\<rparr>) = (Some (), t1) \<and> ethout t1 = [(ArpFrame r, 42)] \<and>
     netin 9 (s1\<lparr>pkts := \<lambda>_. of_arp r\<rparr>) = (Some (), s3) \<and> arp_continue 2 1 0 0x0a000002 s3 = (ADone OK (Some [2, 2, 2, 2, 2, 2]), s3)"
proof -
  obtain s1 where a: "arp_resolve 0x0a000002 asker = (AWait 2 0, s1)" using asker_waits by blast
  let ?q = "arp_request (netdata asker) 0x0a000002"
  let ?t = "(node 0x0a000002 2 busy)\<lparr>pkts := \<lambda>_. of_arp ?q\<rparr>"
  have l: "last (ethout s1) = (ArpFrame ?q, 42)" using arp_resolve_request [OF a] by simp
  have n6: "length (ethucast (netdata (node ip h k))) = 6" for ip h k by (simp add: node_def)
  have q6: "as_arp (of_arp ?q) = ?q" by (rule as_arp_of_arp) (simp_all add: arp_request_def arp_hton_def Let_def n6)
  have al: "fst (arp_alloc ?t) \<noteq> None" using arp_slot.simps(2) [of 15 0 AR_FREE ?t] by (simp add: arp_alloc_def node_def arp_zero_def)
  have nd: "ipvalid (netdata ?t)" "ipucast (netdata ?t) = 0x0a000002" "ethucast (netdata ?t) = [2, 2, 2, 2, 2, 2]" "ethout ?t = []"
    by (simp_all add: node_def net_zero_def eval_nat_numeral)
  let ?p = "(arp_ntoh ?q)\<lparr>arp_ethtype := ETH_ARP\<rparr>" and ?r = "arp_reply (netdata ?t) ((arp_ntoh ?q)\<lparr>arp_ethtype := ETH_ARP\<rparr>)"
  let ?s2 = "s1\<lparr>pkts := \<lambda>_. of_arp ?r\<rparr>"
  have qe: "arp_ethtype ?q = htons ETH_ARP" by (simp add: arp_request_def arp_hton_def Let_def)
  note F = arp_frame_in [of ?t 8 ?q, OF _ qe]
  let ?t1 = "arp_in 8 (upd_pkt 8 eth_ntoh ?t)"
  have b: "netin 8 ?t = (Some (), ?t1)" using F(1) q6 by simp
  have "ethout ?t1 = ethout (upd_pkt 8 eth_ntoh ?t) @ [(ArpFrame (arp_reply (netdata (upd_pkt 8 eth_ntoh ?t)) ?p), 42)]"
    by (rule arp_in_answers) (use F(2) q6 nd al arp_alloc_fst [of "upd_pkt 8 eth_ntoh ?t" ?t] in \<open>simp_all add: arp_request_fields\<close>)
  then have o: "last (ethout ?t1) = (ArpFrame ?r, 42)" by simp
  have r6: "as_arp (of_arp ?r) = ?r" by (rule as_arp_of_arp) (simp_all add: arp_reply_def arp_hton_def Let_def n6 arp_request_fields)
  have re: "arp_ethtype ?r = htons ETH_ARP" by (simp add: arp_reply_def arp_hton_def Let_def)
  obtain s3 where c: "netin 9 ?s2 = (Some (), s3)" using arp_frame_in(1) [of ?s2 9 ?r, OF _ re] r6 by simp
  have "snd (arp_resolve 0x0a000002 asker) = s1" by (simp only: a snd_conv)
  moreover have "arp_ok (snd (arp_resolve 0x0a000002 asker))" by (intro arp_resolve_ok node_ok)
  ultimately have "arp_ok s1" by (simp only:)
  then have ok: "arp_ok ?s2" using arp_ok_cong [of ?s2 s1] by simp
  from arp_exchange [OF a l _ nd(1,2) al b o ok _ _ c] q6 r6
  have "ethout ?t1 = ethout ?t @ [(ArpFrame ?r, 42)] \<and> arp_continue 2 1 0 0x0a000002 s3 = (ADone OK (Some [2, 2, 2, 2, 2, 2]), s3)"
    using nd(3) by (simp del: arp_continue.simps)
  then show ?thesis using a l b c nd(4) by (auto simp del: arp_continue.simps)
qed

text \<open>C29: an echo request is answered. With a free buffer and room in the output queue, \<^verbatim>\<open>icmp_in\<close> puts on that queue an echo reply to the sender with the identifier, the sequence
  number, the length and the data of the request, and frees the request.\<close>

theorem echo_answered:
  assumes "pkts s a = p" "net_ictype p = ICMP_ECHOREQST" "getbuf (netbufpool s) (nkern s) = (Some r, k)" "r \<noteq> SYSERRP"
    and "semcount (iqsem (ipoqueue s)) k < IP_OQSIZ" "icmp_in a s = (x, s')"
  shows "x = Some () \<and> ipoqueue s' = iq_put r (ipoqueue s) \<and> net_ictype (pkts s' r) = ICMP_ECHOREPLY \<and> net_ipdst (pkts s' r) = net_ipsrc p \<and>
    net_ipsrc (pkts s' r) = ipucast (netdata s) \<and> net_icident (pkts s' r) = net_icident p \<and> net_icseq (pkts s' r) = net_icseq p \<and>
    net_iplen (pkts s' r) = net_iplen p \<and> (\<forall>i. int i < uint (net_iplen p) - 28 \<longrightarrow> net_udpdata (pkts s' r) i = net_udpdata p i) \<and>
    nkern s' = snd (freebuf a (snd (signal (iqsem (ipoqueue s)) k)))"
  using icmp_in_echo [OF assms] by simp

definition pinged :: netst where
  "pinged = (node 0x0a000001 1 node_kernel)\<lparr>pkts := \<lambda>_. blank\<lparr>net_ipsrc := 0x0a000002, net_udpsport := 8, net_udplen := 3, net_udpcksum := 77, net_iplen := 30,
     net_udpdata := \<lambda>i. of_nat i\<rparr>\<rparr>"

theorem echo_answered_witness:
  "\<exists>s'. icmp_in 8 pinged = (Some (), s') \<and> iqbuf (ipoqueue s') 0 = 4100 \<and> net_ictype (pkts s' 4100) = ICMP_ECHOREPLY \<and> net_ipdst (pkts s' 4100) = 0x0a000002 \<and>
     net_icident (pkts s' 4100) = 3 \<and> net_icseq (pkts s' 4100) = 77 \<and> net_udpdata (pkts s' 4100) 1 = 1"
proof -
  obtain k where g: "getbuf (netbufpool pinged) (nkern pinged) = (Some 4100, k)" "semcount 1 k = 0" using node_getbuf by (auto simp: pinged_def node_def)
  obtain x s' where i: "icmp_in 8 pinged = (x, s')" by (cases "icmp_in 8 pinged")
  have p: "pkts pinged 8 = blank\<lparr>net_ipsrc := 0x0a000002, net_udpsport := 8, net_udplen := 3, net_udpcksum := 77, net_iplen := 30, net_udpdata := \<lambda>i. of_nat i\<rparr>"
    "net_ictype (pkts pinged 8) = ICMP_ECHOREQST" "iqsem (ipoqueue pinged) = 1" "iqtail (ipoqueue pinged) = 0"
    by (simp_all add: pinged_def node_def net_ictype_def lo_def)
  from echo_answered [OF refl p(2) g(1) _ _ i] g(2) p show ?thesis using i by (auto simp: iq_put_def)
qed

section \<open>Headers and addresses\<close>

text \<open>C27: a header that \<^verbatim>\<open>ip_out\<close> has put into network byte order and given a checksum passes the check of \<^verbatim>\<open>ip_in\<close>, which gets back every field of the packet but the checksum.\<close>

theorem header_accepted:
  "ipcksum (out_ip p) = 0 \<and> ip_ntoh (out_ip p) = p\<lparr>net_ipcksum := net_ipcksum (out_ip p)\<rparr>"
  using out_ip_cksum out_ip_back by blast

text \<open>The checksum of RFC 1071: the complement of the sum of the sixteen-bit words in ones' complement, where a carry out of the top is added at the bottom.\<close>

definition oc_add :: "nat \<Rightarrow> nat \<Rightarrow> nat" where
  "oc_add a b = (if a + b < 65536 then a + b else a + b - 65535)"

definition rfc1071 :: "u16 list \<Rightarrow> nat" where
  "rfc1071 ws = 65535 - fold (\<lambda>w c. oc_add c (unat (htons w))) ws 0"

lemma ones_sum_small: "c \<le> 65535 \<Longrightarrow> ones_sum c = c"
  by (simp add: ones_sum_def)

lemma ones_sum_le: "ones_sum S \<le> 65535"
proof -
  have "(S - 1) mod 65535 < 65535" by simp
  then show ?thesis unfolding ones_sum_def by (simp add: Suc_le_eq)
qed

lemma oc_add_ones:
  assumes "a \<le> 65535" "b \<le> 65535"
  shows "oc_add a b = ones_sum (a + b)"
proof (cases "a + b < 65536")
  case False
  then have "a + b - 1 = 65535 + (a + b - 65536)" "a + b - 65536 < 65535" using assms by simp_all
  then have "(a + b - 1) mod 65535 = a + b - 65536" by (metis mod_add_self1 mod_less)
  moreover have "a + b - 65535 = a + b - 65536 + 1" "a + b \<noteq> 0" using False by linarith+
  ultimately show ?thesis using False by (simp only: oc_add_def ones_sum_def if_False)
qed (simp add: oc_add_def ones_sum_small)

lemma ones_sum_add: "ones_sum (ones_sum a + b) = ones_sum (a + b)"
proof (cases "a = 0")
  case False
  then have "(ones_sum a + b - 1) mod 65535 = ((a - 1) mod 65535 + b) mod 65535" by (simp add: ones_sum_def)
  also have "\<dots> = (a - 1 + b) mod 65535" by (simp only: mod_add_left_eq)
  also have "\<dots> = (a + b - 1) mod 65535" using False by simp
  finally show ?thesis using False by (simp add: ones_sum_def)
qed (simp add: ones_sum_def)

lemma fold_oc_add: "c \<le> 65535 \<Longrightarrow> fold (\<lambda>w c. oc_add c (unat (htons w))) ws c = ones_sum (c + word_sum ws)"
proof (induction ws arbitrary: c)
  case (Cons w ws)
  have w: "unat (htons w) \<le> 65535" using unat_u16 [of "htons w"] by simp
  have "oc_add c (unat (htons w)) = ones_sum (c + unat (htons w))" by (rule oc_add_ones [OF Cons.prems w])
  then show ?case using Cons.IH [OF ones_sum_le, of "c + unat (htons w)"] by (simp add: ones_sum_add word_sum_def add.assoc)
qed (simp add: ones_sum_small word_sum_def)

lemma fold1_carry:
  assumes "S \<le> 655350" "65536 \<le> S mod 65536 + S div 65536"
  shows "ones_sum S = fold1 S + 1"
proof -
  define h l where "h = S div 65536" and "l = S mod 65536"
  have S: "S = 65536 * h + l" "l < 65536" "h \<le> 9" using assms(1) by (simp_all add: h_def l_def)
  have ge: "65536 \<le> l + h" using assms(2) unfolding h_def l_def .
  define e where "e = l + h - 65536"
  have e: "l + h = 65536 + e" "e \<le> 8" using ge S(2,3) unfolding e_def by linarith+
  have "S + S div 65536 = 65536 * (h + 1) + e" using S(1) e(1) unfolding h_def [symmetric] by simp
  moreover have "(65536 * (h + 1) + e) mod 65536 = e" using e(2) by (subst mod_mult_self4) simp
  ultimately have f: "fold1 S = e" by (simp only: fold1_def)
  have "S - 1 = 65535 * (h + 1) + e" using S(1) e(1) by simp
  moreover have "(65535 * (h + 1) + e) mod 65535 = e" using e(2) by (subst mod_mult_self4) simp
  ultimately have "(S - 1) mod 65535 = e" by (simp only:)
  moreover have "S \<noteq> 0" using S(1) e(1) by auto
  ultimately show ?thesis using f by (simp add: ones_sum_def)
qed

text \<open>C28: \<^verbatim>\<open>ipcksum\<close> against RFC 1071, for every header. It is the checksum of the RFC with these two differences. As the carries are added only once, it is one more
  where that addition carries again. And where the result would be \<^verbatim>\<open>0xffff\<close> it is 0 (the comment at this point of the code says the opposite, that
  all ones are used for zero); without a second carry that happens only for the header of zeros, so that the two agree on every other header that does not carry twice.\<close>

theorem ipcksum_against_rfc1071:
  "unat (ipcksum p) =
     (rfc1071 (hdr_words p) + (if word_sum (hdr_words p) mod 65536 + word_sum (hdr_words p) div 65536 < 65536 then 0 else 1)) mod 65535"
proof -
  let ?S = "word_sum (hdr_words p)"
  have b: "?S \<le> 655350" using word_sum_le [of "hdr_words p"] by (simp add: hdr_words_def)
  have r: "rfc1071 (hdr_words p) = 65535 - ones_sum ?S" using fold_oc_add [of 0 "hdr_words p"] by (simp add: rfc1071_def)
  have le: "ones_sum ?S \<le> 65535" by (rule ones_sum_le)
  show ?thesis
  proof (cases "?S mod 65536 + ?S div 65536 < 65536")
    case True
    then have f: "fold1 ?S = ones_sum ?S" using b by (intro fold1_ones) simp_all
    show ?thesis using True le unfolding ipcksum_nat r f Let_def by (cases "ones_sum ?S = 0") simp_all
  next
    case False
    then have f: "ones_sum ?S = fold1 ?S + 1" using b by (intro fold1_carry) simp_all
    have "65535 - (fold1 ?S + 1) + 1 = 65535 - fold1 ?S" using le f by linarith
    then show ?thesis using False unfolding ipcksum_nat r f Let_def by (cases "fold1 ?S = 0") simp_all
  qed
qed

end
