(* ===== verification/Mem_History.thy ===== *)
theory Mem_History
  imports Process
begin

text \<open>
  Histories of the heap: any sequence of allocations (\<^verbatim>\<open>getmem\<close>, \<^verbatim>\<open>getstk\<close>), of stores into the blocks that are in
  use and of releases (\<^verbatim>\<open>freemem\<close>, \<^verbatim>\<open>freestk\<close>), in any order. The state is the memory with the list of the blocks in
  use, the newest first. \<open>mem_run\<close> is \<^term>\<open>None\<close> if one of the calls does not end or if the release of a
  block in use is refused; that this does not happen is part of \<open>mem_run_books\<close>.
\<close>

datatype mblock = Heap nat nat | Stack nat nat

datatype mem_op = Get nat | Stk nat | Put nat nat | Rel nat

fun bspan :: "mblock \<Rightarrow> nat set" where
  "bspan (Heap p n) = mem_span p n"
| "bspan (Stack p n) = stk_span p n"

fun bsize :: "mblock \<Rightarrow> nat" where
  "bsize (Heap p n) = n"
| "bsize (Stack p n) = n"

fun brelease :: "mblock \<Rightarrow> memory \<Rightarrow> (int \<times> memory) option" where
  "brelease (Heap p n) m = freemem p n m"
| "brelease (Stack p n) m = freestk p n m"

definition keep :: "(nat \<Rightarrow> mblock) \<Rightarrow> (nat option \<times> memory) option \<Rightarrow> mblock list \<Rightarrow> (memory \<times> mblock list) option" where
  "keep mk r bs = (case r of None \<Rightarrow> None | Some (None, m) \<Rightarrow> Some (m, bs) | Some (Some p, m) \<Rightarrow> Some (m, mk p # bs))"

fun mem_step :: "mem_op \<Rightarrow> memory \<times> mblock list \<Rightarrow> (memory \<times> mblock list) option" where
  "mem_step (Get n) (m, bs) = keep (\<lambda>p. Heap p n) (getmem n m) bs"
| "mem_step (Stk n) (m, bs) = keep (\<lambda>p. Stack p n) (getstk n m) bs"
| "mem_step (Put a v) (m, bs) =
     Some (if list_ex (\<lambda>b. a \<in> bspan b) bs then m\<lparr>mem := (mem m)(a := v)\<rparr> else m, bs)"
| "mem_step (Rel i) (m, bs) =
     (if i < length bs
      then (case brelease (bs ! i) m of
              None \<Rightarrow> None
            | Some (r, m') \<Rightarrow> if r = OK then Some (m', take i bs @ drop (Suc i) bs) else None)
      else Some (m, bs))"

fun mem_run :: "mem_op list \<Rightarrow> memory \<times> mblock list \<Rightarrow> (memory \<times> mblock list) option" where
  "mem_run [] st = Some st"
| "mem_run (x # xs) st = (case mem_step x st of None \<Rightarrow> None | Some st' \<Rightarrow> mem_run xs st')"

fun sized :: "mem_op \<Rightarrow> bool" where
  "sized (Get n) = good_size n"
| "sized (Stk n) = good_size n"
| "sized _ = True"

text \<open>The books of the heap: the blocks in use and the free bytes are a partition of \<open>A\<close>, the bytes free at the start.\<close>

fun blocks_apart :: "mblock list \<Rightarrow> bool" where
  "blocks_apart [] = True"
| "blocks_apart (b # bs) \<longleftrightarrow> (\<forall>c \<in> set bs. bspan b \<inter> bspan c = {}) \<and> blocks_apart bs"

definition books :: "nat set \<Rightarrow> memory \<Rightarrow> mblock list \<Rightarrow> bool" where
  "books A m bs \<longleftrightarrow>
     (\<exists>F. mem_free m F \<and> F \<union> (\<Union>b \<in> set bs. bspan b) = A \<and> (\<forall>b \<in> set bs. bspan b \<inter> F = {})) \<and>
     blocks_apart bs \<and> (\<forall>b \<in> set bs. good_size (bsize b) \<and> bspan b \<noteq> {}) \<and> A \<subseteq> heap_range m"

lemma blocks_apart_append: "blocks_apart (xs @ ys) \<longleftrightarrow> blocks_apart xs \<and> blocks_apart ys \<and> (\<forall>b \<in> set xs. \<forall>c \<in> set ys. bspan b \<inter> bspan c = {})"
  by (induction xs) auto

lemma blocks_apart_nth:
  assumes "blocks_apart bs" "i < length bs" "j < i"
  shows "bspan (bs ! i) \<inter> bspan (bs ! j) = {}"
proof -
  have "bs = take i bs @ bs ! i # drop (Suc i) bs" using assms(2) by (rule id_take_nth_drop)
  then have "blocks_apart (take i bs @ bs ! i # drop (Suc i) bs)" using assms(1) by simp
  moreover have "bs ! j \<in> set (take i bs)" using assms(2,3) by (auto simp: in_set_conv_nth)
  ultimately show ?thesis by (auto simp: blocks_apart_append)
qed

lemma books_alloc:
  assumes b: "books A m bs" and n: "good_size (bsize c)" and r: "\<And>F. mem_free m F \<Longrightarrow>
    bspan c \<subseteq> F \<and> bspan c \<noteq> {} \<and> mem_free m' (F - bspan c) \<and> heap_range m' = heap_range m"
  shows "books A m' (c # bs)"
proof -
  from b obtain F where F: "mem_free m F" "F \<union> (\<Union>b \<in> set bs. bspan b) = A" "\<forall>b \<in> set bs. bspan b \<inter> F = {}"
    by (auto simp: books_def)
  note R = r [OF F(1)]
  have "F - bspan c \<union> (\<Union>b \<in> set (c # bs). bspan b) = A" using F(2) R by auto
  moreover have "\<forall>b \<in> set (c # bs). bspan b \<inter> (F - bspan c) = {}" using F(3) by auto
  moreover have "blocks_apart (c # bs)" using F(3) R b by (fastforce simp: books_def)
  ultimately show ?thesis using R b n by (auto simp: books_def)
qed

lemma brelease_result:
  assumes m: "mem_free m F" and b: "good_size (bsize b)" "bspan b \<subseteq> heap_range m" "bspan b \<inter> F = {}"
  shows "\<exists>m'. brelease b m = Some (OK, m') \<and> mem_free m' (F \<union> bspan b) \<and> heap_range m' = heap_range m"
proof (cases b)
  case (Heap p n)
  then show ?thesis using heap.release_ok [OF m, of n p] b by simp
next
  case (Stack p n)
  then show ?thesis using stacks.release_ok [OF m, of n p] b by simp
qed

lemma books_release:
  assumes b: "books A m bs" and i: "i < length bs"
  shows "\<exists>m'. brelease (bs ! i) m = Some (OK, m') \<and> books A m' (take i bs @ drop (Suc i) bs)"
proof -
  let ?r = "take i bs @ drop (Suc i) bs"
  from b obtain F where F: "mem_free m F" "F \<union> (\<Union>b \<in> set bs. bspan b) = A" "\<forall>b \<in> set bs. bspan b \<inter> F = {}"
    by (auto simp: books_def)
  have bs: "bs = take i bs @ bs ! i # drop (Suc i) bs" using i by (rule id_take_nth_drop)
  then have ap: "blocks_apart (take i bs @ bs ! i # drop (Suc i) bs)" using b by (simp add: books_def)
  have st: "set bs = insert (bs ! i) (set ?r)" by (subst bs) auto
  have h: "bspan (bs ! i) \<subseteq> heap_range m" "good_size (bsize (bs ! i))" "bspan (bs ! i) \<inter> F = {}"
    using b F st by (auto simp: books_def)
  from brelease_result [OF F(1) h(2,1,3)] obtain m' where m': "brelease (bs ! i) m = Some (OK, m')"
    "mem_free m' (F \<union> bspan (bs ! i))" "heap_range m' = heap_range m" by blast
  have "\<forall>c \<in> set ?r. bspan c \<inter> bspan (bs ! i) = {}" using ap by (auto simp: blocks_apart_append)
  then have "\<forall>c \<in> set ?r. bspan c \<inter> (F \<union> bspan (bs ! i)) = {}" using F(3) st by auto
  moreover have "F \<union> bspan (bs ! i) \<union> (\<Union>b \<in> set ?r. bspan b) = A" using F(2) unfolding st by auto
  moreover have "blocks_apart ?r" using ap by (auto simp: blocks_apart_append)
  moreover have "\<forall>c \<in> set ?r. good_size (bsize c) \<and> bspan c \<noteq> {}" "A \<subseteq> heap_range m'"
    using b m'(3) unfolding books_def st by auto
  ultimately have "books A m' ?r" using m'(2) unfolding books_def by blast
  with m'(1) show ?thesis by blast
qed

lemma books_store:
  assumes b: "books A m bs" and c: "c \<in> set bs" "a \<in> bspan c"
  shows "books A (m\<lparr>mem := (mem m)(a := v)\<rparr>) bs"
proof -
  let ?m = "m\<lparr>mem := (mem m)(a := v)\<rparr>"
  from b obtain F where F: "mem_free m F" "F \<union> (\<Union>b \<in> set bs. bspan b) = A" "\<forall>b \<in> set bs. bspan b \<inter> F = {}"
    by (auto simp: books_def)
  from F(1) obtain fs where fs: "mem_ok m fs" "free_bytes fs = F" by (auto simp: mem_free_def)
  have "a \<notin> F" "a \<in> heap_range m" using F(2,3) b c by (auto simp: books_def)
  then have "mem_ok ?m fs" using fs(2) by (intro mem_ok_write [OF fs(1)]) (auto simp: heap_range_def)
  then have "mem_free ?m F" using fs(2) by (auto simp: mem_free_def)
  moreover have "heap_range ?m = heap_range m" by (simp add: heap_range_def)
  ultimately show ?thesis using b F(2,3) by (auto simp: books_def)
qed

lemma mem_step_books:
  assumes b: "books A m bs" and x: "sized x"
  shows "\<exists>m' bs'. mem_step x (m, bs) = Some (m', bs') \<and> books A m' bs'"
proof (cases x)
  case (Get n)
  from b obtain F where F: "mem_free m F" by (auto simp: books_def)
  have n: "good_size n" using x Get by simp
  obtain r m' where g: "getmem n m = Some (r, m')" using alloc_returns(1) [OF F n] by auto
  show ?thesis
  proof (cases r)
    case None
    then show ?thesis using getmem_alloc(1) [OF F n g] b Get g by (simp add: keep_def)
  next
    case (Some p)
    have "books A m' (Heap p n # bs)" using getmem_alloc(2) [OF _ n g Some] n by (intro books_alloc [OF b]) simp_all
    then show ?thesis using Get g Some by (simp add: keep_def)
  qed
next
  case (Stk n)
  from b obtain F where F: "mem_free m F" by (auto simp: books_def)
  have n: "good_size n" using x Stk by simp
  obtain r m' where g: "getstk n m = Some (r, m')" using alloc_returns(2) [OF F n] by auto
  show ?thesis
  proof (cases r)
    case None
    then show ?thesis using getstk_alloc(1) [OF F n g] b Stk g by (simp add: keep_def)
  next
    case (Some p)
    have "books A m' (Stack p n # bs)" using getstk_alloc(2) [OF _ n g Some] n by (intro books_alloc [OF b]) simp_all
    then show ?thesis using Stk g Some by (simp add: keep_def)
  qed
next
  case (Put a v)
  then show ?thesis using b books_store [OF b] by (auto simp: list_ex_iff)
next
  case (Rel i)
  then show ?thesis using b books_release [OF b, of i] by (cases "i < length bs") auto
qed

lemma mem_run_books:
  "books A m bs \<Longrightarrow> list_all sized xs \<Longrightarrow> \<exists>m' bs'. mem_run xs (m, bs) = Some (m', bs') \<and> books A m' bs'"
proof (induction xs arbitrary: m bs)
  case (Cons x xs)
  then obtain m1 bs1 where "mem_step x (m, bs) = Some (m1, bs1)" "books A m1 bs1"
    using mem_step_books [of A m bs x] by auto
  then show ?case using Cons.IH [of m1 bs1] Cons.prems(2) by simp
qed simp

lemma books_start: "mem_free m A \<Longrightarrow> books A m []"
  using mem_free_heap by (auto simp: books_def)

end
