(* ===== verification/Spec2Isabelle.thy ===== *)
theory Spec2Isabelle
  imports Svc_Props Clib_Props Tty_Props Dev_Props Net_Props Mem_History
begin

text \<open>
  \<^bold>\<open>Verification of the Embedded Xinu kernel for the BeagleBone Black.\<close>

  The repository is an operating system for a single ARM processor: a kernel of processes, semaphores, messages and memory
  (\<^verbatim>\<open>system/\<close>), device drivers behind a device switch (\<^verbatim>\<open>device/\<close>), a network stack (\<^verbatim>\<open>net/\<close>), a small C library
  (\<^verbatim>\<open>lib/\<close>) and a shell (\<^verbatim>\<open>shell/\<close>). Processes call the kernel; the kernel disables interrupts inside a call, so that a call runs alone up to
  the point where it reschedules. Drivers keep their data in buffers guarded by kernel semaphores; the file system is a driver that uses
  another device, the RAM disk, through the switch.

  \<^bold>\<open>The theories and the code.\<close>

  \<^item> \<open>Prelude\<close>: return codes, the wrap-around of \<^verbatim>\<open>int32\<close>, \<^verbatim>\<open>int16\<close> and \<^verbatim>\<open>uint32\<close>, facts on \<^verbatim>\<open>while\<close> loops and lists, and
    the locale \<open>fifo\<close>, the contract of a first-in first-out queue.
  \<^item> \<open>Kernel_State\<close>: the record \<open>kernel\<close> with the tables of \<^verbatim>\<open>include/process.h\<close>, \<^verbatim>\<open>queue.h\<close>, \<^verbatim>\<open>semaphore.h\<close>, \<^verbatim>\<open>bufpool.h\<close>,
    \<^verbatim>\<open>ports.h\<close>, \<^verbatim>\<open>mark.h\<close>; a call in which a process is suspended is a value of \<open>frame\<close>.
  \<^item> \<open>Proc_Queue\<close> (\<^verbatim>\<open>queue.c\<close>, \<^verbatim>\<open>getitem.c\<close>, \<^verbatim>\<open>insert.c\<close>, \<^verbatim>\<open>insertd.c\<close>, \<^verbatim>\<open>newqueue.c\<close>): doubly linked queues in one table,
    related to lists by \<open>qrel\<close>; interprets \<open>fifo\<close>.
  \<^item> \<open>Sched\<close> (\<^verbatim>\<open>resched.c\<close>, \<^verbatim>\<open>ready.c\<close>, \<^verbatim>\<open>resume.c\<close>, \<^verbatim>\<open>suspend.c\<close>, \<^verbatim>\<open>yield.c\<close>, \<^verbatim>\<open>chprio.c\<close> and others) with the kernel
    invariant \<open>kinv\<close>; \<open>Semaphore\<close>, \<open>Clock\<close>, \<open>Message\<close>: the files of their names; \<open>Frames\<close>: what these operations do not touch.
  \<^item> \<open>Memory\<close> (\<^verbatim>\<open>getmem.c\<close>, \<^verbatim>\<open>freemem.c\<close>, \<^verbatim>\<open>getstk.c\<close>, \<^verbatim>\<open>meminit.c\<close>): the free list in memory words; the locale \<open>allocator\<close>, interpreted for
    heap blocks and for stacks.
  \<^item> \<open>Process\<close> (\<^verbatim>\<open>create.c\<close>, \<^verbatim>\<open>kill.c\<close>, \<^verbatim>\<open>exit.c\<close>, \<^verbatim>\<open>userret.c\<close>, \<^verbatim>\<open>xdone.c\<close>); \<open>Startup\<close> (\<^verbatim>\<open>sysinit\<close> of
    \<^verbatim>\<open>initialize.c\<close>); \<open>Kernel_Steps\<close>: the transition system \<open>kstep\<close> of calls, completions and clock interrupts; \<open>Mem_History\<close>: histories of the heap; \<open>Sample_States\<close>: two
    states at which the properties are applied.
  \<^item> \<open>Node_List\<close>, \<open>Bufpool\<close>, \<open>Ports\<close>, \<open>Port_Books\<close>, \<open>Mark\<close>, \<open>Svc_Props\<close>: buffer pools, ports and memory marks.
  \<^item> \<open>Clib_String\<close>, \<open>Clib_Num\<close>: \<^verbatim>\<open>lib/\<close> without formatted input and output; \<open>Shell_Lexan\<close>, \<open>Shell\<close>: \<^verbatim>\<open>lexan.c\<close> and the
    command look-up of \<^verbatim>\<open>shell.c\<close>; \<open>Clib_Props\<close>: their properties.
  \<^item> \<open>Ring\<close>, \<open>Tty\<close>, \<open>Tty_Props\<close>: the terminal driver.
  \<^item> \<open>Ramdisk\<close>, \<open>Lfs\<close>, \<open>Lfs_Disk\<close>, \<open>Lfs_Inv\<close>, \<open>Lfs_File\<close>, \<open>Lfs_Admin\<close>, \<open>Lfs_Props\<close>: the RAM disk and the local file system on it. The
    locales \<open>store\<close> and \<open>linked_store\<close> are what the file system needs of an array of blocks; they are interpreted for the disk sectors, for the
    free data blocks and for the index blocks.
  \<^item> \<open>Devtab\<close>, \<open>Namespace\<close>, \<open>Devices\<close>, \<open>Dev_Props\<close>: the device table of \<^verbatim>\<open>conf.c\<close>, the device-independent calls and the namespace.
  \<^item> \<open>Net_Packet\<close>, \<open>Net_State\<close>: packets with their fields in the order of the bytes, byte order, the checksums of \<^verbatim>\<open>ip.c\<close> and \<^verbatim>\<open>icmp.c\<close>, \<^verbatim>\<open>dot2ip.c\<close>, and the tables of
    the network stack around the record \<open>kernel\<close>; \<open>Udp\<close>, \<open>Arp\<close>, \<open>Icmp\<close>, \<open>Ip\<close>: \<^verbatim>\<open>udp.c\<close>, \<^verbatim>\<open>arp.c\<close>, \<^verbatim>\<open>icmp.c\<close>, \<^verbatim>\<open>ip.c\<close> and \<^verbatim>\<open>net.c\<close>. A call that waits ends with a
    value that says what it waits for, and the rest of it is a function of its own; \<open>Udp\<close> interprets \<open>fifo\<close>. \<open>Net_Props\<close>: their properties.

  \<^bold>\<open>What is shown.\<close> Every state that is reached from power-on by the calls on processes, semaphores, sleeping, messages and memory, by clock interrupts and by completions of
  suspended calls satisfies the invariant of the kernel: the tables and queues agree and the loops of these calls end. The obligations of the callers are those of \<open>allowed\<close>. Queues, ports and the delta list of sleepers refine lists; semaphores, messages and sleeping do what the calls promise on
  every branch; in any history of allocations and releases blocks in use never overlap and no memory is lost; the semaphores of a port account for its messages while
  processes are blocked at it. The C library functions compute the operations on
  strings and numbers and write nothing else; the lexical analyser refines a tokeniser on lists. Within the size of its buffers the
  terminal driver edits lines and delivers output in order. A local file behaves as a byte string with a position, survives closing, is not disturbed by other files and gives its blocks back when it
  is truncated. Names lead to devices as the prefix table says, and opening a name reaches the file system through the switch.
  A datagram that one machine sends reaches the endpoint of another with its bytes unchanged, an address is resolved by asking the machine that has it,
  and an echo request is answered; the tables of UDP and ARP stay consistent under every packet.

  \<^bold>\<open>Conventions and bounds.\<close> An index or a signed C integer is an \<^typ>\<open>int\<close> with the wrap-around written out where it can happen; addresses, sizes and bytes are words or
  naturals below \<open>2 ^ 32\<close>. A loop whose end depends on data is a \<^theory_text>\<open>partial_function\<close> or a \<^term>\<open>while_option\<close> loop, with the value
  \<^term>\<open>None\<close> if it does not end, and its termination is part of the theorems. Fuel occurs only as the number of turns a counting loop has left, and as
  the depth of nested opens, where two is shown to be enough. \<^verbatim>\<open>panic\<close> is \<^term>\<open>None\<close> in the file system and a machine that has stopped elsewhere. In the network stack the Ethernet device takes every frame, packets
  hold at most 1472 bytes of data, and the packet buffers do not overlap the words of memory that the kernel uses.

  \<^bold>\<open>Not modelled.\<close> The assembly code and what is bound to the hardware (\<^verbatim>\<open>start.S\<close>, \<^verbatim>\<open>ctxsw.S\<close>, \<^verbatim>\<open>intr.S\<close>, \<^verbatim>\<open>evec.c\<close>, \<^verbatim>\<open>platinit.c\<close>,
  \<^verbatim>\<open>clkinit.c\<close> apart from the kernel variables, the Ethernet, GPIO and SPI drivers): its meaning is that of device registers, which the sources do
  not describe. A context switch is its effect on the process table. Formatted input and output (\<^verbatim>\<open>doprnt.c\<close>, \<^verbatim>\<open>fdoprnt.c\<close>, \<^verbatim>\<open>doscan.c\<close> and their
  callers, \<^verbatim>\<open>kprintf.c\<close>, \<^verbatim>\<open>debug.c\<close>) and the shell commands, which mostly print. The remote disk and the remote file system (\<^verbatim>\<open>device/rds\<close>,
  \<^verbatim>\<open>device/rfs\<close>) and the network clients (\<^verbatim>\<open>dhcp.c\<close>, \<^verbatim>\<open>dns.c\<close>, \<^verbatim>\<open>tftp.c\<close>, the time of day), whose behaviour depends on servers outside the
  repository. The generator of the configuration (\<^verbatim>\<open>config/\<close>), the U-Boot tool and the cross compiler are not part of the system that runs.
\<close>

section \<open>The system as a whole\<close>

text \<open>C1: the invariant of the kernel holds in every state reached from the memory image at power-on, until the machine
  halts, by these steps: the calls on processes, semaphores, sleeping, messages and memory listed in \<open>syscall\<close>, stores into memory
  that is not free, clock interrupts, and the completion of suspended calls. The caller respects \<open>allowed\<close>: the null process does not block,
  semaphore counts stay inside \<^verbatim>\<open>int32\<close>, the arguments of a new process fit on its stack, memory is asked for and
  given back in sizes below \<^verbatim>\<open>0xFFFFFFF9\<close>, and what is given back lies inside the heap. The calls of buffer pools, ports, marks and devices
  are not among the steps. In particular no loop of these calls ever fails to end.\<close>

theorem system_invariant:
  assumes "ml \<noteq> 0" "ml + 8 \<le> e" "8 dvd e" "e + NULLSTK \<le> MAXADDR"
    and "kstep\<^sup>*\<^sup>* (sysinit e (boot ml)) s"
  shows "kstat s = Halted \<or> sysinv s"
  using reachable_sysinv [OF assms(5) sysinit_sysinv [OF assms(1-4)]] .

theorem system_invariant_witness: "kstat (exec C_yield idle) = Halted \<or> sysinv (exec C_yield idle)"
proof -
  have "kstep idle (exec C_yield idle)" by (rule kstep.call) simp_all
  then show ?thesis using system_invariant [of 8 16, OF _ _ _ _ r_into_rtranclp] by (simp add: idle_def)
qed

text \<open>In a reachable state that has not halted the kernel is running, exactly one process is current, the
  null process is current or ready, the ready list (followed through the queue table) holds
  exactly the ready processes, in descending order of their keys, and the delta list exactly the sleeping ones.\<close>

theorem reachable_tables:
  assumes "ml \<noteq> 0" "ml + 8 \<le> e" "8 dvd e" "e + NULLSTK \<le> MAXADDR"
    and "kstep\<^sup>*\<^sup>* (sysinit e (boot ml)) s" "kstat s \<noteq> Halted" "p \<in> {0..<NPROC}"
  shows "kstat s = Running \<and>
    (prstate (proctab s p) = PR_CURR \<longleftrightarrow> p = currpid s) \<and>
    prstate (proctab s NULLPROC) \<in> {PR_CURR, PR_READY} \<and>
    (p \<in> set (qlist s (readylist s)) \<longleftrightarrow> prstate (proctab s p) = PR_READY) \<and>
    (p \<in> set (qlist s (sleepq s)) \<longleftrightarrow> prstate (proctab s p) \<in> {PR_SLEEP, PR_RECTIM}) \<and>
    sorted_wrt (\<lambda>x y. qkey (queuetab s x) \<ge> qkey (queuetab s y)) (qlist s (readylist s))"
proof (intro conjI impI)
  have "sysinv s" using reachable_sysinv [OF assms(5) sysinit_sysinv [OF assms(1-4)]] assms(6) by simp
  then obtain L where k: "kinv s L" by (auto simp: sysinv_def)
  note c = kinvD(1) [OF k]
  note q = qrel_qlist [OF kcoreD(1) [OF c] kcoreD(8) [OF c]] qrel_qlist [OF kcoreD(1) [OF c] kcoreD(9) [OF c]]
  show "kstat s = Running" "prstate (proctab s NULLPROC) \<in> {PR_CURR, PR_READY}"
    using kcoreD(4,7) [OF c] by (auto simp: cur_ok_def)
  show "prstate (proctab s p) = PR_CURR \<longleftrightarrow> p = currpid s"
    using kcoreD(4) [OF c] kinvD(4) [OF k] assms(7) by (auto simp: cur_ok_def)
  show "p \<in> set (qlist s (readylist s)) \<longleftrightarrow> prstate (proctab s p) = PR_READY"
    "p \<in> set (qlist s (sleepq s)) \<longleftrightarrow> prstate (proctab s p) \<in> {PR_SLEEP, PR_RECTIM}"
    using queue_iff_state [OF c assms(7)] by (simp_all add: q)
  show "sorted_wrt (\<lambda>x y. qkey (queuetab s x) \<ge> qkey (queuetab s y)) (qlist s (readylist s))"
    using kcoreD(6) [OF c] by (simp add: q desc_def ky_def)
qed

theorem reachable_tables_witness: "kstat idle = Running \<and> (0 \<in> set (qlist idle (readylist idle)) \<longleftrightarrow> prstate (proctab idle 0) = PR_READY)"
  using reachable_tables [of 8 16 idle 0] by (simp add: idle_def [symmetric])

section \<open>Scheduling\<close>

text \<open>C2: the scheduling policy. When the keys on the ready list are the priorities, the process that
  runs after \<^verbatim>\<open>resched\<close> has a priority at least that of every ready process, and it is the only current one.\<close>

theorem resched_runs_highest:
  assumes "kinv s L" "keys_current s L" "p \<in> {0..<NPROC}" "prstate (proctab (resched s) p) = PR_READY"
  shows "prprio (proctab (resched s) p) \<le> prprio (proctab (resched s) (currpid (resched s)))"
proof -
  obtain xs where x: "kcore (resched s) (L(readylist s := xs)) {}"
    "\<And>p. p \<in> set xs \<Longrightarrow> prprio (proctab (resched s) p) \<le> prprio (proctab (resched s) (currpid (resched s)))"
    using resched_policy [OF kinvD(1,3) [OF assms(1)] assms(2)] by metis
  obtain ys where "switch_frame s (resched s)" using resched_ok [OF kinvD(1,3) [OF assms(1)]] by metis
  then have "readylist (resched s) = readylist s" by (rule switch_frameD)
  then show ?thesis using queue_iff_state(1) [OF x(1) assms(3)] assms(4) x(2) by simp
qed

theorem resched_runs_highest_witness:
  "prstate (proctab (resched busy) 0) = PR_READY \<and>
   prprio (proctab (resched busy) 0) \<le> prprio (proctab (resched busy) (currpid (resched busy)))"
  using resched_runs_highest [OF busy_facts(1) busy_keys, of 0] by (simp add: busy_resched)

text \<open>preemption on \<^verbatim>\<open>resume\<close>. A suspended process whose priority exceeds those of the current and
  of all ready processes runs when \<^verbatim>\<open>resume\<close> has rescheduled; the call returns its priority, and the process that
  was running is ready, placed behind the ready processes of priority at least its own.\<close>

theorem resume_runs_higher:
  assumes "kinv s L" "p \<in> {0..<NPROC}" "prstate (proctab s p) = PR_SUSP"
    and "prprio (proctab s (currpid s)) < prprio (proctab s p)"
    and "\<forall>q \<in> set (L (readylist s)). ky (queuetab s) q < prprio (proctab s p)"
  shows "fst (resume p s) = prprio (proctab s p) \<and>
    currpid (snd (resume p s)) = p \<and>
    qlist (snd (resume p s)) (readylist s) =
       ins_desc (ky (queuetab s)) (currpid s) (prprio (proctab s (currpid s))) (L (readylist s))"
proof (intro conjI impI)
  note r = resume_preempts [OF assms]
  show "fst (resume p s) = prprio (proctab s p)" "currpid (snd (resume p s)) = p" by (fact r(1,2))+
  show "qlist (snd (resume p s)) (readylist s) =
      ins_desc (ky (queuetab s)) (currpid s) (prprio (proctab s (currpid s))) (L (readylist s))"
    using qrel_qlist [OF kcoreD(1,8) [OF kinvD(1) [OF r(3)]]] r(7) by simp
qed

theorem resume_runs_higher_witness: "resume 1 loaded = (20, snd (resume 1 loaded)) \<and> currpid (snd (resume 1 loaded)) = 1"
  using resume_runs_higher [OF loaded_kinv, of 1] by (cases "resume 1 loaded") simp

section \<open>Queues\<close>

text \<open>C3: a process queue is first-in first-out. Processes enqueued into an empty queue, each while it is in no
  queue, are dequeued in the same order, and the queue is empty again.\<close>

theorem queue_fifo:
  assumes "qtab_ok q s" "qlist s q = []" "fill may_enqueue (\<lambda>pid s. snd (enqueue pid q s)) pids s = Some t"
  shows "fst (drain (dequeue q) (length pids) t) = pids \<and>
    qlist (snd (drain (dequeue q) (length pids) t)) q = []"
  using pq.first_in_first_out [OF assms] by blast

theorem queue_fifo_witness: "fst (drain (dequeue 100) 1 (snd (enqueue 1 100 loaded))) = [1]"
proof -
  note k = kinvD(1) [OF loaded_kinv]
  have h: "is_head loaded 100" using qids_okD(4) [OF kcoreD(2) [OF k], of 0] idle_facts(10) [of 0] by simp
  have "fill may_enqueue (\<lambda>pid s. snd (enqueue pid 100 s)) [1] loaded = Some (snd (enqueue 1 100 loaded))"
    using qrel_qlist [OF kcoreD(1) [OF k]] by (auto simp: may_enqueue_def isbadpid_def)
  moreover have "qtab_ok 100 loaded" "qlist loaded 100 = []"
    using h kcoreD(1) [OF k] qrel_qlist [OF kcoreD(1) [OF k] h] by (auto simp: qtab_ok_def)
  ultimately show ?thesis using queue_fifo [of 100 loaded "[1]"] by simp
qed

text \<open>\<^verbatim>\<open>insert\<close> keeps a queue in descending order of keys, and puts the new process behind those with
  the same key, so that equal priorities are served round-robin.\<close>

theorem insert_sorted:
  assumes "qrel s L" "is_head s q" "unqueued s L pid" "\<not> isbadpid (proctab s) pid" "MINKEY < key"
    and "desc (ky (queuetab s)) (L q)"
  shows "fst (insert_q pid q key s) = OK \<and>
    qlist (snd (insert_q pid q key s)) q =
       takeWhile (\<lambda>x. ky (queuetab s) x \<ge> key) (L q) @ pid # dropWhile (\<lambda>x. ky (queuetab s) x \<ge> key) (L q) \<and>
    desc (ky (queuetab (snd (insert_q pid q key s)))) (qlist (snd (insert_q pid q key s)) q)"
proof (intro conjI impI)
  note o = insert_ok [OF assms(1-5)]
  note l = q_ok_qlist [OF o assms(2)]
  show "fst (insert_q pid q key s) = OK" by (rule l(1))
  show "qlist (snd (insert_q pid q key s)) q =
      takeWhile (\<lambda>x. ky (queuetab s) x \<ge> key) (L q) @ pid # dropWhile (\<lambda>x. ky (queuetab s) x \<ge> key) (L q)"
    using l(3) by (simp add: ins_desc_def)
  have "pid \<notin> set (L q)" using assms(2,3) by (auto simp: unqueued_def)
  then show "desc (ky (queuetab (snd (insert_q pid q key s)))) (qlist (snd (insert_q pid q key s)) q)"
    using l(3) o desc_ins_desc [OF assms(6)] by (auto elim!: q_okE)
qed

theorem insert_sorted_witness: "qlist (snd (insert_q 1 300 20 loaded)) 300 = [1]"
proof -
  note k = kinvD(1) [OF loaded_kinv]
  have "is_head loaded 300" using kcoreD(8) [OF k] by simp
  then show ?thesis
    using insert_sorted [OF kcoreD(1) [OF k], of 300 1 20] by (simp add: unqueued_def isbadpid_def desc_def)
qed

section \<open>Time\<close>

text \<open>C4: \<^verbatim>\<open>sleepms\<close> puts the calling process into the delta list at its place in time: read as
  (process, milliseconds left), the list is the old one with the new sleeper inserted in order, nobody
  else's time changed.\<close>

theorem sleepms_inserts:
  assumes "kinv s L" "currpid s \<noteq> NULLPROC" "sleep_ok s L" "0 < n" "n \<le> 2147483647"
  shows "fst (sleepms n s) = OK \<and>
    sleepers (snd (sleepms n s)) =
       takeWhile (\<lambda>(x, u). u \<le> n) (sleepers s) @ (currpid s, n) # dropWhile (\<lambda>(x, u). u \<le> n) (sleepers s)"
  using sleepms_result [OF assms] by blast+

lemma busy_sleep_ok: "sleep_ok busy ((\<lambda>_. [])(300 := [0]))" "sleepers busy = []"
  using sleepers_eq [OF kinvD(1) [OF busy_facts(1)]] by (simp_all add: sleep_ok_def deltas_ok_def busy_facts)

theorem sleepms_inserts_witness: "sleepers (snd (sleepms 5 busy)) = [(1, 5)]"
  using sleepms_inserts [OF busy_facts(1) _ busy_sleep_ok(1), of 5] by (simp add: busy_facts(2) busy_sleep_ok)





section \<open>Semaphores\<close>

text \<open>C7: \<^verbatim>\<open>wait\<close> on a semaphore. The count goes down by one without overflow; with a positive count
  the caller goes on, else it is appended to the semaphore's queue and is waiting for that semaphore.\<close>

theorem wait_semaphore:
  assumes "kinv s L" "currpid s \<noteq> NULLPROC" "i \<in> {0..<NSEM}" "sstate (semtab s i) = S_USED"
  shows "fst (wait i s) = OK \<and>
    semcount i (snd (wait i s)) = semcount i s - 1 \<and>
    (0 < scount (semtab s i) \<longrightarrow> currpid (snd (wait i s)) = currpid s) \<and>
    (scount (semtab s i) \<le> 0 \<longrightarrow> qlist (snd (wait i s)) (squeue (semtab s i)) = L (squeue (semtab s i)) @ [currpid s] \<and>
       prstate (proctab (snd (wait i s)) (currpid s)) = PR_WAIT \<and> prsem (proctab (snd (wait i s)) (currpid s)) = i)"
proof (intro conjI impI)
  let ?q = "squeue (semtab s i)" and ?t = "snd (wait i s)"
  have "fst (wait i s) = OK \<and> semtab ?t i = (semtab s i)\<lparr>scount := scount (semtab s i) - 1\<rparr> \<and>
    (0 < scount (semtab s i) \<longrightarrow> currpid ?t = currpid s) \<and>
    (scount (semtab s i) \<le> 0 \<longrightarrow> qlist ?t ?q = L ?q @ [currpid s] \<and>
       prstate (proctab ?t (currpid s)) = PR_WAIT \<and> prsem (proctab ?t (currpid s)) = i)"
  proof (cases "0 < scount (semtab s i)")
    case True
    then show ?thesis using wait_passes [OF assms(1,3,4)] by simp
  next
    case False
    then obtain ys where w: "fst (wait i s) = OK" "kinv ?t (L(?q := L ?q @ [currpid s], readylist s := ys))"
      "semtab ?t = (semtab s)(i := (semtab s i)\<lparr>scount := scount (semtab s i) - 1\<rparr>)"
      using wait_blocks [OF assms] by (metis not_less)
    let ?L = "L(?q := L ?q @ [currpid s], readylist s := ys)"
    have c: "kcore ?t ?L {}" using w(2) by (rule kinvD)
    have q: "squeue (semtab ?t i) = ?q" using w(3) by simp
    have n: "?q \<noteq> readylist s" using qids_okD(5) [OF kcoreD(2) [OF kinvD(1) [OF assms(1)]] assms(3)] .
    have h: "is_head ?t ?q" using qids_okD(4) [OF kcoreD(2) [OF c] assms(3)] q by simp
    have "qlist ?t ?q = L ?q @ [currpid s]" using qrel_qlist [OF kcoreD(1) [OF c] h] n by simp
    then show ?thesis using False w(1,3) waiting_state(2,3) [OF c assms(3), of "currpid s"] q n by simp
  qed
  then show "fst (wait i s) = OK" "semcount i ?t = semcount i s - 1"
    "0 < scount (semtab s i) \<Longrightarrow> currpid ?t = currpid s"
    "scount (semtab s i) \<le> 0 \<Longrightarrow> qlist ?t ?q = L ?q @ [currpid s]"
    "scount (semtab s i) \<le> 0 \<Longrightarrow> prstate (proctab ?t (currpid s)) = PR_WAIT"
    "scount (semtab s i) \<le> 0 \<Longrightarrow> prsem (proctab ?t (currpid s)) = i"
    using assms(3,4) by (auto simp: semcount_def isbadsem_def)
qed

theorem wait_semaphore_witness:
  "prstate (proctab (snd (wait 0 (armed 0))) 1) = PR_WAIT \<and> semcount 0 (snd (wait 0 (armed 0))) = - 1"
  using wait_semaphore [OF armed_facts(1) [of 0], of 0]
  by (simp add: armed_facts semcount_def isbadsem_def)

text \<open>C8: \<^verbatim>\<open>signal\<close> raises the count by one; when processes wait, the one that has waited longest
  leaves the semaphore's queue and is ready or running.\<close>

theorem signal_semaphore:
  assumes "kinv s L" "i \<in> {0..<NSEM}" "sstate (semtab s i) = S_USED" "scount (semtab s i) < 2147483647"
  shows "fst (signal i s) = OK \<and>
    semcount i (snd (signal i s)) = semcount i s + 1 \<and>
    (L (squeue (semtab s i)) = p # xs \<longrightarrow>
       qlist (snd (signal i s)) (squeue (semtab s i)) = xs \<and> on_cpu_or_ready (snd (signal i s)) p)"
proof (intro conjI impI)
  let ?q = "squeue (semtab s i)" and ?t = "signal_one i s"
  have e: "signal i s = (OK, ?t)" using assms(2,3) by (simp add: signal_def isbadsem_def)
  obtain zs ys where w: "kinv ?t (L(?q := zs, readylist s := ys))"
    "semtab ?t = (semtab s)(i := (semtab s i)\<lparr>scount := scount (semtab s i) + 1\<rparr>)"
    "L ?q = [] \<and> zs = [] \<or> (\<exists>p. L ?q = p # zs \<and> on_cpu_or_ready ?t p)"
    by (rule signal_one_kinv [OF assms])
  have n: "?q \<noteq> readylist s" using qids_okD(5) [OF kcoreD(2) [OF kinvD(1) [OF assms(1)]] assms(2)] .
  have h: "is_head ?t ?q" using qids_okD(4) [OF kcoreD(2) [OF kinvD(1) [OF w(1)]] assms(2)] w(2) by simp
  show "fst (signal i s) = OK" using e by simp
  show "semcount i (snd (signal i s)) = semcount i s + 1"
    using e w(2) assms(2,3) by (simp add: semcount_def isbadsem_def)
  show "qlist (snd (signal i s)) ?q = xs" "on_cpu_or_ready (snd (signal i s)) p" if "L ?q = p # xs"
    using that w(3) e qrel_qlist [OF kcoreD(1) [OF kinvD(1) [OF w(1)]] h] n by auto
qed

theorem signal_semaphore_witness: "fst (signal 0 (armed 3)) = OK \<and> semcount 0 (snd (signal 0 (armed 3))) = 4"
  using signal_semaphore [OF armed_facts(1) [of 3], of 0] by (simp add: armed_facts semcount_def isbadsem_def)

text \<open>\<^verbatim>\<open>signaln\<close> with count \<open>n\<close> adds \<open>n\<close> to the semaphore's count, under deferred rescheduling, and leaves the
  kernel consistent.\<close>

theorem signaln_semaphore:
  assumes "kinv s L" "i \<in> {0..<NSEM}" "sstate (semtab s i) = S_USED" "0 \<le> n" "scount (semtab s i) + n \<le> 2147483647"
  shows "fst (signaln i n s) = OK \<and> semcount i s + n = scount (semtab (snd (signaln i n s)) i) \<and>
    ndefers (snd (signaln i n s)) = 0 \<and> (\<exists>L'. kinv (snd (signaln i n s)) L')"
  by (rule signaln_result [OF assms])
    (use assms(2,3) kinvD(3) in \<open>auto simp: semcount_def isbadsem_def\<close>)

theorem signaln_semaphore_witness: "fst (signaln 0 5 (armed 3)) = OK \<and> scount (semtab (snd (signaln 0 5 (armed 3))) 0) = 8"
  using signaln_semaphore [OF armed_facts(1) [of 3], of 0 5] by (simp add: armed_facts semcount_def isbadsem_def)

text \<open>C9: \<^verbatim>\<open>semdelete\<close> of a used semaphore returns (its loop ends), frees the entry, and releases every waiting
  process: the semaphore's queue is empty and nobody is left waiting for it.\<close>

theorem semdelete_releases:
  assumes "kinv s L" "i \<in> {0..<NSEM}" "sstate (semtab s i) = S_USED" "scount (semtab s i) < 2147483647"
  shows "fst (semdelete i s) = OK \<and> semcount i (snd (semdelete i s)) = SYSERR \<and>
    (\<forall>p \<in> {0..<NPROC}. \<not> (prstate (proctab (snd (semdelete i s)) p) = PR_WAIT \<and> prsem (proctab (snd (semdelete i s)) p) = i))"
  by (rule semdelete_result [OF assms])
    (use assms(2) no_waiters [OF kinvD(1) assms(2)] in \<open>simp add: semcount_def\<close>)

theorem semdelete_releases_witness: "fst (semdelete 0 (armed 3)) = OK \<and> semcount 0 (snd (semdelete 0 (armed 3))) = SYSERR"
  using semdelete_releases [OF armed_facts(1) [of 3], of 0] by (simp add: armed_facts)

text \<open>\<^verbatim>\<open>semreset\<close> returns, sets the count, and releases every process that waits for the semaphore.\<close>

theorem semreset_releases:
  assumes "kinv s L" "i \<in> {0..<NSEM}" "sstate (semtab s i) = S_USED" "0 \<le> n" "n \<le> 2147483647"
  shows "fst (semreset i n s) = OK \<and> semcount i (snd (semreset i n s)) = n \<and>
    (\<forall>p \<in> {0..<NPROC}. \<not> (prstate (proctab (snd (semreset i n s)) p) = PR_WAIT \<and> prsem (proctab (snd (semreset i n s)) p) = i))"
  by (rule semreset_result [OF assms])
    (use assms(2,3) no_waiters [OF kinvD(1) assms(2)] in \<open>simp add: semcount_def isbadsem_def\<close>)

theorem semreset_releases_witness: "fst (semreset 0 7 (armed 3)) = OK \<and> semcount 0 (snd (semreset 0 7 (armed 3))) = 7"
  using semreset_releases [OF armed_facts(1) [of 3], of 0 7] by (simp add: armed_facts)

text \<open>\<^verbatim>\<open>semcreate\<close>. A new semaphore was free, is used and has the count asked for, and no other
  entry changes; the call fails only for a negative count or when all entries are used.\<close>

theorem semcreate_allocates:
  assumes "nextsem s \<in> {0..<NSEM}"
  shows "(fst (semcreate n s) = SYSERR \<longleftrightarrow> n < 0 \<or> (\<forall>j \<in> {0..<NSEM}. sstate (semtab s j) = S_USED)) \<and>
    (fst (semcreate n s) = i \<longrightarrow> i \<noteq> SYSERR \<longrightarrow> i \<in> {0..<NSEM} \<and> sstate (semtab s i) = S_FREE \<and>
       semtab (snd (semcreate n s)) = (semtab s)(i := (semtab s i)\<lparr>sstate := S_USED, scount := n\<rparr>))"
proof -
  obtain sem s' where e: "semcreate n s = (sem, s')" by force
  note r = semcreate_result [OF assms e]
  have "semtab s' = (semtab s)(sem := (semtab s sem)\<lparr>sstate := S_USED, scount := n\<rparr>)" if "sem \<noteq> SYSERR"
    using arg_cong [OF conjunct2 [OF conjunct2 [OF r(4) [OF that]]], of semtab] by simp
  then show ?thesis using r(3,4) e by auto
qed

theorem semcreate_allocates_witness: "fst (semcreate 2 idle) \<noteq> SYSERR"
  using semcreate_allocates [of idle 2] idle_facts(10) [of 0] by (force simp: idle_facts(3))

section \<open>Messages\<close>

text \<open>C10: \<^verbatim>\<open>send\<close> delivers exactly one message or fails without effect. A bad process or a full buffer
  gives \<^verbatim>\<open>SYSERR\<close>; otherwise the message is in the receiver's buffer, a receiver that was blocked is ready or
  running, and no other process's buffer changes.\<close>

theorem send_message:
  assumes "kinv s L"
  shows "if isbadpid (proctab s) p \<or> prhasmsg (proctab s p) then send p m s = (SYSERR, s)
    else fst (send p m s) = OK \<and> prhasmsg (proctab (snd (send p m s)) p) \<and> prmsg (proctab (snd (send p m s)) p) = m \<and>
      (prstate (proctab s p) \<in> {PR_RECV, PR_RECTIM} \<longrightarrow> on_cpu_or_ready (snd (send p m s)) p) \<and>
      (\<forall>q. q \<noteq> p \<longrightarrow> prhasmsg (proctab (snd (send p m s)) q) = prhasmsg (proctab s q) \<and>
         prmsg (proctab (snd (send p m s)) q) = prmsg (proctab s q))"
  by (rule send_delivers [OF assms])

theorem send_message_witness: "fst (send 1 42 busy) = OK \<and> prmsg (proctab (snd (send 1 42 busy)) 1) = 42"
  using send_message [OF busy_facts(1), of 1 42] by (simp add: isbadpid_def busy_facts)

text \<open>C11: the rendezvous of \<^verbatim>\<open>receive\<close> and \<^verbatim>\<open>send\<close>. With a message in the buffer \<^verbatim>\<open>receive\<close> returns it at once and
  empties the buffer. Without one the caller gives up the processor and waits in state \<^verbatim>\<open>PR_RECV\<close>; the \<^verbatim>\<open>send\<close> of the
  process that runs then succeeds and makes the receiver ready or running, a second \<^verbatim>\<open>send\<close> is refused without
  effect, and if the receiver is running after the \<^verbatim>\<open>send\<close> its suspended \<^verbatim>\<open>receive\<close> returns the word that was sent and empties the buffer.\<close>

theorem receive_rendezvous:
  fixes m m' :: umsg32
  assumes "kinv s L" "currpid s \<noteq> NULLPROC" "pframe s (currpid s) = None"
  defines "p \<equiv> currpid s" and "s1 \<equiv> snd (receive s)"
  defines "s2 \<equiv> snd (send p m s1)"
  shows "if prhasmsg (proctab s p)
    then fst (receive s) = Some (prmsg (proctab s p)) \<and> currpid s1 = p \<and> \<not> prhasmsg (proctab s1 p)
    else fst (receive s) = None \<and> currpid s1 \<noteq> p \<and> prstate (proctab s1 p) = PR_RECV \<and> pframe s1 p = Some F_receive \<and>
      fst (send p m s1) = OK \<and> on_cpu_or_ready s2 p \<and> send p m' s2 = (SYSERR, s2) \<and> pframe s2 p = Some F_receive \<and>
      (currpid s2 = p \<longrightarrow>
         fst (receive_ret (unframe s2)) = m \<and> \<not> prhasmsg (proctab (snd (receive_ret (unframe s2))) p))"
proof (cases "prhasmsg (proctab s p)")
  case True
  then show ?thesis using receive_at_once [of s] by (simp add: p_def s1_def upd_proc_def)
next
  case False
  note R = receive_blocks [OF assms(1-3) False [unfolded p_def], folded p_def s1_def]
  obtain L1 where k1: "kinv s1 L1" using receive_kinv [OF assms(1-3)] by (auto simp: s1_def)
  have p: "\<not> isbadpid (proctab s1) p" using kinvD(5) [OF assms(1)] R(3) by (simp add: isbadpid_def p_def)
  note S = send_delivers [OF k1, of p m, folded s2_def]
  have S2: "prhasmsg (proctab s2 p)" "prmsg (proctab s2 p) = m" using S p R(4) by simp_all
  have "send p m' s2 = (SYSERR, s2)" using S2(1) by (simp add: send_def)
  moreover have "pframe s2 p = Some F_receive" using R(5) by (simp add: s2_def)
  ultimately show ?thesis using False R p S S2 by (simp add: receive_ret_def unframe_def upd_proc_def)
qed

theorem receive_rendezvous_witness: "fst (receive busy) = None \<and> fst (send 1 42 (snd (receive busy))) = OK \<and>
  send 1 43 (snd (send 1 42 (snd (receive busy)))) = (SYSERR, snd (send 1 42 (snd (receive busy)))) \<and>
  fst (receive_ret (unframe (snd (send 1 42 (snd (receive busy)))))) = 42"
  using receive_rendezvous [OF busy_facts(1), of 42 43] by (simp add: busy_facts busy_rendezvous)
section \<open>Memory\<close>

text \<open>C12: the heap allocator. \<^verbatim>\<open>getmem\<close> ends; it returns \<^verbatim>\<open>SYSERR\<close> and changes nothing exactly when no
  free block is large enough, else the first large enough block is cut and its first bytes are handed out:
  they were free and are free no more, all other free bytes stay free.\<close>

theorem getmem_first_fit:
  assumes "mem_ok m bs" "0 < n0" "n0 < 4294967289"
  shows "getmem n0 m = Some (None, m) \<and> (\<forall>(b, l) \<in> set bs. l < roundmb n0) \<or>
    (\<exists>us b l vs m'. bs = us @ (b, l) # vs \<and> (\<forall>(b, l) \<in> set us. l < roundmb n0) \<and> roundmb n0 \<le> l \<and>
       getmem n0 m = Some (Some b, m') \<and> mem_ok m' (us @ carve_low (roundmb n0) b l @ vs) \<and>
       free_bytes (us @ carve_low (roundmb n0) b l @ vs) = free_bytes bs - {b..<b + roundmb n0})"
proof -
  have r: "0 < roundmb n0" using good_roundmb(2) assms(2,3) by (simp add: good_size_def)
  show ?thesis
  proof (rule getmem_result [OF assms(1,2) refl r])
    fix us b l vs m'
    assume *: "bs = us @ (b, l) # vs" "\<forall>(b, l) \<in> set us. l < roundmb n0" "roundmb n0 \<le> l"
      "getmem n0 m = Some (Some b, m')" "mem_ok m' (us @ carve_low (roundmb n0) b l @ vs)"
    have "blocks_ok (minheap m) (maxheap m) (us @ (b, l) # vs)" using assms(1) *(1) by (simp add: mem_ok_def)
    from carve_bytes(1) [OF this *(3)] * show ?thesis by blast
  qed blast
qed

text \<open>The heap that \<^verbatim>\<open>meminit\<close> leaves, 64 KB of it, as a memory to apply the properties to.\<close>

definition heap0 :: memory where
  "heap0 = meminit 16 \<lparr>mem = (\<lambda>_. 0), memlist = 8, minheap = 0, maxheap = 0\<rparr>"

lemma heap0_ok: "mem_ok heap0 [(16, MAXADDR - 16)]"
  unfolding heap0_def by (rule meminit_ok) simp_all

theorem getmem_first_fit_witness: "\<exists>m'. getmem 100 heap0 = Some (Some 16, m')"
  using getmem_first_fit [OF heap0_ok, of 100] by (auto simp: roundmb_eq Cons_eq_append_conv)

lemmas mem_eval = getmem_def getmem_scan_def getstk_def getstk_scan_def freemem_def freemem_scan_def freemem_link_def freestk_def
  mnext_def mlength_def set_mnext_def set_mlength_def roundmb_eq u32_def Let_def while_option_unfold

lemma heap0_eval: "heap0 = \<lparr>mem = (\<lambda>_. 0)(8 := 16, 16 := 0, 20 := 2684354544, 12 := 2684354544), memlist = 8, minheap = 16, maxheap = 2684354560\<rparr>"
  by (simp add: heap0_def meminit_def mnext_def mlength_def set_mnext_def set_mlength_def Let_def)

lemma heap0_history: "map_option snd (mem_run [Get 100, Stk 200, Put 20 7, Get 50, Rel 2, Stk 64, Get 24] (heap0, [])) = 
   Some [Heap 16 24, Stack 2684354356 64, Heap 120 50, Stack 2684354556 200]"
  by (simp add: heap0_eval keep_def mem_span_def stk_span_def mem_eval fun_upd_def)

text \<open>C13: allocated memory is private. After any sequence of allocations from \<^verbatim>\<open>getmem\<close> and \<^verbatim>\<open>getstk\<close> (of sizes from 1 to
  \<^verbatim>\<open>0xFFFFFFF8\<close>), of stores into blocks in use and of releases of blocks in use by \<^verbatim>\<open>freemem\<close> and \<^verbatim>\<open>freestk\<close>, all calls have
  ended, every release was accepted, no two blocks in use overlap, none overlaps the free memory, and the blocks in use together with the free
  memory are exactly the bytes that were free at the start.\<close>

theorem blocks_disjoint:
  assumes "mem_free m A" "list_all sized xs"
  shows "\<exists>m' bs F. mem_run xs (m, []) = Some (m', bs) \<and> mem_free m' F \<and>
    (\<forall>i < length bs. \<forall>j < i. bspan (bs ! i) \<inter> bspan (bs ! j) = {}) \<and>
    (\<forall>b \<in> set bs. bspan b \<noteq> {} \<and> bspan b \<inter> F = {}) \<and> F \<union> (\<Union>b \<in> set bs. bspan b) = A"
proof -
  obtain m' bs where r: "mem_run xs (m, []) = Some (m', bs)" "books A m' bs"
    using mem_run_books [OF books_start [OF assms(1)] assms(2)] by blast
  then obtain F where "mem_free m' F" "F \<union> (\<Union>b \<in> set bs. bspan b) = A" "\<forall>b \<in> set bs. bspan b \<inter> F = {}"
    by (auto simp: books_def)
  moreover have "\<forall>i < length bs. \<forall>j < i. bspan (bs ! i) \<inter> bspan (bs ! j) = {}" "\<forall>b \<in> set bs. bspan b \<noteq> {}"
    using r(2) blocks_apart_nth by (auto simp: books_def)
  ultimately show ?thesis using r(1) by blast
qed

theorem blocks_disjoint_witness:
  "\<exists>m' F. mem_run [Get 100, Stk 200, Put 20 7, Get 50, Rel 2, Stk 64, Get 24] (heap0, []) =
       Some (m', [Heap 16 24, Stack 2684354356 64, Heap 120 50, Stack 2684354556 200]) \<and>
     mem_free m' F \<and> mem_span 16 24 \<inter> F = {} \<and> mem_span 16 24 \<inter> stk_span 2684354356 64 = {} \<and>
     F \<union> (mem_span 16 24 \<union> stk_span 2684354356 64 \<union> mem_span 120 50 \<union> stk_span 2684354556 200) = free_bytes [(16, MAXADDR - 16)]"
proof -
  let ?xs = "[Get 100, Stk 200, Put 20 7, Get 50, Rel 2, Stk 64, Get 24]"
  let ?bs = "[Heap 16 24, Stack 2684354356 64, Heap 120 50, Stack 2684354556 200]"
  have f: "mem_free heap0 (free_bytes [(16, MAXADDR - 16)])" using heap0_ok by (auto simp: mem_free_def)
  have z: "list_all sized ?xs" by (simp add: good_size_def)
  obtain m' bs F where r: "mem_run ?xs (heap0, []) = Some (m', bs)" "mem_free m' F"
      "\<forall>i < length bs. \<forall>j < i. bspan (bs ! i) \<inter> bspan (bs ! j) = {}"
      "\<forall>b \<in> set bs. bspan b \<noteq> {} \<and> bspan b \<inter> F = {}" "F \<union> (\<Union>b \<in> set bs. bspan b) = free_bytes [(16, MAXADDR - 16)]"
    using blocks_disjoint [OF f z] by (elim exE conjE) rule
  have bs: "bs = ?bs" using heap0_history r(1) by simp
  have "bspan (bs ! 1) \<inter> bspan (bs ! 0) = {}" by (rule r(3) [rule_format]) (simp_all add: bs)
  then have "mem_span 16 24 \<inter> stk_span 2684354356 64 = {}" unfolding bs by (simp add: Int_commute)
  then show ?thesis using r(1,2,4,5) unfolding bs by (intro exI [of _ m'] exI [of _ F]) (simp add: Un_assoc)
qed

text \<open>C14: releasing is the inverse of allocating. A block from \<^verbatim>\<open>getmem\<close> given back with \<^verbatim>\<open>freemem\<close>, or a stack
  from \<^verbatim>\<open>getstk\<close> given back with \<^verbatim>\<open>freestk\<close>, is accepted, and exactly the bytes free before are free
  again, adjacent blocks coalesced.\<close>

theorem alloc_free_roundtrip:
  assumes "mem_free m F" "good_size n"
  shows "(getmem n m = Some (Some p, m1) \<longrightarrow> (\<exists>m2. freemem p n m1 = Some (OK, m2) \<and> mem_free m2 F)) \<and>
    (getstk n m = Some (Some p, m1) \<longrightarrow> (\<exists>m2. freestk p n m1 = Some (OK, m2) \<and> mem_free m2 F))"
  using heap.alloc_release [OF assms] stacks.alloc_release [OF assms] by blast+

theorem alloc_free_roundtrip_witness:
  "\<exists>p m1 m2. getstk 8192 heap0 = Some (Some p, m1) \<and> freestk p 8192 m1 = Some (OK, m2) \<and>
     mem_free m2 (free_bytes [(16, MAXADDR - 16)])"
proof -
  have f: "mem_free heap0 (free_bytes [(16, MAXADDR - 16)])" using heap0_ok by (auto simp: mem_free_def)
  obtain p m1 where g: "getstk 8192 heap0 = Some (Some p, m1)"
    by (rule getstk_result [OF heap0_ok, of 8192]) (auto simp: roundmb_eq)
  have "good_size 8192" by (simp add: good_size_def)
  from alloc_free_roundtrip [OF f this] g show ?thesis by blast
qed

text \<open>a second release is refused. After a block of the heap that was in use has been freed, freeing it again
  returns \<^verbatim>\<open>SYSERR\<close> and leaves the memory as it is.\<close>

theorem double_free_refused:
  assumes "mem_free m F" "good_size n" "mem_span p n \<subseteq> heap_range m" "mem_span p n \<inter> F = {}"
    and "freemem p n m = Some (OK, m1)"
  shows "freemem p n m1 = Some (SYSERR, m1)"
proof -
  have "mem_span p n \<noteq> {}" using good_roundmb(2) [OF assms(2)] by (auto simp: mem_span_def)
  then show ?thesis by (rule heap.double_release [OF assms(1-4) _ assms(5)])
qed

theorem double_free_refused_witness:
  "\<exists>m1 m2. getmem 100 heap0 = Some (Some 16, m1) \<and> freemem 16 100 m1 = Some (OK, m2) \<and> freemem 16 100 m2 = Some (SYSERR, m2)"
proof -
  have f: "mem_free heap0 (free_bytes [(16, MAXADDR - 16)])" using heap0_ok by (auto simp: mem_free_def)
  have g: "good_size 100" by (simp add: good_size_def)
  obtain p m1 where a: "getmem 100 heap0 = Some (Some p, m1)" "p = 16"
    by (rule getmem_result [OF heap0_ok, of 100]) (auto simp: roundmb_eq Cons_eq_append_conv)
  note al = getmem_alloc(2) [OF f g a(1) refl]
  obtain m2 where m2: "freemem p 100 m1 = Some (OK, m2)" using heap.alloc_release [OF f g a(1)] by blast
  have sp: "mem_span p 100 \<subseteq> heap_range m1" using al mem_free_heap [OF f] by auto
  have "mem_free m1 (free_bytes [(16, MAXADDR - 16)] - mem_span p 100)" using al by blast
  from double_free_refused [OF this g sp _ m2] a m2 show ?thesis by blast
qed

text \<open>C15: the end of the size range. For the seven largest sizes the rounding wraps to 0, and \<^verbatim>\<open>getmem\<close> returns
  the address of a block that stays on the free list.\<close>

theorem getmem_wraps:
  assumes "mem_ok m ((b, l) # bs)" "4294967289 \<le> n" "n < 4294967296"
  shows "getmem n m = Some (Some b, m) \<and>
    b \<in> free_bytes ((b, l) # bs)"
proof (intro conjI impI)
  show "getmem n m = Some (Some b, m)" by (rule getmem_huge [OF assms])
  have "blocks_ok (minheap m) (maxheap m) ((b, l) # bs)" using assms(1) by (simp add: mem_ok_def)
  from block_bytes [OF this, of b l 0] show "b \<in> free_bytes ((b, l) # bs)" by simp
qed

theorem getmem_wraps_witness: "getmem 4294967295 heap0 = Some (Some 16, heap0)"
  using getmem_wraps [OF heap0_ok, of 4294967295] by simp

section \<open>Processes\<close>

text \<open>C16: creating a process. When \<^verbatim>\<open>create\<close> returns a process identifier, that slot was free and now holds a suspended
  process with the given priority and name, the creator as its parent, and a stack of the size asked for cut
  from the free memory; every other process is untouched and the kernel invariant holds.\<close>

theorem create_new_process:
  assumes "kinv s L" "kmem_ok s F" "0 \<le> nextpid s" "args_fit args n"
    and "create procaddr n pr name args initret s = (r, s')" "r \<noteq> SYSERR"
  shows "\<exists>e. kinv s' L \<and> r \<in> {0..<NPROC} \<and> prstate (proctab s r) = PR_FREE \<and> proctab s' = (proctab s)(r := e) \<and>
    prstate e = PR_SUSP \<and> prprio e = s16 pr \<and> prparent e = currpid s \<and> prname e = take 15 name \<and> prstklen e = stk_size n \<and>
    stk_span (prstkbase e) (stk_size n) \<subseteq> F \<and> kmem_ok s' (F - stk_span (prstkbase e) (stk_size n)) \<and>
    prstkptr e = prstkbase e - 4 * (length args - 4 + 15)"
  by (rule create_result [OF assms(1-5)]) (use assms(6) in \<open>simp, simp, blast\<close>)

theorem create_new_process_witness:
  "\<exists>e. proctab (snd (create 4096 400 20 ''main'' [] 0 idle)) = (proctab idle)(1 := e) \<and> prstate e = PR_SUSP \<and> prprio e = 20"
proof -
  obtain F where F: "kmem_ok idle F" using idle_facts(2) by blast
  have a: "args_fit [] 400" by (simp add: args_fit_def stk_size_def roundew_eq)
  obtain s' where c: "create 4096 400 20 ''main'' [] 0 idle = (1, s')"
    using idle_create(1) by (cases "create 4096 400 20 ''main'' [] 0 idle") simp
  have n: "0 \<le> nextpid idle" by (simp add: idle_facts)
  from create_new_process [OF idle_facts(1) F n a c] c show ?thesis by auto
qed

text \<open>C17: a failed \<^verbatim>\<open>create\<close> loses the stack. Called with a priority below 1 when there is memory, it returns
  \<^verbatim>\<open>SYSERR\<close> and makes no process, but the stack it has allocated by then is not given back: its bytes are not free
  any more.\<close>

theorem create_loses_stack:
  assumes "kmem_ok s F" "0 \<le> nextpid s" "n < 4294967280" "s16 pr < 1" "getstk (stk_size n) (kmem s) = Some (Some a, m)"
  shows "fst (create procaddr n pr name args initret s) = SYSERR \<and>
    proctab (snd (create procaddr n pr name args initret s)) = proctab s \<and>
    stk_span a (stk_size n) \<subseteq> F \<and>
    stk_span a (stk_size n) \<noteq> {} \<and>
    kmem_ok (snd (create procaddr n pr name args initret s)) (F - stk_span a (stk_size n))"
proof (intro conjI impI)
  let ?c = "create procaddr n pr name args initret s"
  have f: "mem_free (kmem s) F" using assms(1) by (simp add: kmem_ok_def)
  note g = getstk_alloc(2) [OF f stk_size_good(1) [OF assms(3)] assms(5) refl]
  obtain pid s1 where np: "newpid (s\<lparr>kmem := m\<rparr>) = (pid, s1)" by force
  have e: "s1 = (s\<lparr>kmem := m\<rparr>)\<lparr>nextpid := nextpid s1\<rparr>" by (rule newpid_result(2) [OF _ np]) (simp add: assms(2))
  have "?c = (SYSERR, s1)" using np assms(4,5) by (simp add: create_def stk_size_def Let_def)
  then show "fst ?c = SYSERR" "proctab (snd ?c) = proctab s" "kmem_ok (snd ?c) (F - stk_span a (stk_size n))"
    using arg_cong [OF e, of proctab] arg_cong [OF e, of kmem] assms(1) g heap_range_stk_ok [of m "kmem s"]
    by (auto simp: kmem_ok_def)
  show "stk_span a (stk_size n) \<subseteq> F" "stk_span a (stk_size n) \<noteq> {}" using g by blast+
qed

theorem create_loses_stack_witness: "fst (create 4096 400 0 ''main'' [] 0 idle) = SYSERR"
proof -
  obtain F where F: "kmem_ok idle F" using idle_facts(2) by blast
  have z: "stk_size 400 = 400" by (simp add: stk_size_def roundew_eq)
  obtain m where m: "getstk (stk_size 400) (kmem idle) = Some (Some 2684346364, m)" using idle_create(2) unfolding z by blast
  show ?thesis using create_loses_stack [OF F _ _ _ m, of 0] by (simp add: idle_facts)
qed

text \<open>\<^verbatim>\<open>kill\<close>, of any process in any state (running, ready, suspended, sleeping, waiting for a message or a
  semaphore), either stops the machine, when it kills the last user process, or keeps the kernel and
  memory invariants; killing a bad identifier or the null process changes nothing.\<close>

theorem kill_keeps_invariant:
  assumes "kinv s L" "kmem_ok s F"
  shows "(kstat (snd (kill p s)) = Halted \<or> (\<exists>L' F'. kinv (snd (kill p s)) L' \<and> kmem_ok (snd (kill p s)) F')) \<and>
    (isbadpid (proctab s) p \<or> p = NULLPROC \<longrightarrow> kill p s = (Some SYSERR, s))"
  using kill_kinv [OF assms] by (auto simp: kill_def)

theorem kill_keeps_invariant_witness: "kill 5 idle = (Some SYSERR, idle)"
proof -
  obtain F where F: "kmem_ok idle F" using idle_facts(2) by blast
  show ?thesis using kill_keeps_invariant [OF idle_facts(1) F, of 5] by (simp add: isbadpid_def)
qed

end
